(* ===== verification/Prelude.thy ===== *)
theory Prelude
  imports Main "HOL-Library.Word" "HOL-Library.Sublist"
begin

text \<open>
  The shared ground of the development: the byte and result types, the lemma
  collections the component theories fill, and the generic facts on lists and options
  that more than one of them uses.
\<close>

section \<open>Types and collections\<close>

type_synonym byte = "8 word"
type_synonym bytes = "byte list"

text \<open>
  A \<^verbatim>\<open>Result<T, E>\<close> of the source is a sum: \<^term>\<open>Inl e\<close> is \<^verbatim>\<open>Err(e)\<close>,
  \<^term>\<open>Inr v\<close> is \<^verbatim>\<open>Ok(v)\<close>. \<open>Result<void, E>\<close> carries the unit value.
\<close>

type_synonym ('e, 'a) result = "'e + 'a"

abbreviation is_err :: "('e, 'a) result \<Rightarrow> bool" where
  "is_err r \<equiv> isl r"

named_theorems chunk_simps \<open>cutting and joining byte runs\<close>
named_theorems table_simps \<open>rows of keyed tables\<close>
named_theorems frame_simps \<open>fields of encoded frames\<close>

section \<open>Lists\<close>

lemma sum_list_replicate_zero [simp]: "(\<Sum>x\<leftarrow>replicate n a. f x) = of_nat n * (f a :: nat)"
  by (induction n) auto

lemma last_in_filter: "filter P xs \<noteq> [] \<Longrightarrow> P (last (filter P xs))"
  using last_in_set [of "filter P xs"] by auto

lemma concat_map_filter:
  "(\<And>x. x \<in> set xs \<Longrightarrow> \<not> P x \<Longrightarrow> f x = []) \<Longrightarrow>
   concat (map f (filter P xs)) = concat (map f xs)"
  by (induction xs) auto

lemma filter_concat_map:
  "(\<And>x y. x \<in> set xs \<Longrightarrow> y \<in> set (f x) \<Longrightarrow> Q y \<longleftrightarrow> P x) \<Longrightarrow>
   filter Q (concat (map f xs)) = concat (map f (filter P xs))"
proof (induction xs)
  case Nil
  then show ?case by simp
next
  case (Cons x xs)
  have hd: "filter Q (f x) = (if P x then f x else [])"
    using Cons.prems [of x] by (auto intro: filter_True filter_False)
  have "filter Q (concat (map f xs)) = concat (map f (filter P xs))"
    by (rule Cons.IH) (simp add: Cons.prems)
  with hd show ?case by simp
qed

text \<open>A list of consecutive positions, as the log numbers its entries.\<close>

lemma upt_Suc_append': "i \<le> j \<Longrightarrow> [i..<Suc j] = [i..<j] @ [j]"
  by simp

lemma filter_upt_greater: "filter (\<lambda>x. c < x) [a..<b] = [max a (Suc c)..<b]"
proof (induction b)
  case 0
  then show ?case by simp
next
  case (Suc b)
  then show ?case by (auto simp: max_def)
qed

end
