(* ===== verification/Js_Text.thy ===== *)
theory Js_Text
  imports Prelude
begin

text \<open>
  The part of JavaScript's text handling the program uses: a string as its list of UTF-16
  code units, number rendering in template literals, and the \<^verbatim>\<open>TextEncoder\<close> and
  \<^verbatim>\<open>TextDecoder\<close> of the platform (UTF-8 with replacement of what is malformed, a leading
  byte order mark dropped). The theorem is that decoding an encoded string gives the string
  back, for every string without unpaired surrogates and without a leading mark.
\<close>

section \<open>Strings\<close>

text \<open>Code units are natural numbers below 65536.\<close>

type_synonym jsstring = "nat list"

definition js :: "string \<Rightarrow> jsstring" where
  "js s = map (\<lambda>c. of_char c) s"

fun digits :: "nat \<Rightarrow> jsstring" where
  "digits n = (if n < 10 then [48 + n] else digits (n div 10) @ [48 + n mod 10])"

declare digits.simps [simp del]

definition show_nat :: "nat \<Rightarrow> jsstring" where
  "show_nat n = digits n"

definition high_surrogate :: "nat \<Rightarrow> bool" where
  "high_surrogate u \<longleftrightarrow> 0xD800 \<le> u \<and> u < 0xDC00"

definition low_surrogate :: "nat \<Rightarrow> bool" where
  "low_surrogate u \<longleftrightarrow> 0xDC00 \<le> u \<and> u < 0xE000"

text \<open>The scalar values of a string: pairs are joined, an unpaired surrogate is U+FFFD.\<close>

fun to_scalars :: "jsstring \<Rightarrow> nat list" where
  "to_scalars [] = []"
| "to_scalars [u] = [if high_surrogate u \<or> low_surrogate u then 0xFFFD else u]"
| "to_scalars (u # v # us) =
     (if high_surrogate u \<and> low_surrogate v
      then (0x10000 + (u - 0xD800) * 0x400 + (v - 0xDC00)) # to_scalars us
      else (if high_surrogate u \<or> low_surrogate u then 0xFFFD else u) # to_scalars (v # us))"

definition units_of :: "nat \<Rightarrow> jsstring" where
  "units_of c = (if c < 0x10000 then [c]
     else [0xD800 + (c - 0x10000) div 0x400, 0xDC00 + (c - 0x10000) mod 0x400])"

definition from_scalars :: "nat list \<Rightarrow> jsstring" where
  "from_scalars cs = concat (map units_of cs)"

section \<open>UTF-8\<close>

definition utf8_of :: "nat \<Rightarrow> nat list" where
  "utf8_of c =
     (if c < 0x80 then [c]
      else if c < 0x800 then [0xC0 + c div 64, 0x80 + c mod 64]
      else if c < 0x10000 then [0xE0 + c div 4096, 0x80 + (c div 64) mod 64, 0x80 + c mod 64]
      else [0xF0 + c div 262144, 0x80 + (c div 4096) mod 64, 0x80 + (c div 64) mod 64,
            0x80 + c mod 64])"

definition text_encode :: "jsstring \<Rightarrow> bytes" where
  "text_encode s = map word_of_nat (concat (map utf8_of (to_scalars s)))"

text \<open>
  The decoder of the Encoding Standard: \<open>cp\<close> is the code point so far, \<open>more\<close> how many
  continuation bytes are still needed, and the next one must lie in \<open>lo .. hi\<close>. A byte
  outside the range ends the sequence with U+FFFD and is read again from the start.
\<close>

function utf8_decode :: "nat \<Rightarrow> nat \<Rightarrow> nat \<Rightarrow> nat \<Rightarrow> nat list \<Rightarrow> nat list" where
  "utf8_decode cp more lo hi [] = (if more = 0 then [] else [0xFFFD])"
| "utf8_decode cp more lo hi (b # bs) =
     (if more = 0 then
        (if b \<le> 0x7F then b # utf8_decode 0 0 0x80 0xBF bs
         else if 0xC2 \<le> b \<and> b \<le> 0xDF then utf8_decode (b - 0xC0) 1 0x80 0xBF bs
         else if 0xE0 \<le> b \<and> b \<le> 0xEF then
           utf8_decode (b - 0xE0) 2 (if b = 0xE0 then 0xA0 else 0x80)
             (if b = 0xED then 0x9F else 0xBF) bs
         else if 0xF0 \<le> b \<and> b \<le> 0xF4 then
           utf8_decode (b - 0xF0) 3 (if b = 0xF0 then 0x90 else 0x80)
             (if b = 0xF4 then 0x8F else 0xBF) bs
         else 0xFFFD # utf8_decode 0 0 0x80 0xBF bs)
      else if \<not> (lo \<le> b \<and> b \<le> hi) then 0xFFFD # utf8_decode 0 0 0x80 0xBF (b # bs)
      else if more = 1 then (cp * 64 + (b - 0x80)) # utf8_decode 0 0 0x80 0xBF bs
      else utf8_decode (cp * 64 + (b - 0x80)) (more - 1) 0x80 0xBF bs)"
  by pat_completeness auto
termination
  by (relation "measure (\<lambda>(cp, more, lo, hi, bs). 2 * length bs + (if more = 0 then 0 else 1))") auto

definition text_decode :: "bytes \<Rightarrow> jsstring" where
  "text_decode bs =
     (let cs = utf8_decode 0 0 0x80 0xBF (map unat bs)
      in from_scalars (if cs \<noteq> [] \<and> hd cs = 0xFEFF then tl cs else cs))"

section \<open>The round trip\<close>

definition scalar :: "nat \<Rightarrow> bool" where
  "scalar c \<longleftrightarrow> c < 0x110000 \<and> \<not> (0xD800 \<le> c \<and> c < 0xE000)"

text \<open>A string whose surrogates are all paired.\<close>

fun well_formed :: "jsstring \<Rightarrow> bool" where
  "well_formed [] = True"
| "well_formed [u] = (u < 0x10000 \<and> \<not> high_surrogate u \<and> \<not> low_surrogate u)"
| "well_formed (u # v # us) =
     (if high_surrogate u then low_surrogate v \<and> well_formed us
      else u < 0x10000 \<and> \<not> low_surrogate u \<and> well_formed (v # us))"

lemma utf8_of_byte: "scalar c \<Longrightarrow> b \<in> set (utf8_of c) \<Longrightarrow> b < 256"
  by (auto simp: utf8_of_def scalar_def split: if_splits)

text \<open>The decoder on one complete sequence of two, three and four bytes.\<close>

lemma utf8_two:
  "2 \<le> x \<Longrightarrow> x < 32 \<Longrightarrow> y < 64 \<Longrightarrow>
   utf8_decode 0 0 0x80 0xBF ((0xC0 + x) # (0x80 + y) # bs)
     = (x * 64 + y) # utf8_decode 0 0 0x80 0xBF bs"
  by simp

lemma utf8_three:
  "x < 16 \<Longrightarrow> y < 64 \<Longrightarrow> z < 64 \<Longrightarrow> (x = 0 \<Longrightarrow> 32 \<le> y) \<Longrightarrow> (x = 13 \<Longrightarrow> y < 32) \<Longrightarrow>
   utf8_decode 0 0 0x80 0xBF ((0xE0 + x) # (0x80 + y) # (0x80 + z) # bs)
     = ((x * 64 + y) * 64 + z) # utf8_decode 0 0 0x80 0xBF bs"
  by (simp, linarith)

lemma utf8_four:
  "w < 5 \<Longrightarrow> x < 64 \<Longrightarrow> y < 64 \<Longrightarrow> z < 64 \<Longrightarrow> (w = 0 \<Longrightarrow> 16 \<le> x) \<Longrightarrow> (w = 4 \<Longrightarrow> x < 16) \<Longrightarrow>
   utf8_decode 0 0 0x80 0xBF ((0xF0 + w) # (0x80 + x) # (0x80 + y) # (0x80 + z) # bs)
     = (((w * 64 + x) * 64 + y) * 64 + z) # utf8_decode 0 0 0x80 0xBF bs"
  by (simp, linarith)

lemma split64: "n div 64 * 64 + n mod 64 = (n::nat)"
  by simp

lemma utf8_decode_utf8_of:
  assumes "scalar c"
  shows "utf8_decode 0 0 0x80 0xBF (utf8_of c @ bs) = c # utf8_decode 0 0 0x80 0xBF bs"
proof -
  have d2: "c div 4096 = c div 64 div 64" by (simp add: div_mult2_eq [symmetric])
  have d3: "c div 262144 = c div 64 div 64 div 64" by (simp add: div_mult2_eq [symmetric])
  consider (a) "c < 0x80" | (b) "0x80 \<le> c" "c < 0x800"
    | (c) "0x800 \<le> c" "c < 0x10000" | (d) "0x10000 \<le> c" by linarith
  then show ?thesis
  proof cases
    case a
    then show ?thesis by (simp add: utf8_of_def)
  next
    case b
    have lo: "2 \<le> c div 64" using b div_le_mono [of 128 c 64] by simp
    have hi: "c div 64 < 32" using b by (simp add: less_mult_imp_div_less)
    have "c mod 64 < 64" by simp
    note dec = utf8_two [OF lo hi this, of bs, unfolded split64]
    have "utf8_of c = [0xC0 + c div 64, 0x80 + c mod 64]" using b by (simp add: utf8_of_def)
    then show ?thesis using dec by (simp only: append.simps)
  next
    case c
    have x: "c div 64 div 64 < 16" using c by (simp add: div_mult2_eq [symmetric] less_mult_imp_div_less)
    have lo: "c div 64 div 64 = 0 \<Longrightarrow> 32 \<le> c div 64 mod 64"
      using c div_le_mono [of 2048 c 64] by simp
    have hi: "c div 64 mod 64 < 32" if "c div 64 div 64 = 13"
    proof (rule ccontr)
      assume "\<not> ?thesis"
      moreover have "c div 64 = c div 64 div 64 * 64 + c div 64 mod 64" "c div 64 mod 64 < 64"
        by simp_all
      ultimately have "864 \<le> c div 64" "c div 64 < 896" using that by linarith+
      then have "55296 \<le> c" "c < 57344" by linarith+
      with assms show False by (simp add: scalar_def)
    qed
    have m: "c div 64 mod 64 < 64" "c mod 64 < 64" by simp_all
    note dec = utf8_three [OF x m lo hi, of bs, unfolded split64]
    have "utf8_of c = [0xE0 + c div 64 div 64, 0x80 + c div 64 mod 64, 0x80 + c mod 64]"
      using c by (simp add: utf8_of_def d2)
    then show ?thesis using dec by (simp only: append.simps)
  next
    case d
    have w: "c div 64 div 64 div 64 < 5"
      using assms by (simp add: scalar_def div_mult2_eq [symmetric] less_mult_imp_div_less)
    have n: "16 \<le> c div 64 div 64" "c div 64 div 64 < 272"
      using d assms div_le_mono [of 65536 c 4096]
      by (simp_all add: scalar_def div_mult2_eq [symmetric] less_mult_imp_div_less)
    have lo: "c div 64 div 64 div 64 = 0 \<Longrightarrow> 16 \<le> c div 64 div 64 mod 64"
      and hi: "c div 64 div 64 div 64 = 4 \<Longrightarrow> c div 64 div 64 mod 64 < 16"
      using n split64 [of "c div 64 div 64"] by linarith+
    have m: "c div 64 div 64 mod 64 < 64" "c div 64 mod 64 < 64" "c mod 64 < 64" by simp_all
    note dec = utf8_four [OF w m lo hi, of bs, unfolded split64]
    have "utf8_of c = [0xF0 + c div 64 div 64 div 64, 0x80 + c div 64 div 64 mod 64,
        0x80 + c div 64 mod 64, 0x80 + c mod 64]"
      using d by (simp add: utf8_of_def d2 d3)
    then show ?thesis using dec by (simp only: append.simps)
  qed
qed

lemma utf8_decode_concat:
  "\<forall>c\<in>set cs. scalar c \<Longrightarrow> utf8_decode 0 0 0x80 0xBF (concat (map utf8_of cs)) = cs"
proof (induction cs)
  case Nil
  then show ?case by simp
next
  case (Cons c cs)
  then show ?case by (simp only: list.map concat.simps utf8_decode_utf8_of list.set_intros Ball_def) auto
qed

lemma well_formed_scalars:
  "well_formed s \<Longrightarrow> (\<forall>c\<in>set (to_scalars s). scalar c) \<and> from_scalars (to_scalars s) = s"
proof (induction s rule: to_scalars.induct)
  case 1
  then show ?case by (simp add: from_scalars_def)
next
  case (2 u)
  then show ?case
    by (auto simp: scalar_def from_scalars_def units_of_def high_surrogate_def low_surrogate_def)
next
  case (3 u v us)
  show ?case
  proof (cases "high_surrogate u")
    case True
    with 3 have v: "low_surrogate v" and
      ih: "(\<forall>c\<in>set (to_scalars us). scalar c) \<and> from_scalars (to_scalars us) = us" by auto
    define m k where "m = u - 0xD800" and "k = v - 0xDC00"
    then have "u = 0xD800 + m" "m < 1024" "v = 0xDC00 + k" "k < 1024"
      using True v unfolding high_surrogate_def low_surrogate_def by auto
    with True v ih show ?thesis
      by (auto simp: scalar_def from_scalars_def units_of_def)
  next
    case False
    with 3 have "u < 0x10000" "\<not> low_surrogate u" and
      ih: "(\<forall>c\<in>set (to_scalars (v # us)). scalar c) \<and> from_scalars (to_scalars (v # us)) = v # us"
      by auto
    with False show ?thesis
      by (auto simp: scalar_def from_scalars_def units_of_def high_surrogate_def low_surrogate_def)
  qed
qed

lemma to_scalars_hd: "well_formed s \<Longrightarrow> hd s \<noteq> 0xFEFF \<Longrightarrow> to_scalars s \<noteq> [] \<Longrightarrow> hd (to_scalars s) \<noteq> 0xFEFF"
  by (cases s rule: to_scalars.cases)
    (auto simp: high_surrogate_def low_surrogate_def)

text \<open>What the encoder writes for a well-formed string, the decoder reads back.\<close>

lemma text_decode_encode:
  assumes "well_formed s" and "s \<noteq> [] \<Longrightarrow> hd s \<noteq> 0xFEFF"
  shows "text_decode (text_encode s) = s"
proof -
  have sc: "\<forall>c\<in>set (to_scalars s). scalar c" and bk: "from_scalars (to_scalars s) = s"
    using well_formed_scalars [OF assms(1)] by auto
  have "map unat (text_encode s) = concat (map utf8_of (to_scalars s))"
    unfolding text_encode_def map_map using sc
    by (intro map_idI) (auto dest!: utf8_of_byte simp: unat_of_nat)
  then have "utf8_decode 0 0 0x80 0xBF (map unat (text_encode s)) = to_scalars s"
    using utf8_decode_concat [OF sc] by simp
  moreover have "\<not> (to_scalars s \<noteq> [] \<and> hd (to_scalars s) = 0xFEFF)"
    using to_scalars_hd [OF assms(1)] assms(2) by (cases s) auto
  ultimately show ?thesis by (simp only: text_decode_def Let_def bk if_False)
qed

lemma show_nat_digits: "\<forall>u\<in>set (show_nat n). 48 \<le> u \<and> u < 58"
  unfolding show_nat_def
proof (induction n rule: digits.induct)
  case (1 n)
  show ?case
  proof (cases "n < 10")
    case True
    then show ?thesis by (subst digits.simps) auto
  next
    case False
    with 1 show ?thesis by (subst digits.simps) auto
  qed
qed

end
