(* ===== verification/Frames.thy ===== *)
theory Frames
  imports Js_Text
begin

text \<open>
  The wire of the sync transport, \<^verbatim>\<open>packages/app/src/data/sync/frames.ts\<close>: the frame
  types, their binary encoding and decoding, cutting a payload into chunks that fit one
  storage value, joining them again, and the collector that gathers the chunks of one
  submission. Positions and counts are natural numbers; the wire holds them in 32 bits,
  and encoding wraps as \<^verbatim>\<open>DataView.setUint32\<close> does.
\<close>

section \<open>Frames\<close>

definition DO_SQLITE_VALUE_CAP :: nat where
  "DO_SQLITE_VALUE_CAP = 2097152"

definition CHUNK_BYTES :: nat where
  "CHUNK_BYTES = DO_SQLITE_VALUE_CAP"

datatype frame_error = Malformed (reason: jsstring)

datatype frame =
    PushFrame nat nat nat bytes      \<comment> \<open>submission, chunk, chunks, bytes\<close>
  | AckFrame nat nat                 \<comment> \<open>submission, seq\<close>
  | RefuseFrame nat jsstring         \<comment> \<open>submission, reason\<close>
  | EntryFrame nat nat nat bytes     \<comment> \<open>seq, chunk, chunks, bytes\<close>
  | OfferFrame nat nat nat bytes     \<comment> \<open>position, chunk, chunks, bytes\<close>
  | SnapshotFrame nat nat nat bytes  \<comment> \<open>position, chunk, chunks, bytes\<close>
  | WantedFrame nat                  \<comment> \<open>position\<close>
  | AdmittedFrame
  | RetiredFrame

abbreviation (input) PUSH :: nat where "PUSH \<equiv> 1"
abbreviation (input) ACK :: nat where "ACK \<equiv> 2"
abbreviation (input) REFUSE :: nat where "REFUSE \<equiv> 3"
abbreviation (input) ENTRY :: nat where "ENTRY \<equiv> 4"
abbreviation (input) OFFER :: nat where "OFFER \<equiv> 5"
abbreviation (input) SNAPSHOT :: nat where "SNAPSHOT \<equiv> 6"
abbreviation (input) WANTED :: nat where "WANTED \<equiv> 7"
abbreviation (input) ADMITTED :: nat where "ADMITTED \<equiv> 10"
abbreviation (input) RETIRED :: nat where "RETIRED \<equiv> 11"

abbreviation (input) DATA_HEADER_BYTES :: nat where "DATA_HEADER_BYTES \<equiv> 13"

section \<open>Bytes of a data view\<close>

text \<open>\<^verbatim>\<open>setUint8\<close> and the big-endian \<^verbatim>\<open>setUint32\<close>: the value is taken modulo its width.\<close>

definition setUint8 :: "nat \<Rightarrow> bytes" where
  "setUint8 n = [word_of_nat n]"

definition setUint32 :: "nat \<Rightarrow> bytes" where
  "setUint32 n = [word_of_nat (n div 2 ^ 24), word_of_nat (n div 2 ^ 16),
     word_of_nat (n div 2 ^ 8), word_of_nat n]"

text \<open>Reads are only made where the length has been checked, so they are in range.\<close>

definition getUint8 :: "bytes \<Rightarrow> nat \<Rightarrow> nat" where
  "getUint8 bs i = unat (bs ! i)"

definition getUint32 :: "bytes \<Rightarrow> nat \<Rightarrow> nat" where
  "getUint32 bs i = unat (bs ! i) * 2 ^ 24 + unat (bs ! (i + 1)) * 2 ^ 16
     + unat (bs ! (i + 2)) * 2 ^ 8 + unat (bs ! (i + 3))"

section \<open>Encoding\<close>

definition encodeData :: "nat \<Rightarrow> nat \<Rightarrow> nat \<Rightarrow> nat \<Rightarrow> bytes \<Rightarrow> bytes" where
  "encodeData kind position chunk chunks bs =
     setUint8 kind @ setUint32 position @ setUint32 chunk @ setUint32 chunks @ bs"

fun encodeFrame :: "frame \<Rightarrow> bytes" where
  "encodeFrame AdmittedFrame = setUint8 ADMITTED"
| "encodeFrame RetiredFrame = setUint8 RETIRED"
| "encodeFrame (PushFrame submission chunk chunks bs) = encodeData PUSH submission chunk chunks bs"
| "encodeFrame (EntryFrame seq chunk chunks bs) = encodeData ENTRY seq chunk chunks bs"
| "encodeFrame (OfferFrame position chunk chunks bs) = encodeData OFFER position chunk chunks bs"
| "encodeFrame (SnapshotFrame position chunk chunks bs) =
     encodeData SNAPSHOT position chunk chunks bs"
| "encodeFrame (WantedFrame position) = setUint8 WANTED @ setUint32 position"
| "encodeFrame (AckFrame submission seq) = setUint8 ACK @ setUint32 submission @ setUint32 seq"
| "encodeFrame (RefuseFrame submission why) =
     setUint8 REFUSE @ setUint32 submission @ text_encode why"

section \<open>Decoding\<close>

definition decodeFrame :: "bytes \<Rightarrow> (frame_error, frame) result" where
  "decodeFrame input =
     (if length input = 0 then Inl (Malformed (js ''empty''))
      else let kind = getUint8 input 0 in
      if kind = ADMITTED \<or> kind = RETIRED then
        (if length input \<noteq> 1
         then Inl (Malformed (js ''admission frame is '' @ show_nat (length input) @ js '' bytes''))
         else Inr (if kind = ADMITTED then AdmittedFrame else RetiredFrame))
      else if kind = WANTED then
        (if length input < 5
         then Inl (Malformed (js ''wanted is '' @ show_nat (length input) @ js '' bytes''))
         else Inr (WantedFrame (getUint32 input 1)))
      else if kind = ACK \<or> kind = REFUSE then
        (if length input < 5
         then Inl (Malformed (js ''control frame is '' @ show_nat (length input) @ js '' bytes''))
         else let submission = getUint32 input 1 in
         if kind = REFUSE then Inr (RefuseFrame submission (text_decode (drop 5 input)))
         else if length input < 9
         then Inl (Malformed (js ''ack is '' @ show_nat (length input) @ js '' bytes''))
         else Inr (AckFrame submission (getUint32 input 5)))
      else if kind \<noteq> PUSH \<and> kind \<noteq> ENTRY \<and> kind \<noteq> OFFER \<and> kind \<noteq> SNAPSHOT then
        Inl (Malformed (js ''unknown kind '' @ show_nat kind))
      else if length input < DATA_HEADER_BYTES then
        Inl (Malformed (js ''data frame is '' @ show_nat (length input) @ js '' bytes''))
      else
        let position = getUint32 input 1; chunk = getUint32 input 5; chunks = getUint32 input 9 in
        if chunks = 0 \<or> chunk \<ge> chunks then
          Inl (Malformed (js ''chunk '' @ show_nat chunk @ js '' of '' @ show_nat chunks))
        else
          let bs = drop DATA_HEADER_BYTES input in
          Inr (if kind = PUSH then PushFrame position chunk chunks bs
               else if kind = ENTRY then EntryFrame position chunk chunks bs
               else if kind = OFFER then OfferFrame position chunk chunks bs
               else SnapshotFrame position chunk chunks bs))"

section \<open>Chunks\<close>

text \<open>
  The cutting loop advances by \<open>limit\<close>. With a limit of zero it never ends in the source,
  which is the value \<^const>\<open>None\<close> here; every caller passes \<^const>\<open>CHUNK_BYTES\<close>, and
  \<open>intoChunks_total\<close> below shows the loop ends for every positive limit.
\<close>

partial_function (option) chunk_loop :: "bytes \<Rightarrow> nat \<Rightarrow> nat \<Rightarrow> bytes list option" where
  "chunk_loop bs limit at =
     (if at < length bs then
        Option.bind (chunk_loop bs limit (at + limit))
          (\<lambda>cs. Some (take (min (at + limit) (length bs) - at) (drop at bs) # cs))
      else Some [])"

definition intoChunks :: "bytes \<Rightarrow> nat \<Rightarrow> bytes list option" where
  "intoChunks bs limit =
     (if length bs \<le> limit then Some [bs] else chunk_loop bs limit 0)"

text \<open>\<^verbatim>\<open>intoChunks(bytes, CHUNK_BYTES)\<close>, the only call there is.\<close>

definition chunks_of :: "bytes \<Rightarrow> bytes list" where
  "chunks_of bs = (case intoChunks bs CHUNK_BYTES of Some cs \<Rightarrow> cs | None \<Rightarrow> [])"

text \<open>Copying each chunk at its offset of a buffer of the total length is concatenation.\<close>

definition reassemble :: "bytes list \<Rightarrow> bytes" where
  "reassemble cs = (case cs of [c] \<Rightarrow> c | _ \<Rightarrow> concat cs)"

section \<open>The chunk collector\<close>

text \<open>
  A partial submission: a slot per chunk (\<^const>\<open>None\<close> is a hole of the sparse array), the
  bytes held and the slots filled. Byte counts are integers, since the source subtracts
  from them; the invariant below shows they never go negative.
\<close>

record partial =
  slots :: "bytes option list"
  held :: int
  filled :: nat

record collector =
  partials :: "nat \<Rightarrow> partial option"
  buffered :: int
  limitBytes :: nat

definition createChunkCollector :: "nat \<Rightarrow> collector" where
  "createChunkCollector limit = \<lparr>partials = (\<lambda>_. None), buffered = 0, limitBytes = limit\<rparr>"

definition drop_partial :: "collector \<Rightarrow> nat \<Rightarrow> int \<Rightarrow> collector" where
  "drop_partial c position b =
     c\<lparr>partials := (partials c)(position := None), buffered := b\<rparr>"

definition accept_chunk ::
    "collector \<Rightarrow> nat \<Rightarrow> nat \<Rightarrow> nat \<Rightarrow> bytes \<Rightarrow> collector \<times> (frame_error, bytes option) result" where
  "accept_chunk c position chunk chunks bs =
     (if chunks = 1 then (c, Inr (Some bs))
      else
        let p = (case partials c position of
                   Some p \<Rightarrow> p
                 | None \<Rightarrow> \<lparr>slots = replicate chunks None, held = 0, filled = 0\<rparr>) in
        if length (slots p) \<noteq> chunks then
          (drop_partial c position (buffered c - held p),
           Inl (Malformed (js ''submission '' @ show_nat position @ js '' changed from ''
             @ show_nat (length (slots p)) @ js '' chunks to '' @ show_nat chunks)))
        else if buffered c + int (length bs) > int (limitBytes c) then
          (drop_partial c position (buffered c - held p),
           Inl (Malformed (js ''buffering ''
             @ show_nat (nat (buffered c - held p + int (length bs)))
             @ js '' bytes exceeds '' @ show_nat (limitBytes c))))
        else
          let previous = slots p ! chunk;
              gone = (case previous of None \<Rightarrow> 0 | Some old \<Rightarrow> int (length old));
              p' = \<lparr>slots = (slots p)[chunk := Some bs],
                    held = held p - gone + int (length bs),
                    filled = (case previous of None \<Rightarrow> filled p + 1 | Some _ \<Rightarrow> filled p)\<rparr>;
              b' = buffered c - gone + int (length bs) in
          if filled p' < chunks then
            (c\<lparr>partials := (partials c)(position := Some p'), buffered := b'\<rparr>, Inr None)
          else
            (drop_partial c position (b' - held p'),
             Inr (Some (reassemble (map the (slots p'))))))"

text \<open>
  \<^verbatim>\<open>accept\<close> is typed over the four chunked frames; the position is the submission, the
  sequence number or the position. The other frames cannot reach it.
\<close>

definition accept :: "collector \<Rightarrow> frame \<Rightarrow> collector \<times> (frame_error, bytes option) result" where
  "accept c f =
     (case f of
        PushFrame submission chunk chunks bs \<Rightarrow> accept_chunk c submission chunk chunks bs
      | EntryFrame seq chunk chunks bs \<Rightarrow> accept_chunk c seq chunk chunks bs
      | OfferFrame position chunk chunks bs \<Rightarrow> accept_chunk c position chunk chunks bs
      | SnapshotFrame position chunk chunks bs \<Rightarrow> accept_chunk c position chunk chunks bs
      | _ \<Rightarrow> (c, Inr None))"

definition bufferedBytes :: "collector \<Rightarrow> int" where
  "bufferedBytes c = buffered c"

definition forget :: "collector \<Rightarrow> nat \<Rightarrow> collector" where
  "forget c position =
     (case partials c position of
        None \<Rightarrow> c
      | Some p \<Rightarrow> drop_partial c position (buffered c - held p))"

section \<open>Fields on the wire\<close>

lemma unat_byte_less: "unat (b :: byte) < 256"
  using unsigned_less [of b] by simp

lemma unat_byte [frame_simps]: "unat (word_of_nat n :: byte) = n mod 256"
  by (simp add: unat_of_nat)

lemma u32_join:
  "n div 2 ^ 24 mod 256 * 2 ^ 24 + n div 2 ^ 16 mod 256 * 2 ^ 16 + n div 2 ^ 8 mod 256 * 2 ^ 8
     + n mod 256 = n mod (2::nat) ^ 32"
proof -
  have a: "n mod 65536 = 256 * (n div 256 mod 256) + n mod 256"
    using mod_mult2_eq [of n 256 256] by simp
  have b: "n mod 16777216 = 65536 * (n div 65536 mod 256) + n mod 65536"
    using mod_mult2_eq [of n 65536 256] by simp
  have c: "n mod 4294967296 = 16777216 * (n div 16777216 mod 256) + n mod 16777216"
    using mod_mult2_eq [of n 16777216 256] by simp
  show ?thesis using a b c by simp
qed

lemma length_setUint32 [simp]: "length (setUint32 n) = 4"
  by (simp add: setUint32_def)

lemma length_setUint8 [simp]: "length (setUint8 n) = 1"
  by (simp add: setUint8_def)

lemma getUint8_setUint8 [frame_simps]: "getUint8 (setUint8 n @ r) 0 = n mod 256"
  by (simp add: getUint8_def setUint8_def unat_byte)

lemma getUint32_at [frame_simps]:
  "i = length xs \<Longrightarrow> getUint32 (xs @ setUint32 n @ r) i = n mod 2 ^ 32"
  using u32_join [of n] by (simp add: getUint32_def setUint32_def nth_append unat_byte)

lemma encodeData_fields [frame_simps]:
  assumes "kind < 256"
  shows "length (encodeData kind p i n bs) = 13 + length bs"
    and "getUint8 (encodeData kind p i n bs) 0 = kind"
    and "getUint32 (encodeData kind p i n bs) 1 = p mod 2 ^ 32"
    and "getUint32 (encodeData kind p i n bs) 5 = i mod 2 ^ 32"
    and "getUint32 (encodeData kind p i n bs) 9 = n mod 2 ^ 32"
    and "drop 13 (encodeData kind p i n bs) = bs"
proof -
  show "length (encodeData kind p i n bs) = 13 + length bs" by (simp add: encodeData_def)
  show "getUint8 (encodeData kind p i n bs) 0 = kind"
    using assms by (simp add: encodeData_def frame_simps)
  show "getUint32 (encodeData kind p i n bs) 1 = p mod 2 ^ 32"
    unfolding encodeData_def by (rule getUint32_at) simp
  show "getUint32 (encodeData kind p i n bs) 5 = i mod 2 ^ 32"
    unfolding encodeData_def using getUint32_at [of 5 "setUint8 kind @ setUint32 p"] by simp
  show "getUint32 (encodeData kind p i n bs) 9 = n mod 2 ^ 32"
    unfolding encodeData_def
    using getUint32_at [of 9 "setUint8 kind @ setUint32 p @ setUint32 i"] by simp
  show "drop 13 (encodeData kind p i n bs) = bs"
    by (simp add: encodeData_def setUint8_def setUint32_def)
qed

text \<open>A frame whose fields fit the wire and whose chunk lies in its count.\<close>

fun frame_fits :: "frame \<Rightarrow> bool" where
  "frame_fits (PushFrame s i n bs) = (s < 2 ^ 32 \<and> i < n \<and> n < 2 ^ 32)"
| "frame_fits (EntryFrame s i n bs) = (s < 2 ^ 32 \<and> i < n \<and> n < 2 ^ 32)"
| "frame_fits (OfferFrame s i n bs) = (s < 2 ^ 32 \<and> i < n \<and> n < 2 ^ 32)"
| "frame_fits (SnapshotFrame s i n bs) = (s < 2 ^ 32 \<and> i < n \<and> n < 2 ^ 32)"
| "frame_fits (AckFrame s q) = (s < 2 ^ 32 \<and> q < 2 ^ 32)"
| "frame_fits (WantedFrame p) = (p < 2 ^ 32)"
| "frame_fits (RefuseFrame s why) = (s < 2 ^ 32)"
| "frame_fits AdmittedFrame = True"
| "frame_fits RetiredFrame = True"

text \<open>The reason of a refusal survives UTF-8.\<close>

fun reason_ok :: "frame \<Rightarrow> bool" where
  "reason_ok (RefuseFrame s why) = (well_formed why \<and> (why \<noteq> [] \<longrightarrow> hd why \<noteq> 0xFEFF))"
| "reason_ok _ = True"

lemma decode_encodeData:
  assumes "kind \<in> {PUSH, ENTRY, OFFER, SNAPSHOT}" and "p < 2 ^ 32" "i < n" "n < 2 ^ 32"
  shows "decodeFrame (encodeData kind p i n bs) =
    Inr (if kind = PUSH then PushFrame p i n bs else if kind = ENTRY then EntryFrame p i n bs
         else if kind = OFFER then OfferFrame p i n bs else SnapshotFrame p i n bs)"
proof -
  have "kind < 256" and "i < 2 ^ 32" and "encodeData kind p i n bs \<noteq> []"
    using assms by (auto simp: encodeData_def setUint8_def)
  with assms show ?thesis
    by (auto simp: decodeFrame_def Let_def encodeData_fields
        encodeData_fields(3) [unfolded One_nat_def])
qed

lemma decode_ack:
  "s < 2 ^ 32 \<Longrightarrow> q < 2 ^ 32 \<Longrightarrow> decodeFrame (encodeFrame (AckFrame s q)) = Inr (AckFrame s q)"
  using getUint32_at [of 1 "setUint8 ACK" s "setUint32 q"]
    getUint32_at [of 5 "setUint8 ACK @ setUint32 s" q "[]"]
  by (simp add: decodeFrame_def Let_def frame_simps)

lemma decode_wanted:
  "p < 2 ^ 32 \<Longrightarrow> decodeFrame (encodeFrame (WantedFrame p)) = Inr (WantedFrame p)"
  using getUint32_at [of 1 "setUint8 WANTED" p "[]"]
  by (simp add: decodeFrame_def Let_def frame_simps)

lemma decode_refuse:
  assumes "s < 2 ^ 32" and "reason_ok (RefuseFrame s why)"
  shows "decodeFrame (encodeFrame (RefuseFrame s why)) = Inr (RefuseFrame s why)"
proof -
  have "drop 5 (encodeFrame (RefuseFrame s why)) = text_encode why"
    by (simp add: setUint8_def setUint32_def)
  moreover have "getUint32 (encodeFrame (RefuseFrame s why)) 1 = s"
    using assms getUint32_at [of 1 "setUint8 REFUSE" s "text_encode why"] by simp
  moreover have "text_decode (text_encode why) = why"
    using assms by (intro text_decode_encode) auto
  ultimately show ?thesis
    by (simp add: decodeFrame_def Let_def frame_simps)
qed

lemma decode_encode: "frame_fits f \<Longrightarrow> reason_ok f \<Longrightarrow> decodeFrame (encodeFrame f) = Inr f"
  by (cases f)
    (simp_all add: decode_encodeData decode_ack decode_wanted decode_refuse del: encodeFrame.simps(7-9),
     simp_all add: decodeFrame_def Let_def getUint8_def setUint8_def unat_byte)

text \<open>
  The other direction: what the decoder accepts satisfies the bounds, and encoding it again
  gives the bytes it read.
\<close>

lemma byte_join:
  fixes a b c d :: byte
  shows "setUint32 (unat a * 2 ^ 24 + unat b * 2 ^ 16 + unat c * 2 ^ 8 + unat d) = [a, b, c, d]"
proof -
  let ?n = "unat a * 2 ^ 24 + unat b * 2 ^ 16 + unat c * 2 ^ 8 + unat d"
  have lt: "unat a < 256" "unat b < 256" "unat c < 256" "unat d < 256"
    by (simp_all only: unat_byte_less)
  have "?n div 2 ^ 24 = unat a" "?n div 2 ^ 16 = unat a * 256 + unat b"
    "?n div 2 ^ 8 = (unat a * 256 + unat b) * 256 + unat c"
    using lt by (auto intro!: div_nat_eqI)
  moreover have z: "(256 :: byte) = 0" "(65536 :: byte) = 0" "(2 :: byte) ^ 24 = 0"
    "(2 :: byte) ^ 16 = 0" "(2 :: byte) ^ 8 = 0" by simp_all
  ultimately show ?thesis by (simp add: setUint32_def z del: power_numeral)
qed

lemma take4:
  "i + 4 \<le> length bs \<Longrightarrow> take 4 (drop i bs) = [bs ! i, bs ! (i + 1), bs ! (i + 2), bs ! (i + 3)]"
  by (intro nth_equalityI) (auto simp: nth_append less_Suc_eq numeral_eq_Suc)

lemma setUint32_getUint32 [frame_simps]:
  "i + 4 \<le> length bs \<Longrightarrow> setUint32 (getUint32 bs i) = take 4 (drop i bs)"
  by (simp only: take4 getUint32_def byte_join)

lemma setUint8_getUint8: "0 < length bs \<Longrightarrow> setUint8 (getUint8 bs 0) = take 1 bs"
  by (cases bs) (simp_all add: setUint8_def getUint8_def)

lemma getUint32_less: "getUint32 bs i < 2 ^ 32"
  using unat_byte_less [of "bs ! i"] unat_byte_less [of "bs ! (i + 1)"]
    unat_byte_less [of "bs ! (i + 2)"] unat_byte_less [of "bs ! (i + 3)"]
  by (simp add: getUint32_def)

lemma reencode_data:
  assumes "13 \<le> length bs" and "getUint8 bs 0 = kind"
  shows "encodeData kind (getUint32 bs 1) (getUint32 bs 5) (getUint32 bs 9) (drop 13 bs) = bs"
proof -
  have "encodeData kind (getUint32 bs 1) (getUint32 bs 5) (getUint32 bs 9) (drop 13 bs)
      = take 1 bs @ take 4 (drop 1 bs) @ take 4 (drop 5 bs) @ take 4 (drop 9 bs) @ drop 13 bs"
    using assms setUint8_getUint8 [of bs] by (fastforce simp: encodeData_def setUint32_getUint32)
  also have "\<dots> = bs"
    by (simp add: append_assoc [symmetric] take_add [symmetric] del: append_assoc)
  finally show ?thesis .
qed

text \<open>The bytes of a message that the decoder reads.\<close>

fun wire_bytes :: "frame \<Rightarrow> bytes \<Rightarrow> bytes" where
  "wire_bytes (AckFrame _ _) bs = take 9 bs"
| "wire_bytes (WantedFrame _) bs = take 5 bs"
| "wire_bytes (RefuseFrame _ _) bs = take 5 bs"
| "wire_bytes _ bs = bs"

fun header_bytes :: "frame \<Rightarrow> bytes" where
  "header_bytes (RefuseFrame s why) = take 5 (encodeFrame (RefuseFrame s why))"
| "header_bytes f = encodeFrame f"

lemma take_split: "take (n + m) xs = take n xs @ take m (drop n xs)"
  by (simp add: take_add)

lemma decode_data_sound:
  assumes "decodeFrame bs = Inr f" and "getUint8 bs 0 \<in> {PUSH, ENTRY, OFFER, SNAPSHOT}"
  shows "frame_fits f \<and> encodeFrame f = bs"
proof -
  from assms have len: "13 \<le> length bs" and lt: "getUint32 bs 5 < getUint32 bs 9"
    by (auto simp: decodeFrame_def Let_def not_le split: if_splits)
  have e: "encodeData (getUint8 bs 0) (getUint32 bs 1) (getUint32 bs 5) (getUint32 bs 9) (drop 13 bs) = bs"
    by (rule reencode_data [OF len refl])
  from assms(2) show ?thesis
    using assms(1) len lt e getUint32_less [of bs 1] getUint32_less [of bs 9]
    by (auto simp: decodeFrame_def Let_def split: if_splits)
qed

lemma decode_control_sound:
  assumes "decodeFrame bs = Inr f" and "getUint8 bs 0 \<notin> {PUSH, ENTRY, OFFER, SNAPSHOT}"
  shows "frame_fits f \<and> header_bytes f = wire_bytes f bs"
proof -
  have ne: "0 < length bs" using assms(1) by (auto simp: decodeFrame_def split: if_splits)
  note k = setUint8_getUint8 [OF ne]
  have five: "5 \<le> length bs \<Longrightarrow> setUint8 (getUint8 bs 0) @ setUint32 (getUint32 bs 1) = take 5 bs"
    using k take_split [of 1 4 bs] by (simp add: setUint32_getUint32)
  have nine: "9 \<le> length bs \<Longrightarrow>
      setUint8 (getUint8 bs 0) @ setUint32 (getUint32 bs 1) @ setUint32 (getUint32 bs 5) = take 9 bs"
    using five take_split [of 5 4 bs] by (simp add: setUint32_getUint32 append_assoc [symmetric] del: append_assoc)
  show ?thesis
    using assms k five nine getUint32_less [of bs 1] getUint32_less [of bs 5]
    by (auto simp: decodeFrame_def Let_def split: if_splits)
qed

lemma decode_sound:
  "decodeFrame bs = Inr f \<Longrightarrow> frame_fits f \<and> header_bytes f = wire_bytes f bs"
proof (cases "getUint8 bs 0 \<in> {PUSH, ENTRY, OFFER, SNAPSHOT}")
  case True
  assume d: "decodeFrame bs = Inr f"
  from True d have "\<forall>s why. f \<noteq> RefuseFrame s why" "\<forall>s q. f \<noteq> AckFrame s q" "\<forall>p. f \<noteq> WantedFrame p"
    by (auto simp: decodeFrame_def Let_def split: if_splits)
  with decode_data_sound [OF d True] show ?thesis by (cases f) auto
next
  case False
  assume "decodeFrame bs = Inr f"
  then show ?thesis using False by (rule decode_control_sound)
qed

section \<open>Cutting and joining\<close>

lemma reassemble_concat [simp]: "reassemble cs = concat cs"
  by (auto simp: reassemble_def split: list.splits)

lemma chunk_loop_spec:
  assumes "0 < limit"
  shows "\<exists>cs. chunk_loop bs limit at = Some cs \<and> concat cs = drop at bs
    \<and> (\<forall>c\<in>set cs. c \<noteq> [] \<and> length c \<le> limit)
    \<and> length cs = (length bs - at + (limit - 1)) div limit"
proof (induction "length bs - at" arbitrary: at rule: less_induct)
  case less
  show ?case
  proof (cases "at < length bs")
    case False
    with assms show ?thesis by (subst chunk_loop.simps) simp
  next
    case True
    with assms have "length bs - (at + limit) < length bs - at" by simp
    from less [OF this] obtain cs where cs: "chunk_loop bs limit (at + limit) = Some cs"
      "concat cs = drop (at + limit) bs" "\<forall>c\<in>set cs. c \<noteq> [] \<and> length c \<le> limit"
      "length cs = (length bs - (at + limit) + (limit - 1)) div limit" by blast
    let ?c = "take (min (at + limit) (length bs) - at) (drop at bs)"
    have "?c = take limit (drop at bs)" by (auto simp: min_def)
    then have "concat (?c # cs) = drop at bs"
      using cs(2) by (metis append_take_drop_id concat.simps(2) drop_drop add.commute)
    moreover have "?c \<noteq> [] \<and> length ?c \<le> limit" using True assms by auto
    moreover have "length (?c # cs) = (length bs - at + (limit - 1)) div limit"
    proof (cases "at + limit < length bs")
      case True
      then have "length bs - at + (limit - 1) = (length bs - (at + limit) + (limit - 1)) + limit"
        using assms by simp
      then have "(length bs - at + (limit - 1)) div limit
          = (length bs - (at + limit) + (limit - 1)) div limit + 1"
        using assms by (simp only: div_add_self2)
      with cs(4) show ?thesis by (simp only: list.size)
    next
      case False
      then have "(length bs - at + (limit - 1)) div limit = 1"
        using \<open>at < length bs\<close> assms by (intro div_nat_eqI) auto
      with False cs(4) assms show ?thesis by simp
    qed
    moreover have "chunk_loop bs limit at = Some (?c # cs)"
      using True cs(1) by (subst chunk_loop.simps) simp
    ultimately show ?thesis using cs(3) by (intro exI [of _ "?c # cs"]) auto
  qed
qed

lemma intoChunks_total:
  assumes "0 < limit"
  shows "\<exists>cs. intoChunks bs limit = Some cs \<and> concat cs = bs \<and> cs \<noteq> []
    \<and> (\<forall>c\<in>set cs. length c \<le> limit) \<and> (bs \<noteq> [] \<longrightarrow> [] \<notin> set cs)
    \<and> length cs = max 1 ((length bs + (limit - 1)) div limit)"
proof (cases "length bs \<le> limit")
  case True
  have "(length bs + (limit - 1)) div limit \<le> 1"
    using True assms by (simp add: less_Suc_eq_le [symmetric] less_mult_imp_div_less)
  with True show ?thesis by (auto simp: intoChunks_def)
next
  case False
  from chunk_loop_spec [OF assms, of bs 0] obtain cs where cs: "chunk_loop bs limit 0 = Some cs"
    "concat cs = bs" "\<forall>c\<in>set cs. c \<noteq> [] \<and> length c \<le> limit"
    "length cs = (length bs + (limit - 1)) div limit" by auto
  have "cs \<noteq> []" using False cs(2) by auto
  then have "1 \<le> length cs" by (cases cs) auto
  with False cs \<open>cs \<noteq> []\<close> show ?thesis by (auto simp: intoChunks_def)
qed

lemma chunks_of_props [chunk_simps]:
  shows "concat (chunks_of bs) = bs"
    and "chunks_of bs \<noteq> []"
    and "c \<in> set (chunks_of bs) \<Longrightarrow> length c \<le> CHUNK_BYTES"
proof -
  have "0 < CHUNK_BYTES" by (simp add: CHUNK_BYTES_def DO_SQLITE_VALUE_CAP_def)
  from intoChunks_total [OF this, of bs]
  show "concat (chunks_of bs) = bs" "chunks_of bs \<noteq> []"
    "c \<in> set (chunks_of bs) \<Longrightarrow> length c \<le> CHUNK_BYTES"
    by (auto simp: chunks_of_def)
qed

lemma chunks_of_small: "length bs \<le> CHUNK_BYTES \<Longrightarrow> chunks_of bs = [bs]"
  by (simp add: chunks_of_def intoChunks_def)

section \<open>The collector's invariant\<close>

fun slot_len :: "bytes option \<Rightarrow> int" where
  "slot_len None = 0"
| "slot_len (Some bs) = int (length bs)"

fun slots_used :: "bytes option list \<Rightarrow> nat" where
  "slots_used [] = 0"
| "slots_used (x # xs) = (if x = None then 0 else 1) + slots_used xs"

definition partial_ok :: "partial \<Rightarrow> bool" where
  "partial_ok p \<longleftrightarrow> held p = (\<Sum>x\<leftarrow>slots p. slot_len x)
     \<and> filled p = slots_used (slots p) \<and> filled p < length (slots p)"

definition collector_inv :: "collector \<Rightarrow> bool" where
  "collector_inv c \<longleftrightarrow> finite (dom (partials c))
     \<and> (\<forall>k p. partials c k = Some p \<longrightarrow> partial_ok p)
     \<and> buffered c = (\<Sum>k\<in>dom (partials c). held (the (partials c k)))
     \<and> buffered c \<le> int (limitBytes c)"

lemma slots_empty [simp]:
  "(\<Sum>x\<leftarrow>replicate n None. slot_len x) = 0" "slots_used (replicate n None) = 0"
  by (induction n) auto

lemma slot_len_nonneg: "0 \<le> slot_len x"
  by (cases x) auto

lemma sum_slot_nonneg: "0 \<le> (\<Sum>x\<leftarrow>xs. slot_len x)"
  by (induction xs) (auto simp: slot_len_nonneg)

lemma partial_ok_nonneg: "partial_ok p \<Longrightarrow> 0 \<le> held p"
  by (simp add: partial_ok_def sum_slot_nonneg)

lemma sum_slots_update:
  "i < length xs \<Longrightarrow>
   (\<Sum>x\<leftarrow>xs[i := y]. slot_len x) = (\<Sum>x\<leftarrow>xs. slot_len x) - slot_len (xs ! i) + slot_len y"
  by (induction xs arbitrary: i) (auto split: nat.splits)

lemma filled_update:
  "i < length xs \<Longrightarrow>
   slots_used (xs[i := Some y]) = slots_used xs + (if xs ! i = None then 1 else 0)"
  by (induction xs arbitrary: i) (auto split: nat.splits)

lemma sum_dom_remove:
  fixes m :: "nat \<Rightarrow> partial option"
  assumes "finite (dom m)"
  shows "(\<Sum>k\<in>dom (m(x := None)). held (the ((m(x := None)) k)))
    = (\<Sum>k\<in>dom m. held (the (m k))) - (case m x of None \<Rightarrow> 0 | Some p \<Rightarrow> held p)"
proof -
  have "(\<Sum>k\<in>dom (m(x := None)). held (the ((m(x := None)) k)))
      = (\<Sum>k\<in>dom m - {x}. held (the (m k)))"
    by (rule sum.cong) (auto simp: dom_def)
  also have "\<dots> = (\<Sum>k\<in>dom m. held (the (m k))) - (case m x of None \<Rightarrow> 0 | Some p \<Rightarrow> held p)"
    using assms by (cases "m x") (auto simp: sum_diff1 dom_def)
  finally show ?thesis .
qed

lemma sum_dom_update:
  fixes m :: "nat \<Rightarrow> partial option"
  assumes "finite (dom m)"
  shows "(\<Sum>k\<in>dom (m(x := Some p)). held (the ((m(x := Some p)) k)))
    = (\<Sum>k\<in>dom m. held (the (m k))) - (case m x of None \<Rightarrow> 0 | Some p \<Rightarrow> held p) + held p"
proof -
  have "(\<Sum>k\<in>dom (m(x := Some p)). held (the ((m(x := Some p)) k)))
      = (\<Sum>k\<in>insert x (dom m - {x}). if k = x then held p else held (the (m k)))"
    by (rule sum.cong) (auto simp: dom_def)
  also have "\<dots> = held p + (\<Sum>k\<in>dom m - {x}. held (the (m k)))"
    using assms by (subst sum.insert) (auto intro!: sum.cong)
  also have "\<dots> = (\<Sum>k\<in>dom m. held (the (m k))) - (case m x of None \<Rightarrow> 0 | Some p \<Rightarrow> held p) + held p"
    using assms by (cases "m x") (auto simp: sum_diff1 dom_def)
  finally show ?thesis .
qed

lemma drop_partial_inv:
  assumes "collector_inv c" and "b = buffered c - (case partials c x of None \<Rightarrow> 0 | Some p \<Rightarrow> held p)"
  shows "collector_inv (drop_partial c x b)"
proof -
  have "0 \<le> (case partials c x of None \<Rightarrow> 0 | Some p \<Rightarrow> held p)"
    using assms(1) by (auto simp: collector_inv_def intro: partial_ok_nonneg split: option.split)
  with assms show ?thesis
    using sum_dom_remove [of "partials c" x]
    by (auto simp: collector_inv_def drop_partial_def)
qed

lemma createChunkCollector_inv: "collector_inv (createChunkCollector n)"
  by (simp add: collector_inv_def createChunkCollector_def)

lemma forget_inv: "collector_inv c \<Longrightarrow> collector_inv (forget c x)"
  by (auto simp: forget_def intro!: drop_partial_inv split: option.split)

text \<open>The partial at a position, or the empty one the collector starts with.\<close>

definition partial_at :: "collector \<Rightarrow> nat \<Rightarrow> nat \<Rightarrow> partial" where
  "partial_at c x n = (case partials c x of
     Some p \<Rightarrow> p | None \<Rightarrow> \<lparr>slots = replicate n None, held = 0, filled = 0\<rparr>)"

lemma held_partial_at: "held (partial_at c x n) = (case partials c x of None \<Rightarrow> 0 | Some p \<Rightarrow> held p)"
  by (auto simp: partial_at_def split: option.split)

lemma partial_at_ok:
  "collector_inv c \<Longrightarrow> 0 < n \<Longrightarrow> partial_ok (partial_at c x n)"
  by (cases "partials c x")
    (auto simp add: partial_at_def collector_inv_def partial_ok_def [of "\<lparr>slots = _, held = _, filled = _\<rparr>"]
      sum_list_replicate)

definition partial_set :: "partial \<Rightarrow> nat \<Rightarrow> bytes \<Rightarrow> partial" where
  "partial_set p i bs = \<lparr>slots = (slots p)[i := Some bs],
     held = held p - slot_len (slots p ! i) + int (length bs),
     filled = filled p + (if slots p ! i = None then 1 else 0)\<rparr>"

lemma partial_set_sums:
  assumes "partial_ok p" and "i < length (slots p)"
  shows "held (partial_set p i bs) = (\<Sum>x\<leftarrow>slots (partial_set p i bs). slot_len x)"
    and "filled (partial_set p i bs) = slots_used (slots (partial_set p i bs))"
  using assms by (simp_all add: partial_ok_def partial_set_def sum_slots_update filled_update)

text \<open>The three outcomes of one chunk, over \<^const>\<open>partial_at\<close> and \<^const>\<open>partial_set\<close>.\<close>

lemma slot_len_case: "(case x of None \<Rightarrow> 0 | Some old \<Rightarrow> int (length old)) = slot_len x"
  by (cases x) auto

lemma filled_case:
  "(case x of None \<Rightarrow> n + 1 | Some _ \<Rightarrow> n) = n + (if x = None then 1 else (0::nat))"
  by (cases x) auto

lemma accept_chunk_alt:
  assumes "n \<noteq> 1"
  shows "accept_chunk c x i n bs =
    (let p = partial_at c x n; q = partial_set p i bs in
     if length (slots p) \<noteq> n then
       (drop_partial c x (buffered c - held p),
        Inl (Malformed (js ''submission '' @ show_nat x @ js '' changed from ''
          @ show_nat (length (slots p)) @ js '' chunks to '' @ show_nat n)))
     else if buffered c + int (length bs) > int (limitBytes c) then
       (drop_partial c x (buffered c - held p),
        Inl (Malformed (js ''buffering '' @ show_nat (nat (buffered c - held p + int (length bs)))
          @ js '' bytes exceeds '' @ show_nat (limitBytes c))))
     else if filled q < n then
       (c\<lparr>partials := (partials c)(x := Some q), buffered := buffered c - held p + held q\<rparr>, Inr None)
     else (drop_partial c x (buffered c - held p), Inr (Some (concat (map the (slots q))))))"
  using assms
  by (simp add: accept_chunk_def partial_at_def partial_set_def Let_def slot_len_case filled_case
      algebra_simps)

lemma accept_chunk_inv:
  assumes "collector_inv c" and "i < n"
  shows "collector_inv (fst (accept_chunk c x i n bs))"
proof (cases "n = 1")
  case True
  with assms show ?thesis by (simp add: accept_chunk_def)
next
  case False
  let ?p = "partial_at c x n" and ?q = "partial_set (partial_at c x n) i bs"
  have ok: "partial_ok ?p" using assms by (intro partial_at_ok) auto
  have dropped: "collector_inv (drop_partial c x (buffered c - held ?p))"
    using assms(1) by (intro drop_partial_inv) (simp_all add: held_partial_at)
  have grown: "collector_inv (c\<lparr>partials := (partials c)(x := Some ?q), buffered := buffered c - held ?p + held ?q\<rparr>)"
    if len: "length (slots ?p) = n" and room: "buffered c + int (length bs) \<le> int (limitBytes c)"
      and open_slot: "filled ?q < n"
  proof -
    have "length (slots ?q) = n" using len by (simp add: partial_set_def)
    with ok assms(2) len open_slot have q: "partial_ok ?q"
      using partial_set_sums [of ?p i bs] by (simp add: partial_ok_def [of ?q])
    have le: "held ?q - held ?p \<le> int (length bs)"
      using slot_len_nonneg [of "slots ?p ! i"] by (simp add: partial_set_def)
    show ?thesis
      using assms(1) q le room sum_dom_update [of "partials c" x ?q]
      by (auto simp: collector_inv_def held_partial_at)
  qed
  show ?thesis
    using dropped grown by (simp add: accept_chunk_alt [OF False] Let_def)
qed

lemma accept_inv:
  "collector_inv c \<Longrightarrow> frame_fits f \<Longrightarrow> collector_inv (fst (accept c f))"
  by (cases f) (auto simp: accept_def intro: accept_chunk_inv)

lemma accept_chunk_limit [simp]: "limitBytes (fst (accept_chunk c x i n bs)) = limitBytes c"
  by (auto simp: accept_chunk_def Let_def drop_partial_def split: option.split)

lemma accept_chunk_other:
  "y \<noteq> x \<Longrightarrow> partials (fst (accept_chunk c x i n bs)) y = partials c y"
  by (auto simp: accept_chunk_def Let_def drop_partial_def split: option.split)

section \<open>Reassembly in any order\<close>

text \<open>The collector after the chunks \<open>S\<close> of the submission \<open>cs\<close> have arrived.\<close>

definition gathering :: "collector \<Rightarrow> nat \<Rightarrow> bytes list \<Rightarrow> nat set \<Rightarrow> collector" where
  "gathering c x cs S = (if S = {} then c else
     c\<lparr>partials := (partials c)(x := Some
         \<lparr>slots = map (\<lambda>i. if i \<in> S then Some (cs ! i) else None) [0..<length cs],
          held = (\<Sum>i\<in>S. int (length (cs ! i))), filled = card S\<rparr>),
       buffered := buffered c + (\<Sum>i\<in>S. int (length (cs ! i)))\<rparr>)"

lemma gathering_partial:
  assumes "partials c x = None"
  shows "partial_at (gathering c x cs S) x (length cs) =
    \<lparr>slots = map (\<lambda>i. if i \<in> S then Some (cs ! i) else None) [0..<length cs],
     held = (\<Sum>i\<in>S. int (length (cs ! i))), filled = card S\<rparr>"
  using assms
  by (auto simp: partial_at_def gathering_def map_replicate_const)

lemma gathering_buffered:
  "buffered (gathering c x cs S) = buffered c + (\<Sum>i\<in>S. int (length (cs ! i)))"
  by (simp add: gathering_def)

lemma gathering_step:
  assumes fresh: "partials c x = None" and n: "length cs \<noteq> 1"
    and S: "finite S" "S \<subseteq> {..<length cs}" and i: "i < length cs" "i \<notin> S"
    and room: "buffered c + (\<Sum>j<length cs. int (length (cs ! j))) \<le> int (limitBytes c)"
  shows "accept_chunk (gathering c x cs S) x i (length cs) (cs ! i) =
    (if insert i S = {..<length cs} then (c, Inr (Some (concat cs)))
     else (gathering c x cs (insert i S), Inr None))"
proof -
  let ?g = "gathering c x cs S" and ?p = "partial_at (gathering c x cs S) x (length cs)"
  let ?q = "partial_set ?p i (cs ! i)"
  have lim: "limitBytes ?g = limitBytes c" by (simp add: gathering_def)
  have sub: "insert i S \<subseteq> {..<length cs}" using S i by auto
  have "(\<Sum>j\<in>insert i S. int (length (cs ! j))) \<le> (\<Sum>j<length cs. int (length (cs ! j)))"
    using sub by (intro sum_mono2) auto
  then have fits: "buffered ?g + int (length (cs ! i)) \<le> int (limitBytes ?g)"
    using room S i by (simp add: gathering_buffered lim)
  have q: "?q = \<lparr>slots = map (\<lambda>j. if j \<in> insert i S then Some (cs ! j) else None) [0..<length cs],
      held = (\<Sum>j\<in>insert i S. int (length (cs ! j))), filled = card (insert i S)\<rparr>"
    using S i by (auto simp: partial_set_def gathering_partial [OF fresh] nth_list_update intro!: nth_equalityI)
  have card: "card (insert i S) < length cs \<longleftrightarrow> insert i S \<noteq> {..<length cs}"
    using sub psubset_card_mono [of "{..<length cs}" "insert i S"] by fastforce
  have all: "map the (slots ?q) = cs" if "insert i S = {..<length cs}"
  proof -
    have "\<And>j. j < length cs \<Longrightarrow> j \<in> insert i S" using that by blast
    then show ?thesis by (intro nth_equalityI) (simp_all add: q)
  qed
  have dropped: "drop_partial ?g x (buffered ?g - held ?p) = c"
    using fresh by (auto simp: drop_partial_def gathering_def held_partial_at intro!: collector.equality)
  have grown: "?g\<lparr>partials := (partials ?g)(x := Some ?q), buffered := buffered ?g - held ?p + held ?q\<rparr>
      = gathering c x cs (insert i S)"
  proof -
    have "(partials ?g)(x := r) = (partials c)(x := r)" for r by (simp add: gathering_def)
    moreover have "?g\<lparr>partials := m, buffered := b\<rparr> = c\<lparr>partials := m, buffered := b\<rparr>" for m b
      by (simp add: gathering_def)
    moreover have "buffered ?g - held ?p = buffered c"
      by (simp add: gathering_buffered gathering_partial [OF fresh])
    ultimately show ?thesis unfolding q by (simp add: gathering_def)
  qed
  have len: "length (slots ?p) = length cs" by (simp add: gathering_partial [OF fresh])
  show ?thesis
    using fits card len all dropped grown
    by (simp add: accept_chunk_alt [OF n] Let_def not_less) (auto simp: q)
qed

text \<open>Feeding the chunks of one submission in the order \<open>is\<close>.\<close>

fun accept_chunks ::
    "collector \<Rightarrow> nat \<Rightarrow> bytes list \<Rightarrow> nat list \<Rightarrow> collector \<times> (frame_error, bytes option) result list" where
  "accept_chunks c x cs [] = (c, [])"
| "accept_chunks c x cs (i # is) =
     (case accept_chunk c x i (length cs) (cs ! i) of
        (c', r) \<Rightarrow> (case accept_chunks c' x cs is of (c'', rs) \<Rightarrow> (c'', r # rs)))"

lemma accept_chunks_from:
  assumes fresh: "partials c x = None" and n: "length cs \<noteq> 1"
    and room: "buffered c + (\<Sum>j<length cs. int (length (cs ! j))) \<le> int (limitBytes c)"
  shows "finite S \<Longrightarrow> S \<union> set is = {..<length cs} \<Longrightarrow> distinct is \<Longrightarrow> S \<inter> set is = {} \<Longrightarrow> is \<noteq> [] \<Longrightarrow>
    accept_chunks (gathering c x cs S) x cs is
      = (c, replicate (length is - 1) (Inr None) @ [Inr (Some (concat cs))])"
proof (induction "is" arbitrary: S)
  case Nil
  then show ?case by simp
next
  case (Cons i "is")
  have i: "i < length cs" "i \<notin> S" and S: "S \<subseteq> {..<length cs}" using Cons.prems by auto
  note step = gathering_step [OF fresh n Cons.prems(1) S i room]
  show ?case
  proof (cases "is = []")
    case True
    with Cons.prems have "insert i S = {..<length cs}" by auto
    with True step show ?thesis by simp
  next
    case False
    then obtain j where "j \<in> set is" by (meson last_in_set)
    with Cons.prems have "j \<in> {..<length cs}" "j \<notin> insert i S" by auto
    then have "insert i S \<noteq> {..<length cs}" by blast
    moreover have "accept_chunks (gathering c x cs (insert i S)) x cs is
        = (c, replicate (length is - 1) (Inr None) @ [Inr (Some (concat cs))])"
      using Cons.prems False by (intro Cons.IH) auto
    moreover have "Suc (length is - 1) = length is" using False by (cases "is") auto
    ultimately show ?thesis
      using step by (simp add: replicate_Suc [symmetric] del: replicate_Suc)
  qed
qed

lemma accept_chunks_any_order:
  assumes "partials c x = None" and "cs \<noteq> []" and "distinct is" "set is = {..<length cs}"
    and "buffered c + int (length (concat cs)) \<le> int (limitBytes c)"
  shows "accept_chunks c x cs is
    = (c, replicate (length cs - 1) (Inr None) @ [Inr (Some (concat cs))])"
proof (cases "length cs = 1")
  case True
  then obtain b where "cs = [b]" by (cases cs) auto
  moreover from this assms have "is = [0]"
    by (cases "is") (auto simp: lessThan_Suc, metis list.set_intros(1) neq_Nil_conv singletonD subsetD)
  ultimately show ?thesis by (simp add: accept_chunk_def)
next
  case False
  have len: "length is = length cs" using assms(3,4) by (metis distinct_card card_lessThan)
  have "int (length (concat cs)) = (\<Sum>j<length cs. int (length (cs ! j)))"
    by (simp add: length_concat sum_list_sum_nth atLeast0LessThan)
  moreover have "is \<noteq> []" using assms(2) len by (metis length_0_conv)
  ultimately show ?thesis
    using accept_chunks_from [OF assms(1) False _ _ _ assms(3), of "{}"] assms(4,5) len
    by (simp add: gathering_def)
qed

section \<open>Properties\<close>

text \<open>
  Claim C37 (frame_roundtrip). Every frame whose numbers fit 32 bits, whose chunk index lies in
  its count and whose reason is a well-formed string without a leading byte-order mark is
  decoded from its encoding unchanged.
\<close>

theorem frame_roundtrip:
  assumes "frame_fits f" and "reason_ok f"
  shows "decodeFrame (encodeFrame f) = Inr f"
  using assms by (rule decode_encode)

theorem frame_roundtrip_witness:
  "decodeFrame (encodeFrame (RefuseFrame 7 (js ''no'' @ [0xD83D, 0xDE00]))) = Inr (RefuseFrame 7 (js ''no'' @ [0xD83D, 0xDE00]))"
  by (rule frame_roundtrip) (simp_all add: js_def high_surrogate_def low_surrogate_def)

text \<open>
  Claim C38 (decoder_sound). Whatever message the decoder accepts, the frame it returns satisfies
  the wire's bounds (so a chunk index is always inside its count) and encodes back to the bytes
  the decoder read: the whole message for data and admission frames, nine bytes for an ack, five
  for a request, and the five header bytes of a refusal.
\<close>

theorem decoder_sound:
  assumes "decodeFrame bs = Inr f"
  shows "frame_fits f \<and> header_bytes f = wire_bytes f bs"
  using assms by (rule decode_sound)

theorem decoder_sound_witness:
  "decodeFrame [7, 0, 0, 1, 2, 9] = Inr (WantedFrame 258) \<and> header_bytes (WantedFrame 258) = [7, 0, 0, 1, 2]"
proof -
  have d: "decodeFrame [7, 0, 0, 1, 2, 9] = Inr (WantedFrame 258)"
    by (simp add: decodeFrame_def getUint8_def getUint32_def)
  with decoder_sound [OF d] show ?thesis by simp
qed

text \<open>
  For every positive limit the cutting loop ends; the chunks joined
  give the bytes back, there is at least one, none is longer than the limit, none is empty
  unless the bytes are, and their number is the length divided by the limit, rounded up (one for
  the empty run).
\<close>

theorem chunking_total:
  assumes "0 < limit"
  shows "\<exists>cs. intoChunks bs limit = Some cs \<and> reassemble cs = bs \<and> cs \<noteq> []
    \<and> (\<forall>c\<in>set cs. length c \<le> limit) \<and> (bs \<noteq> [] \<longrightarrow> [] \<notin> set cs)
    \<and> length cs = max 1 ((length bs + (limit - 1)) div limit)"
proof -
  have "reassemble cs = concat cs" for cs by (auto simp: reassemble_def split: list.split)
  then show ?thesis using intoChunks_total [OF assms, of bs] by auto
qed

theorem chunking_total_witness:
  "\<exists>cs. intoChunks [1, 2, 3, 4, 5] 2 = Some cs \<and> reassemble cs = [1, 2, 3, 4, 5] \<and> length cs = 3"
  using chunking_total [of 2 "[1, 2, 3, 4, 5]"] by auto

text \<open>
  The chunks of one submission may arrive in any order: when
  they fit under the limit, every chunk but the last to arrive reports that more is needed, the
  last one returns exactly the bytes the chunks were cut from, and the collector is left as it
  was before the first.
\<close>

theorem collector_reassembles:
  assumes "partials c x = None" and "cs \<noteq> []" and "distinct is" and "set is = {..<length cs}"
    and "buffered c + int (length (concat cs)) \<le> int (limitBytes c)"
  shows "accept_chunks c x cs is
    = (c, replicate (length cs - 1) (Inr None) @ [Inr (Some (concat cs))])"
  using assms by (rule accept_chunks_any_order)

theorem collector_reassembles_witness:
  "accept_chunks (createChunkCollector 8) 5 [[1, 2], [3, 4], [5]] [2, 0, 1]
     = (createChunkCollector 8, [Inr None, Inr None, Inr (Some [1, 2, 3, 4, 5])])"
  by (subst collector_reassembles)
    (auto simp: createChunkCollector_def lessThan_Suc numeral_3_eq_3 numeral_2_eq_2)

text \<open>
  Whatever frame the decoder lets through, the collector's
  bookkeeping stays exact: the byte count is the sum of what the unfinished submissions hold, it
  is never negative and never above the limit, and no unfinished submission has all its chunks.
\<close>

theorem collector_bounded:
  assumes "collector_inv c" and "decodeFrame message = Inr f"
  shows "collector_inv (fst (accept c f)) \<and> 0 \<le> bufferedBytes (fst (accept c f))
    \<and> bufferedBytes (fst (accept c f)) \<le> int (limitBytes c)"
proof -
  have inv: "collector_inv (fst (accept c f))" using accept_inv [OF assms(1)] decode_sound [OF assms(2)] by blast
  have "limitBytes (fst (accept c f)) = limitBytes c" by (cases f) (simp_all add: accept_def)
  moreover have "0 \<le> buffered d" if d: "collector_inv d" for d
  proof -
    have "0 \<le> held p" if "partial_ok p" for p
    proof -
      have "0 \<le> slot_len x" for x by (cases x) auto
      then show ?thesis using that by (auto simp: partial_ok_def intro!: sum_list_nonneg)
    qed
    with d show ?thesis unfolding collector_inv_def by (auto intro!: sum_nonneg)
  qed
  ultimately show ?thesis using inv by (auto simp: bufferedBytes_def collector_inv_def)
qed

theorem collector_bounded_witness:
  "collector_inv (fst (accept (createChunkCollector 8) (EntryFrame 2 0 3 [9])))
   \<and> bufferedBytes (fst (accept (createChunkCollector 8) (EntryFrame 2 0 3 [9]))) \<le> 8"
  using collector_bounded [OF createChunkCollector_inv decode_encode [of "EntryFrame 2 0 3 [9]"], of 8]
  by (simp add: createChunkCollector_def del: encodeFrame.simps)

end
