(* ===== verification/Sql_Table.thy ===== *)
theory Sql_Table
  imports Prelude "HOL-Library.Product_Lexorder"
begin

text \<open>
  The SQL the program issues, as functions on tables. A table is the list of its rows in
  primary-key order, which is the order every query of the program asks for, so
  \<^verbatim>\<open>SELECT ... WHERE p ORDER BY <key>\<close> is a filter. \<^verbatim>\<open>INSERT\<close> refuses a key that is
  present (the engine throws, which is \<^const>\<open>None\<close>), \<^verbatim>\<open>INSERT OR REPLACE\<close> does not. The
  locale states what the components rely on; its one client lemma is that a run of inserts
  above every stored key succeeds and appends the rows.
\<close>

type_synonym ('k, 'v) table = "('k \<times> 'v) list"

definition table_ok :: "('k::linorder, 'v) table \<Rightarrow> bool" where
  "table_ok t \<longleftrightarrow> sorted_wrt (<) (map fst t)"

fun tbl_upsert :: "'k::linorder \<Rightarrow> 'v \<Rightarrow> ('k, 'v) table \<Rightarrow> ('k, 'v) table" where
  "tbl_upsert k v [] = [(k, v)]"
| "tbl_upsert k v ((a, b) # t) =
     (if k < a then (k, v) # (a, b) # t
      else if k = a then (k, v) # t
      else (a, b) # tbl_upsert k v t)"

definition tbl_insert :: "'k::linorder \<Rightarrow> 'v \<Rightarrow> ('k, 'v) table \<Rightarrow> ('k, 'v) table option" where
  "tbl_insert k v t = (if k \<in> fst ` set t then None else Some (tbl_upsert k v t))"

definition tbl_select :: "('k \<Rightarrow> 'v \<Rightarrow> bool) \<Rightarrow> ('k, 'v) table \<Rightarrow> ('k, 'v) table" where
  "tbl_select P t = filter (\<lambda>(k, v). P k v) t"

definition tbl_delete :: "('k \<Rightarrow> 'v \<Rightarrow> bool) \<Rightarrow> ('k, 'v) table \<Rightarrow> ('k, 'v) table" where
  "tbl_delete P t = filter (\<lambda>(k, v). \<not> P k v) t"

definition tbl_update ::
    "('k \<Rightarrow> 'v \<Rightarrow> bool) \<Rightarrow> ('v \<Rightarrow> 'v) \<Rightarrow> ('k, 'v) table \<Rightarrow> ('k, 'v) table" where
  "tbl_update P f t = map (\<lambda>(k, v). (k, if P k v then f v else v)) t"

text \<open>Statements issued one after another; the first refused insert stops the run.\<close>

fun insert_run :: "('k \<Rightarrow> 'v \<Rightarrow> 't \<Rightarrow> 't option) \<Rightarrow> ('k \<times> 'v) list \<Rightarrow> 't \<Rightarrow> 't option" where
  "insert_run ins [] t = Some t"
| "insert_run ins ((k, v) # kvs) t =
     (case ins k v t of None \<Rightarrow> None | Some t' \<Rightarrow> insert_run ins kvs t')"

fun upsert_run :: "('k \<Rightarrow> 'v \<Rightarrow> 't \<Rightarrow> 't) \<Rightarrow> ('k \<times> 'v) list \<Rightarrow> 't \<Rightarrow> 't" where
  "upsert_run ups [] t = t"
| "upsert_run ups ((k, v) # kvs) t = upsert_run ups kvs (ups k v t)"

section \<open>The contract of a keyed table\<close>

locale keyed_table =
  fixes ins :: "'k::linorder \<Rightarrow> 'v \<Rightarrow> 't \<Rightarrow> 't option"
    and ups :: "'k \<Rightarrow> 'v \<Rightarrow> 't \<Rightarrow> 't"
    and rows :: "'t \<Rightarrow> ('k \<times> 'v) list"
    and inv :: "'t \<Rightarrow> bool"
  assumes insert_refused: "inv t \<Longrightarrow> ins k v t = None \<longleftrightarrow> k \<in> fst ` set (rows t)"
    and insert_stores: "ins k v t = Some t' \<Longrightarrow> t' = ups k v t"
    and upsert_inv: "inv t \<Longrightarrow> inv (ups k v t)"
    and upsert_above: "inv t \<Longrightarrow> (\<And>k'. k' \<in> fst ` set (rows t) \<Longrightarrow> k' < k) \<Longrightarrow>
      rows (ups k v t) = rows t @ [(k, v)]"
begin

lemma upsert_run_above:
  "inv t \<Longrightarrow> sorted_wrt (<) (map fst kvs) \<Longrightarrow>
   (\<And>k' k. k' \<in> fst ` set (rows t) \<Longrightarrow> k \<in> fst ` set kvs \<Longrightarrow> k' < k) \<Longrightarrow>
   inv (upsert_run ups kvs t) \<and> rows (upsert_run ups kvs t) = rows t @ kvs"
proof (induction kvs arbitrary: t)
  case Nil
  then show ?case by simp
next
  case (Cons kv kvs)
  obtain k v where kv: "kv = (k, v)" by fastforce
  have above: "\<And>k'. k' \<in> fst ` set (rows t) \<Longrightarrow> k' < k" using Cons.prems(3) kv by auto
  note rows = upsert_above [OF Cons.prems(1) above, of v]
  have "\<And>k' k''. k' \<in> fst ` set (rows (ups k v t)) \<Longrightarrow> k'' \<in> fst ` set kvs \<Longrightarrow> k' < k''"
    using Cons.prems(2,3) kv rows by auto
  with Cons.IH [OF upsert_inv [OF Cons.prems(1)], of k v] Cons.prems(2) kv rows
  show ?case by simp
qed

lemma insert_run_above:
  "inv t \<Longrightarrow> sorted_wrt (<) (map fst kvs) \<Longrightarrow>
   (\<And>k' k. k' \<in> fst ` set (rows t) \<Longrightarrow> k \<in> fst ` set kvs \<Longrightarrow> k' < k) \<Longrightarrow>
   insert_run ins kvs t = Some (upsert_run ups kvs t)"
proof (induction kvs arbitrary: t)
  case Nil
  then show ?case by simp
next
  case (Cons kv kvs)
  obtain k v where kv: "kv = (k, v)" by fastforce
  have above: "\<And>k'. k' \<in> fst ` set (rows t) \<Longrightarrow> k' < k" using Cons.prems(3) kv by auto
  note rows = upsert_above [OF Cons.prems(1) above, of v]
  have "k \<notin> fst ` set (rows t)" using above by blast
  then have "ins k v t = Some (ups k v t)"
    using insert_refused [OF Cons.prems(1), of k v] insert_stores [of k v t] by (cases "ins k v t") auto
  moreover have "\<And>k' k''. k' \<in> fst ` set (rows (ups k v t)) \<Longrightarrow> k'' \<in> fst ` set kvs \<Longrightarrow> k' < k''"
    using Cons.prems(2,3) kv rows by auto
  ultimately show ?case
    using Cons.IH [OF upsert_inv [OF Cons.prems(1)], of k v] Cons.prems(2) kv by simp
qed

end

section \<open>The model of a table satisfies it\<close>

lemma tbl_upsert_keys: "fst ` set (tbl_upsert k v t) = insert k (fst ` set t)"
  by (induction k v t rule: tbl_upsert.induct) auto

lemma tbl_upsert_ok: "table_ok t \<Longrightarrow> table_ok (tbl_upsert k v t)"
proof (induction k v t rule: tbl_upsert.induct)
  case (1 k v)
  then show ?case by (simp add: table_ok_def)
next
  case (2 k v a b t)
  have "\<And>x. x \<in> set (map fst (tbl_upsert k v t)) \<Longrightarrow> x = k \<or> x \<in> fst ` set t"
    using tbl_upsert_keys [of k v t] by auto
  with 2 show ?case by (fastforce simp: table_ok_def)
qed

lemma tbl_upsert_above:
  "(\<And>k'. k' \<in> fst ` set t \<Longrightarrow> k' < k) \<Longrightarrow> tbl_upsert k v t = t @ [(k, v)]"
proof (induction k v t rule: tbl_upsert.induct)
  case (1 k v)
  then show ?case by simp
next
  case (2 k v a b t)
  from "2.prems" [of a] have "a < k" by simp
  then have "\<not> k < a" "k \<noteq> a" by auto
  with 2 show ?case by simp
qed

lemma tbl_upsert_lookup: "map_of (tbl_upsert k v t) = (map_of t)(k \<mapsto> v)"
  by (induction k v t rule: tbl_upsert.induct) auto

interpretation tbl: keyed_table tbl_insert tbl_upsert "\<lambda>t. t" table_ok
proof unfold_locales
  fix k v t t'
  show "table_ok t \<Longrightarrow> tbl_insert k v t = None \<longleftrightarrow> k \<in> fst ` set t"
    by (simp add: tbl_insert_def)
  show "tbl_insert k v t = Some t' \<Longrightarrow> t' = tbl_upsert k v t"
    by (auto simp: tbl_insert_def split: if_splits)
  show "table_ok t \<Longrightarrow> table_ok (tbl_upsert k v t)" by (rule tbl_upsert_ok)
  show "(\<And>k'. k' \<in> fst ` set t \<Longrightarrow> k' < k) \<Longrightarrow> tbl_upsert k v t = t @ [(k, v)]"
    by (rule tbl_upsert_above)
qed

lemma sorted_wrt_filter: "sorted_wrt P xs \<Longrightarrow> sorted_wrt P (filter Q xs)"
  by (induction xs) auto

lemma tbl_delete_ok: "table_ok t \<Longrightarrow> table_ok (tbl_delete P t)"
  by (simp add: table_ok_def tbl_delete_def sorted_wrt_map sorted_wrt_filter)

lemma tbl_update_ok [simp]: "table_ok (tbl_update P f t) = table_ok t"
  by (simp add: table_ok_def tbl_update_def case_prod_unfold comp_def)

end
