(* ===== verification/Update_Log.thy ===== *)
theory Update_Log
  imports Frames Sql_Table
begin

text \<open>
  The replica's durable record: \<^verbatim>\<open>packages/app/src/data/store/log.ts\<close> (the SQLite port) and
  \<^verbatim>\<open>packages/app/src/data/store/idb-updates.ts\<close> (the IndexedDB port), with the operations
  and the snapshot of \<^verbatim>\<open>persistence.ts\<close> they share. Both hold one relation, updates by id
  with the position the authority gave them. The Yjs library is an argument.
\<close>

section \<open>Yjs\<close>

text \<open>
  What the code calls of \<^verbatim>\<open>@y/y\<close>: a fresh document, applying an update (which may throw),
  encoding a document as one update and merging updates.
\<close>

record 'y yjs =
  new_doc :: 'y
  applyUpdateV2 :: "'y \<Rightarrow> bytes \<Rightarrow> 'y option"
  encodeStateAsUpdateV2 :: "'y \<Rightarrow> bytes"
  mergeUpdatesV2 :: "bytes list \<Rightarrow> bytes"

text \<open>
  The documented laws, over the operations \<open>ops u\<close> an update carries: a document is the set of
  operations applied to it, encoding it gives an update with exactly those, and merging
  updates gives one with all of theirs.
\<close>

definition yjs_laws :: "'y yjs \<Rightarrow> ('y \<Rightarrow> 'o set) \<Rightarrow> (bytes \<Rightarrow> 'o set) \<Rightarrow> bool" where
  "yjs_laws Y content ops \<longleftrightarrow>
     content (new_doc Y) = {}
     \<and> (\<forall>d u d'. applyUpdateV2 Y d u = Some d' \<longrightarrow> content d' = content d \<union> ops u)
     \<and> (\<forall>d. ops (encodeStateAsUpdateV2 Y d) = content d)
     \<and> (\<forall>us. ops (mergeUpdatesV2 Y us) = (\<Union>u\<in>set us. ops u))"

section \<open>The relation\<close>

abbreviation (input) SNAPSHOT_FOLD_THRESHOLD :: nat where "SNAPSHOT_FOLD_THRESHOLD \<equiv> 64"

abbreviation (input) NO_AUTHORITY :: nat where "NO_AUTHORITY \<equiv> 0"

text \<open>A row: its bytes and the authority's position; no position (\<^verbatim>\<open>NULL\<close>) means owed.\<close>

record row =
  rbytes :: bytes
  authoritySeq :: "nat option"

type_synonym updates = "(nat, row) table"

record outbox_entry =
  oid :: nat
  obytes :: bytes

datatype durable_op =
    AppendOp nat bytes "nat option"       \<comment> \<open>id, bytes, authoritySeq\<close>
  | AckOp nat nat                         \<comment> \<open>throughId, authoritySeq\<close>
  | MergeOwedOp "nat list" nat bytes      \<comment> \<open>replaces, id, bytes\<close>

record durable_snapshot =
  supdates :: "bytes list"
  soutbox :: "outbox_entry list"
  scursor :: nat
  slastId :: nat

section \<open>The SQLite port\<close>

definition owed :: "nat \<Rightarrow> row \<Rightarrow> bool" where
  "owed i r \<longleftrightarrow> authoritySeq r = None"

definition readOutbox :: "updates \<Rightarrow> outbox_entry list" where
  "readOutbox t = map (\<lambda>(i, r). \<lparr>oid = i, obytes = rbytes r\<rparr>) (tbl_select owed t)"

text \<open>\<^verbatim>\<open>SELECT MAX(authoritySeq)\<close>, which ignores \<^verbatim>\<open>NULL\<close>; with no row it is \<^verbatim>\<open>NULL\<close>, read as 0.\<close>

definition maxSeq :: "updates \<Rightarrow> nat option" where
  "maxSeq t = fold (\<lambda>(i, r) m. case authoritySeq r of None \<Rightarrow> m
                     | Some q \<Rightarrow> (case m of None \<Rightarrow> Some q | Some p \<Rightarrow> Some (max p q))) t None"

definition readCursor :: "updates \<Rightarrow> nat" where
  "readCursor t = (case maxSeq t of None \<Rightarrow> 0 | Some q \<Rightarrow> q)"

definition readLastId :: "updates \<Rightarrow> nat" where
  "readLastId t = fold (\<lambda>(i, r) m. max i m) t 0"

definition acknowledge :: "nat \<Rightarrow> nat \<Rightarrow> updates \<Rightarrow> updates" where
  "acknowledge throughId seq t =
     tbl_update (\<lambda>i r. i \<le> throughId \<and> owed i r) (\<lambda>r. r\<lparr>authoritySeq := Some seq\<rparr>) t"

definition readUpdates :: "updates \<Rightarrow> (nat \<times> bytes) list" where
  "readUpdates t = map (\<lambda>(i, r). (i, rbytes r)) t"

text \<open>Replaying a chain into a fresh document; an update that cannot be applied throws.\<close>

fun replay_on :: "'y yjs \<Rightarrow> 'y \<Rightarrow> bytes list \<Rightarrow> 'y option" where
  "replay_on Y d [] = Some d"
| "replay_on Y d (u # us) = (case applyUpdateV2 Y d u of None \<Rightarrow> None | Some d' \<Rightarrow> replay_on Y d' us)"

definition replay :: "'y yjs \<Rightarrow> (nat \<times> bytes) list \<Rightarrow> 'y option" where
  "replay Y us = replay_on Y (new_doc Y) (map snd us)"

definition foldableCount :: "updates \<Rightarrow> nat" where
  "foldableCount t = length (tbl_select (\<lambda>i r. \<not> owed i r) t)"

text \<open>An \<^verbatim>\<open>INSERT\<close> whose id is taken, or is not positive, throws.\<close>

definition insert_update :: "nat \<Rightarrow> row \<Rightarrow> updates \<Rightarrow> updates option" where
  "insert_update i r t = (if i > 0 then tbl_insert i r t else None)"

definition sqlite_fold :: "'y yjs \<Rightarrow> updates \<Rightarrow> updates option" where
  "sqlite_fold Y t =
     (if foldableCount t < SNAPSHOT_FOLD_THRESHOLD then Some t
      else
        let foldable = readUpdates (tbl_select (\<lambda>i r. \<not> owed i r) t) in
        if foldable = [] then Some t
        else
          let through = fst (last foldable);
              position = (case maxSeq t of None \<Rightarrow> NO_AUTHORITY | Some q \<Rightarrow> q) in
          case replay Y foldable of
            None \<Rightarrow> None
          | Some compacted \<Rightarrow>
              insert_update through \<lparr>rbytes = encodeStateAsUpdateV2 Y compacted, authoritySeq = Some position\<rparr>
                (tbl_delete (\<lambda>i r. \<not> owed i r) t))"

definition loadDurableSnapshot :: "updates \<Rightarrow> durable_snapshot" where
  "loadDurableSnapshot t =
     \<lparr>supdates = map snd (readUpdates t), soutbox = readOutbox t, scursor = readCursor t,
      slastId = readLastId t\<rparr>"

text \<open>One operation of a batch; a throw rolls the batch back.\<close>

fun sqlite_op :: "durable_op \<Rightarrow> updates \<Rightarrow> updates option" where
  "sqlite_op (AppendOp i bs seq) t = insert_update i \<lparr>rbytes = bs, authoritySeq = seq\<rparr> t"
| "sqlite_op (AckOp throughId seq) t = Some (acknowledge throughId seq t)"
| "sqlite_op (MergeOwedOp replaces i bs) t =
     insert_update i \<lparr>rbytes = bs, authoritySeq = None\<rparr>
       (fold (\<lambda>replaced. tbl_delete (\<lambda>j r. j = replaced)) replaces t)"

fun sqlite_ops :: "durable_op list \<Rightarrow> updates \<Rightarrow> updates option" where
  "sqlite_ops [] t = Some t"
| "sqlite_ops (op # ops) t = (case sqlite_op op t of None \<Rightarrow> None | Some t' \<Rightarrow> sqlite_ops ops t')"

definition sqlite_commit :: "'y yjs \<Rightarrow> durable_op list \<Rightarrow> updates \<Rightarrow> updates option" where
  "sqlite_commit Y ops t = (case sqlite_ops ops t of None \<Rightarrow> None | Some t' \<Rightarrow> sqlite_fold Y t')"

section \<open>The IndexedDB port\<close>

text \<open>The one pass over the rows that \<open>readIdbUpdates\<close> makes.\<close>

definition readIdbUpdates :: "updates \<Rightarrow> durable_snapshot" where
  "readIdbUpdates t = fold (\<lambda>(i, r) s.
     let s1 = (if i > slastId s then s\<lparr>slastId := i\<rparr> else s);
         s2 = s1\<lparr>supdates := supdates s1 @ [rbytes r]\<rparr> in
     case authoritySeq r of
       None \<Rightarrow> s2\<lparr>soutbox := soutbox s2 @ [\<lparr>oid = i, obytes = rbytes r\<rparr>]\<rparr>
     | Some q \<Rightarrow> if q > scursor s2 then s2\<lparr>scursor := q\<rparr> else s2)
     t \<lparr>supdates = [], soutbox = [], scursor = 0, slastId = 0\<rparr>"

text \<open>A transaction in progress: the rows, the count of rows and whether the chain grew.\<close>

record idb_work =
  rows :: updates
  chain :: int
  grew :: bool

fun idb_op :: "durable_op \<Rightarrow> idb_work \<Rightarrow> idb_work" where
  "idb_op (AppendOp i bs seq) w =
     w\<lparr>rows := tbl_upsert i \<lparr>rbytes = bs, authoritySeq = seq\<rparr> (rows w), chain := chain w + 1, grew := True\<rparr>"
| "idb_op (MergeOwedOp replaces i bs) w =
     w\<lparr>rows := tbl_upsert i \<lparr>rbytes = bs, authoritySeq = None\<rparr>
         (fold (\<lambda>replaced. tbl_delete (\<lambda>j r. j = replaced)) replaces (rows w)),
       chain := chain w - int (length replaces) + 1\<rparr>"
| "idb_op (AckOp throughId seq) w =
     fold (\<lambda>(key, r) w.
         if authoritySeq r \<noteq> None then w
         else w\<lparr>rows := tbl_upsert key (r\<lparr>authoritySeq := Some seq\<rparr>) (rows w), grew := True\<rparr>)
       (tbl_select (\<lambda>i r. i \<le> throughId) (rows w)) w"

text \<open>The loop that gathers what may fold and the highest position among it.\<close>

definition idb_foldable :: "updates \<Rightarrow> (nat \<times> bytes) list \<times> int option" where
  "idb_foldable t = fold (\<lambda>(i, r) (fs, position).
     case authoritySeq r of
       None \<Rightarrow> (fs, position)
     | Some q \<Rightarrow> (fs @ [(i, rbytes r)],
                 if int q > (case position of None \<Rightarrow> -1 | Some p \<Rightarrow> p) then Some (int q) else position))
     t ([], None)"

definition idb_fold :: "'y yjs \<Rightarrow> idb_work \<Rightarrow> idb_work option" where
  "idb_fold Y w =
     (if grew w \<and> chain w \<ge> int SNAPSHOT_FOLD_THRESHOLD then
        let (foldable, position) = idb_foldable (rows w) in
        if length foldable \<ge> SNAPSHOT_FOLD_THRESHOLD then
          case replay Y foldable of
            None \<Rightarrow> None
          | Some folded \<Rightarrow>
              let baseline = encodeStateAsUpdateV2 Y folded;
                  left = fold (\<lambda>(i, b). tbl_delete (\<lambda>j r. j = i)) foldable (rows w) in
              Some (w\<lparr>rows := tbl_upsert (fst (last foldable))
                        \<lparr>rbytes = baseline,
                         authoritySeq = Some (case position of None \<Rightarrow> NO_AUTHORITY | Some p \<Rightarrow> nat p)\<rparr> left,
                      chain := chain w - int (length foldable) + 1\<rparr>)
        else Some w
      else Some w)"

text \<open>
  \<open>held\<close> advances only when the batch lands. \<^const>\<open>None\<close>: the transaction aborted and the rows
  are as they were.
\<close>

definition idb_commit :: "'y yjs \<Rightarrow> durable_op list \<Rightarrow> updates \<times> int \<Rightarrow> (updates \<times> int) option" where
  "idb_commit Y ops s =
     (case idb_fold Y (fold idb_op ops \<lparr>rows = fst s, chain = snd s, grew = False\<rparr>) of
        None \<Rightarrow> None
      | Some w \<Rightarrow> Some (rows w, chain w))"

definition idb_open :: "updates \<Rightarrow> updates \<times> int" where
  "idb_open t = (t, int (length (supdates (readIdbUpdates t))))"

definition idb_create :: "bytes \<Rightarrow> nat \<Rightarrow> updates \<times> int \<Rightarrow> updates \<times> int" where
  "idb_create bs position s = (tbl_upsert 1 \<lparr>rbytes = bs, authoritySeq = Some position\<rparr> (fst s), 1)"

section \<open>What a batch does to the outbox and the cursor\<close>

text \<open>
  The mirror of \<^verbatim>\<open>persistence.ts\<close> (its function \<open>succeeded\<close>): the outbox and the cursor are
  advanced over a confirmed batch without reading storage.
\<close>

fun succeeded_op :: "durable_op \<Rightarrow> outbox_entry list \<times> nat \<Rightarrow> outbox_entry list \<times> nat" where
  "succeeded_op (AppendOp i bs seq) (outbox, cursor) =
     (case seq of
        None \<Rightarrow> (outbox @ [\<lparr>oid = i, obytes = bs\<rparr>], cursor)
      | Some q \<Rightarrow> (outbox, if q > cursor then q else cursor))"
| "succeeded_op (AckOp throughId seq) (outbox, cursor) =
     (filter (\<lambda>e. oid e > throughId) outbox, if seq > cursor then seq else cursor)"
| "succeeded_op (MergeOwedOp replaces i bs) (outbox, cursor) =
     (filter (\<lambda>e. oid e \<notin> set replaces) outbox @ [\<lparr>oid = i, obytes = bs\<rparr>], cursor)"

definition succeeded :: "durable_op list \<Rightarrow> outbox_entry list \<times> nat \<Rightarrow> outbox_entry list \<times> nat" where
  "succeeded batch m = fold succeeded_op batch m"

text \<open>
  The batches the controller makes: new ids lie above every id used before, and a merge
  replaces owed entries, each once. An acknowledgement may name an entry a merge has replaced
  meanwhile; \<open>acks_owed\<close> says that none of the batch does.
\<close>

definition outbox_ids :: "outbox_entry list \<Rightarrow> nat set" where
  "outbox_ids ob = oid ` set ob"

fun op_ok :: "durable_op \<Rightarrow> outbox_entry list \<Rightarrow> nat \<Rightarrow> bool" where
  "op_ok (AppendOp i bs seq) ob m = (m < i)"
| "op_ok (AckOp throughId seq) ob m = True"
| "op_ok (MergeOwedOp replaces i bs) ob m = (m < i \<and> distinct replaces \<and> set replaces \<subseteq> outbox_ids ob)"

fun op_id :: "durable_op \<Rightarrow> nat \<Rightarrow> nat" where
  "op_id (AppendOp i bs seq) m = i"
| "op_id (AckOp throughId seq) m = m"
| "op_id (MergeOwedOp replaces i bs) m = i"

fun ops_ok :: "durable_op list \<Rightarrow> outbox_entry list \<times> nat \<Rightarrow> nat \<Rightarrow> bool" where
  "ops_ok [] mc m = True"
| "ops_ok (op # ops) mc m = (op_ok op (fst mc) m \<and> ops_ok ops (succeeded_op op mc) (op_id op m))"

fun ack_owed :: "durable_op \<Rightarrow> outbox_entry list \<Rightarrow> bool" where
  "ack_owed (AckOp throughId seq) ob = (throughId \<in> outbox_ids ob)"
| "ack_owed (AppendOp i bs seq) ob = True"
| "ack_owed (MergeOwedOp replaces i bs) ob = True"

fun acks_owed :: "durable_op list \<Rightarrow> outbox_entry list \<times> nat \<Rightarrow> bool" where
  "acks_owed [] mc = True"
| "acks_owed (op # ops) mc = (ack_owed op (fst mc) \<and> acks_owed ops (succeeded_op op mc))"

text \<open>The outbox half of the mirror does not depend on the cursor, and the cursor half is monotone.\<close>

lemma succeeded_op_cursor: "c \<le> c' \<Longrightarrow> fst (succeeded_op op (ob, c)) = fst (succeeded_op op (ob, c'))
    \<and> snd (succeeded_op op (ob, c)) \<le> snd (succeeded_op op (ob, c'))"
  by (cases op) (auto split: option.split)

lemma ops_ok_cursor: "ops_ok ops (ob, c) m = ops_ok ops (ob, c') m"
proof (induction ops arbitrary: ob c c' m)
  case (Cons op ops)
  have "fst (succeeded_op op (ob, c)) = fst (succeeded_op op (ob, c'))"
    by (cases op) (simp_all split: option.split)
  then obtain ob' d d' where "succeeded_op op (ob, c) = (ob', d)" "succeeded_op op (ob, c') = (ob', d')"
    by (cases "succeeded_op op (ob, c)"; cases "succeeded_op op (ob, c')") simp
  then show ?case using Cons.IH [of ob' d "op_id op m" d'] by simp
qed simp

section \<open>Tables of updates\<close>

definition updates_ok :: "updates \<Rightarrow> bool" where
  "updates_ok t \<longleftrightarrow> table_ok t \<and> (\<forall>k\<in>fst ` set t. 0 < k)"

lemma readLastId_ge: "i \<in> fst ` set t \<Longrightarrow> i \<le> readLastId t"
proof -
  have "m \<le> fold (\<lambda>(i, r) m. max i m) t m \<and> (\<forall>x\<in>set t. fst x \<le> fold (\<lambda>(i, r) m. max i m) t m)" for m
  proof (induction t arbitrary: m)
    case (Cons x t)
    from Cons [of "max (fst x) m"] show ?case by (auto simp: case_prod_unfold)
  qed simp
  then show "i \<in> fst ` set t \<Longrightarrow> ?thesis" by (auto simp: readLastId_def)
qed

lemma readLastId_snoc: "readLastId (t @ [(i, r)]) = max i (readLastId t)"
  by (simp add: readLastId_def)

lemma maxSeq_snoc:
  "maxSeq (t @ [(i, r)]) = (case authoritySeq r of None \<Rightarrow> maxSeq t
     | Some q \<Rightarrow> (case maxSeq t of None \<Rightarrow> Some q | Some p \<Rightarrow> Some (max p q)))"
  by (simp add: maxSeq_def split: option.split)

lemma maxSeq_Max: "maxSeq t = (let qs = {q. \<exists>k\<in>set t. authoritySeq (snd k) = Some q} in if qs = {} then None else Some (Max qs))"
proof (induction t rule: rev_induct)
  case Nil
  then show ?case by (simp add: maxSeq_def)
next
  case (snoc x t)
  obtain i r where x: "x = (i, r)" by fastforce
  let ?q = "\<lambda>t. {q. \<exists>k\<in>set t. authoritySeq (snd k) = Some q}"
  have fin: "finite (?q t)" by (rule finite_subset [of _ "the ` authoritySeq ` snd ` set t"]) force+
  have un: "?q (t @ [x]) = ?q t \<union> (case authoritySeq r of None \<Rightarrow> {} | Some q \<Rightarrow> {q})"
    by (auto simp: x split: option.split)
  show ?case
  proof (cases "authoritySeq r")
    case None
    with snoc show ?thesis unfolding un Let_def by (simp add: x maxSeq_snoc)
  next
    case (Some q)
    with snoc fin show ?thesis unfolding un Let_def
      by (cases "?q t = {}") (simp_all add: x maxSeq_snoc max.commute Max_insert2 del: Collect_empty_eq)
  qed
qed

text \<open>Both ports load the same snapshot from the same rows.\<close>

lemma readIdbUpdates_eq: "readIdbUpdates t = loadDurableSnapshot t"
proof (induction t rule: rev_induct)
  case Nil
  then show ?case by (simp add: readIdbUpdates_def loadDurableSnapshot_def readUpdates_def readOutbox_def
        readCursor_def maxSeq_def readLastId_def tbl_select_def)
next
  case (snoc x t)
  obtain i r where x: "x = (i, r)" by fastforce
  let ?s = "loadDurableSnapshot t"
  have "readIdbUpdates (t @ [x]) = (\<lambda>(i, r) s.
     let s1 = (if i > slastId s then s\<lparr>slastId := i\<rparr> else s);
         s2 = s1\<lparr>supdates := supdates s1 @ [rbytes r]\<rparr> in
     case authoritySeq r of
       None \<Rightarrow> s2\<lparr>soutbox := soutbox s2 @ [\<lparr>oid = i, obytes = rbytes r\<rparr>]\<rparr>
     | Some q \<Rightarrow> if q > scursor s2 then s2\<lparr>scursor := q\<rparr> else s2) x (readIdbUpdates t)"
    unfolding readIdbUpdates_def by simp
  also have "\<dots> = loadDurableSnapshot (t @ [x])"
    unfolding snoc x
    by (auto simp: loadDurableSnapshot_def Let_def readUpdates_def readOutbox_def tbl_select_def owed_def
        readCursor_def maxSeq_snoc readLastId_snoc max_def split: option.split)
  finally show ?case .
qed

text \<open>How each statement shows in the outbox and in the cursor.\<close>

lemma readOutbox_append: "readOutbox (t @ t') = readOutbox t @ readOutbox t'"
  by (simp add: readOutbox_def tbl_select_def)

lemma readOutbox_ids: "outbox_ids (readOutbox t) = {i. \<exists>r. (i, r) \<in> set t \<and> authoritySeq r = None}"
  by (auto simp: outbox_ids_def readOutbox_def tbl_select_def owed_def image_iff)

lemma readCursor_snoc:
  "readCursor (t @ [(i, r)]) = (case authoritySeq r of None \<Rightarrow> readCursor t | Some q \<Rightarrow> max (readCursor t) q)"
  by (auto simp: readCursor_def maxSeq_snoc split: option.split)

lemma insert_above:
  assumes "updates_ok t" and "\<And>k. k \<in> fst ` set t \<Longrightarrow> k \<le> m" and "m < i"
  shows "insert_update i r t = Some (t @ [(i, r)])" and "updates_ok (t @ [(i, r)])"
proof -
  have lt: "\<And>k. k \<in> fst ` set t \<Longrightarrow> k < i" using assms(2,3) by fastforce
  then show "insert_update i r t = Some (t @ [(i, r)])"
    using assms(3) tbl_upsert_above [of t i r] by (auto simp: insert_update_def tbl_insert_def)
  show "updates_ok (t @ [(i, r)])"
    using assms(1,3) lt by (auto simp: updates_ok_def table_ok_def sorted_wrt_append)
qed

lemma updates_distinct:
  assumes "updates_ok t" and "(i, r) \<in> set t" and "(i, r') \<in> set t" shows "r = r'"
proof -
  have "distinct (map fst t)" using assms(1) by (simp add: updates_ok_def table_ok_def strict_sorted_iff)
  with assms(2,3) show ?thesis by (auto dest: eq_key_imp_eq_value)
qed

lemma acknowledge_ok [simp]: "updates_ok (acknowledge q seq t) = updates_ok t" "fst ` set (acknowledge q seq t) = fst ` set t"
proof -
  show "fst ` set (acknowledge q seq t) = fst ` set t" by (force simp: acknowledge_def tbl_update_def)
  then show "updates_ok (acknowledge q seq t) = updates_ok t" by (simp add: updates_ok_def acknowledge_def)
qed

lemma acknowledge_outbox: "readOutbox (acknowledge q seq t) = filter (\<lambda>e. oid e > q) (readOutbox t)"
  by (induction t) (auto simp: readOutbox_def acknowledge_def tbl_update_def tbl_select_def owed_def)

lemma maxSeq_acknowledge:
  "maxSeq (acknowledge q seq t) =
     (if \<exists>x\<in>set t. fst x \<le> q \<and> authoritySeq (snd x) = None
      then Some (case maxSeq t of None \<Rightarrow> seq | Some p \<Rightarrow> max p seq) else maxSeq t)"
proof (induction t rule: rev_induct)
  case Nil
  then show ?case by (simp add: acknowledge_def tbl_update_def)
next
  case (snoc x t)
  obtain i r where x: "x = (i, r)" by fastforce
  have app: "acknowledge q seq (t @ [x]) = acknowledge q seq t @ [(i, if i \<le> q \<and> owed i r then r\<lparr>authoritySeq := Some seq\<rparr> else r)]"
    by (simp add: acknowledge_def tbl_update_def x)
  show ?case
    unfolding app maxSeq_snoc snoc
    by (cases "authoritySeq r"; cases "i \<le> q"; cases "maxSeq t")
      (auto simp: x maxSeq_snoc owed_def max.commute max.left_commute)
qed

lemma acknowledge_cursor:
  assumes "q \<in> outbox_ids (readOutbox t)"
  shows "readCursor (acknowledge q seq t) = max (readCursor t) seq"
proof -
  have "\<exists>x\<in>set t. fst x \<le> q \<and> authoritySeq (snd x) = None"
    using assms by (force simp: readOutbox_ids)
  then show ?thesis by (simp add: readCursor_def maxSeq_acknowledge split: option.split)
qed

lemma delete_all: "fold (\<lambda>k. tbl_delete (\<lambda>j r. j = k)) ks t = tbl_delete (\<lambda>j r. j \<in> set ks) t"
  by (induction ks arbitrary: t) (auto simp: tbl_delete_def intro!: filter_cong)

lemma delete_outbox: "readOutbox (tbl_delete (\<lambda>j r. j \<in> K) t) = filter (\<lambda>e. oid e \<notin> K) (readOutbox t)"
  by (induction t) (auto simp: readOutbox_def tbl_delete_def tbl_select_def)

lemma maxSeq_delete_owed:
  assumes "\<And>x. x \<in> set t \<Longrightarrow> P (fst x) (snd x) \<Longrightarrow> authoritySeq (snd x) = None"
  shows "maxSeq (tbl_delete P t) = maxSeq t"
  using assms
proof (induction t rule: rev_induct)
  case (snoc x t)
  obtain i r where x: "x = (i, r)" by fastforce
  have "maxSeq (tbl_delete P t) = maxSeq t" using snoc by auto
  moreover have "tbl_delete P (t @ [x]) = tbl_delete P t @ (if P i r then [] else [x])" by (simp add: tbl_delete_def x)
  moreover have "P i r \<Longrightarrow> authoritySeq r = None" using snoc.prems [of x] by (simp add: x)
  ultimately show ?case by (simp add: x maxSeq_snoc split: option.split)
qed (simp add: tbl_delete_def)

lemma delete_updates_ok: "updates_ok t \<Longrightarrow> updates_ok (tbl_delete P t)"
  by (auto simp: updates_ok_def tbl_delete_ok) (auto simp: tbl_delete_def)

lemma merge_delete:
  assumes "updates_ok t" and "set ks \<subseteq> outbox_ids (readOutbox t)"
  shows "maxSeq (tbl_delete (\<lambda>j r. j \<in> set ks) t) = maxSeq t"
proof (rule maxSeq_delete_owed)
  fix x assume x: "x \<in> set t" "fst x \<in> set ks"
  then obtain r where "(fst x, r) \<in> set t" "authoritySeq r = None" using assms(2) by (auto simp: readOutbox_ids)
  with x updates_distinct [OF assms(1), of "fst x" "snd x" r] show "authoritySeq (snd x) = None" by simp
qed

text \<open>A batch the controller makes is applied, and shows as the mirror says.\<close>

lemma sqlite_op_mirror:
  assumes "updates_ok t" and "\<And>k. k \<in> fst ` set t \<Longrightarrow> k \<le> m" and "op_ok op (readOutbox t) m"
  shows "\<exists>t'. sqlite_op op t = Some t' \<and> updates_ok t' \<and> (\<forall>k\<in>fst ` set t'. k \<le> op_id op m)
    \<and> readOutbox t' = fst (succeeded_op op (readOutbox t, c))
    \<and> (readCursor t \<le> c \<longrightarrow> readCursor t' \<le> snd (succeeded_op op (readOutbox t, c)))
    \<and> (readCursor t = c \<and> ack_owed op (readOutbox t) \<longrightarrow> readCursor t' = snd (succeeded_op op (readOutbox t, c)))"
proof (cases op)
  case (AppendOp i bs seq)
  let ?r = "\<lparr>rbytes = bs, authoritySeq = seq\<rparr>"
  have i: "m < i" using assms(3) AppendOp by simp
  note ins = insert_above [OF assms(1,2) i, of ?r]
  have keys: "\<forall>k\<in>fst ` set (t @ [(i, ?r)]). k \<le> i" using assms(2) i by fastforce
  show ?thesis using ins keys AppendOp
    by (cases seq) (auto simp: readOutbox_append readCursor_snoc readOutbox_def tbl_select_def owed_def max_def)
next
  case (AckOp q seq)
  have keys: "\<forall>k\<in>fst ` set (acknowledge q seq t). k \<le> m" unfolding acknowledge_ok using assms(2) by blast
  have "readCursor (acknowledge q seq t) \<le> max (readCursor t) seq"
    by (simp add: readCursor_def maxSeq_acknowledge split: option.split)
  then have "readCursor t \<le> c \<Longrightarrow> readCursor (acknowledge q seq t) \<le> (if c < seq then seq else c)"
    by (auto split: if_splits)
  then show ?thesis using keys assms(1) acknowledge_cursor [of q t seq]
    by (intro exI [of _ "acknowledge q seq t"]) (auto simp: AckOp acknowledge_outbox simp del: acknowledge_ok(2))
next
  case (MergeOwedOp ks i bs)
  let ?t = "tbl_delete (\<lambda>j r. j \<in> set ks) t" and ?r = "\<lparr>rbytes = bs, authoritySeq = None\<rparr>"
  have ok: "updates_ok ?t" by (rule delete_updates_ok [OF assms(1)])
  have keys: "\<And>k. k \<in> fst ` set ?t \<Longrightarrow> k \<le> m" using assms(2) by (auto simp: tbl_delete_def)
  have i: "m < i" and ks: "set ks \<subseteq> outbox_ids (readOutbox t)" using assms(3) MergeOwedOp by auto
  note ins = insert_above [OF ok keys i, of ?r]
  have "\<forall>k\<in>fst ` set (?t @ [(i, ?r)]). k \<le> i" using keys i by fastforce
  moreover have "readCursor (?t @ [(i, ?r)]) = readCursor t"
    using merge_delete [OF assms(1) ks] by (simp add: readCursor_def maxSeq_snoc)
  moreover have "readOutbox (?t @ [(i, ?r)]) = filter (\<lambda>e. oid e \<notin> set ks) (readOutbox t) @ [\<lparr>oid = i, obytes = bs\<rparr>]"
    by (simp add: readOutbox_append delete_outbox) (simp add: readOutbox_def tbl_select_def owed_def)
  ultimately show ?thesis using ins MergeOwedOp by (simp add: delete_all)
qed

lemma sqlite_ops_mirror:
  assumes "updates_ok t" and "\<forall>k\<in>fst ` set t. k \<le> m" and "ops_ok ops (readOutbox t, readCursor t) m"
    and "readCursor t \<le> c"
  shows "\<exists>t'. sqlite_ops ops t = Some t' \<and> updates_ok t' \<and> (\<forall>k\<in>fst ` set t'. k \<le> fold op_id ops m)
    \<and> readOutbox t' = fst (succeeded ops (readOutbox t, c)) \<and> readCursor t' \<le> snd (succeeded ops (readOutbox t, c))
    \<and> (readCursor t = c \<and> acks_owed ops (readOutbox t, c) \<longrightarrow> readCursor t' = snd (succeeded ops (readOutbox t, c)))"
  using assms
proof (induction ops arbitrary: t m c)
  case (Cons op ops)
  from Cons.prems have "op_ok op (readOutbox t) m" by simp
  from sqlite_op_mirror [OF Cons.prems(1) _ this, of c] Cons.prems(2) obtain t1 where
    t1: "sqlite_op op t = Some t1" "updates_ok t1" "\<forall>k\<in>fst ` set t1. k \<le> op_id op m"
      and ob: "readOutbox t1 = fst (succeeded_op op (readOutbox t, c))"
      and le: "readCursor t \<le> c \<longrightarrow> readCursor t1 \<le> snd (succeeded_op op (readOutbox t, c))"
      and eq: "readCursor t = c \<and> ack_owed op (readOutbox t) \<longrightarrow> readCursor t1 = snd (succeeded_op op (readOutbox t, c))" by blast
  obtain ob' c' where s: "succeeded_op op (readOutbox t, c) = (ob', c')" by fastforce
  have "ops_ok ops (readOutbox t1, readCursor t1) (op_id op m)"
    using Cons.prems(3) ob ops_ok_cursor [of "op # ops" "readOutbox t" "readCursor t" m c]
      ops_ok_cursor [of ops ob' c' "op_id op m" "readCursor t1"] by (simp add: s)
  moreover have "readCursor t1 \<le> c'" using le Cons.prems(4) by (simp add: s)
  ultimately obtain t' where "sqlite_ops ops t1 = Some t'" "updates_ok t'" "\<forall>k\<in>fst ` set t'. k \<le> fold op_id ops (op_id op m)"
    "readOutbox t' = fst (succeeded ops (ob', c'))" "readCursor t' \<le> snd (succeeded ops (ob', c'))"
    "readCursor t1 = c' \<and> acks_owed ops (ob', c') \<longrightarrow> readCursor t' = snd (succeeded ops (ob', c'))"
    using Cons.IH [OF t1(2,3), of c'] ob by (auto simp: s)
  with t1(1) eq show ?case by (intro exI [of _ t']) (simp add: succeeded_def s)
qed (simp add: succeeded_def)

text \<open>The fold keeps what is owed and the cursor, and the operations held.\<close>

definition held_ops :: "(bytes \<Rightarrow> 'o set) \<Rightarrow> updates \<Rightarrow> 'o set" where
  "held_ops ops t = (\<Union>x\<in>set t. ops (rbytes (snd x)))"

lemma replay_content:
  assumes "yjs_laws Y content ops" and "replay Y us = Some d"
  shows "content d = (\<Union>u\<in>set us. ops (snd u))"
proof -
  have "replay_on Y e bs = Some d \<Longrightarrow> content d = content e \<union> (\<Union>u\<in>set bs. ops u)" for e bs
    using assms(1) by (induction Y e bs rule: replay_on.induct) (auto simp: yjs_laws_def split: option.splits)
  from this [of "new_doc Y" "map snd us"] assms show ?thesis by (simp add: replay_def yjs_laws_def)
qed

definition acked :: "updates \<Rightarrow> updates" where
  "acked t = tbl_select (\<lambda>i r. \<not> owed i r) t"

lemma acked_last:
  assumes "updates_ok t" and "acked t \<noteq> []"
  shows "0 < fst (last (acked t))" and "fst (last (acked t)) \<notin> fst ` set (tbl_delete (\<lambda>i r. \<not> owed i r) t)"
    and "fst (last (acked t)) \<in> fst ` set t"
proof -
  obtain i r where l: "last (acked t) = (i, r)" by fastforce
  then have "(i, r) \<in> set (acked t)" using assms(2) last_in_set by fastforce
  then have ir: "(i, r) \<in> set t" "\<not> owed i r" by (auto simp: acked_def tbl_select_def)
  then show "0 < fst (last (acked t))" "fst (last (acked t)) \<in> fst ` set t"
    using assms(1) by (force simp: l updates_ok_def)+
  show "fst (last (acked t)) \<notin> fst ` set (tbl_delete (\<lambda>i r. \<not> owed i r) t)"
    using updates_distinct [OF assms(1) ir(1)] ir(2) by (auto simp: l tbl_delete_def owed_def)
qed

definition folded :: "bytes \<Rightarrow> updates \<Rightarrow> updates" where
  "folded baseline t = tbl_upsert (fst (last (acked t)))
     \<lparr>rbytes = baseline, authoritySeq = Some (readCursor t)\<rparr> (tbl_delete (\<lambda>i r. \<not> owed i r) t)"

lemma sqlite_fold_cases:
  assumes "updates_ok t" and "sqlite_fold Y t = Some t'"
  obtains (short) "t' = t" "length (acked t) < SNAPSHOT_FOLD_THRESHOLD"
  | (collapsed) d where "length (acked t) \<ge> SNAPSHOT_FOLD_THRESHOLD" "replay Y (readUpdates (acked t)) = Some d"
      "t' = folded (encodeStateAsUpdateV2 Y d) t"
proof (cases "length (acked t) < SNAPSHOT_FOLD_THRESHOLD")
  case True
  then show ?thesis using short assms(2) by (simp add: sqlite_fold_def foldableCount_def acked_def)
next
  case False
  then have ne: "acked t \<noteq> []" by auto
  have last: "fst (last (readUpdates (acked t))) = fst (last (acked t))"
    using ne by (cases "last (acked t)") (simp add: readUpdates_def last_map)
  obtain d where d: "replay Y (readUpdates (acked t)) = Some d"
    "insert_update (fst (last (acked t))) \<lparr>rbytes = encodeStateAsUpdateV2 Y d, authoritySeq = Some (readCursor t)\<rparr>
       (tbl_delete (\<lambda>i r. \<not> owed i r) t) = Some t'"
    using assms(2) False ne last
    by (auto simp: sqlite_fold_def foldableCount_def acked_def [symmetric] Let_def readCursor_def readUpdates_def split: option.splits)
  then have "t' = folded (encodeStateAsUpdateV2 Y d) t"
    using acked_last [OF assms(1) ne] by (simp add: insert_update_def tbl_insert_def folded_def)
  with False d(1) show ?thesis by (intro collapsed) simp_all
qed

lemma upsert_new_set: "k \<notin> fst ` set t \<Longrightarrow> set (tbl_upsert k v t) = insert (k, v) (set t)"
  by (induction k v t rule: tbl_upsert.induct) auto

lemma upsert_new_filter: "k \<notin> fst ` set t \<Longrightarrow> \<not> P (k, v) \<Longrightarrow> filter P (tbl_upsert k v t) = filter P t"
  by (induction k v t rule: tbl_upsert.induct) auto

lemma upsert_new_length: "k \<notin> fst ` set t \<Longrightarrow> length (tbl_upsert k v t) = Suc (length t)"
  by (induction k v t rule: tbl_upsert.induct) auto

lemma maxSeq_set: "set t = set t' \<Longrightarrow> maxSeq t = maxSeq t'"
  by (simp add: maxSeq_Max)

lemma folded_facts:
  assumes "updates_ok t" and "acked t \<noteq> []"
  shows "updates_ok (folded b t)" and "readOutbox (folded b t) = readOutbox t" and "readCursor (folded b t) = readCursor t"
    and "fst ` set (folded b t) \<subseteq> fst ` set t" and "length (acked (folded b t)) = 1"
    and "length (folded b t) + length (acked t) = length t + 1"
proof -
  let ?t = "tbl_delete (\<lambda>i r. \<not> owed i r) t" and ?k = "fst (last (acked t))"
  let ?r = "\<lparr>rbytes = b, authoritySeq = Some (readCursor t)\<rparr>"
  note last = acked_last [OF assms]
  have ok: "updates_ok ?t" by (rule delete_updates_ok [OF assms(1)])
  show "updates_ok (folded b t)"
    using ok last(1) by (auto simp: updates_ok_def folded_def tbl_upsert_ok tbl_upsert_keys)
  show "readOutbox (folded b t) = readOutbox t"
    unfolding readOutbox_def tbl_select_def folded_def using last(2)
    by (subst upsert_new_filter) (auto simp: owed_def tbl_delete_def intro!: arg_cong [where f = "map _"] filter_cong)
  show "fst ` set (folded b t) \<subseteq> fst ` set t"
    using last(3) by (auto simp: folded_def tbl_upsert_keys tbl_delete_def)
  have "filter (\<lambda>(k, v). \<not> owed k v) (tbl_upsert ?k ?r ?t) = [(?k, ?r)]"
  proof -
    have "\<And>x. x \<in> set ?t \<Longrightarrow> owed (fst x) (snd x)" by (auto simp: tbl_delete_def)
    moreover have "k \<notin> fst ` set u \<Longrightarrow> \<not> owed k v \<Longrightarrow> (\<And>x. x \<in> set u \<Longrightarrow> owed (fst x) (snd x)) \<Longrightarrow>
        filter (\<lambda>(k, v). \<not> owed k v) (tbl_upsert k v u) = [(k, v)]" for k v and u :: updates
      by (induction k v u rule: tbl_upsert.induct) (auto simp: filter_empty_conv)
    ultimately show ?thesis using last(2) by (simp add: owed_def)
  qed
  then show "length (acked (folded b t)) = 1" by (simp add: acked_def tbl_select_def folded_def)
  show "length (folded b t) + length (acked t) = length t + 1"
    using upsert_new_length [OF last(2), of ?r] sum_length_filter_compl [of "\<lambda>(k, v). \<not> owed k v" t]
    by (simp add: folded_def acked_def tbl_delete_def tbl_select_def case_prod_unfold)
  show "readCursor (folded b t) = readCursor t"
  proof -
    have "maxSeq t \<noteq> None"
    proof -
      obtain x where "x \<in> set (acked t)" using assms(2) by (cases "acked t") auto
      then obtain q where "x \<in> set t" "authoritySeq (snd x) = Some q" by (auto simp: acked_def tbl_select_def owed_def)
      then have "{q. \<exists>x\<in>set t. authoritySeq (snd x) = Some q} \<noteq> {}" by blast
      then show ?thesis by (simp add: maxSeq_Max Let_def)
    qed
    then have "maxSeq t = Some (readCursor t)" by (auto simp: readCursor_def)
    moreover have "{q. \<exists>x\<in>set (folded b t). authoritySeq (snd x) = Some q} = {readCursor t}"
      using last(2) by (auto simp: folded_def upsert_new_set tbl_delete_def owed_def)
    then have "maxSeq (folded b t) = Some (readCursor t)" by (simp add: maxSeq_Max Let_def)
    ultimately show ?thesis by (simp add: readCursor_def)
  qed
qed

lemma folded_held:
  assumes "yjs_laws Y content ops" and "updates_ok t" and "acked t \<noteq> []" and "replay Y (readUpdates (acked t)) = Some d"
  shows "held_ops ops (folded (encodeStateAsUpdateV2 Y d) t) = held_ops ops t"
proof -
  have "ops (encodeStateAsUpdateV2 Y d) = (\<Union>x\<in>set (acked t). ops (rbytes (snd x)))"
    using replay_content [OF assms(1,4)] assms(1) by (force simp: yjs_laws_def readUpdates_def)
  moreover have "set t = set (acked t) \<union> set (tbl_delete (\<lambda>i r. \<not> owed i r) t)"
    by (auto simp: acked_def tbl_select_def tbl_delete_def)
  ultimately show ?thesis
    using acked_last(2) [OF assms(2,3)] by (auto simp: held_ops_def folded_def upsert_new_set)
qed

text \<open>The SQLite port, batch by batch.\<close>

lemma sqlite_commit_mirror:
  assumes "updates_ok t" and "\<forall>k\<in>fst ` set t. k \<le> m" and "ops_ok ops (readOutbox t, readCursor t) m"
    and "readCursor t \<le> c" and "sqlite_commit Y ops t = Some t'"
  shows "updates_ok t' \<and> (\<forall>k\<in>fst ` set t'. k \<le> fold op_id ops m)
    \<and> readOutbox t' = fst (succeeded ops (readOutbox t, c)) \<and> readCursor t' \<le> snd (succeeded ops (readOutbox t, c))
    \<and> (readCursor t = c \<and> acks_owed ops (readOutbox t, c) \<longrightarrow> readCursor t' = snd (succeeded ops (readOutbox t, c)))
    \<and> length (acked t') < SNAPSHOT_FOLD_THRESHOLD"
proof -
  from sqlite_ops_mirror [OF assms(1-4)] obtain u where
    u: "sqlite_ops ops t = Some u" "updates_ok u" "\<forall>k\<in>fst ` set u. k \<le> fold op_id ops m"
      "readOutbox u = fst (succeeded ops (readOutbox t, c)) \<and> readCursor u \<le> snd (succeeded ops (readOutbox t, c))
      \<and> (readCursor t = c \<and> acks_owed ops (readOutbox t, c) \<longrightarrow> readCursor u = snd (succeeded ops (readOutbox t, c)))" by blast
  then have "sqlite_fold Y u = Some t'" using assms(5) by (simp add: sqlite_commit_def)
  with u(2) show ?thesis
  proof (cases rule: sqlite_fold_cases)
    case short
    with u show ?thesis by simp
  next
    case (collapsed d)
    then have "acked u \<noteq> []" by auto
    note f = folded_facts [OF u(2) this, of "encodeStateAsUpdateV2 Y d", folded collapsed(3)]
    have "\<forall>k\<in>fst ` set t'. k \<le> fold op_id ops m" using f(4) u(3) by blast
    with f(1-3,5) u(4) show ?thesis by simp
  qed
qed

section \<open>The two ports agree\<close>

lemma table_ext:
  assumes "table_ok t" "table_ok u" "map_of t = map_of u"
  shows "t = u"
proof -
  have rebuild: "v = map (\<lambda>k. (k, the (map_of v k))) (map fst v)" if "table_ok v" for v :: "('a::linorder \<times> 'b) list"
  proof -
    have "distinct (map fst v)" using that by (simp add: table_ok_def strict_sorted_iff)
    then show ?thesis by (auto simp: comp_def intro!: map_idI [symmetric])
  qed
  have "set (map fst t) = set (map fst u)" using assms(3) dom_map_of_conv_image_fst [of t] dom_map_of_conv_image_fst [of u] by simp
  then have "map fst t = map fst u" using assms(1,2) by (intro strict_sorted_equal) (simp_all add: table_ok_def)
  with rebuild [OF assms(1)] rebuild [OF assms(2)] assms(3) show ?thesis by simp
qed

definition stamp :: "nat \<Rightarrow> (nat \<times> row) list \<Rightarrow> idb_work \<Rightarrow> idb_work" where
  "stamp seq ws w = fold (\<lambda>(key, r) w.
         if authoritySeq r \<noteq> None then w
         else w\<lparr>rows := tbl_upsert key (r\<lparr>authoritySeq := Some seq\<rparr>) (rows w), grew := True\<rparr>) ws w"

lemma stamp_Nil [simp]: "stamp seq [] w = w"
  by (simp add: stamp_def)

lemma stamp_skip: "authoritySeq r \<noteq> None \<Longrightarrow> stamp seq ((k, r) # ws) w = stamp seq ws w"
  and stamp_put: "authoritySeq r = None \<Longrightarrow> stamp seq ((k, r) # ws) w
    = stamp seq ws (w\<lparr>rows := tbl_upsert k (r\<lparr>authoritySeq := Some seq\<rparr>) (rows w), grew := True\<rparr>)"
  by (simp_all add: stamp_def)

lemma stamp_frame:
  "chain (stamp seq ws w) = chain w"
  "grew (stamp seq ws w) \<longleftrightarrow> grew w \<or> (\<exists>x\<in>set ws. authoritySeq (snd x) = None)"
  "table_ok (rows w) \<Longrightarrow> table_ok (rows (stamp seq ws w))"
proof (induction ws arbitrary: w)
  case (Cons x ws)
  obtain k r where x: "x = (k, r)" by fastforce
  { case 1 show ?case using Cons.IH(1) by (cases "authoritySeq r") (simp_all add: x stamp_skip stamp_put) }
  { case 2 show ?case using Cons.IH(2) by (cases "authoritySeq r") (simp_all add: x stamp_skip stamp_put) }
  { case 3 then show ?case using Cons.IH(3) by (cases "authoritySeq r") (simp_all add: x stamp_skip stamp_put tbl_upsert_ok) }
qed simp_all

lemma stamp_lookup:
  "distinct (map fst ws) \<Longrightarrow> map_of (rows (stamp seq ws w)) k = (case map_of ws k of
      Some r \<Rightarrow> if authoritySeq r = None then Some (r\<lparr>authoritySeq := Some seq\<rparr>) else map_of (rows w) k
    | None \<Rightarrow> map_of (rows w) k)"
proof (induction ws arbitrary: w)
  case (Cons x ws)
  obtain j r where x: "x = (j, r)" by fastforce
  have "k = j \<Longrightarrow> map_of ws k = None" using Cons.prems by (auto simp: x map_of_eq_None_iff)
  with Cons show ?case
    by (cases "authoritySeq r"; cases "k = j")
      (auto simp: x stamp_skip stamp_put tbl_upsert_lookup split: option.split)
qed simp

lemma stamp_acknowledge:
  assumes "updates_ok (rows w)"
  shows "rows (idb_op (AckOp q seq) w) = acknowledge q seq (rows w)" and "chain (idb_op (AckOp q seq) w) = chain w"
    and "grew (idb_op (AckOp q seq) w) \<longleftrightarrow> grew w \<or> (\<exists>x\<in>set (rows w). fst x \<le> q \<and> authoritySeq (snd x) = None)"
proof -
  let ?ws = "tbl_select (\<lambda>i r. i \<le> q) (rows w)"
  have st: "idb_op (AckOp q seq) w = stamp seq ?ws w" by (simp add: stamp_def)
  have ok: "table_ok (rows w)" and dist: "distinct (map fst (rows w))"
    using assms by (simp_all add: updates_ok_def table_ok_def strict_sorted_iff)
  have dw: "distinct (map fst ?ws)" using dist by (simp add: tbl_select_def distinct_map_filter)
  show "chain (idb_op (AckOp q seq) w) = chain w" unfolding st by (rule stamp_frame)
  show "grew (idb_op (AckOp q seq) w) \<longleftrightarrow> grew w \<or> (\<exists>x\<in>set (rows w). fst x \<le> q \<and> authoritySeq (snd x) = None)"
    unfolding st stamp_frame(2) by (force simp: tbl_select_def)
  have sel: "map_of (tbl_select (\<lambda>i r. i \<le> q) t) k = (if k \<le> q then map_of t k else None)" for k and t :: updates
    unfolding tbl_select_def by (induction t) auto
  have upd: "map_of (acknowledge q seq t) k
      = map_option (\<lambda>r. if k \<le> q \<and> owed k r then r\<lparr>authoritySeq := Some seq\<rparr> else r) (map_of t k)" for k t
    unfolding acknowledge_def tbl_update_def by (induction t) auto
  have "map_of (rows (stamp seq ?ws w)) = map_of (acknowledge q seq (rows w))"
    by (rule ext) (auto simp: stamp_lookup [OF dw] sel upd owed_def split: option.split)
  then show "rows (idb_op (AckOp q seq) w) = acknowledge q seq (rows w)"
    unfolding st using stamp_frame(3) [OF ok] ok by (intro table_ext) (simp_all add: acknowledge_def)
qed

text \<open>One operation, on both ports.\<close>

definition tallied :: "idb_work \<Rightarrow> bool" where
  "tallied w \<longleftrightarrow> chain w = int (length (rows w)) \<and> (\<not> grew w \<longrightarrow> length (acked (rows w)) < SNAPSHOT_FOLD_THRESHOLD)"

lemma length_delete_ids:
  assumes "updates_ok t" and "distinct ks" and "set ks \<subseteq> fst ` set t"
  shows "length (tbl_delete (\<lambda>j r. j \<in> set ks) t) + length ks = length t"
proof -
  have d: "distinct (map fst t)" using assms(1) by (simp add: updates_ok_def table_ok_def strict_sorted_iff)
  have "length (filter (\<lambda>x. fst x \<in> set ks) t) = card (fst ` set (filter (\<lambda>x. fst x \<in> set ks) t))"
    using d distinct_card [of "map fst (filter (\<lambda>x. fst x \<in> set ks) t)"] by (simp add: distinct_map_filter)
  also have "fst ` set (filter (\<lambda>x. fst x \<in> set ks) t) = set ks" using assms(3) by auto
  also have "card (set ks) = length ks" by (rule distinct_card [OF assms(2)])
  finally show ?thesis
    using sum_length_filter_compl [of "\<lambda>x. fst x \<in> set ks" t] by (simp add: tbl_delete_def case_prod_unfold)
qed

lemma idb_op_agrees:
  assumes "updates_ok (rows w)" and "\<forall>k\<in>fst ` set (rows w). k \<le> m" and "op_ok op (readOutbox (rows w)) m"
    and "tallied w"
  shows "sqlite_op op (rows w) = Some (rows (idb_op op w)) \<and> tallied (idb_op op w)"
proof (cases op)
  case (AppendOp i bs seq)
  then have i: "m < i" using assms(3) by simp
  have lt: "\<And>k. k \<in> fst ` set (rows w) \<Longrightarrow> k < i" using assms(2) i by fastforce
  have up: "tbl_upsert i r (rows w) = rows w @ [(i, r)]" for r by (rule tbl_upsert_above [of "rows w" i, OF lt])
  show ?thesis using insert_above(1) [OF assms(1) _ i] assms(2,4)
    by (simp add: AppendOp tallied_def up)
next
  case (AckOp q seq)
  have len: "length (acknowledge q seq t) = length t" for t by (simp add: acknowledge_def tbl_update_def)
  have same: "acked (acknowledge q seq t) = acked t" if "\<not> (\<exists>x\<in>set t. fst x \<le> q \<and> authoritySeq (snd x) = None)" for t
    using that by (induction t) (auto simp: acked_def acknowledge_def tbl_update_def tbl_select_def owed_def)
  show ?thesis using stamp_acknowledge [OF assms(1), of q seq] assms(4) same
    by (auto simp: AckOp tallied_def len simp del: idb_op.simps)
next
  case (MergeOwedOp ks i bs)
  let ?t = "tbl_delete (\<lambda>j r. j \<in> set ks) (rows w)" and ?r = "\<lparr>rbytes = bs, authoritySeq = None\<rparr>"
  have i: "m < i" and ks: "distinct ks" "set ks \<subseteq> outbox_ids (readOutbox (rows w))" using assms(3) MergeOwedOp by auto
  have ok: "updates_ok ?t" by (rule delete_updates_ok [OF assms(1)])
  have keys: "\<And>k. k \<in> fst ` set ?t \<Longrightarrow> k \<le> m" using assms(2) by (auto simp: tbl_delete_def)
  have lt: "\<And>k. k \<in> fst ` set ?t \<Longrightarrow> k < i" using keys i by fastforce
  have owed: "owed (fst x) (snd x)" if x: "x \<in> set (rows w)" "fst x \<in> set ks" for x
  proof -
    have "fst x \<in> outbox_ids (readOutbox (rows w))" using x(2) ks(2) by blast
    then obtain r where "(fst x, r) \<in> set (rows w)" "authoritySeq r = None" by (auto simp: readOutbox_ids)
    with x(1) updates_distinct [OF assms(1), of "fst x" "snd x" r] show ?thesis by (simp add: owed_def)
  qed
  have ack: "acked (?t @ [(i, ?r)]) = acked (rows w)"
    using owed by (auto simp: acked_def tbl_select_def tbl_delete_def owed_def [of i] intro!: filter_cong)
  have "length ?t + length ks = length (rows w)"
    using ks by (intro length_delete_ids [OF assms(1)]) (force simp: readOutbox_ids)+
  with ack show ?thesis
    using insert_above(1) [OF ok keys i] assms(4) tbl_upsert_above [of ?t i ?r, OF lt]
    by (simp add: MergeOwedOp tallied_def delete_all)
qed

lemma idb_ops_agree:
  assumes "updates_ok (rows w)" and "\<forall>k\<in>fst ` set (rows w). k \<le> m"
    and "ops_ok ops (readOutbox (rows w), readCursor (rows w)) m" and "tallied w"
  shows "sqlite_ops ops (rows w) = Some (rows (fold idb_op ops w)) \<and> tallied (fold idb_op ops w)"
  using assms
proof (induction ops arbitrary: w m)
  case (Cons op ops)
  have op: "op_ok op (readOutbox (rows w)) m" using Cons.prems(3) by simp
  note one = idb_op_agrees [OF Cons.prems(1,2) op Cons.prems(4)]
  let ?w = "idb_op op w" and ?c = "readCursor (rows w)"
  from sqlite_op_mirror [OF Cons.prems(1) _ op, of ?c] Cons.prems(2) one
  have ok: "updates_ok (rows ?w)" "\<forall>k\<in>fst ` set (rows ?w). k \<le> op_id op m"
    and ob: "readOutbox (rows ?w) = fst (succeeded_op op (readOutbox (rows w), ?c))" by auto
  obtain c' where "succeeded_op op (readOutbox (rows w), ?c) = (readOutbox (rows ?w), c')"
    using ob by (metis prod.collapse)
  then have "ops_ok ops (readOutbox (rows ?w), readCursor (rows ?w)) (op_id op m)"
    using Cons.prems(3) ops_ok_cursor [of ops "readOutbox (rows ?w)" c' "op_id op m"] by simp
  from Cons.IH [OF ok this] one show ?case by simp
qed simp

lemma idb_foldable_eq: "idb_foldable t = (readUpdates (acked t), map_option int (maxSeq t))"
proof (induction t rule: rev_induct)
  case Nil
  then show ?case by (simp add: idb_foldable_def readUpdates_def acked_def tbl_select_def maxSeq_def)
next
  case (snoc x t)
  obtain i r where x: "x = (i, r)" by fastforce
  have "idb_foldable (t @ [x]) = (\<lambda>(i, r) (fs, position).
     case authoritySeq r of
       None \<Rightarrow> (fs, position)
     | Some q \<Rightarrow> (fs @ [(i, rbytes r)],
                 if int q > (case position of None \<Rightarrow> -1 | Some p \<Rightarrow> p) then Some (int q) else position)) x (idb_foldable t)"
    unfolding idb_foldable_def by simp
  then show ?case unfolding snoc x
    by (auto simp: maxSeq_snoc readUpdates_def acked_def tbl_select_def owed_def max_def split: option.split)
qed

lemma idb_fold_agrees:
  assumes "updates_ok (rows w)" and "tallied w"
  shows "map_option (\<lambda>w'. (rows w', chain w')) (idb_fold Y w) = map_option (\<lambda>t'. (t', int (length t'))) (sqlite_fold Y (rows w))"
proof (cases "length (acked (rows w)) < SNAPSHOT_FOLD_THRESHOLD")
  case True
  with assms(2) show ?thesis
    by (simp add: idb_fold_def sqlite_fold_def foldableCount_def acked_def [symmetric] tallied_def idb_foldable_eq readUpdates_def)
next
  case False
  let ?t = "rows w" and ?f = "readUpdates (acked (rows w))"
  have ne: "acked ?t \<noteq> []" using False by auto
  have long: "length (acked ?t) \<le> length ?t" by (simp add: acked_def tbl_select_def)
  have last: "fst (last ?f) = fst (last (acked ?t))" using ne by (cases "last (acked ?t)") (simp add: readUpdates_def last_map)
  have pos: "(case map_option int (maxSeq ?t) of None \<Rightarrow> NO_AUTHORITY | Some p \<Rightarrow> nat p) = readCursor ?t"
    by (simp add: readCursor_def split: option.split)
  have "fold (\<lambda>(i, b). tbl_delete (\<lambda>j r. j = i)) fs u = tbl_delete (\<lambda>j r. j \<in> fst ` set fs) u" for fs :: "(nat \<times> bytes) list" and u :: updates
    using delete_all [of "map fst fs" u] by (simp add: fold_map comp_def case_prod_unfold)
  moreover have "tbl_delete (\<lambda>j r. j \<in> fst ` set ?f) ?t = tbl_delete (\<lambda>i r. \<not> owed i r) ?t"
  proof -
    have ids: "fst ` set ?f = {i. \<exists>r. (i, r) \<in> set ?t \<and> \<not> owed i r}"
      by (force simp: readUpdates_def acked_def tbl_select_def)
    have "fst x \<in> fst ` set ?f \<longleftrightarrow> \<not> owed (fst x) (snd x)" if x: "x \<in> set ?t" for x
    proof -
      have "(fst x, snd x) \<in> set ?t" using x by simp
      then show ?thesis unfolding ids using updates_distinct [OF assms(1)] by blast
    qed
    then show ?thesis unfolding tbl_delete_def by (intro filter_cong) (auto simp: case_prod_unfold)
  qed
  ultimately have del: "fold (\<lambda>(i, b). tbl_delete (\<lambda>j r. j = i)) ?f ?t = tbl_delete (\<lambda>i r. \<not> owed i r) ?t" by simp
  have idb: "idb_fold Y w = (case replay Y ?f of None \<Rightarrow> None
      | Some d \<Rightarrow> Some (w\<lparr>rows := folded (encodeStateAsUpdateV2 Y d) ?t, chain := chain w - int (length (acked ?t)) + 1\<rparr>))"
  proof -
    have "length ?f = length (acked ?t)" by (simp add: readUpdates_def)
    moreover have "grew w" "int SNAPSHOT_FOLD_THRESHOLD \<le> chain w" using False assms(2) long by (auto simp: tallied_def)
    ultimately show ?thesis using False
      unfolding idb_fold_def idb_foldable_eq Let_def prod.case pos del last folded_def by (simp cong: option.case_cong)
  qed
  have "sqlite_fold Y ?t = map_option (\<lambda>d. folded (encodeStateAsUpdateV2 Y d) ?t) (replay Y ?f)"
    using False acked_last [OF assms(1) ne] last
    by (simp add: sqlite_fold_def foldableCount_def acked_def [symmetric] readCursor_def [symmetric] ne insert_update_def tbl_insert_def
        folded_def readUpdates_def split: option.split)
  moreover have "int (length ?t) - int (length (acked ?t)) + 1 = int (length (folded b ?t))" for b
    using folded_facts(6) [OF assms(1) ne, of b] by linarith
  ultimately show ?thesis using idb assms(2) by (simp add: tallied_def split: option.split)
qed

lemma idb_commit_agrees:
  assumes "updates_ok t" and "\<forall>k\<in>fst ` set t. k \<le> m" and "ops_ok ops (readOutbox t, readCursor t) m"
    and "length (acked t) < SNAPSHOT_FOLD_THRESHOLD"
  shows "idb_commit Y ops (t, int (length t)) = map_option (\<lambda>t'. (t', int (length t'))) (sqlite_commit Y ops t)"
proof -
  let ?w = "\<lparr>rows = t, chain = int (length t), grew = False\<rparr>"
  have "tallied ?w" using assms(4) by (simp add: tallied_def)
  with idb_ops_agree [of ?w m ops] assms(1-3)
  have ops: "sqlite_ops ops t = Some (rows (fold idb_op ops ?w))" "tallied (fold idb_op ops ?w)" by simp_all
  then have "updates_ok (rows (fold idb_op ops ?w))" using sqlite_ops_mirror [OF assms(1-3) le_refl] by auto
  from idb_fold_agrees [OF this ops(2), of Y] show ?thesis
    by (simp add: idb_commit_def sqlite_commit_def ops(1) map_option_case)
qed

section \<open>Properties\<close>

text \<open>A concrete Yjs for the witnesses: a document is the bytes applied to it.\<close>

definition byte_doc :: "bytes yjs" where
  "byte_doc = \<lparr>new_doc = [], applyUpdateV2 = (\<lambda>d u. Some (d @ u)), encodeStateAsUpdateV2 = (\<lambda>d. d),
     mergeUpdatesV2 = concat\<rparr>"

lemma byte_doc_laws: "yjs_laws byte_doc set set"
  by (simp add: yjs_laws_def byte_doc_def)

definition sample_rows :: updates where
  "sample_rows = [(1, \<lparr>rbytes = [7], authoritySeq = Some 4\<rparr>), (2, \<lparr>rbytes = [8], authoritySeq = None\<rparr>)]"

definition sample_batch :: "durable_op list" where
  "sample_batch = [AppendOp 3 [9] None, MergeOwedOp [2, 3] 4 [8, 9], AckOp 4 5]"

lemma sample_facts:
  "updates_ok sample_rows" "\<forall>k\<in>fst ` set sample_rows. k \<le> 2" "length (acked sample_rows) < SNAPSHOT_FOLD_THRESHOLD"
  "ops_ok sample_batch (readOutbox sample_rows, readCursor sample_rows) 2"
  "acks_owed sample_batch (readOutbox sample_rows, readCursor sample_rows)"
  by (auto simp: sample_rows_def sample_batch_def updates_ok_def table_ok_def acked_def tbl_select_def owed_def
      readOutbox_def outbox_ids_def)

definition after_sample :: updates where
  "after_sample = [(1, \<lparr>rbytes = [7], authoritySeq = Some 4\<rparr>), (4, \<lparr>rbytes = [8, 9], authoritySeq = Some 5\<rparr>)]"

lemma sample_commit: "sqlite_commit Y sample_batch sample_rows = Some after_sample"
  by (simp add: sample_rows_def sample_batch_def after_sample_def sqlite_commit_def sqlite_fold_def foldableCount_def
      insert_update_def tbl_insert_def acknowledge_def tbl_update_def tbl_delete_def tbl_select_def owed_def)

text \<open>
  Claim C34 (mirror_is_the_table). The controller advances its outbox and its cursor over a
  confirmed batch without reading storage. For every batch it can make, when the SQLite port
  commits the batch, the table's own outbox is exactly what that mirror computes; the table's
  cursor never runs ahead of the mirrored one and is equal to it when no acknowledgement of the
  batch names an entry that a merge has replaced. Ids stay below the last one handed out, and
  fewer than the threshold of acknowledged rows remain.
\<close>

theorem mirror_is_the_table:
  assumes "updates_ok t" and "\<forall>k\<in>fst ` set t. k \<le> m" and "ops_ok ops (readOutbox t, readCursor t) m"
    and "sqlite_commit Y ops t = Some t'"
  shows "updates_ok t' \<and> (\<forall>k\<in>fst ` set t'. k \<le> fold op_id ops m)
    \<and> readOutbox t' = fst (succeeded ops (readOutbox t, readCursor t))
    \<and> readCursor t' \<le> snd (succeeded ops (readOutbox t, readCursor t))
    \<and> (acks_owed ops (readOutbox t, readCursor t) \<longrightarrow> readCursor t' = snd (succeeded ops (readOutbox t, readCursor t)))
    \<and> foldableCount t' < SNAPSHOT_FOLD_THRESHOLD"
  using sqlite_commit_mirror [OF assms(1-3) le_refl assms(4)] by (simp add: foldableCount_def acked_def)

theorem mirror_is_the_table_witness:
  "sqlite_commit byte_doc sample_batch sample_rows = Some after_sample
   \<and> readOutbox after_sample = [] \<and> readCursor after_sample = 5"
  using mirror_is_the_table [OF sample_facts(1,2,4) sample_commit [of byte_doc]] sample_commit [of byte_doc] sample_facts(5)
  by (simp add: succeeded_def sample_batch_def sample_rows_def readOutbox_def tbl_select_def owed_def readCursor_def maxSeq_def)

text \<open>
  Folding replaces the acknowledged rows by one encoded
  baseline. It keeps the operations the table holds, the outbox and the cursor, and it leaves
  the owed rows as they are.
\<close>

theorem fold_keeps_the_document:
  assumes "yjs_laws Y content ops" and "updates_ok t" and "sqlite_fold Y t = Some t'"
  shows "held_ops ops t' = held_ops ops t \<and> readOutbox t' = readOutbox t \<and> readCursor t' = readCursor t
    \<and> updates_ok t' \<and> foldableCount t' < SNAPSHOT_FOLD_THRESHOLD"
  using assms(2,3)
proof (cases rule: sqlite_fold_cases)
  case short
  then show ?thesis using assms(2) by (simp add: foldableCount_def acked_def)
next
  case (collapsed d)
  then have ne: "acked t \<noteq> []" by auto
  show ?thesis unfolding collapsed(3)
    using folded_facts [OF assms(2) ne, of "encodeStateAsUpdateV2 Y d"] folded_held [OF assms(1,2) ne collapsed(2)]
    by (simp add: foldableCount_def acked_def)
qed

definition long_chain :: updates where
  "long_chain = map (\<lambda>i. (i, \<lparr>rbytes = [word_of_nat i], authoritySeq = Some i\<rparr>)) [1..<65]"

lemma long_chain_facts: "updates_ok long_chain" "acked long_chain = long_chain" "length long_chain = 64"
  by (auto simp: long_chain_def updates_ok_def table_ok_def sorted_wrt_map acked_def tbl_select_def owed_def comp_def
      simp del: upt_Suc intro!: filter_True)

lemma long_chain_folds: "\<exists>t'. sqlite_fold byte_doc long_chain = Some t'"
proof -
  have "acked long_chain \<noteq> []" using long_chain_facts by auto
  note last = acked_last [OF long_chain_facts(1) this]
  have rep: "\<exists>d. replay byte_doc us = Some d" for us
  proof -
    have "\<exists>d. replay_on byte_doc e bs = Some d" for e bs by (induction bs arbitrary: e) (simp_all add: byte_doc_def)
    then show ?thesis by (simp add: replay_def)
  qed
  then obtain d where "replay byte_doc (readUpdates (acked long_chain)) = Some d" by blast
  moreover have "fst (last (readUpdates (acked long_chain))) = fst (last (acked long_chain))"
    using long_chain_facts(2) \<open>acked long_chain \<noteq> []\<close> by (cases "last (acked long_chain)") (simp add: readUpdates_def last_map)
  ultimately show ?thesis using last long_chain_facts \<open>acked long_chain \<noteq> []\<close>
    by (simp add: sqlite_fold_def foldableCount_def acked_def [symmetric] Let_def readUpdates_def insert_update_def tbl_insert_def)
qed

theorem fold_keeps_the_document_witness:
  "\<exists>t'. sqlite_fold byte_doc long_chain = Some t' \<and> held_ops set t' = held_ops set long_chain \<and> foldableCount t' < 64"
proof -
  obtain t' where t: "sqlite_fold byte_doc long_chain = Some t'" using long_chain_folds by blast
  show ?thesis using fold_keeps_the_document [OF byte_doc_laws long_chain_facts(1) t] t by auto
qed

text \<open>
  Claim C33 (ports_agree). The IndexedDB port, which keeps its own count of rows and folds only
  when that count and the batch say it might be time, commits every batch the controller makes
  to exactly the rows the SQLite port commits it to, fails when that port fails, and its
  count stays the number of rows.
\<close>

theorem ports_agree:
  assumes "updates_ok t" and "\<forall>k\<in>fst ` set t. k \<le> m" and "ops_ok ops (readOutbox t, readCursor t) m"
    and "foldableCount t < SNAPSHOT_FOLD_THRESHOLD"
  shows "idb_commit Y ops (idb_open t) = map_option (\<lambda>t'. (t', int (length t'))) (sqlite_commit Y ops t)"
proof -
  have "idb_open t = (t, int (length t))"
    by (simp add: idb_open_def readIdbUpdates_eq loadDurableSnapshot_def readUpdates_def)
  then show ?thesis
    using idb_commit_agrees [OF assms(1-3)] assms(4) by (simp add: foldableCount_def acked_def)
qed

theorem ports_agree_witness:
  "idb_commit byte_doc sample_batch (idb_open sample_rows) = Some (after_sample, 2)"
proof -
  have "foldableCount sample_rows < SNAPSHOT_FOLD_THRESHOLD" using sample_facts(3) by (simp add: foldableCount_def acked_def)
  from ports_agree [OF sample_facts(1,2,4) this, of byte_doc] show ?thesis
    unfolding sample_commit by (simp add: after_sample_def)
qed

text \<open>
  From the same rows both ports load the same snapshot: the
  IndexedDB port's single pass gives the updates in id order, the outbox, the cursor and the
  last id that the SQLite port's four queries give.
\<close>

theorem ports_load_alike: "readIdbUpdates t = loadDurableSnapshot t"
  by (rule readIdbUpdates_eq)

end
