(* ===== verification/Authority.thy ===== *)
theory Authority
  imports Frames Sql_Table
begin

text \<open>
  The authority, \<^verbatim>\<open>packages/app/src/data/sync/authority.ts\<close>: an append-only log of opaque
  updates and the snapshots that replace its prefix, in SQLite, with every verb in one
  transaction behind an admission check, and the generation switch above it. A transaction
  either commits what its body computed or, when the body or the engine throws, leaves the
  tables as they were; \<open>faults\<close> is the engine's part, one entry per transaction.
\<close>

section \<open>Storage\<close>

record receipt =
  expected_generation :: nat
  expected_head :: nat
  digest :: jsstring
  rgeneration :: nat
  rhead :: nat

record db =
  log_table :: "(nat \<times> nat, bytes) table"       \<comment> \<open>\<open>_log\<close>: (seq, chunk) to bytes\<close>
  snapshot_table :: "(nat \<times> nat, bytes) table"  \<comment> \<open>\<open>_snapshot\<close>: (position, chunk) to bytes\<close>
  current_generation :: "nat option"           \<comment> \<open>\<open>_current_generation\<close>: its single row\<close>
  restore_receipts :: "(jsstring \<times> receipt) list"  \<comment> \<open>\<open>_restore_receipts\<close> by operation\<close>

definition empty_db :: db where
  "empty_db = \<lparr>log_table = [], snapshot_table = [], current_generation = None, restore_receipts = []\<rparr>"

record sqlite =
  tables :: db
  faults :: "bool list"

datatype thrown =
    SqliteFailed
  | NoCurrentGeneration
  | NoBaseline
  | LogGap
  | NotEmptyStorage
  | NotPositiveSafeInteger
  | EmptyState
  | NoOperationId

definition transaction :: "sqlite \<Rightarrow> (db \<Rightarrow> (thrown, 'a \<times> db) result) \<Rightarrow> sqlite \<times> (thrown, 'a) result" where
  "transaction s body =
     (let s' = s\<lparr>faults := tl (faults s)\<rparr> in
      if faults s \<noteq> [] \<and> hd (faults s) then (s', Inl SqliteFailed)
      else case body (tables s) of
             Inl e \<Rightarrow> (s', Inl e)
           | Inr (a, d) \<Rightarrow> (s'\<lparr>tables := d\<rparr>, Inr a))"

section \<open>Log operations\<close>

abbreviation (input) SNAPSHOTS_KEPT :: nat where "SNAPSHOTS_KEPT \<equiv> 2"

definition SNAPSHOT_FLOOR_BYTES :: nat where
  "SNAPSHOT_FLOOR_BYTES = 64 * 1024"

text \<open>\<^verbatim>\<open>SELECT COALESCE(MAX(seq), 0)\<close> of a table keyed by (seq, chunk).\<close>

definition max_position :: "(nat \<times> nat, bytes) table \<Rightarrow> nat" where
  "max_position t = fold (\<lambda>((s, i), b) m. max s m) t 0"

definition snapshotPosition :: "db \<Rightarrow> nat" where
  "snapshotPosition d = max_position (snapshot_table d)"

definition head :: "db \<Rightarrow> nat" where
  "head d = max (snapshotPosition d) (max_position (log_table d))"

text \<open>The rows of one update: a chunk each, numbered from zero.\<close>

definition chunk_rows :: "nat \<times> bytes \<Rightarrow> ((nat \<times> nat) \<times> bytes) list" where
  "chunk_rows e = map (\<lambda>(i, c). ((fst e, i), c)) (enumerate 0 (chunks_of (snd e)))"

definition writeSnapshot :: "nat \<Rightarrow> bytes \<Rightarrow> db \<Rightarrow> db" where
  "writeSnapshot position bs d =
     d\<lparr>snapshot_table := upsert_run tbl_upsert (chunk_rows (position, bs)) (snapshot_table d)\<rparr>"

definition sumBytes :: "(nat \<times> nat, bytes) table \<Rightarrow> nat" where
  "sumBytes t = (\<Sum>(k, b)\<leftarrow>t. length b)"

definition log_append :: "bytes \<Rightarrow> db \<Rightarrow> (thrown, nat \<times> db) result" where
  "log_append update d =
     (let seq = head d + 1 in
      case insert_run tbl_insert (chunk_rows (seq, update)) (log_table d) of
        None \<Rightarrow> Inl SqliteFailed
      | Some t \<Rightarrow> Inr (seq, d\<lparr>log_table := t\<rparr>))"

text \<open>The loop of \<open>since\<close>: \<open>holding\<close> is the entry whose chunks are being gathered.\<close>

fun group_rows :: "(nat \<times> bytes list) option \<Rightarrow> ((nat \<times> nat) \<times> bytes) list \<Rightarrow> (nat \<times> bytes) list" where
  "group_rows None [] = []"
| "group_rows (Some (s, cs)) [] = [(s, reassemble cs)]"
| "group_rows None (((s, i), b) # rows) = group_rows (Some (s, [b])) rows"
| "group_rows (Some (s', cs)) (((s, i), b) # rows) =
     (if s' \<noteq> s then (s', reassemble cs) # group_rows (Some (s, [b])) rows
      else group_rows (Some (s', cs @ [b])) rows)"

definition log_since :: "nat \<Rightarrow> nat \<Rightarrow> db \<Rightarrow> (nat \<times> bytes) list" where
  "log_since cursor limit d =
     (let seqs = take limit (remdups_adj (map (fst \<circ> fst)
                   (tbl_select (\<lambda>(s, i) b. s > cursor) (log_table d)))) in
      if seqs = [] then []
      else group_rows None
             (tbl_select (\<lambda>(s, i) b. s > cursor \<and> s \<le> last seqs) (log_table d)))"

definition log_snapshot :: "db \<Rightarrow> (nat \<times> bytes) option" where
  "log_snapshot d =
     (let position = snapshotPosition d in
      if position = 0 then None
      else Some (position,
        reassemble (map snd (tbl_select (\<lambda>(p, i) b. p = position) (snapshot_table d)))))"

definition log_fold :: "nat \<Rightarrow> bytes \<Rightarrow> db \<Rightarrow> db" where
  "log_fold position bs d =
     (let d1 = writeSnapshot position bs d;
          d2 = d1\<lparr>log_table := tbl_delete (\<lambda>(s, i) b. s \<le> position) (log_table d1)\<rparr>;
          kept = take SNAPSHOTS_KEPT (rev (remdups_adj (map (fst \<circ> fst) (snapshot_table d2)))) in
      if kept = [] then d2
      else d2\<lparr>snapshot_table := tbl_delete (\<lambda>(p, i) b. p < last kept) (snapshot_table d2)\<rparr>)"

definition log_replace :: "bytes \<Rightarrow> db \<Rightarrow> db" where
  "log_replace bs d = writeSnapshot 1 bs (d\<lparr>log_table := [], snapshot_table := []\<rparr>)"

definition log_shouldSnapshot :: "nat \<Rightarrow> db \<Rightarrow> bool" where
  "log_shouldSnapshot snapshotFloorBytes d =
     (let tail = sumBytes (log_table d) in
      tail \<ge> snapshotFloorBytes \<and> tail > sumBytes (snapshot_table d))"

definition log_storedBytes :: "db \<Rightarrow> nat" where
  "log_storedBytes d = sumBytes (log_table d) + sumBytes (snapshot_table d)"

section \<open>The bound authority\<close>

datatype authority_error =
    GenerationUnavailable nat "nat option"  \<comment> \<open>generation, current\<close>
  | StorageFailed
  | SnapshotRefused nat nat nat             \<comment> \<open>offered, head, current\<close>

fun error_message :: "authority_error \<Rightarrow> jsstring" where
  "error_message (GenerationUnavailable g c) =
     js ''Generation '' @ show_nat g @ js '' is not current (''
       @ (case c of None \<Rightarrow> js ''absent'' | Some n \<Rightarrow> show_nat n) @ js '')''"
| "error_message StorageFailed = js ''The authority could not commit to durable storage''"
| "error_message (SnapshotRefused offered hp current) =
     js ''A snapshot at '' @ show_nat offered @ js '' is not usable: the log ends at ''
       @ show_nat hp @ js '' and the snapshot already covers '' @ show_nat current"

text \<open>
  What a \<^verbatim>\<open>SyncAuthority\<close> is bound to: the generation it was made for (\<^const>\<open>None\<close> for
  \<^verbatim>\<open>openSyncAuthority\<close>, which admits everything) and the snapshot floor.
\<close>

record binding =
  bound_to :: "nat option"
  snapshotFloorBytes :: nat

definition admission_check :: "binding \<Rightarrow> db \<Rightarrow> (authority_error, unit) result" where
  "admission_check a d =
     (case bound_to a of
        None \<Rightarrow> Inr ()
      | Some g \<Rightarrow> if current_generation d = Some g then Inr ()
                  else Inl (GenerationUnavailable g (current_generation d)))"

definition run ::
    "binding \<Rightarrow> sqlite \<Rightarrow> (db \<Rightarrow> (thrown, (authority_error, 'a) result \<times> db) result) \<Rightarrow>
     sqlite \<times> (authority_error, 'a) result" where
  "run a s operation =
     (case transaction s (\<lambda>d. case admission_check a d of
                                Inl e \<Rightarrow> Inr (Inl e, d)
                              | Inr _ \<Rightarrow> operation d) of
        (s', Inl _) \<Rightarrow> (s', Inl StorageFailed)
      | (s', Inr r) \<Rightarrow> (s', r))"

text \<open>A verb that only reads.\<close>

abbreviation reading :: "(db \<Rightarrow> 'a) \<Rightarrow> db \<Rightarrow> (thrown, (authority_error, 'a) result \<times> db) result" where
  "reading f \<equiv> \<lambda>d. Inr (Inr (f d), d)"

definition a_admission :: "binding \<Rightarrow> sqlite \<Rightarrow> sqlite \<times> (authority_error, unit) result" where
  "a_admission a s = run a s (reading (\<lambda>_. ()))"

definition a_append :: "binding \<Rightarrow> bytes \<Rightarrow> sqlite \<Rightarrow> sqlite \<times> (authority_error, nat) result" where
  "a_append a bs s = run a s (\<lambda>d. case log_append bs d of
     Inl e \<Rightarrow> Inl e | Inr (seq, d') \<Rightarrow> Inr (Inr seq, d'))"

definition a_since ::
    "binding \<Rightarrow> nat \<Rightarrow> nat \<Rightarrow> sqlite \<Rightarrow> sqlite \<times> (authority_error, (nat \<times> bytes) list) result" where
  "a_since a cursor limit s = run a s (reading (log_since cursor limit))"

definition a_head :: "binding \<Rightarrow> sqlite \<Rightarrow> sqlite \<times> (authority_error, nat) result" where
  "a_head a s = run a s (reading head)"

definition a_snapshot ::
    "binding \<Rightarrow> sqlite \<Rightarrow> sqlite \<times> (authority_error, (nat \<times> bytes) option) result" where
  "a_snapshot a s = run a s (reading log_snapshot)"

definition a_snapshotPosition :: "binding \<Rightarrow> sqlite \<Rightarrow> sqlite \<times> (authority_error, nat) result" where
  "a_snapshotPosition a s = run a s (reading snapshotPosition)"

definition a_shouldSnapshot :: "binding \<Rightarrow> sqlite \<Rightarrow> sqlite \<times> (authority_error, bool) result" where
  "a_shouldSnapshot a s = run a s (reading (log_shouldSnapshot (snapshotFloorBytes a)))"

definition a_storedBytes :: "binding \<Rightarrow> sqlite \<Rightarrow> sqlite \<times> (authority_error, nat) result" where
  "a_storedBytes a s = run a s (reading log_storedBytes)"

definition a_seed :: "binding \<Rightarrow> bytes \<Rightarrow> sqlite \<Rightarrow> sqlite \<times> (authority_error, nat) result" where
  "a_seed a bs s = run a s (\<lambda>d.
     if head d \<noteq> 0 then Inr (Inl (SnapshotRefused 1 (head d) (head d)), d)
     else Inr (Inr 1, writeSnapshot 1 bs d))"

definition a_replaceSnapshot ::
    "binding \<Rightarrow> nat \<Rightarrow> bytes \<Rightarrow> sqlite \<Rightarrow> sqlite \<times> (authority_error, unit) result" where
  "a_replaceSnapshot a position bs s = run a s (\<lambda>d.
     if position > head d \<or> position \<le> snapshotPosition d
     then Inr (Inl (SnapshotRefused position (head d) (snapshotPosition d)), d)
     else Inr (Inr (), log_fold position bs d))"

definition openSyncAuthority :: "nat \<Rightarrow> binding" where
  "openSyncAuthority floorBytes = \<lparr>bound_to = None, snapshotFloorBytes = floorBytes\<rparr>"

section \<open>The current generation\<close>

definition MAX_SAFE_INTEGER :: nat where
  "MAX_SAFE_INTEGER = 9007199254740991"

definition positiveInteger :: "nat \<Rightarrow> bool" where
  "positiveInteger n \<longleftrightarrow> 1 \<le> n \<and> n \<le> MAX_SAFE_INTEGER"

record capture =
  cgeneration :: nat
  chead :: nat
  csnapshot :: "nat \<times> bytes"
  ctail :: "(nat \<times> bytes) list"

text \<open>Every entry \<open>since\<close> returns lies above the cursor, so the loop of \<open>capture\<close> ends.\<close>

lemma group_rows_positions:
  "e \<in> set (group_rows h rows) \<Longrightarrow>
   fst e \<in> (fst \<circ> fst) ` set rows \<union> (case h of None \<Rightarrow> {} | Some (s, cs) \<Rightarrow> {s})"
  by (induction h rows rule: group_rows.induct) (auto split: if_splits)

lemma log_since_above: "e \<in> set (log_since cursor limit d) \<Longrightarrow> cursor < fst e"
  by (auto simp: log_since_def Let_def tbl_select_def dest!: group_rows_positions split: if_splits)

function capture_tail :: "db \<Rightarrow> nat \<Rightarrow> nat \<Rightarrow> (thrown, (nat \<times> bytes) list) result" where
  "capture_tail d hp cursor =
     (if cursor < hp then
        (let entries = log_since cursor 64 d in
         if entries = [] then Inl LogGap
         else case capture_tail d hp (fst (last entries)) of
                Inl e \<Rightarrow> Inl e
              | Inr tail \<Rightarrow> Inr (entries @ tail))
      else Inr [])"
  by pat_completeness auto
termination
  by (relation "measure (\<lambda>(d, h, c). h - c)")
    (auto dest!: log_since_above [OF last_in_set])

declare capture_tail.simps [simp del]

definition capture_current :: "db \<Rightarrow> (thrown, capture) result" where
  "capture_current d =
     (case current_generation d of
        None \<Rightarrow> Inl NoCurrentGeneration
      | Some g \<Rightarrow>
          (case log_snapshot d of
             None \<Rightarrow> Inl NoBaseline
           | Some (position, bs) \<Rightarrow>
               (case capture_tail d (head d) position of
                  Inl e \<Rightarrow> Inl e
                | Inr tail \<Rightarrow>
                    Inr \<lparr>cgeneration = g, chead = head d, csnapshot = (position, bs), ctail = tail\<rparr>)))"

definition capturing :: "db \<Rightarrow> (thrown, capture \<times> db) result" where
  "capturing d = (case capture_current d of Inl e \<Rightarrow> Inl e | Inr c \<Rightarrow> Inr (c, d))"

definition captureCurrent :: "sqlite \<Rightarrow> sqlite \<times> (thrown, capture) result" where
  "captureCurrent s = transaction s capturing"

definition ensureCurrent :: "bytes \<Rightarrow> sqlite \<Rightarrow> sqlite \<times> (thrown, capture) result" where
  "ensureCurrent bs s =
     (if bs = [] then (s, Inl EmptyState)
      else transaction s (\<lambda>d.
        case current_generation d of
          Some _ \<Rightarrow> capturing d
        | None \<Rightarrow>
            if head d \<noteq> 0 then Inl NotEmptyStorage
            else capturing ((writeSnapshot 1 bs d)\<lparr>current_generation := Some 1\<rparr>)))"

definition bind_generation :: "nat \<Rightarrow> nat \<Rightarrow> (thrown, binding) result" where
  "bind_generation floorBytes generation =
     (if positiveInteger generation
      then Inr \<lparr>bound_to = Some generation, snapshotFloorBytes = floorBytes\<rparr>
      else Inl NotPositiveSafeInteger)"

record activation =
  operation :: jsstring
  expected :: "nat \<times> nat"   \<comment> \<open>generation, head\<close>
  state :: bytes
  state_digest :: jsstring

definition hex_digit :: "nat \<Rightarrow> nat" where
  "hex_digit n = (if n < 10 then 48 + n else 87 + n)"

definition hex :: "bytes \<Rightarrow> jsstring" where
  "hex bs = concat (map (\<lambda>b. [hex_digit (unat b div 16), hex_digit (unat b mod 16)]) bs)"

text \<open>\<open>sha256\<close> stands for the platform's \<^verbatim>\<open>crypto.subtle.digest('SHA-256', ...)\<close>.\<close>

definition prepareActivation ::
    "(bytes \<Rightarrow> bytes) \<Rightarrow> jsstring \<Rightarrow> nat \<times> nat \<Rightarrow> bytes \<Rightarrow> (thrown, activation) result" where
  "prepareActivation sha256 op ex bs =
     (if \<not> positiveInteger (fst ex) then Inl NotPositiveSafeInteger
      else if \<not> positiveInteger (snd ex) then Inl NotPositiveSafeInteger
      else if bs = [] then Inl EmptyState
      else if op = [] then Inl NoOperationId
      else Inr \<lparr>operation = op, expected = ex, state = bs, state_digest = hex (sha256 bs)\<rparr>)"

datatype activation_result =
    OperationConflict
  | Conflict
  | Activated jsstring nat nat  \<comment> \<open>operation, generation, head\<close>

text \<open>The transaction of \<open>activate\<close>; the flag says whether it switched the generation.\<close>

definition activating :: "activation \<Rightarrow> db \<Rightarrow> (thrown, (activation_result \<times> bool) \<times> db) result" where
  "activating p d =
     (case map_of (restore_receipts d) (operation p) of
        Some r \<Rightarrow>
          if expected_generation r \<noteq> fst (expected p) \<or> expected_head r \<noteq> snd (expected p)
             \<or> digest r \<noteq> state_digest p
          then Inr ((OperationConflict, False), d)
          else Inr ((Activated (operation p) (rgeneration r) (rhead r), False), d)
      | None \<Rightarrow>
          if current_generation d \<noteq> Some (fst (expected p)) \<or> head d \<noteq> snd (expected p)
          then Inr ((Conflict, False), d)
          else
            let generation = fst (expected p) + 1 in
            if \<not> positiveInteger generation then Inl NotPositiveSafeInteger
            else
              let d1 = log_replace (state p) d;
                  d2 = d1\<lparr>current_generation := Some generation\<rparr>;
                  d3 = d2\<lparr>restore_receipts := (operation p,
                         \<lparr>expected_generation = fst (expected p), expected_head = snd (expected p),
                          digest = state_digest p, rgeneration = generation, rhead = 1\<rparr>)
                         # restore_receipts d2\<rparr>
              in Inr ((Activated (operation p) generation 1, True), d3))"

definition activate :: "activation \<Rightarrow> sqlite \<Rightarrow> sqlite \<times> (thrown, activation_result \<times> bool) result" where
  "activate p s = transaction s (activating p)"

section \<open>A table of chunked updates\<close>

text \<open>The table holds exactly the chunks of the updates \<open>es\<close>, which have ascending positions.\<close>

definition holds :: "(nat \<times> nat, bytes) table \<Rightarrow> (nat \<times> bytes) list \<Rightarrow> bool" where
  "holds t es \<longleftrightarrow> t = concat (map chunk_rows es) \<and> sorted_wrt (<) (map fst es)"

lemma enumerate_snd: "map snd (enumerate n xs) = xs"
  by simp

lemma chunk_rows_nonempty [simp]: "chunk_rows e \<noteq> []"
  using chunks_of_props(2) [of "snd e"] by (simp add: chunk_rows_def enumerate_eq_zip)

lemma chunk_rows_position: "x \<in> set (chunk_rows e) \<Longrightarrow> fst (fst x) = fst e"
  by (auto simp: chunk_rows_def)

lemma chunk_rows_positions: "map (fst \<circ> fst) (chunk_rows e) = replicate (length (chunk_rows e)) (fst e)"
  by (intro replicate_eqI) (auto dest: chunk_rows_position)

lemma chunk_rows_bytes: "map snd (chunk_rows e) = chunks_of (snd e)"
  by (simp add: chunk_rows_def case_prod_unfold comp_def)

lemma chunk_rows_sorted: "sorted_wrt (<) (map fst (chunk_rows e))"
  by (auto simp: chunk_rows_def sorted_wrt_map sorted_wrt_iff_nth_less nth_enumerate_eq less_prod_def)

lemma holds_empty [simp]: "holds [] []"
  by (simp add: holds_def)

lemma holds_Cons_sorted: "sorted_wrt (<) (map fst (e # es)) \<Longrightarrow> e' \<in> set es \<Longrightarrow> fst e < fst e'"
  by auto

lemma holds_table_ok: "holds t es \<Longrightarrow> table_ok t"
proof (induction es arbitrary: t)
  case Nil
  then show ?case by (simp add: holds_def table_ok_def)
next
  case (Cons e es)
  then have t: "t = chunk_rows e @ concat (map chunk_rows es)"
    and lt: "\<And>e'. e' \<in> set es \<Longrightarrow> fst e < fst e'" by (auto simp: holds_def)
  have "table_ok (concat (map chunk_rows es))"
    using Cons by (intro Cons.IH) (auto simp: holds_def)
  moreover have "x < y" if "x \<in> fst ` set (chunk_rows e)" "y \<in> fst ` set (concat (map chunk_rows es))" for x y
    using that lt by (force simp: less_prod_def dest: chunk_rows_position)
  ultimately show ?case
    using chunk_rows_sorted [of e] by (auto simp: t table_ok_def sorted_wrt_append)
qed

lemma chunk_rows_image: "(fst \<circ> fst) ` set (chunk_rows e) = {fst e}"
  using arg_cong [OF chunk_rows_positions, of set e] by (simp add: set_replicate_conv_if)

lemma holds_positions: "holds t es \<Longrightarrow> (fst \<circ> fst) ` set t = fst ` set es"
proof -
  have "(fst \<circ> fst) ` set (concat (map chunk_rows es)) = fst ` set es"
    by (induction es) (simp_all add: image_Un chunk_rows_image del: o_apply)
  then show "holds t es \<Longrightarrow> ?thesis" by (simp add: holds_def)
qed

lemma holds_select:
  assumes "holds t es"
  shows "tbl_select (\<lambda>(s, i) b. P s) t = concat (map chunk_rows (filter (P \<circ> fst) es))"
proof -
  have "filter (\<lambda>(k, v). (\<lambda>(s, i) b. P s) k v) (concat (map chunk_rows es))
      = concat (map chunk_rows (filter (P \<circ> fst) es))"
    by (rule filter_concat_map) (auto dest: chunk_rows_position)
  with assms show ?thesis by (simp add: tbl_select_def holds_def)
qed

lemma holds_delete:
  assumes "holds t es"
  shows "holds (tbl_delete (\<lambda>(s, i) b. P s) t) (filter (\<lambda>e. \<not> P (fst e)) es)"
proof -
  have "filter (\<lambda>(k, v). \<not> (\<lambda>(s, i) b. P s) k v) (concat (map chunk_rows es))
      = concat (map chunk_rows (filter (\<lambda>e. \<not> P (fst e)) es))"
    by (rule filter_concat_map) (auto dest: chunk_rows_position)
  with assms show ?thesis
    by (simp add: tbl_delete_def holds_def sorted_wrt_map sorted_wrt_filter)
qed

lemma max_position_append:
  "max_position (t @ chunk_rows e) = max (max_position t) (fst e)"
proof -
  have "fold (\<lambda>((s, i), b) m. max s m) rows m = max m p"
    if "rows \<noteq> []" "\<And>x. x \<in> set rows \<Longrightarrow> fst (fst x) = p" for rows :: "((nat \<times> nat) \<times> bytes) list" and m p
    using that
  proof (induction rows arbitrary: m)
    case Nil
    then show ?case by simp
  next
    case (Cons r rows)
    then show ?case by (cases "rows = []") (auto simp: case_prod_unfold max.commute max.assoc)
  qed
  then show ?thesis
    by (simp add: max_position_def chunk_rows_position)
qed

lemma holds_max:
  "holds t es \<Longrightarrow> max_position t = (if es = [] then 0 else fst (last es))"
proof (induction es arbitrary: t rule: rev_induct)
  case Nil
  then show ?case by (simp add: holds_def max_position_def)
next
  case (snoc e es)
  then have "t = concat (map chunk_rows es) @ chunk_rows e" "holds (concat (map chunk_rows es)) es"
    "\<And>e'. e' \<in> set es \<Longrightarrow> fst e' < fst e"
    by (auto simp: holds_def sorted_wrt_append)
  moreover have "fst (last es) < fst e" if "es \<noteq> []"
    using \<open>\<And>e'. e' \<in> set es \<Longrightarrow> fst e' < fst e\<close> that by simp
  ultimately show ?case using snoc.IH by (auto simp: max_position_append)
qed

lemma chunk_rows_above:
  assumes "holds t es" and "\<And>e. e \<in> set es \<Longrightarrow> fst e < s"
    and "k' \<in> fst ` set t" and "k \<in> fst ` set (chunk_rows (s, b))"
  shows "k' < k"
proof -
  have "fst k' \<in> fst ` set es" using holds_positions [OF assms(1)] assms(3) by auto
  then have "fst k' < s" using assms(2) by auto
  moreover have "fst k = s" using assms(4) by (auto dest: chunk_rows_position)
  ultimately show ?thesis by (simp add: less_prod_def)
qed

text \<open>Writing an update above every stored position appends it; the key is never taken.\<close>

lemma holds_upsert:
  assumes "holds t es" and "\<And>e. e \<in> set es \<Longrightarrow> fst e < s"
  shows "holds (upsert_run tbl_upsert (chunk_rows (s, b)) t) (es @ [(s, b)])"
  using tbl.upsert_run_above [OF holds_table_ok [OF assms(1)] chunk_rows_sorted chunk_rows_above [OF assms]]
    assms by (simp add: holds_def sorted_wrt_append)

lemma holds_insert:
  assumes "holds t es" and "\<And>e. e \<in> set es \<Longrightarrow> fst e < s"
  shows "\<exists>t'. insert_run tbl_insert (chunk_rows (s, b)) t = Some t' \<and> holds t' (es @ [(s, b)])"
  using tbl.insert_run_above [OF holds_table_ok [OF assms(1)] chunk_rows_sorted chunk_rows_above [OF assms]]
    holds_upsert [OF assms] by auto

lemma remdups_adj_run: "remdups_adj (a # replicate n a) = [a]"
  by (induction n) auto

lemma remdups_adj_append_run:
  "xs = [] \<or> last xs \<noteq> a \<Longrightarrow> remdups_adj (xs @ a # replicate n a) = remdups_adj xs @ [a]"
  by (induction xs rule: remdups_adj.induct) (auto simp: remdups_adj_run)

lemma remdups_adj_runs:
  "sorted_wrt (<) (map fst es) \<Longrightarrow>
   remdups_adj (map (fst \<circ> fst) (concat (map chunk_rows es))) = map fst es"
proof (induction es rule: rev_induct)
  case Nil
  then show ?case by simp
next
  case (snoc e es)
  have run: "map (fst \<circ> fst) (chunk_rows e) = fst e # replicate (length (chunk_rows e) - 1) (fst e)"
    unfolding chunk_rows_positions
    by (cases "length (chunk_rows e)") simp_all
  have last: "last (map (fst \<circ> fst) (concat (map chunk_rows es))) \<noteq> fst e" if "es \<noteq> []"
  proof -
    have "last (map (fst \<circ> fst) (chunk_rows (last es))) = fst (last es)"
      unfolding chunk_rows_positions by simp
    moreover have "fst (last es) < fst e" using snoc.prems that by (simp add: sorted_wrt_append)
    moreover have "concat (map chunk_rows es) = concat (map chunk_rows (butlast es)) @ chunk_rows (last es)"
      using arg_cong [OF append_butlast_last_id [OF that], of "\<lambda>es. concat (map chunk_rows es)"] by simp
    ultimately show ?thesis by (simp add: last_map)
  qed
  have "map (fst \<circ> fst) (concat (map chunk_rows (es @ [e])))
      = map (fst \<circ> fst) (concat (map chunk_rows es)) @ fst e # replicate (length (chunk_rows e) - 1) (fst e)"
    using run by simp
  moreover have "map (fst \<circ> fst) (concat (map chunk_rows es)) = [] \<or>
      last (map (fst \<circ> fst) (concat (map chunk_rows es))) \<noteq> fst e"
    using last by (cases "es = []") simp_all
  ultimately have "remdups_adj (map (fst \<circ> fst) (concat (map chunk_rows (es @ [e]))))
      = remdups_adj (map (fst \<circ> fst) (concat (map chunk_rows es))) @ [fst e]"
    by (simp only: remdups_adj_append_run)
  also have "remdups_adj (map (fst \<circ> fst) (concat (map chunk_rows es))) = map fst es"
    using snoc.prems by (intro snoc.IH) (simp add: sorted_wrt_append)
  finally show ?case by simp
qed

lemma group_rows_run:
  "group_rows (Some (s, cs)) (map (\<lambda>(i, c). ((s, i), c)) (enumerate n ds) @ rows)
     = group_rows (Some (s, cs @ ds)) rows"
  by (induction ds arbitrary: cs n) auto

lemma group_rows_start:
  "group_rows None (chunk_rows e @ rows) = group_rows (Some (fst e, chunks_of (snd e))) rows"
proof -
  obtain c cs where cs: "chunks_of (snd e) = c # cs"
    using chunks_of_props(2) [of "snd e"] by (cases "chunks_of (snd e)") auto
  show ?thesis by (simp add: chunk_rows_def cs group_rows_run)
qed

lemma group_rows_next:
  assumes "s \<noteq> fst e"
  shows "group_rows (Some (s, cs)) (chunk_rows e @ rows)
    = (s, concat cs) # group_rows (Some (fst e, chunks_of (snd e))) rows"
proof -
  obtain d ds where ds: "chunks_of (snd e) = d # ds"
    using chunks_of_props(2) [of "snd e"] by (cases "chunks_of (snd e)") auto
  show ?thesis using assms by (simp add: chunk_rows_def ds group_rows_run)
qed

lemma group_rows_entries:
  "sorted_wrt (<) (map fst es) \<Longrightarrow> (\<And>e. e \<in> set es \<Longrightarrow> s < fst e) \<Longrightarrow>
   group_rows (Some (s, cs)) (concat (map chunk_rows es)) = (s, concat cs) # es"
proof (induction es arbitrary: s cs)
  case Nil
  then show ?case by simp
next
  case (Cons e es)
  have "s \<noteq> fst e" using Cons.prems(2) [of e] by simp
  moreover have "group_rows (Some (fst e, chunks_of (snd e))) (concat (map chunk_rows es))
      = (fst e, concat (chunks_of (snd e))) # es"
    using Cons.prems(1) by (intro Cons.IH) auto
  ultimately show ?case by (simp add: group_rows_next chunks_of_props)
qed

lemma group_rows_holds: "holds t es \<Longrightarrow> group_rows None t = es"
proof (cases es)
  case Nil
  then show "holds t es \<Longrightarrow> ?thesis" by (simp add: holds_def)
next
  case (Cons e es')
  assume h: "holds t es"
  then have "group_rows None t
      = group_rows (Some (fst e, chunks_of (snd e))) (concat (map chunk_rows es'))"
    by (simp add: holds_def Cons group_rows_start)
  also have "\<dots> = (fst e, concat (chunks_of (snd e))) # es'"
    using h by (intro group_rows_entries) (auto simp: holds_def Cons)
  finally show ?thesis by (simp add: Cons chunks_of_props)
qed

text \<open>Cutting an ascending list splits it at the last position of the prefix.\<close>

lemma sorted_take_bounds:
  fixes xs :: "(nat \<times> 'b) list"
  assumes "sorted_wrt (<) (map fst xs)" and "take l xs \<noteq> []"
  shows "e \<in> set (take l xs) \<Longrightarrow> fst e \<le> fst (last (take l xs))"
    and "e \<in> set (drop l xs) \<Longrightarrow> fst (last (take l xs)) < fst e"
proof -
  have split: "sorted_wrt (<) (map fst (take l xs) @ map fst (drop l xs))"
    using assms(1) by (simp flip: map_append)
  show "fst (last (take l xs)) < fst e" if "e \<in> set (drop l xs)"
    using split that assms(2) by (fastforce simp: sorted_wrt_append)
  show "fst e \<le> fst (last (take l xs))" if "e \<in> set (take l xs)"
  proof -
    have "sorted_wrt (<) (map fst (butlast (take l xs) @ [last (take l xs)]))"
      using split assms(2) by (simp add: sorted_wrt_append del: map_append)
    moreover have "e \<in> set (butlast (take l xs) @ [last (take l xs)])"
      using that assms(2) by simp
    ultimately show ?thesis by (auto simp: sorted_wrt_append)
  qed
qed

lemma first_above:
  fixes es :: "(nat \<times> 'b) list"
  assumes "sorted_wrt (<) (map fst es)" and "(p, b) \<in> set es" and "1 \<le> p"
  shows "take 1 (filter (\<lambda>e. p - 1 < fst e) es) = [(p, b)]"
  using assms(1,2)
proof (induction es)
  case (Cons e es)
  show ?case
  proof (cases "e = (p, b)")
    case False
    then have "fst e < p" using Cons.prems by auto
    with Cons False show ?thesis by auto
  qed (use assms(3) in simp)
qed simp

lemma take_filter_prefix:
  fixes es :: "(nat \<times> 'b) list"
  assumes "sorted_wrt (<) (map fst es)" and "xs = filter (\<lambda>e. c < fst e) es" and "take l xs \<noteq> []"
  shows "filter (\<lambda>e. c < fst e \<and> fst e \<le> fst (last (take l xs))) es = take l xs"
    and "filter (\<lambda>e. fst (last (take l xs)) < fst e) es = drop l xs"
proof -
  have sorted: "sorted_wrt (<) (map fst xs)"
    using assms(1,2) by (simp add: sorted_wrt_map sorted_wrt_filter)
  note bounds = sorted_take_bounds [OF sorted assms(3)]
  have "filter (\<lambda>e. c < fst e \<and> fst e \<le> fst (last (take l xs))) es
      = filter (\<lambda>e. fst e \<le> fst (last (take l xs))) (take l xs @ drop l xs)"
    by (simp add: assms(2) conj_commute)
  also have "\<dots> = take l xs"
    unfolding filter_append using bounds by (simp add: filter_True filter_False not_le)
  finally show "filter (\<lambda>e. c < fst e \<and> fst e \<le> fst (last (take l xs))) es = take l xs" .
  have "last (take l xs) \<in> set xs" using assms(3) by (meson in_set_takeD last_in_set)
  then have "c < fst (last (take l xs))" by (simp add: assms(2))
  then have "filter (\<lambda>e. fst (last (take l xs)) < fst e) es
      = filter (\<lambda>e. fst (last (take l xs)) < fst e) (take l xs @ drop l xs)"
    by (auto simp: assms(2) intro!: filter_cong)
  also have "\<dots> = drop l xs"
    unfolding filter_append using bounds by (simp add: filter_True filter_False not_less)
  finally show "filter (\<lambda>e. fst (last (take l xs)) < fst e) es = drop l xs" .
qed

lemma holds_since:
  assumes "holds (log_table d) es"
  shows "log_since c l d = take l (filter (\<lambda>e. c < fst e) es)"
proof -
  let ?xs = "filter (\<lambda>e. c < fst e) es"
  have sorted: "sorted_wrt (<) (map fst ?xs)"
    using assms by (simp add: holds_def sorted_wrt_map sorted_wrt_filter)
  have "remdups_adj (map (fst \<circ> fst) (tbl_select (\<lambda>(s, i) b. c < s) (log_table d))) = map fst ?xs"
    unfolding holds_select [OF assms]
    using remdups_adj_runs [OF sorted] by (simp add: comp_def)
  then have seqs: "take l (remdups_adj (map (fst \<circ> fst) (tbl_select (\<lambda>(s, i) b. c < s) (log_table d))))
      = map fst (take l ?xs)" by (simp add: take_map)
  show ?thesis
  proof (cases "take l ?xs = []")
    case True
    with seqs show ?thesis by (simp add: log_since_def Let_def)
  next
    case False
    let ?m = "fst (last (take l ?xs))"
    have "holds (concat (map chunk_rows (take l ?xs))) (take l ?xs)"
      using sorted sorted_wrt_append [of "(<)" "map fst (take l ?xs)" "map fst (drop l ?xs)"]
      by (simp add: holds_def map_append [symmetric] del: map_append)
    moreover have "tbl_select (\<lambda>(s, i) b. c < s \<and> s \<le> ?m) (log_table d) = concat (map chunk_rows (take l ?xs))"
      using take_filter_prefix(1) [OF _ refl False] assms unfolding holds_select [OF assms]
      by (simp add: holds_def comp_def)
    ultimately show ?thesis
      using False seqs by (simp add: log_since_def Let_def last_map group_rows_holds)
  qed
qed

section \<open>The log a database stands for\<close>

text \<open>
  The abstraction: the snapshots kept, oldest first, and the entries after the newest one.
  The entries are numbered without a gap from the position of the newest snapshot.
\<close>

definition log_entries :: "db \<Rightarrow> (nat \<times> bytes) list" where
  "log_entries d = group_rows None (log_table d)"

definition snapshots :: "db \<Rightarrow> (nat \<times> bytes) list" where
  "snapshots d = group_rows None (snapshot_table d)"

definition base_position :: "(nat \<times> bytes) list \<Rightarrow> nat" where
  "base_position ss = (if ss = [] then 0 else fst (last ss))"

definition log_state :: "db \<Rightarrow> (nat \<times> bytes) list \<Rightarrow> (nat \<times> bytes) list \<Rightarrow> bool" where
  "log_state d ss es \<longleftrightarrow> holds (snapshot_table d) ss \<and> holds (log_table d) es
     \<and> (\<forall>s\<in>set ss. 1 \<le> fst s)
     \<and> map fst es = [base_position ss + 1..<base_position ss + 1 + length es]"

definition log_inv :: "db \<Rightarrow> bool" where
  "log_inv d \<longleftrightarrow> log_state d (snapshots d) (log_entries d)"

lemma log_state_abs: "log_state d ss es \<Longrightarrow> snapshots d = ss \<and> log_entries d = es"
  by (simp add: log_state_def log_entries_def snapshots_def group_rows_holds)

lemma log_state_inv: "log_state d ss es \<Longrightarrow> log_inv d"
  using log_state_abs [of d ss es] by (simp add: log_inv_def)

lemma log_state_frame:
  "log_table d' = log_table d \<Longrightarrow> snapshot_table d' = snapshot_table d \<Longrightarrow>
   log_state d' ss es = log_state d ss es"
  by (simp add: log_state_def)

lemma empty_db_state: "log_state empty_db [] []"
  by (simp add: log_state_def empty_db_def)

lemma log_state_positions:
  assumes "log_state d ss es"
  shows "snapshotPosition d = base_position ss" and "head d = base_position ss + length es"
proof -
  show sp: "snapshotPosition d = base_position ss"
    using assms by (simp add: snapshotPosition_def log_state_def holds_max base_position_def)
  have num: "map fst es = [base_position ss + 1..<base_position ss + 1 + length es]"
    using assms by (simp add: log_state_def)
  have "fst (last es) = base_position ss + length es" if "es \<noteq> []"
  proof -
    have "fst (last es) = last (map fst es)" using that by (simp add: last_map)
    also have "\<dots> = base_position ss + length es"
      using that unfolding num by (simp del: upt_Suc)
    finally show ?thesis .
  qed
  then show "head d = base_position ss + length es"
    using assms sp by (auto simp: head_def log_state_def holds_max)
qed

lemma log_state_below_head: "log_state d ss es \<Longrightarrow> e \<in> set es \<Longrightarrow> fst e < head d + 1"
proof -
  assume st: "log_state d ss es" and "e \<in> set es"
  then have "fst e \<in> set [base_position ss + 1..<base_position ss + 1 + length es]"
    unfolding log_state_def by (metis image_eqI list.set_map)
  then show ?thesis using log_state_positions [OF st] by (simp del: upt_Suc)
qed

lemma base_position_pos: "log_state d ss es \<Longrightarrow> ss \<noteq> [] \<Longrightarrow> 1 \<le> fst (last ss)"
  by (simp add: log_state_def)

lemma base_position_le: "log_state d ss es \<Longrightarrow> s \<in> set ss \<Longrightarrow> fst s \<le> base_position ss"
proof (cases ss rule: rev_cases)
  case (snoc xs x)
  then show "log_state d ss es \<Longrightarrow> s \<in> set ss \<Longrightarrow> ?thesis"
    by (auto simp: log_state_def holds_def base_position_def sorted_wrt_append)
qed simp

text \<open>Appending gives the update the next position, stores it, and never meets a taken key.\<close>

lemma log_append_state:
  assumes "log_state d ss es"
  obtains d' where "log_append bs d = Inr (head d + 1, d')"
    and "log_state d' ss (es @ [(head d + 1, bs)])"
    and "current_generation d' = current_generation d" and "restore_receipts d' = restore_receipts d"
proof -
  have hl: "holds (log_table d) es" and lt: "\<And>e. e \<in> set es \<Longrightarrow> fst e < head d + 1"
    using assms log_state_below_head by (auto simp: log_state_def)
  from holds_insert [OF hl lt, of bs] obtain t where
    t: "insert_run tbl_insert (chunk_rows (head d + 1, bs)) (log_table d) = Some t"
      "holds t (es @ [(head d + 1, bs)])" by blast
  have "log_state (d\<lparr>log_table := t\<rparr>) ss (es @ [(head d + 1, bs)])"
    using assms t(2) log_state_positions [OF assms] by (simp add: log_state_def)
  with t(1) that [of "d\<lparr>log_table := t\<rparr>"] show thesis by (simp add: log_append_def)
qed

lemma log_since_state: "log_state d ss es \<Longrightarrow> log_since c l d = take l (filter (\<lambda>e. c < fst e) es)"
  by (simp add: log_state_def holds_since)

lemma log_snapshot_state:
  assumes "log_state d ss es"
  shows "log_snapshot d = (if ss = [] then None else Some (last ss))"
proof (cases "ss = []")
  case True
  with log_state_positions [OF assms] show ?thesis
    by (simp add: log_snapshot_def base_position_def)
next
  case False
  have h: "holds (snapshot_table d) ss" using assms by (simp add: log_state_def)
  have "filter ((\<lambda>p. p = fst (last ss)) \<circ> fst) ss = [last ss]"
  proof -
    have ss: "ss = butlast ss @ [last ss]" using False by simp
    have "\<forall>s\<in>set (butlast ss). fst s < fst (last ss)"
      using h unfolding holds_def by (subst (asm) (2) ss) (simp add: sorted_wrt_append)
    then show ?thesis by (subst ss) (auto simp: filter_empty_conv)
  qed
  then have "map snd (tbl_select (\<lambda>(p, i) b. p = fst (last ss)) (snapshot_table d)) = chunks_of (snd (last ss))"
    unfolding holds_select [OF h] by (simp add: chunk_rows_bytes)
  moreover have "snapshotPosition d = fst (last ss)" "fst (last ss) \<noteq> 0"
    using log_state_positions [OF assms] base_position_pos [OF assms False] False
    by (simp_all add: base_position_def)
  ultimately show ?thesis using False
    by (simp add: log_snapshot_def chunks_of_props)
qed

text \<open>Folding a snapshot in: it becomes the newest, one older is kept, what it covers goes.\<close>

lemma log_fold_state:
  assumes st: "log_state d ss es" and p: "base_position ss < p" "p \<le> head d"
  shows "log_state (log_fold p bs d) (if ss = [] then [(p, bs)] else [last ss, (p, bs)])
    (filter (\<lambda>e. p < fst e) es)"
proof -
  define d1 where "d1 = writeSnapshot p bs d"
  define d2 where "d2 = d1\<lparr>log_table := tbl_delete (\<lambda>(s, i) b. s \<le> p) (log_table d1)\<rparr>"
  let ?ss = "ss @ [(p, bs)]" and ?es = "filter (\<lambda>e. p < fst e) es"
  have below: "\<And>s. s \<in> set ss \<Longrightarrow> fst s < p" using base_position_le [OF st] p by fastforce
  have snap: "holds (snapshot_table d2) ?ss"
    using holds_upsert [of "snapshot_table d" ss p bs] st below
    by (simp add: d2_def d1_def writeSnapshot_def log_state_def)
  have log: "holds (log_table d2) ?es"
    using holds_delete [of "log_table d" es "\<lambda>s. s \<le> p"] st
    by (simp add: d2_def d1_def writeSnapshot_def log_state_def not_le)
  have pos: "remdups_adj (map (fst \<circ> fst) (snapshot_table d2)) = map fst ?ss"
    using snap by (simp add: holds_def remdups_adj_runs del: map_append)
  let ?keep = "if ss = [] then [(p, bs)] else [last ss, (p, bs)]"
  let ?low = "fst (hd ?keep)"
  have low: "last (take 2 (rev (map fst ?ss))) = ?low"
    by (cases ss rule: rev_cases) (auto simp: numeral_2_eq_2)
  have kept: "filter (\<lambda>e. \<not> fst e < ?low) ?ss = ?keep"
  proof (cases ss rule: rev_cases)
    case Nil
    then show ?thesis by simp
  next
    case (snoc xs x)
    have "\<forall>y\<in>set xs. fst y < fst x" using st snoc by (auto simp: log_state_def holds_def sorted_wrt_append)
    moreover have "fst x < p" using below snoc by simp
    ultimately show ?thesis using snoc by (auto simp: filter_empty_conv)
  qed
  have fold: "log_fold p bs d = d2\<lparr>snapshot_table := tbl_delete (\<lambda>(q, i) b. q < ?low) (snapshot_table d2)\<rparr>"
    unfolding log_fold_def Let_def d1_def [symmetric] d2_def [symmetric] pos low by simp
  have "holds (snapshot_table (log_fold p bs d)) ?keep"
    using holds_delete [OF snap, of "\<lambda>q. q < ?low"] unfolding kept fold by simp
  moreover have "holds (log_table (log_fold p bs d)) ?es" using log by (simp add: fold)
  moreover have "\<forall>s\<in>set ?keep. 1 \<le> fst s" using st p by (auto simp: log_state_def)
  moreover have "map fst ?es = [p + 1..<p + 1 + length ?es]"
  proof -
    have "map fst ?es = filter (\<lambda>x. p < x) (map fst es)" by (simp add: filter_map comp_def)
    also have "\<dots> = [p + 1..<base_position ss + 1 + length es]"
      using st p by (simp add: log_state_def filter_upt_greater max_def)
    finally have *: "map fst ?es = [p + 1..<base_position ss + 1 + length es]" .
    from arg_cong [OF this, of length] have "length ?es = base_position ss + length es - p"
      by (simp del: upt_Suc)
    with * p log_state_positions [OF st] show ?thesis by (simp del: upt_Suc)
  qed
  ultimately show ?thesis by (auto simp: log_state_def base_position_def)
qed

lemma log_fold_frame [simp]:
  "current_generation (log_fold p bs d) = current_generation d"
  "restore_receipts (log_fold p bs d) = restore_receipts d"
  by (simp_all add: log_fold_def writeSnapshot_def Let_def)

lemma write_first_state:
  assumes "snapshot_table d = []" and "log_table d = []"
  shows "log_state (writeSnapshot 1 bs d) [(1, bs)] []"
  using assms holds_upsert [of "[]" "[]" 1 bs]
  by (simp add: log_state_def writeSnapshot_def base_position_def)

lemma log_replace_state: "log_state (log_replace bs d) [(1, bs)] []"
  unfolding log_replace_def by (rule write_first_state) simp_all

lemma log_state_head_zero:
  assumes "log_state d ss es" and "head d = 0"
  shows "snapshot_table d = []" and "log_table d = []" and "ss = []" and "es = []"
proof -
  have "base_position ss = 0" "es = []" using log_state_positions [OF assms(1)] assms(2) by auto
  moreover have "ss = []"
    using base_position_pos [OF assms(1)] \<open>base_position ss = 0\<close>
    by (auto simp: base_position_def split: if_splits)
  ultimately show "snapshot_table d = []" "log_table d = []" "ss = []" "es = []"
    using assms(1) by (auto simp: log_state_def holds_def)
qed

section \<open>The contract readers of the log rely on\<close>

text \<open>
  A numbered log read in batches: what the catch-up loop of the hub and the loop of
  \<open>capture\<close> need. Entries are numbered without a gap from \<open>start\<close> to \<open>finish\<close>, and a read
  returns the first entries above a cursor.
\<close>

locale entry_log =
  fixes inv :: "'d \<Rightarrow> bool"
    and entries :: "'d \<Rightarrow> (nat \<times> 'b) list"
    and since :: "nat \<Rightarrow> nat \<Rightarrow> 'd \<Rightarrow> (nat \<times> 'b) list"
    and start :: "'d \<Rightarrow> nat"
    and finish :: "'d \<Rightarrow> nat"
  assumes since_reads: "inv d \<Longrightarrow> since c l d = take l (filter (\<lambda>e. c < fst e) (entries d))"
    and numbered: "inv d \<Longrightarrow> map fst (entries d) = [start d + 1..<finish d + 1]"
begin

lemma above_numbers:
  "inv d \<Longrightarrow> start d \<le> c \<Longrightarrow> map fst (filter (\<lambda>e. c < fst e) (entries d)) = [c + 1..<finish d + 1]"
proof -
  assume "inv d" "start d \<le> c"
  have "map fst (filter (\<lambda>e. c < fst e) (entries d)) = filter (\<lambda>x. c < x) (map fst (entries d))"
    by (simp add: filter_map comp_def)
  also have "\<dots> = [c + 1..<finish d + 1]"
    unfolding numbered [OF \<open>inv d\<close>] filter_upt_greater using \<open>start d \<le> c\<close> by (simp add: max_def)
  finally show ?thesis .
qed

lemma since_numbers:
  "inv d \<Longrightarrow> start d \<le> c \<Longrightarrow> map fst (since c l d) = take l [c + 1..<finish d + 1]"
  by (simp only: since_reads take_map above_numbers [symmetric])

lemma since_empty:
  assumes "inv d" "start d \<le> c" "0 < l"
  shows "since c l d = [] \<longleftrightarrow> finish d \<le> c"
proof -
  have "since c l d = [] \<longleftrightarrow> map fst (since c l d) = []" by simp
  also have "\<dots> \<longleftrightarrow> finish d \<le> c"
    unfolding since_numbers [OF assms(1,2)] using assms(3) by (auto simp del: upt_Suc)
  finally show ?thesis .
qed

lemma since_bound: "inv d \<Longrightarrow> start d \<le> c \<Longrightarrow> e \<in> set (since c l d) \<Longrightarrow> c < fst e \<and> fst e \<le> finish d"
proof -
  assume a: "inv d" "start d \<le> c" "e \<in> set (since c l d)"
  then have "fst e \<in> set (take l [c + 1..<finish d + 1])"
    using since_numbers [OF a(1,2), of l] by (metis image_eqI list.set_map)
  then show ?thesis by (auto dest!: in_set_takeD simp del: upt_Suc)
qed

text \<open>What is left after a batch is what lies above its last entry.\<close>

lemma since_rest:
  assumes "inv d" "since c l d \<noteq> []"
  shows "filter (\<lambda>e. c < fst e) (entries d)
    = since c l d @ filter (\<lambda>e. fst (last (since c l d)) < fst e) (entries d)"
proof -
  let ?xs = "filter (\<lambda>e. c < fst e) (entries d)"
  have sorted: "sorted_wrt (<) (map fst (entries d))"
    by (simp add: numbered [OF assms(1)] del: upt_Suc)
  note s = since_reads [OF assms(1), of c l]
  have "take l ?xs \<noteq> []" using assms(2) s by simp
  from take_filter_prefix(2) [OF sorted refl this] show ?thesis unfolding s by simp
qed

end

lemma log_inv_numbered:
  "log_inv d \<Longrightarrow> map fst (log_entries d) = [snapshotPosition d + 1..<head d + 1]"
  using log_state_positions [of d "snapshots d" "log_entries d"]
  by (simp add: log_inv_def log_state_def del: upt_Suc)

interpretation entry: entry_log log_inv log_entries log_since snapshotPosition head
proof unfold_locales
  fix d c l
  show "log_inv d \<Longrightarrow> log_since c l d = take l (filter (\<lambda>e. c < fst e) (log_entries d))"
    by (simp add: log_inv_def log_since_state)
  show "log_inv d \<Longrightarrow> map fst (log_entries d) = [snapshotPosition d + 1..<head d + 1]"
    by (rule log_inv_numbered)
qed

text \<open>The capture loop meets no gap and returns every entry above the snapshot.\<close>

lemma capture_tail_all:
  assumes "log_inv d"
  shows "snapshotPosition d \<le> c \<Longrightarrow>
    capture_tail d (head d) c = Inr (filter (\<lambda>e. c < fst e) (log_entries d))"
proof (induction "head d - c" arbitrary: c rule: less_induct)
  case less
  let ?es = "log_since c 64 d"
  show ?case
  proof (cases "c < head d")
    case False
    then have "log_since c 1 d = []" using entry.since_empty [OF assms less.prems, of 1] by simp
    then have "filter (\<lambda>e. c < fst e) (log_entries d) = []" by (simp add: entry.since_reads [OF assms])
    with False show ?thesis by (subst capture_tail.simps) (simp only: if_False)
  next
    case True
    then have ne: "?es \<noteq> []" using entry.since_empty [OF assms less.prems, of 64] by simp
    then have last: "c < fst (last ?es)" by (auto dest: log_since_above [OF last_in_set])
    have "capture_tail d (head d) (fst (last ?es))
        = Inr (filter (\<lambda>e. fst (last ?es) < fst e) (log_entries d))"
      using last True less.prems by (intro less.hyps) auto
    with True ne show ?thesis
      unfolding entry.since_rest [OF assms ne] by (subst capture_tail.simps) (simp add: Let_def)
  qed
qed

lemma capture_current_all:
  assumes "log_inv d" and "current_generation d = Some g" and "snapshots d \<noteq> []"
  shows "capture_current d = Inr \<lparr>cgeneration = g, chead = head d,
    csnapshot = last (snapshots d), ctail = log_entries d\<rparr>"
proof -
  have snap: "log_snapshot d = Some (last (snapshots d))"
    using assms log_snapshot_state by (auto simp: log_inv_def)
  have pos: "fst (last (snapshots d)) = snapshotPosition d"
    using assms log_state_positions(1) by (auto simp: log_inv_def base_position_def)
  have "filter (\<lambda>e. snapshotPosition d < fst e) (log_entries d) = log_entries d"
  proof (rule filter_True, rule ballI)
    fix e assume "e \<in> set (log_entries d)"
    then have "fst e \<in> set (map fst (log_entries d))" by simp
    then show "snapshotPosition d < fst e" unfolding log_inv_numbered [OF assms(1)] by (simp del: upt_Suc)
  qed
  with capture_tail_all [OF assms(1), of "snapshotPosition d"] snap pos assms(2) show ?thesis
    by (cases "last (snapshots d)") (simp add: capture_current_def)
qed

section \<open>Verbs\<close>

definition fault_now :: "sqlite \<Rightarrow> bool" where
  "fault_now s \<longleftrightarrow> faults s \<noteq> [] \<and> hd (faults s)"

lemma transaction_cases:
  obtains (failed) e where "transaction s f = (s\<lparr>faults := tl (faults s)\<rparr>, Inl e)"
      "fault_now s \<or> f (tables s) = Inl e"
    | (committed) a d where "\<not> fault_now s" "f (tables s) = Inr (a, d)"
        "transaction s f = (s\<lparr>faults := tl (faults s), tables := d\<rparr>, Inr a)"
  by (cases "fault_now s"; cases "f (tables s)") (auto simp: transaction_def Let_def fault_now_def)

definition admitted :: "binding \<Rightarrow> db \<Rightarrow> bool" where
  "admitted a d \<longleftrightarrow> admission_check a d = Inr ()"

lemma admitted_iff: "admitted a d \<longleftrightarrow> bound_to a = None \<or> bound_to a = current_generation d"
  by (cases "bound_to a"; cases "current_generation d") (auto simp: admitted_def admission_check_def)

lemma run_cases:
  "run a s f =
     (let s' = s\<lparr>faults := tl (faults s)\<rparr> in
      if fault_now s then (s', Inl StorageFailed)
      else case admission_check a (tables s) of
             Inl e \<Rightarrow> (s', Inl e)
           | Inr _ \<Rightarrow> (case f (tables s) of
                 Inl _ \<Rightarrow> (s', Inl StorageFailed)
               | Inr (r, d) \<Rightarrow> (s'\<lparr>tables := d\<rparr>, r)))"
  by (auto simp: run_def transaction_def fault_now_def Let_def split: sum.split)

text \<open>A reading verb changes nothing but the engine's fault queue.\<close>

lemma reading_verb:
  "run a s (reading f) =
     (s\<lparr>faults := tl (faults s)\<rparr>,
      if fault_now s then Inl StorageFailed
      else case admission_check a (tables s) of Inl e \<Rightarrow> Inl e | Inr _ \<Rightarrow> Inr (f (tables s)))"
  by (auto simp: run_cases Let_def split: sum.split)

lemmas reading_verbs = a_admission_def a_since_def a_head_def a_snapshot_def a_snapshotPosition_def
  a_shouldSnapshot_def a_storedBytes_def

lemma a_append_cases:
  assumes "log_inv (tables s)" and "a_append a bs s = (s', r)"
  obtains (stored) "\<not> fault_now s" "admitted a (tables s)" "r = Inr (head (tables s) + 1)"
      "log_state (tables s') (snapshots (tables s)) (log_entries (tables s) @ [(head (tables s) + 1, bs)])"
      "current_generation (tables s') = current_generation (tables s)"
      "restore_receipts (tables s') = restore_receipts (tables s)"
    | (failed) e where "r = Inl e" "tables s' = tables s" "fault_now s \<or> \<not> admitted a (tables s)"
proof -
  have st: "log_state (tables s) (snapshots (tables s)) (log_entries (tables s))"
    using assms(1) by (simp add: log_inv_def)
  from log_append_state [OF st, of bs] obtain d where
    d: "log_append bs (tables s) = Inr (head (tables s) + 1, d)"
      "log_state d (snapshots (tables s)) (log_entries (tables s) @ [(head (tables s) + 1, bs)])"
      "current_generation d = current_generation (tables s)"
      "restore_receipts d = restore_receipts (tables s)" by blast
  show thesis
    using assms(2) d stored failed
    by (auto simp: a_append_def run_cases Let_def admitted_def split: sum.splits if_splits)
qed

lemma a_replaceSnapshot_cases:
  assumes "log_inv (tables s)" and "a_replaceSnapshot a p bs s = (s', r)"
  obtains (folded) "\<not> fault_now s" "admitted a (tables s)" "r = Inr ()"
      "snapshotPosition (tables s) < p" "p \<le> head (tables s)"
      "log_state (tables s')
         (if snapshots (tables s) = [] then [(p, bs)] else [last (snapshots (tables s)), (p, bs)])
         (filter (\<lambda>e. p < fst e) (log_entries (tables s)))"
      "current_generation (tables s') = current_generation (tables s)"
      "restore_receipts (tables s') = restore_receipts (tables s)"
    | (refused) e where "r = Inl e" "tables s' = tables s"
        "fault_now s \<or> \<not> admitted a (tables s) \<or> p \<le> snapshotPosition (tables s) \<or> head (tables s) < p"
proof -
  have st: "log_state (tables s) (snapshots (tables s)) (log_entries (tables s))"
    using assms(1) by (simp add: log_inv_def)
  note fold = log_fold_state [OF st, of p bs, folded log_state_positions(1) [OF st]]
  show thesis
  proof (cases "fault_now s \<or> \<not> admitted a (tables s) \<or> p \<le> snapshotPosition (tables s) \<or> head (tables s) < p")
    case True
    then have "is_err r \<and> tables s' = tables s"
      using assms(2) by (cases "admission_check a (tables s)",
        auto simp: a_replaceSnapshot_def run_cases Let_def admitted_def split: if_splits,
        metis sum.disc(1))
    with True refused show ?thesis by (cases r) auto
  next
    case False
    then have "a_replaceSnapshot a p bs s
        = (s\<lparr>faults := tl (faults s), tables := log_fold p bs (tables s)\<rparr>, Inr ())"
      by (simp add: a_replaceSnapshot_def run_cases Let_def admitted_def)
    with assms(2) have "s' = s\<lparr>faults := tl (faults s), tables := log_fold p bs (tables s)\<rparr>" "r = Inr ()"
      by simp_all
    with False fold folded show ?thesis by simp
  qed
qed

lemma a_seed_cases:
  assumes "log_inv (tables s)" and "a_seed a bs s = (s', r)"
  obtains (seeded) "r = Inr 1" "head (tables s) = 0" "log_state (tables s') [(1, bs)] []"
      "current_generation (tables s') = current_generation (tables s)"
      "restore_receipts (tables s') = restore_receipts (tables s)"
    | (refused) e where "r = Inl e" "tables s' = tables s"
proof -
  have st: "log_state (tables s) (snapshots (tables s)) (log_entries (tables s))"
    using assms(1) by (simp add: log_inv_def)
  note zero = log_state_head_zero [OF st]
  show thesis
    using assms(2) seeded refused write_first_state [OF zero(1,2), of bs]
    by (auto simp: a_seed_def run_cases Let_def writeSnapshot_def split: sum.splits if_splits)
qed

section \<open>Reachable storage\<close>

text \<open>
  One step of the storage's life: any verb of any authority bound to it, or one of the
  transactions of the current authority. The faults are arbitrary, so every transaction may
  fail.
\<close>

inductive authority_step :: "sqlite \<Rightarrow> sqlite \<Rightarrow> bool" where
  read_step: "authority_step s (s\<lparr>faults := tl (faults s)\<rparr>)"
| append_step: "authority_step s (fst (a_append a bs s))"
| seed_step: "authority_step s (fst (a_seed a bs s))"
| replaceSnapshot_step: "authority_step s (fst (a_replaceSnapshot a p bs s))"
| ensure_step: "authority_step s (fst (ensureCurrent bs s))"
| capture_step: "authority_step s (fst (captureCurrent s))"
| activate_step: "authority_step s (fst (activate q s))"

inductive authority_reachable :: "sqlite \<Rightarrow> bool" where
  fresh: "authority_reachable \<lparr>tables = empty_db, faults = fs\<rparr>"
| later: "authority_reachable s \<Longrightarrow> authority_step s s' \<Longrightarrow> authority_reachable s'"

definition receipt_ok :: "db \<Rightarrow> receipt \<Rightarrow> bool" where
  "receipt_ok d r \<longleftrightarrow> rhead r = 1 \<and> rgeneration r = expected_generation r + 1
     \<and> (\<exists>g. current_generation d = Some g \<and> rgeneration r \<le> g)"

definition authority_inv :: "db \<Rightarrow> bool" where
  "authority_inv d \<longleftrightarrow> log_inv d
     \<and> (\<forall>g. current_generation d = Some g \<longrightarrow> 1 \<le> g \<and> snapshots d \<noteq> [])
     \<and> (\<forall>r\<in>snd ` set (restore_receipts d). receipt_ok d r)"

lemma authority_inv_state:
  assumes "log_state d ss es" and "current_generation d = g" and "restore_receipts d = rs"
    and "g \<noteq> None \<Longrightarrow> 1 \<le> the g \<and> ss \<noteq> []"
    and "\<And>r. r \<in> snd ` set rs \<Longrightarrow> receipt_ok d r"
  shows "authority_inv d"
  using assms log_state_inv log_state_abs [of d ss es] by (auto simp: authority_inv_def)

lemma receipt_ok_frame: "current_generation d' = current_generation d \<Longrightarrow> receipt_ok d' r = receipt_ok d r"
  by (simp add: receipt_ok_def)

text \<open>The ways \<open>ensureCurrent\<close> and \<open>activate\<close> change the tables.\<close>

lemma capturing_same: "capturing d = Inr (c, d') \<Longrightarrow> d' = d"
  by (auto simp: capturing_def split: sum.splits)

lemma captureCurrent_same: "tables (fst (captureCurrent s)) = tables s"
  unfolding captureCurrent_def
  by (rule transaction_cases [of s capturing]) (auto dest: capturing_same)

lemma ensureCurrent_cases:
  obtains (same) "tables (fst (ensureCurrent bs s)) = tables s"
  | (initialized) "current_generation (tables s) = None" "head (tables s) = 0"
      "tables (fst (ensureCurrent bs s)) = (writeSnapshot 1 bs (tables s))\<lparr>current_generation := Some 1\<rparr>"
proof (cases "bs = []")
  case True
  with same show ?thesis by (simp add: ensureCurrent_def)
next
  case False
  show ?thesis
    by (rule transaction_cases [of s "\<lambda>d. case current_generation d of Some _ \<Rightarrow> capturing d
          | None \<Rightarrow> if head d \<noteq> 0 then Inl NotEmptyStorage
              else capturing ((writeSnapshot 1 bs d)\<lparr>current_generation := Some 1\<rparr>)"])
      (use False same initialized in \<open>auto simp: ensureCurrent_def dest!: capturing_same
         split: option.splits if_splits\<close>)
qed

text \<open>What the transaction of \<open>activate\<close> computes when no receipt answers and the position matches.\<close>

definition switched_db :: "activation \<Rightarrow> db \<Rightarrow> db" where
  "switched_db q d = (log_replace (state q) d)
     \<lparr>current_generation := Some (fst (expected q) + 1),
      restore_receipts := (operation q,
        \<lparr>expected_generation = fst (expected q), expected_head = snd (expected q),
         digest = state_digest q, rgeneration = fst (expected q) + 1, rhead = 1\<rparr>)
        # restore_receipts d\<rparr>"

lemma activating_cases:
  assumes "activating q d = Inr ((res, sw), d')"
  obtains (same) "\<not> sw" "d' = d"
  | (switched) "sw" "res = Activated (operation q) (fst (expected q) + 1) 1" "d' = switched_db q d"
      "current_generation d = Some (fst (expected q))" "head d = snd (expected q)"
      "map_of (restore_receipts d) (operation q) = None"
  using assms by (auto simp: activating_def switched_db_def Let_def log_replace_def writeSnapshot_def
      split: option.splits if_splits)

lemma activate_cases:
  obtains (same) "tables (fst (activate q s)) = tables s"
      "\<And>res sw. snd (activate q s) = Inr (res, sw) \<Longrightarrow> \<not> sw"
  | (switched) "snd (activate q s) = Inr (Activated (operation q) (fst (expected q) + 1) 1, True)"
      "current_generation (tables s) = Some (fst (expected q))" "head (tables s) = snd (expected q)"
      "map_of (restore_receipts (tables s)) (operation q) = None"
      "tables (fst (activate q s)) = switched_db q (tables s)"
proof (rule transaction_cases [of s "activating q"])
  fix e assume "transaction s (activating q) = (s\<lparr>faults := tl (faults s)\<rparr>, Inl e)"
  with same show thesis by (simp add: activate_def)
next
  fix a d assume t: "activating q (tables s) = Inr (a, d)"
    "transaction s (activating q) = (s\<lparr>faults := tl (faults s), tables := d\<rparr>, Inr a)"
  obtain res sw where a: "a = (res, sw)" by (cases a)
  from t(1) [unfolded a] show thesis
    by (rule activating_cases) (use t(2) same switched a in \<open>auto simp: activate_def\<close>)
qed

section \<open>The invariant of reachable storage\<close>

lemma authority_inv_empty: "authority_inv empty_db"
  by (rule authority_inv_state [OF empty_db_state refl refl]) (auto simp: empty_db_def)

lemma log_inv_state: "authority_inv d \<Longrightarrow> log_state d (snapshots d) (log_entries d)"
  by (simp add: authority_inv_def log_inv_def)

text \<open>A change of the log alone keeps the rest of the invariant.\<close>

lemma authority_inv_log_change:
  assumes "authority_inv d" and "log_state d' ss es"
    and "current_generation d' = current_generation d" and "restore_receipts d' = restore_receipts d"
    and "ss \<noteq> [] \<or> snapshots d = []"
  shows "authority_inv d'"
  using assms by (intro authority_inv_state [OF assms(2) refl refl])
    (auto simp: authority_inv_def receipt_ok_def)

lemma authority_inv_append:
  assumes "authority_inv (tables s)" shows "authority_inv (tables (fst (a_append a bs s)))"
proof -
  obtain s' r where e: "a_append a bs s = (s', r)" by fastforce
  have "log_inv (tables s)" using assms by (simp add: authority_inv_def)
  then have "authority_inv (tables s')" using e
    by (cases rule: a_append_cases) (use assms in \<open>auto intro: authority_inv_log_change\<close>)
  with e show ?thesis by simp
qed

lemma authority_inv_seed:
  assumes "authority_inv (tables s)" shows "authority_inv (tables (fst (a_seed a bs s)))"
proof -
  obtain s' r where e: "a_seed a bs s = (s', r)" by fastforce
  have "log_inv (tables s)" using assms by (simp add: authority_inv_def)
  then have "authority_inv (tables s')" using e
    by (cases rule: a_seed_cases) (use assms in \<open>auto intro: authority_inv_log_change\<close>)
  with e show ?thesis by simp
qed

lemma authority_inv_replaceSnapshot:
  assumes "authority_inv (tables s)" shows "authority_inv (tables (fst (a_replaceSnapshot a p bs s)))"
proof -
  obtain s' r where e: "a_replaceSnapshot a p bs s = (s', r)" by fastforce
  have "log_inv (tables s)" using assms by (simp add: authority_inv_def)
  then have "authority_inv (tables s')" using e
    by (cases rule: a_replaceSnapshot_cases)
      (use assms in \<open>auto intro: authority_inv_log_change split: if_splits\<close>)
  with e show ?thesis by simp
qed

lemma authority_inv_ensure:
  assumes "authority_inv (tables s)" shows "authority_inv (tables (fst (ensureCurrent bs s)))"
proof (cases rule: ensureCurrent_cases [of bs s])
  case same
  with assms show ?thesis by simp
next
  case initialized
  note zero = log_state_head_zero [OF log_inv_state [OF assms] initialized(2)]
  have "restore_receipts (tables s) = []"
    using assms initialized(1) by (cases "restore_receipts (tables s)") (auto simp: authority_inv_def receipt_ok_def)
  moreover have "log_state (tables (fst (ensureCurrent bs s))) [(1, bs)] []"
    using write_first_state [OF zero(1,2), of bs] by (simp add: initialized(3) log_state_def)
  ultimately show ?thesis
    by (auto simp: initialized(3) writeSnapshot_def intro!: authority_inv_state)
qed

lemma switched_db_state: "log_state (switched_db q d) [(1, state q)] []"
  using log_replace_state [of "state q" d] by (simp add: switched_db_def log_state_def)

lemma authority_inv_activate:
  assumes "authority_inv (tables s)" shows "authority_inv (tables (fst (activate q s)))"
proof (cases rule: activate_cases [of q s])
  case same
  with assms show ?thesis by simp
next
  case switched
  have "receipt_ok (switched_db q (tables s)) r" if "r \<in> snd ` set (restore_receipts (switched_db q (tables s)))" for r
    using that assms switched(2) by (fastforce simp: switched_db_def receipt_ok_def authority_inv_def)
  then show ?thesis unfolding switched(5)
    by (intro authority_inv_state [OF switched_db_state refl refl]) (auto simp: switched_db_def)
qed

lemma authority_step_inv: "authority_step s s' \<Longrightarrow> authority_inv (tables s) \<Longrightarrow> authority_inv (tables s')"
  by (induction rule: authority_step.induct)
    (simp_all add: authority_inv_append authority_inv_seed authority_inv_replaceSnapshot
      authority_inv_ensure captureCurrent_same authority_inv_activate)

lemma reachable_inv: "authority_reachable s \<Longrightarrow> authority_inv (tables s)"
  by (induction rule: authority_reachable.induct) (simp_all add: authority_inv_empty authority_step_inv)

text \<open>Receipts are never withdrawn or changed, and the generation never goes back.\<close>

definition generation_of :: "db \<Rightarrow> nat" where
  "generation_of d = (case current_generation d of None \<Rightarrow> 0 | Some g \<Rightarrow> g)"

definition advances :: "db \<Rightarrow> db \<Rightarrow> bool" where
  "advances d d' \<longleftrightarrow> map_of (restore_receipts d) \<subseteq>\<^sub>m map_of (restore_receipts d')
     \<and> generation_of d \<le> generation_of d'
     \<and> (generation_of d' = generation_of d \<longrightarrow> head d \<le> head d')"

lemma advances_refl [simp]: "advances d d"
  by (simp add: advances_def)

lemma advances_trans: "advances a b \<Longrightarrow> advances b c \<Longrightarrow> advances a c"
  by (auto simp: advances_def intro: map_le_trans)

lemma log_entries_of: "log_state d ss es \<Longrightarrow> log_entries d = es"
  and snapshots_of: "log_state d ss es \<Longrightarrow> snapshots d = ss"
  using log_state_abs by auto

lemma head_of: "log_inv d \<Longrightarrow> head d = base_position (snapshots d) + length (log_entries d)"
  and snapshotPosition_of: "log_inv d \<Longrightarrow> snapshotPosition d = base_position (snapshots d)"
  using log_state_positions by (auto simp: log_inv_def)

text \<open>Within a generation an entry stays where it is until a snapshot covers it.\<close>

definition retains :: "db \<Rightarrow> db \<Rightarrow> bool" where
  "retains d d' \<longleftrightarrow> (generation_of d' = generation_of d \<longrightarrow>
     snapshotPosition d \<le> snapshotPosition d' \<and>
     (\<forall>e\<in>set (log_entries d). e \<in> set (log_entries d') \<or> fst e \<le> snapshotPosition d'))"

lemma retains_refl [simp]: "retains d d"
  by (simp add: retains_def)

lemma append_advances:
  assumes "authority_inv (tables s)"
  shows "advances (tables s) (tables (fst (a_append a bs s))) \<and> retains (tables s) (tables (fst (a_append a bs s)))"
proof -
  obtain s' r where e: "a_append a bs s = (s', r)" by fastforce
  have inv: "log_inv (tables s)" using assms by (simp add: authority_inv_def)
  from inv e have "advances (tables s) (tables s') \<and> retains (tables s) (tables s')"
  proof (cases rule: a_append_cases)
    case stored
    note pos = log_state_positions [OF stored(4)]
    show ?thesis using stored pos head_of [OF inv] snapshotPosition_of [OF inv]
      by (simp add: advances_def retains_def log_entries_of [OF stored(4)] generation_of_def)
  qed simp
  with e show ?thesis by simp
qed

lemma replaceSnapshot_advances:
  assumes "authority_inv (tables s)"
  shows "advances (tables s) (tables (fst (a_replaceSnapshot a p bs s)))
    \<and> retains (tables s) (tables (fst (a_replaceSnapshot a p bs s)))"
    and "head (tables (fst (a_replaceSnapshot a p bs s))) = head (tables s)"
proof -
  obtain s' r where e: "a_replaceSnapshot a p bs s = (s', r)" by fastforce
  have inv: "log_inv (tables s)" using assms by (simp add: authority_inv_def)
  have "advances (tables s) (tables s') \<and> retains (tables s) (tables s') \<and> head (tables s') = head (tables s)"
  proof (rule a_replaceSnapshot_cases [OF inv e])
    assume *: "snapshotPosition (tables s) < p" "p \<le> head (tables s)"
      "log_state (tables s')
         (if snapshots (tables s) = [] then [(p, bs)] else [last (snapshots (tables s)), (p, bs)])
         (filter (\<lambda>e. p < fst e) (log_entries (tables s)))" (is "log_state _ ?ss ?es")
      "current_generation (tables s') = current_generation (tables s)"
      "restore_receipts (tables s') = restore_receipts (tables s)"
    have "length ?es = length (map fst ?es)" by simp
    also have "map fst ?es = [p + 1..<head (tables s) + 1]"
      using * by (intro entry.above_numbers [OF inv]) simp
    finally have len: "length ?es = head (tables s) - p" by (simp del: upt_Suc)
    have base: "base_position ?ss = p" by (simp add: base_position_def)
    note pos = log_state_positions [OF *(3)]
    have "head (tables s') = head (tables s)" "snapshotPosition (tables s') = p"
      using pos base len *(2) by simp_all
    with * show ?thesis
      by (auto simp: advances_def retains_def log_entries_of [OF *(3)] generation_of_def)
  qed simp
  with e show "advances (tables s) (tables (fst (a_replaceSnapshot a p bs s)))
    \<and> retains (tables s) (tables (fst (a_replaceSnapshot a p bs s)))"
    and "head (tables (fst (a_replaceSnapshot a p bs s))) = head (tables s)" by simp_all
qed

lemma seed_advances:
  assumes "authority_inv (tables s)"
  shows "advances (tables s) (tables (fst (a_seed a bs s))) \<and> retains (tables s) (tables (fst (a_seed a bs s)))"
proof -
  obtain s' r where e: "a_seed a bs s = (s', r)" by fastforce
  have inv: "log_inv (tables s)" using assms by (simp add: authority_inv_def)
  from inv e have "advances (tables s) (tables s') \<and> retains (tables s) (tables s')"
  proof (cases rule: a_seed_cases)
    case seeded
    note zero = log_state_head_zero [OF log_inv_state [OF assms] seeded(2)]
    show ?thesis using seeded zero snapshotPosition_of [OF inv]
      by (simp add: advances_def retains_def generation_of_def base_position_def)
  qed simp
  with e show ?thesis by simp
qed

lemma ensure_advances:
  assumes "authority_inv (tables s)"
  shows "advances (tables s) (tables (fst (ensureCurrent bs s)))
    \<and> retains (tables s) (tables (fst (ensureCurrent bs s)))"
proof (cases rule: ensureCurrent_cases [of bs s])
  case initialized
  then show ?thesis
    by (simp add: advances_def retains_def generation_of_def writeSnapshot_def)
qed simp

lemma activate_advances:
  assumes "authority_inv (tables s)"
  shows "advances (tables s) (tables (fst (activate q s))) \<and> retains (tables s) (tables (fst (activate q s)))"
proof (cases rule: activate_cases [of q s])
  case switched
  have "map_of (restore_receipts (tables s)) \<subseteq>\<^sub>m map_of (restore_receipts (switched_db q (tables s)))"
    using switched(4) by (auto simp: switched_db_def map_le_def dom_def)
  moreover have "generation_of (tables s) = fst (expected q)"
    "generation_of (switched_db q (tables s)) = fst (expected q) + 1"
    using switched(2) by (simp_all add: generation_of_def switched_db_def)
  ultimately show ?thesis by (simp add: advances_def retains_def switched(5))
qed simp

lemma authority_step_advances:
  "authority_step s s' \<Longrightarrow> authority_inv (tables s) \<Longrightarrow>
   advances (tables s) (tables s') \<and> retains (tables s) (tables s')"
  by (induction rule: authority_step.induct)
    (simp_all add: append_advances seed_advances replaceSnapshot_advances ensure_advances
      captureCurrent_same activate_advances)

abbreviation authority_steps :: "sqlite \<Rightarrow> sqlite \<Rightarrow> bool" where
  "authority_steps \<equiv> authority_step\<^sup>*\<^sup>*"

lemma reachable_steps: "authority_steps s s' \<Longrightarrow> authority_reachable s \<Longrightarrow> authority_reachable s'"
  by (induction rule: rtranclp_induct) (auto intro: authority_reachable.later)

lemma steps_advance:
  "authority_steps s s' \<Longrightarrow> authority_reachable s \<Longrightarrow> advances (tables s) (tables s')"
proof (induction rule: rtranclp_induct)
  case (step s' s'')
  have "authority_inv (tables s')" using reachable_steps [OF step.hyps(1) step.prems] by (rule reachable_inv)
  with step authority_step_advances show ?case by (blast intro: advances_trans)
qed simp

lemma steps_retain:
  "authority_steps s s' \<Longrightarrow> authority_reachable s \<Longrightarrow> retains (tables s) (tables s')"
proof (induction rule: rtranclp_induct)
  case (step s' s'')
  note reach = reachable_steps [OF step.hyps(1) step.prems]
  have one: "advances (tables s') (tables s'') \<and> retains (tables s') (tables s'')"
    using authority_step_advances [OF step.hyps(2)] reachable_inv [OF reach] by blast
  have mono: "generation_of (tables s) \<le> generation_of (tables s')"
    using steps_advance [OF step.hyps(1) step.prems] by (simp add: advances_def)
  show ?case
  proof (cases "generation_of (tables s'') = generation_of (tables s)")
    case True
    then have "generation_of (tables s') = generation_of (tables s)" using one mono by (auto simp: advances_def)
    with True one step.IH [OF step.prems] show ?thesis unfolding retains_def by fastforce
  qed (simp add: retains_def)
qed simp

section \<open>Properties\<close>

text \<open>
  In every reachable storage an append either fails without
  touching the tables (the engine throws, or the authority is not admitted) or stores the
  update at the next position: it becomes the last entry of the log, every earlier entry and
  snapshot is kept, and the head is its position.
\<close>

theorem append_extends_log:
  assumes "authority_reachable s" and "a_append a bs s = (s', r)"
  shows "if fault_now s then r = Inl StorageFailed \<and> tables s' = tables s
    else if \<not> admitted a (tables s)
      then (\<exists>g. r = Inl (GenerationUnavailable g (current_generation (tables s)))) \<and> tables s' = tables s
    else r = Inr (head (tables s) + 1) \<and> head (tables s') = head (tables s) + 1
      \<and> log_entries (tables s') = log_entries (tables s) @ [(head (tables s) + 1, bs)]
      \<and> snapshots (tables s') = snapshots (tables s)"
proof -
  have inv: "log_inv (tables s)" using reachable_inv [OF assms(1)] by (simp add: authority_inv_def)
  show ?thesis
  proof (cases "fault_now s \<or> \<not> admitted a (tables s)")
    case True
    then show ?thesis using assms(2)
      by (auto simp: a_append_def run_cases Let_def admitted_def admission_check_def split: option.splits if_splits)
  next
    case False
    from inv assms(2) show ?thesis
    proof (cases rule: a_append_cases)
      case stored
      note pos = log_state_positions [OF stored(4)]
      show ?thesis using False stored pos head_of [OF inv]
        by (simp add: log_entries_of [OF stored(4)] snapshots_of [OF stored(4)])
    qed (use False in blast)
  qed
qed

definition fresh_storage :: sqlite where
  "fresh_storage = \<lparr>tables = empty_db, faults = []\<rparr>"

lemma fresh_storage_reachable: "authority_reachable fresh_storage"
  by (simp add: fresh_storage_def authority_reachable.fresh)

theorem append_extends_log_witness:
  "log_entries (tables (fst (a_append (openSyncAuthority 10) [7, 8] fresh_storage))) = [(1, [7, 8])]"
proof -
  have z: "head (tables fresh_storage) = 0" "log_entries (tables fresh_storage) = []"
    by (simp_all add: fresh_storage_def empty_db_def head_def snapshotPosition_def max_position_def log_entries_def)
  have "\<not> fault_now fresh_storage" "admitted (openSyncAuthority 10) (tables fresh_storage)"
    by (simp_all add: fault_now_def fresh_storage_def admitted_def admission_check_def openSyncAuthority_def)
  with append_extends_log [OF fresh_storage_reachable surjective_pairing, of "openSyncAuthority 10" "[7, 8]"] z
  show ?thesis by simp
qed

text \<open>
  A position the authority answered holds its update for good: after any
  later steps by anyone, failures included, as long as the generation is the same and no
  snapshot covers the position, reading the log just below it returns exactly the bytes that
  were appended, reassembled from their chunk rows.
\<close>

theorem append_durable:
  assumes "authority_reachable s" and "a_append a bs s = (s1, Inr p)" and "authority_steps s1 s2"
    and "current_generation (tables s2) = current_generation (tables s)"
    and "snapshotPosition (tables s2) < p" and "\<not> fault_now s2" and "admitted a (tables s2)"
  shows "snd (a_since a (p - 1) 1 s2) = Inr [(p, bs)]"
proof -
  have inv: "log_inv (tables s)" using reachable_inv [OF assms(1)] by (simp add: authority_inv_def)
  have step: "authority_step s s1" using authority_step.append_step [of s a bs] assms(2) by simp
  have r1: "authority_reachable s1" and r2: "authority_reachable s2"
    using assms(1) step reachable_steps [OF assms(3)] by (auto intro: authority_reachable.later)
  have inv2: "log_inv (tables s2)" using reachable_inv [OF r2] by (simp add: authority_inv_def)
  from inv assms(2) have st: "p = head (tables s) + 1" "(p, bs) \<in> set (log_entries (tables s1))"
    "current_generation (tables s1) = current_generation (tables s)"
    by (cases rule: a_append_cases; auto dest: log_entries_of)+
  then have "(p, bs) \<in> set (log_entries (tables s2))"
    using steps_retain [OF assms(3) r1] assms(4,5) by (fastforce simp: retains_def generation_of_def)
  moreover have "sorted_wrt (<) (map fst (log_entries (tables s2)))"
    by (simp add: log_inv_numbered [OF inv2] del: upt_Suc)
  ultimately have "take 1 (filter (\<lambda>e. p - 1 < fst e) (log_entries (tables s2))) = [(p, bs)]"
    using st(1) by (intro first_above) auto
  then show ?thesis using assms(6,7)
    by (simp add: a_since_def reading_verb admitted_def entry.since_reads [OF inv2])
qed

definition one_entry :: sqlite where
  "one_entry = \<lparr>tables = empty_db\<lparr>log_table := [((1, 0), [7, 8])]\<rparr>, faults = []\<rparr>"

lemma small_chunks: "chunks_of [7, 8] = [[7, 8]]" "chunks_of [9] = [[9]]" "chunks_of [5] = [[5]]"
  by (rule chunks_of_small; simp add: CHUNK_BYTES_def DO_SQLITE_VALUE_CAP_def)+

lemma one_entry_append: "a_append (openSyncAuthority 10) [7, 8] fresh_storage = (one_entry, Inr 1)"
  by (simp add: fresh_storage_def one_entry_def a_append_def run_cases Let_def fault_now_def admission_check_def
      openSyncAuthority_def log_append_def empty_db_def head_def snapshotPosition_def max_position_def
      chunk_rows_def small_chunks tbl_insert_def)

lemma one_entry_facts:
  "authority_reachable one_entry" "\<not> fault_now one_entry" "admitted (openSyncAuthority 10) (tables one_entry)"
  "snapshotPosition (tables one_entry) = 0" "head (tables one_entry) = 1" "snapshots (tables one_entry) = []"
  "current_generation (tables one_entry) = current_generation (tables fresh_storage)"
proof -
  show "authority_reachable one_entry"
    using authority_reachable.later [OF fresh_storage_reachable authority_step.append_step, of "openSyncAuthority 10" "[7, 8]"]
    by (simp add: one_entry_append)
qed (simp_all add: one_entry_def empty_db_def head_def snapshotPosition_def max_position_def snapshots_def
  fault_now_def admitted_def admission_check_def openSyncAuthority_def fresh_storage_def)

theorem append_durable_witness:
  "snd (a_since (openSyncAuthority 10) 0 1 one_entry) = Inr [(1, [7, 8])]"
  using append_durable [OF fresh_storage_reachable one_entry_append rtranclp.rtrancl_refl] one_entry_facts
  by simp

text \<open>
  A snapshot offer is accepted exactly when the engine commits,
  the authority is admitted and its position lies above the stored snapshot and not above the
  head; then the newest snapshot is the offered one with the one it replaced kept below it,
  exactly the entries it covers are gone, and the head is where it was. In every other case
  the tables are untouched.
\<close>

theorem replaceSnapshot_effect:
  assumes "authority_reachable s" and "a_replaceSnapshot a p bs s = (s', r)"
  shows "head (tables s') = head (tables s) \<and>
    (if \<not> fault_now s \<and> admitted a (tables s) \<and> snapshotPosition (tables s) < p \<and> p \<le> head (tables s)
     then r = Inr () \<and> snd (a_snapshot a s') = (if fault_now s' then Inl StorageFailed else Inr (Some (p, bs)))
       \<and> log_entries (tables s') = filter (\<lambda>e. p < fst e) (log_entries (tables s))
       \<and> snapshots (tables s') = (if snapshots (tables s) = [] then [] else [last (snapshots (tables s))]) @ [(p, bs)]
     else is_err r \<and> tables s' = tables s)"
proof -
  have ainv: "authority_inv (tables s)" by (rule reachable_inv [OF assms(1)])
  then have inv: "log_inv (tables s)" by (simp add: authority_inv_def)
  have head: "head (tables s') = head (tables s)"
    using replaceSnapshot_advances(2) [OF ainv, of a p bs] assms(2) by simp
  from inv assms(2) show ?thesis
  proof (cases rule: a_replaceSnapshot_cases)
    case folded
    have "admitted a (tables s')" using folded(2,7) by (simp add: admitted_iff)
    moreover have "log_snapshot (tables s') = Some (p, bs)"
      using log_snapshot_state [OF folded(6)] by (simp split: if_splits)
    ultimately have "snd (a_snapshot a s') = (if fault_now s' then Inl StorageFailed else Inr (Some (p, bs)))"
      by (simp add: a_snapshot_def reading_verb admitted_def)
    with head folded show ?thesis
      by (simp add: log_entries_of [OF folded(6)] snapshots_of [OF folded(6)])
  qed (use head in auto)
qed

theorem replaceSnapshot_effect_witness:
  "snapshots (tables (fst (a_replaceSnapshot (openSyncAuthority 10) 1 [9] one_entry))) = [(1, [9])]"
  using replaceSnapshot_effect [OF one_entry_facts(1) surjective_pairing, of "openSyncAuthority 10" 1 "[9]"]
    one_entry_facts by simp

text \<open>
  In a reachable storage that has a current generation, capturing it
  succeeds whenever the engine commits, whatever the size of the log: the loop over batches
  of 64 meets no gap, and the capture is the newest snapshot with every entry above it,
  numbered without a gap up to the head.
\<close>

theorem capture_complete:
  assumes "authority_reachable s" and "current_generation (tables s) = Some g" and "\<not> fault_now s"
  shows "\<exists>c. snd (captureCurrent s) = Inr c \<and> cgeneration c = g \<and> chead c = head (tables s)
    \<and> csnapshot c = last (snapshots (tables s)) \<and> ctail c = log_entries (tables s)
    \<and> map fst (ctail c) = [fst (csnapshot c) + 1..<chead c + 1]"
proof -
  have inv: "log_inv (tables s)" and ss: "snapshots (tables s) \<noteq> []"
    using reachable_inv [OF assms(1)] assms(2) by (auto simp: authority_inv_def)
  have "snapshotPosition (tables s) = fst (last (snapshots (tables s)))"
    using snapshotPosition_of [OF inv] ss by (simp add: base_position_def)
  with capture_current_all [OF inv assms(2) ss] log_inv_numbered [OF inv] assms(3) show ?thesis
    by (simp add: captureCurrent_def transaction_def capturing_def fault_now_def Let_def del: upt_Suc)
qed

text \<open>
  The first baseline wins: whenever \<open>ensureCurrent\<close> answers a
  capture, any later call with any other bytes, before the storage is changed by something
  else, changes nothing and answers that same capture.
\<close>

theorem ensureCurrent_first_wins:
  assumes "authority_reachable s" and "ensureCurrent bs s = (s1, Inr c)" and "bs' \<noteq> []" and "\<not> fault_now s1"
  shows "ensureCurrent bs' s1 = (s1\<lparr>faults := tl (faults s1)\<rparr>, Inr c)"
proof -
  let ?body = "\<lambda>d. case current_generation d of Some _ \<Rightarrow> capturing d
          | None \<Rightarrow> if head d \<noteq> 0 then Inl NotEmptyStorage
              else capturing ((writeSnapshot 1 bs d)\<lparr>current_generation := Some 1\<rparr>)"
  have "transaction s ?body = (s1, Inr c)"
    using assms(2) by (auto simp: ensureCurrent_def split: if_splits)
  then obtain d where d: "?body (tables s) = Inr (c, d)" "tables s1 = d"
    by (cases rule: transaction_cases [of s ?body]) auto
  obtain d0 where d0: "capturing d0 = Inr (c, d)" "current_generation d0 \<noteq> None"
    using d(1) by (cases "current_generation (tables s)") (auto split: if_splits)
  have "capturing d = Inr (c, d) \<and> current_generation d \<noteq> None"
    using d0 capturing_same [OF d0(1)] by simp
  with d(2) assms(3,4) show ?thesis
    by (auto simp: ensureCurrent_def transaction_def fault_now_def Let_def)
qed

definition first_generation :: sqlite where
  "first_generation = fst (ensureCurrent [5] fresh_storage)"

lemma first_generation_eq:
  "first_generation = \<lparr>tables = empty_db\<lparr>snapshot_table := [((1, 0), [5])], current_generation := Some 1\<rparr>, faults = []\<rparr>"
  "snd (ensureCurrent [5] fresh_storage) = Inr \<lparr>cgeneration = 1, chead = 1, csnapshot = (1, [5]), ctail = []\<rparr>"
  by (simp_all add: first_generation_def fresh_storage_def ensureCurrent_def transaction_def Let_def empty_db_def head_def
      snapshotPosition_def max_position_def writeSnapshot_def chunk_rows_def small_chunks capturing_def
      capture_current_def log_snapshot_def tbl_select_def capture_tail.simps)

lemma first_generation_facts:
  "authority_reachable first_generation" "\<not> fault_now first_generation"
  "current_generation (tables first_generation) = Some 1" "head (tables first_generation) = 1"
  "restore_receipts (tables first_generation) = []"
proof -
  show "authority_reachable first_generation"
    unfolding first_generation_def
    using authority_reachable.later [OF fresh_storage_reachable authority_step.ensure_step] .
qed (simp_all add: first_generation_eq(1) fault_now_def empty_db_def head_def snapshotPosition_def max_position_def)

theorem capture_complete_witness:
  "\<exists>c. snd (captureCurrent first_generation) = Inr c \<and> cgeneration c = 1 \<and> chead c = 1"
  using capture_complete [OF first_generation_facts(1,3,2)] first_generation_facts(4) by auto

theorem ensureCurrent_first_wins_witness:
  "snd (ensureCurrent [9] first_generation) = Inr \<lparr>cgeneration = 1, chead = 1, csnapshot = (1, [5]), ctail = []\<rparr>"
proof -
  have "ensureCurrent [5] fresh_storage
      = (first_generation, Inr \<lparr>cgeneration = 1, chead = 1, csnapshot = (1, [5]), ctail = []\<rparr>)"
    using first_generation_eq(2) by (simp add: first_generation_def prod_eq_iff)
  from ensureCurrent_first_wins [OF fresh_storage_reachable this _ first_generation_facts(2), of "[9]"]
  show ?thesis by simp
qed

lemma activating_receipt:
  assumes "activating q d = Inr ((Activated op g h, sw), d')"
  shows "\<exists>r. map_of (restore_receipts d') (operation q) = Some r
    \<and> expected_generation r = fst (expected q) \<and> expected_head r = snd (expected q)
    \<and> digest r = state_digest q \<and> rgeneration r = g \<and> rhead r = h \<and> op = operation q"
proof (cases "map_of (restore_receipts d) (operation q)")
  case None
  from assms show ?thesis
  proof (cases rule: activating_cases)
    case same
    with assms None show ?thesis by (simp add: activating_def Let_def split: if_splits)
  next
    case switched
    then show ?thesis by (simp add: switched_db_def)
  qed
next
  case (Some r)
  with assms show ?thesis by (auto simp: activating_def split: if_splits)
qed

text \<open>
  An activation that was answered is answered the same for ever:
  after any later steps by anyone, retrying the same prepared activation returns the receipt of
  the first success, does not switch the generation again and changes no table.
\<close>

theorem activation_retry:
  assumes "authority_reachable s" and "activate q s = (s1, Inr (Activated op g h, sw))"
    and "authority_steps s1 s2" and "\<not> fault_now s2"
  shows "activate q s2 = (s2\<lparr>faults := tl (faults s2)\<rparr>, Inr (Activated op g h, False))"
proof -
  have r1: "authority_reachable s1"
    using authority_reachable.later [OF assms(1) authority_step.activate_step, of q] assms(2) by simp
  have act: "activating q (tables s) = Inr ((Activated op g h, sw), tables s1)"
    using assms(2) unfolding activate_def
    by (cases rule: transaction_cases [of s "activating q"]) auto
  from activating_receipt [OF this] obtain r where
    r: "map_of (restore_receipts (tables s1)) (operation q) = Some r"
    "expected_generation r = fst (expected q)" "expected_head r = snd (expected q)"
    "digest r = state_digest q" "rgeneration r = g" "rhead r = h" "op = operation q" by blast
  have "map_of (restore_receipts (tables s2)) (operation q) = Some r"
    using steps_advance [OF assms(3) r1] r(1) by (auto simp: advances_def map_le_def dom_def)
  with r assms(4) show ?thesis
    by (simp add: activate_def transaction_def activating_def fault_now_def Let_def)
qed

definition sample_activation :: activation where
  "sample_activation = \<lparr>operation = js ''op'', expected = (1, 1), state = [9], state_digest = js ''d''\<rparr>"

lemma sample_activation_switches:
  "snd (activate sample_activation first_generation) = Inr (Activated (js ''op'') 2 1, True)"
  using first_generation_facts(2,4)
  by (simp add: activate_def transaction_def activating_def Let_def fault_now_def sample_activation_def
      first_generation_facts(3,5) positiveInteger_def MAX_SAFE_INTEGER_def)

lemma sample_activation_faults: "\<not> fault_now (fst (activate sample_activation first_generation))"
  by (rule transaction_cases [of first_generation "activating sample_activation"])
    (auto simp: activate_def fault_now_def first_generation_eq(1))

theorem activation_retry_witness:
  "snd (activate sample_activation (fst (activate sample_activation first_generation)))
     = Inr (Activated (js ''op'') 2 1, False)"
proof -
  have "activate sample_activation first_generation
      = (fst (activate sample_activation first_generation), Inr (Activated (js ''op'') 2 1, True))"
    using sample_activation_switches by (simp add: prod_eq_iff)
  from activation_retry [OF first_generation_facts(1) this rtranclp.rtrancl_refl sample_activation_faults]
  show ?thesis by simp
qed

text \<open>
  A switch retires the generation it replaced for good: after it and
  any later steps, an authority bound to that generation or an earlier one answers
  \<open>GenerationUnavailable\<close> to every verb (or \<open>StorageFailed\<close> when the engine throws) and changes
  nothing, and a second activation that expects the same position is answered \<open>Conflict\<close>
  unless its own receipt is stored.
\<close>

theorem activation_fences:
  assumes "authority_reachable s" and "activate q s = (s1, Inr (res, True))" and "authority_steps s1 s2"
    and "bound_to a = Some g" and "g \<le> fst (expected q)" and "fst (expected q') = fst (expected q)"
    and "map_of (restore_receipts (tables s2)) (operation q') = None" and "\<not> fault_now s2"
  shows "snd (a_append a bs s2) = Inl (GenerationUnavailable g (current_generation (tables s2)))
    \<and> snd (a_since a c l s2) = Inl (GenerationUnavailable g (current_generation (tables s2)))
    \<and> snd (a_replaceSnapshot a p bs s2) = Inl (GenerationUnavailable g (current_generation (tables s2)))
    \<and> tables (fst (a_append a bs s2)) = tables s2
    \<and> tables (fst (a_replaceSnapshot a p bs s2)) = tables s2
    \<and> snd (activate q' s2) = Inr (Conflict, False)"
proof -
  have r1: "authority_reachable s1"
    using authority_reachable.later [OF assms(1) authority_step.activate_step, of q] assms(2) by simp
  have "current_generation (tables s1) = Some (fst (expected q) + 1)"
    by (rule activate_cases [of q s]) (use assms(2) in \<open>auto simp: switched_db_def\<close>)
  then have "fst (expected q) < generation_of (tables s2)"
    using steps_advance [OF assms(3) r1] by (simp add: advances_def generation_of_def)
  then have ne: "current_generation (tables s2) \<noteq> Some g"
    "current_generation (tables s2) \<noteq> Some (fst (expected q'))"
    using assms(5,6) by (auto simp: generation_of_def)
  then have no: "admission_check a (tables s2) = Inl (GenerationUnavailable g (current_generation (tables s2)))"
    using assms(4) by (simp add: admission_check_def)
  have "snd (activate q' s2) = Inr (Conflict, False)"
    using assms(7,8) ne(2) by (simp add: activate_def transaction_def activating_def fault_now_def Let_def)
  with assms(8) no show ?thesis
    by (simp add: a_append_def a_since_def a_replaceSnapshot_def run_cases Let_def)
qed

theorem activation_fences_witness:
  "snd (a_append \<lparr>bound_to = Some 1, snapshotFloorBytes = 10\<rparr> [7]
      (fst (activate sample_activation first_generation))) = Inl (GenerationUnavailable 1 (Some 2))
   \<and> snd (activate (sample_activation\<lparr>operation := js ''other''\<rparr>)
      (fst (activate sample_activation first_generation))) = Inr (Conflict, False)"
proof -
  let ?s = "fst (activate sample_activation first_generation)"
  have e: "activate sample_activation first_generation = (?s, Inr (Activated (js ''op'') 2 1, True))"
    using sample_activation_switches by (simp add: prod_eq_iff)
  have t: "tables ?s = switched_db sample_activation (tables first_generation)"
    by (rule activate_cases [of sample_activation first_generation]) (use sample_activation_switches in auto)
  have "current_generation (tables ?s) = Some 2"
    "map_of (restore_receipts (tables ?s)) (js ''other'') = None"
    unfolding t by (simp_all add: switched_db_def sample_activation_def first_generation_facts(5) js_def)
  with activation_fences [OF first_generation_facts(1) e rtranclp.rtrancl_refl, of
      "\<lparr>bound_to = Some 1, snapshotFloorBytes = 10\<rparr>" 1 "sample_activation\<lparr>operation := js ''other''\<rparr>"]
    sample_activation_faults show ?thesis
    by (simp add: sample_activation_def)
qed

end
