(* ===== verification/Hub.thy ===== *)
theory Hub
  imports Authority "HOL-Library.AList"
begin

text \<open>
  The hub, \<^verbatim>\<open>packages/app/src/data/sync/hub.ts\<close>: who is connected, what each of them has
  been sent, and what happens to the bytes that arrive. Its state is explicit, the bytes it
  sends are appended to \<open>wire\<close>, and a connection that answers synchronously inside
  \<^verbatim>\<open>send\<close> is part of the model: \<open>script\<close> holds, for each send to come, what the peers do
  inside that call.
\<close>

section \<open>State\<close>

text \<open>
  What can happen inside \<^verbatim>\<open>connection.send\<close>: bytes come back, a connection leaves, the hub is
  retired, or the storage is switched to a replacement generation. A connection is a number.
\<close>

datatype reaction =
    ReceiveInside nat bytes
  | LeaveInside nat
  | RetireInside
  | ActivateInside activation

record lifetime =
  connections :: "(nat \<times> collector) list"   \<comment> \<open>a \<^verbatim>\<open>Map\<close>, in insertion order\<close>
  pending :: "(nat \<times> bytes) list"

record hub =
  authority :: binding
  batch :: nat
  store :: sqlite
  lifetime :: "lifetime option"
  dispatchDepth :: nat
  cursors :: "nat \<Rightarrow> nat"                    \<comment> \<open>\<^verbatim>\<open>HubConnection.cursor\<close>\<close>
  wire :: "(nat \<times> bytes) list"
  script :: "reaction list list"

datatype admission = Admitted | Retired | Unavailable

definition BUFFER_CEILING_BYTES :: nat where
  "BUFFER_CEILING_BYTES = 64 * 1024 * 1024"

definition createSyncHub :: "binding \<Rightarrow> nat \<Rightarrow> sqlite \<Rightarrow> (nat \<Rightarrow> nat) \<Rightarrow> reaction list list \<Rightarrow> hub" where
  "createSyncHub a b s cs sc =
     \<lparr>authority = a, batch = b, store = s, lifetime = Some \<lparr>connections = [], pending = []\<rparr>,
      dispatchDepth = 0, cursors = cs, wire = [], script = sc\<rparr>"

section \<open>Callbacks\<close>

text \<open>
  A message that comes back while the hub is sending is queued: \<^verbatim>\<open>drain\<close> does nothing inside a
  dispatch, and every send of a live hub is inside one. With no lifetime it is dropped.
\<close>

definition enqueue :: "nat \<Rightarrow> bytes \<Rightarrow> hub \<Rightarrow> hub" where
  "enqueue c m h =
     h\<lparr>lifetime := map_option (\<lambda>l. l\<lparr>pending := pending l @ [(c, m)]\<rparr>) (lifetime h)\<rparr>"

definition leave :: "nat \<Rightarrow> hub \<Rightarrow> hub" where
  "leave c h =
     h\<lparr>lifetime := map_option (\<lambda>l. l\<lparr>connections := AList.delete c (connections l)\<rparr>) (lifetime h)\<rparr>"

definition attached :: "hub \<Rightarrow> nat" where
  "attached h = (case lifetime h of None \<Rightarrow> 0 | Some l \<Rightarrow> length (connections l))"

definition activate_store :: "activation \<Rightarrow> hub \<Rightarrow> hub" where
  "activate_store q h = h\<lparr>store := fst (activate q (store h))\<rparr>"

text \<open>What callbacks do to a hub whose lifetime has ended: only the storage can change.\<close>

fun react_retired :: "reaction list \<Rightarrow> hub \<Rightarrow> hub" where
  "react_retired [] h = h"
| "react_retired (ActivateInside q # rs) h = react_retired rs (activate_store q h)"
| "react_retired (_ # rs) h = react_retired rs h"

definition put_wire :: "nat \<Rightarrow> bytes \<Rightarrow> hub \<Rightarrow> hub" where
  "put_wire c bs h = h\<lparr>wire := wire h @ [(c, bs)], script := tl (script h)\<rparr>"

text \<open>\<^verbatim>\<open>notifyRetired\<close> is only called once \<^verbatim>\<open>lifetime\<close> is undefined.\<close>

definition notifyRetired :: "nat \<Rightarrow> hub \<Rightarrow> hub" where
  "notifyRetired c h =
     react_retired (if script h = [] then [] else hd (script h)) (put_wire c (encodeFrame RetiredFrame) h)"

definition retire :: "hub \<Rightarrow> hub" where
  "retire h =
     (case lifetime h of
        None \<Rightarrow> h
      | Some l \<Rightarrow> fold notifyRetired (map fst (connections l)) (h\<lparr>lifetime := None\<rparr>))"

fun react :: "reaction list \<Rightarrow> hub \<Rightarrow> hub" where
  "react [] h = h"
| "react (ReceiveInside c m # rs) h = react rs (enqueue c m h)"
| "react (LeaveInside c # rs) h = react rs (leave c h)"
| "react (RetireInside # rs) h = react rs (retire h)"
| "react (ActivateInside q # rs) h = react rs (activate_store q h)"

text \<open>\<^verbatim>\<open>connection.send(bytes)\<close>.\<close>

definition emit :: "nat \<Rightarrow> bytes \<Rightarrow> hub \<Rightarrow> hub" where
  "emit c bs h = react (if script h = [] then [] else hd (script h)) (put_wire c bs h)"

section \<open>Sending\<close>

text \<open>Running one verb of the authority.\<close>

definition ask :: "(binding \<Rightarrow> sqlite \<Rightarrow> sqlite \<times> 'a) \<Rightarrow> hub \<Rightarrow> hub \<times> 'a" where
  "ask verb h = (let (s, r) = verb (authority h) (store h) in (h\<lparr>store := s\<rparr>, r))"

definition admission :: "hub \<Rightarrow> hub \<times> (authority_error, unit) result" where
  "admission h =
     (case lifetime h of
        None \<Rightarrow> (h, Inl StorageFailed)
      | Some l \<Rightarrow>
          (let (h', r) = ask a_admission h in
           case r of
             Inl (GenerationUnavailable g (Some current)) \<Rightarrow>
               if current > g then (retire h', r) else (h', r)
           | _ \<Rightarrow> (h', r)))"

definition send :: "nat \<Rightarrow> bytes \<Rightarrow> hub \<Rightarrow> hub \<times> (authority_error, unit) result" where
  "send c bs h =
     (let (h1, admitted) = admission h in
      if is_err admitted then (h1, admitted) else admission (emit c bs h1))"

definition collector_of :: "nat \<Rightarrow> hub \<Rightarrow> collector option" where
  "collector_of c h = (case lifetime h of None \<Rightarrow> None | Some l \<Rightarrow> map_of (connections l) c)"

definition set_collector :: "nat \<Rightarrow> collector \<Rightarrow> hub \<Rightarrow> hub" where
  "set_collector c k h =
     h\<lparr>lifetime := map_option (\<lambda>l. l\<lparr>connections := AList.update c k (connections l)\<rparr>) (lifetime h)\<rparr>"

definition refuse :: "nat \<Rightarrow> nat \<Rightarrow> jsstring \<Rightarrow> hub \<Rightarrow> hub" where
  "refuse c submission why h =
     (case collector_of c h of
        None \<Rightarrow> h
      | Some k \<Rightarrow> emit c (encodeFrame (RefuseFrame submission why))
                   (set_collector c (forget k submission) h))"

text \<open>The loop over the chunks of one payload: it stops at the first send that fails.\<close>

fun send_chunks ::
    "nat \<Rightarrow> (nat \<Rightarrow> bytes \<Rightarrow> frame) \<Rightarrow> nat \<Rightarrow> bytes list \<Rightarrow> hub \<Rightarrow> hub \<times> (authority_error, unit) result" where
  "send_chunks c mk index [] h = (h, Inr ())"
| "send_chunks c mk index (chunk # cs) h =
     (let (h', sent) = send c (encodeFrame (mk index chunk)) h in
      if is_err sent then (h', sent) else send_chunks c mk (index + 1) cs h')"

definition move_cursor :: "nat \<Rightarrow> nat \<Rightarrow> hub \<Rightarrow> hub" where
  "move_cursor c p h = h\<lparr>cursors := (cursors h)(c := p)\<rparr>"

definition catchUpToSnapshot :: "nat \<Rightarrow> hub \<Rightarrow> hub \<times> (authority_error, unit) result" where
  "catchUpToSnapshot c h =
     (let (h1, r) = ask a_snapshot h in
      case r of
        Inl e \<Rightarrow> (h1, Inl e)
      | Inr None \<Rightarrow> (h1, Inr ())
      | Inr (Some (position, bs)) \<Rightarrow>
          if cursors h1 c \<ge> position then (h1, Inr ())
          else
            let chunks = chunks_of bs;
                (h2, sent) = send_chunks c (\<lambda>i b. SnapshotFrame position i (length chunks) b) 0 chunks h1 in
            if is_err sent then (h2, sent) else (move_cursor c position h2, Inr ()))"

text \<open>The loop over one batch of entries: \<^const>\<open>None\<close> means it ran to the end of the batch.\<close>

fun deliver_entries ::
    "nat \<Rightarrow> nat option \<Rightarrow> (nat \<times> bytes) list \<Rightarrow> hub \<Rightarrow> hub \<times> (authority_error, unit) result option" where
  "deliver_entries c ceiling [] h = (h, None)"
| "deliver_entries c ceiling ((seq, bs) # es) h =
     (if ceiling \<noteq> None \<and> seq > the ceiling then (h, Some (Inr ()))
      else
        let chunks = chunks_of bs;
            (h', sent) = send_chunks c (\<lambda>i b. EntryFrame seq i (length chunks) b) 0 chunks h in
        if is_err sent then (h', Some sent)
        else deliver_entries c ceiling es (move_cursor c seq h'))"

section \<open>The delivery loop ends\<close>

text \<open>
  Every call uses up callbacks or leaves the tables alone. Cursors are moved by
  \<^const>\<open>move_cursor\<close> only.
\<close>

definition calm :: "hub \<Rightarrow> hub \<Rightarrow> bool" where
  "calm h h' \<longleftrightarrow> length (script h') \<le> length (script h)
     \<and> (length (script h') = length (script h) \<longrightarrow> tables (store h') = tables (store h))"

lemma calm_refl [simp, intro]: "calm h h"
  by (simp add: calm_def)

lemma calm_trans: "calm a b \<Longrightarrow> calm b c \<Longrightarrow> calm a c"
  by (auto simp: calm_def)

lemma react_retired_frame [simp]:
  "script (react_retired rs h) = script h" "cursors (react_retired rs h) = cursors h"
  "lifetime (react_retired rs h) = lifetime h" "authority (react_retired rs h) = authority h"
  "batch (react_retired rs h) = batch h" "wire (react_retired rs h) = wire h"
  "dispatchDepth (react_retired rs h) = dispatchDepth h"
  by (induction rs h rule: react_retired.induct) (simp_all add: activate_store_def)

lemma notifyRetired_frame [simp]:
  "script (notifyRetired c h) = tl (script h)" "cursors (notifyRetired c h) = cursors h"
  "lifetime (notifyRetired c h) = lifetime h" "authority (notifyRetired c h) = authority h"
  "batch (notifyRetired c h) = batch h" "dispatchDepth (notifyRetired c h) = dispatchDepth h"
  "wire (notifyRetired c h) = wire h @ [(c, encodeFrame RetiredFrame)]"
  by (simp_all add: notifyRetired_def put_wire_def)

lemma notifyRetired_calm: "calm h (notifyRetired c h)"
  by (cases "script h") (simp_all add: calm_def notifyRetired_def put_wire_def)

lemma notify_all_calm: "calm h (fold notifyRetired cs h)"
  by (induction cs arbitrary: h) (auto intro: calm_trans notifyRetired_calm)

lemma notify_all_frame [simp]:
  "cursors (fold notifyRetired cs h) = cursors h" "lifetime (fold notifyRetired cs h) = lifetime h"
  "authority (fold notifyRetired cs h) = authority h" "batch (fold notifyRetired cs h) = batch h"
  "dispatchDepth (fold notifyRetired cs h) = dispatchDepth h"
  "wire (fold notifyRetired cs h) = wire h @ map (\<lambda>c. (c, encodeFrame RetiredFrame)) cs"
  by (induction cs arbitrary: h) simp_all

lemma retire_calm: "calm h (retire h)"
  using notify_all_calm [of "h\<lparr>lifetime := None\<rparr>"] by (auto simp: retire_def calm_def split: option.split)

lemma retire_frame [simp]:
  "cursors (retire h) = cursors h" "lifetime (retire h) = None" "authority (retire h) = authority h"
  "batch (retire h) = batch h" "dispatchDepth (retire h) = dispatchDepth h"
  by (auto simp: retire_def split: option.split)

lemma react_script: "length (script (react rs h)) \<le> length (script h)"
proof (induction rs h rule: react.induct)
  case (4 rs h)
  with retire_calm [of h] show ?case by (simp add: calm_def)
qed (simp_all add: enqueue_def leave_def activate_store_def)

lemma react_frame [simp]:
  "cursors (react rs h) = cursors h" "authority (react rs h) = authority h" "batch (react rs h) = batch h"
  "dispatchDepth (react rs h) = dispatchDepth h"
  by (induction rs h rule: react.induct) (simp_all add: enqueue_def leave_def activate_store_def)

lemma emit_frame [simp]:
  "cursors (emit c bs h) = cursors h" "authority (emit c bs h) = authority h" "batch (emit c bs h) = batch h"
  "dispatchDepth (emit c bs h) = dispatchDepth h"
  by (simp_all add: emit_def put_wire_def)

lemma emit_script:
  "script h \<noteq> [] \<Longrightarrow> length (script (emit c bs h)) < length (script h)"
  using react_script [of "hd (script h)" "put_wire c bs h"]
  by (cases "script h") (simp_all add: emit_def put_wire_def)

lemma emit_silent: "script h = [] \<Longrightarrow> emit c bs h = h\<lparr>wire := wire h @ [(c, bs)]\<rparr>"
  by (simp add: emit_def put_wire_def)

lemma emit_calm: "calm h (emit c bs h)"
  using emit_script [of h c bs] by (cases "script h = []") (auto simp: calm_def emit_silent)

lemma a_admission_tables: "fst (a_admission a s) = s\<lparr>faults := tl (faults s)\<rparr>"
  by (simp add: a_admission_def reading_verb)

lemma move_cursor_frame [simp]:
  "script (move_cursor c p h) = script h" "store (move_cursor c p h) = store h" "lifetime (move_cursor c p h) = lifetime h"
  "authority (move_cursor c p h) = authority h" "batch (move_cursor c p h) = batch h" "wire (move_cursor c p h) = wire h"
  "dispatchDepth (move_cursor c p h) = dispatchDepth h" "cursors (move_cursor c p h) = (cursors h)(c := p)"
  by (simp_all add: move_cursor_def)

lemma ask_frame [simp]:
  "script (fst (ask v h)) = script h" "cursors (fst (ask v h)) = cursors h" "lifetime (fst (ask v h)) = lifetime h"
  "authority (fst (ask v h)) = authority h" "batch (fst (ask v h)) = batch h" "wire (fst (ask v h)) = wire h"
  "dispatchDepth (fst (ask v h)) = dispatchDepth h"
  "store (fst (ask v h)) = fst (v (authority h) (store h))" "snd (ask v h) = snd (v (authority h) (store h))"
  by (simp_all add: ask_def case_prod_unfold Let_def)

lemma ask_reading:
  "ask (\<lambda>a s. run a s (reading f)) h = (h\<lparr>store := (store h)\<lparr>faults := tl (faults (store h))\<rparr>\<rparr>,
     snd (run (authority h) (store h) (reading f)))"
  by (simp add: ask_def reading_verb)

lemma admission_cases:
  obtains (no_hub) "lifetime h = None" "admission h = (h, Inl StorageFailed)"
  | (kept) "lifetime h \<noteq> None"
      "admission h = (h\<lparr>store := (store h)\<lparr>faults := tl (faults (store h))\<rparr>\<rparr>,
         snd (a_admission (authority h) (store h)))"
  | (switched_away) g current where "lifetime h \<noteq> None" "g < current"
      "snd (a_admission (authority h) (store h)) = Inl (GenerationUnavailable g (Some current))"
      "admission h = (retire (h\<lparr>store := (store h)\<lparr>faults := tl (faults (store h))\<rparr>\<rparr>),
         Inl (GenerationUnavailable g (Some current)))"
proof (cases "lifetime h")
  case None
  with no_hub show ?thesis by (simp add: admission_def)
next
  case (Some l)
  have ask: "ask a_admission h = (h\<lparr>store := (store h)\<lparr>faults := tl (faults (store h))\<rparr>\<rparr>,
      snd (a_admission (authority h) (store h)))"
    by (simp add: ask_def case_prod_unfold Let_def a_admission_tables)
  show ?thesis
  proof (cases "\<exists>g current. snd (a_admission (authority h) (store h)) = Inl (GenerationUnavailable g (Some current)) \<and> g < current")
    case True
    with switched_away Some show ?thesis by (auto simp: admission_def ask)
  next
    case False
    then have "admission h = (h\<lparr>store := (store h)\<lparr>faults := tl (faults (store h))\<rparr>\<rparr>,
        snd (a_admission (authority h) (store h)))"
      by (auto simp: admission_def ask Some split: sum.split authority_error.split option.split)
    with kept Some show ?thesis by simp
  qed
qed

section \<open>What every operation keeps\<close>

text \<open>
  A relation between the hub before and after, given by what the atomic actions do to it. The
  locales carry it through the operations, in three layers: sending, delivering (which moves
  the cursor) and processing (which appends and folds).
\<close>

locale hub_sends =
  fixes R :: "hub \<Rightarrow> hub \<Rightarrow> bool"
  assumes refl: "R h h"
    and trans: "R h1 h2 \<Longrightarrow> R h2 h3 \<Longrightarrow> R h1 h3"
    and reads: "R h (h\<lparr>store := (store h)\<lparr>faults := tl (faults (store h))\<rparr>\<rparr>)"
    and retires: "R h (retire h)"
    and emits: "R h (emit c bs h)"
begin

lemma admission: "R h (fst (admission h))"
  by (rule admission_cases [of h]) (auto intro: refl reads trans [OF reads retires])

lemma send: "R h (fst (send c bs h))"
proof -
  have "R h (fst (Hub.admission (emit c bs (fst (Hub.admission h)))))"
    by (rule trans [OF admission trans [OF emits admission]])
  with admission [of h] show ?thesis by (simp add: send_def case_prod_unfold Let_def)
qed

lemma send_chunks: "R h (fst (send_chunks c mk i cs h))"
proof (induction cs arbitrary: i h)
  case Nil
  then show ?case by (simp add: refl)
next
  case (Cons b cs)
  from Cons send [of h c "encodeFrame (mk i b)"] show ?case
    by (auto simp: case_prod_unfold Let_def intro: trans)
qed

lemma asks: "fst (v (authority h) (store h)) = (store h)\<lparr>faults := tl (faults (store h))\<rparr> \<Longrightarrow> R h (fst (ask v h))"
  using reads [of h] by (simp add: ask_def case_prod_unfold Let_def)

end

locale hub_delivers = hub_sends +
  assumes moves: "R h (move_cursor c p h)"
begin

lemma catchUpToSnapshot: "R h (fst (catchUpToSnapshot c h))"
proof -
  let ?h = "fst (ask a_snapshot h)"
  have ask: "R h ?h" by (rule asks) (simp add: a_snapshot_def reading_verb)
  have "R h (fst (send_chunks c mk i cs ?h))" for mk i cs by (rule trans [OF ask send_chunks])
  moreover from this have "R h (move_cursor c p (fst (send_chunks c mk i cs ?h)))" for mk i cs p
    by (rule trans [OF _ moves])
  ultimately show ?thesis using ask
    by (auto simp: catchUpToSnapshot_def case_prod_unfold Let_def simp del: ask_frame
        split: sum.split option.split)
qed

lemma deliver_entries: "R h (fst (deliver_entries c k es h))"
proof (induction es arbitrary: h)
  case Nil
  then show ?case by (simp add: refl)
next
  case (Cons e es)
  obtain seq bs where e: "e = (seq, bs)" by fastforce
  let ?h = "fst (Hub.send_chunks c (\<lambda>i b. EntryFrame seq i (length (chunks_of bs)) b) 0 (chunks_of bs) h)"
  have "R h ?h" by (rule send_chunks)
  moreover have "R h (fst (Hub.deliver_entries c k es (move_cursor c seq ?h)))"
    by (rule trans [OF trans [OF \<open>R h ?h\<close> moves] Cons])
  ultimately show ?case by (cases k) (auto simp: e case_prod_unfold Let_def refl)
qed

end

interpretation calm: hub_delivers calm
  by unfold_locales (auto intro: calm_trans emit_calm retire_calm simp: calm_def [of _ "_\<lparr>store := _\<rparr>"] calm_def [of _ "move_cursor _ _ _"])

definition same_frame :: "hub \<Rightarrow> hub \<Rightarrow> bool" where
  "same_frame h h' \<longleftrightarrow> authority h' = authority h \<and> batch h' = batch h \<and> dispatchDepth h' = dispatchDepth h"

interpretation frame: hub_delivers same_frame
  by unfold_locales (auto simp: same_frame_def)

interpretation cursor: hub_sends "\<lambda>h h'. cursors h' = cursors h"
  by unfold_locales auto

lemma deliver_entries_all:
  "snd (deliver_entries c k es h) = None \<Longrightarrow>
   cursors (fst (deliver_entries c k es h)) c = (if es = [] then cursors h c else fst (last es))"
proof (induction es arbitrary: h)
  case (Cons e es)
  obtain seq bs where e: "e = (seq, bs)" by fastforce
  let ?s = "send_chunks c (\<lambda>i b. EntryFrame seq i (length (chunks_of bs)) b) 0 (chunks_of bs) h"
  have "snd (deliver_entries c k es (move_cursor c seq (fst ?s))) = None"
    and "deliver_entries c k (e # es) h = deliver_entries c k es (move_cursor c seq (fst ?s))"
    using Cons.prems by (auto simp: e case_prod_unfold Let_def split: if_splits)
  with Cons.IH [of "move_cursor c seq (fst ?s)"] show ?case by (simp add: e)
qed simp

lemma max_position_ge: "x \<in> set t \<Longrightarrow> fst (fst x) \<le> max_position t"
proof -
  have "m \<le> fold (\<lambda>((s, i), b) m. max s m) t m \<and>
      (\<forall>x\<in>set t. fst (fst x) \<le> fold (\<lambda>((s, i), b) m. max s m) t m)" for m and t :: "((nat \<times> nat) \<times> bytes) list"
  proof (induction t arbitrary: m)
    case (Cons x t)
    from Cons [of "max (fst (fst x)) m"] show ?case by (auto simp: case_prod_unfold)
  qed simp
  then show "x \<in> set t \<Longrightarrow> ?thesis" unfolding max_position_def by blast
qed

lemma log_since_below: "e \<in> set (log_since cursor limit d) \<Longrightarrow> fst e \<le> head d"
proof -
  assume "e \<in> set (log_since cursor limit d)"
  then obtain i b where "((fst e, i), b) \<in> set (log_table d)"
    by (auto simp: log_since_def Let_def tbl_select_def dest!: group_rows_positions split: if_splits)
  from max_position_ge [OF this] show ?thesis by (simp add: head_def)
qed

text \<open>
  The \<^verbatim>\<open>for (;;)\<close> of \<open>deliver\<close>. It ends: a pass that is not the last one moves the cursor up to
  an entry of the tables it read, and the tables can only have changed inside a callback.
\<close>

function deliver_loop :: "nat \<Rightarrow> nat option \<Rightarrow> hub \<Rightarrow> hub \<times> (authority_error, unit) result" where
  "deliver_loop c ceiling h =
     (let (h1, r) = ask (\<lambda>a. a_since a (cursors h c) (batch h)) h in
      case r of
        Inl e \<Rightarrow> (h1, Inl e)
      | Inr entries \<Rightarrow>
          if entries = [] then (h1, Inr ())
          else
            let (h2, returned) = deliver_entries c ceiling entries h1 in
            case returned of
              Some res \<Rightarrow> (h2, res)
            | None \<Rightarrow>
                if length entries < batch h then (h2, Inr ())
                else deliver_loop c ceiling h2)"
  by pat_completeness auto
termination
proof (relation "measures [\<lambda>(c, k, h). length (script h), \<lambda>(c, k, h). head (tables (store h)) - cursors h c]", goal_cases)
  case (2 c ceiling h x h1 r entries xb h2 returned)
  let ?q = "a_since (authority h) (cursors h c) (batch h) (store h)"
  have h1: "h1 = h\<lparr>store := (store h)\<lparr>faults := tl (faults (store h))\<rparr>\<rparr>" and q: "snd ?q = Inr entries"
    using 2(1-3) by (simp_all add: ask_def case_prod_unfold Let_def a_since_def reading_verb)
  then have es: "entries = log_since (cursors h c) (batch h) (tables (store h))"
    by (cases "admission_check (authority h) (tables (store h))"; cases "fault_now (store h)")
      (simp_all add: a_since_def reading_verb)
  have h2: "h2 = fst (deliver_entries c ceiling entries h1)" and all: "snd (deliver_entries c ceiling entries h1) = None"
    using 2(5,6,7) by (simp_all add: prod_eq_iff)
  have cur: "cursors h2 c = fst (last entries)" using deliver_entries_all [OF all] 2(4) h2 by simp
  have last: "cursors h c < fst (last entries)" "fst (last entries) \<le> head (tables (store h))"
    using log_since_above [of "last entries"] log_since_below [of "last entries"] last_in_set [OF 2(4)]
    unfolding es [symmetric] by (metis es)+
  have "calm h h2" using calm.deliver_entries [of h1 c ceiling entries] h2 h1 by (simp add: calm_def)
  then show ?case using cur last by (auto simp: calm_def)
qed simp

declare deliver_loop.simps [simp del]

definition deliver :: "nat \<Rightarrow> nat option \<Rightarrow> hub \<Rightarrow> hub \<times> (authority_error, unit) result" where
  "deliver c ceiling h =
     (let (h1, admitted) = admission h in
      if is_err admitted then (h1, admitted)
      else
        let (h2, caughtUp) = catchUpToSnapshot c h1 in
        if is_err caughtUp then (h2, caughtUp) else deliver_loop c ceiling h2)"

section \<open>Processing a message\<close>

definition askForSnapshot :: "nat \<Rightarrow> hub \<Rightarrow> hub" where
  "askForSnapshot c h =
     (let (h1, wanted) = ask a_shouldSnapshot h in
      if wanted \<noteq> Inr True then h1
      else
        let (h2, hd) = ask a_head h1 in
        case hd of
          Inl _ \<Rightarrow> h2
        | Inr p \<Rightarrow>
            if p = 0 then h2
            else if cursors h2 c \<noteq> p then h2
            else fst (send c (encodeFrame (WantedFrame p)) h2))"

definition takeOffer :: "nat \<Rightarrow> collector \<Rightarrow> frame \<Rightarrow> nat \<Rightarrow> hub \<Rightarrow> hub" where
  "takeOffer c k frame position h =
     (let (k', r) = accept k frame; h1 = set_collector c k' h in
      case r of
        Inl _ \<Rightarrow> h1
      | Inr None \<Rightarrow> h1
      | Inr (Some whole) \<Rightarrow>
          if cursors h1 c < position then h1
          else fst (ask (\<lambda>a. a_replaceSnapshot a position whole) h1))"

text \<open>
  The loop over the other connections. It walks the live map, so one that leaves before its
  turn is not reached.
\<close>

fun relay :: "nat list \<Rightarrow> hub \<Rightarrow> hub" where
  "relay [] h = h"
| "relay (other # rest) h =
     (case lifetime h of
        None \<Rightarrow> relay rest (fst (deliver other None h))
      | Some l \<Rightarrow>
          if map_of (connections l) other = None then relay rest h
          else relay rest (fst (deliver other None h)))"

definition process_push :: "nat \<Rightarrow> collector \<Rightarrow> frame \<Rightarrow> nat \<Rightarrow> hub \<Rightarrow> hub" where
  "process_push c k frame submission h =
     (let (k', r) = accept k frame; h1 = set_collector c k' h in
      case r of
        Inl e \<Rightarrow> refuse c submission (reason e) h1
      | Inr None \<Rightarrow> h1
      | Inr (Some whole) \<Rightarrow>
          let (h2, appended) = ask (\<lambda>a. a_append a whole) h1 in
          case appended of
            Inl e \<Rightarrow> refuse c submission (error_message e) h2
          | Inr seq \<Rightarrow>
              let (h3, delivered) = deliver c (Some (seq - 1)) h2 in
              case delivered of
                Inl e \<Rightarrow> refuse c submission (error_message e) h3
              | Inr _ \<Rightarrow>
                  let h4 = move_cursor c seq h3;
                      h5 = fst (send c (encodeFrame (AckFrame submission seq)) h4);
                      others = (case lifetime h5 of None \<Rightarrow> []
                                | Some l \<Rightarrow> filter (\<lambda>x. x \<noteq> c) (map fst (connections l)))
                  in askForSnapshot c (relay others h5))"

definition process :: "nat \<Rightarrow> bytes \<Rightarrow> hub \<Rightarrow> hub" where
  "process c m h =
     (case collector_of c h of
        None \<Rightarrow> h
      | Some k \<Rightarrow>
          (case decodeFrame m of
             Inl _ \<Rightarrow> h
           | Inr frame \<Rightarrow>
               let (h1, admitted) = admission h in
               case admitted of
                 Inl e \<Rightarrow>
                   (case frame of
                      PushFrame submission _ _ _ \<Rightarrow> refuse c submission (error_message e) h1
                    | _ \<Rightarrow> h1)
               | Inr _ \<Rightarrow>
                   (case frame of
                      OfferFrame position _ _ _ \<Rightarrow> takeOffer c k frame position h1
                    | PushFrame submission _ _ _ \<Rightarrow> process_push c k frame submission h1
                    | _ \<Rightarrow> h1)))"

text \<open>The layers above delivery.\<close>

context hub_delivers
begin

lemma deliver_loop: "R h (fst (deliver_loop c k h))"
proof (induction c k h rule: deliver_loop.induct)
  case (1 c k h)
  let ?a = "ask (\<lambda>a. a_since a (cursors h c) (batch h)) h"
  have ask: "R h (fst ?a)" by (rule asks) (simp add: a_since_def reading_verb)
  show ?case
  proof (cases "snd ?a")
    case (Inl e)
    with ask show ?thesis by (subst deliver_loop.simps) (simp add: case_prod_unfold Let_def del: ask_frame)
  next
    case (Inr es)
    let ?d = "Hub.deliver_entries c k es (fst ?a)"
    have d: "R h (fst ?d)" by (rule trans [OF ask deliver_entries])
    have "R (fst ?d) (fst (Hub.deliver_loop c k (fst ?d)))"
      if "es \<noteq> []" "snd ?d = None" "\<not> length es < batch h"
      using that Inr by (intro "1" [OF HOL.refl prod.collapse _ _ HOL.refl prod.collapse]) auto
    with Inr ask d show ?thesis
      by (subst deliver_loop.simps)
        (auto simp: case_prod_unfold Let_def simp del: ask_frame intro: trans split: option.split)
  qed
qed

lemma deliver: "R h (fst (deliver c k h))"
proof -
  have a: "R h (fst (Hub.admission h))" by (rule admission)
  have b: "R h (fst (Hub.catchUpToSnapshot c (fst (Hub.admission h))))" by (rule trans [OF a catchUpToSnapshot])
  have "R h (fst (Hub.deliver_loop c k (fst (Hub.catchUpToSnapshot c (fst (Hub.admission h))))))"
    by (rule trans [OF b deliver_loop])
  with a b show ?thesis by (simp add: deliver_def case_prod_unfold Let_def)
qed

lemma relay: "R h (relay cs h)"
  by (induction cs arbitrary: h) (auto intro: refl deliver trans split: option.split)

lemma askForSnapshot: "R h (askForSnapshot c h)"
proof -
  let ?h1 = "fst (ask a_shouldSnapshot h)" and ?h2 = "fst (ask a_head (fst (ask a_shouldSnapshot h)))"
  have h1: "R h ?h1" by (rule asks) (simp add: a_shouldSnapshot_def reading_verb)
  have h2: "R h ?h2" by (rule trans [OF h1], rule asks) (simp add: a_head_def reading_verb)
  have "R h (fst (Hub.send c bs ?h2))" for bs by (rule trans [OF h2 send])
  with h1 h2 show ?thesis
    by (auto simp: askForSnapshot_def case_prod_unfold Let_def simp del: ask_frame split: sum.split)
qed

end

locale hub_processes = hub_delivers +
  assumes collects: "R h (set_collector c k h)"
    and appends: "R h (h\<lparr>store := fst (a_append (authority h) bs (store h))\<rparr>)"
    and folds: "R h (h\<lparr>store := fst (a_replaceSnapshot (authority h) p bs (store h))\<rparr>)"
begin

lemma refuse: "R h (refuse c submission why h)"
  by (auto simp: refuse_def refl intro: trans [OF collects emits] split: option.split)

lemma takeOffer: "R h (takeOffer c k frame p h)"
proof -
  have f: "R h (fst (ask (\<lambda>a. a_replaceSnapshot a p w) (set_collector c k' h)))" for k' w
    using trans [OF collects folds] by (simp add: ask_def case_prod_unfold Let_def)
  show ?thesis
    by (auto simp: takeOffer_def case_prod_unfold Let_def collects f simp del: ask_frame
        split: sum.split option.split)
qed

lemma process_push: "R h (process_push c k frame submission h)"
proof -
  have app: "R h (fst (ask (\<lambda>a. a_append a w) (set_collector c k' h)))" for k' w
    using trans [OF collects appends] by (simp add: ask_def case_prod_unfold Let_def)
  have del: "R h (fst (Hub.deliver c u (fst (ask (\<lambda>a. a_append a w) (set_collector c k' h)))))" for k' w u
    by (rule trans [OF app deliver])
  have ack: "R h (Hub.askForSnapshot c (Hub.relay os (fst (Hub.send c b (move_cursor c q h')))))"
    if "R h h'" for os b q h'
    by (rule trans [OF trans [OF trans [OF trans [OF that moves] send] relay] askForSnapshot])
  note ack0 = ack [where os = "[]", simplified]
  show ?thesis
    by (auto simp: process_push_def case_prod_unfold Let_def simp del: ask_frame
        intro: collects trans [OF collects refuse] trans [OF app refuse] trans [OF del refuse] ack ack0 del
        split: sum.split option.split)
qed

lemma process: "R h (process c m h)"
proof -
  let ?h = "fst (Hub.admission h)"
  have a: "R h ?h" by (rule admission)
  have "R h (Hub.refuse c s w ?h)" "R h (Hub.takeOffer c k f p ?h)" "R h (Hub.process_push c k f s ?h)"
    for s w k f p
    by (rule trans [OF a refuse], rule trans [OF a takeOffer], rule trans [OF a process_push])
  with a refl [of h] show ?thesis
    by (auto simp: process_def case_prod_unfold Let_def split: sum.split option.split frame.split)
qed

end

section \<open>The queue\<close>

text \<open>Messages waiting, and those the callbacks to come may still queue.\<close>

definition work :: "hub \<Rightarrow> nat" where
  "work h = (case lifetime h of None \<Rightarrow> 0 | Some l \<Rightarrow> length (pending l)) + sum_list (map length (script h))"

lemma work_notify: "sum_list (map length (script (fold notifyRetired cs h))) \<le> sum_list (map length (script h))"
proof (induction cs arbitrary: h)
  case (Cons c cs)
  from Cons [of "notifyRetired c h"] show ?case by (cases "script h") auto
qed simp

lemma work_retire: "work (retire h) \<le> work h"
  using work_notify [of _ "h\<lparr>lifetime := None\<rparr>"] by (auto simp: work_def retire_def trans_le_add2 split: option.split)

lemma work_react: "work (react rs h) \<le> work h + length rs"
proof (induction rs h rule: react.induct)
  case (2 c m rs h)
  have "work (enqueue c m h) \<le> work h + 1" by (simp add: work_def enqueue_def split: option.split)
  with 2 show ?case by simp
next
  case (3 c rs h)
  have "work (leave c h) = work h" by (simp add: work_def leave_def split: option.split)
  with 3 show ?case by simp
next
  case (4 rs h)
  with work_retire [of h] show ?case by simp
next
  case (5 q rs h)
  have "work (activate_store q h) = work h" by (simp add: work_def activate_store_def)
  with 5 show ?case by simp
qed simp

lemma work_emit: "work (emit c bs h) \<le> work h"
proof (cases "script h")
  case Nil
  then show ?thesis by (simp add: emit_silent work_def)
next
  case (Cons rs sc)
  from work_react [of rs "put_wire c bs h"] Cons show ?thesis
    by (simp add: emit_def put_wire_def work_def split: option.splits)
qed

interpretation work: hub_processes "\<lambda>h h'. work h' \<le> work h"
proof unfold_locales
  fix h c k p bs
  show "work (retire h) \<le> work h" "work (emit c bs h) \<le> work h" by (rule work_retire, rule work_emit)
qed (auto simp: work_def set_collector_def split: option.split)

function drain_loop :: "hub \<Rightarrow> hub" where
  "drain_loop h =
     (case lifetime h of
        None \<Rightarrow> h
      | Some l \<Rightarrow>
          (case pending l of
             [] \<Rightarrow> h
           | (c, m) # rest \<Rightarrow>
               drain_loop (process c m (h\<lparr>lifetime := Some (l\<lparr>pending := rest\<rparr>)\<rparr>))))"
  by pat_completeness auto
termination
proof (relation "measure work", goal_cases)
  case (2 h l x rest c m)
  then show ?case
    using work.process [of c m "h\<lparr>lifetime := Some (l\<lparr>pending := rest\<rparr>)\<rparr>"] by (simp add: work_def)
qed simp

declare drain_loop.simps [simp del]

definition drain :: "hub \<Rightarrow> hub" where
  "drain h =
     (if dispatchDepth h \<noteq> 0 then h
      else let h' = drain_loop (h\<lparr>dispatchDepth := dispatchDepth h + 1\<rparr>) in
           h'\<lparr>dispatchDepth := dispatchDepth h' - 1\<rparr>)"

section \<open>The doors\<close>

definition receive :: "nat \<Rightarrow> bytes \<Rightarrow> hub \<Rightarrow> hub" where
  "receive c m h = drain (enqueue c m h)"

definition join :: "nat \<Rightarrow> hub \<Rightarrow> hub \<times> admission" where
  "join c h =
     (let (h1, admitted) = admission h in
      if is_err admitted then
        (if lifetime h1 = None then (notifyRetired c h1, Retired) else (h1, Unavailable))
      else
        let h2 = set_collector c (createChunkCollector BUFFER_CEILING_BYTES)
                   (h1\<lparr>dispatchDepth := dispatchDepth h1 + 1\<rparr>);
            (h3, greeted) = send c (encodeFrame AdmittedFrame) h2;
            (h4, caughtUp) = (if is_err greeted then (h3, False)
                              else let (h, r) = deliver c None h3 in (h, \<not> is_err r));
            h5 = (if caughtUp then h4 else leave c h4);
            h6 = drain (h5\<lparr>dispatchDepth := dispatchDepth h5 - 1\<rparr>) in
        (h6, if lifetime h6 = None then Retired else if caughtUp then Admitted else Unavailable))"

section \<open>The stream of one connection\<close>

text \<open>
  What a replica that reads in order can follow. A point is a position and the chunk expected
  next. An entry or an acknowledgement must be the very next position, a snapshot must lie
  ahead, and the chunks of one payload come in order with nothing between them.
\<close>

fun follow :: "nat \<times> nat \<Rightarrow> frame \<Rightarrow> (nat \<times> nat) option" where
  "follow (p, i) (EntryFrame seq j n b) =
     (if seq = p + 1 \<and> j = i \<and> j < n then Some (if j + 1 = n then (seq, 0) else (p, j + 1)) else None)"
| "follow (p, i) (SnapshotFrame q j n b) =
     (if q > p \<and> j = i \<and> j < n then Some (if j + 1 = n then (q, 0) else (p, j + 1)) else None)"
| "follow (p, i) (AckFrame submission seq) = (if seq = p + 1 \<and> i = 0 then Some (seq, 0) else None)"
| "follow (p, i) RetiredFrame = Some (p, i)"
| "follow (p, i) _ = (if i = 0 then Some (p, i) else None)"

fun follow_all :: "nat \<times> nat \<Rightarrow> frame list \<Rightarrow> (nat \<times> nat) option" where
  "follow_all q [] = Some q"
| "follow_all q (f # fs) = (case follow q f of None \<Rightarrow> None | Some q' \<Rightarrow> follow_all q' fs)"

definition bytes_to :: "nat \<Rightarrow> (nat \<times> bytes) list \<Rightarrow> bytes list" where
  "bytes_to c w = map snd (filter (\<lambda>x. fst x = c) w)"

definition stream :: "(nat \<Rightarrow> nat) \<Rightarrow> (nat \<times> bytes) list \<Rightarrow> nat \<Rightarrow> nat \<times> nat \<Rightarrow> bool" where
  "stream init w c q \<longleftrightarrow>
     (\<exists>fs. bytes_to c w = map encodeFrame fs \<and> follow_all (init c, 0) fs = Some q)"

lemma follow_all_append:
  "follow_all q (fs @ gs) = (case follow_all q fs of None \<Rightarrow> None | Some q' \<Rightarrow> follow_all q' gs)"
  by (induction fs arbitrary: q) (auto split: option.split)

lemma stream_start [simp]: "stream init [] c (init c, 0)"
  by (auto simp: stream_def bytes_to_def intro: exI [of _ "[]"])

lemma stream_snoc:
  assumes "stream init w c q" and "follow q f = Some q'"
  shows "stream init (w @ [(c, encodeFrame f)]) c q'"
proof -
  from assms(1) obtain fs where fs: "bytes_to c w = map encodeFrame fs" "follow_all (init c, 0) fs = Some q"
    by (auto simp: stream_def)
  then show ?thesis using assms(2)
    by (auto simp: stream_def bytes_to_def follow_all_append intro!: exI [of _ "fs @ [f]"])
qed

lemma stream_other: "x \<noteq> c \<Longrightarrow> stream init (w @ [(c, bs)]) x q = stream init w x q"
  by (simp add: stream_def bytes_to_def)

lemma stream_retired:
  "stream init w x q \<Longrightarrow> stream init (w @ map (\<lambda>c. (c, encodeFrame RetiredFrame)) cs) x q"
proof (induction cs arbitrary: w)
  case (Cons c cs)
  have "stream init (w @ [(c, encodeFrame RetiredFrame)]) x q"
  proof (cases "x = c")
    case True
    have "follow q RetiredFrame = Some q" by (cases q) simp
    with Cons.prems True show ?thesis by (simp add: stream_snoc del: encodeFrame.simps)
  qed (use Cons.prems in \<open>simp add: stream_other\<close>)
  from Cons.IH [OF this] show ?case by simp
qed simp

lemma retire_wire: "\<exists>cs. wire (retire h) = wire h @ map (\<lambda>c. (c, encodeFrame RetiredFrame)) cs"
  by (cases "lifetime h")
    (auto simp: retire_def intro: exI [of _ "[]"] exI [of _ "map fst xs" for xs] simp del: encodeFrame.simps map_map)

lemma react_wire: "\<exists>cs. wire (react rs h) = wire h @ map (\<lambda>c. (c, encodeFrame RetiredFrame)) cs"
proof (induction rs h rule: react.induct)
  case (1 h)
  show ?case by (auto intro: exI [of _ "[]"])
next
  case (4 rs h)
  from retire_wire [of h] obtain cs where "wire (retire h) = wire h @ map (\<lambda>c. (c, encodeFrame RetiredFrame)) cs" by blast
  moreover from 4 obtain ds where
    "wire (react rs (retire h)) = wire (retire h) @ map (\<lambda>c. (c, encodeFrame RetiredFrame)) ds" by blast
  ultimately show ?case by (intro exI [of _ "cs @ ds"]) simp
qed (simp_all add: enqueue_def leave_def activate_store_def)

lemma emit_wire:
  obtains cs where "wire (emit c bs h) = (wire h @ [(c, bs)]) @ map (\<lambda>c. (c, encodeFrame RetiredFrame)) cs"
  using react_wire [of "if script h = [] then [] else hd (script h)" "put_wire c bs h"]
  by (auto simp: emit_def put_wire_def)

text \<open>
  The part of the invariant every action keeps: the hub is bound to generation \<open>g\<close>, its
  storage is well formed and does not fail, and its members are among \<open>J\<close>, those that joined within the
  log, and \<open>B\<close>, those that ever joined beyond its head, of which nothing is claimed.
\<close>

definition members :: "hub \<Rightarrow> nat set" where
  "members h = (case lifetime h of None \<Rightarrow> {} | Some l \<Rightarrow> fst ` set (connections l))"

definition core :: "nat \<Rightarrow> nat set \<Rightarrow> nat set \<Rightarrow> hub \<Rightarrow> bool" where
  "core g J B h \<longleftrightarrow> bound_to (authority h) = Some g \<and> faults (store h) = [] \<and> authority_inv (tables (store h))
     \<and> g \<le> generation_of (tables (store h)) \<and> 0 < batch h \<and> members h \<subseteq> J \<union> B"

definition gone :: "nat \<Rightarrow> hub \<Rightarrow> bool" where
  "gone g h \<longleftrightarrow> g < generation_of (tables (store h))"

text \<open>The storage changes only by a switch of the generation, unless something is appended or folded.\<close>

definition kept_or_switched :: "hub \<Rightarrow> hub \<Rightarrow> bool" where
  "kept_or_switched h h' \<longleftrightarrow> tables (store h') = tables (store h)
     \<or> generation_of (tables (store h)) < generation_of (tables (store h'))"

lemma kept_refl [simp]: "kept_or_switched h h"
  by (simp add: kept_or_switched_def)

lemma kept_trans: "kept_or_switched a b \<Longrightarrow> kept_or_switched b c \<Longrightarrow> kept_or_switched a c"
  by (auto simp: kept_or_switched_def)

lemma activate_kept: "kept_or_switched h (activate_store q h)"
  by (rule activate_cases [of q "store h"])
    (auto simp: kept_or_switched_def activate_store_def generation_of_def switched_db_def)

lemma react_retired_kept: "kept_or_switched h (react_retired rs h)"
  by (induction rs h rule: react_retired.induct) (auto intro: kept_trans activate_kept)

lemma put_wire_kept [simp]: "kept_or_switched h (put_wire c bs h)"
  by (simp add: kept_or_switched_def put_wire_def)

lemma notifyRetired_kept: "kept_or_switched h (notifyRetired c h)"
  unfolding notifyRetired_def by (rule kept_trans [OF put_wire_kept react_retired_kept])

lemma retire_kept: "kept_or_switched h (retire h)"
proof -
  have "kept_or_switched h' (fold notifyRetired cs h')" for cs h'
    by (induction cs arbitrary: h') (auto intro: kept_trans notifyRetired_kept)
  from this [of "h\<lparr>lifetime := None\<rparr>"] show ?thesis
    by (auto simp: retire_def kept_or_switched_def split: option.split)
qed

lemma react_kept: "kept_or_switched h (react rs h)"
proof (induction rs h rule: react.induct)
  case (2 c m rs h)
  then show ?case by (auto simp: kept_or_switched_def enqueue_def)
next
  case (3 c rs h)
  then show ?case by (auto simp: kept_or_switched_def leave_def)
qed (auto intro: kept_trans activate_kept retire_kept)

lemma emit_kept: "kept_or_switched h (emit c bs h)"
  unfolding emit_def by (rule kept_trans [OF put_wire_kept react_kept])

interpretation kept: hub_delivers kept_or_switched
  by unfold_locales (auto intro: kept_trans retire_kept emit_kept simp: kept_or_switched_def [of _ "_\<lparr>store := _\<rparr>"]
      kept_or_switched_def [of _ "move_cursor _ _ _"])

text \<open>The storage part of the core, by what the storage does.\<close>

lemma core_store:
  assumes "core g J B h" and "authority h' = authority h" "batch h' = batch h" "members h' \<subseteq> members h"
    and "authority_step (store h) (store h')" "faults (store h') = []"
  shows "core g J B h'"
  using assms authority_step_inv [OF assms(5)] authority_step_advances [OF assms(5)]
  by (auto simp: core_def advances_def)

lemma transaction_faults: "faults (fst (transaction s f)) = tl (faults s)"
  by (rule transaction_cases [of s f]) auto

lemma run_faults: "faults (fst (run a s f)) = tl (faults s)"
  by (auto simp: run_cases Let_def split: sum.split)

lemma core_activate: "core g J B h \<Longrightarrow> core g J B (activate_store q h)"
  by (rule core_store [where h' = "activate_store q h"])
    (auto simp: activate_store_def members_def core_def activate_def transaction_faults
      intro: authority_step.activate_step [of _ q, unfolded activate_def])

lemma core_react_retired: "core g J B h \<Longrightarrow> core g J B (react_retired rs h)"
  by (induction rs h rule: react_retired.induct) (auto simp: core_activate)

lemma core_put_wire [simp]: "core g J B (put_wire c bs h) = core g J B h"
  by (simp add: core_def put_wire_def members_def)

lemma core_notifyRetired: "core g J B h \<Longrightarrow> core g J B (notifyRetired c h)"
  by (simp add: notifyRetired_def core_react_retired)

lemma core_retire: "core g J B h \<Longrightarrow> core g J B (retire h)"
proof -
  have "core g J B h' \<Longrightarrow> core g J B (fold notifyRetired cs h')" for cs h'
    by (induction cs arbitrary: h') (auto simp: core_notifyRetired)
  from this [of "h\<lparr>lifetime := None\<rparr>"] show "core g J B h \<Longrightarrow> ?thesis"
    by (auto simp: retire_def core_def members_def split: option.split)
qed

lemma core_members: "core g J B h \<Longrightarrow> store h' = store h \<Longrightarrow> authority h' = authority h \<Longrightarrow> batch h' = batch h \<Longrightarrow>
    members h' \<subseteq> J \<union> B \<Longrightarrow> core g J B h'"
  by (simp add: core_def)

lemma members_enqueue [simp]: "members (enqueue c m h) = members h"
  by (simp add: members_def enqueue_def split: option.split)

lemma members_leave: "members (leave c h) \<subseteq> members h"
  by (auto simp: members_def leave_def AList.delete_eq split: option.split)

lemma enqueue_frame [simp]:
  "store (enqueue c m h) = store h" "authority (enqueue c m h) = authority h" "batch (enqueue c m h) = batch h"
  "cursors (enqueue c m h) = cursors h" "wire (enqueue c m h) = wire h" "dispatchDepth (enqueue c m h) = dispatchDepth h"
  by (simp_all add: enqueue_def)

lemma leave_frame [simp]:
  "store (leave c h) = store h" "authority (leave c h) = authority h" "batch (leave c h) = batch h"
  "cursors (leave c h) = cursors h" "wire (leave c h) = wire h" "dispatchDepth (leave c h) = dispatchDepth h"
  by (simp_all add: leave_def)

lemma core_react: "core g J B h \<Longrightarrow> core g J B (react rs h)"
proof (induction rs h rule: react.induct)
  case (2 c m rs h)
  have "core g J B (enqueue c m h)" by (rule core_members [OF 2(2)]) (use 2(2) in \<open>simp_all add: core_def\<close>)
  with 2 show ?case by simp
next
  case (3 c rs h)
  have "core g J B (leave c h)"
    using members_leave [of c h] by (intro core_members [OF 3(2)]) (use 3(2) in \<open>auto simp: core_def\<close>)
  with 3 show ?case by simp
qed (auto simp: core_activate core_retire)

lemma core_emit: "core g J B h \<Longrightarrow> core g J B (emit c bs h)"
  by (simp add: emit_def core_react)

interpretation core: hub_delivers "\<lambda>h h'. core g J B h \<longrightarrow> core g J B h'"
  by (unfold_locales, auto simp: core_retire core_emit) (auto simp: core_def members_def)

section \<open>A live hub and a retired one\<close>

text \<open>
  \<open>alive\<close>: the storage is at generation \<open>g\<close> with tables \<open>d\<close>, and what each connection \<open>x\<close> was
  sent brings it to the point \<open>s x\<close>, unless it is in \<open>B\<close>. \<open>ended\<close>: the generation was replaced and the hub knows it.
\<close>

definition followable :: "nat set \<Rightarrow> (nat \<Rightarrow> nat) \<Rightarrow> (nat \<times> bytes) list \<Rightarrow> bool" where
  "followable B init w \<longleftrightarrow> (\<forall>x. x \<notin> B \<longrightarrow> (\<exists>q. stream init w x q))"

lemma followable_retired: "followable B init w \<Longrightarrow> followable B init (w @ map (\<lambda>c. (c, encodeFrame RetiredFrame)) cs)"
  unfolding followable_def using stream_retired by blast

lemma followable_retire: "followable B init (wire h) \<Longrightarrow> followable B init (wire (retire h))"
  using retire_wire [of h] followable_retired by metis

definition alive :: "nat \<Rightarrow> nat set \<Rightarrow> nat set \<Rightarrow> (nat \<Rightarrow> nat) \<Rightarrow> hub \<Rightarrow> (nat \<Rightarrow> nat \<times> nat) \<Rightarrow> db \<Rightarrow> bool" where
  "alive g J B init h s d \<longleftrightarrow> core g J B h \<and> tables (store h) = d \<and> current_generation d = Some g
     \<and> lifetime h \<noteq> None \<and> (\<forall>x. x \<notin> B \<longrightarrow> stream init (wire h) x (s x))"

definition zombie :: "nat \<Rightarrow> nat set \<Rightarrow> nat set \<Rightarrow> (nat \<Rightarrow> nat) \<Rightarrow> hub \<Rightarrow> bool" where
  "zombie g J B init h \<longleftrightarrow> core g J B h \<and> (gone g h \<or> lifetime h = None) \<and> followable B init (wire h)"

definition ended :: "nat \<Rightarrow> nat set \<Rightarrow> nat set \<Rightarrow> (nat \<Rightarrow> nat) \<Rightarrow> hub \<Rightarrow> bool" where
  "ended g J B init h \<longleftrightarrow> core g J B h \<and> lifetime h = None \<and> followable B init (wire h)"

lemma ended_zombie: "ended g J B init h \<Longrightarrow> zombie g J B init h"
  by (simp add: ended_def zombie_def)

lemma admission_alive:
  assumes "alive g J B init h s d"
  shows "admission h = (h, Inr ())"
proof -
  have "a_admission (authority h) (store h) = ((store h)\<lparr>faults := []\<rparr>, Inr ())"
    using assms by (simp add: alive_def core_def a_admission_def reading_verb admission_check_def fault_now_def)
  moreover have "(store h)\<lparr>faults := []\<rparr> = store h" using assms by (simp add: alive_def core_def)
  ultimately show ?thesis using assms
    by (auto simp: admission_def ask_def alive_def core_def Let_def)
qed

lemma admission_zombie:
  assumes "zombie g J B init h"
  shows "is_err (snd (admission h)) \<and> ended g J B init (fst (admission h))"
proof (cases "lifetime h")
  case None
  with assms show ?thesis by (simp add: admission_def ended_def zombie_def)
next
  case (Some l)
  with assms obtain cur where cur: "current_generation (tables (store h)) = Some cur" "g < cur"
    by (auto simp: zombie_def gone_def generation_of_def split: option.splits)
  have same: "(store h)\<lparr>faults := []\<rparr> = store h" using assms by (simp add: zombie_def core_def)
  have "a_admission (authority h) (store h) = (store h, Inl (GenerationUnavailable g (Some cur)))"
    using assms cur same
    by (simp add: zombie_def core_def a_admission_def reading_verb admission_check_def fault_now_def)
  then have adm: "admission h = (retire h, Inl (GenerationUnavailable g (Some cur)))"
    using Some cur(2) by (simp add: admission_def ask_def)
  from assms have "followable B init (wire (retire h))" by (simp add: zombie_def followable_retire)
  with assms adm show ?thesis by (auto simp: ended_def zombie_def core_retire)
qed

text \<open>The hub is told of a switch only by an admission check, or by being retired.\<close>

lemma alive_or_zombie:
  assumes "core g J B h" and "\<forall>x. x \<notin> B \<longrightarrow> stream init (wire h) x (s x)"
    and "tables (store h) = d \<or> gone g h" and "current_generation d = Some g"
  shows "alive g J B init h s d \<or> zombie g J B init h"
proof -
  have "followable B init (wire h)" using assms(2) unfolding followable_def by blast
  with assms show ?thesis by (auto simp: alive_def zombie_def)
qed

lemma emit_alive:
  assumes "alive g J B init h s d" and "c \<notin> B \<Longrightarrow> follow (s c) f = Some q"
  shows "alive g J B init (emit c (encodeFrame f) h) (s(c := q)) d \<or> zombie g J B init (emit c (encodeFrame f) h)"
proof (rule alive_or_zombie)
  show "core g J B (emit c (encodeFrame f) h)" using assms by (simp add: alive_def core_emit)
  show "current_generation d = Some g" using assms by (simp add: alive_def)
  show "tables (store (emit c (encodeFrame f) h)) = d \<or> gone g (emit c (encodeFrame f) h)"
    using emit_kept [of h c "encodeFrame f"] assms
    by (auto simp: kept_or_switched_def alive_def gone_def generation_of_def)
  obtain cs where w: "wire (emit c (encodeFrame f) h)
      = (wire h @ [(c, encodeFrame f)]) @ map (\<lambda>c. (c, encodeFrame RetiredFrame)) cs" by (rule emit_wire)
  show "\<forall>x. x \<notin> B \<longrightarrow> stream init (wire (emit c (encodeFrame f) h)) x ((s(c := q)) x)"
  proof (intro allI impI)
    fix x assume x: "x \<notin> B"
    then have "stream init (wire h) x (s x)" using assms(1) by (simp add: alive_def)
    then have "stream init (wire h @ [(c, encodeFrame f)]) x ((s(c := q)) x)"
      using stream_snoc assms(2) x by (cases "x = c") (auto simp: stream_other)
    then show "stream init (wire (emit c (encodeFrame f) h)) x ((s(c := q)) x)"
      unfolding w by (rule stream_retired)
  qed
qed

lemma send_alive:
  assumes "alive g J B init h s d" and "c \<notin> B \<Longrightarrow> follow (s c) f = Some q"
  obtains (sent) "snd (send c (encodeFrame f) h) = Inr ()"
      "alive g J B init (fst (send c (encodeFrame f) h)) (s(c := q)) d"
  | (lost) "is_err (snd (send c (encodeFrame f) h))" "ended g J B init (fst (send c (encodeFrame f) h))"
  using emit_alive [OF assms]
proof
  assume a: "alive g J B init (emit c (encodeFrame f) h) (s(c := q)) d"
  show thesis using admission_alive [OF assms(1)] admission_alive [OF a] a
    by (intro sent) (simp_all add: send_def)
next
  assume z: "zombie g J B init (emit c (encodeFrame f) h)"
  show thesis using admission_alive [OF assms(1)] admission_zombie [OF z]
    by (intro lost) (simp_all add: send_def)
qed

lemma send_chunks_alive:
  assumes "alive g J B init h s d" and "s c = (p, i)" and "cs \<noteq> []" and "i + length cs = n"
    and "\<And>i b. i < n \<Longrightarrow> follow (p, i) (mk i b) = Some (if i + 1 = n then (t, 0) else (p, i + 1))"
  obtains (sent) "snd (send_chunks c mk i cs h) = Inr ()"
      "alive g J B init (fst (send_chunks c mk i cs h)) (s(c := (t, 0))) d"
  | (lost) "is_err (snd (send_chunks c mk i cs h))" "ended g J B init (fst (send_chunks c mk i cs h))"
  using assms(1-4)
proof (induction cs arbitrary: i h s thesis)
  case (Cons b cs)
  let ?q = "if i + 1 = n then (t, 0) else (p, i + 1)"
  let ?s = "send c (encodeFrame (mk i b)) h"
  have f: "follow (s c) (mk i b) = Some ?q" using assms(5) [of i b] Cons.prems by simp
  from Cons.prems(3) f show ?case
  proof (cases rule: send_alive)
    case lost
    then show ?thesis by (intro Cons.prems(2)) (simp_all add: case_prod_unfold Let_def)
  next
    case sent
    have step: "send_chunks c mk i (b # cs) h = send_chunks c mk (i + 1) cs (fst ?s)"
      using sent(1) by (simp add: case_prod_unfold Let_def)
    show ?thesis
    proof (cases "cs = []")
      case True
      then have q: "?q = (t, 0)" using Cons.prems(6) by simp
      show ?thesis by (rule Cons.prems(1)) (use True sent(1) sent(2) [unfolded q] step in \<open>simp_all del: fun_upd_apply\<close>)
    next
      case False
      then have "?q = (p, i + 1)" using Cons.prems by auto
      then have at: "(s(c := ?q)) c = (p, i + 1)" by simp
      show ?thesis
        by (rule Cons.IH [OF _ _ sent(2) at False])
          (use Cons.prems step in \<open>simp_all del: fun_upd_apply add: fun_upd_upd\<close>)
    qed
  qed
qed simp

text \<open>The rows a live hub reads.\<close>

lemma since_alive:
  assumes "alive g J B init h s d"
  shows "ask (\<lambda>a. a_since a p n) h = (h, Inr (log_since p n d))"
    and "ask a_snapshot h = (h, Inr (log_snapshot d))"
    and "ask a_shouldSnapshot h = (h, Inr (log_shouldSnapshot (snapshotFloorBytes (authority h)) d))"
    and "ask a_head h = (h, Inr (head d))"
proof -
  have "(store h)\<lparr>faults := []\<rparr> = store h" "h\<lparr>store := store h\<rparr> = h" using assms by (simp_all add: alive_def core_def)
  then show "ask (\<lambda>a. a_since a p n) h = (h, Inr (log_since p n d))" "ask a_snapshot h = (h, Inr (log_snapshot d))"
    "ask a_shouldSnapshot h = (h, Inr (log_shouldSnapshot (snapshotFloorBytes (authority h)) d))"
    "ask a_head h = (h, Inr (head d))"
    using assms
    by (simp_all add: ask_def a_since_def a_snapshot_def a_shouldSnapshot_def a_head_def reading_verb
        alive_def core_def admission_check_def fault_now_def)
qed

lemma alive_move [simp]: "alive g J B init (move_cursor c p h) s d = alive g J B init h s d"
  by (simp add: alive_def core_def members_def)

lemma alive_inv: "alive g J B init h s d \<Longrightarrow> log_inv d \<and> snapshots d \<noteq> []"
  by (auto simp: alive_def core_def authority_inv_def)

lemma catchUp_alive:
  assumes a: "alive g J B init h s d" and sc: "s c = (cursors h c, 0)"
  obtains (caught) "snd (catchUpToSnapshot c h) = Inr ()"
      "alive g J B init (fst (catchUpToSnapshot c h)) (s(c := (max (cursors h c) (snapshotPosition d), 0))) d"
      "cursors (fst (catchUpToSnapshot c h)) = (cursors h)(c := max (cursors h c) (snapshotPosition d))"
  | (lost) "is_err (snd (catchUpToSnapshot c h))" "ended g J B init (fst (catchUpToSnapshot c h))"
proof -
  obtain bs where snap: "log_snapshot d = Some (snapshotPosition d, bs)"
    using alive_inv [OF a] log_snapshot_state [of d "snapshots d" "log_entries d"]
      log_state_positions(1) [of d "snapshots d" "log_entries d"]
    by (cases "last (snapshots d)") (auto simp: log_inv_def base_position_def)
  show thesis
  proof (cases "snapshotPosition d \<le> cursors h c")
    case True
    then show ?thesis using a sc
      by (intro caught) (simp_all add: catchUpToSnapshot_def since_alive [OF a] snap max_def fun_upd_idem)
  next
    case False
    let ?mk = "\<lambda>i b. SnapshotFrame (snapshotPosition d) i (length (chunks_of bs)) b"
    let ?r = "send_chunks c ?mk 0 (chunks_of bs) h"
    have eq: "catchUpToSnapshot c h = (if is_err (snd ?r) then ?r else (move_cursor c (snapshotPosition d) (fst ?r), Inr ()))"
      using False by (simp add: catchUpToSnapshot_def since_alive [OF a] snap Let_def case_prod_unfold)
    show ?thesis
    proof (rule send_chunks_alive [OF a sc, of "chunks_of bs" "length (chunks_of bs)" ?mk "snapshotPosition d"])
      assume "snd ?r = Inr ()" "alive g J B init (fst ?r) (s(c := (snapshotPosition d, 0))) d"
      with False eq cursor.send_chunks [of c ?mk 0 "chunks_of bs" h] show ?thesis
        by (intro caught) (simp_all add: max_def)
    next
      assume "is_err (snd ?r)" "ended g J B init (fst ?r)"
      with eq show ?thesis by (intro lost) simp_all
    qed (use False chunks_of_props in auto)
  qed
qed

text \<open>
  The entries of one batch, numbered from the cursor on, up to the ceiling \<open>m\<close>.
\<close>

definition within :: "nat option \<Rightarrow> nat \<Rightarrow> db \<Rightarrow> bool" where
  "within k m d \<longleftrightarrow> m \<le> head d \<and> (case k of None \<Rightarrow> m = head d | Some x \<Rightarrow> m = x)"

lemma deliver_entries_alive:
  assumes "alive g J B init h s d" and "s c = (cursors h c, 0)"
    and "map fst es = [cursors h c + 1..<cursors h c + 1 + length es]"
    and "cursors h c \<le> m" and "within k m d" and "cursors h c + length es \<le> head d"
  obtains (through) "snd (deliver_entries c k es h) = None" "cursors h c + length es \<le> m"
      "alive g J B init (fst (deliver_entries c k es h)) (s(c := (cursors h c + length es, 0))) d"
      "cursors (fst (deliver_entries c k es h)) = (cursors h)(c := cursors h c + length es)"
  | (ceiling) "snd (deliver_entries c k es h) = Some (Inr ())"
      "alive g J B init (fst (deliver_entries c k es h)) (s(c := (m, 0))) d"
      "cursors (fst (deliver_entries c k es h)) = (cursors h)(c := m)"
  | (lost) e where "snd (deliver_entries c k es h) = Some (Inl e)" "ended g J B init (fst (deliver_entries c k es h))"
  using assms
proof (induction es arbitrary: h s thesis)
  case Nil
  then show ?case by (intro Nil.prems(1)) (simp_all add: fun_upd_idem)
next
  case (Cons e es)
  obtain seq bs where e: "e = (seq, bs)" by fastforce
  have seq: "seq = cursors h c + 1" and num: "map fst es = [seq + 1..<seq + 1 + length es]"
    using Cons.prems(6) by (auto simp: e upt_conv_Cons simp del: upt_Suc)
  show ?case
  proof (cases "seq \<le> m")
    case False
    with Cons.prems(7,8,9) seq have "m = cursors h c" "k = Some m" by (auto simp: within_def split: option.splits)
    with False Cons.prems(4,5) show ?thesis
      by (intro Cons.prems(2)) (simp_all add: e fun_upd_idem)
  next
    case True
    have k: "\<not> (k \<noteq> None \<and> the k < seq)" using True Cons.prems(8) by (auto simp: within_def)
    let ?mk = "\<lambda>i b. EntryFrame seq i (length (chunks_of bs)) b"
    let ?r = "send_chunks c ?mk 0 (chunks_of bs) h" and ?h = "move_cursor c seq (fst (send_chunks c (\<lambda>i b. EntryFrame seq i (length (chunks_of bs)) b) 0 (chunks_of bs) h))"
    show ?thesis
    proof (rule send_chunks_alive [OF Cons.prems(4,5), of "chunks_of bs" "length (chunks_of bs)" ?mk seq])
      assume lost: "is_err (snd ?r)" "ended g J B init (fst ?r)"
      with k have "deliver_entries c k (e # es) h = (fst ?r, Some (snd ?r))"
        by (cases k) (simp_all add: e case_prod_unfold Let_def)
      with lost show ?thesis by (cases "snd ?r") (auto intro: Cons.prems(3))
    next
      assume r: "snd ?r = Inr ()" "alive g J B init (fst ?r) (s(c := (seq, 0))) d"
      have step: "deliver_entries c k (e # es) h = deliver_entries c k es ?h"
        using k r(1) by (cases k) (simp_all add: e case_prod_unfold Let_def)
      have cur: "cursors ?h = (cursors h)(c := seq)" by (simp add: cursor.send_chunks)
      show ?thesis
        by (rule Cons.IH [of ?h "s(c := (seq, 0))"])
          (use r(2) cur num True Cons.prems seq in \<open>simp_all add: step cursor.send_chunks add.assoc del: upt_Suc fun_upd_apply add: fun_upd_same\<close>)
    qed (use seq chunks_of_props in auto)
  qed
qed

lemma deliver_loop_alive:
  assumes "alive g J B init h s d" and "s c = (cursors h c, 0)" and "snapshotPosition d \<le> cursors h c"
    and "cursors h c \<le> m" and "within k m d"
  shows "(snd (deliver_loop c k h) = Inr ()
      \<and> alive g J B init (fst (deliver_loop c k h)) (s(c := (m, 0))) d
      \<and> cursors (fst (deliver_loop c k h)) = (cursors h)(c := m))
    \<or> (is_err (snd (deliver_loop c k h)) \<and> ended g J B init (fst (deliver_loop c k h)))"
  using assms
proof (induction "head d - cursors h c" arbitrary: h s rule: less_induct)
  case less
  let ?p = "cursors h c" and ?es = "log_since (cursors h c) (batch h) d"
  have inv: "log_inv d" and b: "0 < batch h"
    using alive_inv [OF less.prems(1)] less.prems(1) by (auto simp: alive_def core_def)
  have m: "m \<le> head d" using less.prems(5) by (simp add: within_def)
  have nums: "map fst ?es = take (batch h) [?p + 1..<head d + 1]"
    by (rule entry.since_numbers [OF inv less.prems(3)])
  from arg_cong [OF nums, of length] have len: "length ?es = min (batch h) (head d - ?p)" by (simp del: upt_Suc)
  have num: "map fst ?es = [?p + 1..<?p + 1 + length ?es]"
    unfolding nums len using less.prems(4) m by (simp add: take_upt min_def del: upt_Suc)
  show ?case
  proof (cases "?es = []")
    case True
    then have "head d \<le> ?p" using entry.since_empty [OF inv less.prems(3) b] by blast
    then have "m = ?p" using less.prems(4) m by simp
    with True less.prems(1,2) show ?thesis
      by (subst (1 2 3 4 5) deliver_loop.simps) (simp add: since_alive [OF less.prems(1)] fun_upd_idem)
  next
    case False
    let ?d = "deliver_entries c k ?es h"
    have eq: "deliver_loop c k h = (case snd ?d of Some res \<Rightarrow> (fst ?d, res)
        | None \<Rightarrow> if length ?es < batch h then (fst ?d, Inr ()) else deliver_loop c k (fst ?d))"
      using False by (subst deliver_loop.simps)
        (simp add: since_alive [OF less.prems(1)] case_prod_unfold Let_def)
    have room: "?p + length ?es \<le> head d" using len less.prems(4) m by simp
    show ?thesis
    proof (rule deliver_entries_alive [OF less.prems(1,2) num less.prems(4,5) room])
      fix e assume "snd ?d = Some (Inl e)" "ended g J B init (fst ?d)"
      with eq show ?thesis by simp
    next
      assume "snd ?d = Some (Inr ())" "alive g J B init (fst ?d) (s(c := (m, 0))) d"
        "cursors (fst ?d) = (cursors h)(c := m)"
      with eq show ?thesis by (simp del: fun_upd_apply)
    next
      assume t: "snd ?d = None" "?p + length ?es \<le> m" "alive g J B init (fst ?d) (s(c := (?p + length ?es, 0))) d"
        "cursors (fst ?d) = (cursors h)(c := ?p + length ?es)"
      show ?thesis
      proof (cases "length ?es < batch h")
        case True
        then have "?p + length ?es = m" using len t(2) m by simp
        with True t eq show ?thesis by (simp del: fun_upd_apply)
      next
        case more: False
        have "head d - cursors (fst ?d) c < head d - ?p" using t(2,4) m False by (cases ?es) auto
        from less.hyps [OF this t(3)] t(2,4) less.prems(3,5) eq t(1) more show ?thesis
          by (simp del: fun_upd_apply add: fun_upd_same fun_upd_upd)
      qed
    qed
  qed
qed

lemma deliver_alive:
  assumes "alive g J B init h s d" and "s c = (cursors h c, 0)" and "cursors h c \<le> m" and "snapshotPosition d \<le> m"
    and "within k m d"
  obtains (delivered) "snd (deliver c k h) = Inr ()" "alive g J B init (fst (deliver c k h)) (s(c := (m, 0))) d"
      "cursors (fst (deliver c k h)) = (cursors h)(c := m)"
  | (lost) "is_err (snd (deliver c k h))" "ended g J B init (fst (deliver c k h))"
proof (rule catchUp_alive [OF assms(1,2)])
  let ?c = "catchUpToSnapshot c h"
  assume "is_err (snd ?c)" "ended g J B init (fst ?c)"
  then show thesis
    by (intro lost) (simp_all add: deliver_def admission_alive [OF assms(1)] case_prod_unfold Let_def)
next
  let ?c = "catchUpToSnapshot c h" and ?q = "max (cursors h c) (snapshotPosition d)"
  assume c: "snd ?c = Inr ()" "alive g J B init (fst ?c) (s(c := (?q, 0))) d" "cursors (fst ?c) = (cursors h)(c := ?q)"
  have eq: "deliver c k h = deliver_loop c k (fst ?c)"
    by (simp add: deliver_def admission_alive [OF assms(1)] case_prod_unfold Let_def c(1))
  have "(snd (deliver_loop c k (fst ?c)) = Inr ()
      \<and> alive g J B init (fst (deliver_loop c k (fst ?c))) (s(c := (m, 0))) d
      \<and> cursors (fst (deliver_loop c k (fst ?c))) = (cursors h)(c := m))
    \<or> (is_err (snd (deliver_loop c k (fst ?c))) \<and> ended g J B init (fst (deliver_loop c k (fst ?c))))"
    using deliver_loop_alive [OF c(2), of c m k] assms(3-5)
    by (simp add: c(3) fun_upd_same fun_upd_upd del: fun_upd_apply)
  with eq delivered lost show thesis by auto
qed

lemma members_retire [simp]: "members (retire h) = {}"
  by (simp add: members_def)

lemma members_react: "members (react rs h) \<subseteq> members h"
proof (induction rs h rule: react.induct)
  case (3 c rs h)
  then show ?case using members_leave [of c h] by auto
next
  case (5 q rs h)
  then show ?case by (simp add: activate_store_def members_def)
qed auto

lemma members_emit: "members (emit c bs h) \<subseteq> members h"
  using members_react [of _ "put_wire c bs h"] by (simp add: emit_def members_def put_wire_def)

section \<open>The invariant of a hub\<close>

text \<open>
  While the generation is current, what each connection was sent brings it exactly to its
  cursor, nobody who joined within the log is beyond the head, and the members outside \<open>S\<close>, the connections
  still owed something, are at the head. Once the generation is replaced the streams just end.
\<close>

text \<open>A connection of \<open>B\<close> is served like any other; nothing about its stream or its cursor is kept.\<close>

definition served ::
    "nat \<Rightarrow> nat set \<Rightarrow> nat set \<Rightarrow> (nat \<Rightarrow> nat) \<Rightarrow> nat \<Rightarrow> hub \<Rightarrow> (nat \<Rightarrow> nat \<times> nat) \<Rightarrow> db \<Rightarrow> hub \<times> (authority_error, unit) result \<Rightarrow> bool" where
  "served g J B init c h s d r \<longleftrightarrow>
     (snd r = Inr () \<and> alive g J B init (fst r) s d \<and> (\<forall>x. x \<noteq> c \<longrightarrow> cursors (fst r) x = cursors h x))
     \<or> (is_err (snd r) \<and> ended g J B init (fst r))"

lemma send_ahead:
  assumes "alive g J B init h s d" "c \<in> B"
  shows "served g J B init c h s d (send c (encodeFrame f) h)"
proof (rule send_alive [OF assms(1), of c f "s c"])
  assume "snd (send c (encodeFrame f) h) = Inr ()" "alive g J B init (fst (send c (encodeFrame f) h)) (s(c := s c)) d"
  then show ?thesis by (simp add: served_def cursor.send del: encodeFrame.simps)
next
  assume "is_err (snd (send c (encodeFrame f) h))" "ended g J B init (fst (send c (encodeFrame f) h))"
  then show ?thesis by (simp add: served_def del: encodeFrame.simps)
qed (use assms(2) in simp)

lemma send_chunks_ahead:
  "alive g J B init h s d \<Longrightarrow> c \<in> B \<Longrightarrow> served g J B init c h s d (send_chunks c mk i cs h)"
proof (induction cs arbitrary: i h)
  case (Cons b cs)
  let ?s = "send c (encodeFrame (mk i b)) h"
  from send_ahead [OF Cons.prems] consider (sent) "snd ?s = Inr ()" "alive g J B init (fst ?s) s d" "\<forall>x. x \<noteq> c \<longrightarrow> cursors (fst ?s) x = cursors h x"
    | (lost) "is_err (snd ?s)" "ended g J B init (fst ?s)" unfolding served_def by blast
  then show ?case
  proof cases
    case sent
    have "send_chunks c mk i (b # cs) h = send_chunks c mk (i + 1) cs (fst ?s)"
      using sent(1) by (simp add: case_prod_unfold Let_def)
    with Cons.IH [OF sent(2) Cons.prems(2), of "i + 1"] sent(3) show ?thesis by (simp add: served_def del: encodeFrame.simps)
  next
    case lost
    then show ?thesis by (simp add: served_def case_prod_unfold Let_def)
  qed
qed (simp add: served_def)

lemma catchUp_ahead:
  assumes "alive g J B init h s d" "c \<in> B" shows "served g J B init c h s d (catchUpToSnapshot c h)"
proof -
  have quiet: "served g J B init c h s d (h, Inr ())" using assms(1) by (simp add: served_def)
  show ?thesis
  proof (cases "\<exists>p bs. log_snapshot d = Some (p, bs) \<and> cursors h c < p")
    case True
    then obtain p bs where snap: "log_snapshot d = Some (p, bs)" "cursors h c < p" by blast
    let ?r = "send_chunks c (\<lambda>i b. SnapshotFrame p i (length (chunks_of bs)) b) 0 (chunks_of bs) h"
    have "catchUpToSnapshot c h = (if is_err (snd ?r) then ?r else (move_cursor c p (fst ?r), Inr ()))"
      using snap by (simp add: catchUpToSnapshot_def since_alive [OF assms(1)] Let_def case_prod_unfold)
    moreover have "served g J B init c h s d ?r" by (rule send_chunks_ahead [OF assms])
    ultimately show ?thesis by (cases "is_err (snd ?r)") (auto simp: served_def)
  next
    case False
    then have "catchUpToSnapshot c h = (h, Inr ())"
      by (auto simp: catchUpToSnapshot_def since_alive [OF assms(1)] not_less split: option.split)
    with quiet show ?thesis by simp
  qed
qed

lemma deliver_entries_ahead:
  "alive g J B init h s d \<Longrightarrow> c \<in> B \<Longrightarrow>
    served g J B init c h s d (fst (deliver_entries c k es h), case snd (deliver_entries c k es h) of None \<Rightarrow> Inr () | Some r \<Rightarrow> r)"
proof (induction es arbitrary: h)
  case (Cons e es)
  obtain seq bs where e: "e = (seq, bs)" by fastforce
  let ?r = "send_chunks c (\<lambda>i b. EntryFrame seq i (length (chunks_of bs)) b) 0 (chunks_of bs) h"
  show ?case
  proof (cases "k \<noteq> None \<and> the k < seq")
    case True
    with Cons.prems(1) show ?thesis by (simp add: e served_def)
  next
    case False
    have eq: "deliver_entries c k (e # es) h = (if is_err (snd ?r) then (fst ?r, Some (snd ?r))
        else deliver_entries c k es (move_cursor c seq (fst ?r)))"
      using False by (auto simp: e case_prod_unfold Let_def)
    from send_chunks_ahead [OF Cons.prems, of "\<lambda>i b. EntryFrame seq i (length (chunks_of bs)) b" 0 "chunks_of bs"]
    consider (sent) "snd ?r = Inr ()" "alive g J B init (move_cursor c seq (fst ?r)) s d" "\<forall>x. x \<noteq> c \<longrightarrow> cursors (fst ?r) x = cursors h x"
      | (lost) "is_err (snd ?r)" "ended g J B init (fst ?r)" unfolding served_def by auto
    then show ?thesis
    proof cases
      case sent
      with Cons.IH [OF sent(2) Cons.prems(2)] show ?thesis unfolding eq by (simp add: served_def)
    next
      case lost
      then show ?thesis unfolding eq by (simp add: served_def)
    qed
  qed
qed (simp add: served_def)

lemma deliver_loop_ahead:
  "alive g J B init h s d \<Longrightarrow> c \<in> B \<Longrightarrow> served g J B init c h s d (deliver_loop c k h)"
proof (induction c k h rule: deliver_loop.induct)
  case (1 c k h)
  let ?es = "log_since (cursors h c) (batch h) d" and ?a = "ask (\<lambda>a. a_since a (cursors h c) (batch h)) h"
  let ?d = "deliver_entries c k ?es h"
  have ask: "?a = (h, Inr ?es)" by (rule since_alive(1) [OF "1.prems"(1)])
  note e = deliver_entries_ahead [OF "1.prems", of k ?es]
  show ?case
  proof (cases "?es \<noteq> [] \<and> snd ?d = None \<and> \<not> length ?es < batch h")
    case True
    with e have d: "alive g J B init (fst ?d) s d" "\<forall>x. x \<noteq> c \<longrightarrow> cursors (fst ?d) x = cursors h x"
      by (auto simp: served_def)
    have "served g J B init c (fst ?d) s d (deliver_loop c k (fst ?d))"
      by (rule "1.IH" [OF HOL.refl ask [symmetric] HOL.refl _ HOL.refl prod.collapse]) (use True d "1.prems"(2) in simp_all)
    moreover have "deliver_loop c k h = deliver_loop c k (fst ?d)"
      using True by (subst deliver_loop.simps) (simp add: ask case_prod_unfold Let_def)
    ultimately show ?thesis using d(2) by (simp add: served_def)
  next
    case False
    have "deliver_loop c k h = (if ?es = [] then (h, Inr ()) else case snd ?d of Some r \<Rightarrow> (fst ?d, r) | None \<Rightarrow> (fst ?d, Inr ()))"
      using False by (subst deliver_loop.simps) (auto simp: ask case_prod_unfold Let_def split: option.split)
    with e "1.prems"(1) show ?thesis by (auto simp: served_def split: option.splits)
  qed
qed

lemma deliver_ahead:
  assumes "alive g J B init h s d" "c \<in> B" shows "served g J B init c h s d (deliver c k h)"
proof -
  let ?c = "catchUpToSnapshot c h"
  have eq: "deliver c k h = (if is_err (snd ?c) then ?c else deliver_loop c k (fst ?c))"
    by (simp add: deliver_def admission_alive [OF assms(1)] case_prod_unfold Let_def)
  from catchUp_ahead [OF assms] consider (lost) "is_err (snd ?c)" "ended g J B init (fst ?c)"
    | (caught) "snd ?c = Inr ()" "alive g J B init (fst ?c) s d" "\<forall>x. x \<noteq> c \<longrightarrow> cursors (fst ?c) x = cursors h x"
    unfolding served_def by blast
  then show ?thesis
  proof cases
    case lost
    then show ?thesis unfolding eq by (simp add: served_def)
  next
    case caught
    from deliver_loop_ahead [OF caught(2) assms(2), of k] caught(1,3) show ?thesis unfolding eq by (simp add: served_def)
  qed
qed

definition synced :: "nat \<Rightarrow> nat set \<Rightarrow> nat set \<Rightarrow> (nat \<Rightarrow> nat) \<Rightarrow> nat set \<Rightarrow> hub \<Rightarrow> bool" where
  "synced g J B init S h \<longleftrightarrow> alive g J B init h (\<lambda>x. (cursors h x, 0)) (tables (store h))
     \<and> (\<forall>c\<in>J - B. cursors h c \<le> head (tables (store h)))
     \<and> (\<forall>x\<in>members h - B. x \<in> S \<or> cursors h x = head (tables (store h)))"

definition hub_inv :: "nat \<Rightarrow> nat set \<Rightarrow> nat set \<Rightarrow> (nat \<Rightarrow> nat) \<Rightarrow> nat set \<Rightarrow> hub \<Rightarrow> bool" where
  "hub_inv g J B init S h \<longleftrightarrow> synced g J B init S h \<or> zombie g J B init h"

lemma hub_inv_zombie: "zombie g J B init h \<Longrightarrow> hub_inv g J B init S h"
  and hub_inv_ended: "ended g J B init h \<Longrightarrow> hub_inv g J B init S h"
  and hub_inv_synced: "synced g J B init S h \<Longrightarrow> hub_inv g J B init S h"
  by (auto simp: hub_inv_def ended_zombie)

lemma synced_alive:
  assumes "alive g J B init h s d" and "\<And>x. x \<notin> B \<Longrightarrow> s x = (cursors h x, 0)"
    and "\<And>c. c \<in> J \<Longrightarrow> c \<notin> B \<Longrightarrow> cursors h c \<le> head d"
    and "\<And>x. x \<in> members h \<Longrightarrow> x \<notin> B \<Longrightarrow> x \<in> S \<or> cursors h x = head d"
  shows "synced g J B init S h"
  using assms by (auto simp: synced_def alive_def)

interpretation shrinks: hub_delivers "\<lambda>h h'. members h' \<subseteq> members h"
  by (unfold_locales; use members_emit in \<open>force simp: members_def\<close>)

lemma alive_frame:
  assumes "alive g J B init h s d" and "store h' = store h" "authority h' = authority h" "batch h' = batch h"
    "wire h' = wire h" "lifetime h' \<noteq> None" "members h' \<subseteq> J \<union> B"
  shows "alive g J B init h' s d"
  using assms by (auto simp: alive_def core_def)

lemma hub_inv_frame:
  assumes "hub_inv g J B init S h" and "store h' = store h" "authority h' = authority h" "batch h' = batch h"
    "wire h' = wire h" "cursors h' = cursors h" "lifetime h' = None \<longleftrightarrow> lifetime h = None" "members h' \<subseteq> members h"
  shows "hub_inv g J B init S h'"
  using assms
  by (auto simp: hub_inv_def synced_def alive_def zombie_def core_def gone_def)

lemma members_core: "hub_inv g J B init S h \<Longrightarrow> members h \<subseteq> J \<union> B"
  by (auto simp: hub_inv_def synced_def alive_def zombie_def core_def)

lemma snapshotPosition_head: "snapshotPosition d \<le> head d"
  by (simp add: head_def)

lemma deliver_inv:
  assumes "hub_inv g J B init S h" and "c \<in> J \<union> B"
  shows "hub_inv g J B init (S - {c}) (fst (deliver c None h))"
  using assms(1) unfolding hub_inv_def [of g J B init S h]
proof
  assume z: "zombie g J B init h"
  from admission_zombie [OF z] show ?thesis
    by (simp add: deliver_def case_prod_unfold Let_def hub_inv_ended)
next
  assume sy: "synced g J B init S h"
  let ?d = "tables (store h)"
  have a: "alive g J B init h (\<lambda>x. (cursors h x, 0)) ?d" using sy by (simp add: synced_def)
  have le: "\<And>c. c \<in> J \<Longrightarrow> c \<notin> B \<Longrightarrow> cursors h c \<le> head ?d" using sy by (simp add: synced_def)
  have at: "\<And>x. x \<in> members (fst (deliver c None h)) \<Longrightarrow> x \<notin> B \<Longrightarrow> x \<in> S \<or> cursors h x = head ?d"
    using sy shrinks.deliver [of c None h] by (auto simp: synced_def)
  show ?thesis
  proof (cases "c \<in> B")
    case True
    from deliver_ahead [OF a True, of None] show ?thesis unfolding served_def
    proof (elim disjE conjE)
      assume d: "alive g J B init (fst (deliver c None h)) (\<lambda>x. (cursors h x, 0)) ?d"
        "\<forall>x. x \<noteq> c \<longrightarrow> cursors (fst (deliver c None h)) x = cursors h x"
      have same: "cursors (fst (deliver c None h)) x = cursors h x" if "x \<notin> B" for x using d(2) True that by metis
      show ?thesis by (rule hub_inv_synced, rule synced_alive [OF d(1)]) (use same le at True in auto)
    qed (rule hub_inv_ended)
  next
    case False
    with assms(2) have cJ: "c \<in> J" by simp
    show ?thesis
    proof (rule deliver_alive [OF a HOL.refl le [OF cJ False] snapshotPosition_head])
      show "within None (head ?d) ?d" by (simp add: within_def)
      assume d: "alive g J B init (fst (deliver c None h)) ((\<lambda>x. (cursors h x, 0))(c := (head ?d, 0))) ?d"
        "cursors (fst (deliver c None h)) = (cursors h)(c := head ?d)"
      show ?thesis by (rule hub_inv_synced, rule synced_alive [OF d(1)]) (use d(2) le at in auto)
    qed (rule hub_inv_ended)
  qed
qed

lemma owed_less:
  assumes "hub_inv g J B init S h" and "S \<inter> members h \<subseteq> S'" shows "hub_inv g J B init S' h"
  using assms by (auto simp: hub_inv_def synced_def)

lemma relay_inv:
  "hub_inv g J B init S h \<Longrightarrow> set cs \<subseteq> J \<union> B \<Longrightarrow> hub_inv g J B init (S - set cs) (relay cs h)"
proof (induction cs arbitrary: h S)
  case (Cons c cs)
  have diff: "S - {c} - set cs = S - set (c # cs)" by auto
  show ?case
  proof (cases "c \<in> members h \<or> lifetime h = None")
    case True
    then have "relay (c # cs) h = relay cs (fst (deliver c None h))"
      by (cases "lifetime h") (simp_all add: members_def map_of_eq_None_iff)
    moreover have "hub_inv g J B init (S - {c} - set cs) (relay cs (fst (deliver c None h)))"
      by (rule Cons.IH, rule deliver_inv [OF Cons.prems(1)]) (use Cons.prems(2) in simp_all)
    ultimately show ?thesis by (simp only: diff)
  next
    case False
    then have "relay (c # cs) h = relay cs h" by (cases "lifetime h") (simp_all add: members_def map_of_eq_None_iff)
    moreover have "hub_inv g J B init (S - {c} - set cs) (relay cs h)"
    proof (rule Cons.IH)
      show "hub_inv g J B init (S - {c}) h" using False by (intro owed_less [OF Cons.prems(1)]) auto
    qed (use Cons.prems(2) in simp)
    ultimately show ?thesis by (simp only: diff)
  qed
qed simp

lemma emit_inv:
  assumes "synced g J B init S h" and "follow (cursors h c, 0) f = Some (cursors h c, 0)"
  shows "hub_inv g J B init S (emit c (encodeFrame f) h)"
proof -
  let ?d = "tables (store h)"
  have a: "alive g J B init h (\<lambda>x. (cursors h x, 0)) ?d" using assms(1) by (simp add: synced_def)
  from emit_alive [OF a assms(2)] show ?thesis
  proof
    assume e: "alive g J B init (emit c (encodeFrame f) h) ((\<lambda>x. (cursors h x, 0))(c := (cursors h c, 0))) ?d"
    show ?thesis
      by (rule hub_inv_synced, rule synced_alive [OF e])
        (use assms(1) shrinks.emits [of c "encodeFrame f" h] in \<open>auto simp: synced_def simp del: encodeFrame.simps\<close>)
  qed (rule hub_inv_zombie)
qed

lemma send_inv:
  assumes "synced g J B init S h" and "follow (cursors h c, 0) f = Some (cursors h c, 0)"
  shows "hub_inv g J B init S (fst (send c (encodeFrame f) h))"
proof -
  let ?d = "tables (store h)"
  have a: "alive g J B init h (\<lambda>x. (cursors h x, 0)) ?d" using assms(1) by (simp add: synced_def)
  from a assms(2) show ?thesis
  proof (rule send_alive)
    assume e: "alive g J B init (fst (send c (encodeFrame f) h)) ((\<lambda>x. (cursors h x, 0))(c := (cursors h c, 0))) ?d"
    show ?thesis
      by (rule hub_inv_synced, rule synced_alive [OF e])
        (use assms(1) shrinks.send [of c "encodeFrame f" h] in \<open>auto simp: synced_def cursor.send simp del: encodeFrame.simps\<close>)
  qed (rule hub_inv_ended)
qed

lemma askForSnapshot_inv:
  assumes "hub_inv g J B init S h" shows "hub_inv g J B init S (askForSnapshot c h)"
  using assms unfolding hub_inv_def [of g J B init S h]
proof
  assume sy: "synced g J B init S h"
  have a: "alive g J B init h (\<lambda>x. (cursors h x, 0)) (tables (store h))" using sy by (simp add: synced_def)
  show ?thesis using send_inv [OF sy, of c] sy
    by (simp add: askForSnapshot_def since_alive [OF a] Let_def hub_inv_synced del: encodeFrame.simps)
next
  assume z: "zombie g J B init h"
  have reads: "zombie g J B init (fst (ask v h'))" if "zombie g J B init h'"
      "fst (v (authority h') (store h')) = (store h')\<lparr>faults := tl (faults (store h'))\<rparr>"
    for v :: "binding \<Rightarrow> sqlite \<Rightarrow> sqlite \<times> 'v" and h'
    using that by (simp add: zombie_def core_def gone_def members_def ask_def case_prod_unfold Let_def)
  have z1: "zombie g J B init (fst (ask a_shouldSnapshot h))"
    by (rule reads [OF z]) (simp add: a_shouldSnapshot_def reading_verb)
  have z2: "zombie g J B init (fst (ask a_head (fst (ask a_shouldSnapshot h))))"
    by (rule reads [OF z1]) (simp add: a_head_def reading_verb)
  have "ended g J B init (fst (send c bs (fst (ask a_head (fst (ask a_shouldSnapshot h))))))" for bs
    using admission_zombie [OF z2] by (simp add: send_def case_prod_unfold Let_def del: ask_frame)
  with z1 z2 show ?thesis
    by (auto simp: askForSnapshot_def case_prod_unfold Let_def simp del: ask_frame
        intro: hub_inv_zombie hub_inv_ended split: sum.split)
qed

lemma members_set_collector: "collector_of c h = Some k \<Longrightarrow> members (set_collector c k' h) = members h"
  by (cases "lifetime h")
    (auto simp: members_def set_collector_def collector_of_def AList.dom_update dest!: map_of_SomeD intro: rev_image_eqI)

lemma set_collector_frame [simp]:
  "store (set_collector c k h) = store h" "authority (set_collector c k h) = authority h"
  "batch (set_collector c k h) = batch h" "wire (set_collector c k h) = wire h"
  "cursors (set_collector c k h) = cursors h" "dispatchDepth (set_collector c k h) = dispatchDepth h"
  "script (set_collector c k h) = script h"
  "lifetime (set_collector c k h) = None \<longleftrightarrow> lifetime h = None"
  by (simp_all add: set_collector_def)

lemma collector_member: "collector_of c h = Some k \<Longrightarrow> c \<in> members h"
  by (auto simp: collector_of_def members_def split: option.splits dest: map_of_SomeD intro: rev_image_eqI)

lemma collector_of_set: "collector_of c h \<noteq> None \<Longrightarrow> collector_of c (set_collector c k h) = Some k"
  by (auto simp: collector_of_def set_collector_def AList.update_conv' split: option.splits)

lemma synced_set_collector:
  assumes "synced g J B init S h" and "collector_of c h = Some k"
  shows "synced g J B init S (set_collector c k' h)"
proof -
  have "alive g J B init (set_collector c k' h) (\<lambda>x. (cursors h x, 0)) (tables (store h))"
  proof (rule alive_frame)
    show "alive g J B init h (\<lambda>x. (cursors h x, 0)) (tables (store h))" using assms(1) by (simp add: synced_def)
    then show "members (set_collector c k' h) \<subseteq> J \<union> B" "lifetime (set_collector c k' h) \<noteq> None"
      by (simp_all add: members_set_collector [OF assms(2)] alive_def core_def)
  qed simp_all
  with assms(1) show ?thesis by (simp add: synced_def members_set_collector [OF assms(2)])
qed

lemma refuse_inv:
  assumes "synced g J B init S h" shows "hub_inv g J B init S (refuse c submission why h)"
proof (cases "collector_of c h")
  case (Some k)
  let ?h = "set_collector c (forget k submission) h"
  have "synced g J B init S ?h" by (rule synced_set_collector [OF assms Some])
  from emit_inv [OF this, of c "RefuseFrame submission why"] Some show ?thesis
    by (simp add: refuse_def del: encodeFrame.simps)
qed (use assms in \<open>simp add: refuse_def hub_inv_synced\<close>)

lemma refuse_ended: "ended g J B init h \<Longrightarrow> refuse c submission why h = h"
  by (simp add: refuse_def collector_of_def ended_def)

lemma verb_faults:
  "faults (fst (a_append a bs s)) = tl (faults s)" "faults (fst (a_replaceSnapshot a p bs s)) = tl (faults s)"
  unfolding a_append_def a_replaceSnapshot_def by (rule run_faults)+

text \<open>The storage of a live hub after an append or a fold.\<close>

lemma alive_store:
  assumes "alive g J B init h s d" and "authority_step (store h) s'" and "faults s' = []"
    and "current_generation (tables s') = Some g"
  shows "alive g J B init (h\<lparr>store := s'\<rparr>) s (tables s')"
proof -
  have "core g J B (h\<lparr>store := s'\<rparr>)"
  proof (rule core_store)
    show "core g J B h" using assms(1) by (simp add: alive_def)
  qed (simp_all add: assms(2,3) members_def)
  with assms(1,4) show ?thesis by (simp add: alive_def)
qed

lemma append_alive:
  assumes "alive g J B init h s d"
  obtains d' where "snd (ask (\<lambda>a. a_append a bs) h) = Inr (head d + 1)"
    and "alive g J B init (fst (ask (\<lambda>a. a_append a bs) h)) s d'"
    and "head d' = head d + 1" and "snapshotPosition d' = snapshotPosition d"
    and "log_entries d' = log_entries d @ [(head d + 1, bs)]"
proof -
  obtain s' r where e: "a_append (authority h) bs (store h) = (s', r)" by fastforce
  have inv: "log_inv (tables (store h))" and d: "tables (store h) = d" and f: "faults (store h) = []"
    using alive_inv [OF assms] assms by (auto simp: alive_def core_def)
  have ok: "\<not> fault_now (store h)" "admitted (authority h) (tables (store h))"
    using assms by (auto simp: alive_def core_def fault_now_def admitted_iff)
  from inv e show thesis
  proof (cases rule: a_append_cases)
    case stored
    have "faults s' = []" using verb_faults(1) [of "authority h" bs "store h"] e f by simp
    moreover have "authority_step (store h) s'" using authority_step.append_step [of "store h" "authority h" bs] e by simp
    moreover have "current_generation (tables s') = Some g" using stored(5) assms by (simp add: alive_def)
    ultimately have "alive g J B init (h\<lparr>store := s'\<rparr>) s (tables s')" by (intro alive_store [OF assms])
    moreover have "head (tables s') = head d + 1" "snapshotPosition (tables s') = snapshotPosition d"
      "log_entries (tables s') = log_entries d @ [(head d + 1, bs)]"
      using log_state_positions [OF stored(4)] head_of [OF inv] snapshotPosition_of [OF inv]
        log_entries_of [OF stored(4)] by (simp_all add: d)
    moreover have "ask (\<lambda>a. a_append a bs) h = (h\<lparr>store := s'\<rparr>, Inr (head d + 1))"
      using e stored(3) d by (simp add: ask_def)
    ultimately show thesis by (intro that [of "tables s'"]) simp_all
  next
    case failed
    with ok show thesis by blast
  qed
qed

lemma takeOffer_inv:
  assumes sy: "synced g J B init S h" and k: "collector_of c h = Some k"
  shows "hub_inv g J B init S (takeOffer c k frame p h)"
proof -
  let ?h = "set_collector c (fst (accept k frame)) h"
  have s1: "synced g J B init S ?h" by (rule synced_set_collector [OF sy k])
  then have a: "alive g J B init ?h (\<lambda>x. (cursors h x, 0)) (tables (store h))" by (simp add: synced_def)
  have "synced g J B init S (fst (ask (\<lambda>a. a_replaceSnapshot a p w) ?h))" for w
  proof -
    let ?s = "fst (a_replaceSnapshot (authority h) p w (store h))"
    have ai: "authority_inv (tables (store h))" and f: "faults (store h) = []" using a by (auto simp: alive_def core_def)
    have hd: "head (tables ?s) = head (tables (store h))" by (rule replaceSnapshot_advances(2) [OF ai])
    have "current_generation (tables ?s) = current_generation (tables (store h))"
      by (rule a_replaceSnapshot_cases [OF _ surjective_pairing, of "store h" "authority h" p w])
        (use ai in \<open>auto simp: authority_inv_def\<close>)
    moreover have "faults ?s = []" using verb_faults(2) [of "authority h" p w "store h"] f by simp
    ultimately have "alive g J B init (?h\<lparr>store := ?s\<rparr>) (\<lambda>x. (cursors h x, 0)) (tables ?s)"
      using a authority_step.replaceSnapshot_step [of "store h" "authority h" p w]
      by (intro alive_store [OF a]) (simp_all add: alive_def)
    then show ?thesis
      using sy hd members_set_collector [OF k] by (auto simp: synced_def ask_def case_prod_unfold Let_def members_def)
  qed
  with s1 show ?thesis
    by (auto simp: takeOffer_def case_prod_unfold Let_def simp del: ask_frame
        intro: hub_inv_synced split: sum.split option.split)
qed

text \<open>The tail of a push: what was missed, the acknowledgement, the relay and the request.\<close>

lemma acknowledge_inv:
  assumes a: "alive g J B init h s d" and s: "\<And>x. x \<notin> B \<Longrightarrow> x \<noteq> c \<Longrightarrow> s x = (cursors h x, 0)" "c \<notin> B \<Longrightarrow> s c = (seq - 1, 0)"
    and seq: "1 \<le> seq" "seq = head d" and le: "\<And>x. x \<in> J \<Longrightarrow> x \<notin> B \<Longrightarrow> x \<noteq> c \<Longrightarrow> cursors h x \<le> head d"
  shows "hub_inv g J B init (- {c}) (fst (send c (encodeFrame (AckFrame n seq)) (move_cursor c seq h)))"
proof -
  let ?h = "move_cursor c seq h" and ?f = "AckFrame n seq"
  have m: "alive g J B init ?h s d" using a by simp
  show ?thesis
  proof (rule send_alive [OF m])
    assume al: "alive g J B init (fst (send c (encodeFrame ?f) ?h)) (s(c := (seq, 0))) d"
    show ?thesis
      by (rule hub_inv_synced, rule synced_alive [OF al]) (use le seq s in \<open>auto simp: cursor.send\<close>)
  next
    show "follow (s c) ?f = Some (seq, 0)" if "c \<notin> B" using seq s(2) [OF that] by simp
  qed (rule hub_inv_ended)
qed

lemma process_push_inv:
  assumes sy: "synced g J B init S h" and k: "collector_of c h = Some k"
  shows "hub_inv g J B init S (process_push c k frame n h)"
proof -
  let ?h = "set_collector c (fst (accept k frame)) h" and ?d = "tables (store h)"
  have s1: "synced g J B init S ?h" by (rule synced_set_collector [OF sy k])
  then have a: "alive g J B init ?h (\<lambda>x. (cursors h x, 0)) ?d" by (simp add: synced_def)
  have cJ: "c \<in> J \<union> B" using collector_member [OF k] a by (auto simp: alive_def core_def members_set_collector [OF k])
  have le: "\<And>x. x \<in> J \<Longrightarrow> x \<notin> B \<Longrightarrow> cursors h x \<le> head ?d" using sy by (simp add: synced_def)
  consider (no) e where "snd (accept k frame) = Inl e" | (part) "snd (accept k frame) = Inr None"
    | (whole) w where "snd (accept k frame) = Inr (Some w)"
    by (cases "snd (accept k frame)") auto
  then show ?thesis
  proof cases
    case no
    then show ?thesis using refuse_inv [OF s1] by (simp add: process_push_def case_prod_unfold Let_def)
  next
    case part
    then show ?thesis using s1 by (simp add: process_push_def case_prod_unfold Let_def hub_inv_synced)
  next
    case whole
    from append_alive [OF a, of w] obtain d' where
      ask: "snd (ask (\<lambda>a. a_append a w) ?h) = Inr (head ?d + 1)"
      and al: "alive g J B init (fst (ask (\<lambda>a. a_append a w) ?h)) (\<lambda>x. (cursors h x, 0)) d'"
      and d': "head d' = head ?d + 1" "snapshotPosition d' = snapshotPosition ?d" by blast
    define h2 where "h2 = fst (ask (\<lambda>a. a_append a w) ?h)"
    have cur: "cursors h2 = cursors h" by (simp add: h2_def)
    let ?D = "deliver c (Some (head ?d)) h2"
    define others where "others h' = (case lifetime h' of None \<Rightarrow> []
        | Some l \<Rightarrow> filter (\<lambda>x. x \<noteq> c) (map fst (connections l)))" for h' :: hub
    have eq: "process_push c k frame n h = (case snd ?D of
        Inl e \<Rightarrow> refuse c n (error_message e) (fst ?D)
      | Inr _ \<Rightarrow> (let h5 = fst (send c (encodeFrame (AckFrame n (head ?d + 1))) (move_cursor c (head ?d + 1) (fst ?D)))
                 in askForSnapshot c (relay (others h5) h5)))"
      using whole ask unfolding process_push_def h2_def others_def
      by (simp add: case_prod_unfold Let_def del: ask_frame encodeFrame.simps split: sum.split)
    have w: "within (Some (head ?d)) (head ?d) d'" using d' by (simp add: within_def)
    have lost: ?thesis if "is_err (snd ?D)" "ended g J B init (fst ?D)"
      using that unfolding eq by (cases "snd ?D") (auto simp: refuse_ended hub_inv_ended)
    have finish: ?thesis if "snd ?D = Inr ()"
      and h5: "hub_inv g J B init (- {c}) (fst (send c (encodeFrame (AckFrame n (head ?d + 1))) (move_cursor c (head ?d + 1) (fst ?D))))"
    proof -
      let ?h5 = "fst (send c (encodeFrame (AckFrame n (head ?d + 1))) (move_cursor c (head ?d + 1) (fst ?D)))"
      have os: "set (others ?h5) = members ?h5 - {c}" by (auto simp: others_def members_def split: option.splits)
      have "hub_inv g J B init (- {c} - set (others ?h5)) (relay (others ?h5) ?h5)"
        using os members_core [OF h5] by (intro relay_inv [OF h5]) auto
      then have "hub_inv g J B init S (relay (others ?h5) ?h5)"
        by (rule owed_less) (use os shrinks.relay [of "others ?h5" ?h5] in auto)
      then have "hub_inv g J B init S (askForSnapshot c (relay (others ?h5) ?h5))" by (rule askForSnapshot_inv)
      then show ?thesis by (simp add: eq that(1) Let_def del: encodeFrame.simps)
    qed
    show ?thesis
    proof (cases "c \<in> B")
      case True
      from deliver_ahead [OF al [folded h2_def] True, of "Some (head ?d)"] show ?thesis unfolding served_def
      proof (elim disjE conjE)
        assume D: "snd ?D = Inr ()" "alive g J B init (fst ?D) (\<lambda>x. (cursors h x, 0)) d'"
          "\<forall>x. x \<noteq> c \<longrightarrow> cursors (fst ?D) x = cursors h2 x"
        have same: "cursors (fst ?D) x = cursors h x" if "x \<notin> B" for x using D(3) True that cur by metis
        show ?thesis
          by (rule finish [OF D(1)], rule acknowledge_inv [OF D(2)])
            (use same d' le True in \<open>auto intro: le_SucI\<close>)
      qed (rule lost)
    next
      case False
      with cJ have cJ': "c \<in> J" by simp
      show ?thesis
      proof (rule deliver_alive [OF al [folded h2_def], of c "head ?d" "Some (head ?d)"])
        assume D: "snd ?D = Inr ()" "alive g J B init (fst ?D) ((\<lambda>x. (cursors h x, 0))(c := (head ?d, 0))) d'"
          "cursors (fst ?D) = (cursors h2)(c := head ?d)"
        show ?thesis
          by (rule finish [OF D(1)], rule acknowledge_inv [OF D(2)])
            (use D(3) cur d' le in \<open>auto intro: le_SucI\<close>)
      qed (use lost cur le [OF cJ' False] d' w snapshotPosition_head in auto)
    qed
  qed
qed

lemma process_inv:
  assumes "hub_inv g J B init S h" shows "hub_inv g J B init S (process c m h)"
proof (cases "collector_of c h")
  case None
  with assms show ?thesis by (simp add: process_def)
next
  case (Some k)
  show ?thesis using assms unfolding hub_inv_def [of g J B init S h]
  proof
    assume sy: "synced g J B init S h"
    then have "admission h = (h, Inr ())" by (auto simp: synced_def intro: admission_alive)
    with Some sy show ?thesis
      by (auto simp: process_def Let_def takeOffer_inv process_push_inv hub_inv_synced
          split: sum.split frame.split)
  next
    assume z: "zombie g J B init h"
    from admission_zombie [OF z] Some show ?thesis
      by (auto simp: process_def case_prod_unfold Let_def refuse_ended hub_inv_ended hub_inv_zombie z
          split: sum.split frame.split)
  qed
qed

lemma drain_loop_inv: "hub_inv g J B init S h \<Longrightarrow> hub_inv g J B init S (drain_loop h)"
proof (induction h rule: drain_loop.induct)
  case (1 h)
  show ?case
  proof (cases "\<exists>l c m rest. lifetime h = Some l \<and> pending l = (c, m) # rest")
    case True
    then obtain l c m rest where l: "lifetime h = Some l" "pending l = (c, m) # rest" by blast
    let ?h = "h\<lparr>lifetime := Some (l\<lparr>pending := rest\<rparr>)\<rparr>"
    have "hub_inv g J B init S ?h"
      by (rule hub_inv_frame [OF "1.prems"]) (use l members_core [OF "1.prems"] in \<open>simp_all add: members_def\<close>)
    then have "hub_inv g J B init S (process c m ?h)" by (rule process_inv)
    from "1.IH" [OF l HOL.refl this] l show ?thesis by (subst drain_loop.simps) simp
  next
    case False
    with 1 show ?thesis by (subst drain_loop.simps) (auto split: option.split list.split)
  qed
qed

lemma hub_inv_depth: "hub_inv g J B init S h \<Longrightarrow> hub_inv g J B init S (h\<lparr>dispatchDepth := n\<rparr>)"
  by (rule hub_inv_frame, assumption) (auto simp: members_def [of "_\<lparr>dispatchDepth := _\<rparr>"] members_def [symmetric]
      dest: members_core)

lemma drain_inv: "hub_inv g J B init S h \<Longrightarrow> hub_inv g J B init S (drain h)"
  by (simp add: drain_def Let_def hub_inv_depth drain_loop_inv)

lemma enqueue_inv: "hub_inv g J B init S h \<Longrightarrow> hub_inv g J B init S (enqueue c m h)"
  by (rule hub_inv_frame, assumption) (auto simp: members_core, auto simp: enqueue_def)

lemma leave_inv: "hub_inv g J B init S h \<Longrightarrow> hub_inv g J B init S (leave c h)"
proof (rule hub_inv_frame, assumption)
  assume "hub_inv g J B init S h"
  show "members (leave c h) \<subseteq> members h" by (rule members_leave)
qed (simp_all add: leave_def)

lemma receive_inv: "hub_inv g J B init S h \<Longrightarrow> hub_inv g J B init S (receive c m h)"
  by (simp add: receive_def drain_inv enqueue_inv)

lemma hub_inv_streams: "hub_inv g J B init S h \<Longrightarrow> core g J B h \<and> followable B init (wire h)"
  by (auto simp: hub_inv_def synced_def alive_def zombie_def followable_def)

lemma retire_ended: "core g J B h \<and> followable B init (wire h) \<Longrightarrow> ended g J B init (retire h)"
proof -
  assume a: "core g J B h \<and> followable B init (wire h)"
  then have "followable B init (wire (retire h))" by (simp add: followable_retire)
  with a show ?thesis by (simp add: ended_def core_retire)
qed

lemma activate_inv:
  assumes "hub_inv g J B init S h" shows "hub_inv g J B init S (activate_store q h)"
proof -
  have c: "core g J B (activate_store q h)" using hub_inv_streams [OF assms] core_activate by blast
  have w: "wire (activate_store q h) = wire h" "cursors (activate_store q h) = cursors h"
    "lifetime (activate_store q h) = lifetime h" by (simp_all add: activate_store_def)
  from activate_kept [of h q] show ?thesis unfolding kept_or_switched_def
  proof
    assume "tables (store (activate_store q h)) = tables (store h)"
    moreover have "members (activate_store q h) = members h" using w(3) by (simp add: members_def)
    ultimately show ?thesis using assms c w by (auto simp: hub_inv_def synced_def alive_def zombie_def gone_def)
  next
    assume "generation_of (tables (store h)) < generation_of (tables (store (activate_store q h)))"
    then have "gone g (activate_store q h)" using hub_inv_streams [OF assms] by (auto simp: gone_def core_def)
    with assms c w hub_inv_streams [OF assms] show ?thesis by (intro hub_inv_zombie) (simp add: zombie_def)
  qed
qed

lemma hub_inv_more:
  assumes "hub_inv g J B init S h" and "cursors h c \<le> head (tables (store h))"
  shows "hub_inv g (insert c J) B init S h"
proof -
  have "core g J B h \<Longrightarrow> core g (insert c J) B h" by (auto simp: core_def)
  with assms show ?thesis by (auto simp: hub_inv_def synced_def alive_def zombie_def)
qed

lemma hub_inv_ahead:
  assumes "hub_inv g J B init S h" shows "hub_inv g J (insert c B) init S h"
proof -
  have "core g J B h \<Longrightarrow> core g J (insert c B) h" by (auto simp: core_def)
  with assms show ?thesis by (auto simp: hub_inv_def synced_def alive_def zombie_def followable_def)
qed

lemma join_inv:
  assumes inv: "hub_inv g J B init S h" and c: "c \<in> J \<union> B"
  shows "hub_inv g J B init S (fst (join c h))"
  using inv unfolding hub_inv_def [of g J B init S h]
proof
  assume z: "zombie g J B init h"
  from admission_zombie [OF z] have e: "is_err (snd (admission h))" "ended g J B init (fst (admission h))" by auto
  have "ended g J B init (notifyRetired c (fst (admission h)))"
    using e(2) followable_retired [of B init "wire (fst (admission h))" "[c]"]
    by (simp add: ended_def core_notifyRetired del: encodeFrame.simps)
  with e show ?thesis by (simp add: join_def case_prod_unfold Let_def hub_inv_ended ended_def)
next
  assume sy: "synced g J B init S h"
  then have adm: "admission h = (h, Inr ())" by (auto simp: synced_def intro: admission_alive)
  let ?h2 = "set_collector c (createChunkCollector BUFFER_CEILING_BYTES) (h\<lparr>dispatchDepth := dispatchDepth h + 1\<rparr>)"
  let ?g = "send c (encodeFrame AdmittedFrame) ?h2"
  have lf: "lifetime h \<noteq> None" and mem: "members h \<subseteq> J \<union> B" using sy by (simp_all add: synced_def alive_def core_def)
  have m2: "members ?h2 \<subseteq> insert c (members h)"
    by (auto simp: members_def set_collector_def AList.dom_update split: option.splits)
  with mem c have "members ?h2 \<subseteq> J \<union> B" by auto
  have a2: "alive g J B init ?h2 (\<lambda>x. (cursors h x, 0)) (tables (store h))"
  proof (rule alive_frame)
    show "alive g J B init h (\<lambda>x. (cursors h x, 0)) (tables (store h))" using sy by (simp add: synced_def)
  qed (use lf \<open>members ?h2 \<subseteq> J \<union> B\<close> in simp_all)
  have s2: "synced g J B init (insert c S) ?h2"
    by (rule synced_alive [OF a2]) (use sy m2 in \<open>auto simp: synced_def\<close>)
  have i3: "hub_inv g J B init (insert c S) (fst ?g)" by (rule send_inv [OF s2]) simp
  have "hub_inv g J B init (insert c S - {c}) (fst (deliver c None (fst ?g)))" by (rule deliver_inv [OF i3 c])
  then have i4: "hub_inv g J B init S (fst (deliver c None (fst ?g)))" by (rule owed_less) auto
  have i5: "hub_inv g J B init S (leave c (fst ?g))"
    by (rule owed_less [OF leave_inv [OF i3]]) (auto simp: members_def leave_def AList.delete_eq split: option.splits)
  show ?thesis using i4 i5
    by (simp add: join_def adm case_prod_unfold Let_def drain_inv hub_inv_depth leave_inv del: encodeFrame.simps)
qed

text \<open>
  A run of the hub of generation \<open>g\<close>. A join is admitted whatever cursor the connection comes with: \<open>J\<close> are
  the connections that joined at a cursor within the log, \<open>B\<close> those that ever joined at one beyond its head.
\<close>

definition within_log :: "nat \<Rightarrow> hub \<Rightarrow> bool" where
  "within_log c h \<longleftrightarrow> cursors h c \<le> head (tables (store h))"

inductive hub_run :: "nat \<Rightarrow> (nat \<Rightarrow> nat) \<Rightarrow> nat set \<Rightarrow> nat set \<Rightarrow> hub \<Rightarrow> bool" for g init where
  created: "authority_reachable s \<Longrightarrow> faults s = [] \<Longrightarrow> current_generation (tables s) = Some g \<Longrightarrow>
    bound_to a = Some g \<Longrightarrow> 0 < b \<Longrightarrow> hub_run g init {} {} (createSyncHub a b s init sc)"
| joined: "hub_run g init J B h \<Longrightarrow>
    hub_run g init (if within_log c h then insert c J else J) (if within_log c h then B else insert c B) (fst (join c h))"
| received: "hub_run g init J B h \<Longrightarrow> hub_run g init J B (receive c m h)"
| left: "hub_run g init J B h \<Longrightarrow> hub_run g init J B (leave c h)"
| retired: "hub_run g init J B h \<Longrightarrow> hub_run g init J B (retire h)"
| switched: "hub_run g init J B h \<Longrightarrow> hub_run g init J B (activate_store q h)"

text \<open>The runs in which no connection joined beyond the log.\<close>

definition hub_reachable :: "nat \<Rightarrow> (nat \<Rightarrow> nat) \<Rightarrow> nat set \<Rightarrow> hub \<Rightarrow> bool" where
  "hub_reachable g init J h \<longleftrightarrow> hub_run g init J {} h"

lemma created_inv:
  assumes "authority_reachable s" "faults s = []" "current_generation (tables s) = Some g" "bound_to a = Some g" "0 < b"
  shows "hub_inv g {} {} init {} (createSyncHub a b s init sc)"
  using reachable_inv [OF assms(1)] assms
  by (simp add: hub_inv_def synced_def alive_def core_def createSyncHub_def members_def generation_of_def)

lemma retire_inv: "hub_inv g J B init S h \<Longrightarrow> hub_inv g J B init S (retire h)"
  by (rule hub_inv_ended, rule retire_ended, rule hub_inv_streams)

lemma hub_run_inv: "hub_run g init J B h \<Longrightarrow> hub_inv g J B init {} h"
proof (induction rule: hub_run.induct)
  case (joined J B h c)
  show ?case
  proof (cases "within_log c h")
    case True
    with hub_inv_more [OF joined(2)] show ?thesis by (simp add: within_log_def join_inv)
  next
    case False
    with hub_inv_ahead [OF joined(2), of c] show ?thesis by (simp add: join_inv)
  qed
qed (simp_all add: created_inv receive_inv leave_inv activate_inv retire_inv)

lemma hub_reachable_inv: "hub_reachable g init J h \<Longrightarrow> hub_inv g J {} init {} h"
  by (simp add: hub_reachable_def hub_run_inv)

lemma hub_reachable_created:
  "authority_reachable s \<Longrightarrow> faults s = [] \<Longrightarrow> current_generation (tables s) = Some g \<Longrightarrow>
    bound_to a = Some g \<Longrightarrow> 0 < b \<Longrightarrow> hub_reachable g init {} (createSyncHub a b s init sc)"
  by (simp add: hub_reachable_def hub_run.created)

lemma hub_reachable_joined:
  "hub_reachable g init J h \<Longrightarrow> cursors h c \<le> head (tables (store h)) \<Longrightarrow> hub_reachable g init (insert c J) (fst (join c h))"
  using hub_run.joined [of g init J "{}" h c] by (simp add: hub_reachable_def within_log_def)

section \<open>A hub nobody interrupts\<close>

text \<open>
  With no callbacks and a storage that commits, the operations have exact results. \<open>quiet\<close> says
  so of a hub whose generation is current.
\<close>

definition quiet :: "nat \<Rightarrow> hub \<Rightarrow> bool" where
  "quiet g h \<longleftrightarrow> script h = [] \<and> faults (store h) = [] \<and> bound_to (authority h) = Some g
     \<and> current_generation (tables (store h)) = Some g \<and> lifetime h \<noteq> None
     \<and> authority_inv (tables (store h)) \<and> 0 < batch h"

definition entry_frames :: "nat \<times> bytes \<Rightarrow> frame list" where
  "entry_frames e = map (\<lambda>(i, b). EntryFrame (fst e) i (length (chunks_of (snd e))) b) (enumerate 0 (chunks_of (snd e)))"

definition snapshot_frames :: "nat \<times> bytes \<Rightarrow> frame list" where
  "snapshot_frames e = map (\<lambda>(i, b). SnapshotFrame (fst e) i (length (chunks_of (snd e))) b) (enumerate 0 (chunks_of (snd e)))"

text \<open>What a connection at position \<open>p\<close> is missing, up to position \<open>m\<close>.\<close>

definition missing :: "nat \<Rightarrow> nat \<Rightarrow> db \<Rightarrow> frame list" where
  "missing p m d =
     (if p < snapshotPosition d then snapshot_frames (last (snapshots d)) else [])
     @ concat (map entry_frames (filter (\<lambda>e. max p (snapshotPosition d) < fst e \<and> fst e \<le> m) (log_entries d)))"

definition put :: "nat \<Rightarrow> frame list \<Rightarrow> hub \<Rightarrow> hub" where
  "put c fs h = h\<lparr>wire := wire h @ map (\<lambda>f. (c, encodeFrame f)) fs\<rparr>"

lemma put_frame [simp]:
  "script (put c fs h) = script h" "store (put c fs h) = store h" "authority (put c fs h) = authority h"
  "lifetime (put c fs h) = lifetime h" "batch (put c fs h) = batch h" "cursors (put c fs h) = cursors h"
  "dispatchDepth (put c fs h) = dispatchDepth h" "wire (put c fs h) = wire h @ map (\<lambda>f. (c, encodeFrame f)) fs"
  by (simp_all add: put_def)

lemma put_put: "put c gs (put c fs h) = put c (fs @ gs) h"
  by (simp add: put_def)

lemma put_nil [simp]: "put c [] h = h"
  by (simp add: put_def)

lemma put_move: "put c fs (move_cursor x p h) = move_cursor x p (put c fs h)"
  by (simp add: put_def move_cursor_def)

lemma move_move: "move_cursor c q (move_cursor c p h) = move_cursor c q h"
  by (simp add: move_cursor_def)

lemma move_same [simp]: "move_cursor c (cursors h c) h = h"
  by (simp add: move_cursor_def)

lemma quiet_put [simp]: "quiet g (put c fs h) = quiet g h"
  by (simp add: quiet_def)

lemma quiet_move [simp]: "quiet g (move_cursor c p h) = quiet g h"
  by (simp add: quiet_def)

lemma admission_quiet: "quiet g h \<Longrightarrow> admission h = (h, Inr ())"
proof -
  assume q: "quiet g h"
  then have "(store h)\<lparr>faults := []\<rparr> = store h" by (simp add: quiet_def)
  moreover have "a_admission (authority h) (store h) = ((store h)\<lparr>faults := []\<rparr>, Inr ())"
    using q by (simp add: quiet_def a_admission_def reading_verb admission_check_def fault_now_def)
  ultimately show ?thesis using q by (auto simp: admission_def ask_def quiet_def Let_def)
qed

lemma ask_quiet:
  assumes "quiet g h"
  shows "ask (\<lambda>a s. run a s (reading f)) h = (h, Inr (f (tables (store h))))"
    and "ask (\<lambda>a s. run a s (reading (f' a))) h = (h, Inr (f' (authority h) (tables (store h))))"
proof -
  have "(store h)\<lparr>faults := []\<rparr> = store h" "h\<lparr>store := store h\<rparr> = h" using assms by (simp_all add: quiet_def)
  then show "ask (\<lambda>a s. run a s (reading f)) h = (h, Inr (f (tables (store h))))"
    "ask (\<lambda>a s. run a s (reading (f' a))) h = (h, Inr (f' (authority h) (tables (store h))))"
    using assms by (simp_all add: ask_def reading_verb quiet_def admission_check_def fault_now_def)
qed

lemmas reads_quiet = ask_quiet(1) [where f = "log_since p n" for p n, folded a_since_def]
  ask_quiet(1) [where f = log_snapshot, folded a_snapshot_def [abs_def]]
  ask_quiet(1) [where f = head, folded a_head_def [abs_def]]
  ask_quiet(2) [where f' = "\<lambda>a. log_shouldSnapshot (snapshotFloorBytes a)", folded a_shouldSnapshot_def [abs_def]]

lemma send_quiet: "quiet g h \<Longrightarrow> send c (encodeFrame f) h = (put c [f] h, Inr ())"
proof -
  assume q: "quiet g h"
  then have "emit c (encodeFrame f) h = put c [f] h" by (simp add: emit_silent put_def quiet_def)
  with q admission_quiet [OF q] admission_quiet [of g "put c [f] h"] show ?thesis by (simp add: send_def)
qed

lemma send_chunks_quiet:
  "quiet g h \<Longrightarrow> send_chunks c mk i cs h = (put c (map (\<lambda>(i, b). mk i b) (enumerate i cs)) h, Inr ())"
  by (induction cs arbitrary: i h) (simp_all add: send_quiet put_put)

lemma catchUp_quiet:
  assumes "quiet g h"
  shows "catchUpToSnapshot c h =
    (move_cursor c (max (cursors h c) (snapshotPosition (tables (store h))))
       (put c (if cursors h c < snapshotPosition (tables (store h))
               then snapshot_frames (last (snapshots (tables (store h)))) else []) h), Inr ())"
proof -
  let ?d = "tables (store h)"
  have "log_inv ?d" "snapshots ?d \<noteq> []" using assms by (auto simp: quiet_def authority_inv_def)
  then have snap: "log_snapshot ?d = Some (last (snapshots ?d))" and pos: "fst (last (snapshots ?d)) = snapshotPosition ?d"
    using log_snapshot_state [of ?d "snapshots ?d"] snapshotPosition_of [of ?d]
    by (auto simp: log_inv_def base_position_def)
  show ?thesis using pos
    by (cases "last (snapshots ?d)")
      (auto simp: catchUpToSnapshot_def reads_quiet [OF assms] snap Let_def send_chunks_quiet [OF assms]
        snapshot_frames_def max_def not_le not_less)
qed

lemma deliver_entries_quiet:
  "quiet g h \<Longrightarrow> (\<And>e. e \<in> set es \<Longrightarrow> k = None \<or> fst e \<le> the k) \<Longrightarrow>
   deliver_entries c k es h =
     (move_cursor c (if es = [] then cursors h c else fst (last es)) (put c (concat (map entry_frames es)) h), None)"
proof (induction es arbitrary: h)
  case (Cons e es)
  obtain seq bs where e: "e = (seq, bs)" by fastforce
  from Cons.prems(2) [of e] have k: "\<not> (k \<noteq> None \<and> the k < seq)" by (auto simp: e)
  let ?h = "move_cursor c seq (put c (entry_frames e) h)"
  have "deliver_entries c k (e # es) h = deliver_entries c k es ?h"
    using k Cons.prems(1) by (cases k) (simp_all add: e send_chunks_quiet entry_frames_def Let_def)
  with Cons.IH [of ?h] Cons.prems show ?case
    by (auto simp: put_move put_put move_move e)
qed simp

lemma deliver_entries_step:
  "deliver_entries c k (e # es) h =
     (let r = send_chunks c (\<lambda>i b. EntryFrame (fst e) i (length (chunks_of (snd e))) b) 0 (chunks_of (snd e)) h in
      if k \<noteq> None \<and> the k < fst e then (h, Some (Inr ()))
      else if is_err (snd r) then (fst r, Some (snd r))
      else deliver_entries c k es (move_cursor c (fst e) (fst r)))"
  by (cases e) (simp add: case_prod_unfold Let_def)

lemma deliver_entries_append:
  "deliver_entries c k (es @ fs) h =
     (case snd (deliver_entries c k es h) of
        Some r \<Rightarrow> (fst (deliver_entries c k es h), Some r)
      | None \<Rightarrow> deliver_entries c k fs (fst (deliver_entries c k es h)))"
proof (induction es arbitrary: h)
  case (Cons e es)
  let ?r = "send_chunks c (\<lambda>i b. EntryFrame (fst e) i (length (chunks_of (snd e))) b) 0 (chunks_of (snd e)) h"
  show ?case using Cons.IH
    by (cases k; cases "the k < fst e"; cases "is_err (snd ?r)")
      (simp_all add: deliver_entries_step Let_def del: deliver_entries.simps(2) split: option.split)
qed simp

lemma deliver_entries_keeps:
  "quiet g h \<Longrightarrow> quiet g (fst (deliver_entries c k es h)) \<and> store (fst (deliver_entries c k es h)) = store h"
  by (induction es arbitrary: h)
    (simp_all add: deliver_entries_step Let_def send_chunks_quiet del: deliver_entries.simps(2))

lemma sorted_split:
  fixes es :: "(nat \<times> 'b) list"
  shows "sorted_wrt (<) (map fst es) \<Longrightarrow> es = filter (\<lambda>e. fst e \<le> m) es @ filter (\<lambda>e. m < fst e) es"
proof (induction es)
  case (Cons e es)
  have "filter (\<lambda>e. fst e \<le> m) es = []" if "m < fst e" using Cons.prems that by (auto simp: filter_empty_conv)
  with Cons show ?case by (auto simp: not_le)
qed simp

lemma filter_upt_le: "m \<le> b \<Longrightarrow> filter (\<lambda>x. x \<le> m) [a..<b + 1] = [a..<m + 1]"
proof (induction b)
  case (Suc b)
  then show ?case by (cases "m = Suc b") (auto simp: filter_empty_conv)
qed simp

lemma last_numbered:
  assumes "map fst xs = [p + 1..<m + 1]" and "p \<le> m"
  shows "(if xs = [] then p else fst (last xs)) = (m::nat)"
proof (cases "xs = []")
  case True
  with assms show ?thesis by (auto split: if_splits)
next
  case False
  then have "p < m" using assms by (cases "p = m") auto
  moreover have "fst (last xs) = last [p + 1..<m + 1]" using False assms(1) by (metis last_map)
  ultimately show ?thesis using False by simp
qed

definition ends :: "hub \<times> (authority_error, unit) result option \<Rightarrow> hub \<times> (authority_error, unit) result" where
  "ends r = (fst r, case snd r of None \<Rightarrow> Inr () | Some x \<Rightarrow> x)"

text \<open>The batches add up: the loop is one pass over everything after the cursor.\<close>

lemma deliver_loop_one_pass:
  assumes "quiet g h" and "snapshotPosition d \<le> cursors h c" and "d = tables (store h)"
  shows "deliver_loop c k h = ends (deliver_entries c k (filter (\<lambda>e. cursors h c < fst e) (log_entries d)) h)"
  using assms
proof (induction "head d - cursors h c" arbitrary: h rule: less_induct)
  case less
  let ?p = "cursors h c" and ?es = "log_since (cursors h c) (batch h) d"
  let ?A = "\<lambda>p. filter (\<lambda>e. p < fst e) (log_entries d)" and ?D = "deliver_entries c k (log_since (cursors h c) (batch h) d) h"
  have inv: "log_inv d" and b: "0 < batch h" using less.prems by (auto simp: quiet_def authority_inv_def)
  have read: "ask (\<lambda>a. a_since a ?p (batch h)) h = (h, Inr ?es)" using reads_quiet(1) [OF less.prems(1)] less.prems(3) by simp
  note bounds = entry.since_bound [OF inv less.prems(2)]
  show ?case
  proof (cases "?es = []")
    case True
    then have "head d \<le> ?p" using entry.since_empty [OF inv less.prems(2) b] by blast
    then have "?A ?p = []" using entry.above_numbers [OF inv less.prems(2)] by simp
    with True read show ?thesis by (subst deliver_loop.simps) (simp add: ends_def)
  next
    case False
    have rest: "?A ?p = ?es @ ?A (fst (last ?es))" by (rule entry.since_rest [OF inv False])
    have eq: "deliver_loop c k h = (case snd ?D of Some res \<Rightarrow> (fst ?D, res)
        | None \<Rightarrow> if length ?es < batch h then (fst ?D, Inr ()) else deliver_loop c k (fst ?D))"
      using False read by (subst deliver_loop.simps) (simp add: case_prod_unfold Let_def)
    show ?thesis
    proof (cases "snd ?D")
      case (Some r)
      then show ?thesis unfolding rest deliver_entries_append by (simp add: eq ends_def)
    next
      case None
      have cur: "cursors (fst ?D) c = fst (last ?es)" using deliver_entries_all [OF None] False by simp
      have keep: "quiet g (fst ?D)" "store (fst ?D) = store h" using deliver_entries_keeps [OF less.prems(1)] by auto
      have last: "?p < fst (last ?es)" "fst (last ?es) \<le> head d" using bounds [OF last_in_set [OF False]] by auto
      have "deliver_loop c k (fst ?D) = ends (deliver_entries c k (?A (fst (last ?es))) (fst ?D))"
        using less.hyps [of "fst ?D"] cur keep last less.prems by simp
      moreover have "?A (fst (last ?es)) = []" if "length ?es < batch h"
      proof -
        have es: "?es = take (batch h) (?A ?p)" by (rule entry.since_reads [OF inv])
        from that have "?es = ?A ?p" unfolding es by simp
        with rest show ?thesis by (metis append_self_conv)
      qed
      ultimately have "deliver_loop c k h = ends (deliver_entries c k (?A (fst (last ?es))) (fst ?D))"
        unfolding eq None by (simp add: ends_def)
      then show ?thesis unfolding rest deliver_entries_append None by simp
    qed
  qed
qed

lemma ends_ceiling: "es = [] \<or> (k \<noteq> None \<and> the k < fst (hd es)) \<Longrightarrow> ends (deliver_entries c k es h) = (h, Inr ())"
  by (cases es) (auto simp: ends_def deliver_entries_step Let_def simp del: deliver_entries.simps(2))

lemma deliver_quiet:
  assumes q: "quiet g h" and d: "d = tables (store h)" and m: "cursors h c \<le> m" "snapshotPosition d \<le> m" "within k m d"
  shows "deliver c k h = (move_cursor c m (put c (missing (cursors h c) m d) h), Inr ())"
proof -
  let ?p = "max (cursors h c) (snapshotPosition d)"
  let ?h = "move_cursor c ?p (put c (if cursors h c < snapshotPosition d then snapshot_frames (last (snapshots d)) else []) h)"
  let ?A = "filter (\<lambda>e. ?p < fst e) (log_entries d)"
  let ?le = "filter (\<lambda>e. fst e \<le> m) ?A" and ?gt = "filter (\<lambda>e. m < fst e) ?A"
  have inv: "log_inv d" using q by (auto simp: quiet_def authority_inv_def d)
  have nums: "map fst ?A = [?p + 1..<head d + 1]" by (rule entry.above_numbers [OF inv]) simp
  have "deliver c k h = deliver_loop c k ?h"
    by (simp add: deliver_def admission_quiet [OF q] catchUp_quiet [OF q] d)
  also have "\<dots> = ends (deliver_entries c k ?A ?h)"
    using q d by (subst deliver_loop_one_pass [where d = d and g = g]) simp_all
  also have "?A = ?le @ ?gt" by (rule sorted_split, subst nums) (simp del: upt_Suc)
  also have "ends (deliver_entries c k (?le @ ?gt) ?h)
      = (move_cursor c (if ?le = [] then ?p else fst (last ?le)) (put c (concat (map entry_frames ?le)) ?h), Inr ())"
  proof -
    have le: "deliver_entries c k ?le ?h
        = (move_cursor c (if ?le = [] then ?p else fst (last ?le)) (put c (concat (map entry_frames ?le)) ?h), None)"
      using q m(3) by (subst deliver_entries_quiet [where g = g]) (auto simp: within_def split: option.splits)
    have top: "fst e \<le> head d" if "e \<in> set ?A" for e
    proof -
      have "fst e \<in> set (map fst ?A)" using that by simp
      then show ?thesis unfolding nums by (simp del: upt_Suc)
    qed
    have "?gt = [] \<or> (k \<noteq> None \<and> the k < fst (hd ?gt))"
    proof (cases k)
      case None
      then have "m = head d" using m(3) by (simp add: within_def)
      then have "?gt = []" using top by (intro filter_False) (simp add: not_less)
      then show ?thesis by simp
    next
      case (Some x)
      then have "x = m" using m(3) by (simp add: within_def)
      have "hd ?gt \<in> set ?gt" if "?gt \<noteq> []" using that by (rule list.set_sel(1))
      then have "m < fst (hd ?gt)" if "?gt \<noteq> []" using that unfolding set_filter by blast
      with Some \<open>x = m\<close> show ?thesis by (cases "?gt = []") simp_all
    qed
    from ends_ceiling [OF this] show ?thesis unfolding deliver_entries_append le by simp
  qed
  also have "(if ?le = [] then ?p else fst (last ?le)) = m"
  proof -
    have "map fst ?le = filter (\<lambda>x. x \<le> m) [?p + 1..<head d + 1]" unfolding nums [symmetric] by (simp add: filter_map comp_def)
    also have "\<dots> = [?p + 1..<m + 1]" using m(3) by (intro filter_upt_le) (simp add: within_def)
    finally show ?thesis using m(1,2) by (intro last_numbered) simp_all
  qed
  also have "put c (concat (map entry_frames ?le)) ?h = move_cursor c ?p (put c (missing (cursors h c) m d) h)"
    by (simp add: missing_def put_move put_put conj_commute)
  finally show ?thesis by (simp add: move_move)
qed

section \<open>Between calls\<close>

text \<open>Between calls nothing is queued, no dispatch is open and no connection is listed twice.\<close>

definition distinct_members :: "hub \<Rightarrow> bool" where
  "distinct_members h \<longleftrightarrow> (\<forall>l. lifetime h = Some l \<longrightarrow> distinct (map fst (connections l)))"

definition settled :: "hub \<Rightarrow> bool" where
  "settled h \<longleftrightarrow> dispatchDepth h = 0 \<and> (\<forall>l. lifetime h = Some l \<longrightarrow> pending l = [])"

lemma distinct_leave: "distinct_members h \<Longrightarrow> distinct_members (leave c h)"
  by (auto simp: distinct_members_def leave_def AList.distinct_delete)

lemma distinct_frame [simp]:
  "distinct_members (enqueue c m h) = distinct_members h" "distinct_members (activate_store q h) = distinct_members h"
  "distinct_members (retire h)" "distinct_members (h\<lparr>dispatchDepth := n\<rparr>) = distinct_members h"
  by (auto simp: distinct_members_def enqueue_def activate_store_def)

lemma distinct_react: "distinct_members h \<Longrightarrow> distinct_members (react rs h)"
  by (induction rs h rule: react.induct) (simp_all add: distinct_leave)

lemma distinct_emit: "distinct_members h \<Longrightarrow> distinct_members (emit c bs h)"
  unfolding emit_def by (rule distinct_react) (simp add: distinct_members_def put_wire_def)

interpretation distinct: hub_processes "\<lambda>h h'. distinct_members h \<longrightarrow> distinct_members h'"
  by (unfold_locales, auto simp: distinct_emit)
    (auto simp: distinct_members_def set_collector_def AList.distinct_update)

interpretation frame: hub_processes same_frame
  by unfold_locales (auto simp: same_frame_def)

lemma drain_loop_settles:
  "dispatchDepth (drain_loop h) = dispatchDepth h \<and> (distinct_members h \<longrightarrow> distinct_members (drain_loop h))
   \<and> (\<forall>l. lifetime (drain_loop h) = Some l \<longrightarrow> pending l = [])"
proof (induction h rule: drain_loop.induct)
  case (1 h)
  show ?case
  proof (cases "\<exists>l c m rest. lifetime h = Some l \<and> pending l = (c, m) # rest")
    case True
    then obtain l c m rest where l: "lifetime h = Some l" "pending l = (c, m) # rest" by blast
    let ?h = "h\<lparr>lifetime := Some (l\<lparr>pending := rest\<rparr>)\<rparr>"
    have "dispatchDepth (process c m ?h) = dispatchDepth h" using frame.process [of ?h c m] by (simp add: same_frame_def)
    moreover have "distinct_members h \<longrightarrow> distinct_members (process c m ?h)"
      using distinct.process [of ?h c m] l(1) by (auto simp: distinct_members_def)
    moreover have "drain_loop h = drain_loop (process c m ?h)" using l by (subst drain_loop.simps) simp
    ultimately show ?thesis using "1.IH" [OF l HOL.refl] by simp
  next
    case False
    then have "drain_loop h = h" by (subst drain_loop.simps) (auto split: option.split list.split)
    moreover have "pending l = []" if "lifetime h = Some l" for l
      using False that by (cases "pending l") (auto simp del: split_paired_Ex)
    ultimately show ?thesis by simp
  qed
qed

lemma drain_settles:
  assumes "dispatchDepth h = 0" shows "settled (drain h)" and "distinct_members h \<Longrightarrow> distinct_members (drain h)"
  using assms drain_loop_settles [of "h\<lparr>dispatchDepth := 1\<rparr>"]
  by (auto simp: settled_def drain_def Let_def distinct_members_def)

lemma notifyRetired_settled: "settled (notifyRetired c h) = settled h" "distinct_members (notifyRetired c h) = distinct_members h"
  by (simp_all add: settled_def distinct_members_def)

lemma join_settles:
  assumes "settled h" and "distinct_members h"
  shows "settled (fst (join c h)) \<and> distinct_members (fst (join c h))"
proof (cases "is_err (snd (admission h))")
  case True
  have "settled (fst (admission h))" "distinct_members (fst (admission h))"
    using assms by (rule_tac [!] admission_cases [of h]) (simp_all add: settled_def distinct_members_def)
  with True show ?thesis by (simp add: join_def case_prod_unfold Let_def notifyRetired_settled)
next
  case False
  let ?h1 = "fst (admission h)"
  let ?h2 = "set_collector c (createChunkCollector BUFFER_CEILING_BYTES) (?h1\<lparr>dispatchDepth := dispatchDepth ?h1 + 1\<rparr>)"
  let ?g = "send c (encodeFrame AdmittedFrame) ?h2"
  have d1: "dispatchDepth ?h1 = 0" using frame.admission [of h] assms(1) by (simp add: same_frame_def settled_def)
  have "distinct_members ?h1" using distinct.admission [of h] assms(2) by blast
  then have "distinct_members ?h2"
    using distinct.collects [of "?h1\<lparr>dispatchDepth := dispatchDepth ?h1 + 1\<rparr>"] by simp
  then have g: "distinct_members (fst ?g)" "dispatchDepth (fst ?g) = 1"
    using distinct.send [of ?h2 c "encodeFrame AdmittedFrame"] frame.send [of ?h2 c "encodeFrame AdmittedFrame"] d1
    by (simp_all add: same_frame_def)
  have dl: "distinct_members (fst (deliver c None (fst ?g)))" "dispatchDepth (fst (deliver c None (fst ?g))) = 1"
    using distinct.deliver [of "fst ?g" c None] frame.deliver [of "fst ?g" c None] g by (simp_all add: same_frame_def)
  have "settled (drain (h'\<lparr>dispatchDepth := dispatchDepth h' - 1\<rparr>)) \<and> distinct_members (drain (h'\<lparr>dispatchDepth := dispatchDepth h' - 1\<rparr>))"
    if "dispatchDepth h' = 1" "distinct_members h'" for h'
    using drain_settles [of "h'\<lparr>dispatchDepth := dispatchDepth h' - 1\<rparr>"] that by simp
  with g dl False show ?thesis
    by (simp add: join_def case_prod_unfold Let_def distinct_leave del: encodeFrame.simps)
qed

lemma hub_run_settled: "hub_run g init J B h \<Longrightarrow> settled h \<and> distinct_members h"
proof (induction rule: hub_run.induct)
  case (joined J B h c)
  then show ?case using join_settles by blast
next
  case (received J B h c m)
  have "distinct_members (enqueue c m h)" "dispatchDepth (enqueue c m h) = 0"
    using received by (simp_all add: settled_def)
  with drain_settles show ?case by (simp add: receive_def)
next
  case (created s a b sc)
  show ?case by (simp add: settled_def distinct_members_def createSyncHub_def)
next
  case (left J B h c)
  then show ?case by (auto simp: settled_def leave_def distinct_leave [unfolded leave_def])
next
  case (switched J B h q)
  then show ?case by (simp add: settled_def) (simp add: activate_store_def)
qed (simp add: settled_def)

lemma hub_reachable_settled: "hub_reachable g init J h \<Longrightarrow> settled h \<and> distinct_members h"
  by (simp add: hub_reachable_def hub_run_settled)

lemma reachable_quiet:
  assumes "hub_reachable g init J h" and "script h = []" and "current_generation (tables (store h)) = Some g"
    and "c \<in> members h"
  shows "quiet g h" and "\<And>x. x \<in> members h \<Longrightarrow> cursors h x = head (tables (store h))"
proof -
  have "\<not> zombie g J {} init h" using assms(3,4) by (auto simp: zombie_def gone_def generation_of_def members_def)
  then have sy: "synced g J {} init {} h" using hub_reachable_inv [OF assms(1)] by (simp add: hub_inv_def)
  then show "quiet g h" using assms(2,3) by (auto simp: quiet_def synced_def alive_def core_def)
  show "\<And>x. x \<in> members h \<Longrightarrow> cursors h x = head (tables (store h))" using sy by (simp add: synced_def)
qed

lemma update_same: "map_of al c = Some k \<Longrightarrow> AList.update c k al = al"
  by (induction al) (auto split: if_splits)

lemma set_collector_same: "collector_of c h = Some k \<Longrightarrow> set_collector c k h = h"
  by (cases "lifetime h") (simp_all add: set_collector_def collector_of_def update_same)

lemma missing_nothing: "snapshotPosition d \<le> p \<Longrightarrow> missing p p d = []"
  by (auto simp: missing_def filter_empty_conv)

lemma missing_last:
  assumes "log_inv d" and "log_entries d' = log_entries d @ [(head d + 1, bs)]" "snapshotPosition d' = snapshotPosition d"
  shows "missing (head d) (head d + 1) d' = entry_frames (head d + 1, bs)"
proof -
  have "fst e \<le> head d" if "e \<in> set (log_entries d)" for e
    using log_state_below_head [of d "snapshots d" "log_entries d" e] assms(1) that by (simp add: log_inv_def)
  then have "filter (\<lambda>e. head d < fst e \<and> fst e \<le> Suc (head d)) (log_entries d) = []"
    by (auto simp: filter_empty_conv dest!: leD)
  then show ?thesis
    using snapshotPosition_head [of d] by (simp add: missing_def assms(2,3) max_def)
qed

lemma relay_quiet:
  assumes "quiet g h" and "lifetime h = Some l" and "set os \<subseteq> fst ` set (connections l)" and "distinct os"
    and "d = tables (store h)" and "\<And>x. x \<in> set os \<Longrightarrow> cursors h x = p" and "p \<le> head d"
  shows "relay os h = h\<lparr>wire := wire h @ concat (map (\<lambda>x. map (\<lambda>f. (x, encodeFrame f)) (missing p (head d) d)) os),
    cursors := (\<lambda>x. if x \<in> set os then head d else cursors h x)\<rparr>"
  using assms
proof (induction os arbitrary: h)
  case (Cons c os)
  have m: "map_of (connections l) c \<noteq> None" using Cons.prems(3) by (auto simp: map_of_eq_None_iff)
  have "deliver c None h = (move_cursor c (head d) (put c (missing (cursors h c) (head d) d) h), Inr ())"
    using Cons.prems snapshotPosition_head [of d] by (intro deliver_quiet) (auto simp: within_def)
  then have step: "relay (c # os) h = relay os (move_cursor c (head d) (put c (missing p (head d) d) h))"
    using m Cons.prems(2,6) by auto
  let ?h = "move_cursor c (head d) (put c (missing p (head d) d) h)"
  have "relay os ?h = ?h\<lparr>wire := wire ?h @ concat (map (\<lambda>x. map (\<lambda>f. (x, encodeFrame f)) (missing p (head d) d)) os),
      cursors := (\<lambda>x. if x \<in> set os then head d else cursors ?h x)\<rparr>"
    by (rule Cons.IH) (use Cons.prems in auto)
  then show ?case unfolding step by (auto simp: put_def move_cursor_def fun_eq_iff)
qed simp

lemma askForSnapshot_quiet:
  assumes "quiet g h" and "cursors h c = head (tables (store h))" and "head (tables (store h)) \<noteq> 0"
  shows "askForSnapshot c h =
    (if log_shouldSnapshot (snapshotFloorBytes (authority h)) (tables (store h))
     then put c [WantedFrame (head (tables (store h)))] h else h)"
  using assms(2,3)
  by (simp add: askForSnapshot_def reads_quiet [OF assms(1)] send_quiet [OF assms(1)] Let_def del: encodeFrame.simps)

text \<open>What a push of one chunk does on a hub nobody interrupts.\<close>

lemma process_push_quiet:
  assumes q: "quiet g h" and l: "lifetime h = Some l" and c: "collector_of c h = Some k"
    and "distinct_members h" and at: "\<And>x. x \<in> members h \<Longrightarrow> cursors h x = head (tables (store h))"
    and d: "d = tables (store h)"
    and a: "a_append (authority h) bs (store h) = (s', Inr (head d + 1))"
    and s': "faults s' = []" "current_generation (tables s') = Some g" "authority_inv (tables s')"
      "log_entries (tables s') = log_entries d @ [(head d + 1, bs)]" "snapshotPosition (tables s') = snapshotPosition d"
      "head (tables s') = head d + 1"
  shows "process_push c k (PushFrame n 0 1 bs) n h = h\<lparr>store := s',
    cursors := (\<lambda>x. if x \<in> members h then head d + 1 else cursors h x),
    wire := wire h @ [(c, encodeFrame (AckFrame n (head d + 1)))]
      @ concat (map (\<lambda>x. map (\<lambda>f. (x, encodeFrame f)) (entry_frames (head d + 1, bs)))
          (filter (\<lambda>x. x \<noteq> c) (map fst (connections l))))
      @ (if log_shouldSnapshot (snapshotFloorBytes (authority h)) (tables s')
         then [(c, encodeFrame (WantedFrame (head d + 1)))] else [])\<rparr>"
proof -
  let ?h2 = "h\<lparr>store := s'\<rparr>" and ?p = "head d" and ?os = "filter (\<lambda>x. x \<noteq> c) (map fst (connections l))"
  have inv: "log_inv d" using q by (auto simp: quiet_def authority_inv_def d)
  have mem: "c \<in> members h" "members h = fst ` set (connections l)" using collector_member [OF c] l by (auto simp: members_def)
  have q2: "quiet g ?h2" using q s' by (simp add: quiet_def)
  have "deliver c (Some ?p) ?h2 = (move_cursor c ?p (put c (missing ?p ?p (tables s')) ?h2), Inr ())"
    using at [OF mem(1)] s'(5,6) snapshotPosition_head [of d] d
    by (subst deliver_quiet [OF q2 HOL.refl, of c ?p]) (simp_all add: within_def)
  also have "missing ?p ?p (tables s') = []" using s'(5) snapshotPosition_head [of d] by (intro missing_nothing) simp
  finally have dl: "deliver c (Some ?p) ?h2 = (?h2, Inr ())"
    using at [OF mem(1)] d by (simp add: move_cursor_def fun_upd_idem)
  let ?h5 = "put c [AckFrame n (?p + 1)] (move_cursor c (?p + 1) ?h2)"
  have q5: "quiet g ?h5" using q2 by simp
  have re: "relay ?os ?h5 = ?h5\<lparr>wire := wire ?h5 @ concat (map (\<lambda>x. map (\<lambda>f. (x, encodeFrame f)) (missing ?p (head (tables s')) (tables s'))) ?os),
      cursors := (\<lambda>x. if x \<in> set ?os then head (tables s') else cursors ?h5 x)\<rparr>"
    by (rule relay_quiet [OF q5]) (use l at mem d s'(6) assms(4) in \<open>auto simp: distinct_members_def\<close>)
  have "process_push c k (PushFrame n 0 1 bs) n h = askForSnapshot c (relay ?os ?h5)"
    using send_quiet [of g "move_cursor c (?p + 1) ?h2" c "AckFrame n (?p + 1)"] q2 l
    by (simp add: process_push_def accept_def accept_chunk_def set_collector_same [OF c] ask_def a dl Let_def
        del: encodeFrame.simps)
  also have "\<dots> = (if log_shouldSnapshot (snapshotFloorBytes (authority h)) (tables s')
      then put c [WantedFrame (?p + 1)] (relay ?os ?h5) else relay ?os ?h5)"
  proof -
    have q6: "quiet g (relay ?os ?h5)" unfolding re using q5 by (simp add: quiet_def)
    have f: "tables (store (relay ?os ?h5)) = tables s'" "authority (relay ?os ?h5) = authority h"
      "cursors (relay ?os ?h5) c = ?p + 1" unfolding re by simp_all
    show ?thesis using askForSnapshot_quiet [OF q6, of c] unfolding f s'(6) by simp
  qed
  moreover have cu: "(\<lambda>x. if x \<in> set ?os then head (tables s') else cursors ?h5 x)
      = (\<lambda>x. if x \<in> members h then ?p + 1 else cursors h x)"
    using mem by (auto simp: s'(6) fun_eq_iff)
  ultimately show ?thesis unfolding re cu unfolding s'(6) missing_last [OF inv s'(4,5)]
    by (simp add: put_def move_cursor_def del: encodeFrame.simps)
qed

lemma drain_idle: "settled h \<Longrightarrow> drain h = h"
  by (subst drain_def, subst drain_loop.simps) (auto simp: settled_def split: option.split list.split)

lemma quiet_collector [simp]: "quiet g (set_collector c k h) = quiet g h"
  by (simp add: quiet_def)

lemma join_quiet:
  assumes q: "quiet g h" and st: "settled h" and c: "cursors h c \<le> head (tables (store h))"
  shows "join c h =
    (move_cursor c (head (tables (store h)))
       (put c (AdmittedFrame # missing (cursors h c) (head (tables (store h))) (tables (store h)))
         (set_collector c (createChunkCollector BUFFER_CEILING_BYTES) h)), Admitted)"
proof -
  let ?k = "createChunkCollector BUFFER_CEILING_BYTES" and ?d = "tables (store h)"
  let ?h2 = "set_collector c ?k (h\<lparr>dispatchDepth := dispatchDepth h + 1\<rparr>)"
  let ?ms = "missing (cursors h c) (head ?d) ?d"
  have q2: "quiet g ?h2" using q by (simp add: quiet_def)
  have q3: "quiet g (put c [AdmittedFrame] ?h2)" using q2 by simp
  have dl: "deliver c None (put c [AdmittedFrame] ?h2) = (move_cursor c (head ?d) (put c ?ms (put c [AdmittedFrame] ?h2)), Inr ())"
    by (subst deliver_quiet [OF q3 HOL.refl, of c "head ?d"]) (use c snapshotPosition_head in \<open>simp_all add: within_def\<close>)
  let ?h4 = "move_cursor c (head ?d) (put c ?ms (put c [AdmittedFrame] ?h2))"
  have h5: "?h4\<lparr>dispatchDepth := dispatchDepth ?h4 - 1\<rparr>
      = move_cursor c (head ?d) (put c (AdmittedFrame # ?ms) (set_collector c ?k h))" (is "_ = ?r")
    by (simp add: move_cursor_def put_def set_collector_def)
  have "settled ?r" using st by (auto simp: settled_def set_collector_def)
  then have dr: "drain ?r = ?r" by (rule drain_idle)
  have "join c h = (let h6 = drain (?h4\<lparr>dispatchDepth := dispatchDepth ?h4 - 1\<rparr>) in
      (h6, if lifetime h6 = None then Retired else Admitted))"
    unfolding join_def admission_quiet [OF q] by (simp only: prod.case Let_def sum.disc send_quiet [OF q2] dl if_False if_True not_False_eq_True)
  also have "\<dots> = (?r, Admitted)" unfolding h5 dr Let_def using q by (simp add: quiet_def)
  finally show ?thesis .
qed

section \<open>Properties\<close>

text \<open>
  Claim C2 (hub_stream_complete). Whatever peers send, however they answer inside a send, leave or
  replace the generation, on a storage that does not fail every byte string the hub sends to a
  connection is an encoded frame, and together they form a stream a replica can follow from
  the cursor it joined at: entries and acknowledgements are exactly the next position,
  snapshots jump ahead, chunks are in order. And between calls every member of a hub whose
  generation is current has been sent the log to its head. This holds of every connection that
  never joined at a cursor beyond the head of the log. The hub admits such a join unchecked
  (\<open>joined_ahead\<close>); it runs beside the others here, in the set \<open>B\<close>, without disturbing them, and
  nothing is claimed of it.
\<close>

theorem hub_stream_complete:
  assumes "hub_run g init J B h" and "c \<notin> B"
  shows "\<exists>fs. bytes_to c (wire h) = map encodeFrame fs \<and> follow_all (init c, 0) fs \<noteq> None
    \<and> (current_generation (tables (store h)) = Some g \<and> c \<in> members h \<longrightarrow>
         follow_all (init c, 0) fs = Some (head (tables (store h)), 0))"
  using hub_run_inv [OF assms(1)] unfolding hub_inv_def
proof
  assume sy: "synced g J B init {} h"
  then have "stream init (wire h) c (cursors h c, 0)" using assms(2) by (simp add: synced_def alive_def)
  then obtain fs where "bytes_to c (wire h) = map encodeFrame fs" "follow_all (init c, 0) fs = Some (cursors h c, 0)"
    by (auto simp: stream_def)
  with sy assms(2) show ?thesis by (intro exI [of _ fs]) (auto simp: synced_def)
next
  assume z: "zombie g J B init h"
  then obtain q where "stream init (wire h) c q" using assms(2) unfolding zombie_def followable_def by blast
  then obtain fs where "bytes_to c (wire h) = map encodeFrame fs" "follow_all (init c, 0) fs = Some q"
    by (auto simp: stream_def)
  with z show ?thesis
    by (intro exI [of _ fs]) (auto simp: zombie_def gone_def generation_of_def members_def)
qed

text \<open>A connection that joins beyond the head is admitted, and sent nothing else.\<close>

lemma joined_ahead:
  assumes q: "quiet g h" and st: "settled h" and c: "head (tables (store h)) < cursors h c"
  shows "join c h = (put c [AdmittedFrame] (set_collector c (createChunkCollector BUFFER_CEILING_BYTES) h), Admitted)"
proof -
  let ?k = "createChunkCollector BUFFER_CEILING_BYTES" and ?d = "tables (store h)"
  let ?h2 = "set_collector c ?k (h\<lparr>dispatchDepth := dispatchDepth h + 1\<rparr>)"
  define h3 where "h3 = put c [AdmittedFrame] ?h2"
  have f: "cursors h3 = cursors h" "store h3 = store h" "dispatchDepth h3 = dispatchDepth h + 1" by (simp_all add: h3_def)
  have q2: "quiet g ?h2" using q by (simp add: quiet_def)
  then have q3: "quiet g h3" by (simp add: h3_def)
  then have al: "alive g (members h3) UNIV (\<lambda>_. 0) h3 (\<lambda>_. (0, 0)) ?d"
    by (simp add: alive_def core_def quiet_def generation_of_def f)
  have "e \<notin> set (log_since (cursors h c) (batch h3) ?d)" for e
    using log_since_below [of e "cursors h c" "batch h3" ?d] log_since_above [of e "cursors h c" "batch h3" ?d] c by fastforce
  then have "log_since (cursors h3 c) (batch h3) ?d = []" unfolding f by (metis list.set_intros(1) neq_Nil_conv)
  then have lp: "deliver_loop c None h3 = (h3, Inr ())"
    by (subst deliver_loop.simps) (simp add: since_alive [OF al])
  have "log_snapshot ?d = None \<or> (\<exists>b. log_snapshot ?d = Some (snapshotPosition ?d, b))" by (simp add: log_snapshot_def Let_def)
  then have "catchUpToSnapshot c h3 = (h3, Inr ())"
    using snapshotPosition_head [of ?d] c by (auto simp: catchUpToSnapshot_def since_alive [OF al] f)
  with lp have dl: "deliver c None h3 = (h3, Inr ())" by (simp add: deliver_def admission_quiet [OF q3])
  have h5: "h3\<lparr>dispatchDepth := dispatchDepth h3 - 1\<rparr> = put c [AdmittedFrame] (set_collector c ?k h)" (is "_ = ?r")
    by (simp add: h3_def put_def set_collector_def)
  have "settled ?r" using st by (auto simp: settled_def set_collector_def)
  then have dr: "drain ?r = ?r" by (rule drain_idle)
  have "join c h = (let h6 = drain (h3\<lparr>dispatchDepth := dispatchDepth h3 - 1\<rparr>) in
      (h6, if lifetime h6 = None then Retired else Admitted))"
    unfolding join_def admission_quiet [OF q]
    by (simp only: prod.case Let_def sum.disc send_quiet [OF q2] h3_def [symmetric] dl if_False if_True not_False_eq_True)
  also have "\<dots> = (?r, Admitted)" unfolding h5 dr Let_def using q by (simp add: quiet_def)
  finally show ?thesis .
qed

definition first_binding :: binding where
  "first_binding = \<lparr>bound_to = Some 1, snapshotFloorBytes = 65536\<rparr>"

definition sample_hub :: hub where
  "sample_hub = createSyncHub first_binding 64 first_generation (\<lambda>_. 0) []"

lemma sample_hub_reachable: "hub_reachable 1 (\<lambda>_. 0) {} sample_hub"
  unfolding sample_hub_def
  by (rule hub_reachable_created)
    (use first_generation_facts in \<open>simp_all add: first_generation_eq(1) first_binding_def\<close>)

definition joined_hub :: hub where
  "joined_hub = fst (join 7 sample_hub)"

lemma joined_hub_reachable: "hub_reachable 1 (\<lambda>_. 0) {7} joined_hub"
  using hub_reachable_joined [OF sample_hub_reachable, of 7] by (simp add: joined_hub_def sample_hub_def createSyncHub_def)

lemma sample_hub_quiet: "quiet 1 sample_hub" "settled sample_hub"
  using first_generation_facts reachable_inv [OF first_generation_facts(1)]
  by (simp_all add: quiet_def settled_def sample_hub_def createSyncHub_def first_binding_def first_generation_eq(1))

lemma joined_hub_eq:
  "joined_hub = sample_hub\<lparr>
     lifetime := Some \<lparr>connections = [(7, createChunkCollector BUFFER_CEILING_BYTES)], pending = []\<rparr>,
     cursors := (\<lambda>_. 0)(7 := 1),
     wire := [(7, encodeFrame AdmittedFrame), (7, encodeFrame (SnapshotFrame 1 0 1 [5]))]\<rparr>"
proof -
  have st: "store sample_hub = first_generation" "cursors sample_hub = (\<lambda>_. 0)" "wire sample_hub = []"
    by (simp_all add: sample_hub_def createSyncHub_def)
  have snap: "snapshotPosition (tables first_generation) = 1" "snapshots (tables first_generation) = [(1, [5])]"
    "log_entries (tables first_generation) = []"
    by (simp_all add: first_generation_eq(1) empty_db_def snapshotPosition_def max_position_def snapshots_def log_entries_def)
  have "missing 0 1 (tables first_generation) = [SnapshotFrame 1 0 1 [5]]"
    by (simp add: missing_def snap snapshot_frames_def small_chunks)
  moreover have "set_collector 7 k sample_hub = sample_hub\<lparr>lifetime := Some \<lparr>connections = [(7, k)], pending = []\<rparr>\<rparr>" for k
    by (simp add: set_collector_def sample_hub_def createSyncHub_def)
  ultimately show ?thesis unfolding joined_hub_def using join_quiet [OF sample_hub_quiet, of 7]
    by (simp add: st first_generation_facts(4) put_def move_cursor_def del: encodeFrame.simps)
qed

theorem hub_stream_complete_witness:
  "\<exists>fs. bytes_to 7 (wire joined_hub) = map encodeFrame fs \<and> follow_all (0, 0) fs = Some (1, 0)"
  using hub_stream_complete [OF joined_hub_reachable [unfolded hub_reachable_def], of 7] first_generation_facts(3,4)
  by (auto simp: joined_hub_eq sample_hub_def createSyncHub_def members_def)

lemma push_effect:
  assumes "hub_reachable g init J h" and "script h = []" and "current_generation (tables (store h)) = Some g"
    and "lifetime h = Some l" and "c \<in> fst ` set (connections l)" and "n < 2 ^ 32"
    and p_def: "p = head (tables (store h)) + 1" and h'_def: "h' = receive c (encodeFrame (PushFrame n 0 1 bs)) h"
  shows "log_entries (tables (store h')) = log_entries (tables (store h)) @ [(p, bs)]
    \<and> wire h' = wire h @ [(c, encodeFrame (AckFrame n p))]
      @ concat (map (\<lambda>x. map (\<lambda>f. (x, encodeFrame f)) (entry_frames (p, bs)))
          (filter (\<lambda>x. x \<noteq> c) (map fst (connections l))))
      @ (if log_shouldSnapshot (snapshotFloorBytes (authority h)) (tables (store h'))
         then [(c, encodeFrame (WantedFrame p))] else [])
    \<and> (\<forall>x\<in>members h'. cursors h' x = p)"
proof -
  let ?d = "tables (store h)" and ?m = "encodeFrame (PushFrame n 0 1 bs)"
  have mem: "c \<in> members h" "members h = fst ` set (connections l)" using assms(4,5) by (auto simp: members_def)
  note q = reachable_quiet [OF assms(1-3) mem(1)]
  have sd: "settled h" "distinct_members h" using hub_reachable_settled [OF assms(1)] by auto
  obtain k where k: "map_of (connections l) c = Some k" using assms(5) by (metis map_of_eq_None_iff not_None_eq)
  let ?h1 = "h\<lparr>dispatchDepth := 1\<rparr>"
  have q1: "quiet g ?h1" "lifetime ?h1 = Some l" "collector_of c ?h1 = Some k" "distinct_members ?h1"
    using q(1) assms(4) k sd by (simp_all add: quiet_def collector_of_def)
  define s' where "s' = fst (a_append (authority h) bs (store h))"
  have al: "alive g J {} init h (\<lambda>x. (cursors h x, 0)) ?d"
    using hub_reachable_inv [OF assms(1)] assms(3) mem(1)
    by (auto simp: hub_inv_def synced_def zombie_def gone_def generation_of_def members_def)
  from append_alive [OF al, of bs] obtain d' where
    ap: "snd (ask (\<lambda>a. a_append a bs) h) = Inr (head ?d + 1)" "alive g J {} init (fst (ask (\<lambda>a. a_append a bs) h)) (\<lambda>x. (cursors h x, 0)) d'"
      "head d' = head ?d + 1" "snapshotPosition d' = snapshotPosition ?d" "log_entries d' = log_entries ?d @ [(head ?d + 1, bs)]"
    by blast
  have a: "a_append (authority h) bs (store h) = (s', Inr (head ?d + 1))" and d': "tables s' = d'"
    and f: "faults s' = []" "current_generation d' = Some g" "authority_inv d'"
    using ap(1,2) by (auto simp: s'_def prod_eq_iff alive_def core_def)
  have pr: "process c ?m ?h1 = process_push c k (PushFrame n 0 1 bs) n ?h1"
    using q1(3) decode_encode [of "PushFrame n 0 1 bs"] assms(6) admission_quiet [OF q1(1)]
    by (simp add: process_def del: encodeFrame.simps)
  have mem1: "members ?h1 = members h" by (simp add: members_def)
  have at: "\<And>x. x \<in> members ?h1 \<Longrightarrow> cursors ?h1 x = head (tables (store ?h1))" using q(2) by (simp add: members_def)
  have "a_append (authority ?h1) bs (store ?h1) = (s', Inr (head ?d + 1))" "?d = tables (store ?h1)" using a by simp_all
  note pp = process_push_quiet [OF q1 at this(2) this(1) f(1) f(2,3) [folded d'] ap(5) [folded d'] ap(4,3) [folded d'], of n]
  have eq: "process c ?m ?h1 = ?h1\<lparr>store := s',
    cursors := (\<lambda>x. if x \<in> members h then p else cursors h x),
    wire := wire h @ [(c, encodeFrame (AckFrame n p))]
      @ concat (map (\<lambda>x. map (\<lambda>f. (x, encodeFrame f)) (entry_frames (p, bs)))
          (filter (\<lambda>x. x \<noteq> c) (map fst (connections l))))
      @ (if log_shouldSnapshot (snapshotFloorBytes (authority h)) (tables s')
         then [(c, encodeFrame (WantedFrame p))] else [])\<rparr>"
  proof -
    have "cursors ?h1 = cursors h" "wire ?h1 = wire h" "authority ?h1 = authority h" by simp_all
    from pp [unfolded this mem1] show ?thesis unfolding pr p_def .
  qed
  have "receive c ?m h = drain_loop (process c ?m ?h1)\<lparr>dispatchDepth := dispatchDepth (drain_loop (process c ?m ?h1)) - 1\<rparr>"
  proof -
    have enq: "(enqueue c ?m h)\<lparr>dispatchDepth := 1\<rparr> = ?h1\<lparr>lifetime := Some (l\<lparr>pending := [(c, ?m)]\<rparr>)\<rparr>"
      using assms(4) sd(1) by (simp add: enqueue_def settled_def)
    have same: "?h1\<lparr>lifetime := Some (l\<lparr>pending := []\<rparr>)\<rparr> = ?h1" using assms(4) sd(1) by (simp add: settled_def)
    have "drain_loop ((enqueue c ?m h)\<lparr>dispatchDepth := 1\<rparr>)
        = drain_loop (process c ?m (?h1\<lparr>lifetime := Some (l\<lparr>pending := []\<rparr>)\<rparr>))"
      unfolding enq by (subst drain_loop.simps) simp
    then have "drain_loop ((enqueue c ?m h)\<lparr>dispatchDepth := 1\<rparr>) = drain_loop (process c ?m ?h1)"
      unfolding same .
    then show ?thesis using sd(1) by (simp add: receive_def drain_def settled_def Let_def)
  qed
  moreover have "drain_loop (process c ?m ?h1) = process c ?m ?h1"
    unfolding eq by (subst drain_loop.simps) (use assms(4) sd(1) in \<open>simp add: settled_def\<close>)
  ultimately have rc: "receive c ?m h = (process c ?m ?h1)\<lparr>dispatchDepth := dispatchDepth (process c ?m ?h1) - 1\<rparr>"
    by (simp only:)
  show ?thesis unfolding h'_def rc eq using ap(5) assms(4)
    by (simp add: d' p_def members_def del: encodeFrame.simps)
qed



text \<open>
  When the storage admits a one-chunk push and then fails to commit
  it, the author alone is sent a refusal that names the submission and the failure, nothing is
  acknowledged or relayed, no cursor moves and the tables are as they were.
\<close>

theorem failed_append_refused:
  assumes "lifetime h = Some l" and "map_of (connections l) c = Some k" and "n < 2 ^ 32"
    and "script h = []" and "faults (store h) = [False, True]"
    and "admitted (authority h) (tables (store h))"
  shows "wire (process c (encodeFrame (PushFrame n 0 1 bs)) h)
      = wire h @ [(c, encodeFrame (RefuseFrame n (js ''The authority could not commit to durable storage'')))]
    \<and> cursors (process c (encodeFrame (PushFrame n 0 1 bs)) h) = cursors h
    \<and> tables (store (process c (encodeFrame (PushFrame n 0 1 bs)) h)) = tables (store h)"
proof -
  let ?h1 = "h\<lparr>store := (store h)\<lparr>faults := [True]\<rparr>\<rparr>" and ?h2 = "h\<lparr>store := (store h)\<lparr>faults := []\<rparr>\<rparr>"
  have adm: "admission h = (?h1, Inr ())"
    using assms by (simp add: admission_def ask_def a_admission_def reading_verb fault_now_def admitted_def)
  have ap: "ask (\<lambda>a. a_append a bs) ?h1 = (?h2, Inl StorageFailed)"
    by (simp add: ask_def a_append_def run_cases fault_now_def Let_def)
  have k: "collector_of c h = Some k" "collector_of c ?h1 = Some k" "collector_of c ?h2 = Some k"
    using assms(1,2) by (simp_all add: collector_of_def)
  have "process c (encodeFrame (PushFrame n 0 1 bs)) h = process_push c k (PushFrame n 0 1 bs) n ?h1"
    using k(1) adm decode_encode [of "PushFrame n 0 1 bs"] assms(3) by (simp add: process_def del: encodeFrame.simps)
  also have "\<dots> = refuse c n (error_message StorageFailed) ?h2"
    by (simp add: process_push_def accept_def accept_chunk_def set_collector_same [OF k(2)] ap)
  finally show ?thesis using assms(4) k(3)
    by (simp add: refuse_def emit_silent del: encodeFrame.simps)
qed

theorem failed_append_refused_witness:
  "\<exists>h. wire (process 7 (encodeFrame (PushFrame 3 0 1 [9])) h)
     = wire h @ [(7, encodeFrame (RefuseFrame 3 (js ''The authority could not commit to durable storage'')))]"
proof -
  let ?h = "joined_hub\<lparr>store := first_generation\<lparr>faults := [False, True]\<rparr>\<rparr>"
  have "admitted (authority ?h) (tables (store ?h))"
    by (simp add: admitted_iff joined_hub_eq sample_hub_def createSyncHub_def first_binding_def first_generation_facts(3))
  with failed_append_refused [of ?h "\<lparr>connections = [(7, createChunkCollector BUFFER_CEILING_BYTES)], pending = []\<rparr>" 7 _ 3 "[9]"]
  show ?thesis by (intro exI [of _ ?h]) (simp add: joined_hub_eq sample_hub_def createSyncHub_def del: encodeFrame.simps)
qed

text \<open>
  Claim C40 (fault_drops_the_ack). A storage failure after the append is not reported: when the
  admission check in front of the acknowledgement fails, the update of a lone, caught-up
  author is in the log and its cursor is moved past it, but it is sent neither the
  acknowledgement nor a refusal (at most the request for a snapshot).
\<close>

theorem fault_drops_the_ack:
  assumes "lifetime h = Some \<lparr>connections = [(c, k)], pending = []\<rparr>" and "n < 2 ^ 32" and "script h = []"
    and "faults (store h) = [False, False, False, False, False, True]" and "authority_inv (tables (store h))"
    and "bound_to (authority h) = Some g" and "current_generation (tables (store h)) = Some g" and "0 < batch h"
    and "cursors h c = head (tables (store h))" and h': "h' = process c (encodeFrame (PushFrame n 0 1 bs)) h"
  shows "wire h' \<in> {wire h, wire h @ [(c, encodeFrame (WantedFrame (head (tables (store h)) + 1)))]}
    \<and> log_entries (tables (store h')) = log_entries (tables (store h)) @ [(head (tables (store h)) + 1, bs)]
    \<and> cursors h' c = head (tables (store h)) + 1"
proof -
  let ?d = "tables (store h)" and ?p = "head (tables (store h))"
  define at where "at fs d = h\<lparr>store := \<lparr>tables = d, faults = fs\<rparr>\<rparr>" for fs d
  have inv: "log_inv ?d" using assms(5) by (simp add: authority_inv_def)
  have ok: "admission_check (authority h) d = Inr ()" if "current_generation d = Some g" for d
    using assms(6) that by (simp add: admission_check_def)
  have h0: "h = at [False, False, False, False, False, True] ?d" using assms(4) by (simp add: at_def)
  have k: "collector_of c (at fs d) = Some k" for fs d using assms(1) by (simp add: collector_of_def at_def)
  have adm: "admission (at (False # fs) d) = (at fs d, Inr ())" if "current_generation d = Some g" for fs d
    using assms(1) ok [OF that] by (simp add: admission_def ask_def a_admission_def reading_verb fault_now_def at_def)
  have rd: "ask (\<lambda>a s. run a s (reading f)) (at (False # fs) d) = (at fs d, Inr (f d))"
    if "current_generation d = Some g" for fs d and f :: "db \<Rightarrow> 'v"
    using ok [OF that] by (simp add: ask_def reading_verb fault_now_def at_def)
  obtain d' where d': "log_append bs ?d = Inr (?p + 1, d')"
    "log_state d' (snapshots ?d) (log_entries ?d @ [(?p + 1, bs)])" "current_generation d' = Some g"
    using log_append_state [of ?d "snapshots ?d" "log_entries ?d" bs] inv assms(7) by (auto simp: log_inv_def)
  have i': "log_inv d'" "snapshotPosition d' = snapshotPosition ?d" "head d' = ?p + 1"
    using log_state_inv [OF d'(2)] log_state_positions [OF d'(2)] head_of [OF inv] snapshotPosition_of [OF inv] by auto
  have ap: "ask (\<lambda>a. a_append a bs) (at (False # fs) ?d) = (at fs d', Inr (?p + 1))" for fs
    using ok [OF assms(7)] d'(1) by (simp add: ask_def a_append_def run_cases fault_now_def Let_def at_def)
  have cur: "cursors (at fs d) c = ?p" "batch (at fs d) = batch h" for fs d using assms(9) by (simp_all add: at_def)
  have snap: "log_snapshot d' = None \<or> (\<exists>b. log_snapshot d' = Some (snapshotPosition d', b))"
    by (simp add: log_snapshot_def Let_def)
  have "catchUpToSnapshot c (at [False, False, True] d') = (at [False, True] d', Inr ())"
    using rd [OF d'(3), of log_snapshot "[False, True]", folded a_snapshot_def [abs_def]] snap
      snapshotPosition_head [of ?d] i'(2)
    by (auto simp: catchUpToSnapshot_def cur)
  moreover have "log_since ?p (batch h) d' = [(?p + 1, bs)]"
  proof -
    have "filter (\<lambda>e. ?p < fst e) (log_entries ?d) = []"
      using log_state_below_head [of ?d "snapshots ?d" "log_entries ?d"] inv
      by (fastforce simp: filter_empty_conv log_inv_def)
    then show ?thesis using assms(8) by (simp add: log_since_state [OF d'(2)])
  qed
  then have "deliver_loop c (Some ?p) (at [False, True] d') = (at [True] d', Inr ())"
    using rd [OF d'(3), of "log_since ?p (batch h)" "[True]", folded a_since_def]
    by (subst deliver_loop.simps) (simp add: cur)
  ultimately have dl: "deliver c (Some ?p) (at [False, False, False, True] d') = (at [True] d', Inr ())"
    by (simp add: deliver_def adm [OF d'(3)])
  have life: "lifetime (at fs d) = Some \<lparr>connections = [(c, k)], pending = []\<rparr>" for fs d using assms(1) by (simp add: at_def)
  let ?h5 = "move_cursor c (?p + 1) (at [] d')"
  have sn: "send c b (move_cursor c (?p + 1) (at [True] d')) = (?h5, Inl StorageFailed)" for b
    using assms(1) by (simp add: send_def admission_def ask_def a_admission_def reading_verb fault_now_def at_def move_cursor_def)
  have "process c (encodeFrame (PushFrame n 0 1 bs)) h = process_push c k (PushFrame n 0 1 bs) n (at [False, False, False, False, True] ?d)"
    using k [of "[False, False, False, False, False, True]" ?d] adm [OF assms(7), of "[False, False, False, False, True]"]
      decode_encode [of "PushFrame n 0 1 bs"] assms(2)
    unfolding h0 [symmetric] by (simp add: process_def del: encodeFrame.simps)
  also have "\<dots> = askForSnapshot c ?h5"
    using ap [of "[False, False, False, True]"] dl sn life
    by (simp add: process_push_def accept_def accept_chunk_def set_collector_same [OF k] Let_def del: encodeFrame.simps)
  finally have pr: "h' = askForSnapshot c ?h5" by (simp add: h')
  have "authority_inv d'"
    using authority_inv_append [of "\<lparr>tables = ?d, faults = []\<rparr>" "authority h" bs] assms(5) ok [OF assms(7)] d'(1)
    by (simp add: a_append_def run_cases fault_now_def Let_def)
  then have "quiet g ?h5" using assms(1,3,6,8) d'(3) by (simp add: quiet_def at_def)
  from askForSnapshot_quiet [OF this, of c] show ?thesis
    unfolding pr by (auto simp: at_def i'(3) put_def log_entries_of [OF d'(2)] simp del: encodeFrame.simps)
qed

theorem fault_drops_the_ack_witness:
  "\<exists>h. cursors (process 7 (encodeFrame (PushFrame 3 0 1 [9])) h) 7 = Suc 1
     \<and> wire (process 7 (encodeFrame (PushFrame 3 0 1 [9])) h) \<in> {wire h, wire h @ [(7, encodeFrame (WantedFrame (Suc 1)))]}"
proof -
  let ?h = "joined_hub\<lparr>store := first_generation\<lparr>faults := [False, False, False, False, False, True]\<rparr>\<rparr>"
  show ?thesis
    using fault_drops_the_ack [of ?h 7 "createChunkCollector BUFFER_CEILING_BYTES" 3 1 _ "[9]"]
      first_generation_facts(3,4) reachable_inv [OF first_generation_facts(1)]
    by (intro exI [of _ ?h])
      (simp add: joined_hub_eq sample_hub_def createSyncHub_def first_binding_def del: encodeFrame.simps)
qed

text \<open>
  Retirement is permanent. A hub whose lifetime has ended drops what it
  receives, has no members, and answers every join with the retired frame and nothing else.
\<close>

theorem retired_hub_inert:
  assumes "lifetime h = None"
  shows "receive c m h = h \<and> leave c h = h \<and> retire h = h \<and> attached h = 0
    \<and> snd (join c h) = Retired \<and> lifetime (fst (join c h)) = None
    \<and> wire (fst (join c h)) = wire h @ [(c, encodeFrame RetiredFrame)]"
proof -
  have "drain_loop h' = h'" if "lifetime h' = None" for h' using that by (subst drain_loop.simps) simp
  then show ?thesis using assms
    by (simp add: receive_def enqueue_def leave_def retire_def attached_def drain_def Let_def join_def admission_def)
qed

theorem retired_hub_inert_witness:
  "wire (fst (join 3 (retire sample_hub))) = wire (retire sample_hub) @ [(3, encodeFrame RetiredFrame)]"
  using retired_hub_inert [of "retire sample_hub" 3] by (simp del: encodeFrame.simps)

end
