(* ===== verification/Persistence.thy ===== *)
theory Persistence
  imports Update_Log
begin

text \<open>
  The persistence controller of a store, \<^verbatim>\<open>packages/app/src/data/store/persistence.ts\<close>: the
  queue of accepted operations, the one drain that owns every commit, and the mirror of what the
  engine has confirmed. The storage port is a function of the batch; the tasks the JavaScript
  runtime interleaves are steps, and the steps of a session are explicit. The locale
  \<open>durable_port\<close> states what the controller relies on; both ports of
  \<open>Update_Log\<close> are interpretations of it.
\<close>

section \<open>The controller\<close>

datatype persistence_status = Saved | Pending | Blocked

text \<open>
  The drain, which is what the promise \<open>running\<close> stands for: scheduled as a microtask;
  waiting for a commit, with the outcome once the engine has settled it; or telling the
  listeners of \<open>onSendable\<close>, with those still to be told. A listener runs arbitrary code, so
  every operation of the controller may happen between two of them.
\<close>

datatype drain =
    Scheduled
  | Committing "durable_op list" "bool option"
  | Telling "nat list"

datatype persistence_log =
    FlushFailed nat          \<comment> \<open>operations retained\<close>
  | SubscriberThrew nat      \<comment> \<open>the listener\<close>

record controller =
  queue :: "durable_op list"
  running :: "drain option"
  requested :: bool
  outbox :: "outbox_entry list"
  cursor :: nat
  nextId :: nat
  lastCoalescedId :: nat
  acknowledgedThroughId :: nat
  closed :: bool
  discarded :: bool
  sendableListeners :: "nat list"       \<comment> \<open>a \<^verbatim>\<open>Set\<close>, in insertion order\<close>
  statusListeners :: "nat list"
  lastStatus :: persistence_status
  statusTold :: "nat list"              \<comment> \<open>status listeners still to be told\<close>
  closing :: nat                        \<comment> \<open>flushes \<open>close\<close> has scheduled\<close>
  notified :: "nat list"                \<comment> \<open>every listener call made\<close>
  plog :: "persistence_log list"

definition createPersistenceController :: "durable_snapshot \<Rightarrow> controller" where
  "createPersistenceController loaded =
     \<lparr>queue = [], running = None, requested = False, outbox = soutbox loaded, cursor = scursor loaded,
      nextId = slastId loaded + 1, lastCoalescedId = 0, acknowledgedThroughId = 0, closed = False,
      discarded = False, sendableListeners = [], statusListeners = [], lastStatus = Saved,
      statusTold = [], closing = 0, notified = [], plog = []\<rparr>"

definition status :: "controller \<Rightarrow> persistence_status" where
  "status c = (if running c \<noteq> None then Pending else if queue c \<noteq> [] then Blocked else Saved)"

text \<open>
  A listener is told when it is still registered at its turn; a throw is logged. A nested
  notification runs before the rest of the one around it.
\<close>

definition call_listener :: "nat list \<Rightarrow> nat \<Rightarrow> bool \<Rightarrow> controller \<Rightarrow> controller" where
  "call_listener listeners l throws c =
     (if l \<notin> set listeners then c
      else c\<lparr>notified := notified c @ [l], plog := plog c @ (if throws then [SubscriberThrew l] else [])\<rparr>)"

definition notifyStatus :: "controller \<Rightarrow> controller" where
  "notifyStatus c =
     (let next = status c in
      if next = lastStatus c then c
      else c\<lparr>lastStatus := next, statusTold := statusListeners c @ statusTold c\<rparr>)"

definition tell_status :: "bool \<Rightarrow> controller \<Rightarrow> controller" where
  "tell_status throws c =
     (case statusTold c of
        [] \<Rightarrow> c
      | l # ls \<Rightarrow> call_listener (statusListeners c) l throws (c\<lparr>statusTold := ls\<rparr>))"

definition mirror_batch :: "durable_op list \<Rightarrow> controller \<Rightarrow> controller" where
  "mirror_batch b c =
     (let (ob, cu) = succeeded b (outbox c, cursor c) in c\<lparr>outbox := ob, cursor := cu\<rparr>)"

definition merge_entries :: "'y yjs \<Rightarrow> outbox_entry list \<Rightarrow> bytes" where
  "merge_entries Y entries =
     (if length entries = 1 then obytes (hd entries) else mergeUpdatesV2 Y (map obytes entries))"

definition maintain :: "'y yjs \<Rightarrow> controller \<Rightarrow> controller" where
  "maintain Y c =
     (if queue c \<noteq> [] then c
      else
        let owing = filter (\<lambda>e. oid e > lastCoalescedId c \<and> oid e > acknowledgedThroughId c) (outbox c) in
        if length owing < SNAPSHOT_FOLD_THRESHOLD then c
        else c\<lparr>nextId := nextId c + 1,
               queue := queue c @ [MergeOwedOp (map oid owing) (nextId c) (merge_entries Y owing)]\<rparr>)"

definition failed :: "durable_op list \<Rightarrow> controller \<Rightarrow> controller" where
  "failed b c = (let q = b @ queue c in c\<lparr>queue := q, plog := plog c @ [FlushFailed (length q)]\<rparr>)"

definition flush :: "controller \<Rightarrow> controller" where
  "flush c =
     (if discarded c then c
      else if running c \<noteq> None then c\<lparr>requested := True\<rparr>
      else if queue c = [] then c
      else notifyStatus (c\<lparr>running := Some Scheduled\<rparr>))"

definition enqueue :: "durable_op list \<Rightarrow> controller \<Rightarrow> controller" where
  "enqueue ops c = (if discarded c \<or> ops = [] then c else flush (c\<lparr>queue := queue c @ ops\<rparr>))"

text \<open>The drain's \<^verbatim>\<open>finally\<close>, the head of its loop, and its continuations.\<close>

definition release :: "controller \<Rightarrow> controller" where
  "release c = notifyStatus (c\<lparr>running := None\<rparr>)"

definition next_batch :: "controller \<Rightarrow> controller" where
  "next_batch c =
     (if queue c \<noteq> [] then c\<lparr>requested := False, running := Some (Committing (queue c) None), queue := []\<rparr>
      else release c)"

fun sendable :: "durable_op \<Rightarrow> bool" where
  "sendable (MergeOwedOp ks i bs) = True"
| "sendable (AppendOp i bs seq) = (seq = None)"
| "sendable (AckOp i q) = False"

definition committed :: "durable_op list \<Rightarrow> controller \<Rightarrow> controller" where
  "committed b c =
     (if discarded c then release c
      else
        let c' = mirror_batch b c in
        c'\<lparr>running := Some (Telling (if \<not> closed c' \<and> (\<exists>op\<in>set b. sendable op) then sendableListeners c' else []))\<rparr>)"

definition refused :: "durable_op list \<Rightarrow> controller \<Rightarrow> controller" where
  "refused b c =
     (if discarded c then release c
      else let c' = failed b c in if requested c' then next_batch c' else release c')"

fun resume :: "'y yjs \<Rightarrow> bool \<Rightarrow> controller \<Rightarrow> controller" where
  "resume Y throws c =
     (case running c of
        Some Scheduled \<Rightarrow> next_batch c
      | Some (Committing b (Some ok)) \<Rightarrow> if ok then committed b c else refused b c
      | Some (Telling (l # ls)) \<Rightarrow>
          call_listener (sendableListeners c) l throws (c\<lparr>running := Some (Telling ls)\<rparr>)
      | Some (Telling []) \<Rightarrow> next_batch (maintain Y c)
      | _ \<Rightarrow> c)"

definition discard :: "controller \<Rightarrow> controller" where
  "discard c = c\<lparr>discarded := True, closed := True, queue := [], outbox := [], requested := False,
                 sendableListeners := [], statusListeners := []\<rparr>"

definition close :: "controller \<Rightarrow> controller" where
  "close c = c\<lparr>closed := True, sendableListeners := [], statusListeners := [], closing := closing c + 1\<rparr>"

definition closing_flush :: "controller \<Rightarrow> controller" where
  "closing_flush c = (if closing c = 0 then c else flush (c\<lparr>closing := closing c - 1\<rparr>))"

definition append_update :: "bytes \<Rightarrow> nat option \<Rightarrow> controller \<Rightarrow> controller" where
  "append_update bs seq c = enqueue [AppendOp (nextId c) bs seq] (c\<lparr>nextId := nextId c + 1\<rparr>)"

definition acknowledge_through :: "nat \<Rightarrow> nat \<Rightarrow> controller \<Rightarrow> controller" where
  "acknowledge_through throughId seq c =
     enqueue [AckOp throughId seq] (c\<lparr>acknowledgedThroughId := max (acknowledgedThroughId c) throughId\<rparr>)"

definition coalesce :: "'y yjs \<Rightarrow> controller \<Rightarrow> controller \<times> outbox_entry option" where
  "coalesce Y c =
     (let entries = filter (\<lambda>e. oid e > acknowledgedThroughId c) (outbox c) in
      if entries = [] then (c, None)
      else let l = last entries in
        (c\<lparr>lastCoalescedId := max (lastCoalescedId c) (oid l)\<rparr>,
         Some \<lparr>oid = oid l, obytes = merge_entries Y entries\<rparr>))"

definition onSendable :: "nat \<Rightarrow> controller \<Rightarrow> controller" where
  "onSendable l c = c\<lparr>sendableListeners := List.insert l (sendableListeners c)\<rparr>"

definition offSendable :: "nat \<Rightarrow> controller \<Rightarrow> controller" where
  "offSendable l c = c\<lparr>sendableListeners := removeAll l (sendableListeners c)\<rparr>"

text \<open>
  The public capability. \<open>assertUsable\<close> throws once the store cannot be used, which is the
  error here.
\<close>

datatype unusable = Unusable

definition persistence_get :: "bool \<Rightarrow> controller \<Rightarrow> (unusable, persistence_status) result" where
  "persistence_get usable c = (if usable then Inr (status c) else Inl Unusable)"

definition persistence_subscribe :: "bool \<Rightarrow> nat \<Rightarrow> controller \<Rightarrow> (unusable, controller) result" where
  "persistence_subscribe usable l c =
     (if usable then Inr (c\<lparr>statusListeners := List.insert l (statusListeners c)\<rparr>) else Inl Unusable)"

definition persistence_unsubscribe :: "nat \<Rightarrow> controller \<Rightarrow> controller" where
  "persistence_unsubscribe l c = c\<lparr>statusListeners := removeAll l (statusListeners c)\<rparr>"

definition persistence_flush :: "bool \<Rightarrow> controller \<Rightarrow> (unusable, controller) result" where
  "persistence_flush usable c = (if usable then Inr (flush c) else Inl Unusable)"

definition durableCursor :: "controller \<Rightarrow> nat" where
  "durableCursor c = cursor c"

section \<open>A session\<close>

text \<open>
  The controller beside its storage, with the history a proof talks about: the operations
  accepted, those the controller has been told are durable, and those that are on disk.
\<close>

record 't session =
  ctl :: controller
  disk :: 't
  accepted :: "durable_op list"
  confirmed :: "durable_op list"
  landed :: "durable_op list"

datatype action =
    Append bytes "nat option"
  | Acknowledge nat nat
  | Coalesce
  | Flush
  | Close
  | ClosingFlush
  | Discard
  | OnSendable nat
  | OffSendable nat
  | Subscribe nat
  | Unsubscribe nat
  | TellStatus bool
  | Resume bool
  | Land             \<comment> \<open>the engine commits the batch in flight\<close>
  | Reject           \<comment> \<open>the engine rejects it and keeps what it had\<close>

definition minted :: "'y yjs \<Rightarrow> controller \<Rightarrow> durable_op list" where
  "minted Y c = (if running c = Some (Telling []) \<and> queue c = [] then queue (maintain Y c) else [])"

definition told :: "controller \<Rightarrow> durable_op list" where
  "told c = (case running c of Some (Committing b (Some True)) \<Rightarrow> if discarded c then [] else b | _ \<Rightarrow> [])"

fun perform :: "(durable_op list \<Rightarrow> 't \<Rightarrow> 't option) \<Rightarrow> 'y yjs \<Rightarrow> action \<Rightarrow> 't session \<Rightarrow> 't session" where
  "perform commit Y (Append bs seq) w =
     w\<lparr>ctl := append_update bs seq (ctl w),
       accepted := accepted w @ (if discarded (ctl w) then [] else [AppendOp (nextId (ctl w)) bs seq])\<rparr>"
| "perform commit Y (Acknowledge i q) w =
     w\<lparr>ctl := acknowledge_through i q (ctl w),
       accepted := accepted w @ (if discarded (ctl w) then [] else [AckOp i q])\<rparr>"
| "perform commit Y Coalesce w = w\<lparr>ctl := fst (coalesce Y (ctl w))\<rparr>"
| "perform commit Y Flush w = w\<lparr>ctl := flush (ctl w)\<rparr>"
| "perform commit Y Close w = w\<lparr>ctl := close (ctl w)\<rparr>"
| "perform commit Y ClosingFlush w = w\<lparr>ctl := closing_flush (ctl w)\<rparr>"
| "perform commit Y Discard w = w\<lparr>ctl := discard (ctl w)\<rparr>"
| "perform commit Y (OnSendable l) w = w\<lparr>ctl := onSendable l (ctl w)\<rparr>"
| "perform commit Y (OffSendable l) w = w\<lparr>ctl := offSendable l (ctl w)\<rparr>"
| "perform commit Y (Subscribe l) w =
     (case persistence_subscribe True l (ctl w) of Inr c \<Rightarrow> w\<lparr>ctl := c\<rparr> | Inl _ \<Rightarrow> w)"
| "perform commit Y (Unsubscribe l) w = w\<lparr>ctl := persistence_unsubscribe l (ctl w)\<rparr>"
| "perform commit Y (TellStatus throws) w = w\<lparr>ctl := tell_status throws (ctl w)\<rparr>"
| "perform commit Y (Resume throws) w =
     w\<lparr>ctl := resume Y throws (ctl w),
       accepted := accepted w @ minted Y (ctl w),
       confirmed := confirmed w @ told (ctl w)\<rparr>"
| "perform commit Y Land w =
     (case running (ctl w) of
        Some (Committing b None) \<Rightarrow>
          (case commit b (disk w) of
             Some t \<Rightarrow> w\<lparr>ctl := (ctl w)\<lparr>running := Some (Committing b (Some True))\<rparr>, disk := t, landed := landed w @ b\<rparr>
           | None \<Rightarrow> w\<lparr>ctl := (ctl w)\<lparr>running := Some (Committing b (Some False))\<rparr>\<rparr>)
      | _ \<Rightarrow> w)"
| "perform commit Y Reject w =
     (case running (ctl w) of
        Some (Committing b None) \<Rightarrow> w\<lparr>ctl := (ctl w)\<lparr>running := Some (Committing b (Some False))\<rparr>\<rparr>
      | _ \<Rightarrow> w)"

definition open_session :: "('t \<Rightarrow> durable_snapshot) \<Rightarrow> 't \<Rightarrow> 't session" where
  "open_session load t =
     \<lparr>ctl = createPersistenceController (load t), disk = t, accepted = [], confirmed = [], landed = []\<rparr>"

definition run_session :: "(durable_op list \<Rightarrow> 't \<Rightarrow> 't option) \<Rightarrow> 'y yjs \<Rightarrow> action list \<Rightarrow> 't session \<Rightarrow> 't session" where
  "run_session commit Y acts w = fold (perform commit Y) acts w"

section \<open>Batches and the mirror\<close>

lemma succeeded_append: "succeeded (xs @ ys) mc = succeeded ys (succeeded xs mc)"
  and succeeded_Nil [simp]: "succeeded [] mc = mc"
  by (simp_all add: succeeded_def)

lemma ops_ok_append: "ops_ok (xs @ ys) mc m \<longleftrightarrow> ops_ok xs mc m \<and> ops_ok ys (succeeded xs mc) (fold op_id xs m)"
  by (induction xs arbitrary: mc m) (simp_all add: succeeded_def)

definition owed_ok :: "nat \<Rightarrow> outbox_entry list \<Rightarrow> bool" where
  "owed_ok m ob \<longleftrightarrow> sorted_wrt (<) (map oid ob) \<and> outbox_ids ob \<subseteq> {..m}"

lemma owed_ok_filter: "owed_ok m ob \<Longrightarrow> owed_ok m (filter P ob)"
  by (auto simp: owed_ok_def outbox_ids_def sorted_wrt_map intro: sorted_wrt_filter)

lemma owed_ok_snoc: "owed_ok m ob \<Longrightarrow> m < i \<Longrightarrow> owed_ok i (ob @ [\<lparr>oid = i, obytes = bs\<rparr>])"
  by (fastforce simp: owed_ok_def outbox_ids_def sorted_wrt_append)

lemma owed_ok_op: "owed_ok m ob \<Longrightarrow> op_ok op ob m \<Longrightarrow> owed_ok (op_id op m) (fst (succeeded_op op (ob, c))) \<and> m \<le> op_id op m"
proof (cases op)
  case (AppendOp i bs seq)
  assume "owed_ok m ob" "op_ok op ob m"
  with AppendOp show ?thesis by (cases seq) (auto simp: owed_ok_snoc, auto simp: owed_ok_def)
qed (auto intro: owed_ok_filter owed_ok_snoc)

lemma owed_ok_ops:
  "owed_ok m (fst mc) \<Longrightarrow> ops_ok ops mc m \<Longrightarrow> owed_ok (fold op_id ops m) (fst (succeeded ops mc)) \<and> m \<le> fold op_id ops m"
proof (induction ops arbitrary: mc m)
  case (Cons op ops)
  obtain ob c where mc: "mc = (ob, c)" by fastforce
  from owed_ok_op [of m ob op c] Cons.prems
  have one: "owed_ok (op_id op m) (fst (succeeded_op op mc))" "m \<le> op_id op m" by (auto simp: mc)
  from Cons.IH [OF one(1)] Cons.prems(2) one(2) show ?case by (auto simp: succeeded_def)
qed simp

text \<open>What an acknowledged id can retire never grows: new entries lie above every id used.\<close>

lemma succeeded_below:
  assumes "ops_ok ops mc m" and "i \<le> m" and "e \<in> set (fst (succeeded ops mc))" and "oid e \<le> i"
  shows "e \<in> set (fst mc)"
  using assms
proof (induction ops arbitrary: mc m)
  case (Cons op ops)
  obtain ob c where mc: "mc = (ob, c)" by fastforce
  have m: "m \<le> op_id op m" using Cons.prems(1) by (cases op) auto
  have "e \<in> set (fst (succeeded_op op mc))"
    by (rule Cons.IH [of "succeeded_op op mc" "op_id op m"]) (use Cons.prems m in \<open>simp_all add: succeeded_def\<close>)
  with Cons.prems(1,2,4) show ?case by (cases op) (auto simp: mc split: option.splits)
qed simp

section \<open>The drain's bookkeeping\<close>

definition flight :: "controller \<Rightarrow> (durable_op list \<times> bool option) option" where
  "flight c = (case running c of Some (Committing b r) \<Rightarrow> Some (b, r) | _ \<Rightarrow> None)"

definition in_flight :: "controller \<Rightarrow> durable_op list" where
  "in_flight c = (case flight c of Some (b, r) \<Rightarrow> b | None \<Rightarrow> [])"

definition on_disk :: "controller \<Rightarrow> durable_op list" where
  "on_disk c = (case flight c of Some (b, Some True) \<Rightarrow> b | _ \<Rightarrow> [])"

text \<open>The part of the controller the invariant reads.\<close>

definition books :: "controller \<Rightarrow> durable_op list \<times> outbox_entry list \<times> nat \<times> nat \<times> bool" where
  "books c = (queue c, outbox c, cursor c, nextId c, discarded c)"

lemma books_eq [simp]: "books c = books d \<longleftrightarrow>
    queue c = queue d \<and> outbox c = outbox d \<and> cursor c = cursor d \<and> nextId c = nextId d \<and> discarded c = discarded d"
  by (auto simp: books_def)

lemma notifyStatus_simps [simp]:
  "queue (notifyStatus c) = queue c" "outbox (notifyStatus c) = outbox c" "cursor (notifyStatus c) = cursor c"
  "nextId (notifyStatus c) = nextId c" "discarded (notifyStatus c) = discarded c" "running (notifyStatus c) = running c"
  "requested (notifyStatus c) = requested c" "closed (notifyStatus c) = closed c"
  "acknowledgedThroughId (notifyStatus c) = acknowledgedThroughId c" "lastCoalescedId (notifyStatus c) = lastCoalescedId c"
  by (simp_all add: notifyStatus_def Let_def)

lemma release_simps [simp]:
  "queue (release c) = queue c" "outbox (release c) = outbox c" "cursor (release c) = cursor c"
  "nextId (release c) = nextId c" "discarded (release c) = discarded c" "running (release c) = None"
  "acknowledgedThroughId (release c) = acknowledgedThroughId c" "lastCoalescedId (release c) = lastCoalescedId c"
  by (simp_all add: release_def)

lemma flush_simps [simp]:
  "queue (flush c) = queue c" "outbox (flush c) = outbox c" "cursor (flush c) = cursor c"
  "nextId (flush c) = nextId c" "discarded (flush c) = discarded c" "flight (flush c) = flight c"
  "acknowledgedThroughId (flush c) = acknowledgedThroughId c" "lastCoalescedId (flush c) = lastCoalescedId c"
  by (auto simp: flush_def flight_def)

lemma call_listener_simps [simp]:
  "queue (call_listener ls l t c) = queue c" "outbox (call_listener ls l t c) = outbox c" "cursor (call_listener ls l t c) = cursor c"
  "nextId (call_listener ls l t c) = nextId c" "discarded (call_listener ls l t c) = discarded c"
  "running (call_listener ls l t c) = running c" "requested (call_listener ls l t c) = requested c"
  "acknowledgedThroughId (call_listener ls l t c) = acknowledgedThroughId c"
  "lastCoalescedId (call_listener ls l t c) = lastCoalescedId c"
  by (simp_all add: call_listener_def)

lemma flight_running: "running c = running d \<Longrightarrow> flight c = flight d"
  by (simp add: flight_def)

lemma flight_update [simp]:
  "flight (c\<lparr>nextId := n\<rparr>) = flight c" "flight (c\<lparr>acknowledgedThroughId := n\<rparr>) = flight c"
  "flight (c\<lparr>lastCoalescedId := n\<rparr>) = flight c" "flight (c\<lparr>closing := n\<rparr>) = flight c"
  "flight (c\<lparr>sendableListeners := ls\<rparr>) = flight c" "flight (c\<lparr>statusListeners := ls\<rparr>) = flight c"
  "flight (close c) = flight c"
  by (simp_all add: flight_def close_def)

lemma tell_status_simps [simp]: "books (tell_status t c) = books c" "flight (tell_status t c) = flight c"
  by (auto simp: tell_status_def flight_def split: list.split)

lemma enqueue_simps:
  "queue (enqueue ops c) = (if discarded c then queue c else queue c @ ops)"
  "outbox (enqueue ops c) = outbox c" "cursor (enqueue ops c) = cursor c"
  "nextId (enqueue ops c) = nextId c" "discarded (enqueue ops c) = discarded c" "flight (enqueue ops c) = flight c"
  "acknowledgedThroughId (enqueue ops c) = acknowledgedThroughId c" "lastCoalescedId (enqueue ops c) = lastCoalescedId c"
  by (auto simp: enqueue_def flight_def flush_def)

lemma next_batch_simps:
  "outbox (next_batch c) = outbox c" "cursor (next_batch c) = cursor c"
  "nextId (next_batch c) = nextId c" "discarded (next_batch c) = discarded c"
  "queue (next_batch c) = []" "flight (next_batch c) = (if queue c = [] then None else Some (queue c, None))"
  by (auto simp: next_batch_def flight_def)

lemma maintain_simps [simp]:
  "outbox (maintain Y c) = outbox c" "cursor (maintain Y c) = cursor c" "discarded (maintain Y c) = discarded c"
  "running (maintain Y c) = running c"
  by (simp_all add: maintain_def Let_def)

lemma maintain_cases:
  obtains (same) "maintain Y c = c"
  | (merging) owing where "queue c = []" "owing = filter (\<lambda>e. oid e > lastCoalescedId c \<and> oid e > acknowledgedThroughId c) (outbox c)"
      "length owing \<ge> SNAPSHOT_FOLD_THRESHOLD"
      "maintain Y c = c\<lparr>nextId := nextId c + 1, queue := [MergeOwedOp (map oid owing) (nextId c) (merge_entries Y owing)]\<rparr>"
proof -
  let ?o = "filter (\<lambda>e. oid e > lastCoalescedId c \<and> oid e > acknowledgedThroughId c) (outbox c)"
  show ?thesis
  proof (cases "queue c = [] \<and> \<not> length ?o < SNAPSHOT_FOLD_THRESHOLD")
    case True
    then have "maintain Y c = c\<lparr>nextId := nextId c + 1, queue := [MergeOwedOp (map oid ?o) (nextId c) (merge_entries Y ?o)]\<rparr>"
      unfolding maintain_def Let_def by simp
    with True show ?thesis using merging [OF _ HOL.refl] by simp
  next
    case False
    then show ?thesis using same unfolding maintain_def Let_def by auto
  qed
qed

section \<open>The invariant of a session\<close>

abbreviation base_of :: "durable_snapshot \<Rightarrow> outbox_entry list \<times> nat" where
  "base_of s0 \<equiv> (soutbox s0, scursor s0)"

text \<open>What has been accepted: a batch the ports can take, all of it accounted for.\<close>

definition history_ok :: "durable_snapshot \<Rightarrow> 't session \<Rightarrow> bool" where
  "history_ok s0 w \<longleftrightarrow>
     ops_ok (accepted w) (base_of s0) (slastId s0) \<and> fold op_id (accepted w) (slastId s0) < nextId (ctl w)
     \<and> (\<not> discarded (ctl w) \<longrightarrow> accepted w = confirmed w @ in_flight (ctl w) @ queue (ctl w)
          \<and> (outbox (ctl w), cursor (ctl w)) = succeeded (confirmed w) (base_of s0)
          \<and> landed w = confirmed w @ on_disk (ctl w))
     \<and> (discarded (ctl w) \<longrightarrow> queue (ctl w) = [] \<and> outbox (ctl w) = [])
     \<and> (\<exists>rest. accepted w = landed w @ (case flight (ctl w) of Some (b, None) \<Rightarrow> b | _ \<Rightarrow> []) @ rest)
     \<and> (\<forall>b r. flight (ctl w) = Some (b, r) \<longrightarrow> b \<noteq> [])"

text \<open>What is on disk: the landed operations, over what was loaded.\<close>

definition disk_ok :: "('t \<Rightarrow> durable_snapshot) \<Rightarrow> (nat \<Rightarrow> 't \<Rightarrow> bool) \<Rightarrow> durable_snapshot \<Rightarrow> 't session \<Rightarrow> bool" where
  "disk_ok load good s0 w \<longleftrightarrow>
     good (fold op_id (landed w) (slastId s0)) (disk w)
     \<and> soutbox (load (disk w)) = fst (succeeded (landed w) (base_of s0))
     \<and> scursor (load (disk w)) \<le> snd (succeeded (landed w) (base_of s0))
     \<and> (acks_owed (landed w) (base_of s0) \<longrightarrow> scursor (load (disk w)) = snd (succeeded (landed w) (base_of s0)))"

lemma history_live:
  assumes "\<not> discarded (ctl w)"
  shows "history_ok s0 w \<longleftrightarrow>
    ops_ok (accepted w) (base_of s0) (slastId s0) \<and> fold op_id (accepted w) (slastId s0) < nextId (ctl w)
    \<and> accepted w = confirmed w @ in_flight (ctl w) @ queue (ctl w)
    \<and> (outbox (ctl w), cursor (ctl w)) = succeeded (confirmed w) (base_of s0)
    \<and> landed w = confirmed w @ on_disk (ctl w)
    \<and> (\<forall>b r. flight (ctl w) = Some (b, r) \<longrightarrow> b \<noteq> [])"
proof -
  have "\<exists>rest. confirmed w @ in_flight (ctl w) @ queue (ctl w)
      = (confirmed w @ on_disk (ctl w)) @ (case flight (ctl w) of Some (b, None) \<Rightarrow> b | _ \<Rightarrow> []) @ rest"
    by (auto simp: in_flight_def on_disk_def split: option.splits bool.splits)
  then show ?thesis using assms unfolding history_ok_def by auto
qed

lemma history_same:
  assumes "history_ok s0 w" and "books c = books (ctl w)" and "flight c = flight (ctl w)"
  shows "history_ok s0 (w\<lparr>ctl := c\<rparr>)"
  using assms by (simp add: history_ok_def in_flight_def on_disk_def)

lemma history_accept:
  assumes "history_ok s0 w" and "\<not> discarded (ctl w)"
    and "queue c = queue (ctl w) @ ops" "outbox c = outbox (ctl w)" "cursor c = cursor (ctl w)" "\<not> discarded c"
    and "flight c = flight (ctl w)"
    and "ops_ok ops (succeeded (accepted w) (base_of s0)) (fold op_id (accepted w) (slastId s0))"
    and "fold op_id ops (fold op_id (accepted w) (slastId s0)) < nextId c"
  shows "history_ok s0 (w\<lparr>ctl := c, accepted := accepted w @ ops\<rparr>)"
proof -
  have "in_flight c = in_flight (ctl w)" "on_disk c = on_disk (ctl w)" using assms(7) by (simp_all add: in_flight_def on_disk_def)
  moreover have "ops_ok (accepted w @ ops) (base_of s0) (slastId s0)"
    using assms(1,8) unfolding ops_ok_append history_ok_def by blast
  ultimately show ?thesis using assms by (auto simp: history_live)
qed

lemma history_take:
  assumes "history_ok s0 w" and "flight (ctl w) = None"
  shows "history_ok s0 (w\<lparr>ctl := next_batch (ctl w)\<rparr>)"
proof (cases "discarded (ctl w)")
  case True
  with assms show ?thesis by (auto simp: history_ok_def next_batch_simps)
next
  case False
  with assms show ?thesis
    by (cases "queue (ctl w) = []") (auto simp: history_live in_flight_def on_disk_def next_batch_simps)
qed

lemma history_release:
  assumes "history_ok s0 w" and "discarded (ctl w) \<or> flight (ctl w) = None"
  shows "history_ok s0 (w\<lparr>ctl := release (ctl w)\<rparr>)"
proof -
  have none: "flight (release (ctl w)) = None" by (simp add: flight_def)
  show ?thesis
  proof (cases "discarded (ctl w)")
    case True
    with assms(1) show ?thesis by (auto simp: history_ok_def none)
  next
    case False
    with assms show ?thesis by (auto simp: history_live in_flight_def on_disk_def none)
  qed
qed

lemma history_committed:
  assumes "history_ok s0 w" and "flight (ctl w) = Some (b, Some True)"
  shows "history_ok s0 (w\<lparr>ctl := committed b (ctl w), confirmed := confirmed w @ (if discarded (ctl w) then [] else b)\<rparr>)"
proof (cases "discarded (ctl w)")
  case True
  then have "history_ok s0 (w\<lparr>ctl := release (ctl w)\<rparr>)" using assms(1) by (intro history_release) auto
  with True show ?thesis by (simp add: committed_def)
next
  case False
  obtain ob cu where s: "succeeded b (outbox (ctl w), cursor (ctl w)) = (ob, cu)" by fastforce
  have c: "queue (committed b (ctl w)) = queue (ctl w)" "outbox (committed b (ctl w)) = ob" "cursor (committed b (ctl w)) = cu"
    "nextId (committed b (ctl w)) = nextId (ctl w)" "\<not> discarded (committed b (ctl w))" "flight (committed b (ctl w)) = None"
    using False by (simp_all add: committed_def mirror_batch_def s Let_def flight_def)
  have f: "in_flight (ctl w) = b" "on_disk (ctl w) = b" using assms(2) by (simp_all add: in_flight_def on_disk_def)
  then have "succeeded (confirmed w @ b) (base_of s0) = (ob, cu)"
    unfolding succeeded_append using assms(1) False s by (simp add: history_live)
  with assms(1) False c f show ?thesis by (auto simp: history_live in_flight_def [of "committed _ _"] on_disk_def [of "committed _ _"])
qed

lemma history_refused:
  assumes "history_ok s0 w" and "flight (ctl w) = Some (b, Some False)"
  shows "history_ok s0 (w\<lparr>ctl := refused b (ctl w)\<rparr>)"
proof (cases "discarded (ctl w)")
  case True
  then show ?thesis using assms(1) history_release [of s0 w] by (simp add: refused_def)
next
  case False
  let ?q = "b @ queue (ctl w)"
  have b: "b \<noteq> []" using assms by (simp add: history_ok_def)
  have h: "accepted w = confirmed w @ ?q" "landed w = confirmed w"
    "(outbox (ctl w), cursor (ctl w)) = succeeded (confirmed w) (base_of s0)"
    using assms False by (simp_all add: history_live in_flight_def on_disk_def)
  consider (again) "queue (refused b (ctl w)) = []" "flight (refused b (ctl w)) = Some (?q, None)"
    | (stop) "queue (refused b (ctl w)) = ?q" "flight (refused b (ctl w)) = None"
  proof (cases "requested (ctl w)")
    case True
    show thesis by (rule again) (use True False b in \<open>simp_all add: refused_def failed_def Let_def next_batch_simps\<close>)
  next
    case f: False
    show thesis by (rule stop) (use f False in \<open>simp_all add: refused_def failed_def Let_def flight_def\<close>)
  qed
  moreover have "outbox (refused b (ctl w)) = outbox (ctl w)" "cursor (refused b (ctl w)) = cursor (ctl w)"
    "nextId (refused b (ctl w)) = nextId (ctl w)" "\<not> discarded (refused b (ctl w))"
    using False by (simp_all add: refused_def failed_def Let_def next_batch_simps)
  ultimately show ?thesis using assms(1) False h b
    by cases (auto simp: history_live in_flight_def on_disk_def)
qed

lemma history_maintain:
  assumes "history_ok s0 w" and "owed_ok (slastId s0) (soutbox s0)" and "running (ctl w) = Some (Telling [])"
  shows "history_ok s0 (w\<lparr>ctl := maintain Y (ctl w), accepted := accepted w @ minted Y (ctl w)\<rparr>)"
proof (cases rule: maintain_cases [of Y "ctl w"])
  case same
  then have "minted Y (ctl w) = []" by (simp add: minted_def)
  with same assms(1) show ?thesis by simp
next
  case (merging owing)
  let ?op = "MergeOwedOp (map oid owing) (nextId (ctl w)) (merge_entries Y owing)"
  have none: "flight (ctl w) = None" using assms(3) by (simp add: flight_def)
  have live: "\<not> discarded (ctl w)"
  proof
    assume "discarded (ctl w)"
    then have "outbox (ctl w) = []" using assms(1) by (simp add: history_ok_def)
    with merging(2,3) show False by simp
  qed
  have acc: "accepted w = confirmed w" "(outbox (ctl w), cursor (ctl w)) = succeeded (confirmed w) (base_of s0)"
    using assms(1) live none merging(1) by (auto simp: history_ok_def in_flight_def)
  have m: "fold op_id (accepted w) (slastId s0) < nextId (ctl w)" and ok: "ops_ok (accepted w) (base_of s0) (slastId s0)"
    using assms(1) by (auto simp: history_ok_def)
  have "owed_ok (fold op_id (accepted w) (slastId s0)) (outbox (ctl w))"
    using owed_ok_ops [of "slastId s0" "base_of s0" "accepted w"] assms(2) ok acc by (metis fst_conv)
  then have "distinct (map oid owing)" "set (map oid owing) \<subseteq> outbox_ids (outbox (ctl w))"
    unfolding merging(2) owed_ok_def outbox_ids_def by (auto simp: strict_sorted_iff distinct_map_filter)
  then have "ops_ok [?op] (succeeded (accepted w) (base_of s0)) (fold op_id (accepted w) (slastId s0))"
    using m acc(1) by (simp flip: acc(2))
  moreover have "minted Y (ctl w) = [?op]" using merging assms(3) by (simp add: minted_def)
  moreover have "flight (maintain Y (ctl w)) = flight (ctl w)" by (simp add: flight_def)
  ultimately show ?thesis using live merging
    by (intro history_accept [OF assms(1) live]) simp_all
qed

lemma history_resume:
  assumes "history_ok s0 w" and "owed_ok (slastId s0) (soutbox s0)"
  shows "history_ok s0 (perform commit Y (Resume throws) w)"
proof (cases "running (ctl w)")
  case None
  then show ?thesis using assms(1) by (simp add: minted_def told_def)
next
  case (Some d)
  then show ?thesis
  proof (cases d)
    case Scheduled
    have "flight (ctl w) = None" by (simp add: flight_def Some Scheduled)
    from history_take [OF assms(1) this] show ?thesis by (simp add: Some Scheduled minted_def told_def)
  next
    case (Committing b r)
    have f: "flight (ctl w) = Some (b, r)" by (simp add: flight_def Some Committing)
    show ?thesis
    proof (cases r)
      case None
      then show ?thesis using assms(1) by (simp add: Some Committing minted_def told_def)
    next
      case (Some ok)
      then show ?thesis using history_committed [OF assms(1)] history_refused [OF assms(1)] f
        by (cases ok) (simp_all add: \<open>running (ctl w) = Some d\<close> Committing minted_def told_def)
    qed
  next
    case (Telling ls)
    have none: "flight (ctl w) = None" by (simp add: flight_def Some Telling)
    show ?thesis
    proof (cases ls)
      case Nil
      let ?w = "w\<lparr>ctl := maintain Y (ctl w), accepted := accepted w @ minted Y (ctl w)\<rparr>"
      have "history_ok s0 ?w" using assms by (rule history_maintain) (simp add: Some Telling Nil)
      moreover have "flight (ctl ?w) = None" using none by (simp add: flight_def)
      ultimately have "history_ok s0 (?w\<lparr>ctl := next_batch (ctl ?w)\<rparr>)" by (rule history_take)
      moreover have "?w\<lparr>ctl := next_batch (ctl ?w)\<rparr> = perform commit Y (Resume throws) w"
        by (simp add: Some Telling Nil told_def)
      ultimately show ?thesis by simp
    next
      case (Cons l ls')
      let ?c = "call_listener (sendableListeners (ctl w)) l throws ((ctl w)\<lparr>running := Some (Telling ls')\<rparr>)"
      have "history_ok s0 (w\<lparr>ctl := ?c\<rparr>)"
        by (rule history_same [OF assms(1)]) (use none in \<open>simp_all add: flight_def\<close>)
      then show ?thesis by (simp add: Some Telling Cons minted_def told_def)
    qed
  qed
qed

lemma history_land:
  assumes "history_ok s0 w"
  shows "history_ok s0 (perform commit Y Land w)" and "history_ok s0 (perform commit Y Reject w)"
proof -
  have refuse: "history_ok s0 (w\<lparr>ctl := (ctl w)\<lparr>running := Some (Committing b (Some False))\<rparr>\<rparr>)"
    if "running (ctl w) = Some (Committing b None)" for b
    using assms that by (auto simp: history_ok_def flight_def in_flight_def on_disk_def)
  have land: "history_ok s0 (w\<lparr>ctl := (ctl w)\<lparr>running := Some (Committing b (Some True))\<rparr>, disk := t, landed := landed w @ b\<rparr>)"
    if "running (ctl w) = Some (Committing b None)" for b t
    using assms that by (auto simp: history_ok_def flight_def in_flight_def on_disk_def)
  show "history_ok s0 (perform commit Y Land w)" "history_ok s0 (perform commit Y Reject w)"
    using assms refuse land by (auto split: option.split drain.split)
qed

lemma history_step:
  assumes "history_ok s0 w" and "owed_ok (slastId s0) (soutbox s0)"
  shows "history_ok s0 (perform commit Y a w)"
proof (cases a)
  case (Append bs seq)
  show ?thesis
  proof (cases "discarded (ctl w)")
    case True
    then show ?thesis using assms(1)
      by (auto simp: Append history_ok_def append_update_def enqueue_simps in_flight_def on_disk_def)
  next
    case False
    have "fold op_id (accepted w) (slastId s0) < nextId (ctl w)" using assms(1) by (simp add: history_ok_def)
    with False have "history_ok s0 (w\<lparr>ctl := append_update bs seq (ctl w), accepted := accepted w @ [AppendOp (nextId (ctl w)) bs seq]\<rparr>)"
      by (intro history_accept [OF assms(1)]) (simp_all add: append_update_def enqueue_simps)
    then show ?thesis by (simp add: Append False)
  qed
next
  case (Acknowledge i q)
  show ?thesis
  proof (cases "discarded (ctl w)")
    case True
    then show ?thesis using assms(1)
      by (auto simp: Acknowledge history_ok_def acknowledge_through_def enqueue_simps in_flight_def on_disk_def)
  next
    case False
    have "fold op_id (accepted w) (slastId s0) < nextId (ctl w)" using assms(1) by (simp add: history_ok_def)
    with False have "history_ok s0 (w\<lparr>ctl := acknowledge_through i q (ctl w), accepted := accepted w @ [AckOp i q]\<rparr>)"
      by (intro history_accept [OF assms(1)]) (simp_all add: acknowledge_through_def enqueue_simps)
    then show ?thesis by (simp add: Acknowledge False)
  qed
next
  case Discard
  have d: "flight (discard (ctl w)) = flight (ctl w)" "nextId (discard (ctl w)) = nextId (ctl w)"
    "queue (discard (ctl w)) = []" "outbox (discard (ctl w)) = []" "discarded (discard (ctl w))"
    by (simp_all add: discard_def flight_def)
  let ?w = "w\<lparr>ctl := discard (ctl w)\<rparr>"
  have e: "ctl ?w = discard (ctl w)" "accepted ?w = accepted w" "landed ?w = landed w" by simp_all
  show ?thesis using assms(1) d(5) unfolding Discard perform.simps(7) history_ok_def e d(1-4) by blast
next
  case (Resume throws)
  then show ?thesis using history_resume [OF assms] by simp
qed (use assms(1) history_land [OF assms(1)] in
  \<open>auto intro!: history_same simp: coalesce_def Let_def closing_flush_def onSendable_def offSendable_def
     persistence_subscribe_def persistence_unsubscribe_def simp del: perform.simps(14,15)\<close>,
   simp_all add: close_def)

section \<open>The contract of a storage port\<close>

text \<open>
  What the controller relies on: what a port loads is in id order below the ids handed out, and a
  batch the controller makes, once committed, loads as the mirror says. \<open>good m t\<close> says that
  \<open>t\<close> is well formed and uses no id above \<open>m\<close>.
\<close>

locale durable_port =
  fixes commit :: "durable_op list \<Rightarrow> 't \<Rightarrow> 't option"
    and load :: "'t \<Rightarrow> durable_snapshot"
    and good :: "nat \<Rightarrow> 't \<Rightarrow> bool"
  assumes loads_in_order: "good m t \<Longrightarrow> owed_ok m (soutbox (load t))"
    and commit_mirrors: "good m t \<Longrightarrow> scursor (load t) \<le> c \<Longrightarrow> ops_ok ops (soutbox (load t), c) m \<Longrightarrow>
      commit ops t = Some t' \<Longrightarrow>
      good (fold op_id ops m) t' \<and> soutbox (load t') = fst (succeeded ops (soutbox (load t), c))
      \<and> scursor (load t') \<le> snd (succeeded ops (soutbox (load t), c))
      \<and> (scursor (load t) = c \<and> acks_owed ops (soutbox (load t), c) \<longrightarrow> scursor (load t') = snd (succeeded ops (soutbox (load t), c)))"
begin

lemma land_keeps_disk:
  assumes "history_ok s0 w" and "disk_ok load good s0 w"
  shows "disk_ok load good s0 (perform commit Y Land w)"
proof (cases "\<exists>b t. running (ctl w) = Some (Committing b None) \<and> commit b (disk w) = Some t")
  case False
  with assms(2) show ?thesis by (auto simp: disk_ok_def split: option.split drain.split)
next
  case True
  then obtain b t where b: "running (ctl w) = Some (Committing b None)" "commit b (disk w) = Some t" by blast
  let ?base = "base_of s0" and ?m = "fold op_id (landed w) (slastId s0)"
  obtain rest where rest: "accepted w = landed w @ b @ rest" using assms(1) b(1) by (auto simp: history_ok_def flight_def)
  obtain ob cu where s: "succeeded (landed w) ?base = (ob, cu)" by fastforce
  have "ops_ok b (ob, cu) ?m" using assms(1) by (simp add: history_ok_def rest ops_ok_append s)
  moreover have d: "good ?m (disk w)" "soutbox (load (disk w)) = ob" "scursor (load (disk w)) \<le> cu"
    "acks_owed (landed w) ?base \<longrightarrow> scursor (load (disk w)) = cu"
    using assms(2) by (simp_all add: disk_ok_def s)
  ultimately have m: "good (fold op_id b ?m) t \<and> soutbox (load t) = fst (succeeded b (ob, cu))
      \<and> scursor (load t) \<le> snd (succeeded b (ob, cu))
      \<and> (scursor (load (disk w)) = cu \<and> acks_owed b (ob, cu) \<longrightarrow> scursor (load t) = snd (succeeded b (ob, cu)))"
    using commit_mirrors [of ?m "disk w" cu b t] b(2) by simp
  have acks: "acks_owed (xs @ ys) mc \<longleftrightarrow> acks_owed xs mc \<and> acks_owed ys (succeeded xs mc)" for xs ys mc
    by (induction xs arbitrary: mc) (simp_all add: succeeded_def)
  show ?thesis using m d(4) b by (simp add: disk_ok_def succeeded_append s acks)
qed

lemma disk_step:
  assumes "history_ok s0 w" and "disk_ok load good s0 w"
  shows "disk_ok load good s0 (perform commit Y a w)"
proof (cases a)
  case Land
  then show ?thesis using land_keeps_disk [OF assms] by simp
qed (use assms(2) in \<open>auto simp: disk_ok_def persistence_subscribe_def split: option.split drain.split\<close>)

lemma session_invariant:
  assumes "good (slastId (load t)) t"
  shows "history_ok (load t) (run_session commit Y acts (open_session load t))
    \<and> disk_ok load good (load t) (run_session commit Y acts (open_session load t))"
proof -
  let ?s = "load t"
  have ord: "owed_ok (slastId ?s) (soutbox ?s)" by (rule loads_in_order [OF assms])
  have start: "history_ok ?s (open_session load t) \<and> disk_ok load good ?s (open_session load t)"
    using assms by (simp add: open_session_def createPersistenceController_def history_ok_def disk_ok_def
        flight_def in_flight_def on_disk_def)
  have "history_ok ?s w \<and> disk_ok load good ?s w \<Longrightarrow>
      history_ok ?s (fold (perform commit Y) acts w) \<and> disk_ok load good ?s (fold (perform commit Y) acts w)" for w
    by (induction acts arbitrary: w) (auto simp: history_step [OF _ ord] disk_step simp del: perform.simps)
  with start show ?thesis by (simp add: run_session_def)
qed

end

text \<open>Both ports keep it.\<close>

definition sqlite_good :: "nat \<Rightarrow> updates \<Rightarrow> bool" where
  "sqlite_good m t \<longleftrightarrow> updates_ok t \<and> (\<forall>k\<in>fst ` set t. k \<le> m)"

definition idb_good :: "nat \<Rightarrow> updates \<times> int \<Rightarrow> bool" where
  "idb_good m s \<longleftrightarrow> sqlite_good m (fst s) \<and> snd s = int (length (fst s)) \<and> foldableCount (fst s) < SNAPSHOT_FOLD_THRESHOLD"

definition idb_load :: "updates \<times> int \<Rightarrow> durable_snapshot" where
  "idb_load s = readIdbUpdates (fst s)"

lemma readOutbox_owed_ok: "sqlite_good m t \<Longrightarrow> owed_ok m (readOutbox t)"
proof -
  assume g: "sqlite_good m t"
  have "map oid (readOutbox t) = map fst (filter (\<lambda>(i, r). owed i r) t)"
    by (simp add: readOutbox_def tbl_select_def comp_def case_prod_unfold)
  moreover have "sorted_wrt (<) (map fst t)" using g by (simp add: sqlite_good_def updates_ok_def table_ok_def)
  ultimately have "sorted_wrt (<) (map oid (readOutbox t))" by (simp add: sorted_wrt_map sorted_wrt_filter)
  moreover have "outbox_ids (readOutbox t) \<subseteq> {..m}" using g by (force simp: readOutbox_ids sqlite_good_def)
  ultimately show ?thesis by (simp add: owed_ok_def)
qed

lemma load_fields [simp]: "soutbox (loadDurableSnapshot t) = readOutbox t" "scursor (loadDurableSnapshot t) = readCursor t"
  "slastId (loadDurableSnapshot t) = readLastId t"
  by (simp_all add: loadDurableSnapshot_def)

lemma sqlite_port_mirrors:
  assumes "sqlite_good m t" and "readCursor t \<le> c" and "ops_ok ops (readOutbox t, c) m" and "sqlite_commit Y ops t = Some t'"
  shows "sqlite_good (fold op_id ops m) t' \<and> readOutbox t' = fst (succeeded ops (readOutbox t, c))
    \<and> readCursor t' \<le> snd (succeeded ops (readOutbox t, c))
    \<and> (readCursor t = c \<and> acks_owed ops (readOutbox t, c) \<longrightarrow> readCursor t' = snd (succeeded ops (readOutbox t, c)))
    \<and> foldableCount t' < SNAPSHOT_FOLD_THRESHOLD"
proof -
  have "ops_ok ops (readOutbox t, readCursor t) m" using assms(3) ops_ok_cursor by blast
  with sqlite_commit_mirror [of t m ops c Y t'] assms show ?thesis
    by (simp add: sqlite_good_def foldableCount_def acked_def)
qed

interpretation sqlite_port: durable_port "sqlite_commit D" loadDurableSnapshot sqlite_good
proof unfold_locales
  fix m t show "sqlite_good m t \<Longrightarrow> owed_ok m (soutbox (loadDurableSnapshot t))" by (simp add: readOutbox_owed_ok)
next
  fix m t c ops t'
  assume "sqlite_good m t" "scursor (loadDurableSnapshot t) \<le> c" "ops_ok ops (soutbox (loadDurableSnapshot t), c) m"
    and "sqlite_commit D ops t = Some t'"
  then show "sqlite_good (fold op_id ops m) t' \<and> soutbox (loadDurableSnapshot t') = fst (succeeded ops (soutbox (loadDurableSnapshot t), c))
      \<and> scursor (loadDurableSnapshot t') \<le> snd (succeeded ops (soutbox (loadDurableSnapshot t), c))
      \<and> (scursor (loadDurableSnapshot t) = c \<and> acks_owed ops (soutbox (loadDurableSnapshot t), c) \<longrightarrow>
           scursor (loadDurableSnapshot t') = snd (succeeded ops (soutbox (loadDurableSnapshot t), c)))"
    using sqlite_port_mirrors [of m t c ops D t'] by simp
qed

interpretation idb_port: durable_port "idb_commit D" idb_load idb_good
proof unfold_locales
  fix m s show "idb_good m s \<Longrightarrow> owed_ok m (soutbox (idb_load s))"
    by (simp add: idb_load_def readIdbUpdates_eq idb_good_def readOutbox_owed_ok)
next
  fix m s c ops s'
  assume a: "idb_good m s" "scursor (idb_load s) \<le> c" "ops_ok ops (soutbox (idb_load s), c) m" "idb_commit D ops s = Some s'"
  obtain t where s: "s = (t, int (length t))" using a(1) by (cases s) (simp add: idb_good_def)
  have g: "sqlite_good m t" "length (acked t) < SNAPSHOT_FOLD_THRESHOLD" using a(1) by (simp_all add: idb_good_def s foldableCount_def acked_def)
  have o: "readCursor t \<le> c" "ops_ok ops (readOutbox t, c) m" using a(2,3) by (simp_all add: s idb_load_def readIdbUpdates_eq)
  then have "ops_ok ops (readOutbox t, readCursor t) m" using ops_ok_cursor by blast
  with idb_commit_agrees [of t m ops D] g a(4)
  obtain t' where t': "sqlite_commit D ops t = Some t'" "s' = (t', int (length t'))" by (auto simp: s sqlite_good_def)
  from sqlite_port_mirrors [OF g(1) o t'(1)]
  show "idb_good (fold op_id ops m) s' \<and> soutbox (idb_load s') = fst (succeeded ops (soutbox (idb_load s), c))
      \<and> scursor (idb_load s') \<le> snd (succeeded ops (soutbox (idb_load s), c))
      \<and> (scursor (idb_load s) = c \<and> acks_owed ops (soutbox (idb_load s), c) \<longrightarrow>
           scursor (idb_load s') = snd (succeeded ops (soutbox (idb_load s), c)))"
    by (simp add: idb_good_def idb_load_def readIdbUpdates_eq s t'(2))
qed

section \<open>What a session may retire\<close>

lemma history_grows:
  "\<exists>zs. confirmed (perform commit Y a w) = confirmed w @ zs" "\<exists>zs. landed (perform commit Y a w) = landed w @ zs"
  by (cases a; auto simp: persistence_subscribe_def split: option.split drain.split)+

lemma history_grows_run:
  "(\<exists>zs. confirmed (run_session commit Y acts w) = confirmed w @ zs) \<and> (\<exists>zs. landed (run_session commit Y acts w) = landed w @ zs)"
proof (induction acts arbitrary: w)
  case (Cons a acts)
  have run: "run_session commit Y (a # acts) w = run_session commit Y acts (perform commit Y a w)" by (simp add: run_session_def)
  show ?case unfolding run
    using Cons.IH [of "perform commit Y a w"] history_grows [of commit Y a w] by (metis append_assoc)
qed (simp add: run_session_def)

text \<open>
  Entries at or below an id that was durable once are never new: later states only keep or
  retire them.
\<close>

lemma old_entries_only:
  assumes "history_ok s0 w" and "\<not> discarded (ctl w)" and "owed_ok (slastId s0) (soutbox s0)"
    and "i \<in> outbox_ids (outbox (ctl w))"
    and "ops_ok ops (base_of s0) (slastId s0)" and "ops = confirmed w @ zs"
    and "x \<in> set (fst (succeeded ops (base_of s0)))" and "oid x \<le> i"
  shows "x \<in> set (outbox (ctl w))"
proof -
  let ?m = "fold op_id (confirmed w) (slastId s0)"
  have mir: "succeeded (confirmed w) (base_of s0) = (outbox (ctl w), cursor (ctl w))"
    using assms(1,2) by (simp add: history_ok_def)
  have ok: "ops_ok (confirmed w) (base_of s0) (slastId s0)" "ops_ok zs (outbox (ctl w), cursor (ctl w)) ?m"
    using assms(5) unfolding assms(6) ops_ok_append mir by simp_all
  have "owed_ok ?m (outbox (ctl w))" using owed_ok_ops [OF _ ok(1)] assms(3) mir by simp
  then have "i \<le> ?m" using assms(4) by (auto simp: owed_ok_def)
  from succeeded_below [OF ok(2) this _ assms(8)] show ?thesis
    using assms(7) by (simp add: assms(6) succeeded_append mir)
qed

lemma merged_ops:
  assumes "yjs_laws Y content ops" and "entries \<noteq> []"
  shows "ops (merge_entries Y entries) = (\<Union>e\<in>set entries. ops (obytes e))"
  using assms by (cases entries) (auto simp: merge_entries_def yjs_laws_def length_Suc_conv)

context durable_port
begin

lemma submitted_only:
  assumes open_ok: "good (slastId (load t)) t" and w: "w = run_session commit Y acts (open_session load t)"
    and live: "\<not> discarded (ctl w)" and sub: "snd (coalesce Y (ctl w)) = Some s"
    and w': "w' = run_session commit Y acts' (perform commit Y Coalesce w)"
    and x: "x \<in> set (soutbox (load (disk w'))) \<union> set (outbox (ctl w'))" "oid x \<le> oid s"
  shows "x \<in> set (outbox (ctl w))"
proof -
  let ?s0 = "load t"
  have all: "w' = run_session commit Y (acts @ [Coalesce] @ acts') (open_session load t)"
    by (simp add: w w' run_session_def)
  have inv: "history_ok ?s0 w" "history_ok ?s0 w'" "disk_ok load good ?s0 w'"
    using session_invariant [OF open_ok, of Y] unfolding w all by blast+
  have ord: "owed_ok (slastId ?s0) (soutbox ?s0)" by (rule loads_in_order [OF open_ok])
  have "oid s \<in> outbox_ids (outbox (ctl w))"
  proof -
    let ?e = "filter (\<lambda>e. oid e > acknowledgedThroughId (ctl w)) (outbox (ctl w))"
    have ne: "?e \<noteq> []" and "oid s = oid (last ?e)"
      using sub by (auto simp: coalesce_def Let_def split: if_splits)
    moreover have "last ?e \<in> set (outbox (ctl w))" using last_in_set [OF ne] by auto
    ultimately show ?thesis by (simp add: outbox_ids_def)
  qed
  note old = old_entries_only [OF inv(1) live ord this]
  obtain zs where zs: "confirmed w' = confirmed w @ zs"
    using history_grows_run [of commit Y acts' "perform commit Y Coalesce w"] by (auto simp: w')
  obtain ys where ys: "landed w' = confirmed w @ ys"
    using history_grows_run [of commit Y acts' "perform commit Y Coalesce w"] inv(1) live
    by (auto simp: w' history_ok_def)
  have "ops_ok (accepted w') (base_of ?s0) (slastId ?s0)" using inv(2) by (simp add: history_ok_def)
  moreover obtain r where "accepted w' = landed w' @ r" using inv(2) by (auto simp: history_ok_def)
  ultimately have lok: "ops_ok (landed w') (base_of ?s0) (slastId ?s0)" by (simp add: ops_ok_append)
  from x(1) consider (disk) "x \<in> set (soutbox (load (disk w')))" | (mirror) "x \<in> set (outbox (ctl w'))" by blast
  then show ?thesis
  proof cases
    case disk
    then have "x \<in> set (fst (succeeded (landed w') (base_of ?s0)))" using inv(3) by (simp add: disk_ok_def)
    with old [OF lok ys] x(2) show ?thesis by blast
  next
    case mirror
    then have d: "\<not> discarded (ctl w')" using inv(2) by (auto simp: history_ok_def)
    then have "x \<in> set (fst (succeeded (confirmed w') (base_of ?s0)))" "landed w' = confirmed w' @ on_disk (ctl w')"
      using mirror inv(2) by (auto simp: history_ok_def simp del: succeeded_append dest!: arg_cong [where f = fst])
    moreover from this lok have "ops_ok (confirmed w') (base_of ?s0) (slastId ?s0)" by (simp add: ops_ok_append)
    ultimately show ?thesis using old [OF _ zs] x(2) by blast
  qed
qed

end

section \<open>A flush that meets no failure ends saved\<close>

text \<open>
  What is still to do: the entries the outbox will hold once everything pending has landed, and
  the operations pending. A commit lowers the second, a merge lowers the first by more than it
  adds, and the phases in between come down in turn.
\<close>

definition pending_work :: "controller \<Rightarrow> nat" where
  "pending_work c = length (fst (succeeded (in_flight c @ queue c) (outbox c, cursor c))) + length (in_flight c) + length (queue c)"

fun phase :: "drain \<Rightarrow> nat" where
  "phase (Committing b (Some ok)) = 1"
| "phase (Committing b None) = 2"
| "phase Scheduled = 3"
| "phase (Telling ls) = 4 + length ls"

definition drained :: "'t session \<Rightarrow> bool" where
  "drained w \<longleftrightarrow> status (ctl w) = Saved \<and> landed w = accepted w"

definition calm_drain :: "drain \<Rightarrow> bool" where
  "calm_drain d \<longleftrightarrow> (\<forall>b. d \<noteq> Committing b (Some False))"

lemma next_batch_progress:
  assumes "history_ok s0 w" and "\<not> discarded (ctl w)" and "running (ctl w) = Some d" and "flight (ctl w) = None" and "3 \<le> phase d"
    and "ctl w1 = next_batch (ctl w)" and "landed w1 = landed w" and "accepted w1 = accepted w"
  shows "drained w1 \<or> (\<exists>d1. running (ctl w1) = Some d1 \<and> calm_drain d1 \<and> pending_work (ctl w1) = pending_work (ctl w) \<and> phase d1 < phase d)"
proof (cases "queue (ctl w) = []")
  case True
  then show ?thesis using assms
    by (simp add: drained_def status_def next_batch_def history_live in_flight_def on_disk_def)
next
  case False
  then have "running (ctl w1) = Some (Committing (queue (ctl w)) None)" using assms(6) by (simp add: next_batch_def)
  moreover have "pending_work (ctl w1) = pending_work (ctl w)"
    using False assms(4,6) by (simp add: pending_work_def in_flight_def next_batch_simps)
  ultimately show ?thesis using assms(5) by (simp add: calm_drain_def)
qed

lemma merge_progress:
  assumes "owing = filter Q ob" and "length owing \<ge> SNAPSHOT_FOLD_THRESHOLD"
  shows "length (filter (\<lambda>e. oid e \<notin> set (map oid owing)) ob) + 2 < length ob"
proof -
  have "length (filter Q ob) \<le> length (filter (\<lambda>e. oid e \<in> set (map oid owing)) ob)"
  proof -
    have "filter Q ob = filter Q (filter (\<lambda>e. oid e \<in> set (map oid owing)) ob)"
      unfolding assms(1) filter_filter by (rule filter_cong) auto
    then show ?thesis by (metis length_filter_le)
  qed
  with assms sum_length_filter_compl [of "\<lambda>e. oid e \<in> set (map oid owing)" ob] show ?thesis by simp
qed

lemma tell_progress:
  assumes "history_ok s0 w" and "owed_ok (slastId s0) (soutbox s0)" and "\<not> discarded (ctl w)" and "running (ctl w) = Some (Telling ls)"
    and "w1 = perform commit Y (Resume False) w"
  shows "drained w1 \<or> (\<exists>d1. running (ctl w1) = Some d1 \<and> calm_drain d1
    \<and> (pending_work (ctl w1) < pending_work (ctl w) \<or> pending_work (ctl w1) = pending_work (ctl w) \<and> phase d1 < phase (Telling ls)))"
proof (cases ls)
  case (Cons l ls')
  then have "ctl w1 = call_listener (sendableListeners (ctl w)) l False ((ctl w)\<lparr>running := Some (Telling ls')\<rparr>)"
    using assms(4,5) by simp
  then have "running (ctl w1) = Some (Telling ls')" "pending_work (ctl w1) = pending_work (ctl w)"
    using assms(4) by (simp_all add: pending_work_def in_flight_def flight_def)
  with Cons show ?thesis by (simp add: calm_drain_def)
next
  case Nil
  have none: "flight (ctl w) = None" using assms(4) by (simp add: flight_def)
  have c1: "ctl w1 = next_batch (maintain Y (ctl w))" "landed w1 = landed w" "accepted w1 = accepted w @ minted Y (ctl w)"
    using assms(4,5) Nil by simp_all
  show ?thesis
  proof (cases rule: maintain_cases [of Y "ctl w"])
    case same
    have "drained w1 \<or> (\<exists>d1. running (ctl w1) = Some d1 \<and> calm_drain d1 \<and> pending_work (ctl w1) = pending_work (ctl w) \<and> phase d1 < phase (Telling ls))"
      by (rule next_batch_progress [OF assms(1,3,4) none]) (use c1 same in \<open>simp_all add: minted_def\<close>)
    then show ?thesis by blast
  next
    case (merging owing)
    let ?op = "MergeOwedOp (map oid owing) (nextId (ctl w)) (merge_entries Y owing)"
    have r: "running (ctl w1) = Some (Committing [?op] None)" using c1(1) merging(4) by (simp add: next_batch_def)
    have "outbox (ctl w1) = outbox (ctl w)" "queue (ctl w1) = []" using c1(1) by (simp_all add: next_batch_simps)
    moreover have "in_flight (ctl w1) = [?op]" using r by (simp add: in_flight_def flight_def)
    ultimately have "pending_work (ctl w1) = length (filter (\<lambda>e. oid e \<notin> set (map oid owing)) (outbox (ctl w))) + 2"
      by (simp add: pending_work_def succeeded_def)
    moreover have "pending_work (ctl w) = length (outbox (ctl w))"
      using merging(1) none by (simp add: pending_work_def in_flight_def)
    ultimately have "pending_work (ctl w1) < pending_work (ctl w)" using merge_progress [OF merging(2,3)] by simp
    with r show ?thesis by (simp add: calm_drain_def)
  qed
qed

context durable_port
begin

lemma drain_progress:
  assumes total: "\<And>m t c ops. good m t \<Longrightarrow> scursor (load t) \<le> c \<Longrightarrow> ops_ok ops (soutbox (load t), c) m \<Longrightarrow> commit ops t \<noteq> None"
    and inv: "history_ok s0 w" "disk_ok load good s0 w" "owed_ok (slastId s0) (soutbox s0)" and live: "\<not> discarded (ctl w)"
    and run: "running (ctl w) = Some d" "calm_drain d"
  shows "\<exists>a\<in>{Resume False, Land}. let w1 = perform commit Y a w in \<not> discarded (ctl w1) \<and> (drained w1 \<or>
     (\<exists>d1. running (ctl w1) = Some d1 \<and> calm_drain d1
       \<and> (pending_work (ctl w1) < pending_work (ctl w) \<or> pending_work (ctl w1) = pending_work (ctl w) \<and> phase d1 < phase d)))"
proof (cases d)
  case Scheduled
  have none: "flight (ctl w) = None" using run by (simp add: flight_def Scheduled)
  let ?w1 = "perform commit Y (Resume False) w"
  have c1: "ctl ?w1 = next_batch (ctl w)" "accepted ?w1 = accepted w" "landed ?w1 = landed w"
    using run by (simp_all add: Scheduled minted_def)
  from next_batch_progress [OF inv(1) live run(1) none, of ?w1] c1 live show ?thesis
    by (intro bexI [of _ "Resume False"]) (auto simp: Let_def Scheduled next_batch_simps simp del: perform.simps)
next
  case (Committing b r)
  have f: "flight (ctl w) = Some (b, r)" using run by (simp add: flight_def Committing)
  show ?thesis
  proof (cases r)
    case None
    obtain ob cu where s: "succeeded (landed w) (base_of s0) = (ob, cu)" by fastforce
    obtain rest where "accepted w = landed w @ b @ rest" using inv(1) f None by (auto simp: history_ok_def)
    then have "ops_ok b (ob, cu) (fold op_id (landed w) (slastId s0))" using inv(1) by (simp add: history_ok_def ops_ok_append s)
    then obtain t where t: "commit b (disk w) = Some t"
      using total [of "fold op_id (landed w) (slastId s0)" "disk w" cu b] inv(2) by (auto simp: disk_ok_def s)
    then have "ctl (perform commit Y Land w) = (ctl w)\<lparr>running := Some (Committing b (Some True))\<rparr>"
      using run(1) None by (simp add: Committing)
    then show ?thesis using live f None
      by (intro bexI [of _ Land]) (simp_all add: Let_def Committing calm_drain_def pending_work_def in_flight_def flight_def)
  next
    case (Some ok)
    then have ok: "ok" using run(2) by (cases ok) (auto simp: Committing calm_drain_def)
    let ?w1 = "perform commit Y (Resume False) w"
    have c1: "ctl ?w1 = committed b (ctl w)" using run(1) Some ok by (simp add: Committing)
    obtain ob cu where s: "succeeded b (outbox (ctl w), cursor (ctl w)) = (ob, cu)" by fastforce
    have "b \<noteq> []" using inv(1) f by (simp add: history_ok_def)
    moreover have "outbox (ctl ?w1) = ob" "cursor (ctl ?w1) = cu" "queue (ctl ?w1) = queue (ctl w)" "flight (ctl ?w1) = None" "\<not> discarded (ctl ?w1)"
      "\<exists>ls. running (ctl ?w1) = Some (Telling ls)"
      unfolding c1 using live by (auto simp: committed_def mirror_batch_def s Let_def flight_def)
    moreover have "pending_work (ctl w) = length (fst (succeeded (queue (ctl w)) (ob, cu))) + length b + length (queue (ctl w))"
      using f by (simp add: pending_work_def in_flight_def succeeded_append s)
    ultimately have "pending_work (ctl ?w1) < pending_work (ctl w)"
      by (simp add: pending_work_def in_flight_def del: perform.simps)
    with \<open>\<exists>ls. running (ctl ?w1) = Some (Telling ls)\<close> \<open>\<not> discarded (ctl ?w1)\<close> show ?thesis
      by (intro bexI [of _ "Resume False"]) (auto simp: Let_def calm_drain_def simp del: perform.simps)
  qed
next
  case (Telling ls)
  let ?w1 = "perform commit Y (Resume False) w"
  have "\<not> discarded (ctl ?w1)" using live run(1) by (cases ls) (simp_all add: Telling next_batch_simps)
  with tell_progress [OF inv(1,3) live run(1) [unfolded Telling], of ?w1 commit Y] show ?thesis
    by (intro bexI [of _ "Resume False"]) (simp_all add: Let_def Telling del: perform.simps phase.simps)
qed

lemma drain_ends:
  assumes total: "\<And>m t c ops. good m t \<Longrightarrow> scursor (load t) \<le> c \<Longrightarrow> ops_ok ops (soutbox (load t), c) m \<Longrightarrow> commit ops t \<noteq> None"
    and "history_ok s0 w" "disk_ok load good s0 w" "owed_ok (slastId s0) (soutbox s0)" and "\<not> discarded (ctl w)"
    and "running (ctl w) = Some d" "calm_drain d"
  shows "\<exists>acts. set acts \<subseteq> {Resume False, Land} \<and> drained (run_session commit Y acts w)"
  using assms(2-)
proof (induction "(pending_work (ctl w), phase d)" arbitrary: w d rule: wf_induct_rule [OF wf_lex_prod [OF wf_less wf_less]])
  case 1
  obtain a where a: "a \<in> {Resume False, Land}" "\<not> discarded (ctl (perform commit Y a w))"
    and step: "drained (perform commit Y a w) \<or>
     (\<exists>d1. running (ctl (perform commit Y a w)) = Some d1 \<and> calm_drain d1
       \<and> (pending_work (ctl (perform commit Y a w)) < pending_work (ctl w)
          \<or> pending_work (ctl (perform commit Y a w)) = pending_work (ctl w) \<and> phase d1 < phase d))"
  proof -
    assume that: "\<And>a. a \<in> {Resume False, Land} \<Longrightarrow> \<not> discarded (ctl (perform commit Y a w)) \<Longrightarrow>
      drained (perform commit Y a w) \<or>
     (\<exists>d1. running (ctl (perform commit Y a w)) = Some d1 \<and> calm_drain d1
       \<and> (pending_work (ctl (perform commit Y a w)) < pending_work (ctl w)
          \<or> pending_work (ctl (perform commit Y a w)) = pending_work (ctl w) \<and> phase d1 < phase d)) \<Longrightarrow> thesis"
    have "\<exists>a\<in>{Resume False, Land}. let w1 = perform commit Y a w in \<not> discarded (ctl w1) \<and> (drained w1 \<or>
     (\<exists>d1. running (ctl w1) = Some d1 \<and> calm_drain d1
       \<and> (pending_work (ctl w1) < pending_work (ctl w) \<or> pending_work (ctl w1) = pending_work (ctl w) \<and> phase d1 < phase d)))"
      by (rule drain_progress [OF _ 1(2-)]) (rule total)
    then show thesis unfolding Let_def by (elim bexE conjE) (rule that)
  qed
  have run: "run_session commit Y (a # acts) w = run_session commit Y acts (perform commit Y a w)" for acts
    by (simp add: run_session_def)
  from step show ?case
  proof
    assume "drained (perform commit Y a w)"
    then show ?thesis using a(1) by (intro exI [of _ "[a]"]) (simp add: run_session_def del: perform.simps)
  next
    assume "\<exists>d1. running (ctl (perform commit Y a w)) = Some d1 \<and> calm_drain d1
       \<and> (pending_work (ctl (perform commit Y a w)) < pending_work (ctl w)
          \<or> pending_work (ctl (perform commit Y a w)) = pending_work (ctl w) \<and> phase d1 < phase d)"
    then obtain d1 where d1: "running (ctl (perform commit Y a w)) = Some d1" "calm_drain d1"
      and less: "pending_work (ctl (perform commit Y a w)) < pending_work (ctl w)
          \<or> pending_work (ctl (perform commit Y a w)) = pending_work (ctl w) \<and> phase d1 < phase d"
      by blast
    from 1(1) [OF _ history_step [OF 1(2,4)] disk_step [OF 1(2,3)] 1(4) a(2) d1] less
    obtain acts where "set acts \<subseteq> {Resume False, Land}" "drained (run_session commit Y acts (perform commit Y a w))"
      by (auto simp del: perform.simps)
    then show ?thesis using a(1) run by (intro exI [of _ "a # acts"]) simp
  qed
qed

end

section \<open>Properties\<close>

abbreviation sqlite_session :: "'y yjs \<Rightarrow> action list \<Rightarrow> updates \<Rightarrow> updates session" where
  "sqlite_session Y acts t \<equiv> run_session (sqlite_commit Y) Y acts (open_session loadDurableSnapshot t)"

abbreviation idb_session :: "'y yjs \<Rightarrow> action list \<Rightarrow> updates \<Rightarrow> (updates \<times> int) session" where
  "idb_session Y acts t \<equiv> run_session (idb_commit Y) Y acts (open_session idb_load (idb_open t))"

lemma sqlite_opens: "updates_ok t \<Longrightarrow> sqlite_good (slastId (loadDurableSnapshot t)) t"
  by (simp add: sqlite_good_def readLastId_ge)

lemma sqlite_session_ok:
  assumes "updates_ok t"
  shows "history_ok (loadDurableSnapshot t) (sqlite_session Y acts t)"
    and "disk_ok loadDurableSnapshot sqlite_good (loadDurableSnapshot t) (sqlite_session Y acts t)"
  using sqlite_port.session_invariant [OF sqlite_opens [OF assms], where D = Y and Y = Y and acts = acts] by blast+

lemma idb_opens: "updates_ok t \<Longrightarrow> foldableCount t < SNAPSHOT_FOLD_THRESHOLD \<Longrightarrow> idb_good (slastId (idb_load (idb_open t))) (idb_open t)"
  by (auto simp: idb_good_def idb_load_def idb_open_def readIdbUpdates_eq sqlite_good_def readLastId_ge)
    (simp add: loadDurableSnapshot_def readUpdates_def)

text \<open>
  Claim C3 (accepted_work_kept). Whatever the interleaving of edits, acknowledgements, listener
  calls, flushes, commits and failures, as long as the store is not discarded every accepted
  operation is, in the order it was accepted, confirmed, in the batch in flight, or in the queue;
  what is on disk is exactly the confirmed operations, followed by the batch in flight once the
  engine has committed it; and a reopen loads the outbox that follows from it.
\<close>

theorem accepted_work_kept:
  assumes "updates_ok t" and "w = sqlite_session Y acts t" and "\<not> discarded (ctl w)"
  shows "accepted w = confirmed w @ in_flight (ctl w) @ queue (ctl w)
    \<and> landed w = confirmed w @ on_disk (ctl w)
    \<and> readOutbox (disk w) = fst (succeeded (landed w) (readOutbox t, readCursor t))
    \<and> readCursor (disk w) \<le> snd (succeeded (landed w) (readOutbox t, readCursor t))"
proof -
  note inv = sqlite_session_ok [OF assms(1), of Y acts, folded assms(2)]
  show ?thesis using inv(1) [unfolded history_live [OF assms(3)]] inv(2) unfolding disk_ok_def by (simp only: load_fields)
qed

definition sample_acts :: "action list" where
  "sample_acts = [OnSendable 5, Append [9] None, Resume False, Append [3] (Some 6), Reject, Resume False, Append [4] None,
     Land, Resume False, Resume False]"

definition sample_end :: "updates session" where
  "sample_end = sqlite_session byte_doc sample_acts sample_rows"

lemmas session_simps = run_session_def open_session_def createPersistenceController_def loadDurableSnapshot_def
  readOutbox_def readCursor_def maxSeq_def readLastId_def readUpdates_def tbl_select_def owed_def
  append_update_def acknowledge_through_def enqueue_def flush_def notifyStatus_def status_def next_batch_def release_def committed_def
  refused_def failed_def mirror_batch_def succeeded_def maintain_def call_listener_def onSendable_def minted_def told_def
  sqlite_commit_def sqlite_fold_def foldableCount_def insert_update_def tbl_insert_def coalesce_def merge_entries_def

lemma sample_end_facts:
  "\<not> discarded (ctl sample_end)" "running (ctl sample_end) = Some (Telling [])"
  "map oid (outbox (ctl sample_end)) = [2, 3]" "length (accepted sample_end) = 3" "queue (ctl sample_end) = [AppendOp 5 [4] None]"
  "notified (ctl sample_end) = [5]" "plog (ctl sample_end) = [FlushFailed 2]"
  by (simp_all add: sample_end_def sample_acts_def sample_rows_def session_simps)

theorem accepted_work_kept_witness:
  "length (accepted sample_end) = 3 \<and> accepted sample_end = confirmed sample_end @ [AppendOp 5 [4] None]
   \<and> readOutbox (disk sample_end) = fst (succeeded (landed sample_end) (readOutbox sample_rows, readCursor sample_rows))"
  using accepted_work_kept [OF sample_facts(1) sample_end_def] sample_end_facts
  by (simp add: in_flight_def flight_def)

text \<open>
  Claim C35 (saved_means_durable). When the public status reads saved, everything the store ever
  accepted is on disk, in order, and the mirror agrees with what a reopen would load: the same
  outbox, and a cursor that is at least the stored one (equal when no acknowledgement named an
  entry a merge had replaced).
\<close>

theorem saved_means_durable:
  assumes "updates_ok t" and "w = sqlite_session Y acts t" and "\<not> discarded (ctl w)"
    and "persistence_get True (ctl w) = Inr Saved"
  shows "landed w = accepted w \<and> outbox (ctl w) = readOutbox (disk w)
    \<and> readCursor (disk w) \<le> durableCursor (ctl w)
    \<and> (acks_owed (accepted w) (readOutbox t, readCursor t) \<longrightarrow> readCursor (disk w) = durableCursor (ctl w))"
proof -
  note inv = sqlite_session_ok [OF assms(1), of Y acts, folded assms(2)]
  have idle: "in_flight (ctl w) = []" "on_disk (ctl w) = []" "queue (ctl w) = []"
    using assms(4) by (auto simp: persistence_get_def status_def in_flight_def on_disk_def flight_def split: if_splits)
  have h: "landed w = accepted w" "(outbox (ctl w), cursor (ctl w)) = succeeded (accepted w) (readOutbox t, readCursor t)"
    using inv(1) [unfolded history_live [OF assms(3)]] idle by simp_all
  show ?thesis using inv(2) unfolding disk_ok_def h(1) load_fields h(2) [symmetric] by (simp add: h(1) durableCursor_def)
qed

definition saved_acts :: "action list" where
  "saved_acts = [Append [9] None, Resume False, Land, Resume False, Resume False]"

definition saved_session :: "updates session" where
  "saved_session = sqlite_session byte_doc saved_acts sample_rows"

lemma saved_session_facts:
  "\<not> discarded (ctl saved_session)" "persistence_get True (ctl saved_session) = Inr Saved"
  "outbox (ctl saved_session) = [\<lparr>oid = 2, obytes = [8]\<rparr>, \<lparr>oid = 3, obytes = [9]\<rparr>]" "acknowledgedThroughId (ctl saved_session) = 0"
  by (simp_all add: saved_session_def saved_acts_def sample_rows_def persistence_get_def session_simps)

theorem saved_means_durable_witness:
  "readOutbox (disk saved_session) = [\<lparr>oid = 2, obytes = [8]\<rparr>, \<lparr>oid = 3, obytes = [9]\<rparr>]
   \<and> landed saved_session = accepted saved_session"
  using saved_means_durable [OF sample_facts(1) saved_session_def saved_session_facts(1,2)] saved_session_facts(3) by simp

text \<open>
  A submission is what \<open>coalesce\<close> returned, with the id
  of its last entry. Whatever happens afterwards, an entry that is owed, in the mirror or on disk,
  under that id was already owed when the submission was made; so it is either part of the
  submission (its operations are among the submitted bytes') or was covered by an acknowledgement
  received before. An acknowledgement through that id therefore never retires unsent work.
\<close>

theorem ack_covers_only_the_submission:
  assumes "yjs_laws Y content ops" and "updates_ok t" and "w = sqlite_session Y acts t" and "\<not> discarded (ctl w)"
    and "snd (coalesce Y (ctl w)) = Some s"
    and "w' = run_session (sqlite_commit Y) Y acts' (perform (sqlite_commit Y) Y Coalesce w)"
    and "x \<in> set (readOutbox (disk w')) \<union> set (outbox (ctl w'))" and "oid x \<le> oid s"
  shows "x \<in> set (outbox (ctl w)) \<and> (oid x \<le> acknowledgedThroughId (ctl w) \<or> ops (obytes x) \<subseteq> ops (obytes s))"
proof -
  have x: "x \<in> set (outbox (ctl w))"
    using sqlite_port.submitted_only [OF sqlite_opens [OF assms(2)] assms(3-6), of x] assms(7,8) by simp
  let ?e = "filter (\<lambda>e. oid e > acknowledgedThroughId (ctl w)) (outbox (ctl w))"
  have "?e \<noteq> []" "obytes s = merge_entries Y ?e" using assms(5) by (auto simp: coalesce_def Let_def split: if_splits)
  with merged_ops [OF assms(1), of ?e] x show ?thesis by auto
qed

theorem ack_covers_only_the_submission_witness:
  "\<lparr>oid = 2, obytes = [8]\<rparr> \<in> set (outbox (ctl saved_session)) \<and> set [8::byte] \<subseteq> set [8, 9]"
proof -
  have s: "snd (coalesce byte_doc (ctl saved_session)) = Some \<lparr>oid = 3, obytes = [8, 9]\<rparr>"
    using saved_session_facts by (simp add: coalesce_def merge_entries_def byte_doc_def)
  have "outbox (ctl (run_session (sqlite_commit byte_doc) byte_doc [] (perform (sqlite_commit byte_doc) byte_doc Coalesce saved_session)))
      = outbox (ctl saved_session)"
    by (simp add: run_session_def coalesce_def Let_def)
  then show ?thesis
    using ack_covers_only_the_submission [OF byte_doc_laws sample_facts(1) saved_session_def saved_session_facts(1) s HOL.refl,
        of "\<lparr>oid = 2, obytes = [8]\<rparr>" "[]"] saved_session_facts(3,4) by simp
qed

text \<open>
  Edits are never stranded: the only step that takes the
  controller to blocked is the continuation of a commit the engine rejected, with no flush
  requested meanwhile, and it logs how many operations are retained.
\<close>

theorem blocked_only_by_failure:
  assumes "updates_ok t" and "w = sqlite_session Y acts t" and "w' = perform (sqlite_commit Y) Y a w"
    and "status (ctl w) \<noteq> Blocked" and "status (ctl w') = Blocked"
  shows "\<exists>throws b. a = Resume throws \<and> running (ctl w) = Some (Committing b (Some False)) \<and> \<not> requested (ctl w)
    \<and> queue (ctl w') = b @ queue (ctl w) \<and> last (plog (ctl w')) = FlushFailed (length (queue (ctl w')))"
proof -
  have dead: "discarded (ctl w) \<Longrightarrow> queue (ctl w) = []"
    using sqlite_session_ok(1) [OF assms(1), of Y acts] by (simp add: assms(2) history_ok_def)
  have st: "status c = Blocked \<longleftrightarrow> running c = None \<and> queue c \<noteq> []" for c by (simp add: status_def)
  have before: "\<not> (running (ctl w) = None \<and> queue (ctl w) \<noteq> [])"
    and after: "running (ctl (perform (sqlite_commit Y) Y a w)) = None" "queue (ctl (perform (sqlite_commit Y) Y a w)) \<noteq> []"
    using assms(4,5) unfolding assms(3) by (auto simp: st)
  then show ?thesis
  proof (cases a)
    case (Resume throws)
    then show ?thesis using before after dead unfolding assms(3)
      by (auto simp: next_batch_def committed_def refused_def failed_def mirror_batch_def Let_def release_def notifyStatus_def
          split: option.splits drain.splits list.splits if_splits prod.splits)
  qed (auto simp: append_update_def acknowledge_through_def enqueue_def flush_def coalesce_def Let_def close_def closing_flush_def
      discard_def onSendable_def offSendable_def persistence_subscribe_def persistence_unsubscribe_def tell_status_def
      split: if_splits list.splits option.splits drain.splits)
qed

definition failing_session :: "updates session" where
  "failing_session = sqlite_session byte_doc [Append [9] None, Resume False, Reject] sample_rows"

theorem blocked_only_by_failure_witness:
  "status (ctl failing_session) = Pending
   \<and> last (plog (ctl (perform (sqlite_commit byte_doc) byte_doc (Resume False) failing_session))) = FlushFailed 1"
proof -
  have a: "status (ctl failing_session) = Pending" "running (ctl failing_session) = Some (Committing [AppendOp 3 [9] None] (Some False))"
    "queue (ctl failing_session) = []"
    by (simp_all add: failing_session_def sample_rows_def session_simps)
  have b: "status (ctl (perform (sqlite_commit byte_doc) byte_doc (Resume False) failing_session)) = Blocked"
    by (simp add: failing_session_def sample_rows_def session_simps Let_def)
  show ?thesis using blocked_only_by_failure [OF sample_facts(1) failing_session_def HOL.refl _ b] a by auto
qed

lemma sqlite_commit_total:
  assumes "\<And>us. replay Y us \<noteq> None" and "sqlite_good m t" and "readCursor t \<le> c" and "ops_ok ops (readOutbox t, c) m"
  shows "sqlite_commit Y ops t \<noteq> None"
proof -
  have "ops_ok ops (readOutbox t, readCursor t) m" using assms(4) ops_ok_cursor by blast
  with sqlite_ops_mirror [of t m ops c] assms(2,3) obtain u where u: "sqlite_ops ops t = Some u" "updates_ok u"
    by (auto simp: sqlite_good_def)
  have "sqlite_fold Y u \<noteq> None"
  proof (cases "length (acked u) < SNAPSHOT_FOLD_THRESHOLD")
    case True
    then show ?thesis by (simp add: sqlite_fold_def foldableCount_def acked_def)
  next
    case False
    then have ne: "acked u \<noteq> []" by auto
    obtain d where d: "replay Y (readUpdates (acked u)) = Some d" using assms(1) by blast
    have last: "fst (last (readUpdates (acked u))) = fst (last (acked u))"
      using ne by (cases "last (acked u)") (simp add: readUpdates_def last_map)
    show ?thesis using d False ne acked_last [OF u(2) ne] last
      by (simp add: sqlite_fold_def foldableCount_def acked_def [symmetric] Let_def insert_update_def tbl_insert_def)
  qed
  with u(1) show ?thesis by (simp add: sqlite_commit_def)
qed

text \<open>
  Claim C36 (flush_reaches_saved). From every state of a session that is not discarded and is
  blocked, a flush whose commits the engine takes (no stored update is unapplyable) comes to
  rest: finitely many continuations later the status is saved and every accepted operation is on
  disk, whatever merging of owed rows happens on the way.
\<close>

theorem flush_reaches_saved:
  assumes "updates_ok t" and "\<And>us. replay Y us \<noteq> None" and "w = sqlite_session Y acts t" and "status (ctl w) = Blocked"
  shows "\<exists>more. set more \<subseteq> {Resume False, Land}
    \<and> drained (run_session (sqlite_commit Y) Y more (perform (sqlite_commit Y) Y Flush w))"
proof -
  let ?w = "perform (sqlite_commit Y) Y Flush w"
  have w: "?w = sqlite_session Y (acts @ [Flush]) t" by (simp add: assms(3) run_session_def)
  have q: "running (ctl w) = None" "queue (ctl w) \<noteq> []" using assms(4) by (auto simp: status_def split: if_splits)
  then have live: "\<not> discarded (ctl w)" using sqlite_session_ok(1) [OF assms(1), of Y acts] by (auto simp: assms(3) history_ok_def)
  have ord: "owed_ok (slastId (loadDurableSnapshot t)) (soutbox (loadDurableSnapshot t))"
    by (rule sqlite_port.loads_in_order [OF sqlite_opens [OF assms(1)]])
  show ?thesis
  proof (rule sqlite_port.drain_ends [OF _ sqlite_session_ok [OF assms(1), of Y "acts @ [Flush]", folded w] ord])
    show "\<not> discarded (ctl ?w)" "running (ctl ?w) = Some Scheduled" "calm_drain Scheduled"
      using q live by (simp_all add: flush_def calm_drain_def)
  qed (use sqlite_commit_total [OF assms(2)] in simp)
qed

definition blocked_session :: "updates session" where
  "blocked_session = sqlite_session byte_doc [Append [9] None, Resume False, Reject, Resume False] sample_rows"

theorem flush_reaches_saved_witness:
  "status (ctl blocked_session) = Blocked \<and> (\<exists>more. drained (run_session (sqlite_commit byte_doc) byte_doc more
     (perform (sqlite_commit byte_doc) byte_doc Flush blocked_session)))"
proof -
  have "replay_on byte_doc e bs \<noteq> None" for e bs by (induction bs arbitrary: e) (simp_all add: byte_doc_def)
  then have r: "\<And>us. replay byte_doc us \<noteq> None" by (simp add: replay_def)
  have b: "status (ctl blocked_session) = Blocked"
    by (simp add: blocked_session_def sample_rows_def session_simps Let_def)
  show ?thesis using flush_reaches_saved [OF sample_facts(1) r blocked_session_def b] b by blast
qed

definition raced_acts :: "action list" where
  "raced_acts = replicate 64 (Append [] None) @ [Resume False, Land, Resume False, Resume False, Coalesce, Land, Resume False,
     Resume False, Acknowledge 64 1, Resume False, Land, Resume False, Resume False]"

text \<open>
  An acknowledgement that races a merge: 64 owed entries are being
  merged when a submission of all of them goes out, the merge lands first, and the
  acknowledgement then names an id no row has. The controller reports saved with its cursor at
  the acknowledged position, while the stored cursor has not moved and the merged row is still
  owed; a restart resumes from the older position and sends the row again.
\<close>

theorem raced_ack_lags:
  "let w = sqlite_session byte_doc raced_acts [] in
     persistence_get True (ctl w) = Inr Saved \<and> durableCursor (ctl w) = 1 \<and> readCursor (disk w) = 0
     \<and> readOutbox (disk w) = [\<lparr>oid = 65, obytes = []\<rparr>]"
  by code_simp

end
