(* ===== verification/Client.thy ===== *)
theory Client
  imports Persistence
begin

text \<open>
  The replica's half of the transport: the sync engine of
  \<^verbatim>\<open>packages/app/src/data/store/store.ts\<close> (what applying remote bytes, authoring local ones and
  acknowledging do to the document and to the persistence controller) and the client of
  \<^verbatim>\<open>packages/app/src/data/sync/client.ts\<close> (coalesce, send, wait for the position). The document
  is a Yjs document, through the parameter of \<open>Update_Log\<close>.
\<close>

section \<open>The sync engine\<close>

text \<open>
  Two more facts of Yjs: whether a document holds structs whose dependencies have not arrived,
  and the document left behind by an update that threw half way.
\<close>

record 'y live_yjs = "'y yjs" +
  hasPendingStructs :: "'y \<Rightarrow> bool"
  afterThrow :: "'y \<Rightarrow> bytes \<Rightarrow> 'y"

text \<open>
  \<open>usable\<close> is \<^verbatim>\<open>initialized && !disposed && !retired\<close>; a verb of an unusable store throws.
  \<open>localOnly\<close> marks a store with no authority, whose own work is stamped
  \<^verbatim>\<open>NO_AUTHORITY\<close>.
\<close>

record 'y engine =
  document :: 'y
  controller :: controller
  usable :: bool
  localOnly :: bool

datatype apply_failed = ApplyFailed

fun hydrate :: "('y, 'z) yjs_scheme \<Rightarrow> 'y \<Rightarrow> bytes list \<Rightarrow> 'y option" where
  "hydrate Y d [] = Some d"
| "hydrate Y d (u # us) = (case applyUpdateV2 Y d u of None \<Rightarrow> None | Some d' \<Rightarrow> hydrate Y d' us)"

text \<open>Opening: the record is replayed before the listener exists; \<^const>\<open>None\<close> is a failed open.\<close>

definition initialize :: "'y live_yjs \<Rightarrow> bool \<Rightarrow> durable_snapshot \<Rightarrow> 'y engine option" where
  "initialize Y localStore loaded =
     (case hydrate Y (new_doc Y) (supdates loaded) of
        None \<Rightarrow> None
      | Some d \<Rightarrow> Some \<lparr>document = d, controller = createPersistenceController loaded, usable = True, localOnly = localStore\<rparr>)"

text \<open>A local transaction: the document has changed and emitted \<open>update\<close>, which the listener appends.\<close>

definition local_update :: "'y \<Rightarrow> bytes \<Rightarrow> 'y engine \<Rightarrow> 'y engine" where
  "local_update d update e =
     e\<lparr>document := d,
       controller := append_update update (if localOnly e then Some NO_AUTHORITY else None) (controller e)\<rparr>"

definition yjs_of :: "'y live_yjs \<Rightarrow> 'y yjs" where
  "yjs_of Y = \<lparr>new_doc = new_doc Y, applyUpdateV2 = applyUpdateV2 Y, encodeStateAsUpdateV2 = encodeStateAsUpdateV2 Y,
     mergeUpdatesV2 = mergeUpdatesV2 Y\<rparr>"

definition engine_coalesce :: "'y live_yjs \<Rightarrow> 'y engine \<Rightarrow> (unusable, 'y engine \<times> outbox_entry option) result" where
  "engine_coalesce Y e =
     (if \<not> usable e then Inl Unusable
      else let (c, r) = coalesce (yjs_of Y) (controller e) in Inr (e\<lparr>controller := c\<rparr>, r))"

definition engine_acknowledge :: "nat \<Rightarrow> nat \<Rightarrow> 'y engine \<Rightarrow> (unusable, 'y engine) result" where
  "engine_acknowledge throughId seq e =
     (if \<not> usable e then Inl Unusable
      else Inr (e\<lparr>controller := acknowledge_through throughId seq (controller e)\<rparr>))"

definition engine_cursor :: "'y engine \<Rightarrow> (unusable, nat) result" where
  "engine_cursor e = (if \<not> usable e then Inl Unusable else Inr (durableCursor (controller e)))"

definition applyRemote ::
    "'y live_yjs \<Rightarrow> bytes \<Rightarrow> nat \<Rightarrow> 'y engine \<Rightarrow> (unusable, 'y engine \<times> (apply_failed, unit) result) result" where
  "applyRemote Y update advanceTo e =
     (if \<not> usable e then Inl Unusable
      else case applyUpdateV2 Y (document e) update of
             None \<Rightarrow> Inr (e\<lparr>document := afterThrow Y (document e) update\<rparr>, Inl ApplyFailed)
           | Some d \<Rightarrow> Inr (e\<lparr>document := d, controller := append_update update (Some advanceTo) (controller e)\<rparr>, Inr ()))"

definition hasUnresolvedDependencies :: "'y live_yjs \<Rightarrow> 'y engine \<Rightarrow> (unusable, bool) result" where
  "hasUnresolvedDependencies Y e = (if \<not> usable e then Inl Unusable else Inr (hasPendingStructs Y (document e)))"

definition encodeSnapshot :: "'y live_yjs \<Rightarrow> 'y engine \<Rightarrow> (unusable, bytes) result" where
  "encodeSnapshot Y e = (if \<not> usable e then Inl Unusable else Inr (encodeStateAsUpdateV2 Y (document e)))"

section \<open>The client's state\<close>

datatype sync_error =
    Refused jsstring          \<comment> \<open>reason\<close>
  | Gap nat nat               \<comment> \<open>expected, received\<close>
  | BrokenStream jsstring     \<comment> \<open>reason\<close>
  | Unapplyable nat           \<comment> \<open>seq\<close>

fun sync_message :: "sync_error \<Rightarrow> jsstring" where
  "sync_message (Refused why) = js ''The authority refused this replica'' @ [39] @ js ''s update: '' @ why"
| "sync_message (Gap expected received) =
     js ''Expected entry '' @ show_nat expected @ js '' and received '' @ show_nat received"
| "sync_message (BrokenStream why) = js ''This replica cannot reassemble what it is being sent: '' @ why"
| "sync_message (Unapplyable seq) =
     js ''Entry '' @ show_nat seq @ js '' could not be applied, and this replica is stuck at '' @ show_nat (seq - 1)"

text \<open>
  A verb ends with \<^verbatim>\<open>Ok(undefined)\<close>, with \<^verbatim>\<open>Err(error)\<close>, or by letting the throw of an unusable
  store through.
\<close>

datatype outcome = Done | Failed sync_error | Threw

text \<open>
  The connection object: its identity, its socket, and the submission outstanding on it with the
  outbox id it covers.
\<close>

record link =
  identity :: nat
  socket :: nat
  outstanding :: "(nat \<times> nat) option"

text \<open>What can happen inside \<^verbatim>\<open>socket.send\<close>: the driver detaches the client or disposes of it.\<close>

datatype inside_send = DetachInside | DisposeInside

record 'y client =
  engine :: "'y engine"
  inbound :: collector
  connection :: "link option"
  nextIdentity :: nat
  nextSubmission :: nat
  position :: nat                     \<comment> \<open>\<^verbatim>\<open>cursor\<close>\<close>
  owedBytes :: nat                    \<comment> \<open>\<^verbatim>\<open>owed\<close>\<close>
  lastError :: "sync_error option"
  needsResync :: bool
  idle :: bool                        \<comment> \<open>whether \<^verbatim>\<open>cancelIdle\<close> is set\<close>
  cdisposed :: bool
  outbound :: "(nat \<times> bytes) list"
  reactions :: "inside_send list list"

definition CLIENT_BUFFER_CEILING_BYTES :: nat where
  "CLIENT_BUFFER_CEILING_BYTES = 64 * 1024 * 1024"

definition createSyncClient :: "inside_send list list \<Rightarrow> 'y engine \<Rightarrow> (unusable, 'y client) result" where
  "createSyncClient rs e =
     (case engine_cursor e of
        Inl u \<Rightarrow> Inl u
      | Inr p \<Rightarrow> Inr \<lparr>engine = e, inbound = createChunkCollector CLIENT_BUFFER_CEILING_BYTES, connection = None,
                    nextIdentity = 0, nextSubmission = 1, position = p, owedBytes = 0, lastError = None,
                    needsResync = False, idle = False, cdisposed = False, outbound = [], reactions = rs\<rparr>)"

section \<open>Sending\<close>

definition clearIdle :: "'y client \<Rightarrow> 'y client" where
  "clearIdle c = c\<lparr>idle := False\<rparr>"

definition detach :: "'y client \<Rightarrow> 'y client" where
  "detach c = clearIdle (c\<lparr>connection := None, inbound := createChunkCollector CLIENT_BUFFER_CEILING_BYTES\<rparr>)"

definition dispose :: "'y client \<Rightarrow> 'y client" where
  "dispose c = (clearIdle (c\<lparr>cdisposed := True\<rparr>))\<lparr>connection := None\<rparr>"

fun react_inside :: "inside_send list \<Rightarrow> 'y client \<Rightarrow> 'y client" where
  "react_inside [] c = c"
| "react_inside (DetachInside # rs) c = react_inside rs (detach c)"
| "react_inside (DisposeInside # rs) c = react_inside rs (dispose c)"

definition socket_send :: "nat \<Rightarrow> bytes \<Rightarrow> 'y client \<Rightarrow> 'y client" where
  "socket_send s bs c =
     react_inside (if reactions c = [] then [] else hd (reactions c))
       (c\<lparr>outbound := outbound c @ [(s, bs)], reactions := tl (reactions c)\<rparr>)"

text \<open>The loop over the chunks of one payload stops when the connection is no longer the one sending.\<close>

fun send_payload :: "link \<Rightarrow> (nat \<Rightarrow> bytes \<Rightarrow> frame) \<Rightarrow> nat \<Rightarrow> bytes list \<Rightarrow> 'y client \<Rightarrow> 'y client" where
  "send_payload sending mk index [] c = c"
| "send_payload sending mk index (chunk # cs) c =
     (if map_option identity (connection c) \<noteq> Some (identity sending) then c
      else send_payload sending mk (index + 1) cs (socket_send (socket sending) (encodeFrame (mk index chunk)) c))"

definition send :: "'y live_yjs \<Rightarrow> 'y client \<Rightarrow> 'y client \<times> outcome" where
  "send Y c =
     (case connection c of
        None \<Rightarrow> (c, Done)
      | Some sending \<Rightarrow>
          if outstanding sending \<noteq> None then (c, Done)
          else case engine_coalesce Y (engine c) of
                 Inl _ \<Rightarrow> (c, Threw)
               | Inr (e, None) \<Rightarrow> (c\<lparr>engine := e, owedBytes := 0\<rparr>, Done)
               | Inr (e, Some entry) \<Rightarrow>
                   let submission = nextSubmission c;
                       chunks = chunks_of (obytes entry);
                       c1 = c\<lparr>engine := e, owedBytes := length (obytes entry), nextSubmission := submission + 1,
                              connection := Some (sending\<lparr>outstanding := Some (submission, oid entry)\<rparr>)\<rparr> in
                   (send_payload sending (\<lambda>i b. PushFrame submission i (length chunks) b) 0 chunks c1, Done))"

definition brokenStream :: "jsstring \<Rightarrow> 'y client \<Rightarrow> 'y client \<times> outcome" where
  "brokenStream why c = (c\<lparr>lastError := Some (BrokenStream why), needsResync := True\<rparr>, Failed (BrokenStream why))"

definition gap :: "nat \<Rightarrow> 'y client \<Rightarrow> 'y client \<times> outcome" where
  "gap seq c = (c\<lparr>lastError := Some (Gap (position c + 1) seq), needsResync := True\<rparr>, Failed (Gap (position c + 1) seq))"

text \<open>The shared tail of \<open>apply\<close> and \<open>adopt\<close>: bytes and bookmark in one transaction.\<close>

definition take_remote :: "'y live_yjs \<Rightarrow> nat \<Rightarrow> bytes \<Rightarrow> 'y client \<Rightarrow> 'y client \<times> outcome" where
  "take_remote Y seq bs c =
     (case applyRemote Y bs seq (engine c) of
        Inl _ \<Rightarrow> (c, Threw)
      | Inr (e, Inl _) \<Rightarrow> (c\<lparr>engine := e, lastError := Some (Unapplyable seq)\<rparr>, Failed (Unapplyable seq))
      | Inr (e, Inr _) \<Rightarrow> (c\<lparr>engine := e, position := seq\<rparr>, Done))"

definition apply_entry :: "'y live_yjs \<Rightarrow> nat \<Rightarrow> bytes \<Rightarrow> 'y client \<Rightarrow> 'y client \<times> outcome" where
  "apply_entry Y seq bs c =
     (if seq \<le> position c then (c, Done)
      else if seq \<noteq> position c + 1 then gap seq c
      else take_remote Y seq bs c)"

definition adopt :: "'y live_yjs \<Rightarrow> nat \<Rightarrow> bytes \<Rightarrow> 'y client \<Rightarrow> 'y client \<times> outcome" where
  "adopt Y p bs c = (if p \<le> position c then (c, Done) else take_remote Y p bs c)"

definition offerSnapshot :: "'y live_yjs \<Rightarrow> nat \<Rightarrow> 'y client \<Rightarrow> 'y client \<times> outcome" where
  "offerSnapshot Y p c =
     (case connection c of
        None \<Rightarrow> (c, Done)
      | Some sending \<Rightarrow>
          if p \<noteq> position c then (c, Done)
          else case hasUnresolvedDependencies Y (engine c) of
                 Inl _ \<Rightarrow> (c, Threw)
               | Inr True \<Rightarrow> (c, Done)
               | Inr False \<Rightarrow>
                   (case encodeSnapshot Y (engine c) of
                      Inl _ \<Rightarrow> (c, Done)
                    | Inr bs \<Rightarrow>
                        let chunks = chunks_of bs in
                        (send_payload sending (\<lambda>i b. OfferFrame p i (length chunks) b) 0 chunks c, Done)))"

section \<open>The client's verbs\<close>

definition attach :: "'y live_yjs \<Rightarrow> nat \<Rightarrow> 'y client \<Rightarrow> 'y client \<times> outcome" where
  "attach Y s c =
     (case send Y (c\<lparr>connection := Some \<lparr>identity = nextIdentity c, socket = s, outstanding = None\<rparr>,
               nextIdentity := nextIdentity c + 1,
               inbound := createChunkCollector CLIENT_BUFFER_CEILING_BYTES, needsResync := False\<rparr>) of
        (c', Threw) \<Rightarrow> (c', Threw)
      | (c', _) \<Rightarrow> (c', Done))"

definition nudge :: "'y client \<Rightarrow> 'y client" where
  "nudge c = (if cdisposed c \<or> idle c then c else c\<lparr>idle := True\<rparr>)"

text \<open>The scheduled task of \<open>nudge\<close>.\<close>

definition idle_task :: "'y live_yjs \<Rightarrow> 'y client \<Rightarrow> 'y client \<times> outcome" where
  "idle_task Y c = (if idle c then send Y (c\<lparr>idle := False\<rparr>) else (c, Done))"

definition client_flush :: "'y live_yjs \<Rightarrow> 'y client \<Rightarrow> 'y client \<times> outcome" where
  "client_flush Y c = send Y (clearIdle c)"

definition receive_ack :: "'y live_yjs \<Rightarrow> nat \<Rightarrow> nat \<Rightarrow> 'y client \<Rightarrow> 'y client \<times> outcome" where
  "receive_ack Y submission seq c =
     (case connection c of
        None \<Rightarrow> (c, Done)
      | Some l \<Rightarrow>
          (case outstanding l of
             None \<Rightarrow> (c, Done)
           | Some (out, throughId) \<Rightarrow>
               if submission \<noteq> out then (c, Done)
               else if seq \<noteq> position c + 1 then gap seq c
               else
                 let c1 = c\<lparr>position := seq\<rparr> in
                 case engine_acknowledge throughId seq (engine c1) of
                   Inl _ \<Rightarrow> (c1, Threw)
                 | Inr e \<Rightarrow>
                     (case send Y (c1\<lparr>engine := e, connection := Some (l\<lparr>outstanding := None\<rparr>), owedBytes := 0\<rparr>) of
                        (c', Threw) \<Rightarrow> (c', Threw)
                      | (c', _) \<Rightarrow> (c', Done))))"

definition receive_refuse :: "nat \<Rightarrow> jsstring \<Rightarrow> 'y client \<Rightarrow> 'y client \<times> outcome" where
  "receive_refuse submission why c =
     (case connection c of
        None \<Rightarrow> (c, Done)
      | Some l \<Rightarrow>
          (case outstanding l of
             None \<Rightarrow> (c, Done)
           | Some (out, throughId) \<Rightarrow>
               if submission \<noteq> out then (c, Done)
               else (c\<lparr>lastError := Some (Refused why), connection := Some (l\<lparr>outstanding := None\<rparr>)\<rparr>, Failed (Refused why))))"

text \<open>A data frame: reassembled first, then handed to \<open>whole\<close>.\<close>

definition receive_data ::
    "frame \<Rightarrow> (bytes \<Rightarrow> 'y client \<Rightarrow> 'y client \<times> outcome) \<Rightarrow> 'y client \<Rightarrow> 'y client \<times> outcome" where
  "receive_data f whole c =
     (case accept (inbound c) f of
        (k, Inl e) \<Rightarrow> brokenStream (reason e) (c\<lparr>inbound := k\<rparr>)
      | (k, Inr None) \<Rightarrow> (c\<lparr>inbound := k\<rparr>, Done)
      | (k, Inr (Some bs)) \<Rightarrow> whole bs (c\<lparr>inbound := k\<rparr>))"

definition client_receive :: "'y live_yjs \<Rightarrow> bytes \<Rightarrow> 'y client \<Rightarrow> 'y client \<times> outcome" where
  "client_receive Y message c =
     (case decodeFrame message of
        Inl _ \<Rightarrow> (c, Done)
      | Inr f \<Rightarrow>
          (case f of
             AckFrame submission seq \<Rightarrow> receive_ack Y submission seq c
           | RefuseFrame submission why \<Rightarrow> receive_refuse submission why c
           | EntryFrame seq i n b \<Rightarrow> receive_data f (apply_entry Y seq) c
           | SnapshotFrame p i n b \<Rightarrow> receive_data f (adopt Y p) c
           | WantedFrame p \<Rightarrow> offerSnapshot Y p c
           | AdmittedFrame \<Rightarrow> (c, Done)
           | RetiredFrame \<Rightarrow> (c, Done)
           | PushFrame _ _ _ _ \<Rightarrow> (c, Done)
           | OfferFrame _ _ _ _ \<Rightarrow> (c, Done)))"

record client_status =
  st_cursor :: nat
  st_inFlight :: bool
  st_inFlightSubmission :: "nat option"
  st_owed :: nat
  st_lastError :: "sync_error option"
  st_unresolvedDependencies :: bool
  st_needsResync :: bool

definition client_status :: "'y live_yjs \<Rightarrow> 'y client \<Rightarrow> (unusable, client_status) result" where
  "client_status Y c =
     (case hasUnresolvedDependencies Y (engine c) of
        Inl u \<Rightarrow> Inl u
      | Inr b \<Rightarrow>
          let out = (case connection c of None \<Rightarrow> None | Some l \<Rightarrow> outstanding l) in
          Inr \<lparr>st_cursor = position c, st_inFlight = (out \<noteq> None), st_inFlightSubmission = map_option fst out,
               st_owed = owedBytes c, st_lastError = lastError c, st_unresolvedDependencies = b,
               st_needsResync = needsResync c\<rparr>)"

section \<open>What sending leaves alone\<close>

lemma detach_simps [simp]:
  "position (detach c) = position c" "engine (detach c) = engine c" "needsResync (detach c) = needsResync c"
  "lastError (detach c) = lastError c" "nextSubmission (detach c) = nextSubmission c" "connection (detach c) = None"
  "outbound (detach c) = outbound c" "owedBytes (detach c) = owedBytes c"
  by (simp_all add: detach_def clearIdle_def)

lemma dispose_simps [simp]:
  "position (dispose c) = position c" "engine (dispose c) = engine c" "needsResync (dispose c) = needsResync c"
  "lastError (dispose c) = lastError c" "nextSubmission (dispose c) = nextSubmission c" "connection (dispose c) = None"
  "outbound (dispose c) = outbound c" "owedBytes (dispose c) = owedBytes c"
  by (simp_all add: dispose_def clearIdle_def)

lemma react_inside_simps [simp]:
  "position (react_inside rs c) = position c" "engine (react_inside rs c) = engine c" "needsResync (react_inside rs c) = needsResync c"
  "lastError (react_inside rs c) = lastError c" "nextSubmission (react_inside rs c) = nextSubmission c"
  "outbound (react_inside rs c) = outbound c" "owedBytes (react_inside rs c) = owedBytes c"
  by (induction rs c rule: react_inside.induct) simp_all

lemma react_inside_connection: "connection (react_inside rs c) = connection c \<or> connection (react_inside rs c) = None"
  by (induction rs c rule: react_inside.induct) auto

lemma socket_send_simps [simp]:
  "position (socket_send s bs c) = position c" "engine (socket_send s bs c) = engine c" "needsResync (socket_send s bs c) = needsResync c"
  "lastError (socket_send s bs c) = lastError c" "nextSubmission (socket_send s bs c) = nextSubmission c"
  "outbound (socket_send s bs c) = outbound c @ [(s, bs)]" "owedBytes (socket_send s bs c) = owedBytes c"
  by (simp_all add: socket_send_def)

lemma socket_send_connection: "connection (socket_send s bs c) = connection c \<or> connection (socket_send s bs c) = None"
  using react_inside_connection [of _ "c\<lparr>outbound := outbound c @ [(s, bs)], reactions := tl (reactions c)\<rparr>"]
  by (auto simp: socket_send_def)

lemma send_payload_simps [simp]:
  "position (send_payload l mk i cs c) = position c" "engine (send_payload l mk i cs c) = engine c"
  "needsResync (send_payload l mk i cs c) = needsResync c" "lastError (send_payload l mk i cs c) = lastError c"
  "nextSubmission (send_payload l mk i cs c) = nextSubmission c" "owedBytes (send_payload l mk i cs c) = owedBytes c"
  by (induction l mk i cs c rule: send_payload.induct) simp_all

lemma send_payload_connection: "connection (send_payload l mk i cs c) = connection c \<or> connection (send_payload l mk i cs c) = None"
proof (induction l mk i cs c rule: send_payload.induct)
  case (2 l mk i b cs c)
  show ?case using 2 socket_send_connection [of "socket l" "encodeFrame (mk i b)" c] by (auto simp del: encodeFrame.simps)
qed simp

text \<open>What goes out are the first frames of the payload: all of them unless the connection ends.\<close>

lemma send_payload_outbound:
  "\<exists>k\<le>length cs. outbound (send_payload l mk i cs c) =
     outbound c @ map (\<lambda>j. (socket l, encodeFrame (mk (i + j) (cs ! j)))) [0..<k]"
proof (induction l mk i cs c rule: send_payload.induct)
  case (1 l mk i c)
  show ?case by simp
next
  case (2 l mk i b cs c)
  show ?case
  proof (cases "map_option identity (connection c) = Some (identity l)")
    case True
    with 2 obtain k where k: "k \<le> length cs" "outbound (send_payload l mk i (b # cs) c) =
        (outbound c @ [(socket l, encodeFrame (mk i b))]) @ map (\<lambda>j. (socket l, encodeFrame (mk (i + 1 + j) (cs ! j)))) [0..<k]"
      by (auto simp del: encodeFrame.simps)
    have "map (\<lambda>j. (socket l, encodeFrame (mk (i + j) ((b # cs) ! j)))) [0..<Suc k] =
        (socket l, encodeFrame (mk i b)) # map (\<lambda>j. (socket l, encodeFrame (mk (i + 1 + j) (cs ! j)))) [0..<k]"
      unfolding upt_conv_Cons [OF zero_less_Suc] map_Suc_upt [symmetric] by (simp del: upt_Suc encodeFrame.simps add: comp_def)
    with k show ?thesis by (intro exI [of _ "Suc k"]) (simp del: encodeFrame.simps upt_Suc)
  qed (auto intro: exI [of _ 0])
qed

lemma send_payload_calm:
  "reactions c = [] \<Longrightarrow> map_option identity (connection c) = Some (identity l) \<Longrightarrow>
   send_payload l mk i cs c = c\<lparr>outbound := outbound c @ map (\<lambda>j. (socket l, encodeFrame (mk (i + j) (cs ! j)))) [0..<length cs]\<rparr>"
proof (induction l mk i cs c rule: send_payload.induct)
  case (2 l mk i b cs c)
  have s: "socket_send (socket l) (encodeFrame (mk i b)) c = c\<lparr>outbound := outbound c @ [(socket l, encodeFrame (mk i b))]\<rparr>"
    using 2(2) by (simp add: socket_send_def del: encodeFrame.simps)
  have "map (\<lambda>j. (socket l, encodeFrame (mk (i + j) ((b # cs) ! j)))) [0..<Suc (length cs)] =
      (socket l, encodeFrame (mk i b)) # map (\<lambda>j. (socket l, encodeFrame (mk (i + 1 + j) (cs ! j)))) [0..<length cs]"
    unfolding upt_conv_Cons [OF zero_less_Suc] map_Suc_upt [symmetric] by (simp del: upt_Suc encodeFrame.simps add: comp_def)
  with 2 s show ?case by (simp del: encodeFrame.simps upt_Suc)
qed simp

text \<open>\<open>coalesce\<close> reads; it only remembers the id it returned.\<close>

lemma engine_coalesce_frame:
  "engine_coalesce Y e = Inr (e', r) \<Longrightarrow> document e' = document e \<and> usable e' = usable e \<and> localOnly e' = localOnly e
    \<and> books (controller e') = books (controller e) \<and> flight (controller e') = flight (controller e)"
  by (auto simp: engine_coalesce_def coalesce_def Let_def split: if_splits prod.splits)

lemma send_frame [simp]:
  "position (fst (send Y c)) = position c" "document (engine (fst (send Y c))) = document (engine c)"
  "needsResync (fst (send Y c)) = needsResync c" "lastError (fst (send Y c)) = lastError c"
  "books (controller (engine (fst (send Y c)))) = books (controller (engine c))"
  "flight (controller (engine (fst (send Y c)))) = flight (controller (engine c))"
  by (auto simp: send_def Let_def dest: engine_coalesce_frame split: option.split sum.split prod.split simp del: books_eq)

lemma send_then [simp]: "fst (case send Y x of (c', Threw) \<Rightarrow> (c', Threw) | (c', _) \<Rightarrow> (c', Done)) = fst (send Y x)"
  by (auto split: prod.split outcome.split)

section \<open>Whole payloads\<close>

fun feed :: "'y live_yjs \<Rightarrow> bytes list \<Rightarrow> 'y client \<Rightarrow> 'y client" where
  "feed Y [] c = c"
| "feed Y (m # ms) c = feed Y ms (fst (client_receive Y m c))"

lemma feed_append: "feed Y (ms @ ms') c = feed Y ms' (feed Y ms c)"
  by (induction ms arbitrary: c) simp_all

text \<open>
  Feeding the chunks of a payload in order is handing the payload over once: the collector ends
  as it began and nothing is reported on the way.
\<close>

lemma feed_payload:
  assumes rec: "\<And>i c. i < length cs \<Longrightarrow> client_receive Y (encodeFrame (mk i (cs ! i))) c = receive_data (mk i (cs ! i)) whole c"
    and acc: "\<And>k i. accept k (mk i (cs ! i)) = accept_chunk k x i (length cs) (cs ! i)"
    and "partials (inbound c) x = None" and "cs \<noteq> []"
    and "buffered (inbound c) + int (length (concat cs)) \<le> int (limitBytes (inbound c))"
  shows "feed Y (map (\<lambda>i. encodeFrame (mk i (cs ! i))) [0..<length cs]) c = fst (whole (concat cs) c)"
proof -
  have gen: "feed Y (map (\<lambda>i. encodeFrame (mk i (cs ! i))) is) c = fst (whole b (c\<lparr>inbound := k'\<rparr>))"
    if "is \<noteq> []" "set is \<subseteq> {..<length cs}"
      "accept_chunks (inbound c) x cs is = (k', replicate (length is - 1) (Inr None) @ [Inr (Some b)])" for "is" c b k'
    using that
  proof (induction "is" arbitrary: c)
    case (Cons i "is")
    obtain k1 r1 where one: "accept_chunk (inbound c) x i (length cs) (cs ! i) = (k1, r1)" by fastforce
    obtain k2 rs where rest: "accept_chunks k1 x cs is = (k2, rs)" by fastforce
    have eq: "k2 = k'" "r1 # rs = replicate (length is) (Inr None) @ [Inr (Some b)]"
      using Cons.prems(3) one rest by simp_all
    have r: "client_receive Y (encodeFrame (mk i (cs ! i))) c = receive_data (mk i (cs ! i)) whole c"
      using Cons.prems(2) by (intro rec) auto
    show ?case
    proof (cases "is = []")
      case True
      then show ?thesis using r one rest eq by (simp add: receive_data_def acc del: encodeFrame.simps)
    next
      case False
      then obtain n where n: "length is = Suc n" by (cases "is") auto
      then have "r1 = Inr None" "rs = replicate (length is - 1) (Inr None) @ [Inr (Some b)]" using eq(2) by simp_all
      moreover have "fst (client_receive Y (encodeFrame (mk i (cs ! i))) c) = c\<lparr>inbound := k1\<rparr>"
        unfolding r using one \<open>r1 = Inr None\<close> by (simp add: receive_data_def acc)
      ultimately show ?thesis
        using Cons.IH [OF False, of "c\<lparr>inbound := k1\<rparr>"] Cons.prems(2) rest eq(1) by (simp del: encodeFrame.simps)
    qed
  qed simp
  have "accept_chunks (inbound c) x cs [0..<length cs] = (inbound c, replicate (length cs - 1) (Inr None) @ [Inr (Some (concat cs))])"
    using accept_chunks_any_order [OF assms(3,4) _ _ assms(5), of "[0..<length cs]"] by (simp add: atLeast0LessThan)
  then show ?thesis using gen [of "[0..<length cs]" c "inbound c" "concat cs"] assms(4) by (simp add: atLeast0LessThan)
qed

text \<open>The frames of one entry, and of one snapshot, as the hub cuts them.\<close>

definition frames_of :: "(nat \<Rightarrow> nat \<Rightarrow> bytes \<Rightarrow> frame) \<Rightarrow> bytes \<Rightarrow> frame list" where
  "frames_of mk bs = map (\<lambda>(i, b). mk i (length (chunks_of bs)) b) (enumerate 0 (chunks_of bs))"

lemma frames_of_nth: "frames_of mk bs = map (\<lambda>i. mk i (length (chunks_of bs)) (chunks_of bs ! i)) [0..<length (chunks_of bs)]"
  by (auto simp: frames_of_def enumerate_eq_zip intro!: nth_equalityI)

lemma chunk_count: "length bs < 2 ^ 32 \<Longrightarrow> length (chunks_of bs) < 2 ^ 32"
proof -
  assume b: "length bs < 2 ^ 32"
  have c: "0 < CHUNK_BYTES" by (simp add: CHUNK_BYTES_def DO_SQLITE_VALUE_CAP_def)
  from intoChunks_total [OF this, of bs]
  have "length (chunks_of bs) = max 1 ((length bs + (CHUNK_BYTES - 1)) div CHUNK_BYTES)" by (auto simp: chunks_of_def)
  moreover have "(length bs + (CHUNK_BYTES - 1)) div CHUNK_BYTES \<le> length bs"
  proof (cases "length bs")
    case (Suc n)
    have "length bs + (CHUNK_BYTES - 1) \<le> length bs * CHUNK_BYTES" using c by (cases CHUNK_BYTES) (auto simp: Suc)
    then have "(length bs + (CHUNK_BYTES - 1)) div CHUNK_BYTES \<le> (length bs * CHUNK_BYTES) div CHUNK_BYTES" by (rule div_le_mono)
    with c show ?thesis by simp
  qed (use c in simp)
  ultimately show ?thesis using b by (simp add: max_def)
qed

lemma feed_entry:
  assumes "seq < 2 ^ 32" "length bs < 2 ^ 32" and "partials (inbound c) seq = None"
    and "buffered (inbound c) + int (length bs) \<le> int (limitBytes (inbound c))"
  shows "feed Y (map encodeFrame (frames_of (EntryFrame seq) bs)) c = fst (apply_entry Y seq bs c)"
proof -
  let ?n = "length (chunks_of bs)"
  have "client_receive Y (encodeFrame (EntryFrame seq i ?n (chunks_of bs ! i))) c
      = receive_data (EntryFrame seq i ?n (chunks_of bs ! i)) (apply_entry Y seq) c" if "i < ?n" for i c
    using that assms(1) chunk_count [OF assms(2)] by (simp add: client_receive_def decode_encode del: encodeFrame.simps)
  from feed_payload [where mk = "\<lambda>i b. EntryFrame seq i ?n b" and cs = "chunks_of bs", OF this, of seq c] assms(3,4) show ?thesis
    by (simp add: frames_of_nth comp_def accept_def chunks_of_props del: encodeFrame.simps)
qed

lemma feed_snapshot:
  assumes "p < 2 ^ 32" "length bs < 2 ^ 32" and "partials (inbound c) p = None"
    and "buffered (inbound c) + int (length bs) \<le> int (limitBytes (inbound c))"
  shows "feed Y (map encodeFrame (frames_of (SnapshotFrame p) bs)) c = fst (adopt Y p bs c)"
proof -
  let ?n = "length (chunks_of bs)"
  have "client_receive Y (encodeFrame (SnapshotFrame p i ?n (chunks_of bs ! i))) c
      = receive_data (SnapshotFrame p i ?n (chunks_of bs ! i)) (adopt Y p) c" if "i < ?n" for i c
    using that assms(1) chunk_count [OF assms(2)] by (simp add: client_receive_def decode_encode del: encodeFrame.simps)
  from feed_payload [where mk = "\<lambda>i b. SnapshotFrame p i ?n b" and cs = "chunks_of bs", OF this, of p c] assms(3,4) show ?thesis
    by (simp add: frames_of_nth comp_def accept_def chunks_of_props del: encodeFrame.simps)
qed

section \<open>Catching up\<close>

text \<open>Bytes a document takes, one after another.\<close>

fun takes :: "'y live_yjs \<Rightarrow> 'y \<Rightarrow> bytes list \<Rightarrow> 'y \<Rightarrow> bool" where
  "takes Y d [] d' = (d' = d)"
| "takes Y d (u # us) d' = (case applyUpdateV2 Y d u of None \<Rightarrow> False | Some d1 \<Rightarrow> takes Y d1 us d')"

lemma takes_append: "takes Y d (us @ vs) d' \<longleftrightarrow> (\<exists>d1. takes Y d us d1 \<and> takes Y d1 vs d')"
  by (induction us arbitrary: d) (auto split: option.split)

definition appended :: "(nat \<times> bytes) list \<Rightarrow> controller \<Rightarrow> controller" where
  "appended es k = fold (\<lambda>(seq, bs). append_update bs (Some seq)) es k"

definition roomy :: "(nat \<times> bytes) list \<Rightarrow> 'y client \<Rightarrow> bool" where
  "roomy es c \<longleftrightarrow> inbound c = createChunkCollector CLIENT_BUFFER_CEILING_BYTES \<and> usable (engine c)
     \<and> (\<forall>e\<in>set es. fst e < 2 ^ 32 \<and> length (snd e) \<le> CLIENT_BUFFER_CEILING_BYTES)"

lemma roomy_entry:
  assumes "roomy (e # es) c"
  shows "partials (inbound c) x = None" "buffered (inbound c) + int (length (snd e)) \<le> int (limitBytes (inbound c))"
    "length (snd e) < 2 ^ 32" "fst e < 2 ^ 32"
  using assms by (auto simp: roomy_def createChunkCollector_def CLIENT_BUFFER_CEILING_BYTES_def)

lemma take_remote_ok:
  assumes "usable (engine c)" and "applyUpdateV2 Y (document (engine c)) bs = Some d"
  shows "fst (take_remote Y seq bs c) =
    c\<lparr>engine := (engine c)\<lparr>document := d, controller := append_update bs (Some seq) (controller (engine c))\<rparr>, position := seq\<rparr>"
  using assms by (simp add: take_remote_def applyRemote_def)

text \<open>
  A run of entries just past the cursor: each is applied and appended with its position, and the
  cursor ends at the last.
\<close>

lemma feed_entries:
  assumes "roomy es c" and "map fst es = [Suc (position c)..<Suc (position c + length es)]"
    and "takes Y (document (engine c)) (map snd es) d"
  shows "feed Y (map encodeFrame (concat (map (\<lambda>e. frames_of (EntryFrame (fst e)) (snd e)) es))) c =
    c\<lparr>engine := (engine c)\<lparr>document := d, controller := appended es (controller (engine c))\<rparr>,
      position := position c + length es\<rparr>"
  using assms
proof (induction es arbitrary: c)
  case Nil
  then show ?case by (simp add: appended_def)
next
  case (Cons e es)
  obtain seq bs where e: "e = (seq, bs)" by fastforce
  have seq: "seq = Suc (position c)" and rest: "map fst es = [Suc (Suc (position c))..<Suc (position c + length (e # es))]"
    using Cons.prems(2) by (simp_all add: e upt_conv_Cons del: upt_Suc)
  obtain d1 where d1: "applyUpdateV2 Y (document (engine c)) bs = Some d1" "takes Y d1 (map snd es) d"
    using Cons.prems(3) by (auto simp: e split: option.splits)
  have u: "usable (engine c)" using Cons.prems(1) by (simp add: roomy_def)
  let ?c1 = "c\<lparr>engine := (engine c)\<lparr>document := d1, controller := append_update bs (Some seq) (controller (engine c))\<rparr>, position := seq\<rparr>"
  note room = roomy_entry [OF Cons.prems(1), unfolded e fst_conv snd_conv]
  have "feed Y (map encodeFrame (frames_of (EntryFrame seq) bs)) c = fst (apply_entry Y seq bs c)"
    by (rule feed_entry [OF room(4,3,1,2)])
  also have "\<dots> = ?c1" using take_remote_ok [OF u d1(1), of seq] by (simp add: apply_entry_def seq)
  finally have one: "feed Y (map encodeFrame (frames_of (EntryFrame seq) bs)) c = ?c1" .
  have "roomy es ?c1" using Cons.prems(1) by (simp add: roomy_def)
  moreover have "map fst es = [Suc (position ?c1)..<Suc (position ?c1 + length es)]" using rest by (simp add: seq)
  moreover have "takes Y (document (engine ?c1)) (map snd es) d" using d1(2) by simp
  ultimately have "feed Y (map encodeFrame (concat (map (\<lambda>e. frames_of (EntryFrame (fst e)) (snd e)) es))) ?c1 =
      ?c1\<lparr>engine := (engine ?c1)\<lparr>document := d, controller := appended es (controller (engine ?c1))\<rparr>, position := position ?c1 + length es\<rparr>"
    by (rule Cons.IH)
  then show ?case by (simp add: feed_append one [unfolded seq] e appended_def seq del: encodeFrame.simps)
qed

section \<open>Properties\<close>

definition live_byte_doc :: "bytes live_yjs" where
  "live_byte_doc = yjs.extend byte_doc \<lparr>hasPendingStructs = (\<lambda>_. False), afterThrow = (\<lambda>d u. d)\<rparr>"

lemma live_byte_doc_simps [simp]:
  "new_doc live_byte_doc = []" "applyUpdateV2 live_byte_doc d u = Some (d @ u)" "encodeStateAsUpdateV2 live_byte_doc d = d"
  "mergeUpdatesV2 live_byte_doc us = concat us" "hasPendingStructs live_byte_doc d = False"
  by (simp_all add: live_byte_doc_def byte_doc_def yjs.defs live_yjs.defs)

definition sample_engine :: "bytes engine" where
  "sample_engine = the (initialize live_byte_doc False (loadDurableSnapshot sample_rows))"

lemma sample_engine_eq:
  "sample_engine = \<lparr>document = [7, 8], controller = createPersistenceController (loadDurableSnapshot sample_rows),
     usable = True, localOnly = False\<rparr>"
  by (simp add: sample_engine_def initialize_def loadDurableSnapshot_def readUpdates_def sample_rows_def)

definition sample_client :: "bytes client" where
  "sample_client = (case createSyncClient [] sample_engine of Inr c \<Rightarrow> c)"

lemma sample_client_eq:
  "sample_client = \<lparr>engine = sample_engine, inbound = createChunkCollector CLIENT_BUFFER_CEILING_BYTES, connection = None,
     nextIdentity = 0, nextSubmission = 1, position = 4, owedBytes = 0, lastError = None,
     needsResync = False, idle = False, cdisposed = False, outbound = [], reactions = []\<rparr>"
  by (simp add: sample_client_def createSyncClient_def engine_cursor_def sample_engine_eq durableCursor_def
      createPersistenceController_def) (simp add: sample_rows_def readCursor_def maxSeq_def)

text \<open>
  Claim C4 (cursor_moves_with_its_bytes). Whatever message arrives, the cursor stays where it is,
  or it moves in one of three ways: one step, by an entry frame whose reassembled bytes the
  document took and whose append, stamped with that very position, was accepted in the same call;
  one step, by the acknowledgement of the submission outstanding on this connection; or ahead, by
  a snapshot whose bytes were taken and appended in the same way. No other frame moves it.
\<close>

theorem cursor_moves_with_its_bytes:
  assumes "position (fst (client_receive Y m c)) \<noteq> position c"
  shows "\<exists>f. decodeFrame m = Inr f
    \<and> (let c' = fst (client_receive Y m c);
           taken = (\<lambda>seq. \<exists>bs d. snd (accept (inbound c) f) = Inr (Some bs) \<and> applyUpdateV2 Y (document (engine c)) bs = Some d
             \<and> position c' = seq
             \<and> engine c' = (engine c)\<lparr>document := d, controller := append_update bs (Some seq) (controller (engine c))\<rparr>) in
       case f of
         EntryFrame seq i n b \<Rightarrow> seq = position c + 1 \<and> taken seq
       | SnapshotFrame p i n b \<Rightarrow> position c < p \<and> taken p
       | AckFrame submission seq \<Rightarrow> seq = position c + 1 \<and> position c' = seq
           \<and> (\<exists>l throughId. connection c = Some l \<and> outstanding l = Some (submission, throughId))
       | _ \<Rightarrow> False)"
proof -
  have take: "position (fst (take_remote Y seq bs c0)) \<noteq> position c0 \<Longrightarrow>
      \<exists>d. applyUpdateV2 Y (document (engine c0)) bs = Some d \<and> position (fst (take_remote Y seq bs c0)) = seq
        \<and> engine (fst (take_remote Y seq bs c0)) =
          (engine c0)\<lparr>document := d, controller := append_update bs (Some seq) (controller (engine c0))\<rparr>" for seq bs and c0 :: "'a client"
    by (auto simp: take_remote_def applyRemote_def split: option.splits if_splits)
  obtain f where f: "decodeFrame m = Inr f"
    using assms by (auto simp: client_receive_def split: sum.splits)
  have data: "\<exists>bs. snd (accept (inbound c) f) = Inr (Some bs) \<and> receive_data f whole c = whole bs (c\<lparr>inbound := fst (accept (inbound c) f)\<rparr>)"
    if "position (fst (receive_data f whole c)) \<noteq> position c" for whole
    using that by (auto simp: receive_data_def brokenStream_def split: prod.splits sum.splits option.splits)
  show ?thesis
  proof (cases f)
    case (EntryFrame seq i n b)
    have r: "client_receive Y m c = receive_data f (apply_entry Y seq) c" by (simp add: client_receive_def f EntryFrame)
    then obtain bs where bs: "snd (accept (inbound c) f) = Inr (Some bs)"
      "client_receive Y m c = apply_entry Y seq bs (c\<lparr>inbound := fst (accept (inbound c) f)\<rparr>)"
      using data assms by metis
    then have "seq = position c + 1" "client_receive Y m c = take_remote Y seq bs (c\<lparr>inbound := fst (accept (inbound c) f)\<rparr>)"
      using assms by (auto simp: apply_entry_def gap_def split: if_splits)
    with take [of seq bs "c\<lparr>inbound := fst (accept (inbound c) f)\<rparr>"] assms bs(1) show ?thesis by (auto simp: f EntryFrame)
  next
    case (SnapshotFrame p i n b)
    have r: "client_receive Y m c = receive_data f (adopt Y p) c" by (simp add: client_receive_def f SnapshotFrame)
    then obtain bs where bs: "snd (accept (inbound c) f) = Inr (Some bs)"
      "client_receive Y m c = adopt Y p bs (c\<lparr>inbound := fst (accept (inbound c) f)\<rparr>)"
      using data assms by metis
    then have "position c < p" "client_receive Y m c = take_remote Y p bs (c\<lparr>inbound := fst (accept (inbound c) f)\<rparr>)"
      using assms by (auto simp: adopt_def split: if_splits)
    with take [of p bs "c\<lparr>inbound := fst (accept (inbound c) f)\<rparr>"] assms bs(1) show ?thesis by (auto simp: f SnapshotFrame)
  next
    case (AckFrame submission seq)
    have r: "client_receive Y m c = receive_ack Y submission seq c" by (simp add: client_receive_def f AckFrame)
    show ?thesis using assms unfolding r
      by (auto simp: f AckFrame receive_ack_def gap_def Let_def engine_acknowledge_def split: option.splits sum.splits if_splits)
  next
    case (WantedFrame p)
    then show ?thesis using assms
      by (auto simp: client_receive_def f offerSnapshot_def Let_def split: option.splits sum.splits bool.splits if_splits)
  next
    case (RefuseFrame submission why)
    then show ?thesis using assms
      by (auto simp: client_receive_def f receive_refuse_def split: option.splits if_splits)
  qed (use assms in \<open>auto simp: client_receive_def f\<close>)
qed

definition sample_message :: bytes where
  "sample_message = encodeFrame (EntryFrame 5 0 1 [9])"

lemma decode_sample_message: "decodeFrame sample_message = Inr (EntryFrame 5 0 1 [9])"
  unfolding sample_message_def by (rule decode_encode) simp_all

lemma sample_receive:
  "client_receive live_byte_doc sample_message sample_client =
     (sample_client\<lparr>engine := sample_engine\<lparr>document := [7, 8, 9], controller := append_update [9] (Some 5) (controller sample_engine)\<rparr>,
       position := 5\<rparr>, Done)"
  by (simp add: client_receive_def decode_sample_message receive_data_def accept_def accept_chunk_def apply_entry_def
      take_remote_def applyRemote_def) (simp add: sample_client_eq sample_engine_eq)

theorem cursor_moves_with_its_bytes_witness:
  "position (fst (client_receive live_byte_doc sample_message sample_client)) = 5
   \<and> document (engine (fst (client_receive live_byte_doc sample_message sample_client))) = [7, 8] @ [9]"
proof -
  have "position (fst (client_receive live_byte_doc sample_message sample_client)) \<noteq> position sample_client"
    by (simp only: sample_receive fst_conv) (simp add: sample_client_eq)
  from cursor_moves_with_its_bytes [OF this] show ?thesis
    by (simp add: decode_sample_message accept_def accept_chunk_def Let_def) (simp add: sample_client_eq sample_engine_eq)
qed

text \<open>
  A whole entry at or below the cursor is a redelivery and
  changes nothing but the collector; one past the next position is a gap, which applies nothing,
  keeps the cursor, and is reported both as the error and as a request to be reconnected.
\<close>

theorem out_of_order_entries:
  assumes "decodeFrame m = Inr (EntryFrame seq i n b)" and "accept (inbound c) (EntryFrame seq i n b) = (k, Inr (Some bs))"
    and "seq \<noteq> position c + 1"
  shows "client_receive Y m c =
    (if seq \<le> position c then (c\<lparr>inbound := k\<rparr>, Done)
     else (c\<lparr>inbound := k, lastError := Some (Gap (position c + 1) seq), needsResync := True\<rparr>, Failed (Gap (position c + 1) seq)))"
  using assms by (auto simp: client_receive_def receive_data_def apply_entry_def gap_def)

theorem out_of_order_entries_witness:
  "client_receive live_byte_doc sample_message (sample_client\<lparr>position := 1\<rparr>) =
     (sample_client\<lparr>position := 1, lastError := Some (Gap 2 5), needsResync := True\<rparr>, Failed (Gap 2 5))"
proof -
  have "accept (inbound (sample_client\<lparr>position := 1\<rparr>)) (EntryFrame 5 0 1 [9]) = (inbound sample_client, Inr (Some [9]))"
    by (simp add: accept_def accept_chunk_def)
  from out_of_order_entries [OF decode_sample_message this, of live_byte_doc] show ?thesis by simp
qed

text \<open>
  An acknowledgement is acted on only when it answers the
  submission outstanding on the live connection. If it names the next position, the cursor moves
  there, the covered entries are retired at that position by one accepted operation, and the
  document is untouched; if it names any other position it is refused whole: nothing is retired,
  the cursor stays, the submission stays outstanding, and a reconnect is asked for.
\<close>

theorem ack_settles_its_submission:
  assumes "connection c = Some l" and "outstanding l = Some (submission, throughId)" and "usable (engine c)"
    and "submission < 2 ^ 32" and "seq < 2 ^ 32"
  shows "let c' = fst (client_receive Y (encodeFrame (AckFrame submission seq)) c);
             k = acknowledge_through throughId seq (controller (engine c)) in
     (seq = position c + 1 \<longrightarrow> position c' = seq \<and> document (engine c') = document (engine c) \<and> needsResync c' = needsResync c
        \<and> books (controller (engine c')) = books k \<and> flight (controller (engine c')) = flight k)
     \<and> (seq \<noteq> position c + 1 \<longrightarrow> c' = c\<lparr>lastError := Some (Gap (position c + 1) seq), needsResync := True\<rparr>)"
proof -
  have r: "client_receive Y (encodeFrame (AckFrame submission seq)) c = receive_ack Y submission seq c"
    using decode_encode [of "AckFrame submission seq"] assms(4,5) by (simp add: client_receive_def del: encodeFrame.simps)
  show ?thesis unfolding r receive_ack_def
    using assms(1-3) by (simp add: Let_def gap_def engine_acknowledge_def del: books_eq)
qed

definition waiting_client :: "bytes client" where
  "waiting_client = sample_client\<lparr>connection := Some \<lparr>identity = 0, socket = 3, outstanding = Some (1, 2)\<rparr>, nextIdentity := 1, nextSubmission := 2\<rparr>"

theorem ack_settles_its_submission_witness:
  "position (fst (client_receive live_byte_doc (encodeFrame (AckFrame 1 5)) waiting_client)) = 5
   \<and> queue (controller (engine (fst (client_receive live_byte_doc (encodeFrame (AckFrame 1 5)) waiting_client)))) = [AckOp 2 5]"
  using ack_settles_its_submission [of waiting_client "\<lparr>identity = 0, socket = 3, outstanding = Some (1, 2)\<rparr>" 1 2 5 live_byte_doc]
  by (simp add: waiting_client_def sample_client_eq sample_engine_eq Let_def createPersistenceController_def
      acknowledge_through_def enqueue_simps del: encodeFrame.simps)

text \<open>
  A request for a snapshot is answered only by a connected replica
  exactly at the position asked for and holding no update with missing dependencies; what goes
  out is then the first chunks of the encoding of its whole document, stamped with that position,
  and nothing else changes.
\<close>

theorem offers_are_exact:
  assumes "offerSnapshot Y p c = (c', r)" and "outbound c' \<noteq> outbound c"
  shows "p = position c \<and> \<not> hasPendingStructs Y (document (engine c)) \<and> engine c' = engine c \<and> position c' = position c
    \<and> (\<exists>l cs k. connection c = Some l \<and> concat cs = encodeStateAsUpdateV2 Y (document (engine c)) \<and> k \<le> length cs
         \<and> outbound c' = outbound c @ map (\<lambda>i. (socket l, encodeFrame (OfferFrame p i (length cs) (cs ! i)))) [0..<k])"
proof -
  obtain l where l: "connection c = Some l" using assms by (auto simp: offerSnapshot_def split: option.splits)
  let ?b = "encodeStateAsUpdateV2 Y (document (engine c))"
  have c': "p = position c" "\<not> hasPendingStructs Y (document (engine c))"
    "c' = send_payload l (\<lambda>i b. OfferFrame p i (length (chunks_of ?b)) b) 0 (chunks_of ?b) c"
    using assms l by (auto simp: offerSnapshot_def hasUnresolvedDependencies_def encodeSnapshot_def Let_def split: if_splits bool.splits)
  obtain k where "k \<le> length (chunks_of ?b)" "outbound c' = outbound c @
      map (\<lambda>j. (socket l, encodeFrame (OfferFrame p (0 + j) (length (chunks_of ?b)) (chunks_of ?b ! j)))) [0..<k]"
    using send_payload_outbound [of "chunks_of ?b" l "\<lambda>i b. OfferFrame p i (length (chunks_of ?b)) b" 0 c] c'(3) by blast
  then show ?thesis using c' l by (auto simp: chunks_of_props(1) simp del: encodeFrame.simps intro!: exI [of _ "chunks_of ?b"])
qed

theorem offers_are_exact_witness:
  "\<exists>c'. offerSnapshot live_byte_doc 4 waiting_client = (c', Done) \<and> engine c' = sample_engine
     \<and> outbound c' = [(3, encodeFrame (OfferFrame 4 0 1 [7, 8]))]"
proof -
  let ?b = "[7, 8] :: bytes"
  have one: "chunks_of ?b = [?b]" by (rule chunks_of_small) (simp add: CHUNK_BYTES_def DO_SQLITE_VALUE_CAP_def)
  have o: "offerSnapshot live_byte_doc 4 waiting_client =
      (waiting_client\<lparr>outbound := [(3, encodeFrame (OfferFrame 4 0 1 ?b))]\<rparr>, Done)"
    by (simp add: offerSnapshot_def waiting_client_def sample_client_eq sample_engine_eq hasUnresolvedDependencies_def
        encodeSnapshot_def one socket_send_def Let_def del: encodeFrame.simps)
  then show ?thesis using offers_are_exact [OF o] by (simp add: waiting_client_def sample_client_eq del: encodeFrame.simps)
qed

section \<open>Submissions over the life of a client\<close>

text \<open>
  Every state a client can be in: the driver's calls and messages in any order, and the store
  changing underneath it at any moment.
\<close>

inductive client_reachable :: "'y live_yjs \<Rightarrow> 'y client \<Rightarrow> bool" for Y where
  created: "createSyncClient rs e = Inr c \<Longrightarrow> client_reachable Y c"
| attached: "client_reachable Y c \<Longrightarrow> client_reachable Y (fst (attach Y s c))"
| detached: "client_reachable Y c \<Longrightarrow> client_reachable Y (detach c)"
| nudged: "client_reachable Y c \<Longrightarrow> client_reachable Y (nudge c)"
| idled: "client_reachable Y c \<Longrightarrow> client_reachable Y (fst (idle_task Y c))"
| flushed: "client_reachable Y c \<Longrightarrow> client_reachable Y (fst (client_flush Y c))"
| received: "client_reachable Y c \<Longrightarrow> client_reachable Y (fst (client_receive Y m c))"
| stored: "client_reachable Y c \<Longrightarrow> client_reachable Y (c\<lparr>engine := e\<rparr>)"
| disposed: "client_reachable Y c \<Longrightarrow> client_reachable Y (dispose c)"

definition pushed :: "'y client \<Rightarrow> nat \<Rightarrow> bool" where
  "pushed c n \<longleftrightarrow> (\<exists>s i k b. (s, encodeFrame (PushFrame n i k b)) \<in> set (outbound c))"

text \<open>
  The submissions handed out so far lie below the counter, and every message sent is an encoded
  push of one of them or an offer.
\<close>

definition sent_ok :: "nat \<Rightarrow> bytes \<Rightarrow> bool" where
  "sent_ok m bs \<longleftrightarrow> (\<exists>n i k b. n < m \<and> bs = encodeFrame (PushFrame n i k b)) \<or> (\<exists>p i k b. bs = encodeFrame (OfferFrame p i k b))"

definition link_ok :: "nat \<Rightarrow> link option \<Rightarrow> bool" where
  "link_ok m k = (case k of None \<Rightarrow> True | Some l \<Rightarrow> (case outstanding l of None \<Rightarrow> True | Some (n, i) \<Rightarrow> n < m))"

lemma link_ok_simps [simp]: "link_ok m None" "link_ok m (Some \<lparr>identity = a, socket = s, outstanding = None\<rparr>)"
  "link_ok m (Some (l\<lparr>outstanding := None\<rparr>))" "link_ok m (Some (l\<lparr>outstanding := Some (n, i)\<rparr>)) = (n < m)"
  by (simp_all add: link_ok_def)

definition submissions_ok :: "'y client \<Rightarrow> bool" where
  "submissions_ok c \<longleftrightarrow> (\<forall>x\<in>set (outbound c). sent_ok (nextSubmission c) (snd x)) \<and> link_ok (nextSubmission c) (connection c)"

lemma send_payload_ok:
  assumes "submissions_ok c"
    and "\<And>i b. (\<exists>n j k. n < nextSubmission c \<and> mk i b = PushFrame n j k b) \<or> (\<exists>p j k. mk i b = OfferFrame p j k b)"
  shows "submissions_ok (send_payload l mk i cs c)"
proof -
  obtain k where out: "outbound (send_payload l mk i cs c) =
      outbound c @ map (\<lambda>j. (socket l, encodeFrame (mk (i + j) (cs ! j)))) [0..<k]"
    using send_payload_outbound by blast
  have "sent_ok (nextSubmission c) (encodeFrame (mk x b))" for x b using assms(2) [of x b] unfolding sent_ok_def by metis
  moreover have "link_ok (nextSubmission c) (connection (send_payload l mk i cs c))"
    using assms(1) send_payload_connection [of l mk i cs c] by (auto simp: submissions_ok_def simp del: encodeFrame.simps)
  ultimately show ?thesis using assms(1) by (auto simp: submissions_ok_def out simp del: encodeFrame.simps)
qed

lemma send_ok:
  assumes "submissions_ok c" shows "submissions_ok (fst (send Y c))"
proof (cases "\<exists>l e entry. connection c = Some l \<and> outstanding l = None \<and> engine_coalesce Y (engine c) = Inr (e, Some entry)")
  case True
  then obtain l e entry where l: "connection c = Some l" "outstanding l = None" "engine_coalesce Y (engine c) = Inr (e, Some entry)" by blast
  let ?c = "c\<lparr>engine := e, owedBytes := length (obytes entry), nextSubmission := nextSubmission c + 1,
                              connection := Some (l\<lparr>outstanding := Some (nextSubmission c, oid entry)\<rparr>)\<rparr>"
  have "sent_ok m bs \<Longrightarrow> sent_ok (m + 1) bs" for m bs unfolding sent_ok_def by (blast intro: trans_less_add1)
  then have "submissions_ok ?c" using assms by (auto simp: submissions_ok_def)
  then have "submissions_ok (send_payload l (\<lambda>i b. PushFrame (nextSubmission c) i (length (chunks_of (obytes entry))) b) 0 (chunks_of (obytes entry)) ?c)"
    by (rule send_payload_ok) auto
  with l show ?thesis by (simp add: send_def Let_def)
next
  case False
  then have "submissions_ok (fst (send Y c)) \<longleftrightarrow> submissions_ok c"
    by (auto simp: send_def submissions_ok_def Let_def split: option.splits sum.splits prod.splits)
  with assms show ?thesis by simp
qed

lemma receive_ok:
  assumes "submissions_ok c" shows "submissions_ok (fst (client_receive Y m c))"
proof -
  have same: "submissions_ok (c\<lparr>engine := e, position := p, lastError := x, needsResync := y, inbound := k, owedBytes := w\<rparr>) = submissions_ok c"
    for e p x y k w and c :: "'a client" by (simp add: submissions_ok_def)
  have take: "submissions_ok c \<Longrightarrow> submissions_ok (fst (take_remote Y seq bs c))" for seq bs and c :: "'a client"
    by (auto simp: take_remote_def submissions_ok_def split: sum.split prod.split)
  have data: "(\<And>bs c. submissions_ok c \<Longrightarrow> submissions_ok (fst (whole bs c))) \<Longrightarrow> submissions_ok (fst (receive_data f whole c))" for f whole
    using assms by (auto simp: receive_data_def brokenStream_def submissions_ok_def split: prod.split sum.split option.split)
  have entry: "submissions_ok c \<Longrightarrow> submissions_ok (fst (apply_entry Y seq bs c))" for seq bs and c :: "'a client"
    using take [of c seq bs] by (auto simp: apply_entry_def gap_def submissions_ok_def)
  have adopt: "submissions_ok c \<Longrightarrow> submissions_ok (fst (adopt Y seq bs c))" for seq bs and c :: "'a client"
    using take [of c seq bs] by (auto simp: adopt_def)
  have ack: "submissions_ok (fst (receive_ack Y n seq c))" for n seq
  proof -
    have "submissions_ok (c\<lparr>position := seq, engine := e, connection := Some (l\<lparr>outstanding := None\<rparr>), owedBytes := 0\<rparr>)" for e l
      using assms by (auto simp: submissions_ok_def)
    from send_ok [OF this] assms show ?thesis
      by (auto simp: receive_ack_def gap_def Let_def submissions_ok_def [of "c\<lparr>lastError := _, needsResync := _\<rparr>"]
          submissions_ok_def [of "c\<lparr>position := _\<rparr>"] submissions_ok_def [of c] split: option.split sum.split simp del: encodeFrame.simps)
  qed
  have offer: "submissions_ok (fst (offerSnapshot Y p c))" for p
    using assms by (auto simp: offerSnapshot_def Let_def intro!: send_payload_ok split: option.split sum.split bool.split)
  have refuse: "submissions_ok (fst (receive_refuse n why c))" for n why
    using assms by (auto simp: receive_refuse_def submissions_ok_def split: option.split)
  show ?thesis using assms data [OF entry] data [OF adopt] ack offer refuse
    by (auto simp: client_receive_def split: sum.split frame.split)
qed

lemma client_reachable_ok: "client_reachable Y c \<Longrightarrow> submissions_ok c"
proof (induction rule: client_reachable.induct)
  case (created rs e c)
  then show ?case by (auto simp: createSyncClient_def submissions_ok_def split: sum.splits)
next
  case (attached c s)
  let ?c = "c\<lparr>connection := Some \<lparr>identity = nextIdentity c, socket = s, outstanding = None\<rparr>, nextIdentity := nextIdentity c + 1,
               inbound := createChunkCollector CLIENT_BUFFER_CEILING_BYTES, needsResync := False\<rparr>"
  have "submissions_ok ?c" using attached.IH by (auto simp: submissions_ok_def)
  from send_ok [OF this] show ?case by (simp add: attach_def)
next
  case (idled c)
  have "submissions_ok (c\<lparr>idle := False\<rparr>)" using idled.IH by (simp add: submissions_ok_def)
  with idled.IH show ?case by (simp add: idle_task_def send_ok)
next
  case (flushed c)
  have "submissions_ok (clearIdle c)" using flushed.IH by (simp add: submissions_ok_def clearIdle_def)
  then show ?case by (simp add: client_flush_def send_ok)
next
  case (received c m)
  then show ?case by (simp add: receive_ok)
qed (auto simp: submissions_ok_def nudge_def)

text \<open>
  In every state the client can reach, sending puts bytes on
  the wire only when no submission is outstanding on the live connection. What goes out is then
  the first chunks of exactly the coalesced outbox entries, numbered with a submission number no
  earlier push of this client carried, and that number with the last covered id is what is now
  outstanding (unless the connection ended inside the send). So an acknowledgement can only name
  one set of entries.
\<close>

theorem one_submission_at_a_time:
  assumes "client_reachable Y c" and "outbound (fst (send Y c)) \<noteq> outbound c"
  shows "\<exists>l e entry cs k. connection c = Some l \<and> outstanding l = None
    \<and> engine_coalesce Y (engine c) = Inr (e, Some entry) \<and> concat cs = obytes entry \<and> k \<le> length cs
    \<and> outbound (fst (send Y c)) = outbound c @
        map (\<lambda>i. (socket l, encodeFrame (PushFrame (nextSubmission c) i (length cs) (cs ! i)))) [0..<k]
    \<and> (nextSubmission c < 2 ^ 32 \<longrightarrow> \<not> (\<exists>s i n b. i < n \<and> n < 2 ^ 32 \<and> (s, encodeFrame (PushFrame (nextSubmission c) i n b)) \<in> set (outbound c)))
    \<and> (connection (fst (send Y c)) = Some (l\<lparr>outstanding := Some (nextSubmission c, oid entry)\<rparr>) \<or> connection (fst (send Y c)) = None)"
proof -
  have "\<exists>l e entry. connection c = Some l \<and> outstanding l = None \<and> engine_coalesce Y (engine c) = Inr (e, Some entry)"
  proof (rule ccontr)
    assume "\<not> ?thesis"
    then have "outbound (fst (send Y c)) = outbound c"
      by (auto simp: send_def Let_def split: option.splits sum.splits prod.splits)
    with assms(2) show False by simp
  qed
  then obtain l e entry where l: "connection c = Some l" "outstanding l = None" "engine_coalesce Y (engine c) = Inr (e, Some entry)" by blast
  let ?cs = "chunks_of (obytes entry)" and ?n = "nextSubmission c"
  let ?mk = "\<lambda>i b. PushFrame ?n i (length ?cs) b"
  let ?c = "c\<lparr>engine := e, owedBytes := length (obytes entry), nextSubmission := ?n + 1,
                              connection := Some (l\<lparr>outstanding := Some (?n, oid entry)\<rparr>)\<rparr>"
  have s: "fst (send Y c) = send_payload l ?mk 0 ?cs ?c" using l by (simp add: send_def Let_def)
  obtain k where k: "k \<le> length ?cs" "outbound (fst (send Y c)) = outbound c @ map (\<lambda>i. (socket l, encodeFrame (?mk i (?cs ! i)))) [0..<k]"
    using send_payload_outbound [of ?cs l ?mk 0 ?c] unfolding s by (auto simp del: encodeFrame.simps)
  have fresh: False if "?n < 2 ^ 32" "i < n" "n < 2 ^ 32" "(x, encodeFrame (PushFrame ?n i n b)) \<in> set (outbound c)" for x i n b
  proof -
    have d: "decodeFrame (encodeFrame (PushFrame ?n i n b)) = Inr (PushFrame ?n i n b)"
      by (rule decode_encode) (use that in simp_all)
    have head_kind: "getUint8 (encodeFrame (PushFrame a i' n' b')) 0 = 1" "getUint8 (encodeFrame (OfferFrame a i' n' b')) 0 = 5"
      "getUint32 (encodeFrame (PushFrame a i' n' b')) 1 = a mod 2 ^ 32" for a i' n' b'
      using encodeData_fields(2,3) [of PUSH a i' n' b'] encodeData_fields(2) [of OFFER a i' n' b'] by simp_all
    from client_reachable_ok [OF assms(1)] that(4)
    consider (push) m j n' b' where "m < ?n" "encodeFrame (PushFrame ?n i n b) = encodeFrame (PushFrame m j n' b')"
      | (offer) p j n' b' where "encodeFrame (PushFrame ?n i n b) = encodeFrame (OfferFrame p j n' b')"
      unfolding submissions_ok_def sent_ok_def by fastforce
    then show False
    proof cases
      case push
      then have "?n mod 2 ^ 32 = m mod 2 ^ 32" using head_kind(3) by metis
      with push(1) that(1) show False by simp
    next
      case offer
      then have "(1::nat) = 5" using head_kind(1,2) by metis
      then show False by simp
    qed
  qed
  have "connection (fst (send Y c)) = Some (l\<lparr>outstanding := Some (?n, oid entry)\<rparr>) \<or> connection (fst (send Y c)) = None"
    using send_payload_connection [of l ?mk 0 ?cs ?c] unfolding s by simp
  with l k fresh show ?thesis
    by (intro exI [of _ l] exI [of _ e] exI [of _ entry] exI [of _ ?cs] exI [of _ k]) (auto simp: chunks_of_props(1) simp del: encodeFrame.simps)
qed

definition ready_client :: "bytes client" where
  "ready_client = sample_client\<lparr>connection := Some \<lparr>identity = 0, socket = 3, outstanding = None\<rparr>, nextIdentity := 1, nextSubmission := 1\<rparr>"

definition attached_client :: "bytes client" where
  "attached_client = fst (attach live_byte_doc 3 (sample_client\<lparr>engine := sample_engine\<lparr>controller := (controller sample_engine)\<lparr>outbox := []\<rparr>\<rparr>\<rparr>))"

lemma attached_client_reachable: "client_reachable live_byte_doc (attached_client\<lparr>engine := sample_engine\<rparr>)"
proof -
  have "createSyncClient [] sample_engine = Inr sample_client"
    by (simp add: sample_client_def createSyncClient_def engine_cursor_def sample_engine_eq)
  from client_reachable.created [OF this] show ?thesis
    unfolding attached_client_def by (intro client_reachable.stored client_reachable.attached)
qed

lemma attached_client_eq: "attached_client\<lparr>engine := sample_engine\<rparr> = ready_client"
  by (simp add: attached_client_def attach_def send_def engine_coalesce_def coalesce_def sample_client_eq sample_engine_eq ready_client_def)

lemma ready_coalesce:
  "engine_coalesce live_byte_doc (engine ready_client) =
     Inr (sample_engine\<lparr>controller := (controller sample_engine)\<lparr>lastCoalescedId := 2\<rparr>\<rparr>, Some \<lparr>oid = 2, obytes = [8]\<rparr>)"
  by (simp add: engine_coalesce_def coalesce_def ready_client_def sample_client_eq sample_engine_eq createPersistenceController_def
      merge_entries_def) (simp add: readOutbox_def sample_rows_def tbl_select_def owed_def Let_def merge_entries_def)

lemma ready_send: "outbound (fst (send live_byte_doc ready_client)) = [(3, encodeFrame (PushFrame 1 0 1 [8]))]"
proof -
  have one: "chunks_of [8] = [[8]]" by (rule chunks_of_small) (simp add: CHUNK_BYTES_def DO_SQLITE_VALUE_CAP_def)
  have c: "connection ready_client = Some \<lparr>identity = 0, socket = 3, outstanding = None\<rparr>" "outbound ready_client = []"
    "reactions ready_client = []" "nextSubmission ready_client = 1"
    by (simp_all add: ready_client_def sample_client_eq)
  show ?thesis unfolding send_def using c
    by (simp add: ready_coalesce one socket_send_def Let_def del: encodeFrame.simps One_nat_def, simp del: encodeFrame.simps)
qed

theorem one_submission_at_a_time_witness:
  "\<exists>cs k. outbound (fst (send live_byte_doc ready_client)) = map (\<lambda>i. (3, encodeFrame (PushFrame 1 i (length cs) (cs ! i)))) [0..<k]
     \<and> concat cs = [8]"
proof -
  have "outbound (fst (send live_byte_doc ready_client)) \<noteq> outbound ready_client"
    unfolding ready_send by (simp add: ready_client_def sample_client_eq)
  from one_submission_at_a_time [OF attached_client_reachable [unfolded attached_client_eq] this] obtain l e entry cs k where
    f: "connection ready_client = Some l" "engine_coalesce live_byte_doc (engine ready_client) = Inr (e, Some entry)"
      "concat cs = obytes entry"
      "outbound (fst (send live_byte_doc ready_client)) = outbound ready_client @
        map (\<lambda>i. (socket l, encodeFrame (PushFrame (nextSubmission ready_client) i (length cs) (cs ! i)))) [0..<k]"
    by (elim exE conjE)
  then show ?thesis unfolding f(4)
    by (intro exI [of _ cs] exI [of _ k]) (use f(1-3) ready_coalesce in \<open>auto simp: ready_client_def sample_client_eq\<close>)
qed

end
