(* ===== verification/Connection.thy ===== *)
theory Connection
  imports Client
begin

text \<open>
  The driver of one replica's connection, \<^verbatim>\<open>packages/app/src/data/sync/connection.ts\<close>: when to
  dial, what a host's callbacks may still do, when to give a socket up and how long to wait. The
  host that makes sockets is not part of the program: what it calls, and when, and whether its
  \<^verbatim>\<open>dial\<close> or a teardown it returned throws, is the input of the model. Timers are fields; a timer
  that fires is a step. The verbs are called between events, not inside a callback of the host.
\<close>

section \<open>State\<close>

datatype reconnect_reason = ByClose | ByResync | ByStall | ByRefusal | ByAdmission

text \<open>
  \<open>armed\<close> timers hold what their task captured: the admission timer the attempt, the redial timer
  its delay. \<open>sockets\<close> is the variable \<open>socket\<close> of each attempt's closure. \<open>brittle\<close> says of which
  attempts the teardown that the host returns throws, when it is called. The last four fields are
  what the host observes, and the attempts whose \<^verbatim>\<open>dial\<close> threw. A refusal is the host's own datum.
\<close>

record ('y, 'r) driver =
  client :: "'y client"
  driving :: bool                         \<comment> \<open>\<^verbatim>\<open>running\<close>\<close>
  finished :: bool                        \<comment> \<open>\<^verbatim>\<open>disposed\<close>\<close>
  connected :: bool
  retired :: bool
  refusal :: "'r option"
  failures :: nat
  lastReconnect :: "reconnect_reason option"
  attempt :: nat
  sockets :: "nat \<Rightarrow> nat option"
  teardown :: "nat option"
  redialTimer :: "nat option"
  admissionTimer :: "nat option"
  healthyTimer :: bool
  watchdogTimer :: bool
  watched :: "nat option"
  sendableHook :: bool
  brittle :: "nat \<Rightarrow> bool"
  dials :: "(nat \<times> nat) list"              \<comment> \<open>attempt, cursor asked from\<close>
  tornDown :: "nat list"
  retirements :: nat                       \<comment> \<open>calls of \<open>onRetired\<close>\<close>
  lostDials :: "nat list"                  \<comment> \<open>attempts whose \<open>dial\<close> threw\<close>

definition createSyncConnection :: "(nat \<Rightarrow> bool) \<Rightarrow> 'y client \<Rightarrow> ('y, 'r) driver" where
  "createSyncConnection throws cl =
     \<lparr>client = cl, driving = False, finished = False, connected = False, retired = False, refusal = None,
      failures = 0, lastReconnect = None, attempt = 0, sockets = (\<lambda>_. None), teardown = None,
      redialTimer = None, admissionTimer = None, healthyTimer = False, watchdogTimer = False, watched = None,
      sendableHook = True, brittle = throws, dials = [], tornDown = [], retirements = 0, lostDials = []\<rparr>"

definition backoff :: "nat \<Rightarrow> nat" where
  "backoff n = min 30000 (1000 * 2 ^ (n - 1))"

section \<open>Letting go and dialling again\<close>

definition cancelTimers :: "('y, 'r) driver \<Rightarrow> ('y, 'r) driver" where
  "cancelTimers d = d\<lparr>admissionTimer := None, healthyTimer := False, watchdogTimer := False, watched := None\<rparr>"

definition abandon :: "('y, 'r) driver \<Rightarrow> ('y, 'r) driver" where
  "abandon d =
     (let d1 = cancelTimers (d\<lparr>attempt := attempt d + 1\<rparr>);
          stop = teardown d1;
          d2 = d1\<lparr>teardown := None, connected := False, client := detach (client d1)\<rparr> in
      case stop of None \<Rightarrow> d2 | Some a \<Rightarrow> d2\<lparr>tornDown := tornDown d2 @ [a]\<rparr>)"

text \<open>
  The teardown is the last thing \<open>abandon\<close> calls. When it throws, the state is the same and the
  exception leaves \<open>abandon\<close>: \<open>reconnect\<close> has not caught it and ends there.
\<close>

definition abandon_throws :: "('y, 'r) driver \<Rightarrow> bool" where
  "abandon_throws d = (case teardown d of None \<Rightarrow> False | Some a \<Rightarrow> brittle d a)"

lemma abandon_throws_updates [simp]:
  "abandon_throws (d\<lparr>lastReconnect := x1\<rparr>) = abandon_throws d" "abandon_throws (d\<lparr>refusal := x2\<rparr>) = abandon_throws d"
  "abandon_throws (d\<lparr>sockets := x3\<rparr>) = abandon_throws d" "abandon_throws (d\<lparr>client := x4\<rparr>) = abandon_throws d"
  "abandon_throws (d\<lparr>admissionTimer := x5\<rparr>) = abandon_throws d" "abandon_throws (d\<lparr>connected := x6\<rparr>) = abandon_throws d"
  "abandon_throws (d\<lparr>healthyTimer := x7\<rparr>) = abandon_throws d" "abandon_throws (d\<lparr>watchdogTimer := x8\<rparr>) = abandon_throws d"
  "abandon_throws (d\<lparr>watched := x9\<rparr>) = abandon_throws d"
  "teardown d = None \<Longrightarrow> \<not> abandon_throws d"
  by (cases "teardown d"; simp add: abandon_throws_def)+

definition reconnect :: "reconnect_reason \<Rightarrow> ('y, 'r) driver \<Rightarrow> ('y, 'r) driver" where
  "reconnect why d =
     (if \<not> driving d then d
      else
        let d0 = d\<lparr>lastReconnect := Some why\<rparr>;
            d1 = abandon d0 in
        if abandon_throws d0 then d1
        else d1\<lparr>failures := failures d1 + 1, redialTimer := Some (backoff (failures d1 + 1))\<rparr>)"

definition settle :: "('y, 'r) driver \<Rightarrow> ('y, 'r) driver" where
  "settle d = (if \<not> driving d then d else if needsResync (client d) then reconnect ByResync d else d)"

text \<open>\<open>shutdown\<close> disposes of the client in a \<open>finally\<close>, whether or not the teardown threw.\<close>

definition shutdown :: "('y, 'r) driver \<Rightarrow> ('y, 'r) driver" where
  "shutdown d =
     (let d1 = abandon (d\<lparr>driving := False, sendableHook := False, redialTimer := None\<rparr>) in
      d1\<lparr>client := dispose (client d1)\<rparr>)"

definition in_flight_submission :: "'y client \<Rightarrow> nat option" where
  "in_flight_submission cl = (case connection cl of None \<Rightarrow> None | Some l \<Rightarrow> map_option fst (outstanding l))"

definition startWatchdog :: "('y, 'r) driver \<Rightarrow> ('y, 'r) driver" where
  "startWatchdog d = d\<lparr>watched := in_flight_submission (client d), watchdogTimer := True\<rparr>"

definition tick :: "('y, 'r) driver \<Rightarrow> ('y, 'r) driver" where
  "tick d =
     (if \<not> watchdogTimer d then d
      else
        let d1 = d\<lparr>watchdogTimer := False\<rparr> in
        if \<not> driving d1 \<or> \<not> connected d1 then d1
        else
          let submission = in_flight_submission (client d1) in
          if submission \<noteq> None \<and> submission = watched d1 then reconnect ByStall (d1\<lparr>watched := None\<rparr>)
          else d1\<lparr>watched := submission, watchdogTimer := True\<rparr>)"

section \<open>The host's callbacks\<close>

text \<open>
  What a host can call on the attempt it was handed. Bytes that are handed over can make the
  client send, and a peer that answers synchronously calls back before the handler returns: those
  calls are the list inside \<open>Received\<close>, run once the client has finished its part.
\<close>

datatype 'r host_call =
    Opened nat
  | Received bytes "'r host_call list"
  | Closed "'r option"

definition live :: "nat \<Rightarrow> ('y, 'r) driver \<Rightarrow> bool" where
  "live a d \<longleftrightarrow> driving d \<and> attempt d = a"

definition control_frame :: "bytes \<Rightarrow> frame option" where
  "control_frame bs = (if length bs = 1 then (case decodeFrame bs of Inr f \<Rightarrow> Some f | Inl _ \<Rightarrow> None) else None)"

definition retire_driver :: "('y, 'r) driver \<Rightarrow> ('y, 'r) driver" where
  "retire_driver d =
     (let d1 = shutdown (d\<lparr>retired := True, finished := True\<rparr>) in d1\<lparr>retirements := retirements d1 + 1\<rparr>)"

definition after_admission :: "nat \<Rightarrow> ('y, 'r) driver \<Rightarrow> ('y, 'r) driver" where
  "after_admission a d = (if \<not> live a d then d else settle (startWatchdog (d\<lparr>healthyTimer := True\<rparr>)))"

fun host_calls :: "'y live_yjs \<Rightarrow> nat \<Rightarrow> 'r host_call list \<Rightarrow> ('y, 'r) driver \<Rightarrow> ('y, 'r) driver" where
  "host_calls Y a [] d = d"
| "host_calls Y a (Opened s # hs) d =
     host_calls Y a hs
       (if \<not> live a d \<or> sockets d a \<noteq> None then d
        else d\<lparr>sockets := (sockets d)(a \<mapsto> s), refusal := None\<rparr>)"
| "host_calls Y a (Received bs inside # hs) d =
     host_calls Y a hs
       (if \<not> live a d then d
        else case control_frame bs of
               Some RetiredFrame \<Rightarrow> retire_driver d
             | Some AdmittedFrame \<Rightarrow>
                 (if connected d then d
                  else case sockets d a of
                         None \<Rightarrow> d
                       | Some s \<Rightarrow>
                           (case attach Y s (client d) of
                              (cl, Threw) \<Rightarrow> d\<lparr>admissionTimer := None, connected := True, client := cl\<rparr>
                            | (cl, _) \<Rightarrow> after_admission a
                                (host_calls Y a inside (d\<lparr>admissionTimer := None, connected := True, client := cl\<rparr>))))
             | _ \<Rightarrow>
                 (if \<not> connected d then d
                  else case client_receive Y bs (client d) of
                         (cl, Threw) \<Rightarrow> d\<lparr>client := cl\<rparr>
                       | (cl, _) \<Rightarrow> settle (host_calls Y a inside (d\<lparr>client := cl\<rparr>))))"
| "host_calls Y a (Closed why # hs) d =
     host_calls Y a hs
       (if \<not> live a d then d
        else reconnect (if why = None then ByClose else ByRefusal) (d\<lparr>refusal := why\<rparr>))"

text \<open>
  Dialling. The host may call back inside \<^verbatim>\<open>dial\<close>, before its teardown is returned; an attempt
  that ended there is torn down at once. A \<^verbatim>\<open>dial\<close> that throws returns no teardown, and nothing
  after it runs.
\<close>

definition open_attempt :: "'y live_yjs \<Rightarrow> 'r host_call list \<Rightarrow> bool \<Rightarrow> ('y, 'r) driver \<Rightarrow> ('y, 'r) driver" where
  "open_attempt Y inside threw d =
     (if \<not> driving d \<or> teardown d \<noteq> None then d
      else
        let a = attempt d + 1;
            d1 = d\<lparr>attempt := a, sockets := (sockets d)(a := None), admissionTimer := Some a,
                   dials := dials d @ [(a, position (client d))]\<rparr>;
            d2 = host_calls Y a inside d1;
            d3 = d2\<lparr>teardown := Some a\<rparr> in
        if threw then d2\<lparr>lostDials := lostDials d2 @ [a]\<rparr>
        else if attempt d3 \<noteq> a then d3\<lparr>teardown := None, tornDown := tornDown d3 @ [a]\<rparr> else d3)"

section \<open>The driver's verbs and timers\<close>

definition start :: "'y live_yjs \<Rightarrow> 'r host_call list \<Rightarrow> bool \<Rightarrow> ('y, 'r) driver \<Rightarrow> ('y, 'r) driver" where
  "start Y inside threw d =
     (if finished d \<or> driving d then d else open_attempt Y inside threw (d\<lparr>driving := True\<rparr>))"

definition redial_fires :: "'y live_yjs \<Rightarrow> 'r host_call list \<Rightarrow> bool \<Rightarrow> ('y, 'r) driver \<Rightarrow> ('y, 'r) driver" where
  "redial_fires Y inside threw d =
     (if redialTimer d = None then d else open_attempt Y inside threw (d\<lparr>redialTimer := None\<rparr>))"

definition admission_fires :: "('y, 'r) driver \<Rightarrow> ('y, 'r) driver" where
  "admission_fires d =
     (case admissionTimer d of
        None \<Rightarrow> d
      | Some a \<Rightarrow> let d1 = d\<lparr>admissionTimer := None\<rparr> in if live a d1 then reconnect ByAdmission d1 else d1)"

definition healthy_fires :: "('y, 'r) driver \<Rightarrow> ('y, 'r) driver" where
  "healthy_fires d = (if healthyTimer d then d\<lparr>healthyTimer := False, failures := 0\<rparr> else d)"

definition sendable_fires :: "('y, 'r) driver \<Rightarrow> ('y, 'r) driver" where
  "sendable_fires d = (if sendableHook d then d\<lparr>client := nudge (client d)\<rparr> else d)"

definition idle_fires :: "'y live_yjs \<Rightarrow> ('y, 'r) driver \<Rightarrow> ('y, 'r) driver" where
  "idle_fires Y d = d\<lparr>client := fst (idle_task Y (client d))\<rparr>"

definition driver_flush :: "'y live_yjs \<Rightarrow> ('y, 'r) driver \<Rightarrow> ('y, 'r) driver \<times> outcome" where
  "driver_flush Y d =
     (if finished d then (d, Done)
      else let (cl, r) = client_flush Y (client d) in (d\<lparr>client := cl\<rparr>, r))"

definition dispose_driver :: "('y, 'r) driver \<Rightarrow> ('y, 'r) driver" where
  "dispose_driver d = (if finished d then d else shutdown (d\<lparr>finished := True\<rparr>))"

text \<open>
  One event: a verb, a timer that fires, a callback of the host on an attempt it was handed, or the
  page writing to the store under the driver.
\<close>

inductive driver_step :: "'y live_yjs \<Rightarrow> ('y, 'r) driver \<Rightarrow> ('y, 'r) driver \<Rightarrow> bool" for Y where
  started: "driver_step Y d (start Y inside threw d)"
| called: "a \<in> set (map fst (dials d)) \<Longrightarrow> driver_step Y d (host_calls Y a hs d)"
| redialled: "driver_step Y d (redial_fires Y inside threw d)"
| timed_out: "driver_step Y d (admission_fires d)"
| healthy: "driver_step Y d (healthy_fires d)"
| ticked: "driver_step Y d (tick d)"
| nudged: "driver_step Y d (sendable_fires d)"
| idled: "driver_step Y d (idle_fires Y d)"
| flushed: "driver_step Y d (fst (driver_flush Y d))"
| stored: "usable e \<Longrightarrow> driver_step Y d (d\<lparr>client := (client d)\<lparr>engine := e\<rparr>\<rparr>)"
| disposed: "driver_step Y d (dispose_driver d)"

inductive driver_reachable :: "'y live_yjs \<Rightarrow> ('y, 'r) driver \<Rightarrow> bool" for Y where
  created: "createSyncClient [] e = Inr cl \<Longrightarrow> driver_reachable Y (createSyncConnection throws cl)"
| stepped: "driver_reachable Y d \<Longrightarrow> driver_step Y d d' \<Longrightarrow> driver_reachable Y d'"

section \<open>The client under the driver\<close>

text \<open>
  The driver's client sits on a usable store and nothing tears it down inside \<^verbatim>\<open>socket.send\<close>:
  sending and receiving leave the connection up, and only what they are about changes.
\<close>

definition serene :: "'y client \<Rightarrow> bool" where
  "serene c \<longleftrightarrow> usable (engine c) \<and> reactions c = []"

definition same_link :: "'y client \<Rightarrow> 'y client \<Rightarrow> bool" where
  "same_link c c' \<longleftrightarrow> serene c' \<and> cdisposed c' = cdisposed c \<and> (connection c' = None \<longleftrightarrow> connection c = None)"

lemma same_link_trans: "same_link c c' \<Longrightarrow> same_link c' c'' \<Longrightarrow> same_link c c''"
  by (simp add: same_link_def)

lemma socket_send_serene: "serene c \<Longrightarrow> same_link c (socket_send s bs c) \<and> connection (socket_send s bs c) = connection c"
  by (simp add: socket_send_def serene_def same_link_def)

lemma send_payload_serene: "serene c \<Longrightarrow> same_link c (send_payload l mk i cs c)"
proof (induction l mk i cs c rule: send_payload.induct)
  case (2 l mk i b cs c)
  have s: "same_link c (socket_send (socket l) (encodeFrame (mk i b)) c)" using socket_send_serene [OF 2(2)] by blast
  then have "serene (socket_send (socket l) (encodeFrame (mk i b)) c)" by (simp add: same_link_def)
  with 2 s show ?case by (auto simp: same_link_def simp del: encodeFrame.simps)
qed (simp add: same_link_def)

lemma send_serene: "serene c \<Longrightarrow> same_link c (fst (send Y c)) \<and> snd (send Y c) \<noteq> Threw"
proof (cases "\<exists>l e entry. connection c = Some l \<and> outstanding l = None \<and> engine_coalesce Y (engine c) = Inr (e, Some entry)")
  case True
  assume c: "serene c"
  from True obtain l e entry where l: "connection c = Some l" "outstanding l = None" "engine_coalesce Y (engine c) = Inr (e, Some entry)" by blast
  let ?c = "c\<lparr>engine := e, owedBytes := length (obytes entry), nextSubmission := nextSubmission c + 1,
                              connection := Some (l\<lparr>outstanding := Some (nextSubmission c, oid entry)\<rparr>)\<rparr>"
  have "serene ?c" using c engine_coalesce_frame [OF l(3)] by (simp add: serene_def)
  from send_payload_serene [OF this] l show ?thesis by (simp add: send_def Let_def same_link_def)
next
  case False
  assume "serene c"
  with False show ?thesis
    by (auto simp: send_def serene_def same_link_def engine_coalesce_def coalesce_def Let_def split: option.splits sum.splits prod.splits if_splits)
qed

lemma receive_serene:
  assumes "serene c" shows "same_link c (fst (client_receive Y m c))"
proof -
  have refl: "same_link c c" using assms by (simp add: same_link_def)
  have take: "serene c \<Longrightarrow> same_link c (fst (take_remote Y seq bs c))" for seq bs and c :: "'a client"
    by (auto simp: take_remote_def applyRemote_def same_link_def serene_def split: option.split)
  have data: "(\<And>bs c. serene c \<Longrightarrow> same_link c (fst (whole bs c))) \<Longrightarrow> same_link c (fst (receive_data f whole c))" for f whole
  proof -
    assume w: "\<And>bs c. serene c \<Longrightarrow> same_link c (fst (whole bs c))"
    have k: "serene (c\<lparr>inbound := k\<rparr>)" for k using assms by (simp add: serene_def)
    have "same_link c (fst (whole bs (c\<lparr>inbound := k\<rparr>)))" for k bs using w [OF k, of k bs] by (simp add: same_link_def)
    then show ?thesis using assms
      by (auto simp: receive_data_def brokenStream_def same_link_def serene_def split: prod.split sum.split option.split)
  qed
  have entry: "serene c \<Longrightarrow> same_link c (fst (apply_entry Y seq bs c))" for seq bs and c :: "'a client"
    using take by (auto simp: apply_entry_def gap_def same_link_def serene_def)
  have snap: "serene c \<Longrightarrow> same_link c (fst (adopt Y p bs c))" for p bs and c :: "'a client"
    using take by (auto simp: adopt_def same_link_def serene_def)
  have offer: "same_link c (fst (offerSnapshot Y p c))" for p
    by (auto simp: offerSnapshot_def refl send_payload_serene [OF assms] Let_def split: option.split sum.split bool.split)
  have ack: "same_link c (fst (receive_ack Y n seq c))" for n seq
  proof (cases "\<exists>l i e. connection c = Some l \<and> outstanding l = Some (n, i) \<and> seq = position c + 1
      \<and> engine_acknowledge i seq (engine c) = Inr e")
    case True
    then obtain l i e where l: "connection c = Some l" "outstanding l = Some (n, i)" "seq = position c + 1"
      "engine_acknowledge i seq (engine c) = Inr e" by blast
    let ?c = "c\<lparr>position := seq, engine := e, connection := Some (l\<lparr>outstanding := None\<rparr>), owedBytes := 0\<rparr>"
    have "serene ?c" using assms l(4) by (auto simp: serene_def engine_acknowledge_def split: if_splits)
    from send_serene [OF this, of Y] have "same_link ?c (fst (send Y ?c))" by blast
    with l show ?thesis by (auto simp: receive_ack_def Let_def same_link_def)
  next
    case False
    then show ?thesis using assms
      by (auto simp: receive_ack_def gap_def same_link_def serene_def Let_def engine_acknowledge_def split: option.split sum.split prod.split)
  qed
  have refuse: "same_link c (fst (receive_refuse n why c))" for n why
    using assms by (auto simp: receive_refuse_def same_link_def serene_def split: option.split prod.split)
  show ?thesis
    by (auto simp: client_receive_def refl ack refuse offer data entry snap split: sum.split frame.split)
qed

lemma receive_returns:
  assumes "serene c" shows "snd (client_receive Y m c) \<noteq> Threw"
proof -
  have take: "serene c \<Longrightarrow> snd (take_remote Y seq bs c) \<noteq> Threw" for seq bs and c :: "'a client"
    by (simp add: take_remote_def applyRemote_def serene_def split: option.split)
  have data: "snd (receive_data f whole c) \<noteq> Threw" if "\<And>bs c. serene c \<Longrightarrow> snd (whole bs c) \<noteq> Threw" for f whole
    using assms that by (simp add: receive_data_def brokenStream_def serene_def split: prod.split sum.split option.split)
  have entry: "serene c \<Longrightarrow> snd (apply_entry Y seq bs c) \<noteq> Threw" for seq bs and c :: "'a client"
    using take by (simp add: apply_entry_def gap_def)
  have snap: "serene c \<Longrightarrow> snd (adopt Y p bs c) \<noteq> Threw" for p bs and c :: "'a client"
    using take by (simp add: adopt_def)
  have offer: "snd (offerSnapshot Y p c) \<noteq> Threw" for p
    using assms by (simp add: offerSnapshot_def serene_def hasUnresolvedDependencies_def Let_def split: option.split sum.split bool.split)
  have ack: "snd (receive_ack Y n seq c) \<noteq> Threw" for n seq
  proof (cases "\<exists>l i e. connection c = Some l \<and> outstanding l = Some (n, i) \<and> seq = position c + 1
      \<and> engine_acknowledge i seq (engine c) = Inr e")
    case True
    then obtain l i e where l: "connection c = Some l" "outstanding l = Some (n, i)" "seq = position c + 1"
      "engine_acknowledge i seq (engine c) = Inr e" by blast
    have "serene (c\<lparr>position := seq, engine := e, connection := Some (l\<lparr>outstanding := None\<rparr>), owedBytes := 0\<rparr>)"
      using assms l(4) by (auto simp: serene_def engine_acknowledge_def split: if_splits)
    from send_serene [OF this, of Y] l show ?thesis
      by (auto simp: receive_ack_def Let_def split: prod.split outcome.split)
  next
    case False
    then show ?thesis using assms
      by (auto simp: receive_ack_def gap_def serene_def Let_def engine_acknowledge_def split: option.split sum.split prod.split)
  qed
  have refuse: "snd (receive_refuse n why c) \<noteq> Threw" for n why
    by (simp add: receive_refuse_def split: option.split prod.split)
  show ?thesis
    by (simp add: client_receive_def ack refuse offer data entry snap split: sum.split frame.split)
qed

lemma attach_serene:
  assumes "serene c" shows "serene (fst (attach Y s c))" "connection (fst (attach Y s c)) \<noteq> None"
    "cdisposed (fst (attach Y s c)) = cdisposed c" "\<not> needsResync (fst (attach Y s c))" "snd (attach Y s c) = Done"
proof -
  let ?c = "c\<lparr>connection := Some \<lparr>identity = nextIdentity c, socket = s, outstanding = None\<rparr>, nextIdentity := nextIdentity c + 1,
               inbound := createChunkCollector CLIENT_BUFFER_CEILING_BYTES, needsResync := False\<rparr>"
  have "serene ?c" using assms by (simp add: serene_def)
  from send_serene [OF this, of Y] show "serene (fst (attach Y s c))" "connection (fst (attach Y s c)) \<noteq> None"
    "cdisposed (fst (attach Y s c)) = cdisposed c" "\<not> needsResync (fst (attach Y s c))" "snd (attach Y s c) = Done"
    by (auto simp: attach_def same_link_def split: prod.splits outcome.splits)
qed

lemma detach_serene: "serene c \<Longrightarrow> serene (detach c)" "cdisposed (detach c) = cdisposed c"
  by (simp_all add: serene_def detach_def clearIdle_def)

lemma dispose_serene: "serene c \<Longrightarrow> serene (dispose c)" "cdisposed (dispose c)"
  by (simp_all add: serene_def dispose_def clearIdle_def)

section \<open>What every callback preserves\<close>

text \<open>
  A list of callbacks is a run of a few primitive moves of the driver; a predicate that each of
  them keeps is kept by the list, synchronous replies included.
\<close>

lemma host_calls_keep:
  assumes "P d"
    and opened: "\<And>d s. P d \<Longrightarrow> live a d \<Longrightarrow> P (d\<lparr>sockets := (sockets d)(a \<mapsto> s), refusal := None\<rparr>)"
    and retire: "\<And>d. P d \<Longrightarrow> live a d \<Longrightarrow> P (retire_driver d)"
    and admit: "\<And>d s. P d \<Longrightarrow> live a d \<Longrightarrow> \<not> connected d \<Longrightarrow>
      P (d\<lparr>admissionTimer := None, connected := True, client := fst (attach Y s (client d))\<rparr>)"
    and arm: "\<And>d d0. P d \<Longrightarrow> live a d \<Longrightarrow> P d0 \<Longrightarrow> live a d0 \<Longrightarrow> \<not> connected d0 \<Longrightarrow>
      P (startWatchdog (d\<lparr>healthyTimer := True\<rparr>))"
    and deliver: "\<And>d bs. P d \<Longrightarrow> live a d \<Longrightarrow> connected d \<Longrightarrow> P (d\<lparr>client := fst (client_receive Y bs (client d))\<rparr>)"
    and closed: "\<And>d r. P d \<Longrightarrow> live a d \<Longrightarrow> P (d\<lparr>refusal := r\<rparr>)"
    and again: "\<And>d why. P d \<Longrightarrow> P (reconnect why d)"
  shows "P (host_calls Y a hs d)"
proof -
  have settle: "P (settle d)" if "P d" for d using that again by (simp add: settle_def)
  have after: "P (after_admission a d)" if "P d0" "live a d0" "\<not> connected d0" "P d" for d d0
    using that arm settle by (simp add: after_admission_def)
  show ?thesis using assms(1)
  proof (induction hs arbitrary: d rule: measure_induct_rule [of "size_list size"])
    case (less hs)
    show ?case
    proof (cases hs)
      case Nil
      with less.prems show ?thesis by simp
    next
      case (Cons h rest)
      have rest: "P (host_calls Y a rest d')" if "P d'" for d' by (rule less.IH) (simp_all add: Cons that)
      show ?thesis
      proof (cases h)
        case (Opened s)
        show ?thesis unfolding Cons Opened host_calls.simps by (rule rest) (use less.prems opened in auto)
      next
        case (Received bs inside)
        have inner: "P (host_calls Y a inside d')" if "P d'" for d' by (rule less.IH) (simp_all add: Cons Received that)
        have admitted: "P (case attach Y s (client d) of
              (cl, Threw) \<Rightarrow> d\<lparr>admissionTimer := None, connected := True, client := cl\<rparr>
            | (cl, _) \<Rightarrow> after_admission a
                (host_calls Y a inside (d\<lparr>admissionTimer := None, connected := True, client := cl\<rparr>)))"
          if "live a d" "\<not> connected d" for s
          using admit [OF less.prems that, of s] after [OF less.prems that] inner by (auto split: prod.split outcome.split)
        have data: "P (case client_receive Y bs (client d) of
                         (cl, Threw) \<Rightarrow> d\<lparr>client := cl\<rparr>
                       | (cl, _) \<Rightarrow> settle (host_calls Y a inside (d\<lparr>client := cl\<rparr>)))" if "live a d" "connected d"
          using deliver [OF less.prems that, of bs] settle inner by (auto split: prod.split outcome.split)
        show ?thesis unfolding Cons Received host_calls.simps
          by (rule rest) (use less.prems retire admitted data in \<open>simp split: option.split frame.split\<close>)
      next
        case (Closed why)
        show ?thesis unfolding Cons Closed host_calls.simps
          by (rule rest) (use less.prems closed again in auto)
      qed
    qed
  qed
qed

definition opt_list :: "'a option \<Rightarrow> 'a list" where
  "opt_list x = (case x of None \<Rightarrow> [] | Some a \<Rightarrow> [a])"

lemma opt_list_simps [simp]: "opt_list None = []" "opt_list (Some a) = [a]"
  by (simp_all add: opt_list_def)

lemma abandon_simps [simp]:
  "driving (abandon d) = driving d" "finished (abandon d) = finished d" "retired (abandon d) = retired d"
  "attempt (abandon d) = attempt d + 1" "connected (abandon d) = False" "teardown (abandon d) = None"
  "admissionTimer (abandon d) = None" "watchdogTimer (abandon d) = False" "redialTimer (abandon d) = redialTimer d"
  "client (abandon d) = detach (client d)" "dials (abandon d) = dials d" "retirements (abandon d) = retirements d"
  "sendableHook (abandon d) = sendableHook d" "failures (abandon d) = failures d" "sockets (abandon d) = sockets d"
  "tornDown (abandon d) = tornDown d @ opt_list (teardown d)"
  "watched (abandon d) = None" "lastReconnect (abandon d) = lastReconnect d" "refusal (abandon d) = refusal d"
  "brittle (abandon d) = brittle d" "lostDials (abandon d) = lostDials d"
  by (simp_all add: abandon_def cancelTimers_def opt_list_def Let_def split: option.split)

lemma stale_calls: "\<not> live a d \<Longrightarrow> host_calls Y a hs d = d"
  by (induction Y a hs d rule: host_calls.induct) simp_all

text \<open>Callbacks of a connected attempt leave it connected or end it; they never open another.\<close>

lemma calls_end_or_stay:
  assumes "live a d \<longleftrightarrow> connected d" "a \<le> attempt d"
  shows "(live a (host_calls Y a hs d) \<longleftrightarrow> connected (host_calls Y a hs d)) \<and> a \<le> attempt (host_calls Y a hs d)"
  by (rule host_calls_keep [of "\<lambda>d. (live a d \<longleftrightarrow> connected d) \<and> a \<le> attempt d"])
    (use assms in \<open>auto simp: live_def retire_driver_def shutdown_def startWatchdog_def reconnect_def Let_def\<close>)

section \<open>The invariant\<close>

text \<open>
  \<open>p\<close> is the attempt whose \<^verbatim>\<open>dial\<close> has not returned yet. Of a running driver there is always
  something that will happen: a socket in admission, a connected socket, or a redial.
\<close>

definition held :: "nat option \<Rightarrow> ('y, 'r) driver \<Rightarrow> bool" where
  "held p d \<longleftrightarrow> teardown d \<noteq> None \<or> p = Some (attempt d) \<or> attempt d \<in> set (lostDials d)"

definition ledger :: "nat option \<Rightarrow> nat \<Rightarrow> nat option \<Rightarrow> nat list \<Rightarrow> nat list \<Rightarrow> nat list \<Rightarrow> bool" where
  "ledger p now t torn lost dialled \<longleftrightarrow>
     (p \<noteq> None \<longrightarrow> t = None) \<and> (\<forall>a\<in>set_option p. a \<le> now) \<and> (\<forall>a\<in>set_option t. a = now)
     \<and> filter (\<lambda>a. a \<notin> set lost) dialled = torn @ opt_list t @ opt_list p
     \<and> sorted_wrt (<) dialled \<and> (\<forall>a\<in>set dialled. a \<le> now) \<and> set lost \<subseteq> set dialled
     \<and> (\<forall>a\<in>set torn. a < now)"

lemma ledger_abandon: "ledger p now t torn lost dialled \<Longrightarrow> ledger p (Suc now) None (torn @ opt_list t) lost dialled"
  by (cases t) (auto simp: ledger_def le_SucI less_Suc_eq_le)

lemma ledger_lost: "ledger p now t torn lost dialled \<Longrightarrow> a \<in> set lost \<Longrightarrow> a \<le> now"
  unfolding ledger_def by blast

lemma ledger_dial:
  assumes "ledger None now None torn lost dialled"
  shows "ledger (Some (Suc now)) (Suc now) None torn lost (dialled @ [Suc now])"
proof -
  have "Suc now \<notin> set lost" using ledger_lost [OF assms, of "Suc now"] by auto
  with assms show ?thesis by (auto simp: ledger_def sorted_wrt_append le_SucI less_Suc_eq_le)
qed

lemma ledger_returns:
  "ledger (Some a) a None torn lost dialled \<Longrightarrow> ledger None a (Some a) torn lost dialled"
  "ledger (Some a) now None torn lost dialled \<Longrightarrow> now \<noteq> a \<Longrightarrow> ledger None now None (torn @ [a]) lost dialled"
  by (auto simp: ledger_def)

lemma ledger_threw:
  assumes "ledger (Some a) now None torn lost dialled"
  shows "ledger None now None torn (lost @ [a]) dialled"
proof -
  have split: "filter (\<lambda>b. b \<notin> set lost) dialled = torn @ [a]" and sorted: "sorted_wrt (<) dialled"
    using assms by (simp_all add: ledger_def)
  from sorted have "sorted_wrt (<) (torn @ [a])" unfolding split [symmetric] by (rule sorted_wrt_filter)
  then have "a \<notin> set torn" by (auto simp: sorted_wrt_append)
  then have "filter (\<lambda>b. b \<noteq> a) (torn @ [a]) = torn" by (simp add: filter_id_conv) (metis)
  then have "filter (\<lambda>b. b \<notin> set (lost @ [a])) dialled = torn" unfolding split [symmetric] by (simp add: conj_commute)
  moreover have "a \<in> set dialled" using arg_cong [OF split, of set] by auto
  ultimately show ?thesis using assms by (simp add: ledger_def)
qed

definition core_ok :: "nat option \<Rightarrow> ('y, 'r) driver \<Rightarrow> bool" where
  "core_ok p d \<longleftrightarrow>
     serene (client d) \<and> cdisposed (client d) = finished d \<and> sendableHook d = (\<not> finished d)
     \<and> (connected d \<longleftrightarrow> connection (client d) \<noteq> None) \<and> (connected d \<longrightarrow> driving d)
     \<and> (driving d \<longrightarrow> \<not> finished d \<and> \<not> retired d) \<and> (retired d \<longrightarrow> finished d) \<and> retirements d = (if retired d then 1 else 0)
     \<and> (\<not> driving d \<longrightarrow> redialTimer d = None \<and> admissionTimer d = None \<and> teardown d = None)
     \<and> (\<forall>a\<in>set_option (admissionTimer d). a = attempt d)
     \<and> ledger p (attempt d) (teardown d) (tornDown d) (lostDials d) (map fst (dials d))"

definition last_threw :: "('y, 'r) driver \<Rightarrow> bool" where
  "last_threw d \<longleftrightarrow> tornDown d \<noteq> [] \<and> brittle d (last (tornDown d))"

definition parked_ok :: "nat option \<Rightarrow> ('y, 'r) driver \<Rightarrow> bool" where
  "parked_ok p d \<longleftrightarrow> (driving d \<longrightarrow>
     (if held p d then redialTimer d = None \<and> (connected d \<longleftrightarrow> admissionTimer d = None)
      else (redialTimer d \<noteq> None \<or> p = None \<and> last_threw d) \<and> \<not> connected d \<and> admissionTimer d = None))"

definition driver_ok :: "nat option \<Rightarrow> ('y, 'r) driver \<Rightarrow> bool" where
  "driver_ok p d \<longleftrightarrow> core_ok p d \<and> parked_ok p d"

lemma abandon_core: "core_ok p d \<Longrightarrow> core_ok p (abandon d)"
  by (simp add: core_ok_def detach_serene ledger_abandon)

lemma ledger_pending: "ledger (Some a) now t torn lost dialled \<Longrightarrow> a \<le> now \<and> t = None"
  by (simp add: ledger_def)

lemma ledger_rest:
  "ledger None now t torn lost dialled \<Longrightarrow>
   sorted_wrt (<) dialled \<and> filter (\<lambda>a. a \<notin> set lost) dialled = torn @ opt_list t \<and> set lost \<subseteq> set dialled"
  by (auto simp: ledger_def)

lemma ledger_live:
  assumes "ledger p now t torn lost dialled" "now \<in> set dialled"
  shows "t \<noteq> None \<or> p = Some now \<or> now \<in> set lost"
proof (rule ccontr)
  assume no: "\<not> ?thesis"
  with assms(2) have "now \<in> set (filter (\<lambda>a. a \<notin> set lost) dialled)" by simp
  with assms(1) no have "now \<in> set torn" by (auto simp: ledger_def opt_list_def split: option.splits)
  with assms(1) show False by (auto simp: ledger_def)
qed

lemma ledger_set: "ledger p now t torn lost dialled \<Longrightarrow>
    {a \<in> set dialled. a \<notin> set lost} = set torn \<union> set_option t \<union> set_option p"
  unfolding ledger_def by (cases t; cases p) (auto dest!: arg_cong [of _ _ set])

lemma ledger_kept: "ledger (Some a) now t torn lost dialled \<Longrightarrow> a \<notin> set lost"
  using ledger_set [of "Some a" now t torn lost dialled] by auto

lemma ledger_held: "ledger p now t torn lost dialled \<Longrightarrow> t = Some now \<or> now \<in> set lost \<Longrightarrow> now \<in> set dialled"
  using ledger_set [of p now t torn lost dialled] by (auto simp: ledger_def)

lemma ledger_new: "ledger p now t torn lost dialled \<Longrightarrow> now < n \<Longrightarrow> n \<notin> set lost"
  using ledger_lost [of p now t torn lost dialled n] by auto

text \<open>Fields the invariant does not read, or reads only of a driver at rest.\<close>

lemma ok_updates [simp]:
  "core_ok p (d\<lparr>lastReconnect := x1\<rparr>) = core_ok p d" "parked_ok p (d\<lparr>lastReconnect := x1\<rparr>) = parked_ok p d"
  "core_ok p (d\<lparr>refusal := x2\<rparr>) = core_ok p d" "parked_ok p (d\<lparr>refusal := x2\<rparr>) = parked_ok p d"
  "core_ok p (d\<lparr>sockets := x3\<rparr>) = core_ok p d" "parked_ok p (d\<lparr>sockets := x3\<rparr>) = parked_ok p d"
  "core_ok p (d\<lparr>healthyTimer := x4\<rparr>) = core_ok p d" "parked_ok p (d\<lparr>healthyTimer := x4\<rparr>) = parked_ok p d"
  "core_ok p (d\<lparr>watchdogTimer := x5\<rparr>) = core_ok p d" "parked_ok p (d\<lparr>watchdogTimer := x5\<rparr>) = parked_ok p d"
  "core_ok p (d\<lparr>watched := x6\<rparr>) = core_ok p d" "parked_ok p (d\<lparr>watched := x6\<rparr>) = parked_ok p d"
  "core_ok p (d\<lparr>failures := x7\<rparr>) = core_ok p d" "parked_ok p (d\<lparr>failures := x7\<rparr>) = parked_ok p d"
  "driving d \<Longrightarrow> core_ok p (d\<lparr>redialTimer := x8\<rparr>) = core_ok p d"
  by (simp_all add: core_ok_def parked_ok_def held_def last_threw_def)

lemma core_ok_client:
  "core_ok p d \<Longrightarrow> same_link (client d) c \<Longrightarrow> core_ok p (d\<lparr>client := c\<rparr>)"
  by (simp add: core_ok_def same_link_def)

lemma parked_ok_client [simp]: "parked_ok p (d\<lparr>client := c\<rparr>) = parked_ok p d"
  by (simp add: parked_ok_def held_def last_threw_def)

lemma core_serene: "core_ok p d \<Longrightarrow> serene (client d)"
  by (simp add: core_ok_def)

lemma driver_serene: "driver_ok p d \<Longrightarrow> serene (client d)"
  unfolding driver_ok_def by (blast intro: core_serene)

lemma core_ledger: "core_ok p d \<Longrightarrow> ledger p (attempt d) (teardown d) (tornDown d) (lostDials d) (map fst (dials d))"
  by (simp add: core_ok_def)

lemma reconnect_fields:
  "driving d \<Longrightarrow> driving (reconnect why d) \<and> \<not> connected (reconnect why d) \<and> teardown (reconnect why d) = None
     \<and> admissionTimer (reconnect why d) = None \<and> attempt (reconnect why d) = Suc (attempt d)
     \<and> lostDials (reconnect why d) = lostDials d
     \<and> (redialTimer (reconnect why d) \<noteq> None \<or> teardown d \<noteq> None \<and> last_threw (reconnect why d))"
  by (cases "teardown d") (simp_all add: reconnect_def Let_def abandon_throws_def last_threw_def)

lemma reconnect_core: "core_ok p d \<Longrightarrow> core_ok p (reconnect why d)"
  using abandon_core [of p "d\<lparr>lastReconnect := Some why\<rparr>"] by (simp add: reconnect_def Let_def)

lemma reconnect_ok:
  assumes "core_ok p d" "driving d" shows "driver_ok p (reconnect why d)"
proof -
  note l = core_ledger [OF assms(1)]
  have "p \<noteq> Some (Suc (attempt d))" using l ledger_pending by fastforce
  moreover have "Suc (attempt d) \<notin> set (lostDials d)" by (rule ledger_new [OF l]) simp
  moreover have "p = None \<or> teardown d = None" using l by (auto simp: ledger_def)
  ultimately show ?thesis using reconnect_core [OF assms(1), of why] reconnect_fields [OF assms(2), of why]
    by (auto simp: driver_ok_def parked_ok_def held_def)
qed

lemma driver_ok_reconnect: "driver_ok p d \<Longrightarrow> driver_ok p (reconnect why d)"
  by (cases "driving d") (auto simp: driver_ok_def dest: reconnect_ok [of p d why], simp_all add: reconnect_def)

lemma shutdown_ok: "core_ok p d \<Longrightarrow> driver_ok p (shutdown (d\<lparr>finished := True\<rparr>))"
  by (simp add: core_ok_def driver_ok_def parked_ok_def shutdown_def Let_def detach_serene dispose_serene ledger_abandon)

lemma retire_ok: "core_ok p d \<Longrightarrow> driving d \<Longrightarrow> driver_ok p (retire_driver d) \<and> dials (retire_driver d) = dials d"
proof -
  assume d: "core_ok p d" "driving d"
  then have "\<not> retired d" by (auto simp: core_ok_def)
  with d show ?thesis
    by (simp add: core_ok_def driver_ok_def parked_ok_def retire_driver_def shutdown_def Let_def detach_serene dispose_serene ledger_abandon)
qed

lemma core_admit:
  "core_ok p d \<Longrightarrow> driving d \<Longrightarrow> serene c \<Longrightarrow> cdisposed c = cdisposed (client d) \<Longrightarrow> connection c \<noteq> None \<Longrightarrow>
   core_ok p (d\<lparr>admissionTimer := None, connected := True, client := c\<rparr>)"
  by (simp add: core_ok_def)

lemma core_returns:
  "core_ok (Some a) d \<Longrightarrow> teardown d = None \<Longrightarrow> attempt d = a \<Longrightarrow> driving d \<Longrightarrow> core_ok None (d\<lparr>teardown := Some a\<rparr>)"
  "core_ok (Some a) d \<Longrightarrow> teardown d = None \<Longrightarrow> attempt d \<noteq> a \<Longrightarrow> core_ok None (d\<lparr>teardown := None, tornDown := tornDown d @ [a]\<rparr>)"
  by (auto simp: core_ok_def ledger_returns)

lemma calls_ok:
  assumes "driver_ok p d" and "a \<in> set (map fst (dials d))"
  shows "driver_ok p (host_calls Y a hs d) \<and> dials (host_calls Y a hs d) = dials d"
proof (rule host_calls_keep [of "\<lambda>d'. driver_ok p d' \<and> dials d' = dials d"], goal_cases)
  case 1 show ?case using assms by simp
next
  case (2 d s) then show ?case by (simp add: driver_ok_def)
next
  case (3 d) then show ?case using retire_ok [of p d] by (simp add: driver_ok_def live_def)
next
  case (4 d' s)
  then have "core_ok p d'" by (simp add: driver_ok_def)
  from ledger_live [OF core_ledger [OF this]] have "held p d'" using assms(2) 4 by (simp add: held_def live_def)
  moreover have "core_ok p (d'\<lparr>admissionTimer := None, connected := True, client := fst (attach Y s (client d'))\<rparr>)"
    using 4 attach_serene [of "client d'" Y s] by (intro core_admit) (auto simp: driver_ok_def live_def core_serene)
  ultimately show ?case using 4 by (simp add: driver_ok_def parked_ok_def held_def)
next
  case (5 d) then show ?case by (simp add: driver_ok_def startWatchdog_def)
next
  case (6 d' bs)
  then have "core_ok p (d'\<lparr>client := fst (client_receive Y bs (client d'))\<rparr>)"
    by (intro core_ok_client receive_serene) (auto simp: driver_ok_def core_serene)
  with 6 show ?case by (simp add: driver_ok_def)
next
  case (7 d r) then show ?case by (simp add: driver_ok_def)
next
  case (8 d why) then show ?case by (simp add: driver_ok_reconnect) (simp add: reconnect_def Let_def)
qed

lemma core_threw:
  assumes "core_ok (Some a) d" shows "core_ok None (d\<lparr>lostDials := lostDials d @ [a]\<rparr>)"
proof -
  note l = core_ledger [OF assms]
  have t: "teardown d = None" using ledger_pending [OF l] by simp
  have "ledger None (attempt d) (teardown d) (tornDown d) (lostDials d @ [a]) (map fst (dials d))"
    unfolding t by (rule ledger_threw [OF l [unfolded t]])
  with assms show ?thesis unfolding core_ok_def by simp
qed

lemma open_ok:
  assumes "core_ok None d" "driving d" "teardown d = None" "redialTimer d = None" "\<not> connected d"
  shows "driver_ok None (open_attempt Y inside threw d)"
proof -
  let ?a = "Suc (attempt d)"
  let ?d1 = "d\<lparr>attempt := ?a, sockets := (sockets d)(?a := None), admissionTimer := Some ?a,
                   dials := dials d @ [(?a, position (client d))]\<rparr>"
  let ?d2 = "host_calls Y ?a inside ?d1"
  have "core_ok (Some ?a) ?d1" using assms by (simp add: core_ok_def ledger_dial)
  moreover have "parked_ok (Some ?a) ?d1" using assms by (simp add: parked_ok_def held_def)
  ultimately have "driver_ok (Some ?a) ?d1" by (simp add: driver_ok_def)
  from calls_ok [OF this, of ?a Y inside] have d2: "core_ok (Some ?a) ?d2" "parked_ok (Some ?a) ?d2"
    and dials: "map fst (dials ?d2) = map fst (dials d) @ [?a]" by (simp_all add: driver_ok_def)
  note l = core_ledger [OF d2(1)]
  have t: "teardown ?d2 = None" using ledger_pending [OF l] by simp
  have ge: "(attempt ?d2 = ?a \<longrightarrow> driving ?d2) \<and> ?a \<le> attempt ?d2"
    by (rule host_calls_keep [of "\<lambda>d'. (attempt d' = ?a \<longrightarrow> driving d') \<and> ?a \<le> attempt d'"])
      (use assms in \<open>auto simp: retire_driver_def shutdown_def startWatchdog_def reconnect_def Let_def\<close>)
  have fresh: "attempt ?d2 \<noteq> ?a \<Longrightarrow> attempt ?d2 \<notin> set (lostDials ?d2)"
  proof -
    assume "attempt ?d2 \<noteq> ?a"
    with ge have "?a < attempt ?d2" by simp
    moreover have "\<forall>b\<in>set (map fst (dials ?d2)). b \<le> ?a"
      using core_ledger [OF assms(1)] unfolding dials by (auto simp: ledger_def)
    moreover have "set (lostDials ?d2) \<subseteq> set (map fst (dials ?d2))" using l unfolding ledger_def by blast
    ultimately show "attempt ?d2 \<notin> set (lostDials ?d2)" by fastforce
  qed
  have lost: "?a \<notin> set (lostDials ?d2)" using l by (rule ledger_kept)
  show ?thesis
  proof (cases threw)
    case True
    have "parked_ok None (?d2\<lparr>lostDials := lostDials ?d2 @ [?a]\<rparr>)"
      using d2(2) t fresh lost by (auto simp: parked_ok_def held_def last_threw_def)
    with core_threw [OF d2(1)] True assms(2,3) show ?thesis by (simp add: open_attempt_def Let_def driver_ok_def)
  next
    case returned: False
    show ?thesis
    proof (cases "attempt ?d2 = ?a")
      case True
      then have "driving ?d2" using ge by simp
      with core_returns(1) [OF d2(1) t True] d2(2) True assms(2,3) returned show ?thesis
        by (simp add: open_attempt_def Let_def driver_ok_def parked_ok_def held_def)
    next
      case False
      with core_returns(2) [OF d2(1) t False] d2(2) t assms(2,3) returned fresh show ?thesis
        by (auto simp: open_attempt_def Let_def driver_ok_def parked_ok_def held_def)
    qed
  qed
qed

text \<open>The watchdog of a connected driver is armed and no gap is waiting to be noticed.\<close>

definition tended :: "('y, 'r) driver \<Rightarrow> bool" where
  "tended d \<longleftrightarrow> (connected d \<longrightarrow> watchdogTimer d \<and> \<not> needsResync (client d))"

lemma tended_settle: "connected d \<longrightarrow> driving d \<and> watchdogTimer d \<Longrightarrow> tended (settle d)"
  by (auto simp: tended_def settle_def reconnect_def Let_def)

definition sane :: "('y, 'r) driver \<Rightarrow> bool" where
  "sane d \<longleftrightarrow> serene (client d) \<and> (connected d \<longrightarrow> driving d)"

lemma receive_keeps_serene: "serene c \<Longrightarrow> serene (fst (client_receive Y m c))"
  using receive_serene [of c Y m] by (simp add: same_link_def)

lemma sane_calls: "sane d \<Longrightarrow> sane (host_calls Y a hs d)"
  by (rule host_calls_keep [of sane])
    (use attach_serene(1) receive_keeps_serene in
      \<open>auto simp: sane_def live_def retire_driver_def shutdown_def startWatchdog_def reconnect_def Let_def detach_serene dispose_serene same_link_def\<close>)

lemma watched_calls:
  assumes "live a d \<longleftrightarrow> connected d" "a \<le> attempt d" "connected d \<longrightarrow> watchdogTimer d"
  shows "connected (host_calls Y a hs d) \<longrightarrow> watchdogTimer (host_calls Y a hs d)"
proof -
  have "((live a (host_calls Y a hs d) \<longleftrightarrow> connected (host_calls Y a hs d)) \<and> a \<le> attempt (host_calls Y a hs d))
    \<and> (connected (host_calls Y a hs d) \<longrightarrow> watchdogTimer (host_calls Y a hs d))"
    by (rule host_calls_keep [of "\<lambda>d. ((live a d \<longleftrightarrow> connected d) \<and> a \<le> attempt d) \<and> (connected d \<longrightarrow> watchdogTimer d)"])
      (use assms in \<open>auto simp: live_def retire_driver_def shutdown_def startWatchdog_def reconnect_def Let_def\<close>)
  then show ?thesis by blast
qed

text \<open>On a usable store the driver never sees the client throw.\<close>

lemma received_eq:
  assumes "live a d" and "serene (client d)"
  shows "host_calls Y a [Received bs inside] d =
    (case control_frame bs of
       Some RetiredFrame \<Rightarrow> retire_driver d
     | Some AdmittedFrame \<Rightarrow>
         (if connected d then d
          else case sockets d a of
                 None \<Rightarrow> d
               | Some s \<Rightarrow> after_admission a (host_calls Y a inside
                   (d\<lparr>admissionTimer := None, connected := True, client := fst (attach Y s (client d))\<rparr>)))
     | _ \<Rightarrow>
         (if \<not> connected d then d
          else settle (host_calls Y a inside (d\<lparr>client := fst (client_receive Y bs (client d))\<rparr>))))"
proof -
  have att: "(case attach Y s (client d) of (cl, Threw) \<Rightarrow> F cl | (cl, _) \<Rightarrow> G cl) = G (fst (attach Y s (client d)))"
    for F G :: "'a client \<Rightarrow> ('a, 'b) driver" and s
    using attach_serene(5) [OF assms(2), of Y s] by (cases "attach Y s (client d)") simp
  have rec: "(case client_receive Y bs (client d) of (cl, Threw) \<Rightarrow> F cl | (cl, _) \<Rightarrow> G cl) = G (fst (client_receive Y bs (client d)))"
    for F G :: "'a client \<Rightarrow> ('a, 'b) driver"
    using receive_returns [OF assms(2), of Y bs] by (cases "client_receive Y bs (client d)") (auto split: outcome.split)
  show ?thesis unfolding host_calls.simps rec att using assms(1) by simp
qed

lemma tended_received:
  assumes "tended d" and "sane d" shows "tended (host_calls Y a [Received bs inside] d)"
proof (cases "live a d")
  case True
  let ?admitted = "\<lambda>s. d\<lparr>admissionTimer := None, connected := True, client := fst (attach Y s (client d))\<rparr>"
  let ?given = "d\<lparr>client := fst (client_receive Y bs (client d))\<rparr>"
  have adm: "tended (after_admission a (host_calls Y a inside (?admitted s)))" for s
  proof -
    let ?d = "host_calls Y a inside (?admitted s)"
    have "live a ?d \<longleftrightarrow> connected ?d" using calls_end_or_stay [of a "?admitted s" Y inside] True by (simp add: live_def)
    then show ?thesis
      by (cases "live a ?d") (simp add: after_admission_def tended_settle startWatchdog_def live_def, simp add: after_admission_def tended_def)
  qed
  have giv: "tended (settle (host_calls Y a inside ?given))" if "connected d"
  proof (rule tended_settle)
    have "sane ?given" using assms(2) receive_serene [of "client d" Y bs] by (simp add: sane_def same_link_def)
    from sane_calls [OF this] watched_calls [of a ?given Y inside] True that assms(1)
    show "connected (host_calls Y a inside ?given) \<longrightarrow> driving (host_calls Y a inside ?given) \<and> watchdogTimer (host_calls Y a inside ?given)"
      by (simp add: sane_def tended_def live_def)
  qed
  have ret: "tended (retire_driver d)" by (simp add: tended_def retire_driver_def shutdown_def Let_def)
  have "serene (client d)" using assms(2) by (simp add: sane_def)
  note eq = received_eq [OF True this, of Y bs inside]
  have opt: "tended (case sockets d a of None \<Rightarrow> d | Some s \<Rightarrow> after_admission a (host_calls Y a inside (?admitted s)))"
    using assms(1) adm by (cases "sockets d a") simp_all
  have data: "tended (if \<not> connected d then d else settle (host_calls Y a inside ?given))" using assms(1) giv by (cases "connected d") simp_all
  show ?thesis unfolding eq by (cases "control_frame bs") (simp_all only: opt data ret assms(1) option.case if_cancel split: frame.split if_split, simp_all)
next
  case False
  then show ?thesis using assms by (simp add: stale_calls)
qed

lemma tended_calls: "tended d \<Longrightarrow> sane d \<Longrightarrow> tended (host_calls Y a hs d)"
proof (induction hs arbitrary: d)
  case (Cons h hs)
  have one: "host_calls Y a (h # hs) d = host_calls Y a hs (host_calls Y a [h] d)" by (cases h) simp_all
  have "tended (host_calls Y a [h] d)"
  proof (cases h)
    case (Received bs inside)
    with tended_received Cons.prems show ?thesis by blast
  next
    case (Closed why)
    with Cons.prems show ?thesis by (auto simp: tended_def reconnect_def Let_def)
  qed (use Cons.prems in \<open>auto simp: tended_def\<close>)
  then show ?case unfolding one by (rule Cons.IH) (rule sane_calls [OF Cons.prems(2)])
qed simp

lemma tended_open:
  assumes "sane d" "\<not> connected d" shows "tended (open_attempt Y inside threw d)"
proof -
  let ?d1 = "d\<lparr>attempt := Suc (attempt d), sockets := (sockets d)(Suc (attempt d) := None), admissionTimer := Some (Suc (attempt d)),
                   dials := dials d @ [(Suc (attempt d), position (client d))]\<rparr>"
  have "tended ?d1" "sane ?d1" using assms by (simp_all add: tended_def sane_def)
  from tended_calls [OF this] assms show ?thesis by (simp add: open_attempt_def Let_def tended_def)
qed

lemma tended_reconnect: "core_ok p d \<Longrightarrow> tended (reconnect why d) \<or> \<not> driving d"
  by (simp add: reconnect_def tended_def Let_def)

lemma core_idle: "core_ok p d \<Longrightarrow> \<not> driving d \<Longrightarrow> teardown d = None \<and> redialTimer d = None \<and> \<not> connected d"
  by (auto simp: core_ok_def)

lemma core_sane: "core_ok p d \<Longrightarrow> sane d"
  by (auto simp: core_ok_def sane_def)

lemma client_moves:
  assumes "driver_ok None d" "tended d" "same_link (client d) c" "needsResync c = needsResync (client d)"
  shows "driver_ok None (d\<lparr>client := c\<rparr>) \<and> tended (d\<lparr>client := c\<rparr>)"
  using assms core_ok_client [of None d c] by (simp add: driver_ok_def tended_def)

lemma start_ok:
  assumes "driver_ok None d" "tended d" shows "driver_ok None (start Y inside threw d) \<and> tended (start Y inside threw d)"
proof (cases "finished d \<or> driving d")
  case False
  have "core_ok None (d\<lparr>driving := True\<rparr>)" using assms False by (auto simp: driver_ok_def core_ok_def)
  moreover have "teardown d = None \<and> redialTimer d = None \<and> \<not> connected d" using assms False core_idle by (auto simp: driver_ok_def)
  ultimately show ?thesis using False open_ok [of "d\<lparr>driving := True\<rparr>" Y inside threw]
      tended_open [OF core_sane, of None "d\<lparr>driving := True\<rparr>" Y inside threw]
    by (simp add: start_def)
qed (use assms in \<open>simp add: start_def\<close>)

lemma redial_ok:
  assumes "driver_ok None d" "tended d" shows "driver_ok None (redial_fires Y inside threw d) \<and> tended (redial_fires Y inside threw d)"
proof (cases "redialTimer d")
  case (Some w)
  then have d: "driving d" using assms core_idle by (fastforce simp: driver_ok_def)
  with assms Some have "teardown d = None" "\<not> connected d" by (auto simp: driver_ok_def parked_ok_def held_def split: if_splits)
  moreover have "core_ok None (d\<lparr>redialTimer := None\<rparr>)" using assms d by (simp add: driver_ok_def)
  ultimately show ?thesis using Some d open_ok [of "d\<lparr>redialTimer := None\<rparr>" Y inside threw]
      tended_open [OF core_sane, of None "d\<lparr>redialTimer := None\<rparr>" Y inside threw]
    by (simp add: redial_fires_def)
qed (use assms in \<open>simp add: redial_fires_def\<close>)

lemma admission_ok:
  assumes "driver_ok None d" "tended d" shows "driver_ok None (admission_fires d) \<and> tended (admission_fires d)"
proof (cases "admissionTimer d")
  case (Some a)
  then have d: "driving d" "a = attempt d" using assms by (auto simp: driver_ok_def core_ok_def)
  have c: "core_ok None (d\<lparr>admissionTimer := None\<rparr>)" using assms by (auto simp: driver_ok_def core_ok_def)
  from reconnect_ok [OF this] tended_reconnect [OF this] d Some show ?thesis by (simp add: admission_fires_def live_def)
qed (use assms in \<open>simp add: admission_fires_def\<close>)

lemma tick_ok:
  assumes "driver_ok None d" "tended d" shows "driver_ok None (tick d) \<and> tended (tick d)"
proof -
  have c: "core_ok None (d\<lparr>watchdogTimer := False, watched := None\<rparr>)" using assms(1) by (simp add: driver_ok_def)
  have t: "\<not> connected d" if "\<not> driving d" using assms(1) that core_idle by (auto simp: driver_ok_def)
  show ?thesis using assms t reconnect_ok [OF c] tended_reconnect [OF c]
    by (auto simp: tick_def Let_def driver_ok_def tended_def)
qed

lemma driver_step_ok: "driver_step Y d d' \<Longrightarrow> driver_ok None d \<Longrightarrow> tended d \<Longrightarrow> driver_ok None d' \<and> tended d'"
proof (induction rule: driver_step.induct)
  case (started d inside threw) then show ?case by (rule start_ok)
next
  case (called a d hs)
  then show ?case using calls_ok [of None d a Y hs] tended_calls [OF _ core_sane, of d None Y a hs] by (simp add: driver_ok_def)
next
  case (redialled d inside threw) then show ?case by (rule redial_ok)
next
  case (timed_out d) then show ?case by (rule admission_ok)
next
  case (healthy d) then show ?case by (simp add: healthy_fires_def driver_ok_def tended_def)
next
  case (ticked d) then show ?case by (rule tick_ok)
next
  case (nudged d)
  then have "serene (client d)" by (blast intro: driver_serene)
  then have "same_link (client d) (nudge (client d))" "needsResync (nudge (client d)) = needsResync (client d)"
    by (simp_all add: nudge_def same_link_def serene_def)
  from client_moves [OF nudged this] nudged show ?case by (simp add: sendable_fires_def)
next
  case (idled d)
  then have s: "serene (client d)" "serene ((client d)\<lparr>idle := False\<rparr>)" by (auto intro: driver_serene) (auto dest: driver_serene simp: serene_def)
  have "same_link (client d) (fst (idle_task Y (client d)))" "needsResync (fst (idle_task Y (client d))) = needsResync (client d)"
    using s send_serene [OF s(2), of Y] by (auto simp: idle_task_def same_link_def)
  from client_moves [OF idled this] show ?case by (simp add: idle_fires_def)
next
  case (flushed d)
  then have s: "serene (client d)" "serene (clearIdle (client d))" by (auto intro: driver_serene) (auto dest: driver_serene simp: serene_def clearIdle_def)
  have "same_link (client d) (fst (client_flush Y (client d)))" "needsResync (fst (client_flush Y (client d))) = needsResync (client d)"
    using send_serene [OF s(2), of Y] by (auto simp: client_flush_def same_link_def clearIdle_def)
  from client_moves [OF flushed this] flushed show ?case by (auto simp: driver_flush_def split: prod.split)
next
  case (stored e d)
  then have "serene (client d)" by (blast intro: driver_serene)
  with stored.hyps have "same_link (client d) ((client d)\<lparr>engine := e\<rparr>)" by (simp add: same_link_def serene_def)
  from client_moves [OF stored.prems this] show ?case by simp
next
  case (disposed d)
  have "tended (shutdown (d\<lparr>finished := True\<rparr>))" by (simp add: tended_def shutdown_def Let_def)
  with disposed show ?case using shutdown_ok [of None d] by (simp add: dispose_driver_def driver_ok_def)
qed

lemma driver_reachable_ok: "driver_reachable Y d \<Longrightarrow> driver_ok None d \<and> tended d"
proof (induction rule: driver_reachable.induct)
  case (created e cl)
  then show ?case
    by (auto simp: createSyncClient_def engine_cursor_def createSyncConnection_def driver_ok_def core_ok_def parked_ok_def
        tended_def serene_def ledger_def split: if_splits)
next
  case (stepped d d')
  then show ?case using driver_step_ok by blast
qed

lemma reconnect_failures: "driving d \<Longrightarrow> \<not> abandon_throws d \<Longrightarrow> failures (reconnect why d) = failures d + 1"
  by (simp add: reconnect_def Let_def)

section \<open>What the driver promises\<close>

lemma at_rest:
  assumes "driver_reachable Y d"
  shows "core_ok None d" "parked_ok None d" "tended d" "teardown d = None \<or> teardown d = Some (attempt d)"
    "admissionTimer d = None \<or> admissionTimer d = Some (attempt d)" "connected d \<longleftrightarrow> connection (client d) \<noteq> None"
    "\<not> driving d \<longrightarrow> teardown d = None \<and> redialTimer d = None \<and> \<not> connected d" "finished d \<longrightarrow> \<not> driving d"
    "connected d \<longrightarrow> driving d"
proof -
  from driver_reachable_ok [OF assms] show ok: "core_ok None d" "parked_ok None d" "tended d" by (auto simp: driver_ok_def)
  show "teardown d = None \<or> teardown d = Some (attempt d)"
    using core_ledger [OF ok(1)] by (cases "teardown d") (auto simp: ledger_def)
  show "admissionTimer d = None \<or> admissionTimer d = Some (attempt d)"
    using ok(1) by (cases "admissionTimer d") (auto simp: core_ok_def)
  show "connected d \<longleftrightarrow> connection (client d) \<noteq> None" using ok(1) by (simp add: core_ok_def)
  show "\<not> driving d \<longrightarrow> teardown d = None \<and> redialTimer d = None \<and> \<not> connected d" using core_idle [OF ok(1)] by blast
  show "finished d \<longrightarrow> \<not> driving d" "connected d \<longrightarrow> driving d" using ok(1) by (auto simp: core_ok_def)
qed

text \<open>A run to apply them to: the sample client dials, opens a socket and is admitted.\<close>

definition dialled_with :: "bytes client \<Rightarrow> (bytes, jsstring) driver" where
  "dialled_with c = start live_byte_doc [] False (createSyncConnection (\<lambda>_. False) c)"

definition admitted_with :: "bytes client \<Rightarrow> (bytes, jsstring) driver" where
  "admitted_with c = host_calls live_byte_doc 1 [Opened 3, Received (encodeFrame AdmittedFrame) []] (dialled_with c)"

abbreviation dialled_driver :: "(bytes, jsstring) driver" where
  "dialled_driver \<equiv> dialled_with sample_client"

abbreviation admitted_driver :: "(bytes, jsstring) driver" where
  "admitted_driver \<equiv> admitted_with sample_client"

lemma dialled_with_facts:
  "driving (dialled_with c)" "attempt (dialled_with c) = 1" "teardown (dialled_with c) = Some 1" "connected (dialled_with c) = False"
  "admissionTimer (dialled_with c) = Some 1" "client (dialled_with c) = c" "dials (dialled_with c) = [(1, position c)]"
  "sockets (dialled_with c) = (\<lambda>_. None)" "tornDown (dialled_with c) = []" "failures (dialled_with c) = 0"
  "brittle (dialled_with c) = (\<lambda>_. False)" "lostDials (dialled_with c) = []"
  by (simp_all add: dialled_with_def start_def createSyncConnection_def open_attempt_def Let_def fun_eq_iff)

lemmas dialled_facts = dialled_with_facts [of sample_client, unfolded sample_client_eq [THEN arg_cong [of _ _ position], simplified]]

lemma dialled_reachable: "createSyncClient [] e = Inr c \<Longrightarrow> driver_reachable live_byte_doc (dialled_with c)"
  unfolding dialled_with_def by (rule driver_reachable.stepped [OF driver_reachable.created driver_step.started])

lemma admitted_reachable: "createSyncClient [] e = Inr c \<Longrightarrow> driver_reachable live_byte_doc (admitted_with c)"
  unfolding admitted_with_def
  by (rule driver_reachable.stepped [OF dialled_reachable driver_step.called]) (simp_all add: dialled_with_facts)

lemma sample_created: "createSyncClient [] sample_engine = Inr sample_client"
  by (simp add: sample_client_def createSyncClient_def engine_cursor_def sample_engine_eq)

lemma admitted_control: "control_frame (encodeFrame AdmittedFrame) = Some AdmittedFrame"
proof -
  have "decodeFrame (encodeFrame AdmittedFrame) = Inr AdmittedFrame" by (rule decode_encode) simp_all
  then show ?thesis by (simp add: control_frame_def setUint8_def)
qed

lemma admitted_with_facts:
  assumes "serene c"
  shows "connected (admitted_with c)" "driving (admitted_with c)" "attempt (admitted_with c) = 1"
    "client (admitted_with c) = fst (attach live_byte_doc 3 c)" "teardown (admitted_with c) = Some 1"
    "dials (admitted_with c) = [(1, position c)]" "brittle (admitted_with c) = (\<lambda>_. False)"
    "watchdogTimer (admitted_with c)" "watched (admitted_with c) = in_flight_submission (fst (attach live_byte_doc 3 c))"
proof -
  let ?d = "(dialled_with c)\<lparr>sockets := (\<lambda>_. None)(1 \<mapsto> 3), refusal := None\<rparr>"
  have s: "host_calls live_byte_doc 1 [Opened 3, Received (encodeFrame AdmittedFrame) []] (dialled_with c) =
      host_calls live_byte_doc 1 [Received (encodeFrame AdmittedFrame) []] ?d"
    unfolding host_calls.simps(2) [of _ _ _ "[Received (encodeFrame AdmittedFrame) []]"]
    by (simp add: live_def dialled_with_facts del: host_calls.simps)
  have l: "live 1 ?d" "serene (client ?d)" using assms by (simp_all add: live_def dialled_with_facts)
  note r = received_eq [OF l, of live_byte_doc "encodeFrame AdmittedFrame" "[]", unfolded admitted_control]
  show "connected (admitted_with c)" "driving (admitted_with c)" "attempt (admitted_with c) = 1"
    "client (admitted_with c) = fst (attach live_byte_doc 3 c)" "teardown (admitted_with c) = Some 1"
    "dials (admitted_with c) = [(1, position c)]" "brittle (admitted_with c) = (\<lambda>_. False)"
    "watchdogTimer (admitted_with c)" "watched (admitted_with c) = in_flight_submission (fst (attach live_byte_doc 3 c))"
    unfolding admitted_with_def s r
    by (simp_all add: dialled_with_facts after_admission_def live_def settle_def startWatchdog_def attach_serene(4) [OF assms])
qed

lemma sample_serene: "serene sample_client"
  by (simp add: serene_def sample_client_eq sample_engine_eq)

lemmas admitted_facts = admitted_with_facts [OF sample_serene]

text \<open>
  Claim C5 (never_parked). Whatever the host calls back, in whatever order, whatever its timers and
  the page do, and whether or not its \<^verbatim>\<open>dial\<close> or the teardown it returned throws: of a driver that is
  running there is a live attempt, which is connected with the watchdog armed and no unnoticed
  gap, or still in admission with the admission deadline armed, and whose socket the driver holds
  unless its \<^verbatim>\<open>dial\<close> threw; or there is none and a redial is scheduled. The one exception is stated
  as it is: a driver without an attempt and without a redial is one whose last teardown threw, for
  that exception leaves \<^verbatim>\<open>reconnect\<close> before it schedules anything (\<open>throwing_teardown_parks\<close>). A
  driver is connected exactly when its client is attached.
\<close>

theorem never_parked:
  assumes "driver_reachable Y d"
  shows "(connected d \<longleftrightarrow> connection (client d) \<noteq> None)
    \<and> (driving d \<longrightarrow>
        ((teardown d = Some (attempt d) \<or> teardown d = None \<and> attempt d \<in> set (lostDials d)) \<and> redialTimer d = None
          \<and> (if connected d then watchdogTimer d \<and> admissionTimer d = None \<and> \<not> needsResync (client d)
             else admissionTimer d = Some (attempt d)))
        \<or> (teardown d = None \<and> \<not> connected d \<and> admissionTimer d = None
          \<and> (redialTimer d \<noteq> None \<or> tornDown d \<noteq> [] \<and> brittle d (last (tornDown d)))))
    \<and> (\<not> driving d \<longrightarrow> teardown d = None \<and> redialTimer d = None \<and> \<not> connected d)"
proof (cases "driving d")
  case True
  note r = at_rest [OF assms]
  show ?thesis
  proof (cases "held None d")
    case True
    with r(2,3,4,5,6) \<open>driving d\<close> show ?thesis by (auto simp: parked_ok_def held_def tended_def)
  next
    case False
    with r(2,6) \<open>driving d\<close> show ?thesis by (auto simp: parked_ok_def held_def last_threw_def)
  qed
qed (use at_rest(6,7) [OF assms] in simp)

theorem never_parked_witness:
  "connected admitted_driver \<and> watchdogTimer admitted_driver \<and> redialTimer admitted_driver = None
   \<and> \<not> needsResync (client admitted_driver)"
  using never_parked [OF admitted_reachable [OF sample_created]] admitted_facts(1,2,5) by simp

text \<open>
  The exception, as it happens: a live attempt whose teardown throws is closed. The driver is left
  running with no attempt, no redial and no timer, and stays so whatever the host calls on the
  attempts it was ever handed and whenever \<^verbatim>\<open>start\<close> is called again.
\<close>

theorem throwing_teardown_parks:
  assumes "driver_reachable Y d" and "driving d" and "teardown d = Some a" and "brittle d a"
    and "d' = host_calls Y a [Closed why] d"
  shows "driving d' \<and> teardown d' = None \<and> redialTimer d' = None \<and> admissionTimer d' = None \<and> \<not> watchdogTimer d'
    \<and> start Y inside threw d' = d' \<and> (b \<in> set (map fst (dials d)) \<longrightarrow> host_calls Y b hs d' = d')"
proof -
  note r = at_rest [OF assms(1)]
  have a: "attempt d = a" using r(4) assms(3) by simp
  have t: "redialTimer d = None" using r(2) assms(2,3) by (auto simp: parked_ok_def held_def split: if_splits)
  let ?d0 = "d\<lparr>refusal := why, lastReconnect := Some (if why = None then ByClose else ByRefusal)\<rparr>"
  have d': "d' = abandon ?d0" using assms(2-5) a by (simp add: live_def reconnect_def Let_def abandon_throws_def)
  have "b \<le> a" if "b \<in> set (map fst (dials d))"
    using core_ledger [OF r(1)] that a by (auto simp: ledger_def)
  then have "\<not> live b d'" if "b \<in> set (map fst (dials d))" using that a by (auto simp: d' live_def)
  then show ?thesis using assms(2) t by (simp add: d' start_def stale_calls)
qed

theorem throwing_teardown_parks_witness:
  "redialTimer (host_calls live_byte_doc 1 [Closed None]
     (start live_byte_doc [] False (createSyncConnection (\<lambda>_. True) sample_client) :: (bytes, jsstring) driver)) = None"
proof -
  let ?c = "createSyncConnection (\<lambda>_. True) sample_client :: (bytes, jsstring) driver"
  let ?d = "start live_byte_doc [] False ?c"
  have r: "driver_reachable live_byte_doc ?d"
    by (rule driver_reachable.stepped [OF driver_reachable.created [OF sample_created] driver_step.started])
  have "driving ?d" "teardown ?d = Some 1" "brittle ?d 1"
    by (simp_all add: start_def createSyncConnection_def open_attempt_def Let_def)
  from throwing_teardown_parks [OF r this refl] show ?thesis by blast
qed

text \<open>
  Every dial gets a fresh attempt number, and the socket of every dial that returned is torn down
  exactly once, in the order of the dials, save the one that is held now; a driver that has
  finished holds none. A connected driver holds the socket of its attempt, unless that \<^verbatim>\<open>dial\<close> threw.
\<close>

theorem sockets_are_let_go:
  assumes "driver_reachable Y d"
  shows "sorted_wrt (<) (map fst (dials d)) \<and> set (lostDials d) \<subseteq> set (map fst (dials d))
    \<and> filter (\<lambda>a. a \<notin> set (lostDials d)) (map fst (dials d)) = tornDown d @ opt_list (teardown d)
    \<and> (connected d \<longrightarrow> teardown d = Some (attempt d) \<or> attempt d \<in> set (lostDials d))
    \<and> (finished d \<longrightarrow> teardown d = None)"
proof -
  have c: "connected d \<longrightarrow> teardown d = Some (attempt d) \<or> attempt d \<in> set (lostDials d)"
  proof
    assume "connected d"
    with at_rest(2,9) [OF assms] have "held None d" by (cases "held None d") (simp_all add: parked_ok_def)
    with at_rest(4) [OF assms] show "teardown d = Some (attempt d) \<or> attempt d \<in> set (lostDials d)"
      unfolding held_def by blast
  qed
  have f: "finished d \<longrightarrow> teardown d = None" using at_rest(7,8) [OF assms] by simp
  note l = ledger_rest [OF core_ledger [OF at_rest(1) [OF assms]]]
  show ?thesis
    by (rule conjI [OF conjunct1 [OF l] conjI [OF conjunct2 [OF conjunct2 [OF l]]
        conjI [OF conjunct1 [OF conjunct2 [OF l]] conjI [OF c f]]]])
qed

theorem sockets_are_let_go_witness:
  "filter (\<lambda>a. a \<notin> set (lostDials (dispose_driver admitted_driver))) (map fst (dials (dispose_driver admitted_driver)))
     = tornDown (dispose_driver admitted_driver)"
proof -
  have "finished (dispose_driver admitted_driver)" by (simp add: dispose_driver_def shutdown_def Let_def)
  with sockets_are_let_go [OF driver_reachable.stepped [OF admitted_reachable [OF sample_created] driver_step.disposed]] show ?thesis by simp
qed

text \<open>
  A host that keeps calling on an attempt the driver no longer holds, and whose \<^verbatim>\<open>dial\<close> did return,
  changes nothing, whatever it reports and in whatever order.
\<close>

theorem stale_callbacks_are_inert:
  assumes "driver_reachable Y d" and "a \<in> set (map fst (dials d))" and "teardown d \<noteq> Some a" and "a \<notin> set (lostDials d)"
  shows "host_calls Y a hs d = d"
proof (rule stale_calls)
  show "\<not> live a d"
  proof
    assume "live a d"
    then have a: "attempt d = a" by (simp add: live_def)
    with ledger_live [OF core_ledger [OF at_rest(1) [OF assms(1)]]] assms(2,4) have "teardown d \<noteq> None" by simp
    with at_rest(4) [OF assms(1)] a assms(3) show False by simp
  qed
qed

theorem stale_callbacks_are_inert_witness:
  "host_calls live_byte_doc 1 [Received (encodeFrame RetiredFrame) [], Closed None] (admission_fires dialled_driver)
     = admission_fires dialled_driver"
  by (rule stale_callbacks_are_inert [OF driver_reachable.stepped [OF dialled_reachable [OF sample_created] driver_step.timed_out]])
    (simp_all add: admission_fires_def live_def dialled_facts reconnect_def Let_def)

lemma finished_step:
  "driver_step Y d d' \<Longrightarrow> driver_ok None d \<Longrightarrow> finished d \<Longrightarrow>
   finished d' \<and> dials d' = dials d \<and> outbound (client d') = outbound (client d) \<and> retired d' = retired d
     \<and> retirements d' = retirements d"
proof (induction rule: driver_step.induct)
  case (idled d)
  then have "connection (client d) = None" by (auto simp: driver_ok_def core_ok_def)
  with idled show ?case by (simp add: idle_fires_def idle_task_def send_def)
next
  case (ticked d)
  then have "\<not> driving d" by (auto simp: driver_ok_def core_ok_def)
  with ticked show ?case by (simp add: tick_def)
next
  case (called a d hs)
  then have "\<not> live a d" by (auto simp: driver_ok_def core_ok_def live_def)
  with called show ?case by (simp add: stale_calls)
qed (auto simp: start_def redial_fires_def admission_fires_def healthy_fires_def sendable_fires_def driver_flush_def
    dispose_driver_def driver_ok_def core_ok_def split: option.split)

text \<open>
  Once the driver is disposed of, or the authority has retired the
  generation, nothing that happens afterwards dials, reconnects or sends, and the owner is told of
  a retirement exactly once.
\<close>

theorem an_end_is_final:
  assumes "driver_reachable Y d" and "finished d" and "(driver_step Y)\<^sup>*\<^sup>* d d'"
  shows "dials d' = dials d \<and> outbound (client d') = outbound (client d) \<and> \<not> connected d' \<and> redialTimer d' = None
    \<and> teardown d' = None \<and> retired d' = retired d \<and> retirements d' = (if retired d then 1 else 0)"
proof -
  from assms(3,2,1) have "driver_reachable Y d' \<and> finished d' \<and> dials d' = dials d
      \<and> outbound (client d') = outbound (client d) \<and> retired d' = retired d \<and> retirements d' = retirements d"
  proof (induction rule: rtranclp_induct)
    case (step d1 d2)
    from finished_step [OF step.hyps(2)] driver_reachable_ok step show ?case by (auto intro: driver_reachable.stepped)
  qed simp
  moreover have "retirements d = (if retired d then 1 else 0)" using at_rest(1) [OF assms(1)] by (simp add: core_ok_def)
  ultimately show ?thesis using at_rest(7,8) [of Y d'] by auto
qed

definition retired_driver :: "(bytes, jsstring) driver" where
  "retired_driver = host_calls live_byte_doc 1 [Received (encodeFrame RetiredFrame) []] dialled_driver"

lemma retired_facts: "finished retired_driver" "retired retired_driver" "dials retired_driver = [(1, 4)]"
proof -
  have "decodeFrame (encodeFrame RetiredFrame) = Inr RetiredFrame" by (rule decode_encode) simp_all
  then have c: "control_frame (encodeFrame RetiredFrame) = Some RetiredFrame" by (simp add: control_frame_def setUint8_def)
  show "finished retired_driver" "retired retired_driver" "dials retired_driver = [(1, 4)]"
    unfolding retired_driver_def using c
    by (simp_all add: live_def dialled_facts retire_driver_def shutdown_def Let_def del: encodeFrame.simps)
qed

theorem an_end_is_final_witness:
  "dials (start live_byte_doc [] False retired_driver) = [(1, 4)] \<and> retirements (start live_byte_doc [] False retired_driver) = 1"
proof -
  have r: "driver_reachable live_byte_doc retired_driver" unfolding retired_driver_def
    by (rule driver_reachable.stepped [OF dialled_reachable [OF sample_created]]) (rule driver_step.called, simp add: dialled_facts)
  have "(driver_step live_byte_doc)\<^sup>*\<^sup>* retired_driver (start live_byte_doc [] False retired_driver)"
    by (rule r_into_rtranclp) (rule driver_step.started)
  from an_end_is_final [OF r retired_facts(1) this] show ?thesis by (simp add: retired_facts)
qed

text \<open>
  A host that opens sockets, has them admitted and closes them again, and whose teardown of the
  socket does not throw, never lowers the failure count: every attempt that ends raises it and
  schedules the redial at the backoff of the new count, which lies between one and thirty seconds
  and doubles until the cap.
\<close>

theorem backoff_survives_accepts:
  assumes "driving (host_calls Y a hs d)" and "attempt (host_calls Y a hs d) \<noteq> attempt d" and "\<not> abandon_throws d"
  shows "\<exists>w n. redialTimer (host_calls Y a hs d) = Some w \<and> failures (host_calls Y a hs d) = n \<and> failures d < n
    \<and> 1000 \<le> w \<and> w \<le> 30000 \<and> w = (if n \<le> 5 then 1000 * 2 ^ (n - 1) else 30000)"
proof -
  let ?P = "\<lambda>d'. \<not> abandon_throws d' \<and> attempt d \<le> attempt d' \<and> failures d \<le> failures d' \<and>
    (driving d' \<and> attempt d' \<noteq> attempt d \<longrightarrow> failures d < failures d' \<and> redialTimer d' = Some (backoff (failures d')))"
  have "?P (host_calls Y a hs d)"
    by (rule host_calls_keep [of ?P])
      (use assms(3) in \<open>auto simp: live_def retire_driver_def shutdown_def startWatchdog_def reconnect_def Let_def\<close>)
  then have f: "failures d < failures (host_calls Y a hs d)"
    "redialTimer (host_calls Y a hs d) = Some (backoff (failures (host_calls Y a hs d)))" using assms by simp_all
  have b: "backoff n = (if n \<le> 5 then 1000 * 2 ^ (n - 1) else 30000)" "1000 \<le> backoff n" "backoff n \<le> 30000" for n
  proof -
    show "backoff n \<le> 30000" by (simp add: backoff_def)
    have "(1::nat) \<le> 2 ^ (n - 1)" by simp
    then show "1000 \<le> backoff n" by (simp add: backoff_def)
    show "backoff n = (if n \<le> 5 then 1000 * 2 ^ (n - 1) else 30000)"
    proof (cases "n \<le> 5")
      case True
      then have "(2::nat) ^ (n - 1) \<le> 2 ^ 4" by (intro power_increasing) auto
      with True show ?thesis by (simp add: backoff_def)
    next
      case False
      then have "(2::nat) ^ 5 \<le> 2 ^ (n - 1)" by (intro power_increasing) auto
      with False show ?thesis by (simp add: backoff_def)
    qed
  qed
  show ?thesis using f b by (metis (full_types))
qed

theorem backoff_survives_accepts_witness:
  "redialTimer (host_calls live_byte_doc 1 [Closed None] admitted_driver) = Some (1000 * 2 ^ (failures admitted_driver)) \<or> 5 \<le> failures admitted_driver"
proof -
  let ?d = "host_calls live_byte_doc 1 [Closed None] admitted_driver"
  have d: "driving ?d" "attempt ?d \<noteq> attempt admitted_driver" "failures ?d = failures admitted_driver + 1"
    "\<not> abandon_throws admitted_driver"
    by (simp_all add: live_def admitted_facts reconnect_def Let_def abandon_throws_def)
  from backoff_survives_accepts [OF d(1,2,4)] d(3) show ?thesis by (auto split: if_splits)
qed

lemma watched_stays:
  assumes "live a d" "connected d"
  shows "live a (host_calls Y a hs d) \<longrightarrow> watched (host_calls Y a hs d) = watched d"
proof -
  let ?P = "\<lambda>d'. a \<le> attempt d' \<and> (live a d' \<longleftrightarrow> connected d') \<and> (connected d' \<longrightarrow> watched d' = watched d)"
  have "?P (host_calls Y a hs d)"
    by (rule host_calls_keep [of ?P])
      (use assms in \<open>auto simp: live_def retire_driver_def shutdown_def reconnect_def Let_def\<close>)
  then show ?thesis by blast
qed

text \<open>
  Between two ticks of the watchdog the host may deliver
  anything. If the attempt is still connected and its submission is the one the earlier tick saw,
  the next tick gives the socket up as stalled, and dials again unless its teardown throws; if it is another submission, however busy the
  client, the watchdog only looks again.
\<close>

theorem watchdog_catches_stalls:
  assumes "driver_reachable Y d" and "connected d" and "connected (tick d)"
    and "d' = host_calls Y (attempt d) hs (tick d)" and "connected d'" and "in_flight_submission (client d') = Some n"
  shows "if in_flight_submission (client d) = Some n
    then \<not> connected (tick d') \<and> lastReconnect (tick d') = Some ByStall \<and> (redialTimer (tick d') \<noteq> None \<or> abandon_throws d')
    else tick d' = d'\<lparr>watched := Some n\<rparr>"
proof -
  note r = at_rest [OF assms(1)]
  have d: "driving d" "watchdogTimer d" using r(3,9) assms(2) by (auto simp: tended_def)
  have t: "tick d = d\<lparr>watched := in_flight_submission (client d)\<rparr>"
    using assms(2,3) d by (auto simp: tick_def Let_def reconnect_def split: if_splits)
  have "attempt d \<in> set (map fst (dials d))"
    by (rule ledger_held [OF core_ledger [OF r(1)]])
      (use r(2,4) d assms(2) in \<open>auto simp: parked_ok_def held_def split: if_splits\<close>)
  then have reach: "driver_reachable Y d'" unfolding assms(4)
    by (intro driver_reachable.stepped [OF driver_reachable.stepped [OF assms(1) driver_step.ticked]] driver_step.called)
      (simp add: t)
  have live: "live (attempt d) (tick d)" using d by (simp add: t live_def)
  then have "live (attempt d) d'"
    using calls_end_or_stay [of "attempt d" "tick d" Y hs] assms(3-5) by (simp add: live_def)
  with watched_stays [OF live assms(3), of Y hs] have w: "watched d' = in_flight_submission (client d)"
    using assms(4) t by simp
  have "driving d'" "watchdogTimer d'" using at_rest(3,9) [OF reach] assms(5) by (auto simp: tended_def)
  then show ?thesis using w assms(5,6) by (simp add: tick_def Let_def reconnect_def)
qed

text \<open>A client with nothing owed is admitted; then the page writes, and the next flush sends.\<close>

definition quiet_engine :: "bytes engine" where
  "quiet_engine = sample_engine\<lparr>controller := (controller sample_engine)\<lparr>outbox := []\<rparr>\<rparr>"

definition busy_driver :: "(bytes, jsstring) driver" where
  "busy_driver = (let d = admitted_with (sample_client\<lparr>engine := quiet_engine\<rparr>) in
     fst (driver_flush live_byte_doc (d\<lparr>client := (client d)\<lparr>engine := sample_engine\<rparr>\<rparr>)))"

lemma quiet_created: "createSyncClient [] quiet_engine = Inr (sample_client\<lparr>engine := quiet_engine\<rparr>)"
  by (simp add: createSyncClient_def engine_cursor_def sample_client_eq quiet_engine_def sample_engine_eq durableCursor_def
      createPersistenceController_def) (simp add: sample_rows_def readCursor_def maxSeq_def)

lemma ready_in_flight: "in_flight_submission (fst (send live_byte_doc ready_client)) = Some 1"
proof -
  have one: "chunks_of [8] = [[8]]" by (rule chunks_of_small) (simp add: CHUNK_BYTES_def DO_SQLITE_VALUE_CAP_def)
  have c: "connection ready_client = Some \<lparr>identity = 0, socket = 3, outstanding = None\<rparr>" "reactions ready_client = []"
    "nextSubmission ready_client = 1"
    by (simp_all add: ready_client_def sample_client_eq)
  show ?thesis unfolding send_def using c
    by (simp add: ready_coalesce one socket_send_def Let_def in_flight_submission_def del: encodeFrame.simps One_nat_def)
qed

lemma busy_facts:
  "driver_reachable live_byte_doc busy_driver" "connected busy_driver" "watched busy_driver = None"
  "client busy_driver = fst (send live_byte_doc ready_client)"
proof -
  let ?c = "sample_client\<lparr>engine := quiet_engine\<rparr>"
  let ?d = "admitted_with ?c"
  have "serene ?c" by (simp add: serene_def sample_client_eq quiet_engine_def sample_engine_eq)
  note f = admitted_with_facts [OF this]
  have att: "fst (attach live_byte_doc 3 ?c) = attached_client" by (simp add: attached_client_def quiet_engine_def)
  have "in_flight_submission attached_client = None"
    using arg_cong [OF attached_client_eq, of connection] by (simp add: in_flight_submission_def ready_client_def)
  moreover have "clearIdle ready_client = ready_client" by (simp add: clearIdle_def ready_client_def sample_client_eq)
  moreover have "\<not> finished ?d" using at_rest(8) [OF admitted_reachable [OF quiet_created]] f(2) by blast
  ultimately show "connected busy_driver" "watched busy_driver = None" "client busy_driver = fst (send live_byte_doc ready_client)"
    using f att by (simp_all add: busy_driver_def Let_def driver_flush_def client_flush_def attached_client_eq split: prod.split)
  have "usable sample_engine" by (simp add: sample_engine_eq)
  then show "driver_reachable live_byte_doc busy_driver" unfolding busy_driver_def Let_def
    by (intro driver_reachable.stepped [OF _ driver_step.flushed] driver_reachable.stepped [OF _ driver_step.stored]
        admitted_reachable [OF quiet_created])
qed

theorem watchdog_catches_stalls_witness: "lastReconnect (tick (tick busy_driver)) = Some ByStall"
proof -
  have t: "connected (tick busy_driver)" "client (tick busy_driver) = client busy_driver"
    using at_rest(3,9) [OF busy_facts(1)] busy_facts(2-4) ready_in_flight by (auto simp: tick_def Let_def tended_def)
  from watchdog_catches_stalls [OF busy_facts(1,2) t(1), of "tick busy_driver" "[]" 1] show ?thesis
    using t busy_facts(4) ready_in_flight by simp
qed

end
