(* ===== verification/Sync_System.thy ===== *)
theory Sync_System
  imports Hub Connection
begin

text \<open>
  The hub of \<open>Hub\<close> and the replicas of \<open>Client\<close> together: the frames the one sends are the frames
  the other takes. A replica that joins catches up with the log, and what a replica sends reaches
  every other replica.
\<close>

section \<open>The hub and its replicas\<close>

text \<open>The frames the hub cuts are the frames the client reassembles.\<close>

lemma frames_agree:
  "entry_frames e = frames_of (EntryFrame (fst e)) (snd e)" "snapshot_frames e = frames_of (SnapshotFrame (fst e)) (snd e)"
  by (simp_all add: entry_frames_def snapshot_frames_def frames_of_def)

lemma reachable_open:
  assumes "hub_reachable g init J h" and "script h = []" and "current_generation (tables (store h)) = Some g"
    and "lifetime h \<noteq> None"
  shows "quiet g h" and "settled h"
proof -
  have "\<not> zombie g J {} init h" using assms(3,4) by (auto simp: zombie_def gone_def generation_of_def)
  then have sy: "synced g J {} init {} h" using hub_reachable_inv [OF assms(1)] by (simp add: hub_inv_def)
  then show "quiet g h" using assms(2,3) by (auto simp: quiet_def synced_def alive_def core_def)
  show "settled h" using hub_reachable_settled [OF assms(1)] by simp
qed

text \<open>
  What a log carries: the operations of its newest snapshot and of every later entry. A document
  is \<^emph>\<open>level\<close> with the log at position \<open>p\<close> when it holds everything the log holds up to there;
  below the snapshot nothing is required, because the snapshot is sent whole.
\<close>

definition log_ops :: "(bytes \<Rightarrow> 'o set) \<Rightarrow> db \<Rightarrow> 'o set" where
  "log_ops ops d = (if snapshots d = [] then {} else ops (snd (last (snapshots d)))) \<union> (\<Union>e\<in>set (log_entries d). ops (snd e))"

definition level :: "(bytes \<Rightarrow> 'o set) \<Rightarrow> db \<Rightarrow> nat \<Rightarrow> 'o set \<Rightarrow> bool" where
  "level ops d p known \<longleftrightarrow> (snapshotPosition d \<le> p \<longrightarrow>
     (snapshots d \<noteq> [] \<longrightarrow> ops (snd (last (snapshots d))) \<subseteq> known)
     \<and> (\<forall>e\<in>set (log_entries d). fst e \<le> p \<longrightarrow> ops (snd e) \<subseteq> known))"

text \<open>The payloads a replica at \<open>p\<close> has to take, in order.\<close>

definition unread :: "db \<Rightarrow> nat \<Rightarrow> bytes list" where
  "unread d p = (if p < snapshotPosition d then [snd (last (snapshots d))] else [])
     @ map snd (filter (\<lambda>e. max p (snapshotPosition d) < fst e) (log_entries d))"

lemma takes_content:
  assumes "yjs_laws (yjs_of Y) content ops" and "takes Y d us d'"
  shows "content d' = content d \<union> (\<Union>u\<in>set us. ops u)"
  using assms(2)
proof (induction us arbitrary: d)
  case (Cons u us)
  then obtain d1 where d1: "applyUpdateV2 Y d u = Some d1" "takes Y d1 us d'" by (auto split: option.splits)
  have "content d1 = content d \<union> ops u" using assms(1) d1(1) by (simp add: yjs_laws_def yjs_of_def)
  with Cons.IH [OF d1(2)] show ?case by auto
qed simp

lemma snapshot_of: "0 < snapshotPosition d \<Longrightarrow> log_inv d \<Longrightarrow> snapshots d \<noteq> [] \<and> fst (last (snapshots d)) = snapshotPosition d"
  using snapshotPosition_of [of d] by (auto simp: base_position_def split: if_splits)

lemma entries_after_snapshot:
  assumes "log_inv d" and "e \<in> set (log_entries d)" shows "snapshotPosition d < fst e"
proof -
  have "fst e \<in> set (map fst (log_entries d))" using assms(2) by simp
  also have "map fst (log_entries d) = [snapshotPosition d + 1..<snapshotPosition d + 1 + length (log_entries d)]"
    using assms(1) snapshotPosition_of [OF assms(1)] by (simp add: log_inv_def log_state_def)
  finally show ?thesis by auto
qed

lemma unread_level:
  assumes "log_inv d" and "level ops d p known"
  shows "known \<union> (\<Union>u\<in>set (unread d p). ops u) = known \<union> log_ops ops d"
proof (cases "p < snapshotPosition d")
  case True
  then have "snapshots d \<noteq> []" using snapshot_of [OF _ assms(1)] by auto
  moreover have "filter (\<lambda>e. max p (snapshotPosition d) < fst e) (log_entries d) = log_entries d"
    using True entries_after_snapshot [OF assms(1)] by (simp add: max_def)
  ultimately show ?thesis using True by (simp add: unread_def log_ops_def)
next
  case False
  let ?E = "set (log_entries d)"
  have later: "(\<Union>u\<in>set (unread d p). ops u) = (\<Union>e\<in>{e \<in> ?E. p < fst e}. ops (snd e))"
    using False by (simp add: unread_def max_def)
  have "ops (snd e) \<subseteq> known" if "e \<in> ?E" "\<not> p < fst e" for e
    using assms(2) False that by (simp add: level_def)
  then have "known \<union> (\<Union>e\<in>{e \<in> ?E. p < fst e}. ops (snd e)) = known \<union> (\<Union>e\<in>?E. ops (snd e))" by blast
  moreover have "(if snapshots d = [] then {} else ops (snd (last (snapshots d)))) \<subseteq> known"
    using assms(2) False by (simp add: level_def)
  ultimately show ?thesis unfolding later log_ops_def by blast
qed

text \<open>Catching up: what the hub sends a newcomer brings its replica to the head.\<close>

lemma feed_missing:
  assumes "log_inv d" and "position c \<le> head d" and "head d < 2 ^ 32"
    and fresh: "inbound c = createChunkCollector CLIENT_BUFFER_CEILING_BYTES" "usable (engine c)"
    and small: "\<forall>u\<in>set (unread d (position c)). length u \<le> CLIENT_BUFFER_CEILING_BYTES"
    and takes: "takes Y (document (engine c)) (unread d (position c)) doc"
  shows "\<exists>k. feed Y (map encodeFrame (missing (position c) (head d) d)) c =
    c\<lparr>engine := (engine c)\<lparr>document := doc, controller := k\<rparr>, position := head d\<rparr>"
proof -
  let ?p = "max (position c) (snapshotPosition d)"
  let ?es = "filter (\<lambda>e. ?p < fst e) (log_entries d)"
  have le: "fst e \<le> head d" if "e \<in> set (log_entries d)" for e
    using log_state_below_head [of d "snapshots d" "log_entries d" e] assms(1) that by (simp add: log_inv_def)
  have es: "filter (\<lambda>e. ?p < fst e \<and> fst e \<le> head d) (log_entries d) = ?es" using le by (auto intro: filter_cong)
  have nums: "map fst ?es = [?p + 1..<head d + 1]" by (rule entry.above_numbers [OF assms(1)]) simp
  obtain c1 k1 doc1 where c1: "feed Y (map encodeFrame (if position c < snapshotPosition d then snapshot_frames (last (snapshots d)) else [])) c = c1"
    "c1 = c\<lparr>engine := (engine c)\<lparr>document := doc1, controller := k1\<rparr>, position := ?p\<rparr>" "takes Y doc1 (map snd ?es) doc"
  proof (cases "position c < snapshotPosition d")
    case True
    let ?s = "last (snapshots d)"
    have s: "fst ?s = snapshotPosition d" using snapshot_of [OF _ assms(1)] True by auto
    obtain doc1 where doc1: "applyUpdateV2 Y (document (engine c)) (snd ?s) = Some doc1" "takes Y doc1 (map snd ?es) doc"
      using takes True by (auto simp: unread_def split: option.splits)
    have sm: "length (snd ?s) \<le> CLIENT_BUFFER_CEILING_BYTES" using small True by (simp add: unread_def)
    have "feed Y (map encodeFrame (frames_of (SnapshotFrame (fst ?s)) (snd ?s))) c = fst (adopt Y (fst ?s) (snd ?s) c)"
      by (rule feed_snapshot) (use sm fresh s snapshotPosition_head [of d] assms(3) in
        \<open>auto simp: createChunkCollector_def CLIENT_BUFFER_CEILING_BYTES_def\<close>)
    also have "\<dots> = c\<lparr>engine := (engine c)\<lparr>document := doc1, controller := append_update (snd ?s) (Some (fst ?s)) (controller (engine c))\<rparr>,
        position := snapshotPosition d\<rparr>"
      using take_remote_ok [OF fresh(2) doc1(1), of "fst ?s"] True by (simp add: adopt_def s)
    finally show ?thesis using True doc1(2) by (intro that) (auto simp: frames_agree max_def)
  next
    case False
    then show ?thesis using takes by (intro that [of c "controller (engine c)" "document (engine c)"]) (auto simp: unread_def max_def)
  qed
  have "length ?es = length (map fst ?es)" by simp
  also have "\<dots> = head d - ?p" unfolding nums length_upt by simp
  finally have len: "length ?es = head d - ?p" .
  have le_p: "?p \<le> head d" using assms(2) snapshotPosition_head by simp
  have "map fst ?es = [Suc (position c1)..<Suc (position c1 + length ?es)]" using nums len le_p by (simp add: c1(2) del: upt_Suc)
  moreover have "roomy ?es c1"
    using fresh small le assms(3) unfolding roomy_def c1 unread_def by (force simp: le_less_trans)
  ultimately have "feed Y (map encodeFrame (concat (map (\<lambda>e. frames_of (EntryFrame (fst e)) (snd e)) ?es))) c1 =
    c1\<lparr>engine := (engine c1)\<lparr>document := doc, controller := appended ?es (controller (engine c1))\<rparr>, position := position c1 + length ?es\<rparr>"
    using c1(2,3) by (intro feed_entries) simp_all
  moreover have "map encodeFrame (missing (position c) (head d) d) =
      map encodeFrame (if position c < snapshotPosition d then snapshot_frames (last (snapshots d)) else [])
      @ map encodeFrame (concat (map (\<lambda>e. frames_of (EntryFrame (fst e)) (snd e)) ?es))"
    unfolding missing_def es frames_agree map_append ..
  ultimately show ?thesis using c1(1) len le_p
    by (intro exI [of _ "appended ?es k1"]) (simp add: feed_append c1(2))
qed

definition news :: "nat \<Rightarrow> hub \<Rightarrow> hub \<Rightarrow> bytes list" where
  "news c h h' = drop (length (bytes_to c (wire h))) (bytes_to c (wire h'))"

lemma bytes_to_append: "bytes_to c (v @ w) = bytes_to c v @ bytes_to c w"
  by (simp add: bytes_to_def)

lemma bytes_to_frames [simp]: "bytes_to c (map (\<lambda>f. (x, encodeFrame f)) fs) = (if x = c then map encodeFrame fs else [])"
  by (induction fs) (simp_all add: bytes_to_def del: encodeFrame.simps)

lemma client_ignores_admitted: "fst (client_receive Y (encodeFrame AdmittedFrame) cl) = cl"
proof -
  have "decodeFrame (encodeFrame AdmittedFrame) = Inr AdmittedFrame" by (rule decode_encode) simp_all
  then show ?thesis by (simp add: client_receive_def del: encodeFrame.simps)
qed

text \<open>
  Claim C6 (joining_replica_catches_up). A replica joins a quiet hub at its own cursor, which is no
  further than the head of the log, and its document is level with the log there: it holds everything
  the log carries up to that cursor, or the cursor is below the snapshot. Then it is sent everything it
  lacks: when it takes those bytes its cursor is the head of the log, its document holds what it held
  and everything the log carries, and no error or resync is raised. A replica with no work of its own
  then holds exactly the log, so two of them hold the same. Besides, the head of the log is below the
  wire's bound of 2^32, each payload is at most 64 MiB, which is what the client buffers, and Yjs
  merges by its laws.
\<close>

theorem joining_replica_catches_up:
  assumes "hub_reachable g init J h" and "script h = []" and "current_generation (tables (store h)) = Some g"
    and "lifetime h \<noteq> None" and "cursors h c = position cl" and "position cl \<le> head (tables (store h))"
    and "head (tables (store h)) < 2 ^ 32" and "inbound cl = createChunkCollector CLIENT_BUFFER_CEILING_BYTES"
    and "usable (engine cl)" and "\<forall>u\<in>set (unread (tables (store h)) (position cl)). length u \<le> CLIENT_BUFFER_CEILING_BYTES"
    and "takes Y (document (engine cl)) (unread (tables (store h)) (position cl)) doc"
    and "yjs_laws (yjs_of Y) content ops" and "level ops (tables (store h)) (position cl) (content (document (engine cl)))"
    and cl': "cl' = feed Y (news c h (fst (join c h))) cl"
  shows "snd (join c h) = Admitted \<and> position cl' = head (tables (store h)) \<and> document (engine cl') = doc
    \<and> content doc = content (document (engine cl)) \<union> log_ops ops (tables (store h))
    \<and> (content (document (engine cl)) \<subseteq> log_ops ops (tables (store h)) \<longrightarrow> content doc = log_ops ops (tables (store h)))
    \<and> lastError cl' = lastError cl \<and> needsResync cl' = needsResync cl"
proof -
  let ?d = "tables (store h)"
  note q = reachable_open [OF assms(1-4)]
  have inv: "log_inv ?d" using q(1) by (simp add: quiet_def authority_inv_def)
  have j: "join c h = (move_cursor c (head ?d) (put c (AdmittedFrame # missing (position cl) (head ?d) ?d)
      (set_collector c (createChunkCollector BUFFER_CEILING_BYTES) h)), Admitted)"
    using join_quiet [OF q, of c] assms(5,6) by simp
  then have "news c h (fst (join c h)) = encodeFrame AdmittedFrame # map encodeFrame (missing (position cl) (head ?d) ?d)"
    using bytes_to_frames [of c c "AdmittedFrame # missing (position cl) (head ?d) ?d"]
    by (simp add: news_def bytes_to_append del: encodeFrame.simps bytes_to_frames)
  moreover obtain k where "feed Y (map encodeFrame (missing (position cl) (head ?d) ?d)) cl =
      cl\<lparr>engine := (engine cl)\<lparr>document := doc, controller := k\<rparr>, position := head ?d\<rparr>"
    using feed_missing [OF inv assms(6-11)] by blast
  ultimately have c: "cl' = cl\<lparr>engine := (engine cl)\<lparr>document := doc, controller := k\<rparr>, position := head ?d\<rparr>"
    unfolding cl' by (simp add: client_ignores_admitted del: encodeFrame.simps)
  have "content doc = content (document (engine cl)) \<union> log_ops ops ?d"
    using takes_content [OF assms(12,11)] unread_level [OF inv assms(13)] by simp
  then show ?thesis unfolding c j by auto
qed

definition newcomer :: "bytes client" where
  "newcomer = sample_client\<lparr>position := 0\<rparr>"

theorem joining_replica_catches_up_witness:
  "set (document (engine (feed live_byte_doc (news 7 sample_hub (fst (join 7 sample_hub))) newcomer))) = {7, 8, 5}"
proof -
  have st: "tables (store sample_hub) = tables first_generation" "script sample_hub = []" "cursors sample_hub 7 = 0"
    "lifetime sample_hub \<noteq> None"
    by (simp_all add: sample_hub_def createSyncHub_def)
  have d: "snapshotPosition (tables first_generation) = 1" "snapshots (tables first_generation) = [(1, [5])]"
    "log_entries (tables first_generation) = []"
    by (simp_all add: first_generation_eq(1) empty_db_def snapshotPosition_def max_position_def snapshots_def log_entries_def)
  have u: "unread (tables first_generation) 0 = [[5]]" by (simp add: unread_def d)
  have n: "position newcomer = 0" "inbound newcomer = createChunkCollector CLIENT_BUFFER_CEILING_BYTES"
    "engine newcomer = sample_engine"
    by (simp_all add: newcomer_def sample_client_eq)
  have law: "yjs_laws (yjs_of live_byte_doc) set set"
    by (simp add: yjs_laws_def yjs_of_def)
  have "yjs_laws (yjs_of live_byte_doc) set set \<Longrightarrow> ?thesis"
    using joining_replica_catches_up [OF sample_hub_reachable st(2) _ st(4) _ _ _ n(2) _ _ _ law, of 7 "[7, 8, 5]"]
      first_generation_facts(3,4)
    by (simp add: st(1,3) n u d sample_engine_eq level_def CLIENT_BUFFER_CEILING_BYTES_def log_ops_def)
  with law show ?thesis by blast
qed

lemma offer_keeps [simp]:
  "position (fst (offerSnapshot Y p c)) = position c" "engine (fst (offerSnapshot Y p c)) = engine c"
  "needsResync (fst (offerSnapshot Y p c)) = needsResync c"
  by (auto simp: offerSnapshot_def Let_def split: option.split sum.split bool.split)

lemma feed_wanted:
  "p < 2 ^ 32 \<Longrightarrow> fst (client_receive Y (encodeFrame (WantedFrame p)) c) = fst (offerSnapshot Y p c)"
  by (simp add: client_receive_def decode_encode del: encodeFrame.simps)

lemma send_acknowledged:
  "acknowledgedThroughId (controller (engine (fst (send Y c)))) = acknowledgedThroughId (controller (engine c))"
  by (auto simp: send_def Let_def engine_coalesce_def coalesce_def split: option.split sum.split prod.split if_splits)

lemma ack_taken:
  assumes "connection c = Some l" and "outstanding l = Some (n, i)" and "usable (engine c)"
    and "n < 2 ^ 32" and "position c + 1 < 2 ^ 32"
  shows "let c' = fst (client_receive Y (encodeFrame (AckFrame n (position c + 1))) c) in
    position c' = position c + 1 \<and> document (engine c') = document (engine c) \<and> needsResync c' = needsResync c
    \<and> i \<le> acknowledgedThroughId (controller (engine c'))"
proof -
  have r: "client_receive Y (encodeFrame (AckFrame n (position c + 1))) c = receive_ack Y n (position c + 1) c"
    using decode_encode [of "AckFrame n (position c + 1)"] assms(4,5) by (simp add: client_receive_def del: encodeFrame.simps)
  show ?thesis unfolding r receive_ack_def
    using assms(1-3) by (simp add: engine_acknowledge_def Let_def send_acknowledged acknowledge_through_def Persistence.enqueue_def)
qed

lemma send_one_chunk:
  assumes "serene c" and "connection c = Some l" and "outstanding l = None"
    and "engine_coalesce Y (engine c) = Inr (e, Some entry)" and "length (obytes entry) \<le> CHUNK_BYTES"
  shows "fst (Client.send Y c) = c\<lparr>engine := e, owedBytes := length (obytes entry), nextSubmission := nextSubmission c + 1,
    connection := Some (l\<lparr>outstanding := Some (nextSubmission c, oid entry)\<rparr>),
    outbound := outbound c @ [(socket l, encodeFrame (PushFrame (nextSubmission c) 0 1 (obytes entry)))]\<rparr>"
proof -
  have one: "chunks_of (obytes entry) = [obytes entry]" by (rule chunks_of_small) (rule assms(5))
  have r: "reactions c = []" using assms(1) by (simp add: serene_def)
  show ?thesis unfolding Client.send_def using assms(2-4) r
    by (simp add: one socket_send_def Let_def del: encodeFrame.simps)
qed

lemma bytes_to_others:
  "distinct ys \<Longrightarrow> bytes_to c (concat (map (\<lambda>x. map (\<lambda>f. (x, encodeFrame f)) fs) ys)) = (if c \<in> set ys then map encodeFrame fs else [])"
proof (induction ys)
  case Nil
  show ?case by (simp add: bytes_to_def)
next
  case (Cons y ys)
  then show ?case by (cases "y = c") (auto simp: bytes_to_append simp del: encodeFrame.simps)
qed

text \<open>
  Claim C1 (edit_reaches_everyone). One replica sends what it owes to a quiet hub, in one chunk.
  The hub logs exactly those bytes at the next position. Once the author has taken its answer, its
  cursor is that position and the work is marked received, its document unchanged; once another
  member has taken what it was sent, it has applied exactly those bytes and stands at the same
  position. Neither asks to be reconnected.
\<close>

theorem edit_reaches_everyone:
  assumes "hub_reachable g init J h" and "script h = []" and "current_generation (tables (store h)) = Some g"
    and "author \<in> members h" and "other \<in> members h" and "other \<noteq> author"
    and p: "p = head (tables (store h)) + 1" "p < 2 ^ 32"
    and "serene cl" and "connection cl = Some l" and "outstanding l = None" and "position cl + 1 = p"
    and "nextSubmission cl < 2 ^ 32" and "engine_coalesce Y (engine cl) = Inr (e, Some entry)"
    and "length (obytes entry) \<le> CHUNK_BYTES"
    and "position peer + 1 = p" and "inbound peer = createChunkCollector CLIENT_BUFFER_CEILING_BYTES" and "usable (engine peer)"
    and "applyUpdateV2 Y (document (engine peer)) (obytes entry) = Some doc"
    and sent: "sent = fst (Client.send Y cl)" and h': "h' = Hub.receive author (snd (last (outbound sent))) h"
    and cl': "cl' = feed Y (news author h h') sent" and peer': "peer' = feed Y (news other h h') peer"
  shows "log_entries (tables (store h')) = log_entries (tables (store h)) @ [(p, obytes entry)]
    \<and> position cl' = p \<and> document (engine cl') = document (engine cl) \<and> needsResync cl' = needsResync cl
    \<and> oid entry \<le> acknowledgedThroughId (controller (engine cl'))
    \<and> position peer' = p \<and> document (engine peer') = doc \<and> needsResync peer' = needsResync peer"
proof -
  let ?n = "nextSubmission cl" and ?bs = "obytes entry"
  obtain m where m: "lifetime h = Some m" "author \<in> fst ` set (connections m)" "other \<in> fst ` set (connections m)"
    using assms(4,5) by (auto simp: members_def split: option.splits)
  have dm: "distinct (map fst (connections m))"
    using hub_reachable_settled [OF assms(1)] m(1) by (simp add: distinct_members_def)
  have s: "sent = cl\<lparr>engine := e, owedBytes := length ?bs, nextSubmission := ?n + 1,
    connection := Some (l\<lparr>outstanding := Some (?n, oid entry)\<rparr>),
    outbound := outbound cl @ [(socket l, encodeFrame (PushFrame ?n 0 1 ?bs))]\<rparr>"
    unfolding sent by (rule send_one_chunk) (use assms in simp_all)
  have h2: "h' = Hub.receive author (encodeFrame (PushFrame ?n 0 1 ?bs)) h" by (simp add: h' s del: encodeFrame.simps)
  note push = push_effect [OF assms(1-3) m(1,2) assms(13) p(1) h2]
  let ?others = "filter (\<lambda>x. x \<noteq> author) (map fst (connections m))"
  let ?wanted = "if log_shouldSnapshot (snapshotFloorBytes (authority h)) (tables (store h'))
         then [(author, encodeFrame (WantedFrame p))] else []"
  have w: "wire h' = wire h @ [(author, encodeFrame (AckFrame ?n p))]
      @ concat (map (\<lambda>x. map (\<lambda>f. (x, encodeFrame f)) (entry_frames (p, ?bs))) ?others) @ ?wanted"
    using push by blast
  have d: "distinct ?others" using dm by simp
  have na: "\<exists>ws. news author h h' = encodeFrame (AckFrame ?n p) # ws \<and> (ws = [] \<or> ws = [encodeFrame (WantedFrame p)])"
    unfolding news_def w bytes_to_append bytes_to_others [OF d] by (simp add: bytes_to_def del: encodeFrame.simps)
  have no: "news other h h' = map encodeFrame (entry_frames (p, ?bs))"
    unfolding news_def w bytes_to_append bytes_to_others [OF d] using assms(6) m(3)
    by (simp add: bytes_to_def del: encodeFrame.simps)
  have u: "usable (engine sent)" "document e = document (engine cl)"
    using engine_coalesce_frame [OF assms(14)] assms(9) by (simp_all add: s serene_def)
  have ack: "let c' = fst (client_receive Y (encodeFrame (AckFrame ?n p)) sent) in
    position c' = p \<and> document (engine c') = document (engine sent) \<and> needsResync c' = needsResync sent
    \<and> oid entry \<le> acknowledgedThroughId (controller (engine c'))"
    using ack_taken [of sent "l\<lparr>outstanding := Some (?n, oid entry)\<rparr>" ?n "oid entry" Y] assms(12,13) p(2) u(1)
    by (simp add: s del: encodeFrame.simps)
  have "position cl' = p \<and> document (engine cl') = document (engine cl) \<and> needsResync cl' = needsResync cl
    \<and> oid entry \<le> acknowledgedThroughId (controller (engine cl'))"
    using na ack p(2) unfolding cl' by (auto simp: Let_def s feed_wanted u(2) simp del: encodeFrame.simps)
  moreover have "length ?bs < 2 ^ 32 \<and> length ?bs \<le> CLIENT_BUFFER_CEILING_BYTES"
    using assms(15) by (simp add: CHUNK_BYTES_def DO_SQLITE_VALUE_CAP_def CLIENT_BUFFER_CEILING_BYTES_def)
  then have "peer' = fst (apply_entry Y p ?bs peer)"
    using feed_entry [of p ?bs peer Y] p(2) assms(17)
    unfolding peer' no frames_agree by (simp add: createChunkCollector_def)
  then have "position peer' = p \<and> document (engine peer') = doc \<and> needsResync peer' = needsResync peer"
    using take_remote_ok [OF assms(18,19), of p] assms(16) by (auto simp: apply_entry_def)
  ultimately show ?thesis using push by blast
qed

definition pair_hub :: hub where
  "pair_hub = fst (join 8 joined_hub)"

lemma pair_hub_facts:
  "hub_reachable 1 (\<lambda>_. 0) {8, 7} pair_hub" "script pair_hub = []" "tables (store pair_hub) = tables first_generation"
  "members pair_hub = {7, 8}"
proof -
  have c: "cursors joined_hub 8 \<le> head (tables (store joined_hub))" by (simp add: joined_hub_eq)
  show "hub_reachable 1 (\<lambda>_. 0) {8, 7} pair_hub" unfolding pair_hub_def
    by (rule hub_reachable_joined [OF joined_hub_reachable c])
  have s: "script joined_hub = []" "tables (store joined_hub) = tables first_generation" "lifetime joined_hub \<noteq> None"
    "members joined_hub = {7}"
    by (simp_all add: joined_hub_eq sample_hub_def createSyncHub_def members_def)
  have g: "current_generation (tables (store joined_hub)) = Some 1" using s(2) first_generation_facts(3) by simp
  note j = join_quiet [OF reachable_open [OF joined_hub_reachable s(1) g s(3)] c]
  show "script pair_hub = []" "tables (store pair_hub) = tables first_generation" "members pair_hub = {7, 8}"
    unfolding pair_hub_def j using s
    by (simp_all add: move_cursor_def set_collector_def members_def joined_hub_eq insert_commute del: encodeFrame.simps)
qed

theorem edit_reaches_everyone_witness:
  "let cl = ready_client\<lparr>position := 1\<rparr>; peer = sample_client\<lparr>position := 1\<rparr>; sent = fst (Client.send live_byte_doc cl);
       h' = Hub.receive 7 (snd (last (outbound sent))) pair_hub in
   log_entries (tables (store h')) = [(2, [8])]
   \<and> position (feed live_byte_doc (news 7 pair_hub h') sent) = 2
   \<and> document (engine (feed live_byte_doc (news 8 pair_hub h') peer)) = [7, 8, 8]"
proof -
  let ?cl = "ready_client\<lparr>position := 1\<rparr>"
  have l: "log_entries (tables first_generation) = []" by (simp add: first_generation_eq(1) empty_db_def log_entries_def)
  have r: "serene ?cl" "connection ?cl = Some \<lparr>identity = 0, socket = 3, outstanding = None\<rparr>" "nextSubmission ?cl = 1"
    "engine ?cl = engine ready_client"
    by (simp_all add: serene_def ready_client_def sample_client_eq sample_engine_eq)
  note ed = edit_reaches_everyone [OF pair_hub_facts(1,2), of 7 8 2 ?cl "\<lparr>identity = 0, socket = 3, outstanding = None\<rparr>" live_byte_doc
      "sample_engine\<lparr>controller := (controller sample_engine)\<lparr>lastCoalescedId := 2\<rparr>\<rparr>" "\<lparr>oid = 2, obytes = [8]\<rparr>"
      "sample_client\<lparr>position := 1\<rparr>" "[7, 8, 8]" _ _ _ _, OF _ _ _ _ _ _ r(1,2) _ _ _ _ _ _ _ _ _ HOL.refl HOL.refl HOL.refl HOL.refl]
  show ?thesis using ed pair_hub_facts(3,4) first_generation_facts(3,4) r ready_coalesce
    by (simp add: Let_def l sample_client_eq sample_engine_eq CHUNK_BYTES_def DO_SQLITE_VALUE_CAP_def)
qed

end
