(* ===== verification/Folder_Storage.thy ===== *)
theory Folder_Storage
  imports Js_Text
begin

text \<open>
  Captures and single publications of a folder: \<^verbatim>\<open>packages/folder/src/capture.ts\<close>, the types of
  \<^verbatim>\<open>boundary.ts\<close> and the one-change publications of \<^verbatim>\<open>storage.ts\<close>. The storages themselves, in
  \<^verbatim>\<open>native-store.ts\<close>, \<^verbatim>\<open>opfs-store.ts\<close> and the desktop owner, are not modelled: what one answers is an
  argument, and \<open>answers\<close> is what they promise of one path. It is what their headers say and no more: the
  guard is checked by best effort, and is no compare-and-swap against other programs. The digest is an
  argument too. The \<^verbatim>\<open>cause\<close> an error carries is left out.
\<close>

section \<open>Text and captures\<close>

record file_capture =
  cpath :: jsstring
  sha256 :: jsstring

definition fileCapture :: "jsstring \<Rightarrow> jsstring \<Rightarrow> file_capture" where
  "fileCapture p sha = \<lparr>cpath = p, sha256 = sha\<rparr>"

text \<open>
  The decoder that is fatal and keeps a byte order mark: it accepts exactly the bytes that the
  encoder writes.
\<close>

definition strict_decode :: "bytes \<Rightarrow> jsstring option" where
  "strict_decode bs =
     (let s = from_scalars (utf8_decode 0 0 0x80 0xBF (map unat bs)) in if text_encode s = bs then Some s else None)"

definition submittedText :: "jsstring \<Rightarrow> bytes \<times> jsstring option" where
  "submittedText t = (text_encode t, strict_decode (text_encode t))"

section \<open>Changes and their outcomes\<close>

datatype file_change =
    CreateFile jsstring bytes jsstring
  | OverwriteFile jsstring bytes jsstring
  | ReplaceFile jsstring bytes jsstring "jsstring option"   \<comment> \<open>path, bytes, sha256, expectedSha256\<close>
  | RemoveFile jsstring "jsstring option"
  | MoveFile jsstring jsstring "jsstring option"

datatype file_step = WriteStep jsstring | RemoveStep jsstring | MoveStep jsstring jsstring

datatype file_error =
    InvalidPath jsstring jsstring
  | NotFound jsstring
  | Exists jsstring
  | ConflictAt jsstring jsstring "jsstring option"
  | NotAFile jsstring
  | NotADirectory jsstring
  | DirectoryNotEmpty jsstring
  | Io jsstring jsstring
  | Unconfirmed jsstring jsstring
  | FolderClosed

text \<open>A batch that failed in part: the steps that landed, the one that failed, and why.\<close>

datatype apply_error = FileFailed file_error | Partial "file_step list" file_step file_error

datatype one_error = OneFile file_error | SourceNotRemoved jsstring jsstring file_capture file_error

fun step_paths :: "file_step \<Rightarrow> jsstring list" where
  "step_paths (WriteStep p) = [p]"
| "step_paths (RemoveStep p) = [p]"
| "step_paths (MoveStep p q) = [p, q]"

fun change_paths :: "file_change \<Rightarrow> jsstring list" where
  "change_paths (CreateFile p bs sha) = [p]"
| "change_paths (OverwriteFile p bs sha) = [p]"
| "change_paths (ReplaceFile p bs sha expected) = [p]"
| "change_paths (RemoveFile p expected) = [p]"
| "change_paths (MoveFile p q expected) = [p, q]"

fun is_unconfirmed :: "file_error \<Rightarrow> bool" where
  "is_unconfirmed (Unconfirmed p what) = True"
| "is_unconfirmed _ = False"

definition mayHaveChanged :: "file_change list \<Rightarrow> apply_error option \<Rightarrow> jsstring list" where
  "mayHaveChanged changes error =
     (case error of
        None \<Rightarrow> concat (map change_paths changes)
      | Some (Partial applied failed e) \<Rightarrow> concat (map step_paths applied) @ (if is_unconfirmed e then step_paths failed else [])
      | Some (FileFailed e) \<Rightarrow> if is_unconfirmed e then concat (map change_paths changes) else [])"

text \<open>What one change came to. A move states the hash it was guarded by.\<close>

definition applyOne :: "file_change \<Rightarrow> apply_error option \<Rightarrow> (one_error, unit) result" where
  "applyOne change error =
     (case error of
        None \<Rightarrow> Inr ()
      | Some (FileFailed e) \<Rightarrow> Inl (OneFile e)
      | Some (Partial applied failed e) \<Rightarrow>
          (case change of
             MoveFile p q (Some expected) \<Rightarrow>
               if applied = [WriteStep q] then Inl (SourceNotRemoved p q (fileCapture q expected) e)
               else Inl (OneFile (Unconfirmed p (js ''publishing'')))
           | _ \<Rightarrow> Inl (OneFile (Unconfirmed (hd (change_paths change)) (js ''publishing'')))))"

text \<open>
  \<open>replaceCaptured\<close>: \<open>applied\<close> is what the storage answered the change, \<open>reread\<close> what it answers a read
  of the path, which is asked only when the outcome is unconfirmed.
\<close>

definition replaceCaptured ::
    "(bytes \<Rightarrow> jsstring) \<Rightarrow> file_capture \<Rightarrow> bytes \<Rightarrow> apply_error option \<Rightarrow> (file_error, bytes \<times> jsstring) result \<Rightarrow> (one_error, file_capture) result" where
  "replaceCaptured hash f bs applied reread =
     (let sha = hash bs in
      case applyOne (ReplaceFile (cpath f) bs sha (Some (sha256 f))) applied of
        Inr u \<Rightarrow> Inr (fileCapture (cpath f) sha)
      | Inl (OneFile (Unconfirmed p what)) \<Rightarrow>
          (case reread of
             Inr (now, nowSha) \<Rightarrow>
               if nowSha = sha then Inr (fileCapture (cpath f) sha) else Inl (OneFile (Unconfirmed p what))
           | Inl e \<Rightarrow> Inl (OneFile (Unconfirmed p what)))
      | Inl e \<Rightarrow> Inl e)"

section \<open>The contract of a storage\<close>

text \<open>Whether a change may land over the content of its path, and what it leaves there.\<close>

fun condition :: "(bytes \<Rightarrow> jsstring) \<Rightarrow> file_change \<Rightarrow> bytes option \<Rightarrow> bool" where
  "condition hash (CreateFile p bs sha) now = (now = None)"
| "condition hash (OverwriteFile p bs sha) now = True"
| "condition hash (ReplaceFile p bs sha expected) now =
     (case now of None \<Rightarrow> False | Some cur \<Rightarrow> expected = None \<or> expected = Some (hash cur))"
| "condition hash (RemoveFile p expected) now =
     (case now of None \<Rightarrow> False | Some cur \<Rightarrow> expected = None \<or> expected = Some (hash cur))"
| "condition hash (MoveFile p q expected) now =
     (case now of None \<Rightarrow> False | Some cur \<Rightarrow> expected = None \<or> expected = Some (hash cur))"

fun leaves :: "file_change \<Rightarrow> bytes option" where
  "leaves (CreateFile p bs sha) = Some bs"
| "leaves (OverwriteFile p bs sha) = Some bs"
| "leaves (ReplaceFile p bs sha expected) = Some bs"
| "leaves (RemoveFile p expected) = None"
| "leaves (MoveFile p q expected) = None"

text \<open>
  A change lands when the content the storage looked at last (\<open>now\<close>) meets its condition. By the time it
  publishes, another program may have put anything there (\<open>late\<close>), and those bytes are displaced; only a
  replacement still requires that something is there.
\<close>

fun lands :: "(bytes \<Rightarrow> jsstring) \<Rightarrow> file_change \<Rightarrow> bytes option \<Rightarrow> bytes option \<Rightarrow> bool" where
  "lands hash (ReplaceFile p bs sha expected) now late = (condition hash (ReplaceFile p bs sha expected) now \<and> late \<noteq> None)"
| "lands hash change now late = condition hash change now"

lemma lands_condition: "lands hash change now late \<Longrightarrow> condition hash change now"
  by (cases change) simp_all

text \<open>
  One change at its path: the content it was checked against, the content it was published over and the content it
  left. An error wrote nothing, unless the outcome is unconfirmed or partial.
\<close>

inductive answers :: "(bytes \<Rightarrow> jsstring) \<Rightarrow> file_change \<Rightarrow> bytes option \<Rightarrow> bytes option \<Rightarrow> bytes option \<Rightarrow> apply_error option \<Rightarrow> bool"
  for hash where
  landed: "lands hash change now late \<Longrightarrow> answers hash change now late (leaves change) None"
| refused: "\<not> is_unconfirmed e \<Longrightarrow> answers hash change now late late (Some (FileFailed e))"
| unknown: "is_unconfirmed e \<Longrightarrow> after = late \<or> (lands hash change now late \<and> after = leaves change) \<Longrightarrow>
    answers hash change now late after (Some (FileFailed e))"
| partial: "after = late \<or> (lands hash change now late \<and> after = leaves change) \<Longrightarrow>
    answers hash change now late after (Some (Partial applied failed e))"

inductive_cases answers_landedE: "answers hash change now late after None"
inductive_cases answers_errorE: "answers hash change now late after (Some e)"

text \<open>A read of the path.\<close>

definition reads_file :: "(bytes \<Rightarrow> jsstring) \<Rightarrow> jsstring \<Rightarrow> bytes option \<Rightarrow> (file_error, bytes \<times> jsstring) result \<Rightarrow> bool" where
  "reads_file hash p now r \<longleftrightarrow>
     (case r of
        Inr (bs, sha) \<Rightarrow> now = Some bs \<and> sha = hash bs
      | Inl (NotFound q) \<Rightarrow> q = p \<and> now = None
      | Inl e \<Rightarrow> True)"

section \<open>Decoding\<close>

lemma strict_decode_sound: "strict_decode bs = Some s \<Longrightarrow> text_encode s = bs"
  by (auto simp: strict_decode_def Let_def split: if_splits)

lemma applyOne_error:
  "applyOne change (Some e) = Inl (OneFile f) \<Longrightarrow> \<not> is_unconfirmed f \<Longrightarrow> e = FileFailed f"
  by (auto simp: applyOne_def split: apply_error.splits file_change.splits option.splits if_splits)

lemma scalars_ok: "\<forall>u\<in>set s. u < 0x10000 \<Longrightarrow> c \<in> set (to_scalars s) \<Longrightarrow> scalar c"
proof (induction s arbitrary: c rule: to_scalars.induct)
  case (3 u v us)
  show ?case
  proof (cases "high_surrogate u \<and> low_surrogate v")
    case True
    define m k where "m = u - 0xD800" and "k = v - 0xDC00"
    then have "m < 1024" "k < 1024" using True unfolding high_surrogate_def low_surrogate_def by auto
    then have "scalar (0x10000 + m * 0x400 + k)" by (simp add: scalar_def)
    with True 3 show ?thesis by (auto simp: m_def k_def)
  next
    case False
    then have "to_scalars (u # v # us) = (if high_surrogate u \<or> low_surrogate u then 0xFFFD else u) # to_scalars (v # us)" by simp
    with False 3 show ?thesis by (auto simp: scalar_def high_surrogate_def low_surrogate_def split: if_splits)
  qed
qed (auto simp: scalar_def high_surrogate_def low_surrogate_def)

lemma to_scalars_units_of: "scalar c \<Longrightarrow> to_scalars (units_of c @ us) = c # to_scalars us"
proof (cases "c < 0x10000")
  case True
  assume "scalar c"
  with True show ?thesis by (cases us) (auto simp: units_of_def scalar_def high_surrogate_def low_surrogate_def)
next
  case False
  assume c: "scalar c"
  define d where "d = c - 0x10000"
  have d: "c = 0x10000 + d" "d < 0x100000" using c False by (simp_all add: d_def scalar_def)
  then have "units_of c = [0xD800 + d div 0x400, 0xDC00 + d mod 0x400]" by (simp add: units_of_def)
  moreover have "high_surrogate (0xD800 + d div 0x400)" "low_surrogate (0xDC00 + d mod 0x400)"
    using d(2) by (simp_all add: high_surrogate_def low_surrogate_def)
  ultimately show ?thesis using d(1) by simp
qed

lemma to_scalars_from_scalars: "\<forall>c\<in>set cs. scalar c \<Longrightarrow> to_scalars (from_scalars cs) = cs"
  by (induction cs) (simp_all add: from_scalars_def to_scalars_units_of)

lemma decode_encoded:
  assumes "\<forall>u\<in>set s. u < 0x10000"
  shows "from_scalars (utf8_decode 0 0 0x80 0xBF (map unat (text_encode s))) = from_scalars (to_scalars s)"
    and "text_encode (from_scalars (to_scalars s)) = text_encode s"
proof -
  have sc: "\<forall>c\<in>set (to_scalars s). scalar c" using scalars_ok [OF assms] by blast
  have "map unat (text_encode s) = concat (map utf8_of (to_scalars s))"
    unfolding text_encode_def map_map using sc by (intro map_idI) (auto dest!: utf8_of_byte simp: unat_of_nat)
  then show "from_scalars (utf8_decode 0 0 0x80 0xBF (map unat (text_encode s))) = from_scalars (to_scalars s)"
    using utf8_decode_concat [OF sc] by simp
  show "text_encode (from_scalars (to_scalars s)) = text_encode s"
    by (simp add: text_encode_def to_scalars_from_scalars [OF sc])
qed

lemma strict_decode_encode: "\<forall>u\<in>set s. u < 0x10000 \<Longrightarrow> strict_decode (text_encode s) = Some (from_scalars (to_scalars s))"
  using decode_encoded [of s] by (simp add: strict_decode_def Let_def)

lemma strict_decode_well_formed: "well_formed s \<Longrightarrow> strict_decode (text_encode s) = Some s"
proof -
  assume w: "well_formed s"
  have "\<forall>u\<in>set s. u < 0x10000" using w
    by (induction s rule: well_formed.induct) (auto simp: high_surrogate_def low_surrogate_def split: if_splits)
  then show ?thesis using strict_decode_encode well_formed_scalars [OF w] by simp
qed

section \<open>Properties\<close>

text \<open>
  The text a save reports is exactly what a read of the saved bytes
  decodes to, whatever was typed; it is what was typed when no surrogate is unpaired.
\<close>

theorem submitted_text_is_what_is_saved:
  assumes "\<forall>u\<in>set t. u < 0x10000"
  shows "case submittedText t of (bs, shown) \<Rightarrow>
    \<exists>s. shown = Some s \<and> strict_decode bs = Some s \<and> text_encode s = bs \<and> (well_formed t \<longrightarrow> s = t)"
  using strict_decode_encode [OF assms] decode_encoded(2) [OF assms] well_formed_scalars [of t] by (simp add: submittedText_def)

theorem submitted_text_is_what_is_saved_witness:
  "\<exists>s. snd (submittedText [97, 0xD800]) = Some s \<and> text_encode s = text_encode [97, 0xD800]"
proof -
  have "\<forall>u\<in>set [97, 0xD800]. u < (0x10000 :: nat)" by simp
  from submitted_text_is_what_is_saved [OF this] show ?thesis by (auto simp: submittedText_def)
qed

text \<open>
  What a guarded replacement says is so. A capture returned means the
  bytes sent are in the file: the change landed, or the read that checked an unconfirmed reply found
  them; the content the storage checked was the one captured. Any error but an unconfirmed one means the
  storage wrote nothing. Hypothesis: the digest tells the contents apart.
\<close>

theorem a_confirmed_save_landed:
  assumes "inj hash" and "answers hash (ReplaceFile (cpath f) bs (hash bs) (Some (sha256 f))) now late after applied"
    and "reads_file hash (cpath f) seen reread"
  shows "case replaceCaptured hash f bs applied reread of
      Inr c \<Rightarrow> c = fileCapture (cpath f) (hash bs) \<and> (after = Some bs \<or> seen = Some bs)
        \<and> (applied = None \<longrightarrow> (\<exists>cur. now = Some cur \<and> hash cur = sha256 f))
    | Inl (OneFile e) \<Rightarrow> is_unconfirmed e \<or> after = late
    | Inl e \<Rightarrow> False"
proof (cases applied)
  case None
  with assms(2) have "condition hash (ReplaceFile (cpath f) bs (hash bs) (Some (sha256 f))) now" "after = Some bs"
    by (auto elim: answers_landedE dest: lands_condition)
  with None show ?thesis by (auto simp: replaceCaptured_def applyOne_def Let_def split: option.splits)
next
  case (Some e)
  have seen: "seen = Some bs" if "reread = Inr (now', hash bs)" for now'
    using that assms(1,3) by (auto simp: reads_file_def dest: injD)
  show ?thesis
  proof (cases e)
    case (FileFailed g)
    then have "is_unconfirmed g \<or> after = late" using assms(2) Some by (auto elim: answers_errorE)
    then show ?thesis using Some FileFailed seen
      by (cases g) (auto simp: replaceCaptured_def applyOne_def Let_def split: sum.splits)
  next
    case (Partial applied' failed g)
    then show ?thesis using Some seen by (auto simp: replaceCaptured_def applyOne_def Let_def split: sum.splits)
  qed
qed

theorem a_confirmed_save_landed_witness:
  "replaceCaptured (map unat) (fileCapture (js ''a'') [1]) [2] (Some (FileFailed (Unconfirmed (js ''a'') []))) (Inr ([2], [2]))
     = Inr (fileCapture (js ''a'') [2])"
proof -
  let ?hash = "map unat :: bytes \<Rightarrow> jsstring" and ?f = "fileCapture (js ''a'') [1]"
  have "inj (unat :: byte \<Rightarrow> nat)" by (simp add: inj_on_def word_unat_eq_iff)
  then have inj: "inj ?hash" by (simp add: inj_mapI)
  have "answers ?hash (ReplaceFile (cpath ?f) [2] (?hash [2]) (Some (sha256 ?f))) (Some [1]) (Some [1]) (Some [2])
      (Some (FileFailed (Unconfirmed (js ''a'') [])))"
    by (rule answers.unknown) (simp_all add: fileCapture_def)
  moreover have "reads_file ?hash (cpath ?f) (Some [2]) (Inr ([2], [2]))" by (simp add: reads_file_def)
  ultimately show ?thesis using a_confirmed_save_landed [OF inj, of ?f "[2]" "Some [1]" "Some [1]" "Some [2]"]
    by (fastforce simp: replaceCaptured_def applyOne_def fileCapture_def Let_def)
qed

end
