(* ===== verification/Autosave.thy ===== *)
theory Autosave
  imports Folder_Storage
begin

text \<open>
  Snapshot saves of one editing session, \<^verbatim>\<open>packages/folder/src/autosave.ts\<close>: the state that
  \<open>createAutosave\<close> closes over (\<open>session\<close>), what \<open>request\<close>, \<open>publish\<close> and \<open>writeFrom\<close> do to it, and the
  steps of a session. The writer is the environment: a step says what it answered. The observer is data: for
  each notification, the values it requests before it returns or throws, which happens inside the
  notification. \<open>prepare\<close> is an argument.
\<close>

section \<open>State\<close>

datatype 'e save_error = SaveError 'e | UnexpectedWriterError

datatype 'e status = Saved | Saving | Failed "'e save_error"

text \<open>Where the running write stands: behind the yield, or called with its guard.\<close>

datatype 's flight = Queued 's | Writing 's file_capture

text \<open>
  \<open>batch\<close> is the promise of the running work, by its number; \<open>resolved\<close> what the promises resolved to.
  \<open>asked\<close> and \<open>told\<close> record the values requested and the states published, and \<open>reactions\<close> what the
  observer is still to request.
\<close>

record ('v, 's, 'e) session =
  confirmed :: file_capture
  state :: "'e status \<times> file_capture"
  pending :: "'s option"
  refused :: "'e option"
  batch :: "nat option"
  flight :: "'s flight option"
  resolved :: "('e status \<times> file_capture) list"
  asked :: "'v list"
  told :: "('e status \<times> file_capture) list"
  reactions :: "'v list list"

definition createAutosave :: "file_capture \<Rightarrow> 'v list list \<Rightarrow> ('v, 's, 'e) session" where
  "createAutosave opened rs = \<lparr>confirmed = opened, state = (Saved, opened), pending = None, refused = None, batch = None,
     flight = None, resolved = [], asked = [], told = [], reactions = rs\<rparr>"

section \<open>Requests\<close>

text \<open>The state is set, then the observer runs: what it requests now.\<close>

definition notify :: "'e status \<Rightarrow> ('v, 's, 'e) session \<Rightarrow> 'v list \<times> ('v, 's, 'e) session" where
  "notify st a =
     (hd (reactions a @ [[]]),
      a\<lparr>state := (st, confirmed a), told := told a @ [(st, confirmed a)], reactions := tl (reactions a)\<rparr>)"

text \<open>\<open>request\<close> up to the notification it ends with, if any.\<close>

definition request_body :: "('v \<Rightarrow> 'e + 's) \<Rightarrow> 'v \<Rightarrow> ('v, 's, 'e) session \<Rightarrow> ('v, 's, 'e) session \<times> 'e status option" where
  "request_body prepare v a0 =
     (let a = a0\<lparr>asked := asked a0 @ [v]\<rparr> in
      case prepare v of
        Inl e \<Rightarrow> (a\<lparr>pending := None, refused := Some e\<rparr>, Some (Failed (SaveError e)))
      | Inr s \<Rightarrow>
          if batch a \<noteq> None then
            (a\<lparr>refused := None, pending := Some s\<rparr>, if fst (state a) \<noteq> Saving then Some Saving else None)
          else (a\<lparr>refused := None, batch := Some (length (resolved a)), flight := Some (Queued s)\<rparr>, Some Saving))"

text \<open>
  The notification is the last thing a request does, so what the observer requests inside it
  comes before whatever was still to be requested.
\<close>

lemma request_body_reactions: "request_body prepare v a = (a', r) \<Longrightarrow> reactions a' = reactions a"
  by (auto simp: request_body_def Let_def split: sum.splits if_splits)

lemma notify_reactions:
  "notify st a = (us, a') \<Longrightarrow> length (reactions a') < length (reactions a) \<or> (us = [] \<and> reactions a' = reactions a)"
  by (cases "reactions a") (auto simp: notify_def)

function respond :: "('v \<Rightarrow> 'e + 's) \<Rightarrow> 'v list \<Rightarrow> ('v, 's, 'e) session \<Rightarrow> ('v, 's, 'e) session" where
  "respond prepare [] a = a"
| "respond prepare (v # vs) a =
     (case request_body prepare v a of
        (a', None) \<Rightarrow> respond prepare vs a'
      | (a', Some st) \<Rightarrow> (case notify st a' of (us, a'') \<Rightarrow> respond prepare (us @ vs) a''))"
  by pat_completeness auto

termination
  by (relation "measures [\<lambda>(p, vs, a). length (reactions a), \<lambda>(p, vs, a). length vs]")
    (auto dest!: request_body_reactions [OF sym] notify_reactions [OF sym])

definition publish :: "('v \<Rightarrow> 'e + 's) \<Rightarrow> 'e status \<Rightarrow> ('v, 's, 'e) session \<Rightarrow> ('v, 's, 'e) session" where
  "publish prepare st a = (let (us, a') = notify st a in respond prepare us a')"

definition request :: "('v \<Rightarrow> 'e + 's) \<Rightarrow> 'v \<Rightarrow> ('v, 's, 'e) session \<Rightarrow> ('v, 's, 'e) session" where
  "request prepare v a = respond prepare [v] a"

section \<open>Writes\<close>

text \<open>What the writer did: it returned a capture or an error, or it threw.\<close>

datatype 'e outcome = Landed file_capture | Refused 'e | Threw

fun status_of :: "'e outcome \<Rightarrow> 'e status" where
  "status_of (Landed c) = Saved"
| "status_of (Refused e) = Failed (SaveError e)"
| "status_of Threw = Failed UnexpectedWriterError"

text \<open>The first half of \<open>writeFrom\<close>: behind the yield it calls the writer over the confirmed capture.\<close>

definition call_writer :: "('v, 's, 'e) session \<Rightarrow> ('v, 's, 'e) session" where
  "call_writer a = (case flight a of Some (Queued s) \<Rightarrow> a\<lparr>flight := Some (Writing s (confirmed a))\<rparr> | _ \<Rightarrow> a)"

text \<open>The second half.\<close>

definition land :: "'e outcome \<Rightarrow> ('v, 's, 'e) session \<Rightarrow> ('v, 's, 'e) session" where
  "land r a = (case r of Landed c \<Rightarrow> a\<lparr>confirmed := c\<rparr> | _ \<Rightarrow> a)"

definition report :: "('v \<Rightarrow> 'e + 's) \<Rightarrow> 'e outcome \<Rightarrow> ('v, 's, 'e) session \<Rightarrow> ('v, 's, 'e) session" where
  "report prepare r a =
     (if pending a = None
      then publish prepare (case refused a of Some e \<Rightarrow> Failed (SaveError e) | None \<Rightarrow> status_of r) a
      else a)"

definition next_write :: "('v \<Rightarrow> 'e + 's) \<Rightarrow> ('v, 's, 'e) session \<Rightarrow> ('v, 's, 'e) session" where
  "next_write prepare a =
     (case pending a of
        Some s \<Rightarrow>
          (let a1 = a\<lparr>pending := None\<rparr>;
               a2 = (if fst (state a1) \<noteq> Saving then publish prepare Saving a1 else a1) in
           a2\<lparr>flight := Some (Queued s)\<rparr>)
      | None \<Rightarrow> a\<lparr>batch := None, resolved := resolved a @ [state a]\<rparr>)"

definition settle_write :: "('v \<Rightarrow> 'e + 's) \<Rightarrow> 'e outcome \<Rightarrow> ('v, 's, 'e) session \<Rightarrow> ('v, 's, 'e) session" where
  "settle_write prepare r a = next_write prepare (report prepare r (land r (a\<lparr>flight := None\<rparr>)))"

text \<open>\<open>settled()\<close>: wait for the promise of a number, or the state now.\<close>

definition settled :: "('v, 's, 'e) session \<Rightarrow> nat + 'e status \<times> file_capture" where
  "settled a = (case batch a of Some n \<Rightarrow> Inl n | None \<Rightarrow> Inr (state a))"

section \<open>Sessions\<close>

datatype ('v, 's, 'e) event = Requested 'v | Called 's file_capture | Settled "'e outcome"

inductive runs ::
    "('v \<Rightarrow> 'e + 's) \<Rightarrow> file_capture \<Rightarrow> 'v list list \<Rightarrow> ('v, 's, 'e) event list \<Rightarrow> ('v, 's, 'e) session \<Rightarrow> bool"
  for prepare opened rs where
  start: "runs prepare opened rs [] (createAutosave opened rs)"
| requests: "runs prepare opened rs evs a \<Longrightarrow> runs prepare opened rs (evs @ [Requested v]) (request prepare v a)"
| calls: "runs prepare opened rs evs a \<Longrightarrow> flight a = Some (Queued s) \<Longrightarrow>
    runs prepare opened rs (evs @ [Called s (confirmed a)]) (call_writer a)"
| settles: "runs prepare opened rs evs a \<Longrightarrow> flight a = Some (Writing s over) \<Longrightarrow>
    runs prepare opened rs (evs @ [Settled r]) (settle_write prepare r a)"

text \<open>Of a trace: the capture the last landed write confirmed, the last write called, and its outcome.\<close>

definition last_landed :: "file_capture \<Rightarrow> ('v, 's, 'e) event list \<Rightarrow> file_capture" where
  "last_landed opened evs = foldl (\<lambda>c ev. case ev of Settled (Landed d) \<Rightarrow> d | _ \<Rightarrow> c) opened evs"

definition last_call :: "('v, 's, 'e) event list \<Rightarrow> 's option" where
  "last_call evs = foldl (\<lambda>c ev. case ev of Called s over \<Rightarrow> Some s | _ \<Rightarrow> c) None evs"

text \<open>Whether a write runs, then the outcome of the last one.\<close>

definition last_outcome :: "('v, 's, 'e) event list \<Rightarrow> 'e outcome option" where
  "last_outcome evs = foldl (\<lambda>c ev. case ev of Called s over \<Rightarrow> None | Settled r \<Rightarrow> Some r | _ \<Rightarrow> c) None evs"

lemma trace_simps [simp]:
  "last_landed opened [] = opened" "last_call [] = None" "last_outcome [] = None"
  "last_landed opened (evs @ [ev]) = (case ev of Settled (Landed d) \<Rightarrow> d | _ \<Rightarrow> last_landed opened evs)"
  "last_call (evs @ [ev]) = (case ev of Called s over \<Rightarrow> Some s | _ \<Rightarrow> last_call evs)"
  "last_outcome (evs @ [ev]) = (case ev of Called s over \<Rightarrow> None | Settled r \<Rightarrow> Some r | _ \<Rightarrow> last_outcome evs)"
  by (auto simp: last_landed_def last_call_def last_outcome_def split: event.split outcome.split)

section \<open>What requests do while work runs\<close>

text \<open>
  The latest request decides: it failed and nothing waits, or its snapshot waits and the state
  is saving.
\<close>

definition decided :: "('v \<Rightarrow> 'e + 's) \<Rightarrow> ('v, 's, 'e) session \<Rightarrow> bool" where
  "decided prepare a \<longleftrightarrow> asked a \<noteq> [] \<and>
     (case prepare (last (asked a)) of
        Inl e \<Rightarrow> pending a = None \<and> refused a = Some e \<and> fst (state a) = Failed (SaveError e)
      | Inr s \<Rightarrow> pending a = Some s \<and> refused a = None \<and> fst (state a) = Saving)"

definition same_work :: "('v, 's, 'e) session \<Rightarrow> ('v, 's, 'e) session \<Rightarrow> bool" where
  "same_work a b \<longleftrightarrow> batch a = batch b \<and> flight a = flight b \<and> confirmed a = confirmed b \<and> resolved a = resolved b"

lemma same_work_simps [simp]: "same_work a a" "same_work a b \<Longrightarrow> same_work b c \<Longrightarrow> same_work a c"
  by (auto simp: same_work_def)

text \<open>A terminal state names the confirmed capture.\<close>

definition names_confirmed :: "('v, 's, 'e) session \<Rightarrow> bool" where
  "names_confirmed a \<longleftrightarrow> fst (state a) = Saving \<or> snd (state a) = confirmed a"

lemma respond_busy:
  "batch a \<noteq> None \<Longrightarrow> names_confirmed a \<Longrightarrow> vs \<noteq> [] \<or> decided prepare a \<Longrightarrow>
    decided prepare (respond prepare vs a) \<and> same_work a (respond prepare vs a) \<and> names_confirmed (respond prepare vs a)"
proof (induction prepare vs a rule: respond.induct)
  case (2 prepare v vs a)
  obtain a' r where b: "request_body prepare v a = (a', r)" by fastforce
  have w: "same_work a a'" "batch a' \<noteq> None" "names_confirmed a'"
    using b 2(3,4) by (auto simp: request_body_def same_work_def names_confirmed_def Let_def split: sum.splits if_splits)
  show ?case
  proof (cases r)
    case None
    with b 2(3) have d: "decided prepare a'"
      by (auto simp: request_body_def decided_def Let_def split: sum.splits if_splits)
    from 2(1) [OF b [symmetric] None w(2,3)] d w(1) b None show ?thesis by (auto simp: same_work_def)
  next
    case (Some st)
    obtain us a'' where n: "notify st a' = (us, a'')" by fastforce
    have d: "decided prepare a''" and w': "same_work a' a''" "batch a'' \<noteq> None" "names_confirmed a''"
      using b n Some 2(3)
      by (auto simp: request_body_def notify_def decided_def same_work_def names_confirmed_def Let_def split: sum.splits if_splits)
    from 2(2) [OF b [symmetric] Some n [symmetric] w'(2,3)] d w w' b n Some show ?thesis by (auto simp: same_work_def)
  qed
qed simp

lemma publish_busy:
  assumes "batch a \<noteq> None"
  shows "same_work a (publish prepare st a) \<and> names_confirmed (publish prepare st a)
    \<and> (decided prepare (publish prepare st a)
       \<or> (pending (publish prepare st a) = pending a \<and> refused (publish prepare st a) = refused a
          \<and> asked (publish prepare st a) = asked a \<and> fst (state (publish prepare st a)) = st))"
proof -
  obtain us a' where n: "notify st a = (us, a')" by fastforce
  then have a': "batch a' \<noteq> None" "names_confirmed a'" "same_work a a'"
    "pending a' = pending a" "refused a' = refused a" "asked a' = asked a" "fst (state a') = st"
    using assms by (auto simp: notify_def same_work_def names_confirmed_def)
  show ?thesis
  proof (cases us)
    case Nil
    then show ?thesis using n a' by (simp add: publish_def)
  next
    case (Cons v vs)
    then show ?thesis using n a' respond_busy [OF a'(1,2), of us prepare] by (auto simp: publish_def same_work_def)
  qed
qed

section \<open>The session between two steps\<close>

fun in_flight :: "'s flight option \<Rightarrow> 's option" where
  "in_flight None = None"
| "in_flight (Some (Queued s)) = Some s"
| "in_flight (Some (Writing s over)) = Some s"

text \<open>
  The latest request is refused and says so, or it is running or waiting and the state is saving, or it is
  the last write and the state is that write's outcome.
\<close>

definition latest_ok :: "('v \<Rightarrow> 'e + 's) \<Rightarrow> ('v, 's, 'e) event list \<Rightarrow> ('v, 's, 'e) session \<Rightarrow> bool" where
  "latest_ok prepare evs a \<longleftrightarrow>
     (if asked a = [] then batch a = None \<and> fst (state a) = Saved \<and> pending a = None \<and> refused a = None
      else case prepare (last (asked a)) of
        Inl e \<Rightarrow> pending a = None \<and> refused a = Some e \<and> fst (state a) = Failed (SaveError e)
      | Inr s \<Rightarrow> refused a = None \<and>
          (if batch a = None
           then pending a = None \<and> last_call evs = Some s \<and> map_option status_of (last_outcome evs) = Some (fst (state a))
           else fst (state a) = Saving \<and> (pending a = Some s \<or> pending a = None \<and> in_flight (flight a) = Some s)))"

definition session_ok :: "('v \<Rightarrow> 'e + 's) \<Rightarrow> file_capture \<Rightarrow> ('v, 's, 'e) event list \<Rightarrow> ('v, 's, 'e) session \<Rightarrow> bool" where
  "session_ok prepare opened evs a \<longleftrightarrow>
     confirmed a = last_landed opened evs \<and> names_confirmed a \<and> (batch a = None \<longleftrightarrow> flight a = None)
     \<and> (\<forall>s over. flight a = Some (Writing s over) \<longrightarrow> over = confirmed a \<and> last_call evs = Some s)
     \<and> latest_ok prepare evs a"

text \<open>What one request leaves, its notification included.\<close>

definition after_request :: "('v \<Rightarrow> 'e + 's) \<Rightarrow> 'v \<Rightarrow> ('v, 's, 'e) session \<Rightarrow> ('v, 's, 'e) session" where
  "after_request prepare v a =
     (case request_body prepare v a of (a', None) \<Rightarrow> a' | (a', Some st) \<Rightarrow> snd (notify st a'))"

lemma idle_nothing_waits: "latest_ok prepare evs a \<Longrightarrow> batch a = None \<Longrightarrow> pending a = None"
  by (auto simp: latest_ok_def split: if_splits sum.splits)

lemma after_request_ok:
  assumes "session_ok prepare opened evs a"
  shows "session_ok prepare opened evs (after_request prepare v a)"
proof (cases "prepare v")
  case (Inl e)
  then show ?thesis using assms
    by (auto simp: after_request_def request_body_def notify_def session_ok_def latest_ok_def names_confirmed_def Let_def)
next
  case (Inr s)
  show ?thesis
  proof (cases "batch a")
    case None
    with assms have "pending a = None" using idle_nothing_waits by (auto simp: session_ok_def)
    with None Inr assms show ?thesis
      by (auto simp: after_request_def request_body_def notify_def session_ok_def latest_ok_def names_confirmed_def Let_def)
  next
    case (Some n)
    with Inr assms show ?thesis
      by (auto simp: after_request_def request_body_def notify_def session_ok_def latest_ok_def names_confirmed_def Let_def)
  qed
qed

lemma respond_ok: "session_ok prepare opened evs a \<Longrightarrow> session_ok prepare opened evs (respond prepare vs a)"
proof (induction prepare vs a rule: respond.induct)
  case (2 prepare v vs a)
  obtain a' r where b: "request_body prepare v a = (a', r)" by fastforce
  note ok = after_request_ok [OF 2(3), of v, unfolded after_request_def b, simplified]
  show ?case
  proof (cases r)
    case None
    with ok have "session_ok prepare opened evs a'" by simp
    from 2(1) [OF b [symmetric] None this] b None show ?thesis by simp
  next
    case (Some st)
    obtain us a'' where n: "notify st a' = (us, a'')" by fastforce
    with ok Some have "session_ok prepare opened evs a''" by simp
    from 2(2) [OF b [symmetric] Some n [symmetric] this] b n Some show ?thesis by simp
  qed
qed simp

lemma call_ok:
  "session_ok prepare opened evs a \<Longrightarrow> flight a = Some (Queued s) \<Longrightarrow>
    session_ok prepare opened (evs @ [Called s (confirmed a)]) (call_writer a)"
  by (auto simp: session_ok_def call_writer_def latest_ok_def names_confirmed_def split: sum.splits if_splits)

text \<open>Behind the report of a write: the newest request is refused, waits, or is the write itself.\<close>

definition reported :: "('v \<Rightarrow> 'e + 's) \<Rightarrow> 's \<Rightarrow> 'e outcome \<Rightarrow> ('v, 's, 'e) session \<Rightarrow> bool" where
  "reported prepare s r a \<longleftrightarrow> decided prepare a
     \<or> (asked a \<noteq> [] \<and> prepare (last (asked a)) = Inr s \<and> pending a = None \<and> refused a = None \<and> fst (state a) = status_of r)"

lemma report_ok:
  assumes "session_ok prepare opened evs a" and "flight a = Some (Writing s over)"
    and b_def: "b = report prepare r (land r (a\<lparr>flight := None\<rparr>))"
  shows "reported prepare s r b \<and> names_confirmed b \<and> batch b \<noteq> None \<and> flight b = None
    \<and> confirmed b = (case r of Landed c \<Rightarrow> c | _ \<Rightarrow> confirmed a)"
proof -
  let ?a = "land r (a\<lparr>flight := None\<rparr>)"
  have l: "batch ?a = batch a" "pending ?a = pending a" "refused ?a = refused a" "asked ?a = asked a" "state ?a = state a" "flight ?a = None"
    "confirmed ?a = (case r of Landed c \<Rightarrow> c | _ \<Rightarrow> confirmed a)"
    by (simp_all add: land_def split: outcome.split)
  have busy: "batch ?a \<noteq> None" using assms(1,2) l(1) by (auto simp: session_ok_def)
  have lat: "latest_ok prepare evs a" using assms(1) by (simp add: session_ok_def)
  show ?thesis
  proof (cases "pending a")
    case None
    let ?st = "case refused a of Some e \<Rightarrow> Failed (SaveError e) | None \<Rightarrow> status_of r"
    have b: "b = publish prepare ?st ?a" using None by (simp add: b_def report_def l)
    note p = publish_busy [OF busy, of prepare ?st]
    have "decided prepare b \<or> reported prepare s r b"
    proof (cases "decided prepare b")
      case False
      then have q: "pending b = None" "refused b = refused a" "asked b = asked a" "fst (state b) = ?st"
        using p None l b by auto
      have ne: "asked a \<noteq> []" using lat busy l(1) by (auto simp: latest_ok_def split: if_splits)
      show ?thesis
      proof (cases "prepare (last (asked a))")
        case (Inl e)
        then show ?thesis using lat ne q by (simp add: latest_ok_def decided_def)
      next
        case (Inr t)
        then show ?thesis using lat ne q busy l(1) None assms(2) by (auto simp: latest_ok_def reported_def)
      qed
    qed simp
    then show ?thesis using p b l busy by (auto simp: reported_def same_work_def)
  next
    case (Some t)
    then have b: "b = ?a" by (simp add: b_def report_def l)
    have "decided prepare a" "fst (state a) = Saving" using lat Some by (auto simp: latest_ok_def decided_def split: if_splits sum.splits)
    then have "decided prepare b" "fst (state b) = Saving" unfolding b decided_def l by blast+
    then show ?thesis using b l busy by (simp add: reported_def names_confirmed_def)
  qed
qed

lemma next_write_ok:
  assumes "reported prepare s r b" "names_confirmed b" "batch b \<noteq> None" "flight b = None"
    "confirmed b = last_landed opened evs" "last_call evs = Some s" "last_outcome evs = Some r"
  shows "session_ok prepare opened evs (next_write prepare b)"
proof (cases "pending b")
  case None
  then show ?thesis using assms
    by (auto simp: next_write_def session_ok_def latest_ok_def reported_def decided_def names_confirmed_def split: sum.splits)
next
  case (Some t)
  then have d: "decided prepare b" using assms(1) by (simp add: reported_def)
  then have "fst (state b) = Saving" "prepare (last (asked b)) = Inr t" "refused b = None" "asked b \<noteq> []"
    using Some by (auto simp: decided_def split: sum.splits)
  then show ?thesis using Some assms by (auto simp: next_write_def session_ok_def latest_ok_def names_confirmed_def Let_def)
qed

lemma settle_ok:
  assumes "session_ok prepare opened evs a" "flight a = Some (Writing s over)"
  shows "session_ok prepare opened (evs @ [Settled r]) (settle_write prepare r a)"
proof -
  have "last_call evs = Some s" "confirmed a = last_landed opened evs" using assms by (auto simp: session_ok_def)
  then show ?thesis unfolding settle_write_def using report_ok [OF assms refl, of r]
    by (intro next_write_ok [where s = s and r = r]) (auto split: outcome.split)
qed

lemma runs_ok: "runs prepare opened rs evs a \<Longrightarrow> session_ok prepare opened evs a"
proof (induction rule: runs.induct)
  case start
  show ?case by (simp add: session_ok_def createAutosave_def latest_ok_def names_confirmed_def)
next
  case (requests evs a v)
  then have "session_ok prepare opened (evs @ [Requested v]) a"
    by (auto simp: session_ok_def latest_ok_def split: sum.split)
  then show ?case unfolding request_def by (rule respond_ok)
next
  case (calls evs a s)
  then show ?case by (simp add: call_ok)
next
  case (settles evs a s over r)
  then show ?case by (simp add: settle_ok)
qed

lemma landed_last: "last_outcome evs = Some (Landed c) \<Longrightarrow> last_landed opened evs = c"
  by (induction evs rule: rev_induct) (auto split: event.splits outcome.splits)

definition idle_trace :: "('v, 's, 'e) event list \<Rightarrow> bool" where
  "idle_trace evs \<longleftrightarrow> last_call evs = None \<or> last_outcome evs \<noteq> None"

lemma next_write_writing: "flight b = None \<Longrightarrow> batch b \<noteq> None \<Longrightarrow> flight (next_write prepare b) \<noteq> Some (Writing s over)"
  by (auto simp: next_write_def Let_def split: option.split)

lemma respond_flight: "flight (respond prepare vs a) = Some (Writing s over) \<longleftrightarrow> flight a = Some (Writing s over)"
  if "session_ok prepare opened evs a"
proof (cases "batch a \<noteq> None \<and> vs \<noteq> []")
  case True
  then show ?thesis using respond_busy [of a vs prepare] that by (auto simp: session_ok_def same_work_def)
next
  case False
  have "flight (respond prepare vs a) \<noteq> Some (Writing s over)" if "\<forall>s over. flight a \<noteq> Some (Writing s over)" for s over
    using that
  proof (induction prepare vs a rule: respond.induct)
    case (2 prepare v vs a)
    obtain a' r where b: "request_body prepare v a = (a', r)" by fastforce
    then have f: "\<forall>s over. flight a' \<noteq> Some (Writing s over)"
      using 2(3) by (auto simp: request_body_def Let_def split: sum.splits if_splits)
    show ?case
    proof (cases r)
      case None
      with 2(1) [OF b [symmetric] None f] b show ?thesis by simp
    next
      case (Some st)
      obtain us a'' where n: "notify st a' = (us, a'')" by fastforce
      then have "\<forall>s over. flight a'' \<noteq> Some (Writing s over)" using f by (auto simp: notify_def)
      from 2(2) [OF b [symmetric] Some n [symmetric] this] b n Some show ?thesis by simp
    qed
  qed simp
  with False that show ?thesis by (cases "vs = []") (auto simp: session_ok_def)
qed

lemma runs_idle: "runs prepare opened rs evs a \<Longrightarrow> (\<exists>s over. flight a = Some (Writing s over)) \<longleftrightarrow> \<not> idle_trace evs"
proof (induction rule: runs.induct)
  case start
  show ?case by (simp add: createAutosave_def idle_trace_def)
next
  case (requests evs a v)
  then show ?case using respond_flight [OF runs_ok [OF requests(1)], of "[v]"] by (simp add: request_def idle_trace_def)
next
  case (calls evs a s)
  then show ?case by (simp add: call_writer_def idle_trace_def)
next
  case (settles evs a s over r)
  have "flight (settle_write prepare r a) \<noteq> Some (Writing t o')" for t o'
    unfolding settle_write_def using report_ok [OF runs_ok [OF settles(1)] settles(2) refl, of r] by (intro next_write_writing) auto
  then show ?case by (simp add: idle_trace_def)
qed

lemma runs_prefix: "runs prepare opened rs evs a \<Longrightarrow> evs = pre @ ev # post \<Longrightarrow>
    \<exists>b. runs prepare opened rs pre b \<and>
      (case ev of Called s over \<Rightarrow> flight b = Some (Queued s) \<and> over = confirmed b | _ \<Rightarrow> True)"
proof (induction arbitrary: post rule: runs.induct)
  case (requests evs a v)
  then show ?case by (cases post rule: rev_cases) auto
next
  case (calls evs a s)
  then show ?case by (cases post rule: rev_cases) auto
next
  case (settles evs a s over r)
  then show ?case by (cases post rule: rev_cases) auto
qed simp

section \<open>Properties\<close>

text \<open>
  Claim C13 (saved_means_the_latest_landed). Whatever is requested, refused, coalesced, failed or requested from
  inside a notification: when the session says saved after a request, nothing runs, the value requested
  last is the one that was written last, that write landed, and the file named is what it confirmed.
\<close>

theorem saved_means_the_latest_landed:
  assumes "runs prepare opened rs evs a" and "state a = (Saved, f)" and "asked a \<noteq> []"
  shows "\<exists>s. prepare (last (asked a)) = Inr s \<and> last_call evs = Some s \<and> last_outcome evs = Some (Landed f)
    \<and> batch a = None \<and> pending a = None \<and> settled a = Inr (Saved, f)"
proof -
  note ok = runs_ok [OF assms(1), unfolded session_ok_def]
  then obtain s where s: "prepare (last (asked a)) = Inr s"
    using assms(2,3) by (cases "prepare (last (asked a))") (auto simp: latest_ok_def)
  then have idle: "batch a = None" "pending a = None" "last_call evs = Some s" "map_option status_of (last_outcome evs) = Some Saved"
    using ok assms(2,3) by (auto simp: latest_ok_def split: if_splits)
  then obtain r where r: "last_outcome evs = Some r" "status_of r = Saved" by auto
  then obtain c where c: "last_outcome evs = Some (Landed c)" by (cases r) auto
  have "f = last_landed opened evs" using ok assms(2) by (auto simp: names_confirmed_def)
  then have "f = c" using landed_last [OF c] by simp
  with s idle c assms(2) show ?thesis by (simp add: settled_def)
qed

definition even_saves :: "nat \<Rightarrow> unit + nat" where
  "even_saves v = (if v mod 2 = 0 then Inr v else Inl ())"

definition at :: "nat \<Rightarrow> file_capture" where
  "at n = fileCapture (js ''a.md'') [n]"

text \<open>The observer requests 4 from inside the second notification, which is that of the first write.\<close>

lemma sample_run:
  "\<exists>a. runs even_saves (at 0) [[], [4]] [Requested 2, Called 2 (at 0), Settled (Landed (at 2)), Called 4 (at 2), Settled (Landed (at 4))] a
     \<and> state a = (Saved, at 4) \<and> asked a = [2, 4]"
proof -
  let ?a0 = "createAutosave (at 0) [[], [4]]"
  let ?a1 = "request even_saves 2 ?a0"
  let ?a2 = "call_writer ?a1"
  let ?a3 = "settle_write even_saves (Landed (at 2)) ?a2"
  let ?a4 = "call_writer ?a3"
  let ?a5 = "settle_write even_saves (Landed (at 4)) ?a4"
  note eval = createAutosave_def request_def request_body_def notify_def even_saves_def call_writer_def settle_write_def land_def
    report_def publish_def next_write_def Let_def
  have r0: "runs even_saves (at 0) [[], [4]] [] ?a0" by (rule runs.start)
  have r1: "runs even_saves (at 0) [[], [4]] [Requested 2] ?a1" using runs.requests [OF r0, of 2] by simp
  have "flight ?a1 = Some (Queued 2)" "confirmed ?a1 = at 0" by (simp_all add: eval)
  then have r2: "runs even_saves (at 0) [[], [4]] [Requested 2, Called 2 (at 0)] ?a2" using runs.calls [OF r1, of 2] by simp
  have "flight ?a2 = Some (Writing 2 (at 0))" by (simp add: eval)
  then have r3: "runs even_saves (at 0) [[], [4]] [Requested 2, Called 2 (at 0), Settled (Landed (at 2))] ?a3"
    using runs.settles [OF r2, of 2 "at 0" "Landed (at 2)"] by simp
  have "flight ?a3 = Some (Queued 4)" "confirmed ?a3 = at 2" by (simp_all add: eval)
  then have r4: "runs even_saves (at 0) [[], [4]] [Requested 2, Called 2 (at 0), Settled (Landed (at 2)), Called 4 (at 2)] ?a4"
    using runs.calls [OF r3, of 4] by simp
  have "flight ?a4 = Some (Writing 4 (at 2))" by (simp add: eval)
  then have "runs even_saves (at 0) [[], [4]] [Requested 2, Called 2 (at 0), Settled (Landed (at 2)), Called 4 (at 2), Settled (Landed (at 4))] ?a5"
    using runs.settles [OF r4, of 4 "at 2" "Landed (at 4)"] by simp
  moreover have "state ?a5 = (Saved, at 4)" "asked ?a5 = [2, 4]" by (simp_all add: eval)
  ultimately show ?thesis by blast
qed

theorem saved_means_the_latest_landed_witness:
  "\<exists>a. runs even_saves (at 0) [[], [4]] [Requested 2, Called 2 (at 0), Settled (Landed (at 2)), Called 4 (at 2), Settled (Landed (at 4))] a
     \<and> batch a = None \<and> settled a = Inr (Saved, at 4)"
proof -
  obtain a where a: "runs even_saves (at 0) [[], [4]] [Requested 2, Called 2 (at 0), Settled (Landed (at 2)), Called 4 (at 2), Settled (Landed (at 4))] a"
    "state a = (Saved, at 4)" "asked a = [2, 4]" using sample_run by blast
  from saved_means_the_latest_landed [OF a(1,2)] a show ?thesis by auto
qed

text \<open>
  Every call of the writer is guarded by the capture the last landed
  write before it confirmed, the session's own before any landed, and is made while no other write runs.
\<close>

theorem writes_are_guarded_and_alone:
  assumes "runs prepare opened rs evs a" and "evs = pre @ Called s over # post"
  shows "over = last_landed opened pre \<and> (last_call pre = None \<or> last_outcome pre \<noteq> None)"
proof -
  obtain b where b: "runs prepare opened rs pre b" "flight b = Some (Queued s)" "over = confirmed b"
    using runs_prefix [OF assms] by auto
  then have "idle_trace pre" using runs_idle [OF b(1)] by auto
  with runs_ok [OF b(1)] b(3) show ?thesis by (simp add: session_ok_def idle_trace_def)
qed

theorem writes_are_guarded_and_alone_witness:
  "at 2 = last_landed (at 0) [Requested (2 :: nat), Called (2 :: nat) (at 0), Settled (Landed (at 2) :: unit outcome)]"
proof -
  obtain a where "runs even_saves (at 0) [[], [4]] [Requested 2, Called 2 (at 0), Settled (Landed (at 2)), Called 4 (at 2), Settled (Landed (at 4))] a"
    using sample_run by blast
  from writes_are_guarded_and_alone [OF this, of "[Requested 2, Called 2 (at 0), Settled (Landed (at 2))]" 4 "at 2" "[Settled (Landed (at 4))]"]
  show ?thesis by simp
qed

text \<open>The running write is answered, behind the yield or already called.\<close>

definition answer_write :: "('v \<Rightarrow> 'e + 's) \<Rightarrow> 'e outcome \<Rightarrow> ('v, 's, 'e) session \<Rightarrow> ('v, 's, 'e) session" where
  "answer_write prepare r a =
     (case flight a of
        None \<Rightarrow> a
      | Some (Queued s) \<Rightarrow> settle_write prepare r (call_writer a)
      | Some (Writing s over) \<Rightarrow> settle_write prepare r a)"

lemma last_write_ends:
  assumes "reactions x = []" "pending x = None"
  shows "batch (settle_write prepare r x) = None"
    and "resolved (settle_write prepare r x) = resolved x @ [state (settle_write prepare r x)]"
  using assms by (simp_all add: settle_write_def report_def next_write_def land_def publish_def notify_def split: outcome.split)

lemma waiting_write_follows:
  assumes "reactions x = []" "pending x = Some t"
  shows "flight (settle_write prepare r x) = Some (Queued t) \<and> pending (settle_write prepare r x) = None
    \<and> reactions (settle_write prepare r x) = [] \<and> resolved (settle_write prepare r x) = resolved x"
  using assms by (simp add: settle_write_def report_def next_write_def land_def publish_def notify_def Let_def split: outcome.split)

lemma write_ends:
  assumes "reactions x = []"
  shows "let b = settle_write prepare r x in
    (batch b = None \<and> resolved b = resolved x @ [state b])
    \<or> (let c = answer_write prepare r' b in batch c = None \<and> resolved c = resolved x @ [state c])"
proof (cases "pending x")
  case None
  then show ?thesis using last_write_ends [OF assms] by (simp add: Let_def)
next
  case (Some t)
  note w = waiting_write_follows [OF assms Some, of prepare r]
  let ?b = "settle_write prepare r x"
  have "answer_write prepare r' ?b = settle_write prepare r' (call_writer ?b)" using w by (simp add: answer_write_def)
  moreover have "reactions (call_writer ?b) = []" "pending (call_writer ?b) = None" "resolved (call_writer ?b) = resolved x"
    using w by (simp_all add: call_writer_def)
  ultimately show ?thesis using last_write_ends [of "call_writer ?b" prepare r'] by (simp add: Let_def)
qed

text \<open>
  Claim C21 (autosave_settles). Once no more is requested, the work of a session that runs ends: the
  running write, whether it is behind the yield or already called, then at most the one snapshot that
  waits, whatever the writer answers; then the promise resolves to the state that is shown.
\<close>

theorem autosave_settles:
  assumes "runs prepare opened rs evs a" and "batch a \<noteq> None" and "reactions a = []"
  shows "let b = answer_write prepare r a in
    (batch b = None \<and> resolved b = resolved a @ [state b])
    \<or> (let c = answer_write prepare r' b in batch c = None \<and> resolved c = resolved a @ [state c])"
proof -
  have "flight a \<noteq> None" using runs_ok [OF assms(1)] assms(2) by (auto simp: session_ok_def)
  then obtain x where x: "answer_write prepare r a = settle_write prepare r x" "reactions x = []" "resolved x = resolved a"
    using assms(3) by (cases "flight a"; cases "the (flight a)") (auto simp: answer_write_def call_writer_def)
  show ?thesis unfolding x(1) x(3) [symmetric] by (rule write_ends [OF x(2)])
qed

theorem autosave_settles_witness:
  "let b = answer_write even_saves Threw (request even_saves 4 (call_writer (request even_saves 2 (createAutosave (at 0) [])))) in
     let c = answer_write even_saves (Landed (at 4)) b in batch c = None \<and> resolved c = [(Saved, at 4)]"
proof -
  let ?a = "request even_saves 2 (createAutosave (at 0) [])"
  let ?c = "request even_saves 4 (call_writer ?a)"
  note eval = request_def request_body_def notify_def even_saves_def createAutosave_def call_writer_def Let_def
  have r1: "runs even_saves (at 0) [] ([] @ [Requested 2]) ?a" by (rule runs.requests [OF runs.start])
  have "flight ?a = Some (Queued 2)" by (simp add: eval)
  from runs.requests [OF runs.calls [OF r1 this], of 4]
  obtain evs where "runs even_saves (at 0) [] evs ?c" by blast
  moreover have "batch ?c \<noteq> None" "reactions ?c = []" by (simp_all add: eval)
  ultimately have ends: "let b = answer_write even_saves Threw ?c in
    (batch b = None \<and> resolved b = resolved ?c @ [state b])
    \<or> (let c = answer_write even_saves (Landed (at 4)) b in batch c = None \<and> resolved c = resolved ?c @ [state c])"
    by (rule autosave_settles)
  moreover have "batch (answer_write even_saves Threw ?c) \<noteq> None" "resolved ?c = []"
    "state (answer_write even_saves (Landed (at 4)) (answer_write even_saves Threw ?c)) = (Saved, at 4)"
    by (simp_all add: eval answer_write_def settle_write_def land_def report_def publish_def next_write_def)
  ultimately show ?thesis by (simp add: Let_def)
qed

text \<open>
  While a newer request saves, the state that is shown still names the capture from before a write that
  landed in between: the file already holds other bytes, and an action guarded by the shown
  capture is refused as a conflict.
\<close>

lemma saving_state_lags:
  "let a = settle_write even_saves (Landed (at 2)) (request even_saves 4 (call_writer (request even_saves 2 (createAutosave (at 0) [])))) in
     state a = (Saving, at 0) \<and> confirmed a = at 2"
  by (simp add: request_def request_body_def notify_def even_saves_def createAutosave_def call_writer_def settle_write_def land_def
      report_def publish_def next_write_def Let_def)

end
