(* ===== verification/Js_Order.thy ===== *)
theory Js_Order
  imports Js_Text "HOL-Library.Multiset"
begin

text \<open>
  Ordering as the program does it: \<^verbatim>\<open>Array.prototype.sort\<close> with a comparison function, which is
  stable, and the comparison of two strings by Unicode scalar value. The folder's merges sort
  with these; what they rely on is that the result does not depend on the order of the input.
\<close>

section \<open>Sorting by a comparison\<close>

fun insert_by :: "('a \<Rightarrow> 'a \<Rightarrow> int) \<Rightarrow> 'a \<Rightarrow> 'a list \<Rightarrow> 'a list" where
  "insert_by cmp x [] = [x]"
| "insert_by cmp x (y # ys) = (if cmp x y \<le> 0 then x # y # ys else y # insert_by cmp x ys)"

definition sort_by :: "('a \<Rightarrow> 'a \<Rightarrow> int) \<Rightarrow> 'a list \<Rightarrow> 'a list" where
  "sort_by cmp xs = foldr (insert_by cmp) xs []"

text \<open>A comparison that is a total preorder: what the standard asks of one.\<close>

definition consistent :: "('a \<Rightarrow> 'a \<Rightarrow> int) \<Rightarrow> bool" where
  "consistent cmp \<longleftrightarrow> (\<forall>x y. cmp x y \<le> 0 \<or> cmp y x \<le> 0) \<and> (\<forall>x y z. cmp x y \<le> 0 \<and> cmp y z \<le> 0 \<longrightarrow> cmp x z \<le> 0)"

lemma set_insert_by [simp]: "set (insert_by cmp x ys) = insert x (set ys)"
  by (induction ys) auto

lemma mset_insert_by [simp]: "mset (insert_by cmp x ys) = add_mset x (mset ys)"
  by (induction ys) auto

lemma sort_by_simps [simp]: "sort_by cmp [] = []" "sort_by cmp (x # xs) = insert_by cmp x (sort_by cmp xs)"
  by (simp_all add: sort_by_def)

lemma mset_sort_by [simp]: "mset (sort_by cmp xs) = mset xs"
  by (induction xs) auto

lemma set_sort_by [simp]: "set (sort_by cmp xs) = set xs"
  by (induction xs) auto

lemma length_sort_by [simp]: "length (sort_by cmp xs) = length xs"
  by (rule mset_eq_length) simp

lemma distinct_sort_by [simp]: "distinct (sort_by cmp xs) = distinct xs"
  by (rule mset_eq_imp_distinct_iff) simp

lemma sorted_insert_by:
  "consistent cmp \<Longrightarrow> sorted_wrt (\<lambda>x y. cmp x y \<le> 0) ys \<Longrightarrow> sorted_wrt (\<lambda>x y. cmp x y \<le> 0) (insert_by cmp x ys)"
proof (induction ys)
  case (Cons y ys)
  show ?case
  proof (cases "cmp x y \<le> 0")
    case True
    have "cmp x z \<le> 0" if "z \<in> set ys" for z
    proof -
      have "cmp y z \<le> 0" using Cons.prems(2) that by simp
      with True Cons.prems(1) show ?thesis unfolding consistent_def by blast
    qed
    with True show ?thesis using Cons.prems(2) by simp
  next
    case False
    then have "cmp y x \<le> 0" using Cons.prems(1) unfolding consistent_def by blast
    with False Cons.IH [OF Cons.prems(1)] Cons.prems(2) show ?thesis by simp
  qed
qed simp

lemma sorted_sort_by: "consistent cmp \<Longrightarrow> sorted_wrt (\<lambda>x y. cmp x y \<le> 0) (sort_by cmp xs)"
  by (induction xs) (auto intro: sorted_insert_by)

text \<open>A sorted list sorts to itself.\<close>

lemma sort_by_sorted: "sorted_wrt (\<lambda>x y. cmp x y \<le> 0) xs \<Longrightarrow> sort_by cmp xs = xs"
proof (induction xs)
  case (Cons x xs)
  then show ?case by (cases xs) auto
qed simp

text \<open>The sort is stable: it keeps the order of elements among themselves.\<close>

lemma insert_by_before: "\<forall>y\<in>set ys. cmp x y \<le> 0 \<Longrightarrow> insert_by cmp x ys = x # ys"
  by (cases ys) auto

lemma filter_insert_by:
  assumes "consistent cmp" and "sorted_wrt (\<lambda>x y. cmp x y \<le> 0) ys"
  shows "filter P (insert_by cmp x ys) = (if P x then insert_by cmp x (filter P ys) else filter P ys)"
  using assms(2)
proof (induction ys)
  case (Cons y ys)
  show ?case
  proof (cases "cmp x y \<le> 0")
    case True
    have "cmp x z \<le> 0" if "z \<in> set (y # ys)" for z
    proof (cases "z = y")
      case False
      then have "cmp y z \<le> 0" using Cons.prems that by simp
      with True assms(1) show ?thesis unfolding consistent_def by blast
    qed (use True in simp)
    then have "\<forall>z\<in>set (filter P (y # ys)). cmp x z \<le> 0" by auto
    from insert_by_before [of "filter P (y # ys)" cmp x, OF this] True show ?thesis by simp
  next
    case False
    with Cons show ?thesis by simp
  qed
qed simp

lemma filter_sort_by: "consistent cmp \<Longrightarrow> filter P (sort_by cmp xs) = sort_by cmp (filter P xs)"
  by (induction xs) (simp_all add: filter_insert_by sorted_sort_by)

text \<open>When no two distinct elements compare equal, the sorted list is determined by the set.\<close>

lemma sorted_unique:
  assumes "\<And>x y. x \<in> set xs \<Longrightarrow> y \<in> set xs \<Longrightarrow> cmp x y \<le> 0 \<Longrightarrow> cmp y x \<le> 0 \<Longrightarrow> x = y"
    and "sorted_wrt (\<lambda>x y. cmp x y \<le> 0) xs" "sorted_wrt (\<lambda>x y. cmp x y \<le> 0) ys"
    and "distinct xs" "distinct ys" "set xs = set ys"
  shows "xs = ys"
  using assms
proof (induction xs arbitrary: ys)
  case (Cons x xs)
  then obtain y ys' where ys: "ys = y # ys'" by (cases ys) auto
  have "x = y"
  proof (rule ccontr)
    assume n: "x \<noteq> y"
    then have "x \<in> set ys'" "y \<in> set xs" using Cons.prems(6) ys by auto
    then have "cmp x y \<le> 0" "cmp y x \<le> 0" using Cons.prems(2,3) ys by auto
    with Cons.prems(1) [of x y] \<open>y \<in> set xs\<close> n show False by auto
  qed
  moreover have "xs = ys'"
    by (rule Cons.IH) (use Cons.prems ys \<open>x = y\<close> in \<open>auto simp: insert_ident\<close>)
  ultimately show ?case using ys by simp
qed simp

lemma sort_by_set:
  assumes "consistent cmp" and "\<And>x y. x \<in> set xs \<Longrightarrow> y \<in> set xs \<Longrightarrow> cmp x y \<le> 0 \<Longrightarrow> cmp y x \<le> 0 \<Longrightarrow> x = y"
    and "distinct xs" "distinct ys" "set xs = set ys"
  shows "sort_by cmp xs = sort_by cmp ys"
  by (rule sorted_unique [of _ cmp]) (use assms sorted_sort_by in auto)

section \<open>Strings by scalar value\<close>

text \<open>The code points \<^verbatim>\<open>for (const c of text)\<close> visits: an unpaired surrogate is a point of its own.\<close>

fun code_points :: "jsstring \<Rightarrow> nat list" where
  "code_points [] = []"
| "code_points [u] = [u]"
| "code_points (u # v # us) =
     (if high_surrogate u \<and> low_surrogate v
      then (0x10000 + (u - 0xD800) * 0x400 + (v - 0xDC00)) # code_points us
      else u # code_points (v # us))"

fun compare_points :: "nat list \<Rightarrow> nat list \<Rightarrow> int" where
  "compare_points (x # xs) (y # ys) = (if x \<noteq> y then int x - int y else compare_points xs ys)"
| "compare_points xs ys = int (length xs) - int (length ys)"

definition compareText :: "jsstring \<Rightarrow> jsstring \<Rightarrow> int" where
  "compareText left right = compare_points (code_points left) (code_points right)"

lemma compare_points_refl [simp]: "compare_points xs xs = 0"
  by (induction xs) auto

lemma compare_points_swap: "compare_points ys xs = - compare_points xs ys"
  by (induction xs ys rule: compare_points.induct) auto

lemma compare_points_zero: "compare_points xs ys = 0 \<longleftrightarrow> xs = ys"
proof (induction xs arbitrary: ys)
  case Nil
  show ?case by (cases ys) auto
next
  case (Cons x xs)
  then show ?case by (cases ys) auto
qed

lemma compare_points_trans:
  "compare_points xs ys \<le> 0 \<Longrightarrow> compare_points ys zs \<le> 0 \<Longrightarrow> compare_points xs zs \<le> 0"
proof (induction xs arbitrary: ys zs)
  case Nil
  then show ?case by (cases ys; cases zs) auto
next
  case (Cons x xs)
  then show ?case by (cases ys; cases zs) (auto split: if_splits)
qed

text \<open>Code units are below 65536; then the code points determine the string.\<close>

definition units_ok :: "jsstring \<Rightarrow> bool" where
  "units_ok s \<longleftrightarrow> (\<forall>u\<in>set s. u < 0x10000)"

fun units_from :: "nat list \<Rightarrow> jsstring" where
  "units_from [] = []"
| "units_from (c # cs) = units_of c @ units_from cs"

lemma units_from_points: "units_ok s \<Longrightarrow> units_from (code_points s) = s"
proof (induction s rule: code_points.induct)
  case (3 u v us)
  show ?case
  proof (cases "high_surrogate u \<and> low_surrogate v")
    case True
    define m k where "m = u - 0xD800" and "k = v - 0xDC00"
    then have "u = 0xD800 + m" "m < 1024" "v = 0xDC00 + k" "k < 1024"
      using True unfolding high_surrogate_def low_surrogate_def by auto
    with True 3 show ?thesis by (auto simp: units_of_def units_ok_def)
  next
    case False
    with 3 show ?thesis by (auto simp: units_of_def units_ok_def)
  qed
qed (auto simp: units_of_def units_ok_def)

lemma compareText_total: "compareText x y \<le> 0 \<or> compareText y x \<le> 0"
  unfolding compareText_def using compare_points_swap [of "code_points x" "code_points y"] by linarith

lemma compareText_consistent: "consistent compareText"
  unfolding consistent_def using compareText_total compare_points_trans by (fastforce simp: compareText_def)

lemma compareText_antisym:
  assumes "units_ok x" "units_ok y" "compareText x y \<le> 0" "compareText y x \<le> 0" shows "x = y"
proof -
  have "compare_points (code_points x) (code_points y) = 0"
    using assms(3,4) compare_points_swap [of "code_points x" "code_points y"] by (simp add: compareText_def)
  then have "code_points x = code_points y" by (simp add: compare_points_zero)
  with units_from_points assms(1,2) show ?thesis by metis
qed

text \<open>Two objects of one size with distinct keys: each key of either is a key of the other.\<close>

lemma same_keys:
  assumes "distinct (map fst ms)" "distinct (map fst ns)" "length ms = length ns" "fst ` set ms \<subseteq> fst ` set ns"
  shows "fst ` set ms = fst ` set ns"
proof -
  have "card (fst ` set ms) = card (fst ` set ns)" using assms(1-3) distinct_card [of "map fst ms"] distinct_card [of "map fst ns"] by simp
  with assms(4) show ?thesis by (intro card_subset_eq) auto
qed

section \<open>Slices and JSON strings\<close>

text \<open>\<^verbatim>\<open>xs.slice(from, to)\<close> for positions that are not negative.\<close>

definition slice :: "nat \<Rightarrow> nat \<Rightarrow> 'a list \<Rightarrow> 'a list" where
  "slice from to s = drop from (take to s)"

lemma units_ok_slice: "units_ok s \<Longrightarrow> units_ok (slice i j s)"
  by (auto simp: units_ok_def slice_def dest!: in_set_dropD in_set_takeD)

definition hex_digit :: "nat \<Rightarrow> nat" where
  "hex_digit d = (if d < 10 then 48 + d else 87 + d)"

definition unicode_escape :: "nat \<Rightarrow> jsstring" where
  "unicode_escape u = [92, 117, hex_digit (u div 4096 mod 16), hex_digit (u div 256 mod 16), hex_digit (u div 16 mod 16), hex_digit (u mod 16)]"

definition quote_point :: "nat \<Rightarrow> jsstring" where
  "quote_point p =
     (if p = 8 then [92, 98] else if p = 9 then [92, 116] else if p = 10 then [92, 110]
      else if p = 12 then [92, 102] else if p = 13 then [92, 114] else if p = 34 then [92, 34] else if p = 92 then [92, 92]
      else if p < 32 \<or> (0xD800 \<le> p \<and> p \<le> 0xDFFF) then unicode_escape p
      else units_of p)"

text \<open>\<^verbatim>\<open>JSON.stringify\<close> of a string.\<close>

definition json_string :: "jsstring \<Rightarrow> jsstring" where
  "json_string s = [34] @ concat (map quote_point (code_points s)) @ [34]"

fun join_with :: "jsstring \<Rightarrow> jsstring list \<Rightarrow> jsstring" where
  "join_with sep [] = []"
| "join_with sep [x] = x"
| "join_with sep (x # xs) = x @ sep @ join_with sep xs"

end
