(* ===== verification/Kv_Merge.thy ===== *)
theory Kv_Merge
  imports Js_Order
begin

text \<open>
  Three-way reconciliation of the root values of \<^verbatim>\<open>kv.json\<close>, \<^verbatim>\<open>packages/folder/src/kv-merge.ts\<close>:
  what a valid file is, when two values are the same, which side a key takes, and the text that
  is written. The JSON parser (\<^verbatim>\<open>jsonc-parser\<close>) is not under \<^verbatim>\<open>src/\<close>: it is the parameter \<open>parse\<close>
  of \<open>read\<close>, a function from a text to whether it reported errors and to the tree it built,
  \<^const>\<open>None\<close> when its recursion overflows the stack.
\<close>

section \<open>Text checks\<close>

definition validUnicode :: "jsstring \<Rightarrow> bool" where
  "validUnicode s \<longleftrightarrow> (\<forall>p\<in>set (code_points s). \<not> (0xD800 \<le> p \<and> p \<le> 0xDFFF))"

text \<open>The loop of \<open>withinDepth\<close>; \<open>closing\<close> is the stack, its top first.\<close>

fun depth_loop :: "nat list \<Rightarrow> bool \<Rightarrow> bool \<Rightarrow> nat list \<Rightarrow> bool" where
  "depth_loop closing quoted escaped [] = (\<not> quoted \<and> closing = [])"
| "depth_loop closing quoted escaped (c # cs) =
     (if quoted then
        (if c < 32 then False
         else if escaped then depth_loop closing True False cs
         else if c = 92 then depth_loop closing True True cs
         else if c = 34 then depth_loop closing False False cs
         else depth_loop closing True False cs)
      else if c = 34 then depth_loop closing True escaped cs
      else if c = 123 \<or> c = 91 then
        (let closing' = (if c = 123 then 125 else 93) # closing in
         if length closing' > 64 then False else depth_loop closing' False escaped cs)
      else if c = 125 \<or> c = 93 then
        (case closing of
           [] \<Rightarrow> False
         | opener # rest \<Rightarrow> if opener \<noteq> c then False else depth_loop rest False escaped cs)
      else if c = 47 then False
      else depth_loop closing False escaped cs)"

definition withinDepth :: "jsstring \<Rightarrow> bool" where
  "withinDepth source = depth_loop [] False False (code_points source)"

section \<open>Reading\<close>

datatype node_type = StringNode | NumberNode | BooleanNode | NullNode | ArrayNode | ObjectNode | PropertyNode

text \<open>A \<^verbatim>\<open>Node\<close> of the parser: its type, where it stands, its value when that is a string, its children.\<close>

datatype node = Node node_type nat nat "jsstring option" "node list"

type_synonym parser = "jsstring \<Rightarrow> (bool \<times> node option) option"

datatype val =
    Literal jsstring
  | Str jsstring
  | Arr "val list"
  | Obj "(jsstring \<times> val) list"

record member =
  raw :: jsstring
  mvalue :: val

fun readValue :: "node \<Rightarrow> jsstring \<Rightarrow> val option"
  and readItems :: "node list \<Rightarrow> jsstring \<Rightarrow> val list option"
  and readMembers :: "(jsstring \<times> val) list \<Rightarrow> node list \<Rightarrow> jsstring \<Rightarrow> (jsstring \<times> val) list option" where
  "readValue (Node StringNode off n v cs) source =
     (case v of None \<Rightarrow> None | Some text \<Rightarrow> if validUnicode text then Some (Str text) else None)"
| "readValue (Node NumberNode off n v cs) source = Some (Literal (slice off (off + n) source))"
| "readValue (Node BooleanNode off n v cs) source = Some (Literal (slice off (off + n) source))"
| "readValue (Node NullNode off n v cs) source = Some (Literal (slice off (off + n) source))"
| "readValue (Node ArrayNode off n v cs) source = map_option Arr (readItems cs source)"
| "readValue (Node ObjectNode off n v cs) source = map_option Obj (readMembers [] cs source)"
| "readValue (Node PropertyNode off n v cs) source = None"
| "readItems [] source = Some []"
| "readItems (c # cs) source =
     (case readValue c source of None \<Rightarrow> None | Some v \<Rightarrow> map_option ((#) v) (readItems cs source))"
| "readMembers acc [] source = Some acc"
| "readMembers acc (Node t off n v (Node nt noff nn (Some key) ncs # child # others) # rest) source =
     (if \<not> validUnicode key \<or> map_of acc key \<noteq> None then None
      else case readValue child source of
             None \<Rightarrow> None
           | Some value \<Rightarrow> readMembers (acc @ [(key, value)]) rest source)"
| "readMembers acc (Node t off n v cs # rest) source = None"

text \<open>The members of the root keep the text of their values.\<close>

fun readRoot :: "(jsstring \<times> member) list \<Rightarrow> node list \<Rightarrow> jsstring \<Rightarrow> (jsstring \<times> member) list option" where
  "readRoot acc [] text = Some acc"
| "readRoot acc (Node t off n v (Node nt noff nn (Some key) ncs # Node ct coff cn cv ccs # others) # rest) text =
     (if \<not> validUnicode key \<or> map_of acc key \<noteq> None then None
      else case readValue (Node ct coff cn cv ccs) text of
             None \<Rightarrow> None
           | Some value \<Rightarrow> readRoot (acc @ [(key, \<lparr>raw = slice coff (coff + cn) text, mvalue = value\<rparr>)]) rest text)"
| "readRoot acc (Node t off n v cs # rest) text = None"

text \<open>\<^verbatim>\<open>null\<close> for no file, \<^verbatim>\<open>undefined\<close> for an invalid one.\<close>

datatype kv_file = NoFile | NotValid | Members "(jsstring \<times> member) list"

definition read :: "parser \<Rightarrow> jsstring option \<Rightarrow> kv_file" where
  "read parse source =
     (case source of
        None \<Rightarrow> NoFile
      | Some s \<Rightarrow>
          if \<not> validUnicode s \<or> \<not> withinDepth s then NotValid
          else
            let text = (if s \<noteq> [] \<and> hd s = 0xFEFF then tl s else s) in
            case parse text of
              None \<Rightarrow> NotValid
            | Some (errors, root) \<Rightarrow>
                (case root of
                   Some (Node ObjectNode off n v cs) \<Rightarrow>
                     if errors then NotValid
                     else (case readRoot [] cs text of None \<Rightarrow> NotValid | Some ms \<Rightarrow> Members ms)
                 | _ \<Rightarrow> NotValid))"

section \<open>Sameness\<close>

fun same :: "val \<Rightarrow> val \<Rightarrow> bool"
  and same_items :: "val list \<Rightarrow> val list \<Rightarrow> bool"
  and same_members :: "(jsstring \<times> val) list \<Rightarrow> (jsstring \<times> val) list \<Rightarrow> bool" where
  "same (Literal a) (Literal b) = (a = b)"
| "same (Str a) (Str b) = (a = b)"
| "same (Arr xs) (Arr ys) = (length xs = length ys \<and> same_items xs ys)"
| "same (Obj ms) (Obj ns) = (length ms = length ns \<and> same_members ms ns)"
| "same _ _ = False"
| "same_items (x # xs) (y # ys) = (same x y \<and> same_items xs ys)"
| "same_items xs ys = True"
| "same_members [] ns = True"
| "same_members ((k, v) # ms) ns = ((case map_of ns k of None \<Rightarrow> False | Some w \<Rightarrow> same v w) \<and> same_members ms ns)"

definition equal :: "val option \<Rightarrow> val option \<Rightarrow> bool" where
  "equal left right = (case (left, right) of (Some v, Some w) \<Rightarrow> same v w | (None, None) \<Rightarrow> True | _ \<Rightarrow> False)"

definition value_at :: "(jsstring \<times> member) list \<Rightarrow> jsstring \<Rightarrow> val option" where
  "value_at ms k = map_option mvalue (map_of ms k)"

definition sameFile :: "(jsstring \<times> member) list \<Rightarrow> (jsstring \<times> member) list \<Rightarrow> bool" where
  "sameFile left right \<longleftrightarrow>
     length left = length right \<and> (\<forall>(k, m)\<in>set left. equal (Some (mvalue m)) (value_at right k))"

section \<open>Writing\<close>

definition formatKvMembers :: "(jsstring \<times> jsstring) list \<Rightarrow> jsstring" where
  "formatKvMembers members =
     (let sorted = sort_by (\<lambda>a b. compareText (fst a) (fst b)) members in
      if sorted = [] then js ''{}'' @ [10]
      else js ''{'' @ [10] @ join_with (js '','' @ [10]) (map (\<lambda>(k, r). js ''  '' @ json_string k @ js '': '' @ r) sorted)
        @ [10] @ js ''}'' @ [10])"

definition readKvMembers :: "parser \<Rightarrow> jsstring \<Rightarrow> (jsstring \<times> jsstring) list option" where
  "readKvMembers parse source =
     (case read parse (Some source) of Members ms \<Rightarrow> Some (map (\<lambda>(k, m). (k, raw m)) ms) | _ \<Rightarrow> None)"

section \<open>Reconciling\<close>

datatype kv_side = Base | Ours | Theirs

record kv_conflict =
  ckey :: jsstring
  cbase :: "jsstring option"
  cours :: "jsstring option"
  ctheirs :: "jsstring option"

datatype kv_merge = Merged "jsstring option" | Conflict "kv_conflict list" | FileConflict | InvalidSide kv_side

type_synonym resolutions = "jsstring \<rightharpoonup> jsstring option"

text \<open>What one key comes to: a selected member (or none), a settled text (or none), or a conflict.\<close>

datatype selection = Selected "member option" | Settled "jsstring option" | Competes

definition select_key :: "resolutions \<Rightarrow> jsstring \<Rightarrow> member option \<Rightarrow> member option \<Rightarrow> member option \<Rightarrow> selection" where
  "select_key res key before left right =
     (if equal (map_option mvalue left) (map_option mvalue right) then
        Selected (case (left, right) of
                    (Some l, Some r) \<Rightarrow> if compareText (raw l) (raw r) \<le> 0 then left else right
                  | (None, _) \<Rightarrow> right
                  | _ \<Rightarrow> left)
      else if equal (map_option mvalue left) (map_option mvalue before) then Selected right
      else if equal (map_option mvalue right) (map_option mvalue before) then Selected left
      else case res key of Some settled \<Rightarrow> Settled settled | None \<Rightarrow> Competes)"

fun merge_keys ::
    "resolutions \<Rightarrow> (jsstring \<rightharpoonup> member) \<Rightarrow> (jsstring \<rightharpoonup> member) \<Rightarrow> (jsstring \<rightharpoonup> member) \<Rightarrow> jsstring list
     \<Rightarrow> kv_conflict list \<times> (jsstring \<times> jsstring) list" where
  "merge_keys res b l r [] = ([], [])"
| "merge_keys res b l r (key # keys) =
     (let (conflicts, members) = merge_keys res b l r keys in
      case select_key res key (b key) (l key) (r key) of
        Selected None \<Rightarrow> (conflicts, members)
      | Selected (Some m) \<Rightarrow> (conflicts, (key, raw m) # members)
      | Settled None \<Rightarrow> (conflicts, members)
      | Settled (Some text) \<Rightarrow> (conflicts, (key, text) # members)
      | Competes \<Rightarrow>
          (\<lparr>ckey = key, cbase = map_option raw (b key), cours = map_option raw (l key), ctheirs = map_option raw (r key)\<rparr> # conflicts,
           members))"

definition members_of :: "kv_file \<Rightarrow> (jsstring \<times> member) list" where
  "members_of f = (case f of Members ms \<Rightarrow> ms | _ \<Rightarrow> [])"

text \<open>A \<^verbatim>\<open>Set\<close> keeps the first of equal elements.\<close>

definition as_set :: "'a list \<Rightarrow> 'a list" where
  "as_set xs = rev (remdups (rev xs))"

definition all_keys :: "kv_file \<Rightarrow> kv_file \<Rightarrow> kv_file \<Rightarrow> jsstring list" where
  "all_keys b l r = sort_by compareText (as_set (map fst (members_of b) @ map fst (members_of l) @ map fst (members_of r)))"

definition merge_members :: "resolutions \<Rightarrow> kv_file \<Rightarrow> kv_file \<Rightarrow> kv_file \<Rightarrow> kv_merge" where
  "merge_members res b l r =
     (let (conflicts, members) = merge_keys res (map_of (members_of b)) (map_of (members_of l)) (map_of (members_of r)) (all_keys b l r) in
      if conflicts \<noteq> [] then Conflict conflicts else Merged (Some (formatKvMembers members)))"

definition reconcileKv :: "parser \<Rightarrow> resolutions \<Rightarrow> jsstring option \<Rightarrow> jsstring option \<Rightarrow> jsstring option \<Rightarrow> kv_merge" where
  "reconcileKv parse res base ours theirs =
     (let b = read parse base; l = read parse ours; r = read parse theirs in
      if b = NotValid then InvalidSide Base
      else if l = NotValid then InvalidSide Ours
      else if r = NotValid then InvalidSide Theirs
      else if l = NoFile \<or> r = NoFile then
        (let present = (if l \<noteq> NoFile then l else r) in
         if present = NoFile then Merged None
         else if b \<noteq> NoFile then
           (if sameFile (members_of b) (members_of present) then Merged None else FileConflict)
         else merge_members res b l r)
      else merge_members res b l r)"

definition mergeKv :: "parser \<Rightarrow> jsstring option \<Rightarrow> jsstring option \<Rightarrow> jsstring option \<Rightarrow> kv_merge" where
  "mergeKv parse base ours theirs = reconcileKv parse Map.empty base ours theirs"

section \<open>Values\<close>

text \<open>What reading yields: every object has distinct keys.\<close>

fun val_ok :: "val \<Rightarrow> bool" and vals_ok :: "val list \<Rightarrow> bool" and fields_ok :: "(jsstring \<times> val) list \<Rightarrow> bool" where
  "val_ok (Literal a) = True"
| "val_ok (Str a) = True"
| "val_ok (Arr xs) = vals_ok xs"
| "val_ok (Obj ms) = (distinct (map fst ms) \<and> fields_ok ms)"
| "vals_ok [] = True"
| "vals_ok (x # xs) = (val_ok x \<and> vals_ok xs)"
| "fields_ok [] = True"
| "fields_ok ((k, v) # ms) = (val_ok v \<and> fields_ok ms)"

lemma vals_ok_iff: "vals_ok xs \<longleftrightarrow> (\<forall>x\<in>set xs. val_ok x)"
  by (induction xs) auto

lemma fields_ok_iff: "fields_ok ms \<longleftrightarrow> (\<forall>(k, v)\<in>set ms. val_ok v)"
  by (induction ms) auto

lemma same_items_iff: "length xs = length ys \<and> same_items xs ys \<longleftrightarrow> list_all2 same xs ys"
proof (induction xs arbitrary: ys)
  case (Cons x xs)
  then show ?case by (cases ys) auto
qed auto

lemma same_members_iff: "same_members ms ns \<longleftrightarrow> (\<forall>(k, v)\<in>set ms. \<exists>w. map_of ns k = Some w \<and> same v w)"
  by (induction ms) (auto split: option.splits)

lemma same_arr: "same (Arr xs) (Arr ys) \<longleftrightarrow> list_all2 same xs ys"
  using same_items_iff [of xs ys] by simp

lemma same_obj: "same (Obj ms) (Obj ns) \<longleftrightarrow> length ms = length ns \<and> (\<forall>(k, v)\<in>set ms. \<exists>w. map_of ns k = Some w \<and> same v w)"
  by (simp add: same_members_iff)

lemma same_cases:
  "same v w \<Longrightarrow> (\<exists>a. v = Literal a \<and> w = Literal a) \<or> (\<exists>a. v = Str a \<and> w = Str a)
    \<or> (\<exists>xs ys. v = Arr xs \<and> w = Arr ys) \<or> (\<exists>ms ns. v = Obj ms \<and> w = Obj ns)"
  by (cases v; cases w) auto

lemma same_refl [simp]: "val_ok v \<Longrightarrow> same v v"
proof (induction v)
  case (Arr xs)
  then have "list_all2 same xs xs" by (auto simp: list_all2_same vals_ok_iff)
  then show ?case by (simp only: same_arr)
next
  case (Obj ms)
  have "\<exists>w. map_of ms k = Some w \<and> same v w" if "(k, v) \<in> set ms" for k v
  proof -
    have "same v v" using Obj.IH [OF that, of v] Obj.prems that by (auto simp: fields_ok_iff)
    with Obj.prems that show ?thesis by (intro exI [of _ v]) simp
  qed
  then show ?case unfolding same_obj by blast
qed simp_all

lemma same_sym: "val_ok v \<Longrightarrow> val_ok w \<Longrightarrow> same v w \<Longrightarrow> same w v"
proof (induction v arbitrary: w)
  case (Arr xs)
  then obtain ys where w: "w = Arr ys" using same_cases by blast
  have "list_all2 same xs ys" using Arr.prems(3) unfolding w same_arr .
  then have "list_all2 same ys xs" using Arr.IH Arr.prems(1,2) unfolding w
    by (auto simp: list_all2_conv_all_nth vals_ok_iff)
  then show ?case unfolding w same_arr .
next
  case (Obj ms)
  then obtain ns where w: "w = Obj ns" using same_cases by blast
  have dm: "distinct (map fst ms)" "distinct (map fst ns)" using Obj.prems(1,2) w by simp_all
  have s: "length ms = length ns" "\<forall>(k, v)\<in>set ms. \<exists>w. map_of ns k = Some w \<and> same v w"
    using Obj.prems(3) unfolding w same_obj by auto
  have "fst ` set ms \<subseteq> fst ` set ns" using s(2) by (force dest: map_of_SomeD)
  note keys = same_keys [OF dm s(1) this]
  have "\<exists>v. map_of ms k = Some v \<and> same w' v" if kw: "(k, w') \<in> set ns" for k w'
  proof -
    have "k \<in> fst ` set ms" using kw keys by force
    then obtain v where v: "(k, v) \<in> set ms" by auto
    then obtain u where "map_of ns k = Some u" "same v u" using s(2) by blast
    then have "same v w'" using kw dm(2) by simp
    moreover have "val_ok v" "val_ok w'" using v kw Obj.prems(1,2) w by (auto simp: fields_ok_iff)
    ultimately have "same w' v" using Obj.IH [OF v, of v w'] by simp
    with v dm(1) show ?thesis by auto
  qed
  then show ?case unfolding w same_obj using s(1) by auto
qed (auto dest: same_cases)

lemma same_trans: "same u v \<Longrightarrow> same v w \<Longrightarrow> same u w"
proof (induction u arbitrary: v w)
  case (Arr xs)
  then obtain ys where v: "v = Arr ys" using same_cases by blast
  then obtain zs where w: "w = Arr zs" using Arr.prems(2) same_cases by blast
  have "list_all2 same xs ys" "list_all2 same ys zs" using Arr.prems unfolding v w same_arr by auto
  then have "list_all2 same xs zs" using Arr.IH by (auto simp: list_all2_conv_all_nth)
  then show ?case unfolding w same_arr .
next
  case (Obj ms)
  then obtain ns where v: "v = Obj ns" using same_cases by blast
  then obtain os where w: "w = Obj os" using Obj.prems(2) same_cases by blast
  have s: "length ms = length ns" "\<forall>(k, v)\<in>set ms. \<exists>w. map_of ns k = Some w \<and> same v w"
    using Obj.prems(1) unfolding v same_obj by auto
  have t: "length ns = length os" "\<forall>(k, v)\<in>set ns. \<exists>w. map_of os k = Some w \<and> same v w"
    using Obj.prems(2) unfolding v w same_obj by auto
  have "\<exists>z. map_of os k = Some z \<and> same x z" if kx: "(k, x) \<in> set ms" for k x
  proof -
    obtain y where y: "map_of ns k = Some y" "same x y" using s(2) kx by blast
    obtain z where z: "map_of os k = Some z" "same y z" using t(2) map_of_SomeD [OF y(1)] by blast
    have "same x z" using Obj.IH [OF kx _ y(2) z(2)] by simp
    with z(1) show ?thesis by blast
  qed
  then show ?case unfolding w same_obj using s(1) t(1) by auto
qed (auto dest!: same_cases)

lemma read_values_ok:
  "readValue node source = Some v \<Longrightarrow> val_ok v"
  "readItems ns source = Some vs \<Longrightarrow> vals_ok vs"
  "readMembers acc ns source = Some ms \<Longrightarrow> distinct (map fst acc) \<Longrightarrow> fields_ok acc \<Longrightarrow> distinct (map fst ms) \<and> fields_ok ms"
proof (induction node source and ns source and acc ns source arbitrary: v and vs and ms
    rule: readValue_readItems_readMembers.induct)
qed (auto split: option.splits if_splits simp: fields_ok_iff map_of_eq_None_iff)

text \<open>
  What the program relies on of the parser: the texts it returns are strings, that is lists of
  code units, when it is given one.
\<close>

fun node_ok :: "node \<Rightarrow> bool" where
  "node_ok (Node t off n v cs) = ((case v of None \<Rightarrow> True | Some s \<Rightarrow> units_ok s) \<and> (\<forall>c\<in>set cs. node_ok c))"

definition parser_ok :: "parser \<Rightarrow> bool" where
  "parser_ok parse \<longleftrightarrow> (\<forall>s e root. units_ok s \<and> parse s = Some (e, Some root) \<longrightarrow> node_ok root)"

definition members_ok :: "(jsstring \<times> member) list \<Rightarrow> bool" where
  "members_ok ms \<longleftrightarrow> distinct (map fst ms) \<and> (\<forall>(k, m)\<in>set ms. units_ok k \<and> units_ok (raw m) \<and> val_ok (mvalue m))"

lemma readRoot_ok:
  "readRoot acc ns source = Some ms \<Longrightarrow> units_ok source \<Longrightarrow> \<forall>c\<in>set ns. node_ok c \<Longrightarrow> members_ok acc \<Longrightarrow> members_ok ms"
proof (induction acc ns source rule: readRoot.induct)
  case (2 acc t off n v nt noff nn key ncs ct coff cn cv ccs others rest source)
  then obtain w where v: "readValue (Node ct coff cn cv ccs) source = Some w" "map_of acc key = None"
    "readRoot (acc @ [(key, \<lparr>raw = slice coff (coff + cn) source, mvalue = w\<rparr>)]) rest source = Some ms" "validUnicode key"
    by (auto split: option.splits if_splits)
  have "members_ok (acc @ [(key, \<lparr>raw = slice coff (coff + cn) source, mvalue = w\<rparr>)])"
    using 2(3-5) v(2) read_values_ok(1) [OF v(1)] units_ok_slice
    by (auto simp: members_ok_def map_of_eq_None_iff)
  with 2 v show ?case by auto
qed (auto simp: members_ok_def)

lemma read_members:
  assumes "read parse (Some s) = Members ms" and "parser_ok parse" and "units_ok s" shows "members_ok ms"
proof -
  let ?text = "if s \<noteq> [] \<and> hd s = 0xFEFF then tl s else s"
  from assms(1) obtain off n v cs where r: "parse ?text = Some (False, Some (Node ObjectNode off n v cs))"
    "readRoot [] cs ?text = Some ms"
    by (auto simp: read_def Let_def split: option.splits if_splits node.splits node_type.splits prod.splits)
  have u: "units_ok ?text" using assms(3) by (cases s) (auto simp: units_ok_def)
  then have "node_ok (Node ObjectNode off n v cs)" using assms(2) r(1) unfolding parser_ok_def by blast
  then show ?thesis by (intro readRoot_ok [OF r(2) u]) (auto simp: members_ok_def)
qed

section \<open>One key\<close>

abbreviation mval :: "member option \<Rightarrow> val option" where
  "mval \<equiv> map_option mvalue"

definition member_ok :: "member option \<Rightarrow> bool" where
  "member_ok m = (case m of None \<Rightarrow> True | Some x \<Rightarrow> units_ok (raw x) \<and> val_ok (mvalue x))"

lemma equal_refl [simp]: "member_ok m \<Longrightarrow> equal (mval m) (mval m)"
  by (auto simp: equal_def member_ok_def split: option.splits)

lemma equal_sym: "member_ok l \<Longrightarrow> member_ok r \<Longrightarrow> equal (mval l) (mval r) = equal (mval r) (mval l)"
  by (auto simp: equal_def member_ok_def split: option.splits intro: same_sym)

lemma equal_trans: "equal u v \<Longrightarrow> equal v w \<Longrightarrow> equal u w"
  by (auto simp: equal_def split: option.splits intro: same_trans)

text \<open>What is written of a selection.\<close>

fun written :: "selection \<Rightarrow> jsstring option option" where
  "written (Selected m) = Some (map_option raw m)"
| "written (Settled t) = Some t"
| "written Competes = None"

lemma select_key_swap:
  assumes "member_ok b" "member_ok l" "member_ok r"
  shows "written (select_key res k b r l) = written (select_key res k b l r)"
proof (cases "equal (mval l) (mval r)")
  case True
  then have e: "equal (mval r) (mval l)" using equal_sym [OF assms(2,3)] by simp
  show ?thesis
  proof (cases l; cases r)
    fix x y assume xy: "l = Some x" "r = Some y"
    have u: "units_ok (raw x)" "units_ok (raw y)" using assms(2,3) xy by (simp_all add: member_ok_def)
    have "raw x = raw y" if "compareText (raw x) (raw y) \<le> 0" "compareText (raw y) (raw x) \<le> 0"
      by (rule compareText_antisym [OF u that])
    moreover have "compareText (raw x) (raw y) \<le> 0 \<or> compareText (raw y) (raw x) \<le> 0" by (rule compareText_total)
    ultimately show ?thesis using True e by (auto simp: select_key_def xy)
  qed (use True e in \<open>auto simp: select_key_def\<close>)
next
  case False
  then have n: "\<not> equal (mval r) (mval l)" using equal_sym [OF assms(2,3)] by simp
  have "\<not> (equal (mval l) (mval b) \<and> equal (mval r) (mval b))"
    using False equal_trans equal_sym [OF assms(1,3)] by blast
  with False n show ?thesis by (auto simp: select_key_def)
qed

lemma select_key_rule:
  assumes "member_ok b" "member_ok l" "member_ok r" and "select_key Map.empty k b l r = Selected m"
  shows "m \<in> {l, r} \<and> (\<not> equal (mval l) (mval b) \<longrightarrow> equal (mval m) (mval l))
    \<and> (\<not> equal (mval r) (mval b) \<longrightarrow> equal (mval m) (mval r))
    \<and> (equal (mval l) (mval b) \<and> equal (mval r) (mval b) \<longrightarrow> equal (mval m) (mval b))"
proof (cases "equal (mval l) (mval r)")
  case True
  then have e: "equal (mval r) (mval l)" using equal_sym [OF assms(2,3)] by simp
  have m: "m = l \<or> m = r" "l = None \<Longrightarrow> m = r" "l \<noteq> None \<Longrightarrow> r = None \<Longrightarrow> m = l"
    using assms(4) True by (auto simp: select_key_def split: option.splits if_splits)
  from m(1) show ?thesis using True e assms(2,3) by auto
next
  case False
  then show ?thesis using assms equal_trans equal_sym [OF assms(1,3)]
    by (auto simp: select_key_def split: if_splits option.splits)
qed

section \<open>All keys\<close>

definition conflict_at :: "(jsstring \<rightharpoonup> member) \<Rightarrow> (jsstring \<rightharpoonup> member) \<Rightarrow> (jsstring \<rightharpoonup> member) \<Rightarrow> jsstring \<Rightarrow> kv_conflict" where
  "conflict_at b l r k = \<lparr>ckey = k, cbase = map_option raw (b k), cours = map_option raw (l k), ctheirs = map_option raw (r k)\<rparr>"

definition written_at :: "resolutions \<Rightarrow> (jsstring \<rightharpoonup> member) \<Rightarrow> (jsstring \<rightharpoonup> member) \<Rightarrow> (jsstring \<rightharpoonup> member) \<Rightarrow> jsstring \<Rightarrow> jsstring option option" where
  "written_at res b l r k = written (select_key res k (b k) (l k) (r k))"

text \<open>The loop: the competing keys in order, and the others with what is written for them.\<close>

lemma merge_keys_eq:
  "merge_keys res b l r keys =
     (map (conflict_at b l r) (filter (\<lambda>k. written_at res b l r k = None) keys),
      concat (map (\<lambda>k. case written_at res b l r k of Some (Some t) \<Rightarrow> [(k, t)] | _ \<Rightarrow> []) keys))"
proof (induction keys)
  case (Cons k ks)
  then show ?case
    by (cases "select_key res k (b k) (l k) (r k)")
      (auto simp: written_at_def conflict_at_def Let_def split: option.splits)
qed simp

lemma written_list:
  fixes f :: "jsstring \<Rightarrow> jsstring option option"
  defines "w \<equiv> \<lambda>ks. concat (map (\<lambda>k. case f k of Some (Some t) \<Rightarrow> [(k, t)] | _ \<Rightarrow> []) ks)"
  shows "map fst (w ks) = filter (\<lambda>k. \<exists>t. f k = Some (Some t)) ks"
    and "map_of (w ks) k = (if k \<in> set ks then (case f k of Some t \<Rightarrow> t | None \<Rightarrow> None) else None)"
proof -
  show "map fst (w ks) = filter (\<lambda>k. \<exists>t. f k = Some (Some t)) ks"
    unfolding w_def by (induction ks) (auto split: option.splits)
  show "map_of (w ks) k = (if k \<in> set ks then (case f k of Some t \<Rightarrow> t | None \<Rightarrow> None) else None)"
    unfolding w_def by (induction ks) (auto split: option.splits)
qed

lemma merge_members_merged:
  assumes "merge_members res b l r = Merged t"
  shows "\<exists>ms. t = Some (formatKvMembers ms)
    \<and> ms = snd (merge_keys res (map_of (members_of b)) (map_of (members_of l)) (map_of (members_of r)) (all_keys b l r))
    \<and> (\<forall>k\<in>set (all_keys b l r). written_at res (map_of (members_of b)) (map_of (members_of l)) (map_of (members_of r)) k \<noteq> None)"
  using assms by (auto simp: merge_members_def merge_keys_eq Let_def filter_empty_conv split: if_splits)

lemma set_as_set [simp]: "set (as_set xs) = set xs" and distinct_as_set [simp]: "distinct (as_set xs)"
  by (simp_all add: as_set_def)

lemma all_keys_distinct: "distinct (all_keys b l r)"
  by (simp add: all_keys_def)

lemma set_all_keys: "set (all_keys b l r) = fst ` set (members_of b) \<union> fst ` set (members_of l) \<union> fst ` set (members_of r)"
  by (auto simp: all_keys_def)

definition file_ok :: "kv_file \<Rightarrow> bool" where
  "file_ok f \<longleftrightarrow> members_ok (members_of f)"

lemma read_file_ok: "parser_ok parse \<Longrightarrow> \<forall>t\<in>set_option s. units_ok t \<Longrightarrow> file_ok (read parse s)"
proof (cases "read parse s")
  case (Members ms)
  assume "parser_ok parse" "\<forall>t\<in>set_option s. units_ok t"
  with Members show ?thesis by (cases s) (auto simp: file_ok_def members_of_def read_members, simp add: read_def)
qed (simp_all add: file_ok_def members_of_def members_ok_def)

lemma member_ok_at: "file_ok f \<Longrightarrow> member_ok (map_of (members_of f) k)"
  by (auto simp: file_ok_def members_ok_def member_ok_def split: option.splits dest!: map_of_SomeD)

lemma file_keys_ok: "file_ok f \<Longrightarrow> k \<in> fst ` set (members_of f) \<Longrightarrow> units_ok k"
  by (auto simp: file_ok_def members_ok_def)

lemma all_keys_swap:
  assumes "file_ok b" "file_ok l" "file_ok r" shows "all_keys b r l = all_keys b l r"
  unfolding all_keys_def
proof (rule sort_by_set [OF compareText_consistent])
  fix x y
  let ?ks = "as_set (map fst (members_of b) @ map fst (members_of r) @ map fst (members_of l))"
  assume k: "x \<in> set ?ks" "y \<in> set ?ks" and c: "compareText x y \<le> 0" "compareText y x \<le> 0"
  have "units_ok x" "units_ok y" using k assms file_keys_ok by auto
  then show "x = y" by (rule compareText_antisym [OF _ _ c])
qed auto

definition swap_conflict :: "kv_conflict \<Rightarrow> kv_conflict" where
  "swap_conflict c = c\<lparr>cours := ctheirs c, ctheirs := cours c\<rparr>"

fun swap_merge :: "kv_merge \<Rightarrow> kv_merge" where
  "swap_merge (Merged t) = Merged t"
| "swap_merge (Conflict cs) = Conflict (map swap_conflict cs)"
| "swap_merge FileConflict = FileConflict"
| "swap_merge (InvalidSide Base) = InvalidSide Base"
| "swap_merge (InvalidSide Ours) = InvalidSide Theirs"
| "swap_merge (InvalidSide Theirs) = InvalidSide Ours"

lemma merge_members_swap:
  assumes "file_ok b" "file_ok l" "file_ok r"
  shows "merge_members res b r l = swap_merge (merge_members res b l r)"
proof -
  let ?b = "map_of (members_of b)" and ?l = "map_of (members_of l)" and ?r = "map_of (members_of r)"
  have w: "written_at res ?b ?r ?l = written_at res ?b ?l ?r"
    using select_key_swap member_ok_at assms by (fastforce simp: written_at_def)
  have c: "conflict_at ?b ?r ?l = swap_conflict \<circ> conflict_at ?b ?l ?r"
    by (simp add: conflict_at_def swap_conflict_def fun_eq_iff)
  show ?thesis
    unfolding merge_members_def all_keys_swap [OF assms] merge_keys_eq w c
    by (auto simp: Let_def filter_empty_conv)
qed

section \<open>Properties\<close>

text \<open>
  Sample files \<^verbatim>\<open>{"a":1}\<close> and \<^verbatim>\<open>{"a":2}\<close>, and a parser that reads a file of this shape.
\<close>

definition sample_parser :: parser where
  "sample_parser s = Some (length s \<noteq> 7, Some (Node ObjectNode 0 7 None
     [Node PropertyNode 1 5 None [Node StringNode 1 3 (Some [97]) [], Node NumberNode 5 1 None []]]))"

definition sample_file :: "nat \<Rightarrow> jsstring" where
  "sample_file d = [123, 34, 97, 34, 58, d, 125]"

lemma sample_parser_ok: "parser_ok sample_parser"
  by (auto simp: parser_ok_def sample_parser_def units_ok_def)

lemma sample_file_units: "d < 0x10000 \<Longrightarrow> units_ok (sample_file d)"
  by (simp add: units_ok_def sample_file_def)

lemma sample_read:
  "48 \<le> d \<Longrightarrow> d < 58 \<Longrightarrow> read sample_parser (Some (sample_file d)) = Members [([97], \<lparr>raw = [d], mvalue = Literal [d]\<rparr>)]"
  by (simp add: read_def sample_file_def validUnicode_def withinDepth_def high_surrogate_def low_surrogate_def sample_parser_def
      slice_def Let_def)

lemma sample_merge:
  "mergeKv sample_parser (Some (sample_file 49)) (Some (sample_file 49)) (Some (sample_file 50)) = Merged (Some (formatKvMembers [([97], [50])]))"
  by (simp add: mergeKv_def reconcileKv_def sample_read merge_members_def all_keys_def as_set_def members_of_def select_key_def
      equal_def Let_def)

text \<open>
  It does not matter which device merges: exchanging the two
  sides gives the same text, byte for byte, the same keys in conflict with their sides exchanged,
  and the same verdict on the file. (Of two invalid sides the first is named.)
\<close>

theorem kv_merge_is_symmetric:
  assumes "parser_ok parse" and "\<forall>s\<in>set_option base \<union> set_option ours \<union> set_option theirs. units_ok s"
    and "\<not> (read parse ours = NotValid \<and> read parse theirs = NotValid)"
  shows "reconcileKv parse res base theirs ours = swap_merge (reconcileKv parse res base ours theirs)"
proof -
  have ok: "file_ok (read parse base)" "file_ok (read parse ours)" "file_ok (read parse theirs)"
    using read_file_ok [OF assms(1)] assms(2) by auto
  note swap = merge_members_swap [OF ok, of res]
  show ?thesis using assms(3)
    by (cases "read parse base"; cases "read parse ours"; cases "read parse theirs") (use swap in \<open>simp_all add: reconcileKv_def\<close>)
qed

theorem kv_merge_is_symmetric_witness:
  "reconcileKv sample_parser Map.empty (Some (sample_file 49)) (Some (sample_file 50)) (Some (sample_file 49))
     = Merged (Some (formatKvMembers [([97], [50])]))"
  using kv_merge_is_symmetric [OF sample_parser_ok, of "Some (sample_file 49)" "Some (sample_file 49)" "Some (sample_file 50)" Map.empty]
    sample_merge by (simp add: sample_file_units sample_read mergeKv_def)

text \<open>
  Claim C31 (kv_merge_keeps_changes). When both files are present and no key competes, the text
  written has every key once, in order, and for each key the value of one of the two sides: the
  value of a side that changed it, and the base's where neither did. So no change on either side
  is lost, a removal and an addition included.
\<close>

theorem kv_merge_keeps_changes:
  assumes "parser_ok parse" and "\<forall>s\<in>set_option base \<union> {ours, theirs}. units_ok s"
    and "read parse (Some ours) = Members lms" and "read parse (Some theirs) = Members rms"
    and "mergeKv parse base (Some ours) (Some theirs) = Merged t"
  shows "\<exists>ms sel. t = Some (formatKvMembers ms) \<and> distinct (map fst ms) \<and> sorted_wrt (\<lambda>x y. compareText x y \<le> 0) (map fst ms)
    \<and> (\<forall>k. let b = map_of (members_of (read parse base)) k; l = map_of lms k; r = map_of rms k in
        map_of ms k = map_option raw (sel k) \<and> sel k \<in> {l, r}
        \<and> (\<not> equal (mval l) (mval b) \<longrightarrow> equal (mval (sel k)) (mval l))
        \<and> (\<not> equal (mval r) (mval b) \<longrightarrow> equal (mval (sel k)) (mval r))
        \<and> (equal (mval l) (mval b) \<and> equal (mval r) (mval b) \<longrightarrow> equal (mval (sel k)) (mval b)))"
proof -
  let ?b = "map_of (members_of (read parse base))" and ?l = "map_of lms" and ?r = "map_of rms"
  let ?ks = "all_keys (read parse base) (Members lms) (Members rms)"
  have ok: "file_ok (read parse base)" "file_ok (Members lms)" "file_ok (Members rms)"
    using read_file_ok [OF assms(1), of base] read_file_ok [OF assms(1), of "Some ours"] read_file_ok [OF assms(1), of "Some theirs"]
      assms(2-4) by simp_all
  have "merge_members Map.empty (read parse base) (Members lms) (Members rms) = Merged t"
    using assms(3-5) by (auto simp: mergeKv_def reconcileKv_def Let_def split: if_splits)
  from merge_members_merged [OF this] obtain ms where t: "t = Some (formatKvMembers ms)"
    and ms: "ms = snd (merge_keys Map.empty ?b ?l ?r ?ks)" and none: "\<forall>k\<in>set ?ks. written_at Map.empty ?b ?l ?r k \<noteq> None"
    by (auto simp: members_of_def)
  define sel where "sel = (\<lambda>k. case select_key Map.empty k (?b k) (?l k) (?r k) of Selected m \<Rightarrow> m | _ \<Rightarrow> None)"
  have picked: "select_key Map.empty k (?b k) (?l k) (?r k) = Selected (sel k)" for k
  proof (cases "k \<in> set ?ks")
    case True
    with none have "written (select_key Map.empty k (?b k) (?l k) (?r k)) \<noteq> None" by (simp add: written_at_def)
    moreover have "select_key Map.empty k (?b k) (?l k) (?r k) \<noteq> Settled x" for x by (simp add: select_key_def)
    ultimately show ?thesis by (cases "select_key Map.empty k (?b k) (?l k) (?r k)") (auto simp: sel_def)
  next
    case False
    then have "?b k = None" "?l k = None" "?r k = None" by (auto simp: set_all_keys members_of_def map_of_eq_None_iff)
    then show ?thesis by (simp add: sel_def select_key_def equal_def)
  qed
  have keys: "map fst ms = filter (\<lambda>k. \<exists>t. written_at Map.empty ?b ?l ?r k = Some (Some t)) ?ks"
    unfolding ms merge_keys_eq snd_conv by (rule written_list(1))
  have "map_of ms k = map_option raw (sel k)" for k
  proof (cases "k \<in> set ?ks")
    case True
    then show ?thesis unfolding ms merge_keys_eq snd_conv written_list(2) using picked [of k] by (simp add: written_at_def)
  next
    case False
    then have "?l k = None" "?r k = None" "?b k = None" by (auto simp: set_all_keys members_of_def map_of_eq_None_iff)
    with False show ?thesis unfolding ms merge_keys_eq snd_conv written_list(2) by (simp add: sel_def select_key_def equal_def)
  qed
  moreover have "distinct (map fst ms)" unfolding keys by (simp add: all_keys_distinct)
  moreover have "sorted_wrt (\<lambda>x y. compareText x y \<le> 0) (map fst ms)"
    unfolding keys by (intro sorted_wrt_filter) (simp add: all_keys_def sorted_sort_by compareText_consistent)
  moreover have "member_ok (?b k)" "member_ok (?l k)" "member_ok (?r k)" for k
    using member_ok_at [OF ok(1)] member_ok_at [OF ok(2)] member_ok_at [OF ok(3)] by (simp_all add: members_of_def)
  then have "sel k \<in> {?l k, ?r k} \<and> (\<not> equal (mval (?l k)) (mval (?b k)) \<longrightarrow> equal (mval (sel k)) (mval (?l k)))
    \<and> (\<not> equal (mval (?r k)) (mval (?b k)) \<longrightarrow> equal (mval (sel k)) (mval (?r k)))
    \<and> (equal (mval (?l k)) (mval (?b k)) \<and> equal (mval (?r k)) (mval (?b k)) \<longrightarrow> equal (mval (sel k)) (mval (?b k)))" for k
    by (rule select_key_rule) (rule picked)
  ultimately show ?thesis using t unfolding Let_def by blast
qed

theorem kv_merge_keeps_changes_witness:
  "\<exists>ms. map_of ms [97] = Some [50]
    \<and> mergeKv sample_parser (Some (sample_file 49)) (Some (sample_file 49)) (Some (sample_file 50)) = Merged (Some (formatKvMembers ms))"
proof -
  have "\<forall>s\<in>set_option (Some (sample_file 49)) \<union> {sample_file 49, sample_file 50}. units_ok s" by (simp add: sample_file_units)
  note kept = kv_merge_keeps_changes [OF sample_parser_ok this sample_read [of 49, simplified] sample_read [of 50, simplified] sample_merge,
      unfolded option.inject]
  from kept obtain ms and sel :: "jsstring \<Rightarrow> member option" where
    ms: "formatKvMembers [([97], [50])] = formatKvMembers ms" and
    all: "\<forall>k. let b = map_of (members_of (read sample_parser (Some (sample_file 49)))) k;
        l = map_of [([97], \<lparr>raw = [49], mvalue = Literal [49]\<rparr>)] k; r = map_of [([97], \<lparr>raw = [50], mvalue = Literal [50]\<rparr>)] k in
        map_of ms k = map_option raw (sel k) \<and> sel k \<in> {l, r}
        \<and> (\<not> equal (mval l) (mval b) \<longrightarrow> equal (mval (sel k)) (mval l))
        \<and> (\<not> equal (mval r) (mval b) \<longrightarrow> equal (mval (sel k)) (mval r))
        \<and> (equal (mval l) (mval b) \<and> equal (mval r) (mval b) \<longrightarrow> equal (mval (sel k)) (mval b))"
    by (elim exE conjE)
  from spec [OF all, of "[97]"] have "map_of ms [97] = Some [50]"
    unfolding Let_def by (auto simp: equal_def sample_read members_of_def)
  with ms sample_merge show ?thesis by metis
qed

lemma select_key_resolved:
  "select_key res k b l r = (case select_key Map.empty k b l r of
     Competes \<Rightarrow> (case res k of None \<Rightarrow> Competes | Some t \<Rightarrow> Settled t) | s \<Rightarrow> s)"
  by (simp add: select_key_def split: option.split)

lemma written_at_resolved:
  "written_at res b l r k = None \<longleftrightarrow> written_at Map.empty b l r k = None \<and> k \<notin> dom res"
  "written_at Map.empty b l r k \<noteq> None \<Longrightarrow> written_at res b l r k = written_at Map.empty b l r k"
  unfolding written_at_def select_key_resolved [of res]
  by (cases "select_key Map.empty k (b k) (l k) (r k)"; auto split: option.splits)+

lemma merge_members_resolved:
  "case merge_members Map.empty b l r of
     Conflict cs \<Rightarrow>
       (let left = filter (\<lambda>c. ckey c \<notin> dom res) cs in
        if left = [] then \<exists>t. merge_members res b l r = Merged (Some t)
        else merge_members res b l r = Conflict left)
   | verdict \<Rightarrow> merge_members res b l r = verdict"
proof -
  let ?b = "map_of (members_of b)" and ?l = "map_of (members_of l)" and ?r = "map_of (members_of r)"
  let ?ks = "all_keys b l r"
  let ?cs = "\<lambda>res. map (conflict_at ?b ?l ?r) (filter (\<lambda>k. written_at res ?b ?l ?r k = None) ?ks)"
  have left: "filter (\<lambda>c. ckey c \<notin> dom res) (?cs Map.empty) = ?cs res"
    by (simp add: filter_map comp_def conflict_at_def written_at_resolved(1) [of res] conj_commute cong: filter_cong)
  have m: "merge_members res b l r = (if ?cs res \<noteq> [] then Conflict (?cs res)
      else Merged (Some (formatKvMembers (snd (merge_keys res ?b ?l ?r ?ks)))))" for res
    by (simp add: merge_members_def merge_keys_eq Let_def)
  show ?thesis
  proof (cases "?cs Map.empty = []")
    case True
    then have n: "written_at Map.empty ?b ?l ?r k \<noteq> None" if "k \<in> set ?ks" for k using that by (auto simp: filter_empty_conv)
    have "written_at res ?b ?l ?r k = written_at Map.empty ?b ?l ?r k" if "k \<in> set ?ks" for k
      by (rule written_at_resolved(2) [OF n [OF that]])
    then have same: "snd (merge_keys res ?b ?l ?r ?ks) = snd (merge_keys Map.empty ?b ?l ?r ?ks)"
      unfolding merge_keys_eq snd_conv by (intro arg_cong [of _ _ concat] map_cong) simp_all
    have none: "?cs res = []" unfolding left [symmetric] True by (rule filter.simps(1))
    have m1: "merge_members Map.empty b l r = Merged (Some (formatKvMembers (snd (merge_keys Map.empty ?b ?l ?r ?ks))))"
      unfolding m True by (simp only: if_False simp_thms)
    have m2: "merge_members res b l r = Merged (Some (formatKvMembers (snd (merge_keys Map.empty ?b ?l ?r ?ks))))"
      unfolding m none same by (simp only: if_False simp_thms)
    show ?thesis unfolding m1 m2 by (simp only: kv_merge.case)
  next
    case False
    then have m1: "merge_members Map.empty b l r = Conflict (?cs Map.empty)" unfolding m by (rule if_P)
    define C D where "C = ?cs Map.empty" and "D = ?cs res"
    obtain t where m2: "merge_members res b l r = (if D \<noteq> [] then Conflict D else Merged (Some t))"
      using m [of res] unfolding D_def by blast
    have "filter (\<lambda>c. ckey c \<notin> dom res) C = D" unfolding C_def D_def by (rule left)
    then show ?thesis unfolding m1 C_def [symmetric] m2 by simp
  qed
qed

lemma reconcile_resolved:
  "case mergeKv parse base ours theirs of
     Conflict cs \<Rightarrow>
       (let left = filter (\<lambda>c. ckey c \<notin> dom res) cs in
        if left = [] then \<exists>t. reconcileKv parse res base ours theirs = Merged (Some t)
        else reconcileKv parse res base ours theirs = Conflict left)
   | verdict \<Rightarrow> reconcileKv parse res base ours theirs = verdict"
proof (cases "merge_members Map.empty (read parse base) (read parse ours) (read parse theirs)")
qed (use merge_members_resolved [where b = "read parse base" and l = "read parse ours" and r = "read parse theirs" and res = res] in
    \<open>auto simp: mergeKv_def reconcileKv_def Let_def\<close>)

text \<open>
  Resolutions settle competing keys and nothing else: a merge
  with no conflict is unchanged by them, and otherwise exactly the competing keys that have one
  stop competing.
\<close>

theorem resolutions_only_settle:
  "case mergeKv parse base ours theirs of
     Conflict cs \<Rightarrow>
       (let left = filter (\<lambda>c. ckey c \<notin> dom res) cs in
        if left = [] then \<exists>t. reconcileKv parse res base ours theirs = Merged (Some t)
        else reconcileKv parse res base ours theirs = Conflict left)
   | verdict \<Rightarrow> reconcileKv parse res base ours theirs = verdict"
  by (rule reconcile_resolved)

end
