(* ===== verification/Js_Value.thy ===== *)
theory Js_Value
  imports Js_Order
begin

text \<open>
  JavaScript values as the folder's codecs meet them, and the guards of
  \<^verbatim>\<open>packages/definition/src/json.ts\<close>: which values are JSON. Objects live in a heap, so that
  sharing and cycles are part of the model. The guard without a budget walks the value with a
  stack of its own; the theorem is that it decides the inductive definition of a JSON value.
\<close>

section \<open>Values\<close>

text \<open>
  A number: one with an integral value, negative zero, a finite one that is not integral, by the
  text \<^verbatim>\<open>String(value)\<close> prints it as (which determines it), an infinity, or \<^verbatim>\<open>NaN\<close>.
\<close>

datatype num = Whole int | MinusZero | Fraction jsstring | Infinite bool | NotANumber

definition isFinite :: "num \<Rightarrow> bool" where
  "isFinite n = (case n of Infinite neg \<Rightarrow> False | NotANumber \<Rightarrow> False | _ \<Rightarrow> True)"

definition isInteger :: "num \<Rightarrow> bool" where
  "isInteger n = (case n of Whole i \<Rightarrow> True | MinusZero \<Rightarrow> True | _ \<Rightarrow> False)"

definition MAX_SAFE_INTEGER :: int where
  "MAX_SAFE_INTEGER = 2 ^ 53 - 1"

definition isSafeInteger :: "num \<Rightarrow> bool" where
  "isSafeInteger n = (case n of Whole i \<Rightarrow> \<bar>i\<bar> \<le> MAX_SAFE_INTEGER | MinusZero \<Rightarrow> True | _ \<Rightarrow> False)"

text \<open>\<^verbatim>\<open>===\<close> on numbers: \<^verbatim>\<open>NaN\<close> equals nothing, the two zeros are equal.\<close>

definition same_number :: "num \<Rightarrow> num \<Rightarrow> bool" where
  "same_number m n \<longleftrightarrow> m \<noteq> NotANumber \<and> (m = n \<or> (m = Whole 0 \<and> n = MinusZero) \<or> (m = MinusZero \<and> n = Whole 0))"

text \<open>
  \<open>JOther\<close> is a value of any other type, by what \<^verbatim>\<open>typeof\<close> says of it; \<open>JRef\<close> is an object, by
  its identity.
\<close>

datatype jsval = JUndefined | JNull | JBool bool | JNum num | JText jsstring | JOther jsstring | JRef nat

text \<open>
  An array holds elements and holes, and may have properties besides; a record says whether its
  prototype is \<^verbatim>\<open>Object.prototype\<close> or \<^verbatim>\<open>null\<close>, how many symbols and non-enumerable properties it
  has, and its own enumerable members in the order of \<^verbatim>\<open>Object.keys\<close>.
\<close>

datatype jsobj = ArrayObj "jsval option list" nat | RecordObj bool nat "(jsstring \<times> jsval) list"

type_synonym heap = "(nat \<times> jsobj) list"

text \<open>Reading a hole gives \<^verbatim>\<open>undefined\<close>.\<close>

definition element :: "jsval option \<Rightarrow> jsval" where
  "element x = (case x of None \<Rightarrow> JUndefined | Some v \<Rightarrow> v)"

section \<open>The walk\<close>

definition json_children :: "jsobj \<Rightarrow> jsval list option" where
  "json_children obj =
     (case obj of
        ArrayObj items extra \<Rightarrow> Some (map element items)
      | RecordObj proto hidden ms \<Rightarrow> if proto then Some (map snd ms) else None)"

text \<open>A frame of the stack: a node and the children still to be visited.\<close>

type_synonym frames = "(nat \<times> jsval list) list"

text \<open>The first half of an iteration, on the current value: \<^const>\<open>None\<close> answers \<^verbatim>\<open>false\<close>.\<close>

definition enter :: "heap \<Rightarrow> nat list \<Rightarrow> nat list \<Rightarrow> frames \<Rightarrow> jsval \<Rightarrow> (nat list \<times> frames) option" where
  "enter h ancestors passed open current =
     (case current of
        JNum n \<Rightarrow> if isFinite n then Some (ancestors, open) else None
      | JNull \<Rightarrow> Some (ancestors, open)
      | JText s \<Rightarrow> Some (ancestors, open)
      | JBool b \<Rightarrow> Some (ancestors, open)
      | JUndefined \<Rightarrow> None
      | JOther ty \<Rightarrow> None
      | JRef i \<Rightarrow>
          if i \<in> set ancestors then None
          else if i \<in> set passed then Some (ancestors, open)
          else (case map_of h i of
                  None \<Rightarrow> None
                | Some obj \<Rightarrow> (case json_children obj of None \<Rightarrow> None | Some cs \<Rightarrow> Some (i # ancestors, (i, cs) # open))))"

text \<open>The second half: the next child, leaving the frames that have none; \<^const>\<open>None\<close> when none is left.\<close>

fun next_child :: "nat list \<Rightarrow> nat list \<Rightarrow> frames \<Rightarrow> (nat list \<times> nat list \<times> frames \<times> jsval) option" where
  "next_child ancestors passed [] = None"
| "next_child ancestors passed ((i, c # cs) # open) = Some (ancestors, passed, (i, cs) # open, c)"
| "next_child ancestors passed ((i, []) # open) = next_child (removeAll i ancestors) (i # passed) open"

text \<open>The work that is left: the children on the stack, and every node not seen yet with its children.\<close>

definition node_work :: "heap \<Rightarrow> nat \<Rightarrow> nat" where
  "node_work h i = (case map_of h i of None \<Rightarrow> 0 | Some obj \<Rightarrow> (case json_children obj of None \<Rightarrow> 0 | Some cs \<Rightarrow> length cs))"

definition walk_work :: "heap \<Rightarrow> nat list \<Rightarrow> nat list \<Rightarrow> frames \<Rightarrow> nat" where
  "walk_work h ancestors passed open =
     (\<Sum>i\<in>fst ` set h - set ancestors - set passed. node_work h i) + (\<Sum>f\<leftarrow>open. length (snd f))"

lemma enter_work:
  assumes "enter h ancestors passed open v = Some (ancestors', open')"
  shows "walk_work h ancestors' passed open' \<le> walk_work h ancestors passed open"
proof (cases "\<exists>i. v = JRef i \<and> i \<notin> set passed")
  case True
  then obtain i where i: "v = JRef i" "i \<notin> set passed" by blast
  with assms obtain obj cs where o: "i \<notin> set ancestors" "map_of h i = Some obj" "json_children obj = Some cs"
    "ancestors' = i # ancestors" "open' = (i, cs) # open"
    by (auto simp: enter_def split: if_splits option.splits)
  let ?S = "fst ` set h - set ancestors - set passed"
  have "i \<in> ?S" using o(1,2) i(2) by (force dest: map_of_SomeD)
  then have "(\<Sum>j\<in>?S. node_work h j) = node_work h i + (\<Sum>j\<in>?S - {i}. node_work h j)" by (intro sum.remove) auto
  moreover have "fst ` set h - set ancestors' - set passed = ?S - {i}" using o(4) by auto
  ultimately show ?thesis using o by (simp add: walk_work_def node_work_def)
qed (use assms in \<open>auto simp: enter_def split: jsval.splits if_splits\<close>)

lemma next_child_work:
  "next_child ancestors passed open = Some (ancestors', passed', open', c) \<Longrightarrow>
    walk_work h ancestors' passed' open' < walk_work h ancestors passed open"
proof (induction ancestors passed "open" rule: next_child.induct)
  case (3 ancestors passed i "open")
  have "fst ` set h - set (removeAll i ancestors) - set (i # passed) \<subseteq> fst ` set h - set ancestors - set passed" by auto
  then have "walk_work h (removeAll i ancestors) (i # passed) open \<le> walk_work h ancestors passed ((i, []) # open)"
    unfolding walk_work_def by (auto intro!: sum_mono2)
  with 3 show ?case by simp
qed (auto simp: walk_work_def)

function walk :: "heap \<Rightarrow> nat list \<Rightarrow> nat list \<Rightarrow> frames \<Rightarrow> jsval \<Rightarrow> bool" where
  "walk h ancestors passed open current =
     (case enter h ancestors passed open current of
        None \<Rightarrow> False
      | Some (ancestors', open') \<Rightarrow>
          (case next_child ancestors' passed open' of
             None \<Rightarrow> True
           | Some (ancestors'', passed'', open'', c) \<Rightarrow> walk h ancestors'' passed'' open'' c))"
  by pat_completeness auto
termination
  by (relation "measure (\<lambda>(h, ancestors, passed, open, current). walk_work h ancestors passed open)")
    (auto dest: enter_work next_child_work intro: less_le_trans)

declare walk.simps [simp del]

definition isJsonSafe :: "heap \<Rightarrow> jsval \<Rightarrow> bool" where
  "isJsonSafe h value =
     (case value of
        JNull \<Rightarrow> True | JText s \<Rightarrow> True | JBool b \<Rightarrow> True
      | JNum n \<Rightarrow> isFinite n
      | JUndefined \<Rightarrow> False | JOther ty \<Rightarrow> False
      | JRef i \<Rightarrow> walk h [] [] [] value)"

section \<open>Within a budget\<close>

definition JSON_DEPTH :: nat where
  "JSON_DEPTH = 16"

definition JSON_PROPERTIES :: nat where
  "JSON_PROPERTIES = 1024"

text \<open>\<^verbatim>\<open>Array.prototype.every\<close> does not visit holes.\<close>

function isJsonAtDepth :: "heap \<Rightarrow> jsval \<Rightarrow> nat \<Rightarrow> nat list \<Rightarrow> bool" where
  "isJsonAtDepth h value depth ancestors =
     (case value of
        JNull \<Rightarrow> True | JText s \<Rightarrow> True | JBool b \<Rightarrow> True
      | JNum n \<Rightarrow> isFinite n
      | JUndefined \<Rightarrow> False | JOther ty \<Rightarrow> False
      | JRef i \<Rightarrow>
          if depth \<ge> JSON_DEPTH \<or> i \<in> set ancestors then False
          else (case map_of h i of
                  None \<Rightarrow> False
                | Some (ArrayObj items extra) \<Rightarrow>
                    (\<forall>x\<in>set items. case x of None \<Rightarrow> True | Some c \<Rightarrow> isJsonAtDepth h c (depth + 1) (i # ancestors))
                | Some (RecordObj proto hidden ms) \<Rightarrow>
                    proto \<and> length ms \<le> JSON_PROPERTIES
                    \<and> (\<forall>m\<in>set ms. isJsonAtDepth h (snd m) (depth + 1) (i # ancestors))))"
  by pat_completeness auto
termination
  by (relation "measure (\<lambda>(h, value, depth, ancestors). JSON_DEPTH - depth)") auto

declare isJsonAtDepth.simps [simp del]

definition isJsonValue :: "heap \<Rightarrow> jsval \<Rightarrow> bool" where
  "isJsonValue h value = isJsonAtDepth h value 0 []"

definition isJsonObject :: "heap \<Rightarrow> jsval \<Rightarrow> bool" where
  "isJsonObject h value =
     (case value of
        JRef i \<Rightarrow> (case map_of h i of Some (ArrayObj items extra) \<Rightarrow> False | _ \<Rightarrow> isJsonValue h value)
      | _ \<Rightarrow> False)"

section \<open>What a JSON value is\<close>

text \<open>
  The definition the walk is to decide: built from the leaves up, so that a value that contains
  itself is none.
\<close>

definition leaf :: "jsval \<Rightarrow> bool" where
  "leaf v = (case v of JNull \<Rightarrow> True | JText s \<Rightarrow> True | JBool b \<Rightarrow> True | JNum n \<Rightarrow> isFinite n | _ \<Rightarrow> False)"

inductive json_value :: "heap \<Rightarrow> jsval \<Rightarrow> bool" for h where
  json_leaf: "leaf v \<Longrightarrow> json_value h v"
| json_node: "map_of h i = Some obj \<Longrightarrow> json_children obj = Some cs \<Longrightarrow> \<forall>c\<in>set cs. json_value h c \<Longrightarrow> json_value h (JRef i)"

inductive_cases json_refE: "json_value h (JRef i)"

lemma leaf_ref [simp]: "\<not> leaf (JRef i)"
  by (simp add: leaf_def)

definition edge :: "heap \<Rightarrow> nat \<Rightarrow> nat \<Rightarrow> bool" where
  "edge h i j \<longleftrightarrow> (\<exists>obj cs. map_of h i = Some obj \<and> json_children obj = Some cs \<and> JRef j \<in> set cs)"

lemma json_value_edge: "json_value h (JRef i) \<Longrightarrow> edge h i j \<Longrightarrow> json_value h (JRef j)"
  by (auto simp: edge_def elim: json_refE)

text \<open>No JSON value contains itself.\<close>

lemma json_value_acyclic: "json_value h v \<Longrightarrow> v = JRef i \<Longrightarrow> \<not> (edge h)\<^sup>+\<^sup>+ i i"
proof (induction arbitrary: i rule: json_value.induct)
  case (json_node i' obj cs)
  show ?case
  proof
    assume c: "(edge h)\<^sup>+\<^sup>+ i i"
    then obtain j where j: "edge h i j" "(edge h)\<^sup>*\<^sup>* j i" by (meson tranclpD)
    from j(1) json_node have "JRef j \<in> set cs" by (auto simp: edge_def)
    with json_node(3) have "\<not> (edge h)\<^sup>+\<^sup>+ j j" by blast
    with j show False by (meson rtranclp_into_tranclp1)
  qed
qed simp

section \<open>The walk decides it\<close>

text \<open>
  The stack of the walk: of every frame's node, the children before the one in hand are JSON
  values, and that one is the node of the frame above, or \<open>v\<close> on the frame that is uppermost.
\<close>

definition visited :: "heap \<Rightarrow> nat \<Rightarrow> jsval list \<Rightarrow> bool" where
  "visited h i cs \<longleftrightarrow> (\<exists>obj ds. map_of h i = Some obj \<and> json_children obj = Some (ds @ cs) \<and> (\<forall>d\<in>set ds. json_value h d))"

fun stack_ok :: "heap \<Rightarrow> jsval \<Rightarrow> frames \<Rightarrow> jsval \<Rightarrow> bool" where
  "stack_ok h root [] v = (v = root)"
| "stack_ok h root ((i, cs) # open) v = (visited h i (v # cs) \<and> stack_ok h root open (JRef i))"

fun rest_ok :: "heap \<Rightarrow> jsval \<Rightarrow> frames \<Rightarrow> bool" where
  "rest_ok h root [] = json_value h root"
| "rest_ok h root ((i, cs) # open) = (visited h i cs \<and> stack_ok h root open (JRef i))"

lemma visited_edge: "visited h i (JRef j # cs) \<Longrightarrow> edge h i j"
  by (auto simp: visited_def edge_def)

lemma visited_bad: "visited h i (v # cs) \<Longrightarrow> \<not> json_value h v \<Longrightarrow> \<not> json_value h (JRef i)"
  by (auto simp: visited_def elim!: json_refE)

lemma visited_step: "visited h i (v # cs) \<Longrightarrow> json_value h v \<Longrightarrow> visited h i cs"
  unfolding visited_def by (auto intro!: exI [of _ "ds @ [v]" for ds])

lemma visited_all: "visited h i [] \<Longrightarrow> json_value h (JRef i)"
  by (auto simp: visited_def intro: json_node)

lemma stack_bad: "stack_ok h root open v \<Longrightarrow> \<not> json_value h v \<Longrightarrow> \<not> json_value h root"
  by (induction "open" arbitrary: v) (use visited_bad in \<open>auto, blast\<close>)

lemma stack_path: "stack_ok h root open (JRef k) \<Longrightarrow> i \<in> fst ` set open \<Longrightarrow> (edge h)\<^sup>+\<^sup>+ i k"
proof (induction "open" arbitrary: k)
  case (Cons f "open")
  obtain j cs where f: "f = (j, cs)" by (cases f)
  with Cons.prems(1) have j: "edge h j k" "stack_ok h root open (JRef j)" by (auto dest: visited_edge)
  show ?case
  proof (cases "i = j")
    case False
    with Cons.prems(2) f have "i \<in> fst ` set open" by simp
    from Cons.IH [OF j(2) this] j(1) show ?thesis by simp
  qed (use j(1) in simp)
qed simp

lemma stack_rest: "stack_ok h root open v \<Longrightarrow> json_value h v \<Longrightarrow> rest_ok h root open"
  by (cases "open") (auto intro: visited_step)

lemma enter_ok:
  assumes "stack_ok h root open v" and "set ancestors = fst ` set open" and "\<forall>i\<in>set passed. json_value h (JRef i)"
  shows "case enter h ancestors passed open v of
      None \<Rightarrow> \<not> json_value h root
    | Some (ancestors', open') \<Rightarrow> rest_ok h root open' \<and> (open' = open \<and> ancestors' = ancestors
        \<or> (\<exists>i cs. open' = (i, cs) # open \<and> ancestors' = i # ancestors \<and> i \<notin> set ancestors))"
proof (cases v)
  case (JRef i)
  consider (cycle) "i \<in> set ancestors" | (seen) "i \<notin> set ancestors" "i \<in> set passed" | (new) "i \<notin> set ancestors" "i \<notin> set passed"
    by blast
  then show ?thesis
  proof cases
    case cycle
    with assms(1,2) JRef have "(edge h)\<^sup>+\<^sup>+ i i" using stack_path by blast
    then have "\<not> json_value h v" using json_value_acyclic JRef by blast
    with assms(1) cycle JRef show ?thesis by (simp add: enter_def stack_bad)
  next
    case seen
    with assms(3) JRef have "json_value h v" by blast
    with assms(1) seen JRef show ?thesis by (simp add: enter_def stack_rest)
  next
    case new
    show ?thesis
    proof (cases "\<exists>obj cs. map_of h i = Some obj \<and> json_children obj = Some cs")
      case True
      then obtain obj cs where o: "map_of h i = Some obj" "json_children obj = Some cs" by blast
      then have "visited h i cs" by (auto simp: visited_def)
      with assms(1) new o JRef show ?thesis by (simp add: enter_def)
    next
      case False
      then have "\<not> json_value h v" using JRef by (auto elim: json_refE)
      with assms(1) have "\<not> json_value h root" by (rule stack_bad)
      moreover have "enter h ancestors passed open v = None" using False new JRef by (auto simp: enter_def split: option.split)
      ultimately show ?thesis by simp
    qed
  qed
next
  case (JNum n)
  show ?thesis
  proof (cases "isFinite n")
    case True
    with JNum assms(1) show ?thesis using stack_rest [OF assms(1)] by (simp add: enter_def leaf_def json_leaf)
  next
    case False
    with JNum have "\<not> json_value h v" by (auto simp: leaf_def elim: json_value.cases)
    with JNum False stack_bad [OF assms(1)] show ?thesis by (simp add: enter_def)
  qed
next
  case JUndefined
  then have "\<not> json_value h v" by (auto simp: leaf_def elim: json_value.cases)
  with JUndefined stack_bad [OF assms(1)] show ?thesis by (simp add: enter_def)
next
  case (JOther ty)
  then have "\<not> json_value h v" by (auto simp: leaf_def elim: json_value.cases)
  with JOther stack_bad [OF assms(1)] show ?thesis by (simp add: enter_def)
qed (use stack_rest [OF assms(1)] in \<open>auto simp: enter_def leaf_def json_leaf\<close>)

lemma next_child_ok:
  assumes "rest_ok h root open" and "set ancestors = fst ` set open" and "distinct (map fst open)"
    and "\<forall>i\<in>set passed. json_value h (JRef i)"
  shows "case next_child ancestors passed open of
      None \<Rightarrow> json_value h root
    | Some (ancestors', passed', open', c) \<Rightarrow> stack_ok h root open' c \<and> set ancestors' = fst ` set open' \<and> distinct (map fst open')
        \<and> (\<forall>i\<in>set passed'. json_value h (JRef i))"
  using assms
proof (induction ancestors passed "open" rule: next_child.induct)
  case (3 ancestors passed i "open")
  then have i: "json_value h (JRef i)" "stack_ok h root open (JRef i)" by (auto dest: visited_all)
  have "rest_ok h root open" using i stack_rest by blast
  moreover have "set (removeAll i ancestors) = fst ` set open" using 3(3,4) by auto
  ultimately show ?case using 3 i(1) by simp
qed auto

lemma walk_ok:
  "stack_ok h root open v \<Longrightarrow> set ancestors = fst ` set open \<Longrightarrow> distinct (map fst open) \<Longrightarrow>
    \<forall>i\<in>set passed. json_value h (JRef i) \<Longrightarrow> walk h ancestors passed open v = json_value h root"
proof (induction h ancestors passed "open" v rule: walk.induct)
  case (1 h ancestors passed "open" v)
  show ?case
  proof (cases "enter h ancestors passed open v")
    case None
    with enter_ok [OF 1(2,3,5)] show ?thesis by (simp add: walk.simps)
  next
    case (Some a)
    obtain ancestors' open' where a: "a = (ancestors', open')" by (cases a)
    from enter_ok [OF 1(2,3,5)] Some a have "rest_ok h root open' \<and> (open' = open \<and> ancestors' = ancestors
        \<or> (\<exists>i cs. open' = (i, cs) # open \<and> ancestors' = i # ancestors \<and> i \<notin> set ancestors))" by simp
    with 1(3,4) have e: "rest_ok h root open'" "set ancestors' = fst ` set open'" "distinct (map fst open')"
      by (elim conjE disjE exE; simp)+
    show ?thesis
    proof (cases "next_child ancestors' passed open'")
      case None
      with next_child_ok [OF e 1(5)] Some a show ?thesis by (simp add: walk.simps)
    next
      case (Some n)
      obtain ancestors'' passed'' open'' c where n: "n = (ancestors'', passed'', open'', c)" by (cases n)
      from next_child_ok [OF e 1(5)] Some n have "stack_ok h root open'' c" "set ancestors'' = fst ` set open''" "distinct (map fst open'')"
        "\<forall>i\<in>set passed''. json_value h (JRef i)" by auto
      then have "walk h ancestors'' passed'' open'' c = json_value h root"
        using 1(1) [OF \<open>enter h ancestors passed open v = Some a\<close> a [symmetric] Some n [symmetric] HOL.refl HOL.refl] by blast
      with Some n \<open>enter h ancestors passed open v = Some a\<close> a show ?thesis by (subst walk.simps) simp
    qed
  qed
qed

lemma json_value_leaf: "(\<And>i. v \<noteq> JRef i) \<Longrightarrow> json_value h v = leaf v"
  by (auto intro: json_leaf elim: json_value.cases)

lemma isJsonSafe_iff: "isJsonSafe h v = json_value h v"
  using walk_ok [of h v "[]" v "[]" "[]"] json_value_leaf [of v h]
  by (cases v) (auto simp: isJsonSafe_def leaf_def)

text \<open>
  Claim C39 (json_walk_decides). The walk with a stack of its own answers true for exactly the JSON
  values: the leaves that are null, texts, booleans and finite numbers, and what is built from
  JSON values by arrays and plain objects. Sharing does not matter, and a value that contains
  itself, however deep, is none.
\<close>

theorem json_walk_decides:
  shows "isJsonSafe h v = json_value h v"
  by (rule isJsonSafe_iff)

section \<open>The budget\<close>

text \<open>What the bounded guard is to decide: so many levels of containers, and no wider record.\<close>

fun within :: "heap \<Rightarrow> nat \<Rightarrow> jsval \<Rightarrow> bool" where
  "within h 0 v = leaf v"
| "within h (Suc n) v =
     (case v of
        JRef i \<Rightarrow>
          (case map_of h i of
             None \<Rightarrow> False
           | Some (ArrayObj items extra) \<Rightarrow> (\<forall>c. Some c \<in> set items \<longrightarrow> within h n c)
           | Some (RecordObj proto hidden ms) \<Rightarrow> proto \<and> length ms \<le> JSON_PROPERTIES \<and> (\<forall>m\<in>set ms. within h n (snd m)))
      | _ \<Rightarrow> leaf v)"

lemma within_edge: "within h (Suc n) (JRef i) \<Longrightarrow> edge h i j \<Longrightarrow> within h n (JRef j)"
proof -
  assume w: "within h (Suc n) (JRef i)" and "edge h i j"
  then obtain obj cs where o: "map_of h i = Some obj" "json_children obj = Some cs" "JRef j \<in> set cs" by (auto simp: edge_def)
  show ?thesis
  proof (cases obj)
    case (ArrayObj items extra)
    with o(2,3) obtain x where "x \<in> set items" "element x = JRef j" by (auto simp: json_children_def)
    then have "Some (JRef j) \<in> set items" by (simp add: element_def split: option.splits)
    with w o(1) ArrayObj show ?thesis by simp
  next
    case (RecordObj proto hidden ms)
    with w o show ?thesis by (fastforce simp: json_children_def split: if_splits)
  qed
qed

lemma within_acyclic: "(edge h)\<^sup>+\<^sup>+ i i \<Longrightarrow> \<not> within h n (JRef i)"
proof (induction n arbitrary: i)
  case (Suc n)
  then obtain j where j: "edge h i j" "(edge h)\<^sup>*\<^sup>* j i" by (meson tranclpD)
  then have "(edge h)\<^sup>+\<^sup>+ j j" by (meson rtranclp_into_tranclp1)
  from Suc.IH [OF this] j(1) show ?case using within_edge by blast
qed simp

lemma every_element: "(\<forall>x\<in>set items. case x of None \<Rightarrow> True | Some c \<Rightarrow> P c) \<longleftrightarrow> (\<forall>c. Some c \<in> set items \<longrightarrow> P c)"
  by (metis option.case(1,2) option.exhaust)

lemma isJsonAtDepth_within:
  "n = JSON_DEPTH - d \<Longrightarrow> \<forall>a\<in>set anc. \<forall>k. v = JRef k \<longrightarrow> (edge h)\<^sup>+\<^sup>+ a k \<Longrightarrow> isJsonAtDepth h v d anc = within h n v"
proof (induction n arbitrary: d anc v)
  case 0
  then show ?case by (subst isJsonAtDepth.simps) (auto simp: leaf_def split: jsval.split)
next
  case (Suc n)
  show ?case
  proof (cases v)
    case (JRef i)
    have d: "\<not> JSON_DEPTH \<le> d" "n = JSON_DEPTH - (d + 1)" using Suc.prems(1) by simp_all
    show ?thesis
    proof (cases "i \<in> set anc")
      case True
      then have "\<not> within h (Suc n) v" using Suc.prems(2) JRef within_acyclic by blast
      with True JRef show ?thesis by (subst isJsonAtDepth.simps) simp
    next
      case False
      have child: "isJsonAtDepth h c (d + 1) (i # anc) = within h n c" if c: "\<And>k. c = JRef k \<Longrightarrow> edge h i k" for c
      proof (rule Suc.IH [OF d(2)], intro ballI allI impI)
        fix a k assume a: "a \<in> set (i # anc)" "c = JRef k"
        have "(edge h)\<^sup>+\<^sup>+ a i \<or> a = i" using a(1) Suc.prems(2) JRef by auto
        with c [OF a(2)] show "(edge h)\<^sup>+\<^sup>+ a k" by auto
      qed
      show ?thesis
      proof (cases "map_of h i")
        case None
        with JRef show ?thesis by (subst isJsonAtDepth.simps) simp
      next
        case (Some obj)
        show ?thesis
        proof (cases obj)
          case (ArrayObj items extra)
          have "isJsonAtDepth h c (d + 1) (i # anc) = within h n c" if "Some c \<in> set items" for c
            by (rule child) (use that Some ArrayObj in \<open>force simp: edge_def json_children_def element_def\<close>)
          with Some ArrayObj JRef False d(1) show ?thesis
            by (subst isJsonAtDepth.simps) (simp add: every_element)
        next
          case (RecordObj proto hidden ms)
          have "isJsonAtDepth h (snd m) (d + 1) (i # anc) = within h n (snd m)" if "m \<in> set ms" "proto" for m
            by (rule child) (use that Some RecordObj in \<open>force simp: edge_def json_children_def\<close>)
          with Some RecordObj JRef False d(1) show ?thesis
            by (subst isJsonAtDepth.simps) auto
        qed
      qed
    qed
  qed (subst isJsonAtDepth.simps, simp add: leaf_def)+
qed

text \<open>No array of the heap has holes.\<close>

definition dense :: "heap \<Rightarrow> bool" where
  "dense h \<longleftrightarrow> (\<forall>i items extra. map_of h i = Some (ArrayObj items extra) \<longrightarrow> None \<notin> set items)"

lemma within_json_value: "dense h \<Longrightarrow> within h n v \<Longrightarrow> json_value h v"
proof (induction n arbitrary: v)
  case 0
  then show ?case by (simp add: json_leaf)
next
  case (Suc n)
  show ?case
  proof (cases "\<exists>i. v = JRef i")
    case True
    then obtain i where i: "v = JRef i" by blast
    with Suc.prems(2) obtain obj where o: "map_of h i = Some obj" by (auto split: option.splits)
    have "\<exists>cs. json_children obj = Some cs \<and> (\<forall>c\<in>set cs. json_value h c)"
    proof (cases obj)
      case (ArrayObj items extra)
      with o Suc.prems(1) have "None \<notin> set items" by (auto simp: dense_def)
      then have "\<forall>x\<in>set items. \<exists>c. x = Some c" by (metis option.exhaust)
      with Suc i o ArrayObj show ?thesis by (fastforce simp: json_children_def element_def)
    next
      case (RecordObj proto hidden ms)
      with Suc i o show ?thesis by (auto simp: json_children_def)
    qed
    with o i show ?thesis by (auto intro: json_node)
  next
    case False
    with Suc.prems(2) have "leaf v" by (cases v) auto
    then show ?thesis by (rule json_leaf)
  qed
qed

text \<open>
  The bounded guard answers true for exactly the values of at most
  sixteen levels of containers whose records are plain and have at most 1024 members; a cycle
  never passes. When no array has holes, whatever passes it is a JSON value, so the two guards
  never disagree on a value within the budget.
\<close>

theorem json_budget_is_exact:
  "isJsonValue h v = within h JSON_DEPTH v \<and> (dense h \<and> isJsonValue h v \<longrightarrow> isJsonSafe h v)"
proof -
  have "isJsonValue h v = within h JSON_DEPTH v"
    unfolding isJsonValue_def by (rule isJsonAtDepth_within) simp_all
  then show ?thesis using within_json_value [of h JSON_DEPTH v] isJsonSafe_iff [of h v] by blast
qed

definition sample_heap :: heap where
  "sample_heap = [(0, RecordObj True 0 [(js ''a'', JRef 1), (js ''b'', JRef 1)]), (1, ArrayObj [Some (JNum (Whole 7))] 0)]"

lemma sample_heap_value: "isJsonValue sample_heap (JRef 0)"
  by (simp add: isJsonValue_def sample_heap_def isJsonAtDepth.simps JSON_DEPTH_def JSON_PROPERTIES_def isFinite_def)

theorem json_budget_is_exact_witness: "isJsonSafe sample_heap (JRef 0)"
proof -
  have "dense sample_heap" by (auto simp: dense_def sample_heap_def split: if_splits)
  with sample_heap_value json_budget_is_exact [of sample_heap "JRef 0"] show ?thesis by blast
qed

text \<open>
  The guards differ on one thing: \<^verbatim>\<open>every\<close> skips holes, so the bounded guard accepts an array with
  a hole, which the walk refuses.
\<close>

lemma holes_pass_the_budget:
  "isJsonValue [(0, ArrayObj [None] 0)] (JRef 0)" "\<not> isJsonSafe [(0, ArrayObj [None] 0)] (JRef 0)"
proof -
  show "isJsonValue [(0, ArrayObj [None] 0)] (JRef 0)"
    by (simp add: isJsonValue_def isJsonAtDepth.simps JSON_DEPTH_def)
  show "\<not> isJsonSafe [(0, ArrayObj [None] 0)] (JRef 0)"
    by (simp add: isJsonSafe_def walk.simps enter_def json_children_def element_def)
qed

end
