(* ===== verification/Canonical.thy ===== *)
theory Canonical
  imports Js_Value "HOL-Library.AList"
begin

text \<open>
  Row files: framing (\<^verbatim>\<open>packages/folder/src/markdown.ts\<close>) and the codec of fields and body
  (\<^verbatim>\<open>packages/folder/src/canonical.ts\<close>). The YAML library is not under \<^verbatim>\<open>src/\<close>: \<^verbatim>\<open>parseDocument\<close>
  with the options the code passes is the parameter \<open>yaml\<close>, a function from a text to the document it
  builds, in which nodes have an identity and an alias resolves to a node. Which code points
  Unicode calls letters and numbers is the parameter \<open>U\<close>.
\<close>

section \<open>Framing\<close>

datatype row_frame =
    Frontmatter jsstring nat nat nat jsstring   \<comment> \<open>bom, yamlStart, yamlEnd, bodyStart, newline\<close>
  | Missing jsstring
  | Unclosed jsstring

definition starts_with :: "jsstring \<Rightarrow> nat \<Rightarrow> jsstring \<Rightarrow> bool" where
  "starts_with s at pre = (take (length pre) (drop at s) = pre)"

text \<open>\<^verbatim>\<open>source.indexOf('\n', from)\<close>\<close>

fun index_in :: "nat \<Rightarrow> jsstring \<Rightarrow> nat option" where
  "index_in c [] = None"
| "index_in c (u # us) = (if u = c then Some 0 else map_option Suc (index_in c us))"

definition indexOf :: "nat \<Rightarrow> nat \<Rightarrow> jsstring \<Rightarrow> nat option" where
  "indexOf c from source = map_option ((+) from) (index_in c (drop from source))"

definition strip_cr :: "jsstring \<Rightarrow> jsstring" where
  "strip_cr line = (if line \<noteq> [] \<and> last line = 13 then butlast line else line)"

definition fence :: jsstring where
  "fence = [45, 45, 45]"

definition BOM :: jsstring where
  "BOM = [0xFEFF]"

lemma index_in_less: "index_in c us = Some i \<Longrightarrow> i < length us"
  by (induction us arbitrary: i) (auto split: if_splits)

lemma indexOf_bounds: "indexOf c from s = Some i \<Longrightarrow> from \<le> i \<and> i < length s"
  by (auto simp: indexOf_def dest!: index_in_less)

function frame_loop :: "jsstring \<Rightarrow> jsstring \<Rightarrow> nat \<Rightarrow> jsstring \<Rightarrow> nat \<Rightarrow> row_frame" where
  "frame_loop source bom yamlStart newline lineStart =
     (if lineStart \<le> length source then
        (let lineFeed = indexOf 10 lineStart source;
             lineEnd = (case lineFeed of None \<Rightarrow> length source | Some i \<Rightarrow> i) in
         if strip_cr (slice lineStart lineEnd source) = fence then
           Frontmatter bom yamlStart lineStart (case lineFeed of None \<Rightarrow> length source | Some i \<Rightarrow> i + 1) newline
         else (case lineFeed of None \<Rightarrow> Unclosed bom | Some i \<Rightarrow> frame_loop source bom yamlStart newline (i + 1)))
      else Unclosed bom)"
  by pat_completeness auto
termination
  by (relation "measure (\<lambda>(source, bom, yamlStart, newline, lineStart). length source + 1 - lineStart)")
    (auto dest: indexOf_bounds [OF sym])

declare frame_loop.simps [simp del]

definition frameRowText :: "jsstring \<Rightarrow> row_frame" where
  "frameRowText source =
     (let bom = (if starts_with source 0 BOM then BOM else []);
          start = length bom;
          openingNewline =
            (if starts_with source start (fence @ [13, 10]) then Some [13, 10]
             else if starts_with source start (fence @ [10]) then Some [10] else None) in
      case openingNewline of
        None \<Rightarrow> if drop start source = fence then Unclosed bom else Missing bom
      | Some newline \<Rightarrow>
          (let yamlStart = start + 3 + length newline in frame_loop source bom yamlStart newline yamlStart))"

section \<open>Values and refusals\<close>

datatype cval =
    CNull
  | CBool bool
  | CNum num
  | CText jsstring
  | CList "cval list"
  | CRecord "(jsstring \<times> cval) list"

record canonical_document =
  doc_fields :: "(jsstring \<times> cval) list"
  doc_body :: jsstring

datatype step = Key jsstring | Index nat

type_synonym path = "step list"

record refusal =
  reason :: jsstring
  path :: path
  line :: "nat option"
  field :: "jsstring option"

definition refuse :: "jsstring \<Rightarrow> path \<Rightarrow> nat option \<Rightarrow> refusal" where
  "refuse r p l = \<lparr>reason = r, path = p, line = l, field = None\<rparr>"

definition MAX_ALIAS_EXPANSIONS :: nat where
  "MAX_ALIAS_EXPANSIONS = 100"

definition MAX_NODES :: nat where
  "MAX_NODES = 10000"

definition TAG :: jsstring where
  "TAG = js ''tag:yaml.org,2002:''"

definition SCALAR_TAGS :: "jsstring list" where
  "SCALAR_TAGS = map (\<lambda>t. TAG @ js t) [''str'', ''int'', ''float'', ''bool'', ''null'']"

section \<open>YAML documents\<close>

text \<open>
  A node has its identity, the start of its range and its tag, each absent when the library
  recorded none. \<open>YAbsent\<close> is \<^verbatim>\<open>null\<close>, where the library has no node.
\<close>

datatype scalar = SNull | SBool bool | SText jsstring | SBig int | SNum num | SOther

datatype ynode =
    YAbsent
  | YAlias nat "nat option" jsstring
  | YScalar nat "nat option" "jsstring option" scalar "jsstring option"
  | YSeq nat "nat option" "jsstring option" "ynode list"
  | YMap nat "nat option" "jsstring option" "(ynode \<times> ynode) list"
  | YOther nat "nat option"

record ydocument =
  errors :: "(jsstring \<times> nat) list"
  warnings :: "(jsstring \<times> nat) list"
  contents :: ynode
  resolve :: "nat \<Rightarrow> ynode option"

type_synonym yaml = "jsstring \<Rightarrow> ydocument"

definition node_start :: "ynode \<Rightarrow> nat option" where
  "node_start n =
     (case n of
        YAbsent \<Rightarrow> None | YAlias i r s \<Rightarrow> r | YScalar i r t v s \<Rightarrow> r
      | YSeq i r t ns \<Rightarrow> r | YMap i r t ps \<Rightarrow> r | YOther i r \<Rightarrow> r)"

definition node_id :: "ynode \<Rightarrow> nat option" where
  "node_id n =
     (case n of
        YAbsent \<Rightarrow> None | YAlias i r s \<Rightarrow> Some i | YScalar i r t v s \<Rightarrow> Some i
      | YSeq i r t ns \<Rightarrow> Some i | YMap i r t ps \<Rightarrow> Some i | YOther i r \<Rightarrow> Some i)"

record walk_state =
  document :: ydocument
  converting :: "nat list"
  source :: jsstring
  yamlStart :: nat
  aliases :: nat
  nodes :: nat

definition lineAt :: "jsstring \<Rightarrow> nat \<Rightarrow> nat" where
  "lineAt text index = 1 + length (filter (\<lambda>c. c = 10) (take index text))"

definition lineOf :: "walk_state \<Rightarrow> ynode \<Rightarrow> nat option" where
  "lineOf w node = map_option (\<lambda>start. lineAt (source w) (yamlStart w + start)) (node_start node)"

section \<open>Converting\<close>

definition numberValue :: "num \<Rightarrow> path \<Rightarrow> (refusal, num) result" where
  "numberValue n p =
     (if \<not> isFinite n then Inl (refuse (js ''A number is not finite'') p None)
      else if isInteger n \<and> \<not> isSafeInteger n then Inl (refuse (js ''An integer is outside the safe range'') p None)
      else Inr n)"

definition starts_minus :: "jsstring option \<Rightarrow> bool" where
  "starts_minus src = (case src of None \<Rightarrow> False | Some s \<Rightarrow> starts_with s 0 [45])"

definition convert_scalar_value :: "scalar \<Rightarrow> jsstring option \<Rightarrow> path \<Rightarrow> (refusal, cval) result" where
  "convert_scalar_value v src p =
     (case v of
        SNull \<Rightarrow> Inr CNull
      | SBool b \<Rightarrow> Inr (CBool b)
      | SText s \<Rightarrow> if well_formed s then Inr (CText s) else Inl (refuse (js ''A string contains a lone surrogate'') p None)
      | SBig i \<Rightarrow>
          if i = 0 then Inr (CNum (if starts_minus src then MinusZero else Whole 0))
          else if i > MAX_SAFE_INTEGER \<or> i < - MAX_SAFE_INTEGER then
            Inl (refuse (js ''An integer is outside the safe range'') p None)
          else Inr (CNum (Whole i))
      | SNum n \<Rightarrow> map_sum id CNum (numberValue n p)
      | SOther \<Rightarrow> Inl (refuse (js ''A scalar has no JSON value'') p None))"

definition convert_scalar :: "jsstring option \<Rightarrow> scalar \<Rightarrow> jsstring option \<Rightarrow> path \<Rightarrow> (refusal, cval) result" where
  "convert_scalar tag v src p =
     (case tag of
        Some t \<Rightarrow> if t \<notin> set SCALAR_TAGS then Inl (refuse (js ''The tag '' @ t @ js '' is not supported'') p None)
                  else convert_scalar_value v src p
      | None \<Rightarrow> convert_scalar_value v src p)"

text \<open>\<^verbatim>\<open>defineOwn\<close>: an own property, so a key that is there keeps its place.\<close>

definition defineOwn :: "(jsstring \<times> 'v) list \<Rightarrow> jsstring \<Rightarrow> 'v \<Rightarrow> (jsstring \<times> 'v) list" where
  "defineOwn r key v = AList.update key v r"

type_synonym converter = "ynode \<Rightarrow> path \<Rightarrow> walk_state \<Rightarrow> walk_state \<times> (refusal, cval) result"

text \<open>The loop over the items of a sequence, with the conversion of one.\<close>

fun convert_items :: "converter \<Rightarrow> nat \<Rightarrow> ynode list \<Rightarrow> path \<Rightarrow> cval list \<Rightarrow> walk_state \<Rightarrow> walk_state \<times> (refusal, cval list) result" where
  "convert_items f i [] p items w = (w, Inr items)"
| "convert_items f i (n # ns) p items w =
     (case f n (p @ [Index i]) w of
        (w', Inl e) \<Rightarrow> (w', Inl e)
      | (w', Inr v) \<Rightarrow> convert_items f (i + 1) ns p (items @ [v]) w')"

definition map_key :: "ynode \<Rightarrow> jsstring option" where
  "map_key key =
     (case key of
        YScalar i r tag (SText s) src \<Rightarrow> if tag = None \<or> tag = Some (TAG @ js ''str'') then Some s else None
      | _ \<Rightarrow> None)"

fun convert_pairs :: "converter \<Rightarrow> (ynode \<times> ynode) list \<Rightarrow> path \<Rightarrow> (jsstring \<times> cval) list \<Rightarrow> walk_state
    \<Rightarrow> walk_state \<times> (refusal, (jsstring \<times> cval) list) result" where
  "convert_pairs f [] p r w = (w, Inr r)"
| "convert_pairs f ((key, v) # ps) p r w =
     (case map_key key of
        None \<Rightarrow> (w, Inl (refuse (js ''A mapping key is not a string'') p (lineOf w key)))
      | Some k \<Rightarrow>
          if \<not> well_formed k then (w, Inl (refuse (js ''A mapping key contains a lone surrogate'') p (lineOf w key)))
          else (case f v (p @ [Key k]) w of
                  (w', Inl e) \<Rightarrow> (w', Inl e)
                | (w', Inr x) \<Rightarrow> convert_pairs f ps p (defineOwn r k x) w'))"

text \<open>\<open>convert\<close>: a refusal without a line gets the line of the node, when it has one.\<close>

definition located :: "converter \<Rightarrow> converter" where
  "located f node p w =
     (case f node p w of
        (w', Inl e) \<Rightarrow>
          (case line e of
             Some l \<Rightarrow> (w', Inl e)
           | None \<Rightarrow> (case lineOf w' node of None \<Rightarrow> (w', Inl e) | Some l \<Rightarrow> (w', Inl (refuse (reason e) (path e) (Some l)))))
      | (w', Inr v) \<Rightarrow> (w', Inr v))"

definition tag_is :: "jsstring option \<Rightarrow> string \<Rightarrow> bool" where
  "tag_is tag name = (case tag of None \<Rightarrow> True | Some t \<Rightarrow> t = TAG @ js name)"

definition unsupported_tag :: "jsstring option \<Rightarrow> path \<Rightarrow> refusal" where
  "unsupported_tag tag p = refuse (js ''The tag '' @ (case tag of None \<Rightarrow> [] | Some t \<Rightarrow> t) @ js '' is not supported'') p None"

text \<open>
  Every call counts a node, so a chain of calls \<open>MAX_NODES\<close> deep ends by itself. The fuel is the
  depth that is left: a call that has none would be past that count.
\<close>

primrec convertNode :: "nat \<Rightarrow> converter" where
  "convertNode 0 node p w =
     (w\<lparr>nodes := nodes w + 1\<rparr>, Inl (refuse (js ''The frontmatter expands to too many values'') p None))"
| "convertNode (Suc fuel) node p w0 =
     (let w = w0\<lparr>nodes := nodes w0 + 1\<rparr> in
      if nodes w > MAX_NODES then (w, Inl (refuse (js ''The frontmatter expands to too many values'') p None))
      else
        case node of
          YAbsent \<Rightarrow> (w, Inr CNull)
        | YAlias i r src \<Rightarrow>
            (let w = w\<lparr>aliases := aliases w + 1\<rparr> in
             if aliases w > MAX_ALIAS_EXPANSIONS then (w, Inl (refuse (js ''The frontmatter expands too many aliases'') p None))
             else (case resolve (document w) i of
                     None \<Rightarrow> (w, Inl (refuse (js ''The alias *'' @ src @ js '' has no anchor'') p None))
                   | Some target \<Rightarrow>
                       if (\<exists>j\<in>set_option (node_id target). j \<in> set (converting w)) then
                         (w, Inl (refuse (js ''The alias *'' @ src @ js '' is circular'') p None))
                       else located (convertNode fuel) target p w))
        | YScalar i r tag v src \<Rightarrow> (w, convert_scalar tag v src p)
        | YSeq i r tag ns \<Rightarrow>
            if \<not> tag_is tag ''seq'' then (w, Inl (unsupported_tag tag p))
            else (case convert_items (located (convertNode fuel)) 0 ns p [] (w\<lparr>converting := i # converting w\<rparr>) of
                    (w', res) \<Rightarrow> (w'\<lparr>converting := removeAll i (converting w')\<rparr>, map_sum id CList res))
        | YMap i r tag ps \<Rightarrow>
            if \<not> tag_is tag ''map'' then (w, Inl (unsupported_tag tag p))
            else (case convert_pairs (located (convertNode fuel)) ps p [] (w\<lparr>converting := i # converting w\<rparr>) of
                    (w', res) \<Rightarrow> (w'\<lparr>converting := removeAll i (converting w')\<rparr>, map_sum id CRecord res))
        | YOther i r \<Rightarrow> (w, Inl (refuse (js ''The frontmatter contains an unsupported node'') p None)))"

definition convert :: "ynode \<Rightarrow> path \<Rightarrow> walk_state \<Rightarrow> walk_state \<times> (refusal, cval) result" where
  "convert node p w = located (convertNode MAX_NODES) node p w"

section \<open>Reading a row\<close>

definition members :: "cval \<Rightarrow> (jsstring \<times> cval) list" where
  "members v = (case v of CRecord ms \<Rightarrow> ms | _ \<Rightarrow> [])"

text \<open>
  What \<^verbatim>\<open>parseRowSource\<close> returns: the document, and for its function \<^verbatim>\<open>lineOf\<close> the walk and the
  pairs of the root (none when there is no frontmatter).
\<close>

record parsed_source =
  parsed :: canonical_document
  walked :: walk_state
  root :: "(ynode \<times> ynode) list"

definition parseRowSource :: "yaml \<Rightarrow> jsstring \<Rightarrow> (refusal, parsed_source) result" where
  "parseRowSource yaml text =
     (case frameRowText text of
        Missing bom \<Rightarrow> Inl (refuse (js ''The source does not start with a --- line'') [] (Some 1))
      | Unclosed bom \<Rightarrow> Inl (refuse (js ''The frontmatter opening line has no closing --- line'') [] (Some 1))
      | Frontmatter bom start stop bodyStart newline \<Rightarrow>
          (let doc = yaml (slice start stop text); text_body = drop bodyStart text in
           case errors doc @ warnings doc of
             (message, pos) # _ \<Rightarrow>
               Inl (refuse (js ''The frontmatter is not supported YAML: '' @ message) [] (Some (lineAt text (start + pos))))
           | [] \<Rightarrow>
               if \<not> well_formed text_body then
                 Inl (refuse (js ''The body contains a lone surrogate'') [Key (js ''body'')] (Some (lineAt text bodyStart)))
               else
                 (let w = \<lparr>document = doc, converting = [], source = text, yamlStart = start, aliases = 0, nodes = 0\<rparr> in
                  case contents doc of
                    YAbsent \<Rightarrow> Inr \<lparr>parsed = \<lparr>doc_fields = [], doc_body = text_body\<rparr>, walked = w, root = []\<rparr>
                  | YMap i r tag ps \<Rightarrow>
                      (case convert (contents doc) [] w of
                         (w', Inl e) \<Rightarrow> Inl (case path e of Key k # _ \<Rightarrow> e\<lparr>field := Some k\<rparr> | _ \<Rightarrow> e)
                       | (w', Inr v) \<Rightarrow> Inr \<lparr>parsed = \<lparr>doc_fields = members v, doc_body = text_body\<rparr>, walked = w', root = ps\<rparr>)
                  | _ \<Rightarrow> Inl (refuse (js ''The frontmatter is not a mapping'') [] (lineOf w (contents doc))))))"

definition parseCanonicalDocument :: "yaml \<Rightarrow> jsstring \<Rightarrow> (refusal, canonical_document) result" where
  "parseCanonicalDocument yaml text = map_sum id parsed (parseRowSource yaml text)"

section \<open>Owned values\<close>

datatype owned =
    ONull
  | OBool bool
  | ONum num
  | OText jsstring
  | OList "owned list"
  | OMap "(jsstring \<times> owned) list"

text \<open>UTF-16 code unit order.\<close>

fun units_less :: "jsstring \<Rightarrow> jsstring \<Rightarrow> bool" where
  "units_less xs [] = False"
| "units_less [] (y # ys) = True"
| "units_less (x # xs) (y # ys) = (x < y \<or> (x = y \<and> units_less xs ys))"

definition compareKeys :: "jsstring \<Rightarrow> jsstring \<Rightarrow> int" where
  "compareKeys l r = (if units_less l r then -1 else if units_less r l then 1 else 0)"

text \<open>How many keys \<^verbatim>\<open>Reflect.ownKeys\<close> finds on an array: its elements, \<^verbatim>\<open>length\<close> and the extra ones.\<close>

definition array_own_keys :: "jsval option list \<Rightarrow> nat \<Rightarrow> nat" where
  "array_own_keys items extra = length (filter (\<lambda>x. x \<noteq> None) items) + 1 + extra"

definition isPlainRecord :: "jsobj \<Rightarrow> bool" where
  "isPlainRecord obj = (case obj of ArrayObj items extra \<Rightarrow> False | RecordObj proto hidden ms \<Rightarrow> proto \<and> hidden = 0)"

definition sorted_members :: "(jsstring \<times> 'v) list \<Rightarrow> (jsstring \<times> 'v) list" where
  "sorted_members ms = sort_by (\<lambda>a b. compareKeys (fst a) (fst b)) ms"

lemma fewer_nodes:
  "map_of h i = Some obj \<Longrightarrow> i \<notin> set ancestors \<Longrightarrow>
    card (fst ` set h - insert i (set ancestors)) < card (fst ` set h - set ancestors)"
  by (rule psubset_card_mono) (force dest: map_of_SomeD)+

function ownValue :: "heap \<Rightarrow> jsval \<Rightarrow> path \<Rightarrow> nat list \<Rightarrow> (refusal, owned) result"
  and ownItems :: "heap \<Rightarrow> jsval list \<Rightarrow> path \<Rightarrow> nat \<Rightarrow> nat list \<Rightarrow> (refusal, owned list) result"
  and ownMembers :: "heap \<Rightarrow> (jsstring \<times> jsval) list \<Rightarrow> path \<Rightarrow> nat list \<Rightarrow> (refusal, (jsstring \<times> owned) list) result" where
  "ownValue h v p ancestors =
     (case v of
        JNull \<Rightarrow> Inr ONull
      | JBool b \<Rightarrow> Inr (OBool b)
      | JNum n \<Rightarrow> map_sum id ONum (numberValue n p)
      | JText s \<Rightarrow> if well_formed s then Inr (OText s) else Inl (refuse (js ''A string contains a lone surrogate'') p None)
      | JUndefined \<Rightarrow> Inl (refuse (js ''A undefined has no JSON value'') p None)
      | JOther ty \<Rightarrow> Inl (refuse (js ''A '' @ ty @ js '' has no JSON value'') p None)
      | JRef i \<Rightarrow>
          if i \<in> set ancestors then Inl (refuse (js ''A value contains itself'') p None)
          else (case map_of h i of
                  None \<Rightarrow> Inl (refuse (js ''An object is not a plain JSON object'') p None)
                | Some (ArrayObj items extra) \<Rightarrow>
                    if array_own_keys items extra \<noteq> length items + 1 then
                      Inl (refuse (js ''An array has holes or extra properties'') p None)
                    else map_sum id OList (ownItems h (map element items) p 0 (i # ancestors))
                | Some (RecordObj proto hidden ms) \<Rightarrow>
                    if \<not> isPlainRecord (RecordObj proto hidden ms) then
                      Inl (refuse (js ''An object is not a plain JSON object'') p None)
                    else map_sum id OMap (ownMembers h (sorted_members ms) p (i # ancestors))))"
| "ownItems h [] p k ancestors = Inr []"
| "ownItems h (v # vs) p k ancestors =
     (case ownValue h v (p @ [Index k]) ancestors of
        Inl e \<Rightarrow> Inl e
      | Inr x \<Rightarrow> map_sum id ((#) x) (ownItems h vs p (k + 1) ancestors))"
| "ownMembers h [] p ancestors = Inr []"
| "ownMembers h ((k, v) # ms) p ancestors =
     (if \<not> well_formed k then Inl (refuse (js ''A key contains a lone surrogate'') (p @ [Key k]) None)
      else if v = JUndefined then ownMembers h ms p ancestors
      else (case ownValue h v (p @ [Key k]) ancestors of
              Inl e \<Rightarrow> Inl e
            | Inr x \<Rightarrow> map_sum id ((#) (k, x)) (ownMembers h ms p ancestors)))"
  by pat_completeness auto

termination
  by (relation "measures
      [\<lambda>x. case x of Inl (h, v, p, a) \<Rightarrow> card (fst ` set h - set a)
         | Inr (Inl (h, vs, p, k, a)) \<Rightarrow> card (fst ` set h - set a) | Inr (Inr (h, ms, p, a)) \<Rightarrow> card (fst ` set h - set a),
       \<lambda>x. case x of Inl _ \<Rightarrow> 0 | Inr (Inl (h, vs, p, k, a)) \<Rightarrow> length vs + 1 | Inr (Inr (h, ms, p, a)) \<Rightarrow> length ms + 1]")
    (auto simp: fewer_nodes)

declare ownValue.simps [simp del]

section \<open>Writing\<close>

record unicode =
  letter :: "nat \<Rightarrow> bool"       \<comment> \<open>\<^verbatim>\<open>\p{L}\<close>\<close>
  number_char :: "nat \<Rightarrow> bool"  \<comment> \<open>\<^verbatim>\<open>\p{N}\<close>\<close>

definition plain_char :: "unicode \<Rightarrow> nat \<Rightarrow> bool" where
  "plain_char U c \<longleftrightarrow> letter U c \<or> number_char U c \<or> c \<in> set (js ''_.,()/-'') \<or> c = 39"

text \<open>The expressions \<open>PLAIN\<close>, on code points, and \<open>RESERVED\<close>, which ignores the case of ASCII letters.\<close>

definition PLAIN :: "unicode \<Rightarrow> jsstring \<Rightarrow> bool" where
  "PLAIN U text =
     (case code_points text of
        [] \<Rightarrow> False
      | c # cs \<Rightarrow> (letter U c \<or> c = 95) \<and> (\<forall>x\<in>set cs. plain_char U x \<or> x = 32) \<and> (cs \<noteq> [] \<longrightarrow> plain_char U (last cs)))"

definition ascii_lower :: "nat \<Rightarrow> nat" where
  "ascii_lower c = (if 65 \<le> c \<and> c \<le> 90 then c + 32 else c)"

definition RESERVED :: "jsstring \<Rightarrow> bool" where
  "RESERVED text \<longleftrightarrow> map ascii_lower text \<in> set (map js [''y'', ''n'', ''yes'', ''no'', ''on'', ''off'', ''true'', ''false'', ''null''])"

definition isSpecialCharacter :: "nat \<Rightarrow> bool" where
  "isSpecialCharacter code \<longleftrightarrow>
     (0x7F \<le> code \<and> code \<le> 0x9F) \<or> code = 0x2028 \<or> code = 0x2029 \<or> code = 0xFEFF \<or> code = 0xFFFE \<or> code = 0xFFFF"

text \<open>\<open>charCodeAt(0)\<close> of a character is the first code unit of the code point.\<close>

definition quoted :: "jsstring \<Rightarrow> jsstring" where
  "quoted text =
     concat (map (\<lambda>c. if isSpecialCharacter (hd (units_of c)) then unicode_escape (hd (units_of c)) else units_of c)
       (code_points (json_string text)))"

definition scalarText :: "unicode \<Rightarrow> jsstring \<Rightarrow> jsstring" where
  "scalarText U text = (if PLAIN U text \<and> \<not> RESERVED text then text else quoted text)"

definition ends_with :: "jsstring \<Rightarrow> jsstring \<Rightarrow> bool" where
  "ends_with text suf \<longleftrightarrow> length suf \<le> length text \<and> drop (length text - length suf) text = suf"

definition isLiteralBlock :: "jsstring \<Rightarrow> bool" where
  "isLiteralBlock text \<longleftrightarrow>
     10 \<in> set text
     \<and> \<not> (\<exists>c\<in>set (code_points text). c \<noteq> 10 \<and> (c < 32 \<or> isSpecialCharacter (hd (units_of c))))
     \<and> \<not> starts_with text 0 [32] \<and> \<not> starts_with text 0 [10] \<and> \<not> ends_with text [10, 10]"

fun split_lines :: "jsstring \<Rightarrow> jsstring list" where
  "split_lines [] = [[]]"
| "split_lines (c # cs) =
     (if c = 10 then [] # split_lines cs
      else case split_lines cs of [] \<Rightarrow> [[c]] | l # ls \<Rightarrow> (c # l) # ls)"

definition show_int :: "int \<Rightarrow> jsstring" where
  "show_int i = (if i < 0 then 45 # show_nat (nat (- i)) else show_nat (nat i))"

text \<open>\<^verbatim>\<open>String(value)\<close> of a number; an integral one below $10^{21}$.\<close>

definition show_number :: "num \<Rightarrow> jsstring" where
  "show_number n =
     (case n of
        Whole i \<Rightarrow> show_int i
      | MinusZero \<Rightarrow> js ''0''
      | Fraction t \<Rightarrow> t
      | Infinite neg \<Rightarrow> (if neg then js ''-Infinity'' else js ''Infinity'')
      | NotANumber \<Rightarrow> js ''NaN'')"

definition is_digit :: "nat \<Rightarrow> bool" where
  "is_digit c \<longleftrightarrow> 48 \<le> c \<and> c \<le> 57"

text \<open>\<^verbatim>\<open>text.replace(/^(-?\d+)e/, '$1.0e')\<close>\<close>

definition with_point :: "jsstring \<Rightarrow> jsstring" where
  "with_point text =
     (let (sign, rest) = (case text of c # cs \<Rightarrow> if c = 45 then ([45], cs) else ([], text) | [] \<Rightarrow> ([], text));
          ds = takeWhile is_digit rest; after = dropWhile is_digit rest in
      if ds \<noteq> [] \<and> starts_with after 0 [101] then sign @ ds @ js ''.0'' @ after else text)"

definition numberText :: "num \<Rightarrow> jsstring" where
  "numberText n = (if n = MinusZero then js ''-0.0'' else with_point (show_number n))"

definition block_text :: "jsstring \<Rightarrow> jsstring \<Rightarrow> jsstring" where
  "block_text text indent =
     (let trailing = ends_with text [10]; content = (if trailing then butlast text else text) in
      (if trailing then js ''|'' else js ''|-'') @ [10]
        @ join_with [10] (map (\<lambda>l. if l = [] then [] else indent @ [32, 32] @ l) (split_lines content)))"

definition valueText :: "unicode \<Rightarrow> owned \<Rightarrow> jsstring \<Rightarrow> jsstring" where
  "valueText U v indent =
     (case v of
        OMap ms \<Rightarrow> js ''{}''
      | OList vs \<Rightarrow> js ''[]''
      | ONull \<Rightarrow> js ''null''
      | OBool b \<Rightarrow> (if b then js ''true'' else js ''false'')
      | ONum n \<Rightarrow> numberText n
      | OText text \<Rightarrow> if isLiteralBlock text then block_text text indent else scalarText U text)"

definition isNested :: "owned \<Rightarrow> bool" where
  "isNested v = (case v of OMap ms \<Rightarrow> ms \<noteq> [] | OList vs \<Rightarrow> vs \<noteq> [] | _ \<Rightarrow> False)"

fun collectionLines :: "unicode \<Rightarrow> owned \<Rightarrow> jsstring \<Rightarrow> jsstring"
  and mappingLines :: "unicode \<Rightarrow> (jsstring \<times> owned) list \<Rightarrow> jsstring \<Rightarrow> jsstring"
  and sequenceLines :: "unicode \<Rightarrow> owned list \<Rightarrow> jsstring \<Rightarrow> jsstring" where
  "collectionLines U (OMap ms) indent = mappingLines U ms indent"
| "collectionLines U (OList vs) indent = sequenceLines U vs indent"
| "collectionLines U v indent = []"
| "mappingLines U [] indent = []"
| "mappingLines U ((k, v) # ms) indent =
     (if isNested v then indent @ scalarText U k @ [58, 10] @ collectionLines U v (indent @ [32, 32])
      else indent @ scalarText U k @ [58, 32] @ valueText U v indent @ [10])
     @ mappingLines U ms indent"
| "sequenceLines U [] indent = []"
| "sequenceLines U (v # vs) indent =
     (if \<not> isNested v then indent @ [45, 32] @ valueText U v indent @ [10]
      else indent @ [45, 32] @ drop (length indent + 2) (collectionLines U v (indent @ [32, 32])))
     @ sequenceLines U vs indent"

section \<open>Writing a row\<close>

fun sameAsOwned :: "cval \<Rightarrow> owned \<Rightarrow> bool"
  and sameItems :: "cval list \<Rightarrow> owned list \<Rightarrow> bool"
  and sameFields :: "(jsstring \<times> cval) list \<Rightarrow> (jsstring \<times> owned) list \<Rightarrow> bool" where
  "sameAsOwned v (OMap os) = (case v of CRecord ms \<Rightarrow> length ms = length os \<and> sameFields ms os | _ \<Rightarrow> False)"
| "sameAsOwned v (OList os) = (case v of CList vs \<Rightarrow> length vs = length os \<and> sameItems vs os | _ \<Rightarrow> False)"
| "sameAsOwned v ONull = (v = CNull)"
| "sameAsOwned v (OBool b) = (v = CBool b)"
| "sameAsOwned v (ONum n) = (v = CNum n)"
| "sameAsOwned v (OText s) = (v = CText s)"
| "sameItems vs [] = True"
| "sameItems [] (x # os) = True"
| "sameItems (v # vs) (x # os) = (sameAsOwned v x \<and> sameItems vs os)"
| "sameFields ms [] = True"
| "sameFields ms ((k, x) # os) = ((case map_of ms k of None \<Rightarrow> False | Some v \<Rightarrow> sameAsOwned v x) \<and> sameFields ms os)"

fun ownFields :: "heap \<Rightarrow> (jsstring \<times> jsval) list \<Rightarrow> jsstring list \<Rightarrow> (refusal, (jsstring \<times> owned) list) result" where
  "ownFields h ms [] = Inr []"
| "ownFields h ms (key # keys) =
     (if \<not> well_formed key then Inl (refuse (js ''A key contains a lone surrogate'') [Key key] None)
      else (case map_of ms key of
              None \<Rightarrow> ownFields h ms keys
            | Some v \<Rightarrow>
                if v = JUndefined then ownFields h ms keys
                else (case ownValue h v [Key key] [] of
                        Inl e \<Rightarrow> Inl (e\<lparr>field := Some key\<rparr>)
                      | Inr x \<Rightarrow> map_sum id ((#) (key, x)) (ownFields h ms keys))))"

definition field_keys :: "(jsstring \<times> jsval) list \<Rightarrow> jsstring list \<Rightarrow> jsstring list" where
  "field_keys ms declared =
     filter (\<lambda>k. k \<in> fst ` set ms) declared @ sort_by compareKeys (filter (\<lambda>k. k \<notin> set declared) (map fst ms))"

definition formatOwned :: "unicode \<Rightarrow> (jsstring \<times> owned) list \<Rightarrow> jsstring \<Rightarrow> jsstring" where
  "formatOwned U owned text_body = fence @ [10] @ mappingLines U owned [] @ fence @ [10] @ text_body"

text \<open>The document as supplied: \<^const>\<open>None\<close> when it is not an object, else its \<open>fields\<close> and \<open>body\<close>.\<close>

definition formatRowSource ::
    "unicode \<Rightarrow> yaml \<Rightarrow> heap \<Rightarrow> (jsval \<times> jsval) option \<Rightarrow> jsstring list \<Rightarrow> (refusal, jsstring \<times> canonical_document) result" where
  "formatRowSource U yaml h supplied declared =
     (case supplied of
        None \<Rightarrow> Inl (refuse (js ''The document is not an object'') [] None)
      | Some (supplied_fields, JText text_body) \<Rightarrow>
          if \<not> well_formed text_body then Inl (refuse (js ''The body contains a lone surrogate'') [Key (js ''body'')] None)
          else if \<not> distinct declared then Inl (refuse (js ''A declared key is listed twice'') [] None)
          else
            (case supplied_fields of
               JRef i \<Rightarrow>
                 (case map_of h i of
                    Some (RecordObj proto hidden ms) \<Rightarrow>
                      if \<not> isPlainRecord (RecordObj proto hidden ms) then
                        Inl (refuse (js ''The fields are not a plain object'') [] None)
                      else
                        (case ownFields h ms (field_keys ms declared) of
                           Inl e \<Rightarrow> Inl e
                         | Inr owned \<Rightarrow>
                             (let text = formatOwned U owned text_body in
                              case parseRowSource yaml text of
                                Inl e \<Rightarrow> Inl (refuse (js ''The canonical text does not parse: '' @ reason e) [] None)
                              | Inr reread \<Rightarrow>
                                  if doc_body (parsed reread) \<noteq> text_body \<or> \<not> sameAsOwned (CRecord (doc_fields (parsed reread))) (OMap owned) then
                                    Inl (refuse (js ''The canonical text does not read back as the document'') [] None)
                                  else Inr (text, parsed reread)))
                  | _ \<Rightarrow> Inl (refuse (js ''The fields are not a plain object'') [] None))
             | _ \<Rightarrow> Inl (refuse (js ''The fields are not a plain object'') [] None))
      | Some (supplied_fields, _) \<Rightarrow> Inl (refuse (js ''The body is not a string'') [Key (js ''body'')] None))"

definition formatCanonicalDocument ::
    "unicode \<Rightarrow> yaml \<Rightarrow> heap \<Rightarrow> (jsval \<times> jsval) option \<Rightarrow> jsstring list \<Rightarrow> (refusal, jsstring) result" where
  "formatCanonicalDocument U yaml h supplied declared = map_sum id fst (formatRowSource U yaml h supplied declared)"

section \<open>What reading yields\<close>

definition num_canonical :: "num \<Rightarrow> bool" where
  "num_canonical n \<longleftrightarrow> isFinite n \<and> (isInteger n \<longrightarrow> isSafeInteger n)"

fun canonical :: "cval \<Rightarrow> bool" and canonical_list :: "cval list \<Rightarrow> bool" and canonical_fields :: "(jsstring \<times> cval) list \<Rightarrow> bool" where
  "canonical CNull = True"
| "canonical (CBool b) = True"
| "canonical (CNum n) = num_canonical n"
| "canonical (CText s) = well_formed s"
| "canonical (CList vs) = canonical_list vs"
| "canonical (CRecord ms) = (distinct (map fst ms) \<and> canonical_fields ms)"
| "canonical_list [] = True"
| "canonical_list (v # vs) = (canonical v \<and> canonical_list vs)"
| "canonical_fields [] = True"
| "canonical_fields ((k, v) # ms) = (well_formed k \<and> canonical v \<and> canonical_fields ms)"

lemma canonical_list_iff: "canonical_list vs \<longleftrightarrow> (\<forall>v\<in>set vs. canonical v)"
  by (induction vs) auto

lemma canonical_fields_iff: "canonical_fields ms \<longleftrightarrow> (\<forall>m\<in>set ms. well_formed (fst m) \<and> canonical (snd m))"
  by (induction ms) auto

lemma map_sum_Inr [simp]: "map_sum id f r = Inr y \<longleftrightarrow> (\<exists>x. r = Inr x \<and> y = f x)"
  by (cases r) auto

lemma canonical_update: "canonical_fields ms \<Longrightarrow> well_formed k \<Longrightarrow> canonical v \<Longrightarrow> canonical_fields (AList.update k v ms)"
  by (induction ms) auto

lemma canonical_defineOwn:
  "canonical (CRecord ms) \<Longrightarrow> well_formed k \<Longrightarrow> canonical v \<Longrightarrow> canonical (CRecord (defineOwn ms k v))"
  by (simp add: defineOwn_def canonical_update distinct_update)

text \<open>
  A conversion keeps count: it adds to the nodes it has seen, and what it accepts is canonical
  and leaves both counts within their limits.
\<close>

definition limited :: "walk_state \<Rightarrow> bool" where
  "limited w \<longleftrightarrow> nodes w \<le> MAX_NODES \<and> aliases w \<le> MAX_ALIAS_EXPANSIONS"

definition counts :: "converter \<Rightarrow> bool" where
  "counts f \<longleftrightarrow> (\<forall>n p w w' r. f n p w = (w', r) \<longrightarrow> nodes w < nodes w' \<and> (\<forall>v. r = Inr v \<longrightarrow> canonical v \<and> (limited w \<longrightarrow> limited w')))"

lemma countsD: "counts f \<Longrightarrow> f n p w = (w', r) \<Longrightarrow> nodes w < nodes w'"
  "counts f \<Longrightarrow> f n p w = (w', Inr v) \<Longrightarrow> canonical v \<and> (limited w \<longrightarrow> limited w')"
  by (auto simp: counts_def)

lemma convert_items_counts:
  "counts f \<Longrightarrow> convert_items f i ns p acc w = (w', r) \<Longrightarrow> canonical_list acc \<Longrightarrow>
    nodes w \<le> nodes w' \<and> (\<forall>vs. r = Inr vs \<longrightarrow> canonical_list vs \<and> (limited w \<longrightarrow> limited w'))"
proof (induction f i ns p acc w arbitrary: w' r rule: convert_items.induct)
  case (2 f i n ns p acc w)
  obtain w1 r1 where f: "f n (p @ [Index i]) w = (w1, r1)" by fastforce
  note lt = countsD(1) [OF 2(2) f]
  show ?case
  proof (cases r1)
    case (Inl e)
    with f lt 2(3) show ?thesis by auto
  next
    case (Inr x)
    with f have f': "f n (p @ [Index i]) w = (w1, Inr x)" by simp
    have run: "convert_items f (i + 1) ns p (acc @ [x]) w1 = (w', r)" using 2(3) f' by simp
    from countsD(2) [OF 2(2) f'] 2(4) have "canonical_list (acc @ [x])" by (simp add: canonical_list_iff)
    from 2(1) [OF f [symmetric] Inr 2(2) run this] countsD(2) [OF 2(2) f'] lt show ?thesis by auto
  qed
qed simp

lemma convert_pairs_counts:
  "counts f \<Longrightarrow> convert_pairs f ps p acc w = (w', r) \<Longrightarrow> canonical (CRecord acc) \<Longrightarrow>
    nodes w \<le> nodes w' \<and> (\<forall>vs. r = Inr vs \<longrightarrow> canonical (CRecord vs) \<and> (limited w \<longrightarrow> limited w'))"
proof (induction f ps p acc w arbitrary: w' r rule: convert_pairs.induct)
  case (2 f key v ps p acc w)
  show ?case
  proof (cases "\<exists>k. map_key key = Some k \<and> well_formed k")
    case True
    then obtain k where k: "map_key key = Some k" "well_formed k" by blast
    obtain w1 r1 where f: "f v (p @ [Key k]) w = (w1, r1)" by fastforce
    note lt = countsD(1) [OF 2(2) f]
    show ?thesis
    proof (cases r1)
      case (Inl e)
      with f k lt 2(3) show ?thesis by auto
    next
      case (Inr x)
      with f have f': "f v (p @ [Key k]) w = (w1, Inr x)" by simp
      have run: "convert_pairs f ps p (defineOwn acc k x) w1 = (w', r)" using 2(3) k f' by simp
      from countsD(2) [OF 2(2) f'] have x: "canonical x" by blast
      have "\<not> \<not> well_formed k" using k(2) by simp
      from 2(1) [OF k(1) this f [symmetric] Inr 2(2) run canonical_defineOwn [OF 2(4) k(2) x]] countsD(2) [OF 2(2) f'] lt
      show ?thesis by auto
    qed
  next
    case False
    with 2(3) show ?thesis by (auto split: option.splits)
  qed
qed simp

lemma located_counts: "counts f \<Longrightarrow> counts (located f)"
  unfolding counts_def located_def by (fastforce split: prod.splits sum.splits option.splits)

lemma numberValue_ok: "numberValue n p = Inr m \<Longrightarrow> m = n \<and> num_canonical n"
  by (auto simp: numberValue_def num_canonical_def split: if_splits)

lemma convert_scalar_ok: "convert_scalar tag v src p = Inr x \<Longrightarrow> canonical x"
  by (auto simp: convert_scalar_def convert_scalar_value_def num_canonical_def isFinite_def isInteger_def isSafeInteger_def
      MAX_SAFE_INTEGER_def dest!: numberValue_ok split: option.splits if_splits scalar.splits sum.splits)

lemma convertNode_counts: "counts (convertNode fuel)"
proof (induction fuel)
  case 0
  show ?case by (auto simp: counts_def)
next
  case (Suc fuel)
  note lc = located_counts [OF Suc]
  show ?case unfolding counts_def
  proof (intro allI impI)
    fix node p w w' r
    assume c: "convertNode (Suc fuel) node p w = (w', r)"
    show "nodes w < nodes w' \<and> (\<forall>v. r = Inr v \<longrightarrow> canonical v \<and> (limited w \<longrightarrow> limited w'))"
    proof (cases "nodes w + 1 > MAX_NODES")
      case True
      with c show ?thesis by (auto simp: Let_def)
    next
      case False
      show ?thesis
      proof (cases node)
        case (YAlias i x src)
        show ?thesis
        proof (cases "\<exists>n w1. located (convertNode fuel) n p w1 = (w', r) \<and> nodes w1 = nodes w + 1 \<and> limited w1")
          case True
          then obtain n w1 where l: "located (convertNode fuel) n p w1 = (w', r)" "nodes w1 = nodes w + 1" "limited w1" by blast
          with countsD(1) [OF lc l(1)] countsD(2) [OF lc, of n p w1 w'] show ?thesis by auto
        next
          case alt: False
          have "aliases w + 1 > MAX_ALIAS_EXPANSIONS \<or> \<not> (\<exists>n. located (convertNode fuel) n p (w\<lparr>nodes := nodes w + 1, aliases := aliases w + 1\<rparr>) = (w', r))"
            using alt False by (fastforce simp: limited_def)
          with c False YAlias show ?thesis by (auto simp: Let_def split: if_splits option.splits)
        qed
      next
        case (YSeq i x tag ns)
        obtain w1 res where l: "convert_items (located (convertNode fuel)) 0 ns p [] (w\<lparr>nodes := nodes w + 1, converting := i # converting w\<rparr>) = (w1, res)"
          by fastforce
        from convert_items_counts [OF lc l] False have "nodes w < nodes w1" "\<And>vs. res = Inr vs \<Longrightarrow> canonical_list vs \<and> (limited w \<longrightarrow> limited w1)"
          by (auto simp: limited_def)
        with c False YSeq l show ?thesis by (cases res) (auto simp: Let_def limited_def split: if_splits)
      next
        case (YMap i x tag ps)
        obtain w1 res where l: "convert_pairs (located (convertNode fuel)) ps p [] (w\<lparr>nodes := nodes w + 1, converting := i # converting w\<rparr>) = (w1, res)"
          by fastforce
        from convert_pairs_counts [OF lc l] False have "nodes w < nodes w1" "\<And>vs. res = Inr vs \<Longrightarrow> canonical (CRecord vs) \<and> (limited w \<longrightarrow> limited w1)"
          by (auto simp: limited_def)
        with c False YMap l show ?thesis by (cases res) (auto simp: Let_def limited_def split: if_splits)
      qed (use c False convert_scalar_ok in \<open>auto simp: Let_def limited_def\<close>)
    qed
  qed
qed

lemma convert_counts: "counts convert"
  unfolding convert_def [abs_def] using located_counts [OF convertNode_counts] by simp

section \<open>The depth of a conversion\<close>

text \<open>Two conversions that agree once so many nodes have been seen.\<close>

definition agree :: "nat \<Rightarrow> converter \<Rightarrow> converter \<Rightarrow> bool" where
  "agree m f g \<longleftrightarrow> (\<forall>n p w. m \<le> nodes w \<longrightarrow> f n p w = g n p w)"

lemma agreeD: "agree m f g \<Longrightarrow> m \<le> nodes w \<Longrightarrow> f n p w = g n p w"
  by (simp add: agree_def)

lemma located_agree: "agree m f g \<Longrightarrow> agree m (located f) (located g)"
  by (simp add: agree_def located_def)

lemma convert_items_agree:
  "counts f \<Longrightarrow> agree m f g \<Longrightarrow> m \<le> nodes w \<Longrightarrow> convert_items f i ns p acc w = convert_items g i ns p acc w"
proof (induction f i ns p acc w rule: convert_items.induct)
  case (2 f i n ns p acc w)
  obtain w1 r1 where f: "f n (p @ [Index i]) w = (w1, r1)" by fastforce
  have g: "g n (p @ [Index i]) w = (w1, r1)" using agreeD [OF 2(3,4)] f by metis
  have m: "m \<le> nodes w1" using countsD(1) [OF 2(2) f] 2(4) by simp
  show ?case
  proof (cases r1)
    case (Inr x)
    with 2(1) [OF f [symmetric] Inr 2(2,3) m] f g show ?thesis by simp
  qed (use f g in simp)
qed simp

lemma convert_pairs_agree:
  "counts f \<Longrightarrow> agree m f g \<Longrightarrow> m \<le> nodes w \<Longrightarrow> convert_pairs f ps p acc w = convert_pairs g ps p acc w"
proof (induction f ps p acc w rule: convert_pairs.induct)
  case (2 f key v ps p acc w)
  show ?case
  proof (cases "\<exists>k. map_key key = Some k \<and> well_formed k")
    case True
    then obtain k where k: "map_key key = Some k" "well_formed k" by blast
    obtain w1 r1 where f: "f v (p @ [Key k]) w = (w1, r1)" by fastforce
    have g: "g v (p @ [Key k]) w = (w1, r1)" using agreeD [OF 2(3,4)] f by metis
    have m: "m \<le> nodes w1" using countsD(1) [OF 2(2) f] 2(4) by simp
    show ?thesis
    proof (cases r1)
      case (Inr x)
      with 2(1) [OF k(1) _ f [symmetric] Inr 2(2,3) m] k f g show ?thesis by simp
    qed (use f g k in simp)
  qed (auto split: option.splits)
qed simp

lemma convertNode_fuel:
  "MAX_NODES \<le> nodes w + f \<Longrightarrow> MAX_NODES \<le> nodes w + g \<Longrightarrow> convertNode f node p w = convertNode g node p w"
proof (induction f arbitrary: g node p w)
  case 0
  then show ?case by (cases g) (simp_all add: Let_def)
next
  case (Suc f)
  show ?case
  proof (cases "nodes w + 1 > MAX_NODES")
    case True
    then show ?thesis by (cases g) (simp_all add: Let_def)
  next
    case False
    then obtain g' where g: "g = Suc g'" using Suc.prems(2) by (cases g) auto
    have "agree (nodes w + 1) (convertNode f) (convertNode g')"
      unfolding agree_def using Suc.IH Suc.prems g by auto
    note a = located_agree [OF this]
    note lc = located_counts [OF convertNode_counts]
    show ?thesis unfolding g convertNode.simps Let_def
      using agreeD [OF a] convert_items_agree [OF lc a] convert_pairs_agree [OF lc a]
      by (auto split: ynode.split option.split)
  qed
qed

section \<open>The frame of a written row\<close>

lemma index_in_append: "c \<notin> set l \<Longrightarrow> index_in c (l @ c # xs) = Some (length l)"
  by (induction l) auto

lemma indexOf_line: "10 \<notin> set l \<Longrightarrow> indexOf 10 (length pre) (pre @ l @ 10 # xs) = Some (length pre + length l)"
  by (simp add: indexOf_def index_in_append)

lemma slice_middle: "slice (length pre) (length pre + length l) (pre @ l @ xs) = l"
  by (simp add: slice_def)

text \<open>Lines that do not close a frame.\<close>

definition inner_line :: "jsstring \<Rightarrow> bool" where
  "inner_line l \<longleftrightarrow> 10 \<notin> set l \<and> (l = [] \<or> hd l \<noteq> 45)"

lemma inner_line_open: "inner_line l \<Longrightarrow> strip_cr l \<noteq> fence"
  by (cases l) (auto simp: inner_line_def strip_cr_def fence_def)

definition text_of_lines :: "jsstring list \<Rightarrow> jsstring" where
  "text_of_lines ls = concat (map (\<lambda>l. l @ [10]) ls)"

lemma text_of_lines_simps [simp]: "text_of_lines [] = []" "text_of_lines (l # ls) = l @ 10 # text_of_lines ls"
  "text_of_lines (ls @ ks) = text_of_lines ls @ text_of_lines ks"
  by (simp_all add: text_of_lines_def)

lemma frame_loop_lines:
  "\<forall>l\<in>set ls. inner_line l \<Longrightarrow>
    frame_loop (pre @ text_of_lines ls @ rest) bom ys nl (length pre)
      = frame_loop (pre @ text_of_lines ls @ rest) bom ys nl (length pre + length (text_of_lines ls))"
proof (induction ls arbitrary: pre)
  case (Cons l ls)
  then have "inner_line l" by simp
  then have l: "10 \<notin> set l" "strip_cr l \<noteq> fence" using inner_line_open by (simp_all add: inner_line_def)
  have "frame_loop (pre @ l @ 10 # text_of_lines ls @ rest) bom ys nl (length pre)
      = frame_loop (pre @ l @ 10 # text_of_lines ls @ rest) bom ys nl (length pre + length l + 1)"
    by (subst frame_loop.simps) (simp add: indexOf_line l slice_middle Let_def)
  also have "\<dots> = frame_loop (pre @ l @ 10 # text_of_lines ls @ rest) bom ys nl (length pre + length l + 1 + length (text_of_lines ls))"
    using Cons.IH [of "pre @ l @ [10]"] Cons.prems by simp
  finally show ?case by (simp add: add.assoc)
qed simp

lemma frame_loop_fence:
  "frame_loop (pre @ fence @ 10 # rest) bom ys nl (length pre) = Frontmatter bom ys (length pre) (length pre + 4) nl"
  by (subst frame_loop.simps)
    (simp add: indexOf_line [of fence] slice_middle [of pre fence "10 # rest"] strip_cr_def fence_def Let_def
      indexOf_line [of "[45, 45, 45]", simplified] slice_middle [of pre "[45, 45, 45]" "10 # rest", simplified])

lemma written_frame:
  assumes "\<forall>l\<in>set ls. inner_line l"
  shows "frameRowText (fence @ [10] @ text_of_lines ls @ fence @ [10] @ rest)
    = Frontmatter [] 4 (4 + length (text_of_lines ls)) (8 + length (text_of_lines ls)) [10]"
proof -
  let ?s = "(fence @ [10]) @ text_of_lines ls @ fence @ 10 # rest"
  have four: "length (fence @ [10]) = 4" by (simp add: fence_def)
  have "frame_loop ?s [] 4 [10] 4 = frame_loop ?s [] 4 [10] (4 + length (text_of_lines ls))"
    using frame_loop_lines [OF assms, of "fence @ [10]" "fence @ 10 # rest" "[]" 4 "[10]"] unfolding four .
  also have "\<dots> = Frontmatter [] 4 (4 + length (text_of_lines ls)) (8 + length (text_of_lines ls)) [10]"
    using frame_loop_fence [of "(fence @ [10]) @ text_of_lines ls" rest "[]" 4 "[10]"]
    unfolding length_append [of "fence @ [10]"] four by (simp del: append_assoc) (simp add: append_assoc)
  finally have "frame_loop ?s [] 4 [10] 4 = Frontmatter [] 4 (4 + length (text_of_lines ls)) (8 + length (text_of_lines ls)) [10]" .
  then show ?thesis by (simp add: frameRowText_def starts_with_def fence_def BOM_def Let_def)
qed

text \<open>A text made of such lines, each ended by a line feed.\<close>

definition inner_text :: "jsstring \<Rightarrow> bool" where
  "inner_text s \<longleftrightarrow> (\<exists>ls. s = text_of_lines ls \<and> (\<forall>l\<in>set ls. inner_line l))"

lemma inner_text_Nil [simp]: "inner_text []"
  unfolding inner_text_def by (rule exI [of _ "[]"]) simp

lemma inner_text_append [intro]: "inner_text s \<Longrightarrow> inner_text t \<Longrightarrow> inner_text (s @ t)"
  unfolding inner_text_def by (metis Un_iff set_append text_of_lines_simps(3))

lemma inner_text_line: "inner_line l \<Longrightarrow> inner_text (l @ [10])"
  unfolding inner_text_def by (rule exI [of _ "[l]"]) simp

lemma inner_text_Cons: "inner_line l \<Longrightarrow> inner_text s \<Longrightarrow> inner_text (l @ 10 # s)"
  using inner_text_append [OF inner_text_line] by fastforce

text \<open>The start of the first line may be replaced.\<close>

lemma inner_text_start:
  assumes "inner_text (pre @ s)" and "pre \<noteq> []" and "10 \<notin> set pre" and "inner_line pre'" and "pre' \<noteq> []"
  shows "inner_text (pre' @ s)"
proof -
  from assms(1) obtain ls where ls: "pre @ s = text_of_lines ls" "\<forall>l\<in>set ls. inner_line l" by (auto simp: inner_text_def)
  with assms(2) obtain l ks where k: "ls = l # ks" by (cases ls) auto
  have "length pre \<le> length l"
  proof (rule ccontr)
    assume "\<not> length pre \<le> length l"
    then have "take (length l + 1) pre = take (length l + 1) (pre @ s)" by simp
    also have "\<dots> = l @ [10]" using ls(1) k by simp
    finally have "10 \<in> set pre" by (metis in_set_conv_decomp in_set_takeD)
    with assms(3) show False by simp
  qed
  then have "l = pre @ drop (length pre) l" using ls(1) k by (metis append_eq_append_conv_if append_take_drop_id text_of_lines_simps(2))
  then obtain l' where l': "l = pre @ l'" by blast
  have "s = l' @ 10 # text_of_lines ks" using ls(1) k l' by simp
  moreover have "inner_line (pre' @ l')" using assms(4,5) ls(2) k l' by (cases pre') (auto simp: inner_line_def)
  ultimately show ?thesis using inner_text_Cons [of "pre' @ l'" "text_of_lines ks"] ls(2) k
    by (auto simp: inner_text_def)
qed

section \<open>Written lines\<close>

definition unicode_ok :: "unicode \<Rightarrow> bool" where
  "unicode_ok U \<longleftrightarrow> \<not> letter U 45 \<and> \<not> letter U 10 \<and> \<not> number_char U 10"

text \<open>The text of a fraction is a decimal number.\<close>

definition num_ok :: "num \<Rightarrow> bool" where
  "num_ok n = (case n of Fraction t \<Rightarrow> (\<forall>c\<in>set t. is_digit c \<or> c \<in> set (js ''.e+-'')) | _ \<Rightarrow> True)"

fun owned_ok :: "owned \<Rightarrow> bool" and owned_list_ok :: "owned list \<Rightarrow> bool" and owned_fields_ok :: "(jsstring \<times> owned) list \<Rightarrow> bool" where
  "owned_ok (ONum n) = num_ok n"
| "owned_ok (OList vs) = owned_list_ok vs"
| "owned_ok (OMap ms) = owned_fields_ok ms"
| "owned_ok v = True"
| "owned_list_ok [] = True"
| "owned_list_ok (v # vs) = (owned_ok v \<and> owned_list_ok vs)"
| "owned_fields_ok [] = True"
| "owned_fields_ok ((k, v) # ms) = (owned_ok v \<and> owned_fields_ok ms)"

lemma code_points_small: "c < 0xD800 \<Longrightarrow> c \<in> set (code_points s) \<longleftrightarrow> c \<in> set s"
  by (induction s rule: code_points.induct) (auto simp: high_surrogate_def low_surrogate_def)

lemma code_points_Cons: "\<not> high_surrogate c \<Longrightarrow> code_points (c # s) = c # code_points s"
  by (cases s) auto

lemma ten_units_of: "10 \<in> set (units_of c) \<longleftrightarrow> c = 10"
  by (auto simp: units_of_def)

lemma hex_digit_not_ten: "hex_digit d \<noteq> 10"
  by (simp add: hex_digit_def)

lemma unicode_escape_no_break: "10 \<notin> set (unicode_escape u)"
  by (simp add: unicode_escape_def hex_digit_not_ten [symmetric])

lemma json_string_no_break: "10 \<notin> set (json_string s)"
  by (auto simp: json_string_def quote_point_def ten_units_of unicode_escape_no_break)

lemma quoted_no_break: "10 \<notin> set (quoted s)"
  using json_string_no_break [of s] code_points_small [of 10 "json_string s"]
  by (auto simp: quoted_def ten_units_of unicode_escape_no_break split: if_splits)

lemma quoted_starts: "hd (quoted s) = 34 \<and> quoted s \<noteq> []"
proof -
  have "code_points (json_string s) = 34 # code_points (tl (json_string s))"
    by (simp add: json_string_def code_points_Cons high_surrogate_def)
  then show ?thesis by (simp add: quoted_def units_of_def isSpecialCharacter_def)
qed

lemma PLAIN_no_break: "unicode_ok U \<Longrightarrow> PLAIN U s \<Longrightarrow> 10 \<notin> set s \<and> s \<noteq> [] \<and> hd s \<noteq> 45"
proof -
  assume u: "unicode_ok U" and p: "PLAIN U s"
  have n: "\<not> plain_char U 10" using u by (simp add: unicode_ok_def plain_char_def js_def)
  from p obtain c cs where c: "code_points s = c # cs" "letter U c \<or> c = 95" "\<forall>x\<in>set cs. plain_char U x \<or> x = 32"
    by (auto simp: PLAIN_def split: list.splits)
  then have "10 \<notin> set (code_points s)" using u n by (auto simp: unicode_ok_def)
  moreover obtain d ds where d: "s = d # ds" using c(1) by (cases s) auto
  moreover have "d \<noteq> 45"
  proof
    assume "d = 45"
    then have "code_points s = 45 # code_points ds" using d by (simp add: code_points_Cons high_surrogate_def)
    with c u show False by (simp add: unicode_ok_def)
  qed
  ultimately show ?thesis using code_points_small [of 10 s] by simp
qed

lemma scalarText_inner: "unicode_ok U \<Longrightarrow> 10 \<notin> set (scalarText U s) \<and> scalarText U s \<noteq> [] \<and> hd (scalarText U s) \<noteq> 45"
  using PLAIN_no_break [of U s] quoted_no_break [of s] quoted_starts [of s] by (simp add: scalarText_def)

lemma digits_range: "c \<in> set (digits n) \<Longrightarrow> is_digit c"
proof (induction n rule: digits.induct)
  case (1 n)
  then show ?case by (subst (asm) (2) digits.simps) (auto simp: is_digit_def split: if_splits)
qed

lemma show_number_no_break: "num_ok n \<Longrightarrow> 10 \<notin> set (show_number n)"
  using digits_range [of 10] by (auto simp: num_ok_def show_number_def show_int_def show_nat_def js_def is_digit_def split: num.splits)

lemma with_point_no_break: "10 \<notin> set s \<Longrightarrow> 10 \<notin> set (with_point s)"
  by (auto simp: with_point_def js_def Let_def split: list.splits if_splits dest: set_takeWhileD set_dropWhileD)

lemma split_lines_no_break: "split_lines s \<noteq> [] \<and> (\<forall>l\<in>set (split_lines s). 10 \<notin> set l)"
  by (induction s) (auto split: list.splits)

lemma join_lines: "ls \<noteq> [] \<Longrightarrow> join_with [10] ls @ [10] = text_of_lines ls"
  by (induction "[10::nat]" ls rule: join_with.induct) auto

lemma inner_line_append: "inner_line pre \<Longrightarrow> pre \<noteq> [] \<Longrightarrow> 10 \<notin> set s \<Longrightarrow> inner_line (pre @ s)"
  by (cases pre) (auto simp: inner_line_def)

lemma inner_indent: "inner_line ind \<Longrightarrow> inner_line (ind @ [32, 32])"
  by (cases ind) (auto simp: inner_line_def)

lemma block_inner:
  assumes "inner_line pre" "pre \<noteq> []" "inner_line ind"
  shows "inner_text (pre @ block_text s ind @ [10])"
proof -
  define content where "content = (if ends_with s [10] then butlast s else s)"
  define ls where "ls = map (\<lambda>l. if l = [] then [] else ind @ [32, 32] @ l) (split_lines content)"
  define first where "first = pre @ (if ends_with s [10] then js ''|'' else js ''|-'')"
  have "inner_line l" if "l \<in> set ls" for l
  proof -
    from that obtain k where k: "k \<in> set (split_lines content)" "l = (if k = [] then [] else (ind @ [32, 32]) @ k)" by (auto simp: ls_def)
    then have "10 \<notin> set k" using split_lines_no_break by blast
    with k(2) inner_line_append [OF inner_indent [OF assms(3)]] show ?thesis by (simp add: inner_line_def)
  qed
  moreover have "inner_line first" unfolding first_def by (rule inner_line_append [OF assms(1,2)]) (simp add: js_def)
  moreover have "ls \<noteq> []" using split_lines_no_break by (simp add: ls_def)
  then have "pre @ block_text s ind @ [10] = text_of_lines (first # ls)"
    using join_lines [of ls] by (simp add: block_text_def content_def [symmetric] ls_def [symmetric] first_def Let_def)
  ultimately show ?thesis unfolding inner_text_def by (metis set_ConsD)
qed

lemma value_inner:
  assumes "unicode_ok U" "owned_ok v" "inner_line pre" "pre \<noteq> []" "inner_line ind"
  shows "inner_text (pre @ valueText U v ind @ [10])"
proof (cases "\<exists>s. v = OText s \<and> isLiteralBlock s")
  case True
  then show ?thesis using block_inner [OF assms(3-5)] by (auto simp: valueText_def)
next
  case False
  then have "10 \<notin> set (valueText U v ind)"
    using assms(1,2) scalarText_inner [OF assms(1)] with_point_no_break [OF show_number_no_break]
    by (cases v) (auto simp: valueText_def numberText_def js_def)
  then show ?thesis using inner_text_line [OF inner_line_append [OF assms(3,4)]] by simp
qed

lemma collection_starts: "isNested v \<Longrightarrow> \<exists>s. collectionLines U v ind = ind @ s"
proof (cases v)
  case (OList vs)
  assume "isNested v"
  with OList show ?thesis by (cases vs) (auto simp: isNested_def)
next
  case (OMap ms)
  assume "isNested v"
  with OMap show ?thesis by (cases ms) (auto simp: isNested_def)
qed (auto simp: isNested_def)

lemma lines_inner:
  "unicode_ok U \<Longrightarrow> owned_ok v \<Longrightarrow> inner_line ind \<Longrightarrow> ind \<noteq> [] \<Longrightarrow> inner_text (collectionLines U v ind)"
  "unicode_ok U \<Longrightarrow> owned_fields_ok ms \<Longrightarrow> inner_line ind \<Longrightarrow> inner_text (mappingLines U ms ind)"
  "unicode_ok U \<Longrightarrow> owned_list_ok vs \<Longrightarrow> inner_line ind \<Longrightarrow> ind \<noteq> [] \<Longrightarrow> inner_text (sequenceLines U vs ind)"
proof (induction U v ind and U ms ind and U vs ind rule: collectionLines_mappingLines_sequenceLines.induct)
  case (5 U k v ms ind)
  note k = scalarText_inner [OF 5(3), of k]
  have name: "inner_line (ind @ scalarText U k @ [58])" "inner_line (ind @ scalarText U k @ [58, 32])"
    using k 5(5) by (cases ind; auto simp: inner_line_def)+
  have "inner_text (mappingLines U ms ind)" using 5 by simp
  moreover have "inner_text ((ind @ scalarText U k @ [58]) @ 10 # collectionLines U v (ind @ [32, 32]))" if "isNested v"
    by (rule inner_text_Cons [OF name(1) 5(1) [OF that 5(3)]]) (use 5 inner_indent in auto)
  moreover have "inner_text ((ind @ scalarText U k @ [58, 32]) @ valueText U v ind @ [10])" if "\<not> isNested v"
    by (rule value_inner) (use 5 name(2) in auto)
  ultimately show ?case unfolding mappingLines.simps by (intro inner_text_append) simp_all
next
  case (7 U v vs ind)
  have dash: "inner_line (ind @ [45, 32])" using 7(5,6) by (cases ind) (auto simp: inner_line_def)
  have rest: "inner_text (sequenceLines U vs ind)" using 7 by simp
  show ?case
  proof (cases "isNested v")
    case True
    from collection_starts [OF True] obtain s where s: "collectionLines U v (ind @ [32, 32]) = (ind @ [32, 32]) @ s" by metis
    have "inner_text ((ind @ [32, 32]) @ s)" using 7(1) [OF _ 7(3)] True 7(4-6) inner_indent by (simp add: s)
    from inner_text_start [OF this _ _ dash] 7(5) have "inner_text ((ind @ [45, 32]) @ s)" by (auto simp: inner_line_def)
    with True rest s show ?thesis unfolding sequenceLines.simps by (intro inner_text_append) simp_all
  next
    case False
    from value_inner [OF 7(3) _ dash _ 7(5), of v] 7(4) have "inner_text ((ind @ [45, 32]) @ valueText U v ind @ [10])" by simp
    with False rest show ?thesis using inner_text_append by fastforce
  qed
qed auto

section \<open>One text for one document\<close>

lemma units_less_irrefl [simp]: "\<not> units_less xs xs"
  by (induction xs) auto

lemma units_less_trans: "units_less xs ys \<Longrightarrow> units_less ys zs \<Longrightarrow> units_less xs zs"
proof (induction xs ys arbitrary: zs rule: units_less.induct)
  case (2 y ys)
  then show ?case by (cases zs) auto
next
  case (3 x xs y ys)
  then show ?case by (cases zs) auto
qed simp

lemma units_less_total: "units_less xs ys \<or> xs = ys \<or> units_less ys xs"
proof (induction xs arbitrary: ys)
  case Nil
  show ?case by (cases ys) auto
next
  case (Cons x xs)
  then show ?case by (cases ys) auto
qed

lemma compareKeys_le: "compareKeys l r \<le> 0 \<longleftrightarrow> \<not> units_less r l"
  using units_less_trans [of l r l] by (auto simp: compareKeys_def)

lemma compareKeys_consistent: "consistent (\<lambda>a b. compareKeys (f a) (f b))"
proof -
  have "compareKeys (f x) (f z) \<le> 0" if "compareKeys (f x) (f y) \<le> 0" "compareKeys (f y) (f z) \<le> 0" for x y z
    using that units_less_total [of "f x" "f y"] units_less_total [of "f y" "f z"] units_less_trans
    unfolding compareKeys_le by metis
  moreover have "compareKeys (f x) (f y) \<le> 0 \<or> compareKeys (f y) (f x) \<le> 0" for x y
    unfolding compareKeys_le using units_less_trans units_less_irrefl by blast
  ultimately show ?thesis unfolding consistent_def by blast
qed

lemma compareKeys_antisym: "compareKeys l r \<le> 0 \<Longrightarrow> compareKeys r l \<le> 0 \<Longrightarrow> l = r"
  unfolding compareKeys_le using units_less_total by blast

lemma sorted_members_set:
  assumes "distinct (map fst ms)" "distinct (map fst ns)" "set ms = set ns"
  shows "sorted_members ms = sorted_members ns"
  unfolding sorted_members_def
proof (rule sort_by_set [OF compareKeys_consistent])
  show "x = y" if "x \<in> set ms" "y \<in> set ms" "compareKeys (fst x) (fst y) \<le> 0" "compareKeys (fst y) (fst x) \<le> 0" for x y
    using compareKeys_antisym [OF that(3,4)] that(1,2) assms(1) by (metis eq_key_imp_eq_value prod.collapse)
qed (use assms in \<open>auto simp: distinct_map\<close>)

lemma sorted_keys_set: "distinct xs \<Longrightarrow> distinct ys \<Longrightarrow> set xs = set ys \<Longrightarrow> sort_by compareKeys xs = sort_by compareKeys ys"
  using sort_by_set [OF compareKeys_consistent [of "\<lambda>x. x"]] compareKeys_antisym by blast

text \<open>Two heaps with the same objects, up to the order in which records list their members.\<close>

definition obj_alike :: "jsobj \<Rightarrow> jsobj \<Rightarrow> bool" where
  "obj_alike a b =
     (case (a, b) of
        (RecordObj p hidden ms, RecordObj q hidden' ns) \<Rightarrow>
          p = q \<and> hidden = hidden' \<and> distinct (map fst ms) \<and> distinct (map fst ns) \<and> set ms = set ns
      | _ \<Rightarrow> a = b)"

definition heaps_alike :: "heap \<Rightarrow> heap \<Rightarrow> bool" where
  "heaps_alike h h' \<longleftrightarrow> (\<forall>i. rel_option obj_alike (map_of h i) (map_of h' i))"

lemma heaps_alike_cases:
  assumes "heaps_alike h h'"
  obtains "map_of h i = None" "map_of h' i = None"
  | items extra where "map_of h i = Some (ArrayObj items extra)" "map_of h' i = Some (ArrayObj items extra)"
  | proto hidden ms ns where "map_of h i = Some (RecordObj proto hidden ms)" "map_of h' i = Some (RecordObj proto hidden ns)"
      "distinct (map fst ms)" "distinct (map fst ns)" "set ms = set ns"
proof -
  have r: "rel_option obj_alike (map_of h i) (map_of h' i)" using assms by (simp add: heaps_alike_def)
  show ?thesis
  proof (cases "map_of h i")
    case None
    with r that(1) show ?thesis by (auto simp: option_rel_Some1)
  next
    case (Some obj)
    with r obtain obj' where "map_of h' i = Some obj'" "obj_alike obj obj'" by (auto simp: option_rel_Some1)
    with Some that(2,3) show ?thesis by (cases obj; cases obj') (auto simp: obj_alike_def)
  qed
qed

lemma ownValue_alike:
  "heaps_alike h h' \<Longrightarrow> ownValue h v p a = ownValue h' v p a"
  "heaps_alike h h' \<Longrightarrow> ownItems h vs p k a = ownItems h' vs p k a"
  "heaps_alike h h' \<Longrightarrow> ownMembers h ms p a = ownMembers h' ms p a"
proof (induction h v p a and h vs p k a and h ms p a rule: ownValue_ownItems_ownMembers.induct)
  case (1 h v p a)
  show ?case
  proof (cases v)
    case (JRef i)
    show ?thesis
    proof (cases "i \<in> set a")
      case False
      from 1(3) show ?thesis
      proof (cases rule: heaps_alike_cases [of h h' i])
        case 1
        with JRef show ?thesis by (simp add: ownValue.simps)
      next
        case (2 items extra)
        with 1(1) [OF JRef False _ HOL.refl] 1(3) JRef False show ?thesis by (simp add: ownValue.simps)
      next
        case (3 proto hidden ms ns)
        from sorted_members_set [OF 3(3-5)] 3 1(2) [OF JRef False _ HOL.refl] 1(3) JRef False show ?thesis
          by (simp add: ownValue.simps isPlainRecord_def)
      qed
    qed (use JRef in \<open>simp add: ownValue.simps\<close>)
  qed (simp_all add: ownValue.simps)
qed (auto split: sum.split)

lemma ownFields_alike:
  assumes "heaps_alike h h'" and "map_of ms = map_of ns"
  shows "ownFields h ms keys = ownFields h' ns keys"
  using ownValue_alike(1) [OF assms(1)] assms(2) by (induction keys) (simp_all split: option.split sum.split)

lemma field_keys_set:
  assumes "distinct (map fst ms)" "distinct (map fst ns)" "set ms = set ns"
  shows "field_keys ms declared = field_keys ns declared"
proof -
  have "sort_by compareKeys (filter P (map fst ms)) = sort_by compareKeys (filter P (map fst ns))" for P
    by (rule sorted_keys_set) (use assms in auto)
  with assms(3) show ?thesis unfolding field_keys_def by simp
qed

lemma formatRowSource_alike:
  assumes "heaps_alike h h'"
  shows "formatRowSource U yaml h supplied declared = formatRowSource U yaml h' supplied declared"
proof (cases "\<exists>i s. supplied = Some (JRef i, JText s)")
  case True
  then obtain i s where s: "supplied = Some (JRef i, JText s)" by blast
  from assms show ?thesis
  proof (cases rule: heaps_alike_cases [of h h' i])
    case (3 proto hidden ms ns)
    have "map_of ms = map_of ns" using 3(3-5) by (simp add: map_of_inject_set)
    from ownFields_alike [OF assms this] field_keys_set [OF 3(3-5)] 3(1,2) s show ?thesis
      by (simp add: formatRowSource_def isPlainRecord_def)
  qed (simp_all add: formatRowSource_def s)
next
  case False
  then show ?thesis by (auto simp: formatRowSource_def split: option.split prod.split jsval.split)
qed

section \<open>What was written reads back\<close>

text \<open>Member \<open>k\<close> of a record; a member that holds \<^verbatim>\<open>undefined\<close> is absent, as in JSON.\<close>

definition present :: "(jsstring \<times> jsval) list \<Rightarrow> jsstring \<Rightarrow> jsval option" where
  "present ms k = (case map_of ms k of Some JUndefined \<Rightarrow> None | r \<Rightarrow> r)"

text \<open>The supplied value \<open>v\<close> is the JSON value \<open>c\<close>.\<close>

inductive reads :: "heap \<Rightarrow> jsval \<Rightarrow> cval \<Rightarrow> bool" for h where
  reads_null: "reads h JNull CNull"
| reads_bool: "reads h (JBool b) (CBool b)"
| reads_num: "reads h (JNum n) (CNum n)"
| reads_text: "reads h (JText s) (CText s)"
| reads_list: "map_of h i = Some (ArrayObj items extra) \<Longrightarrow> list_all2 (reads h) (map element items) cs \<Longrightarrow> reads h (JRef i) (CList cs)"
| reads_record: "map_of h i = Some (RecordObj proto hidden ms) \<Longrightarrow> \<forall>k. rel_option (reads h) (present ms k) (map_of cs k)
    \<Longrightarrow> reads h (JRef i) (CRecord cs)"

definition heap_ok :: "heap \<Rightarrow> bool" where
  "heap_ok h \<longleftrightarrow> (\<forall>i proto hidden ms. map_of h i = Some (RecordObj proto hidden ms) \<longrightarrow> distinct (map fst ms))"

lemma map_of_sorted_members: "distinct (map fst ms) \<Longrightarrow> map_of (sorted_members ms) = map_of ms"
proof -
  assume d: "distinct (map fst ms)"
  have "mset (map fst (sorted_members ms)) = mset (map fst ms)" by (simp add: sorted_members_def)
  then have "distinct (map fst (sorted_members ms))" using d by (metis mset_eq_imp_distinct_iff)
  with d show ?thesis by (simp add: map_of_inject_set sorted_members_def)
qed

lemma distinct_sorted_members: "distinct (map fst ms) \<Longrightarrow> distinct (map fst (sorted_members ms))"
  by (metis mset_eq_imp_distinct_iff mset_map mset_sort_by sorted_members_def)

lemma sameFields_iff: "sameFields cs xs \<longleftrightarrow> (\<forall>(k, x)\<in>set xs. \<exists>c. map_of cs k = Some c \<and> sameAsOwned c x)"
  by (induction xs) (auto split: option.splits)

text \<open>Keys that are present are the keys of a converted record with as many fields.\<close>

lemma record_reads:
  assumes "distinct (map fst cs)" and "distinct (map fst xs)" and "length cs = length xs" and "sameFields cs xs"
    and "\<And>k. present ms k \<noteq> None \<longleftrightarrow> k \<in> fst ` set xs"
    and "\<And>k v c x. present ms k = Some v \<Longrightarrow> (k, x) \<in> set xs \<Longrightarrow> map_of cs k = Some c \<Longrightarrow> sameAsOwned c x \<Longrightarrow> reads h v c"
  shows "\<forall>k. rel_option (reads h) (present ms k) (map_of cs k)"
proof
  fix k
  have sub: "fst ` set xs \<subseteq> fst ` set cs" using assms(4) by (force simp: sameFields_iff dest: map_of_SomeD)
  note keys = same_keys [OF assms(2,1) assms(3) [symmetric] sub]
  show "rel_option (reads h) (present ms k) (map_of cs k)"
  proof (cases "k \<in> fst ` set xs")
    case True
    then obtain x where x: "(k, x) \<in> set xs" by auto
    with assms(4) obtain c where c: "map_of cs k = Some c" "sameAsOwned c x" by (auto simp: sameFields_iff)
    from True assms(5) obtain v where v: "present ms k = Some v" by blast
    from assms(6) [OF v x c] v c(1) show ?thesis by simp
  next
    case False
    then have "present ms k = None" using assms(5) by blast
    moreover have "map_of cs k = None" using False keys by (simp add: map_of_eq_None_iff)
    ultimately show ?thesis by simp
  qed
qed

lemma ownValue_reads:
  "ownValue h v p a = Inr x \<Longrightarrow> heap_ok h \<Longrightarrow> canonical c \<Longrightarrow> sameAsOwned c x \<Longrightarrow> reads h v c"
  "ownItems h vs p k a = Inr xs \<Longrightarrow> heap_ok h \<Longrightarrow> canonical_list cs \<Longrightarrow> length cs = length xs \<Longrightarrow> sameItems cs xs \<Longrightarrow>
    list_all2 (reads h) vs cs"
  "ownMembers h ms p a = Inr ys \<Longrightarrow> heap_ok h \<Longrightarrow> distinct (map fst ms) \<Longrightarrow>
    (\<forall>(k, y)\<in>set ys. \<exists>v. present ms k = Some v \<and> (\<forall>c. canonical c \<longrightarrow> sameAsOwned c y \<longrightarrow> reads h v c))
    \<and> (\<forall>k. present ms k \<noteq> None \<longleftrightarrow> k \<in> fst ` set ys) \<and> distinct (map fst ys)"
proof (induction h v p a and h vs p k a and h ms p a arbitrary: x c and xs cs and ys rule: ownValue_ownItems_ownMembers.induct)
  case (1 h v p a)
  show ?case
  proof (cases v)
    case (JRef i)
    with 1(3) have a: "i \<notin> set a" by (auto simp: ownValue.simps split: if_splits)
    with 1(3) JRef obtain obj where o: "map_of h i = Some obj" by (auto simp: ownValue.simps split: option.splits)
    show ?thesis
    proof (cases obj)
      case (ArrayObj items extra)
      with 1(3) JRef a o obtain xs where xs: "x = OList xs" "ownItems h (map element items) p 0 (i # a) = Inr xs"
        "\<not> array_own_keys items extra \<noteq> length items + 1"
        by (auto simp: ownValue.simps split: if_splits)
      with 1(6) obtain cs where c: "c = CList cs" "length cs = length xs" "sameItems cs xs" by (auto split: cval.splits)
      have "map_of h i = Some (ArrayObj items extra)" using o ArrayObj by simp
      from 1(1) [OF JRef a o ArrayObj xs(3) xs(2) 1(4) _ c(2,3)] 1(5) c(1) this JRef show ?thesis by (auto intro: reads_list)
    next
      case (RecordObj proto hidden ms)
      with 1(3) JRef a o obtain xs where xs: "x = OMap xs" "ownMembers h (sorted_members ms) p (i # a) = Inr xs"
        "\<not> \<not> isPlainRecord (RecordObj proto hidden ms)"
        by (auto simp: ownValue.simps split: if_splits)
      with 1(6) obtain cs where c: "c = CRecord cs" "length cs = length xs" "sameFields cs xs" by (auto split: cval.splits)
      have o': "map_of h i = Some (RecordObj proto hidden ms)" using o RecordObj by simp
      then have d: "distinct (map fst ms)" using 1(4) by (simp add: heap_ok_def)
      have pr: "present (sorted_members ms) = present ms" by (simp add: present_def fun_eq_iff map_of_sorted_members [OF d])
      note ih = 1(2) [OF JRef a o RecordObj xs(3) xs(2) 1(4) distinct_sorted_members [OF d], unfolded pr]
      have cf: "canonical_fields cs" "distinct (map fst cs)" using 1(5) c(1) by simp_all
      have "\<forall>k. rel_option (reads h) (present ms k) (map_of cs k)"
      proof (rule record_reads [of cs xs])
        show "reads h v c" if "present ms k = Some v" "(k, x) \<in> set xs" "map_of cs k = Some c" "sameAsOwned c x" for k v c x
        proof -
          have "canonical c" using map_of_SomeD [OF that(3)] cf by (force simp: canonical_fields_iff)
          with ih that show ?thesis by fastforce
        qed
      qed (use ih cf c in auto)
      with o' JRef c(1) show ?thesis by (auto intro: reads_record)
    qed
  qed (use 1(3,6) in \<open>auto simp: ownValue.simps reads_null reads_bool reads_num reads_text dest: numberValue_ok split: if_splits\<close>)
next
  case (3 h v vs p k a)
  then obtain x xs' where x: "ownValue h v (p @ [Index k]) a = Inr x" "ownItems h vs p (k + 1) a = Inr xs'" "xs = x # xs'"
    by (auto split: sum.splits)
  with 3(6,7) obtain c cs' where cs: "cs = c # cs'" by (cases cs) auto
  with 3(1) [OF x(1) 3(4), of c] 3(2) [OF x(1) x(2) 3(4), of cs'] 3(5-7) x(3) show ?case by simp
next
  case (5 h k v ms p a)
  show ?case
  proof (cases "v = JUndefined")
    case True
    have "map_of ms k = None" using 5(6) by (simp add: map_of_eq_None_iff)
    then have "present ((k, v) # ms) = present ms" using True by (auto simp: present_def fun_eq_iff)
    with 5(1) 5(4-6) True show ?thesis by (auto split: if_splits)
  next
    case False
    with 5(4) obtain x ys' where x: "well_formed k" "ownValue h v (p @ [Key k]) a = Inr x" "ownMembers h ms p a = Inr ys'" "ys = (k, x) # ys'"
      by (auto split: if_splits sum.splits)
    have "present ((k, v) # ms) = (present ms)(k \<mapsto> v)"
      using False by (auto simp: present_def fun_eq_iff split: jsval.split)
    moreover have "map_of ms k = None" using 5(6) by (simp add: map_of_eq_None_iff)
    then have "present ms k = None" by (simp add: present_def)
    moreover have "\<forall>c. canonical c \<longrightarrow> sameAsOwned c x \<longrightarrow> reads h v c" using 5(2) [OF _ False x(2) 5(5)] x(1) by blast
    moreover have "(\<forall>(k, y)\<in>set ys'. \<exists>v. present ms k = Some v \<and> (\<forall>c. canonical c \<longrightarrow> sameAsOwned c y \<longrightarrow> reads h v c))
        \<and> (\<forall>k. present ms k \<noteq> None \<longleftrightarrow> k \<in> fst ` set ys') \<and> distinct (map fst ys')"
      using 5(3) [OF _ False x(2,3) 5(5)] x(1) 5(6) by simp
    ultimately show ?thesis unfolding x(4) by fastforce
  qed
qed (auto simp: present_def)

lemma ownFields_reads:
  "ownFields h ms keys = Inr ys \<Longrightarrow> heap_ok h \<Longrightarrow> distinct keys \<Longrightarrow>
    (\<forall>(k, y)\<in>set ys. k \<in> set keys \<and> (\<exists>v. present ms k = Some v \<and> (\<forall>c. canonical c \<longrightarrow> sameAsOwned c y \<longrightarrow> reads h v c)))
    \<and> (\<forall>k\<in>set keys. present ms k \<noteq> None \<longrightarrow> k \<in> fst ` set ys) \<and> distinct (map fst ys)"
proof (induction keys arbitrary: ys)
  case (Cons key keys)
  then have wf: "well_formed key" by (auto split: if_splits)
  show ?case
  proof (cases "present ms key")
    case None
    with Cons.prems(1) wf have "ownFields h ms keys = Inr ys" by (auto simp: present_def split: option.splits jsval.splits)
    with Cons.IH [OF this Cons.prems(2)] Cons.prems(3) None show ?thesis by auto
  next
    case (Some v)
    then have v: "map_of ms key = Some v" "v \<noteq> JUndefined" by (auto simp: present_def split: option.splits jsval.splits)
    with Cons.prems(1) wf obtain y ys' where y: "ownValue h v [Key key] [] = Inr y" "ownFields h ms keys = Inr ys'" "ys = (key, y) # ys'"
      by (auto split: sum.splits)
    have "\<forall>c. canonical c \<longrightarrow> sameAsOwned c y \<longrightarrow> reads h v c" using ownValue_reads(1) [OF y(1) Cons.prems(2)] by blast
    with Cons.IH [OF y(2) Cons.prems(2)] Cons.prems(3) Some y(3) show ?thesis by fastforce
  qed
qed simp

lemma field_keys_ok:
  assumes "distinct declared" "distinct (map fst ms)"
  shows "distinct (field_keys ms declared) \<and> fst ` set ms \<subseteq> set (field_keys ms declared)"
  using assms by (auto simp: field_keys_def)

lemma parseRowSource_canonical:
  assumes "parseRowSource yaml text = Inr p"
  shows "canonical (CRecord (doc_fields (parsed p))) \<and> well_formed (doc_body (parsed p)) \<and> limited (walked p)"
proof -
  from assms obtain bom start stop bodyStart newline where f: "frameRowText text = Frontmatter bom start stop bodyStart newline"
    by (auto simp: parseRowSource_def split: row_frame.splits)
  let ?doc = "yaml (slice start stop text)"
  let ?w = "\<lparr>document = ?doc, converting = [], source = text, yamlStart = start, aliases = 0, nodes = 0\<rparr>"
  have lim: "limited ?w" by (simp add: limited_def)
  from assms f have e: "errors ?doc @ warnings ?doc = []" and b: "well_formed (drop bodyStart text)"
    by (auto simp: parseRowSource_def Let_def split: list.splits prod.splits if_splits)
  show ?thesis
  proof (cases "contents ?doc")
    case YAbsent
    with assms f e b lim show ?thesis by (auto simp: parseRowSource_def Let_def)
  next
    case (YMap i r tag ps)
    obtain w' res where c: "convert (contents ?doc) [] ?w = (w', res)" by fastforce
    with assms f e b YMap obtain v where v: "res = Inr v" "p = \<lparr>parsed = \<lparr>doc_fields = members v, doc_body = drop bodyStart text\<rparr>, walked = w', root = ps\<rparr>"
      by (cases res) (auto simp: parseRowSource_def Let_def)
    from countsD(2) [OF convert_counts, of "contents ?doc" "[]" ?w w' v] c v(1) lim have "canonical v" "limited w'" by auto
    then show ?thesis using v(2) b by (cases v) (auto simp: members_def)
  qed (use assms f e b in \<open>simp_all add: parseRowSource_def Let_def\<close>)
qed

lemma formatted_reads_back:
  assumes "heap_ok h" and "formatRowSource U yaml h (Some (JRef i, JText b)) declared = Inr (text, doc)"
  shows "parseCanonicalDocument yaml text = Inr doc \<and> doc_body doc = b \<and> reads h (JRef i) (CRecord (doc_fields doc))"
proof -
  from assms(2) obtain proto hidden ms where m: "map_of h i = Some (RecordObj proto hidden ms)"
    by (auto simp: formatRowSource_def split: if_splits option.splits jsobj.splits)
  with assms(2) obtain owned p where p: "distinct declared" "ownFields h ms (field_keys ms declared) = Inr owned"
    "parseRowSource yaml text = Inr p" "doc = parsed p" "doc_body (parsed p) = b"
    "sameAsOwned (CRecord (doc_fields (parsed p))) (OMap owned)"
    by (auto simp: formatRowSource_def Let_def split: if_splits sum.splits)
  have d: "distinct (map fst ms)" using assms(1) m by (simp add: heap_ok_def)
  note c = parseRowSource_canonical [OF p(3)]
  note f = ownFields_reads [OF p(2) assms(1) conjunct1 [OF field_keys_ok [OF p(1) d]]]
  have "\<forall>k. rel_option (reads h) (present ms k) (map_of (doc_fields doc) k)"
  proof (rule record_reads [of _ owned])
    show "present ms k \<noteq> None \<longleftrightarrow> k \<in> fst ` set owned" for k
    proof
      assume k: "present ms k \<noteq> None"
      then have "map_of ms k \<noteq> None" by (cases "map_of ms k") (simp_all add: present_def)
      then have "k \<in> fst ` set ms" by (simp add: map_of_eq_None_iff)
      then show "k \<in> fst ` set owned" using f k field_keys_ok [OF p(1) d] by blast
    qed (use f in force)
    show "reads h v x" if "present ms k = Some v" "(k, y) \<in> set owned" "map_of (doc_fields doc) k = Some x" "sameAsOwned x y" for k v x y
    proof -
      have "canonical x" using map_of_SomeD [OF that(3)] c p(4) by (force simp: canonical_fields_iff)
      with f that show ?thesis by fastforce
    qed
  qed (use c f p in simp_all)
  with m p show ?thesis by (auto simp: parseCanonicalDocument_def intro: reads_record)
qed

section \<open>Properties\<close>

text \<open>
  Claim C23 (accepted_rows_are_canonical). Whatever the YAML library builds, a row that is accepted
  holds only canonical values: every number finite and, when integral, safe; every text, key and
  the body free of lone surrogates; no key twice in a record. No more than 10000 nodes were
  converted and no more than 100 aliases expanded on the way.
\<close>

theorem accepted_rows_are_canonical:
  assumes "parseRowSource yaml text = Inr p"
  shows "canonical (CRecord (doc_fields (parsed p))) \<and> well_formed (doc_body (parsed p))
    \<and> nodes (walked p) \<le> 10000 \<and> aliases (walked p) \<le> 100"
  using parseRowSource_canonical [OF assms] by (simp add: limited_def MAX_NODES_def MAX_ALIAS_EXPANSIONS_def)

definition tea_yaml :: yaml where
  "tea_yaml text =
     \<lparr>errors = [], warnings = [],
      contents = YMap 0 (Some 0) None
        [(YScalar 1 (Some 0) None (SText (js ''title'')) None, YScalar 2 (Some 7) None (SText (js ''Tea'')) None),
         (YScalar 3 (Some 11) None (SText (js ''cups'')) None, YScalar 4 (Some 17) None (SBig 2) None)],
      resolve = \<lambda>i. None\<rparr>"

definition tea_text :: jsstring where
  "tea_text = [45, 45, 45, 10] @ js ''title: Tea'' @ [10] @ js ''cups: 2'' @ [10, 45, 45, 45, 10] @ js ''Hot.''"

definition tea_document :: canonical_document where
  "tea_document = \<lparr>doc_fields = [(js ''title'', CText (js ''Tea'')), (js ''cups'', CNum (Whole 2))], doc_body = js ''Hot.''\<rparr>"

definition ascii_unicode :: unicode where
  "ascii_unicode = \<lparr>letter = \<lambda>c. (65 \<le> c \<and> c \<le> 90) \<or> (97 \<le> c \<and> c \<le> 122), number_char = is_digit\<rparr>"

definition tea_heap :: heap where
  "tea_heap = [(0, RecordObj True 0 [(js ''cups'', JNum (Whole 2)), (js ''note'', JUndefined), (js ''title'', JText (js ''Tea''))])]"

lemmas convertNode_numeral = convertNode.simps(2) [of "pred_numeral k" for k, folded numeral_eq_Suc]

lemma tea_frame: "frameRowText tea_text = Frontmatter [] 4 23 27 [10]"
  by (simp add: tea_text_def js_def frameRowText_def starts_with_def fence_def BOM_def Let_def frame_loop.simps indexOf_def
      slice_def strip_cr_def)

lemma tea_convert:
  "convert (contents (tea_yaml t)) [] \<lparr>document = tea_yaml t, converting = [], source = s, yamlStart = y, aliases = 0, nodes = 0\<rparr>
    = (\<lparr>document = tea_yaml t, converting = [], source = s, yamlStart = y, aliases = 0, nodes = 3\<rparr>, Inr (CRecord (doc_fields tea_document)))"
  by (simp add: convert_def located_def MAX_NODES_def convertNode_numeral tea_yaml_def Let_def tag_is_def map_key_def
      convert_scalar_def convert_scalar_value_def defineOwn_def tea_document_def js_def high_surrogate_def low_surrogate_def
      MAX_SAFE_INTEGER_def)

lemma tea_parse: "\<exists>p. parseRowSource tea_yaml tea_text = Inr p \<and> parsed p = tea_document"
proof -
  have b: "drop 27 tea_text = js ''Hot.''" "well_formed (js ''Hot.'')"
    by (simp_all add: tea_text_def js_def high_surrogate_def low_surrogate_def)
  obtain t where t: "tea_yaml (slice 4 23 tea_text) = tea_yaml t" by simp
  have c: "contents (tea_yaml t) = YMap 0 (Some 0) None (case contents (tea_yaml t) of YMap i r tg ps \<Rightarrow> ps | _ \<Rightarrow> [])"
    "errors (tea_yaml t) @ warnings (tea_yaml t) = []" by (simp_all add: tea_yaml_def)
  show ?thesis unfolding parseRowSource_def tea_frame
    using tea_convert [of t tea_text 4] b c t
    by (auto simp: Let_def members_def tea_document_def split: ynode.split)
qed

lemma tea_owned:
  "ownFields tea_heap [(js ''cups'', JNum (Whole 2)), (js ''note'', JUndefined), (js ''title'', JText (js ''Tea''))]
      [js ''title'', js ''cups'', js ''note'']
    = Inr [(js ''title'', OText (js ''Tea'')), (js ''cups'', ONum (Whole 2))]"
  by (simp add: js_def high_surrogate_def low_surrogate_def ownValue.simps numberValue_def isFinite_def isInteger_def
      isSafeInteger_def MAX_SAFE_INTEGER_def)

lemma tea_written:
  "formatOwned ascii_unicode [(js ''title'', OText (js ''Tea'')), (js ''cups'', ONum (Whole 2))] (js ''Hot.'') = tea_text"
  by (simp add: formatOwned_def tea_text_def fence_def js_def isNested_def scalarText_def PLAIN_def high_surrogate_def
      low_surrogate_def plain_char_def ascii_unicode_def is_digit_def RESERVED_def ascii_lower_def valueText_def
      isLiteralBlock_def numberText_def show_number_def show_int_def show_nat_def digits.simps with_point_def starts_with_def)

lemma tea_format:
  "formatRowSource ascii_unicode tea_yaml tea_heap (Some (JRef 0, JText (js ''Hot.''))) [js ''title''] = Inr (tea_text, tea_document)"
proof -
  obtain p where p: "parseRowSource tea_yaml tea_text = Inr p" "parsed p = tea_document" using tea_parse by blast
  have k: "field_keys [(js ''cups'', JNum (Whole 2)), (js ''note'', JUndefined), (js ''title'', JText (js ''Tea''))] [js ''title'']
      = [js ''title'', js ''cups'', js ''note'']"
    by (simp add: field_keys_def js_def compareKeys_def)
  have w: "well_formed (js ''Hot.'')" by (simp add: js_def high_surrogate_def low_surrogate_def)
  have h: "map_of tea_heap 0 = Some (RecordObj True 0 [(js ''cups'', JNum (Whole 2)), (js ''note'', JUndefined), (js ''title'', JText (js ''Tea''))])"
    by (simp add: tea_heap_def)
  have s: "sameAsOwned (CRecord (doc_fields tea_document)) (OMap [(js ''title'', OText (js ''Tea'')), (js ''cups'', ONum (Whole 2))])"
    by (simp add: tea_document_def js_def)
  have b: "doc_body tea_document = js ''Hot.''" by (simp add: tea_document_def)
  show ?thesis using p(1) by (simp add: formatRowSource_def h w k isPlainRecord_def tea_owned tea_written p(2) s b Let_def del: sameAsOwned.simps ownFields.simps)
qed

theorem accepted_rows_are_canonical_witness:
  "\<exists>p. parseRowSource tea_yaml tea_text = Inr p \<and> nodes (walked p) \<le> 10000"
  using tea_parse accepted_rows_are_canonical [of tea_yaml tea_text] by blast

text \<open>
  The recursion of a conversion follows aliases, so the tree
  does not bound it; the count of nodes does. Whatever the document, even one whose aliases lead
  back into themselves, no call is nested deeper than 10000: more depth changes nothing.
\<close>

theorem conversion_ends_by_count:
  assumes "10000 \<le> fuel"
  shows "located (convertNode fuel) node p w = convert node p w"
proof -
  have "convertNode fuel node p w = convertNode MAX_NODES node p w"
    by (rule convertNode_fuel) (use assms in \<open>simp_all add: MAX_NODES_def\<close>)
  then show ?thesis by (simp add: located_def convert_def)
qed

theorem conversion_ends_by_count_witness:
  "located (convertNode 12345) (YSeq 0 None None [YAlias 1 None []]) [] \<lparr>document = tea_yaml [], converting = [], source = [], yamlStart = 0, aliases = 0, nodes = 0\<rparr>
    = convert (YSeq 0 None None [YAlias 1 None []]) [] \<lparr>document = tea_yaml [], converting = [], source = [], yamlStart = 0, aliases = 0, nodes = 0\<rparr>"
  by (rule conversion_ends_by_count) simp

text \<open>
  Whatever fields and body are written, the frame of the text
  finds them again: the frontmatter is exactly the lines that were written, never closed early by
  a line inside a value, and the body follows byte for byte.
\<close>

theorem written_rows_frame_back:
  assumes "unicode_ok U" and "owned_fields_ok owned"
  shows "\<exists>stop start. frameRowText (formatOwned U owned text_body) = Frontmatter [] 4 stop start [10]
    \<and> slice 4 stop (formatOwned U owned text_body) = mappingLines U owned []
    \<and> drop start (formatOwned U owned text_body) = text_body"
proof -
  have "inner_text (mappingLines U owned [])" by (rule lines_inner(2)) (use assms in \<open>simp_all add: inner_line_def\<close>)
  then obtain ls where ls: "mappingLines U owned [] = text_of_lines ls" "\<forall>l\<in>set ls. inner_line l" by (auto simp: inner_text_def)
  let ?n = "length (text_of_lines ls)"
  have four: "length (fence @ [10]) = 4" by (simp add: fence_def)
  have "slice 4 (4 + ?n) ((fence @ [10]) @ text_of_lines ls @ (fence @ [10]) @ text_body) = text_of_lines ls"
    using slice_middle [of "fence @ [10]" "text_of_lines ls" "(fence @ [10]) @ text_body"] unfolding four .
  moreover have "length ((fence @ [10]) @ text_of_lines ls @ (fence @ [10])) = 8 + ?n" by (simp add: fence_def)
  then have "drop (8 + ?n) (((fence @ [10]) @ text_of_lines ls @ (fence @ [10])) @ text_body) = text_body"
    by (metis append_eq_conv_conj)
  ultimately show ?thesis using written_frame [OF ls(2), of text_body] ls(1) by (simp add: formatOwned_def)
qed

theorem written_rows_frame_back_witness:
  "\<exists>stop start. frameRowText (formatOwned ascii_unicode [(js ''a'', OText [45, 45, 45, 10, 45, 45, 45])] (js ''b'')) = Frontmatter [] 4 stop start [10]
    \<and> drop start (formatOwned ascii_unicode [(js ''a'', OText [45, 45, 45, 10, 45, 45, 45])] (js ''b'')) = js ''b''"
proof -
  have "unicode_ok ascii_unicode" by (simp add: unicode_ok_def ascii_unicode_def is_digit_def)
  from written_rows_frame_back [OF this, of "[(js ''a'', OText [45, 45, 45, 10, 45, 45, 45])]" "js ''b''"] show ?thesis by auto
qed

text \<open>
  Claim C18 (written_rows_read_back). A row that formats reads back: parsing the text gives the
  document that was returned, with the body as supplied and, as its fields, exactly the supplied
  values, a member holding undefined being absent.
\<close>

theorem written_rows_read_back:
  assumes "heap_ok h" and "formatRowSource U yaml h (Some (JRef i, JText b)) declared = Inr (text, doc)"
  shows "parseCanonicalDocument yaml text = Inr doc \<and> doc_body doc = b \<and> reads h (JRef i) (CRecord (doc_fields doc))"
  by (rule formatted_reads_back [OF assms])

theorem written_rows_read_back_witness:
  "reads tea_heap (JRef 0) (CRecord (doc_fields tea_document)) \<and> parseCanonicalDocument tea_yaml tea_text = Inr tea_document"
proof -
  have "heap_ok tea_heap" by (auto simp: heap_ok_def tea_heap_def js_def split: if_splits)
  from written_rows_read_back [OF this tea_format] show ?thesis by blast
qed

text \<open>
  The text of a row does not depend on the order in which an
  object lists its members, at any depth: two heaps with the same objects give the same text,
  or the same refusal.
\<close>

theorem equal_rows_have_one_text:
  assumes "heaps_alike h h'"
  shows "formatRowSource U yaml h supplied declared = formatRowSource U yaml h' supplied declared"
  by (rule formatRowSource_alike [OF assms])

theorem equal_rows_have_one_text_witness:
  "formatRowSource ascii_unicode tea_yaml
      [(0, RecordObj True 0 [(js ''title'', JText (js ''Tea'')), (js ''cups'', JNum (Whole 2)), (js ''note'', JUndefined)])]
      (Some (JRef 0, JText (js ''Hot.''))) [js ''title''] = Inr (tea_text, tea_document)"
proof -
  have "heaps_alike tea_heap [(0, RecordObj True 0 [(js ''title'', JText (js ''Tea'')), (js ''cups'', JNum (Whole 2)), (js ''note'', JUndefined)])]"
    by (auto simp: heaps_alike_def tea_heap_def obj_alike_def js_def)
  from equal_rows_have_one_text [OF this] tea_format show ?thesis by metis
qed

end
