(* ===== verification/Row_Text.thy ===== *)
theory Row_Text
  imports Canonical
begin

text \<open>
  Rows as text, \<^verbatim>\<open>packages/folder/src/row-text.ts\<close>, and the check of values against the fields of a
  table, \<open>check\<close> of \<^verbatim>\<open>packages/definition/src/prepare.ts\<close>. The compiled validators of a field are not
  under \<^verbatim>\<open>src/\<close> (TypeBox): a field carries what they answer, \<^const>\<open>None\<close> when they throw.
\<close>

section \<open>Checking values\<close>

record schema =
  is_optional :: bool
  validate :: "cval \<Rightarrow> bool option"
  validation_errors :: "cval \<Rightarrow> (jsstring \<times> jsstring) list option"   \<comment> \<open>instancePath and message\<close>

text \<open>The fields of a prepared table, in the order of \<^verbatim>\<open>Object.entries\<close>.\<close>

type_synonym field_map = "(jsstring \<times> schema) list"

datatype check_mode = ReadMode | InputMode | PatchMode

record conformance_issue =
  issue_field :: jsstring
  issue_path :: "jsstring option"
  issue_message :: jsstring

text \<open>\<open>isJsonSafe\<close> on a value that is a tree: every number is finite.\<close>

fun json_tree :: "cval \<Rightarrow> bool" and json_trees :: "cval list \<Rightarrow> bool" and json_fields :: "(jsstring \<times> cval) list \<Rightarrow> bool" where
  "json_tree (CNum n) = isFinite n"
| "json_tree (CList vs) = json_trees vs"
| "json_tree (CRecord ms) = json_fields ms"
| "json_tree v = True"
| "json_trees [] = True"
| "json_trees (v # vs) = (json_tree v \<and> json_trees vs)"
| "json_fields [] = True"
| "json_fields ((k, v) # ms) = (json_tree v \<and> json_fields ms)"

fun split_on :: "nat \<Rightarrow> jsstring \<Rightarrow> jsstring list" where
  "split_on sep [] = [[]]"
| "split_on sep (c # cs) =
     (if c = sep then [] # split_on sep cs
      else case split_on sep cs of [] \<Rightarrow> [[c]] | l # ls \<Rightarrow> (c # l) # ls)"

definition decimal :: "jsstring \<Rightarrow> nat" where
  "decimal s = foldl (\<lambda>n c. n * 10 + (c - 48)) 0 s"

text \<open>\<^verbatim>\<open>/^(0|[1-9][0-9]*)$/\<close>\<close>

definition index_segment :: "jsstring \<Rightarrow> bool" where
  "index_segment s \<longleftrightarrow> s \<noteq> [] \<and> (\<forall>c\<in>set s. is_digit c) \<and> (hd s = 48 \<longrightarrow> s = [48])"

fun pointer_walk :: "cval \<Rightarrow> jsstring list \<Rightarrow> bool" where
  "pointer_walk v [] = True"
| "pointer_walk v (s # ss) =
     (case v of
        CList vs \<Rightarrow> index_segment s \<and> decimal s < length vs \<and> pointer_walk (vs ! decimal s) ss
      | CRecord ms \<Rightarrow>
          (case map_of ms s of
             None \<Rightarrow> False
           | Some w \<Rightarrow> (\<forall>m\<in>set ms. 47 \<notin> set (fst m) \<and> 126 \<notin> set (fst m)) \<and> pointer_walk w ss)
      | _ \<Rightarrow> False)"

definition verifiedPointer :: "cval \<Rightarrow> jsstring \<Rightarrow> jsstring option" where
  "verifiedPointer v instancePath =
     (if \<not> starts_with instancePath 0 [47] then None
      else if pointer_walk v (split_on 47 (drop 1 instancePath)) then Some instancePath else None)"

definition fieldIssues :: "jsstring \<Rightarrow> schema \<Rightarrow> cval \<Rightarrow> conformance_issue list" where
  "fieldIssues name s v =
     (let subject = name @ js '' does not conform'';
          threw = [\<lparr>issue_field = name, issue_path = None, issue_message = subject @ js '': schema validation threw''\<rparr>] in
      if \<not> json_tree v then [\<lparr>issue_field = name, issue_path = None, issue_message = subject @ js '': must be a JSON value''\<rparr>]
      else
        case validate s v of
          None \<Rightarrow> threw
        | Some True \<Rightarrow> []
        | Some False \<Rightarrow>
            (case validation_errors s v of
               None \<Rightarrow> threw
             | Some [] \<Rightarrow> [\<lparr>issue_field = name, issue_path = None, issue_message = subject\<rparr>]
             | Some es \<Rightarrow>
                 map (\<lambda>(instancePath, message).
                   (case verifiedPointer v instancePath of
                      None \<Rightarrow> \<lparr>issue_field = name, issue_path = None, issue_message = subject @ js '': '' @ message\<rparr>
                    | Some p \<Rightarrow> \<lparr>issue_field = name, issue_path = Some p, issue_message = subject @ js '' at '' @ p @ js '': '' @ message\<rparr>)) es))"

text \<open>The loop over the declared fields; a value that is \<^verbatim>\<open>undefined\<close> is \<^const>\<open>None\<close>.\<close>

fun check_fields :: "check_mode \<Rightarrow> (jsstring \<times> cval option) list \<Rightarrow> field_map \<Rightarrow> (jsstring \<times> cval) list \<times> conformance_issue list" where
  "check_fields mode vals [] = ([], [])"
| "check_fields mode vals ((name, s) # fs) =
     (let (conforming, issues) = check_fields mode vals fs in
      case map_of vals name of
        Some (Some v) \<Rightarrow>
          (case fieldIssues name s v of
             [] \<Rightarrow> ((name, v) # conforming, issues)
           | found \<Rightarrow> (conforming, found @ issues))
      | _ \<Rightarrow>
          if mode \<noteq> PatchMode \<and> \<not> is_optional s then
            (conforming, \<lparr>issue_field = name, issue_path = None, issue_message = name @ js '' is missing''\<rparr> # issues)
          else (conforming, issues))"

definition check :: "field_map \<Rightarrow> (jsstring \<times> cval option) list \<Rightarrow> check_mode \<Rightarrow> (jsstring \<times> cval) list \<times> conformance_issue list" where
  "check fs vals mode =
     (let (conforming, issues) = check_fields mode vals fs in
      (conforming, issues @
         (if mode = ReadMode then []
          else map (\<lambda>(k, v). \<lparr>issue_field = k, issue_path = None, issue_message = k @ js '' is not declared''\<rparr>)
                 (filter (\<lambda>(k, v). k \<notin> fst ` set fs \<and> v \<noteq> None) vals))))"

section \<open>Issues\<close>

record issue =
  message :: jsstring
  issue_line :: "nat option"
  at_field :: "jsstring option"

text \<open>By line, an issue without one last; \<^verbatim>\<open>Infinity - Infinity\<close> is \<^verbatim>\<open>NaN\<close>, which a sort takes for zero.\<close>

definition compare_lines :: "issue \<Rightarrow> issue \<Rightarrow> int" where
  "compare_lines a b =
     (case (issue_line a, issue_line b) of
        (Some m, Some n) \<Rightarrow> int m - int n
      | (Some m, None) \<Rightarrow> -1
      | (None, Some n) \<Rightarrow> 1
      | (None, None) \<Rightarrow> 0)"

definition issueList :: "issue list \<Rightarrow> issue list" where
  "issueList issues = sort_by compare_lines issues"

definition writeIssue :: "refusal \<Rightarrow> issue" where
  "writeIssue e =
     (case field e of
        None \<Rightarrow> \<lparr>message = js ''The row cannot be saved: '' @ reason e, issue_line = None, at_field = None\<rparr>
      | Some f \<Rightarrow> \<lparr>message = f @ js '' cannot be saved: '' @ reason e, issue_line = None, at_field = Some f\<rparr>)"

text \<open>The function \<^verbatim>\<open>lineOf\<close> of a parsed source.\<close>

definition key_value :: "ynode \<Rightarrow> jsstring option" where
  "key_value n = (case n of YScalar i r t (SText s) src \<Rightarrow> Some s | _ \<Rightarrow> None)"

definition find_pair :: "(ynode \<times> ynode) list \<Rightarrow> jsstring \<Rightarrow> (ynode \<times> ynode) option" where
  "find_pair ps k = find (\<lambda>p. key_value (fst p) = Some k) ps"

fun unescape1 :: "jsstring \<Rightarrow> jsstring" where
  "unescape1 (c # d # cs) = (if c = 126 \<and> d = 49 then 47 # unescape1 cs else c # unescape1 (d # cs))"
| "unescape1 cs = cs"

fun unescape0 :: "jsstring \<Rightarrow> jsstring" where
  "unescape0 (c # d # cs) = (if c = 126 \<and> d = 48 then 126 # unescape0 cs else c # unescape0 (d # cs))"
| "unescape0 cs = cs"

text \<open>A pointer that was verified names an element of a sequence by its decimal index.\<close>

fun node_at :: "ynode option \<Rightarrow> jsstring list \<Rightarrow> ynode option" where
  "node_at n [] = n"
| "node_at n (s # ss) =
     node_at
       (case n of
          Some (YMap i r t ps) \<Rightarrow> map_option snd (find_pair ps s)
        | Some (YSeq i r t ns) \<Rightarrow> if index_segment s \<and> decimal s < length ns then Some (ns ! decimal s) else None
        | _ \<Rightarrow> None) ss"

definition source_line :: "parsed_source \<Rightarrow> jsstring \<Rightarrow> jsstring option \<Rightarrow> nat option" where
  "source_line p f pointer =
     (case find_pair (root p) f of
        None \<Rightarrow> None
      | Some (k, v) \<Rightarrow>
          (let segments = map (\<lambda>s. unescape0 (unescape1 s)) (drop 1 (split_on 47 (case pointer of None \<Rightarrow> [] | Some t \<Rightarrow> t))) in
           case Option.bind (node_at (Some v) segments) (lineOf (walked p)) of
             Some l \<Rightarrow> Some l
           | None \<Rightarrow> lineOf (walked p) k))"

section \<open>Rows\<close>

type_synonym row = canonical_document

definition present_values :: "(jsstring \<times> cval) list \<Rightarrow> (jsstring \<times> cval option) list" where
  "present_values fs = map (\<lambda>(k, v). (k, Some v)) fs"

definition parseRow :: "yaml \<Rightarrow> field_map \<Rightarrow> jsstring \<Rightarrow> (issue list, row) result" where
  "parseRow yaml table text =
     (case parseRowSource yaml text of
        Inl e \<Rightarrow> Inl (issueList [\<lparr>message = reason e, issue_line = line e, at_field = field e\<rparr>])
      | Inr p \<Rightarrow>
          (case snd (check table (present_values (doc_fields (parsed p))) ReadMode) of
             [] \<Rightarrow> Inr (parsed p)
           | issues \<Rightarrow>
               Inl (issueList (map (\<lambda>i. \<lparr>message = issue_message i, issue_line = source_line p (issue_field i) (issue_path i),
                 at_field = Some (issue_field i)\<rparr>) issues))))"

definition formatRow ::
    "unicode \<Rightarrow> yaml \<Rightarrow> field_map \<Rightarrow> heap \<Rightarrow> (jsval \<times> jsval) option \<Rightarrow> (issue, jsstring) result" where
  "formatRow U yaml table h row = map_sum writeIssue id (formatCanonicalDocument U yaml h row (map fst table))"

definition writeRow ::
    "unicode \<Rightarrow> yaml \<Rightarrow> field_map \<Rightarrow> heap \<Rightarrow> (jsval \<times> jsval) option \<Rightarrow> (issue list, jsstring \<times> row) result" where
  "writeRow U yaml table h row =
     (case formatRowSource U yaml h row (map fst table) of
        Inl e \<Rightarrow> Inl (issueList [writeIssue e])
      | Inr (text, written) \<Rightarrow>
          (case snd (check table (present_values (doc_fields written)) ReadMode) of
             [] \<Rightarrow> Inr (text, written)
           | issues \<Rightarrow>
               Inl (issueList (map (\<lambda>i. \<lparr>message = issue_message i, issue_line = None, at_field = Some (issue_field i)\<rparr>) issues))))"

text \<open>
  \<open>wellFormed\<close>: a high surrogate with no low one behind it and a low one with no high one before
  it become U+FFFD. \<open>after_high\<close> says whether the unit before is a high surrogate.
\<close>

fun replace_lone :: "bool \<Rightarrow> jsstring \<Rightarrow> jsstring" where
  "replace_lone after_high [] = []"
| "replace_lone after_high (u # us) =
     (if high_surrogate u \<and> \<not> (us \<noteq> [] \<and> low_surrogate (hd us)) then 0xFFFD
      else if low_surrogate u \<and> \<not> after_high then 0xFFFD else u) # replace_lone (high_surrogate u) us"

definition wellFormed :: "jsstring \<Rightarrow> jsstring" where
  "wellFormed text = replace_lone False text"

section \<open>Reading and writing agree\<close>

text \<open>A valid row: every declared field is there or optional, and what is there is JSON its validator accepts.\<close>

definition field_conforms :: "(jsstring \<times> cval) list \<Rightarrow> jsstring \<Rightarrow> schema \<Rightarrow> bool" where
  "field_conforms fs name s =
     (case map_of fs name of None \<Rightarrow> is_optional s | Some v \<Rightarrow> json_tree v \<and> validate s v = Some True)"

definition conforms :: "field_map \<Rightarrow> (jsstring \<times> cval) list \<Rightarrow> bool" where
  "conforms table fs \<longleftrightarrow> (\<forall>(name, s)\<in>set table. field_conforms fs name s)"

lemma fieldIssues_none: "fieldIssues name s v = [] \<longleftrightarrow> json_tree v \<and> validate s v = Some True"
  by (auto simp: fieldIssues_def Let_def split: option.splits bool.splits list.splits)

lemma map_of_present: "map_of (present_values fs) k = map_option Some (map_of fs k)"
  by (induction fs) (auto simp: present_values_def)

lemma check_fields_step:
  "snd (check_fields ReadMode (present_values fs) ((name, s) # table)) = [] \<longleftrightarrow>
    field_conforms fs name s \<and> snd (check_fields ReadMode (present_values fs) table) = []"
proof (cases "map_of fs name")
  case None
  then show ?thesis by (simp add: field_conforms_def map_of_present Let_def split: prod.split)
next
  case (Some v)
  show ?thesis
  proof (cases "fieldIssues name s v")
    case Nil
    then have "json_tree v \<and> validate s v = Some True" by (simp only: fieldIssues_none)
    with Nil Some show ?thesis by (simp add: field_conforms_def map_of_present Let_def split: prod.split)
  next
    case (Cons i is')
    then have "\<not> (json_tree v \<and> validate s v = Some True)" by (metis fieldIssues_none list.distinct(1))
    then have "\<not> field_conforms fs name s" using Some by (simp add: field_conforms_def)
    with Cons Some show ?thesis by (simp add: map_of_present Let_def split: prod.split)
  qed
qed

lemma check_fields_none: "snd (check_fields ReadMode (present_values fs) table) = [] \<longleftrightarrow> conforms table fs"
proof (induction table)
  case (Cons f table)
  obtain name s where f: "f = (name, s)" by (cases f)
  show ?case unfolding f check_fields_step Cons by (simp add: conforms_def)
qed (simp add: conforms_def)

lemma check_read_none: "snd (check table (present_values fs) ReadMode) = [] \<longleftrightarrow> conforms table fs"
  using check_fields_none [of fs table] by (simp add: check_def split: prod.split)

lemma issueList_nil [simp]: "issueList is' = [] \<longleftrightarrow> is' = []"
  by (metis issueList_def length_0_conv length_sort_by)

lemma compare_lines_consistent: "consistent compare_lines"
  unfolding consistent_def compare_lines_def by (auto split: option.splits)

text \<open>The three outcomes of reading a row.\<close>

lemma parseRow_cases:
  obtains (refused) e where "parseRowSource yaml text = Inl e"
      "parseRow yaml table text = Inl (issueList [\<lparr>message = reason e, issue_line = line e, at_field = field e\<rparr>])"
  | (invalid) p is' where "parseRowSource yaml text = Inr p" "\<not> conforms table (doc_fields (parsed p))" "is' \<noteq> []"
      "parseRow yaml table text = Inl (issueList is')"
  | (valid) p where "parseRowSource yaml text = Inr p" "conforms table (doc_fields (parsed p))" "parseRow yaml table text = Inr (parsed p)"
proof (cases "parseRowSource yaml text")
  case (Inl e)
  then show ?thesis by (intro refused) (simp_all add: parseRow_def)
next
  case (Inr p)
  show ?thesis
  proof (cases "snd (check table (present_values (doc_fields (parsed p))) ReadMode)")
    case Nil
    then have "conforms table (doc_fields (parsed p))" by (simp only: check_read_none)
    with Inr Nil show ?thesis by (intro valid) (simp_all add: parseRow_def)
  next
    case (Cons i is')
    then have "\<not> conforms table (doc_fields (parsed p))" by (metis check_read_none list.distinct(1))
    with Inr Cons show ?thesis by (intro invalid [of p]) (simp_all add: parseRow_def)
  qed
qed

lemma issueList_sorted: "sorted_wrt (\<lambda>a b. compare_lines a b \<le> 0) (issueList xs)"
  unfolding issueList_def by (rule sorted_sort_by [OF compare_lines_consistent])

lemma well_formed_Cons: "u < 0x10000 \<Longrightarrow> \<not> high_surrogate u \<Longrightarrow> \<not> low_surrogate u \<Longrightarrow> well_formed (u # us) = well_formed us"
  by (cases us) auto

lemma surrogate_facts: "high_surrogate u \<Longrightarrow> \<not> low_surrogate u" "\<not> high_surrogate 0xFFFD" "\<not> low_surrogate 0xFFFD"
  by (simp_all add: high_surrogate_def low_surrogate_def)

lemma replace_lone_after: "\<not> (us \<noteq> [] \<and> low_surrogate (hd us)) \<Longrightarrow> replace_lone b us = replace_lone c us"
  by (cases us) auto

lemma replace_lone_pair: "low_surrogate v \<Longrightarrow> replace_lone True (v # us) = v # replace_lone False us"
proof -
  assume v: "low_surrogate v"
  then have "\<not> high_surrogate v" using surrogate_facts(1) by blast
  with v show ?thesis by simp
qed

lemma replace_lone_well_formed: "units_ok s \<Longrightarrow> well_formed (replace_lone False s)"
proof (induction s rule: length_induct)
  case (1 s)
  show ?case
  proof (cases s)
    case (Cons u us)
    have u: "u < 0x10000" "units_ok us" using 1(2) Cons by (simp_all add: units_ok_def)
    have tail: "well_formed (replace_lone False us)" using 1(1) Cons u(2) by simp
    show ?thesis
    proof (cases "high_surrogate u \<and> us \<noteq> [] \<and> low_surrogate (hd us)")
      case True
      then obtain v vs where v: "us = v # vs" "low_surrogate v" by (cases us) auto
      then have "well_formed (replace_lone False vs)" using 1(1) Cons u(2) by (simp add: units_ok_def)
      with True v Cons show ?thesis
        using replace_lone_pair [OF v(2), of vs] surrogate_facts(1) [of u] by (simp del: replace_lone.simps(2) add: replace_lone.simps(2) [of False u])
    next
      case False
      have r: "replace_lone (high_surrogate u) us = replace_lone False us"
        by (cases "high_surrogate u") (use False in \<open>simp_all add: replace_lone_after\<close>)
      have "replace_lone False s = (if high_surrogate u \<or> low_surrogate u then 0xFFFD else u) # replace_lone False us"
        using False by (simp add: Cons r)
      then show ?thesis using tail u(1) surrogate_facts(2,3) by (simp add: well_formed_Cons)
    qed
  qed simp
qed

lemma replace_lone_same: "well_formed s \<Longrightarrow> replace_lone False s = s"
proof (induction s rule: well_formed.induct)
  case (3 u v us)
  show ?case
  proof (cases "high_surrogate u")
    case True
    with 3 show ?thesis using replace_lone_pair [of v us] surrogate_facts(1) [of u]
      by (simp del: replace_lone.simps(2) add: replace_lone.simps(2) [of False u])
  next
    case False
    with 3 show ?thesis by (simp del: replace_lone.simps(2) add: replace_lone.simps(2) [of False u])
  qed
qed simp_all

lemma written_row_parses:
  assumes "writeRow U yaml table h supplied = Inr (text, row)"
  shows "parseRow yaml table text = Inr row"
proof -
  from assms obtain written where w: "formatRowSource U yaml h supplied (map fst table) = Inr (text, written)"
    by (auto simp: writeRow_def split: sum.splits list.splits)
  with assms have c: "snd (check table (present_values (doc_fields written)) ReadMode) = []" "row = written"
    by (auto simp: writeRow_def split: list.splits)
  from w obtain p where p: "parseRowSource yaml text = Inr p" "written = parsed p"
    by (auto simp: formatRowSource_def Let_def split: option.splits prod.splits jsval.splits jsobj.splits if_splits sum.splits)
  show ?thesis using p c by (simp add: parseRow_def)
qed

section \<open>Properties\<close>

text \<open>
  Reading a row gives either the document of the text,
  unchanged and with keys the table does not declare, and then every declared field conforms; or
  at least one issue, in line order with those that have no line last. A document whose fields
  all conform is never refused.
\<close>

theorem parseRow_is_the_schema_check:
  "case parseRow yaml table text of
     Inr row \<Rightarrow> parseCanonicalDocument yaml text = Inr row \<and> conforms table (doc_fields row)
   | Inl issues \<Rightarrow> issues \<noteq> [] \<and> sorted_wrt (\<lambda>a b. compare_lines a b \<le> 0) issues
       \<and> (\<forall>doc. parseCanonicalDocument yaml text = Inr doc \<longrightarrow> \<not> conforms table (doc_fields doc))"
  by (cases rule: parseRow_cases [of yaml "text" table])
    (auto simp: parseCanonicalDocument_def issueList_sorted)

definition tea_table :: field_map where
  "tea_table = [(js ''title'', \<lparr>is_optional = False, validate = \<lambda>v. Some True, validation_errors = \<lambda>v. Some []\<rparr>)]"

lemma tea_conforms: "conforms tea_table (doc_fields tea_document)"
  by (simp add: conforms_def tea_table_def field_conforms_def tea_document_def)

theorem parseRow_is_the_schema_check_witness:
  "parseRow tea_yaml tea_table tea_text = Inr tea_document"
proof -
  obtain p where p: "parseRowSource tea_yaml tea_text = Inr p" "parsed p = tea_document" using tea_parse by blast
  then have doc: "parseCanonicalDocument tea_yaml tea_text = Inr tea_document" by (simp add: parseCanonicalDocument_def)
  with parseRow_is_the_schema_check [of tea_yaml tea_text tea_table] tea_conforms show ?thesis
    by (cases "parseRow tea_yaml tea_table tea_text") auto
qed

text \<open>
  Claim C17 (saved_rows_are_valid). What a validating write saves is a valid row: reading the text
  it returns gives exactly the row it returned, with no issue.
\<close>

theorem saved_rows_are_valid:
  assumes "writeRow U yaml table h supplied = Inr (text, row)"
  shows "parseRow yaml table text = Inr row"
  by (rule written_row_parses [OF assms])

theorem saved_rows_are_valid_witness: "parseRow tea_yaml tea_table tea_text = Inr tea_document"
proof (rule saved_rows_are_valid)
  have "snd (check tea_table (present_values (doc_fields tea_document)) ReadMode) = []"
    using tea_conforms by (simp only: check_read_none)
  then show "writeRow ascii_unicode tea_yaml tea_table tea_heap (Some (JRef 0, JText (js ''Hot.''))) = Inr (tea_text, tea_document)"
    using tea_format by (simp add: writeRow_def tea_table_def)
qed

text \<open>
  Replacing unpaired surrogates always gives text a file can hold,
  and changes nothing about text that already is.
\<close>

theorem wellFormed_repairs:
  "(units_ok s \<longrightarrow> well_formed (wellFormed s)) \<and> (well_formed s \<longrightarrow> wellFormed s = s)"
  using replace_lone_well_formed replace_lone_same by (simp add: wellFormed_def)

theorem wellFormed_repairs_witness: "well_formed (wellFormed [97, 0xD800, 0xDC00, 0xD800])"
  using wellFormed_repairs [of "[97, 0xD800, 0xDC00, 0xD800]"] by (simp add: units_ok_def)

end
