(* ===== verification/Paths.thy ===== *)
theory Paths
  imports Row_Text
begin

text \<open>
  Folder-relative paths and row addresses, \<^verbatim>\<open>packages/folder/src/paths.ts\<close>. The one word that is compared
  in lower case is \<^verbatim>\<open>.git\<close>: no character but its ASCII letters lower-cases to one of its letters.
\<close>

section \<open>Paths\<close>

definition slash :: nat where
  "slash = 47"

definition segments :: "jsstring \<Rightarrow> jsstring list" where
  "segments p = split_on slash p"

definition control :: "nat \<Rightarrow> bool" where
  "control c \<longleftrightarrow> c \<le> 0x1F \<or> c = 0x7F"

fun segment_problem :: "jsstring list \<Rightarrow> jsstring option" where
  "segment_problem [] = None"
| "segment_problem (s # ss) =
     (if s = [] then Some (js ''the path contains an empty segment'')
      else if s = js ''.'' \<or> s = js ''..'' then Some (js ''the path contains a relative segment'')
      else if map ascii_lower s = js ''.git'' then Some (js ''the path is inside private Git state'')
      else segment_problem ss)"

definition pathProblem :: "jsstring \<Rightarrow> jsstring option" where
  "pathProblem p =
     (if p = [] then Some (js ''the path is empty'')
      else if hd p = slash then Some (js ''the path must be folder-relative'')
      else if 92 \<in> set p then Some (js ''the path contains a backslash'')
      else if \<exists>c\<in>set p. control c then Some (js ''the path contains a control character'')
      else segment_problem (segments p))"

text \<open>What follows the last slash, and what precedes it.\<close>

definition basename :: "jsstring \<Rightarrow> jsstring" where
  "basename p = rev (takeWhile (\<lambda>c. c \<noteq> slash) (rev p))"

definition dirname :: "jsstring \<Rightarrow> jsstring" where
  "dirname p = rev (tl (dropWhile (\<lambda>c. c \<noteq> slash) (rev p)))"

definition isPortablePath :: "jsstring \<Rightarrow> bool" where
  "isPortablePath p \<longleftrightarrow> pathProblem p = None \<and> basename p \<noteq> js ''.DS_Store''"

definition ancestors :: "jsstring \<Rightarrow> jsstring list" where
  "ancestors p = (let parts = segments p in map (\<lambda>i. join_with [slash] (take i parts)) [1..<length parts])"

section \<open>Rows\<close>

definition ROW_EXTENSION :: jsstring where
  "ROW_EXTENSION = js ''.md''"

definition rowPath :: "jsstring \<Rightarrow> jsstring \<Rightarrow> jsstring" where
  "rowPath table stem = table @ [slash] @ stem @ ROW_EXTENSION"

definition rowAddressProblem :: "jsstring \<Rightarrow> jsstring \<Rightarrow> jsstring option" where
  "rowAddressProblem table stem =
     (if slash \<in> set stem then Some (js ''the stem contains a path separator'') else pathProblem (rowPath table stem))"

definition rowStemOf :: "jsstring \<Rightarrow> jsstring \<Rightarrow> jsstring option" where
  "rowStemOf table p =
     (if \<not> starts_with p 0 (table @ [slash]) then None
      else
        let filename = drop (length table + 1) p in
        if slash \<in> set filename then None
        else if \<not> ends_with filename ROW_EXTENSION then None
        else Some (take (length filename - length ROW_EXTENSION) filename))"

section \<open>Segments\<close>

lemma split_on_nonempty [simp]: "split_on sep s \<noteq> []"
  by (induction sep s rule: split_on.induct) (auto split: list.split)

lemma join_with_Cons [simp]: "join_with sep ((c # a) # l) = c # join_with sep (a # l)"
  by (cases l) simp_all

lemma join_with_step: "l \<noteq> [] \<Longrightarrow> join_with sep (a # l) = a @ sep @ join_with sep l"
  by (cases l) simp_all

lemma join_split: "join_with [sep] (split_on sep s) = s"
proof (induction sep s rule: split_on.induct)
  case (2 sep c cs)
  then show ?case by (cases "split_on sep cs") (auto simp: join_with_step)
qed simp

lemma split_on_part: "x \<in> set (split_on sep s) \<Longrightarrow> sep \<notin> set x"
  by (induction sep s arbitrary: x rule: split_on.induct) (fastforce split: if_splits list.splits)+

lemma split_on_none: "sep \<notin> set s \<Longrightarrow> split_on sep s = [s]"
  by (induction sep s rule: split_on.induct) auto

lemma split_on_append: "split_on sep (s @ sep # t) = split_on sep s @ split_on sep t"
  by (induction sep s rule: split_on.induct) (auto split: list.split)

lemma split_join: "xs \<noteq> [] \<Longrightarrow> \<forall>x\<in>set xs. sep \<notin> set x \<Longrightarrow> split_on sep (join_with [sep] xs) = xs"
proof (induction xs)
  case (Cons x xs)
  then show ?case by (cases "xs = []") (simp_all add: join_with_step split_on_append split_on_none)
qed simp

text \<open>A path is usable when it holds no backslash or control character and every segment is usable.\<close>

definition usable_segment :: "jsstring \<Rightarrow> bool" where
  "usable_segment s \<longleftrightarrow> s \<noteq> [] \<and> s \<noteq> js ''.'' \<and> s \<noteq> js ''..'' \<and> map ascii_lower s \<noteq> js ''.git''"

lemma segment_problem_none: "segment_problem ss = None \<longleftrightarrow> (\<forall>s\<in>set ss. usable_segment s)"
  by (induction ss) (auto simp: usable_segment_def)

lemma pathProblem_none:
  "pathProblem p = None \<longleftrightarrow> (\<forall>c\<in>set p. c \<noteq> 92 \<and> \<not> control c) \<and> (\<forall>s\<in>set (segments p). usable_segment s)"
proof (cases "p = [] \<or> hd p = slash")
  case True
  then have "[] \<in> set (segments p)" by (cases p) (auto simp: segments_def)
  then have "\<not> (\<forall>s\<in>set (segments p). usable_segment s)" by (auto simp: usable_segment_def)
  moreover have "pathProblem p \<noteq> None" using True by (auto simp: pathProblem_def)
  ultimately show ?thesis by blast
next
  case False
  then have "pathProblem p = (if 92 \<in> set p then Some (js ''the path contains a backslash'')
      else if \<exists>c\<in>set p. control c then Some (js ''the path contains a control character'') else segment_problem (segments p))"
    by (simp add: pathProblem_def)
  then show ?thesis by (simp add: segment_problem_none) blast
qed

lemma ancestor_segments:
  assumes "a \<in> set (ancestors p)"
  obtains i where "0 < i" "i < length (segments p)" "a = join_with [slash] (take i (segments p))" "segments a = take i (segments p)"
    "p = a @ [slash] @ join_with [slash] (drop i (segments p))"
proof -
  obtain i where "i \<in> set [1..<length (segments p)]" and a: "a = join_with [slash] (take i (segments p))"
    using assms unfolding ancestors_def Let_def set_map by blast
  then have i: "0 < i" "i < length (segments p)" "a = join_with [slash] (take i (segments p))" by simp_all
  have "\<forall>x\<in>set (take i (segments p)). slash \<notin> set x" using split_on_part in_set_takeD by (fastforce simp: segments_def)
  then have s: "segments a = take i (segments p)" unfolding i(3) segments_def [of "join_with _ _"]
    using i(1,2) by (intro split_join) auto
  have append: "xs \<noteq> [] \<Longrightarrow> ys \<noteq> [] \<Longrightarrow> join_with [slash] (xs @ ys) = join_with [slash] xs @ [slash] @ join_with [slash] ys" for xs ys
  proof (induction xs)
    case (Cons x xs)
    then show ?case by (cases "xs = []") (simp_all add: join_with_step)
  qed simp
  have "p = join_with [slash] (take i (segments p) @ drop i (segments p))" using join_split [of slash p] by (simp add: segments_def)
  also have "\<dots> = a @ [slash] @ join_with [slash] (drop i (segments p))" unfolding i(3) by (rule append) (use i in auto)
  finally show ?thesis using that [OF i s] by blast
qed

section \<open>Properties\<close>

text \<open>
  A path is the row of exactly the stem it was built from: reading a
  path as a row of a table gives a stem precisely when the path is \<open>rowPath\<close> of that stem and the stem is
  one segment.
\<close>

theorem row_addresses_are_unique:
  "rowStemOf table p = Some stem \<longleftrightarrow> p = rowPath table stem \<and> slash \<notin> set stem"
proof
  assume l: "rowStemOf table p = Some stem"
  let ?f = "drop (length table + 1) p"
  from l have *: "starts_with p 0 (table @ [slash])" "slash \<notin> set ?f" "ends_with ?f ROW_EXTENSION"
    "stem = take (length ?f - length ROW_EXTENSION) ?f"
    by (auto simp: rowStemOf_def Let_def split: if_splits)
  have "take (length table + 1) p = table @ [slash]" using *(1) by (simp add: starts_with_def)
  then have "p = (table @ [slash]) @ ?f" by (metis append_take_drop_id)
  moreover have "?f = stem @ ROW_EXTENSION"
    using *(3,4) unfolding ends_with_def by (metis append_take_drop_id)
  moreover have "slash \<notin> set stem" using *(2,4) in_set_takeD by fastforce
  ultimately show "p = rowPath table stem \<and> slash \<notin> set stem" by (simp add: rowPath_def)
next
  assume "p = rowPath table stem \<and> slash \<notin> set stem"
  moreover have "slash \<notin> set ROW_EXTENSION" by (simp add: ROW_EXTENSION_def slash_def js_def)
  ultimately show "rowStemOf table p = Some stem"
    by (simp add: rowStemOf_def rowPath_def starts_with_def ends_with_def Let_def)
qed

text \<open>
  Every proper ancestor of a usable path is a usable path, ends where a
  slash follows in the path, and is not the path itself.
\<close>

theorem ancestors_are_usable:
  assumes "pathProblem p = None" and "a \<in> set (ancestors p)"
  shows "pathProblem a = None \<and> (\<exists>rest. p = a @ [slash] @ rest) \<and> a \<noteq> p"
proof -
  obtain i rest where i: "segments a = take i (segments p)" and rest: "p = a @ [slash] @ rest"
    by (rule ancestor_segments [OF assms(2)]) blast
  have "set a \<subseteq> set p" using rest by auto
  moreover have "set (segments a) \<subseteq> set (segments p)" unfolding i by (rule set_take_subset)
  ultimately have "pathProblem a = None" using assms(1) unfolding pathProblem_none by blast
  moreover have "a \<noteq> p" using rest by auto
  ultimately show ?thesis using rest by blast
qed

theorem ancestors_are_usable_witness: "pathProblem (js ''notes'') = None"
proof -
  have "pathProblem (js ''notes/a.md'') = None" "js ''notes'' \<in> set (ancestors (js ''notes/a.md''))"
    by (simp_all add: pathProblem_def js_def slash_def control_def segments_def ascii_lower_def ancestors_def Let_def upt_rec)
  from ancestors_are_usable [OF this] show ?thesis by simp
qed

end
