(* ===== verification/Git_Attributes.thy ===== *)
theory Git_Attributes
  imports Kv_Merge Paths
begin

text \<open>
  The Git attributes a tree declares, \<^verbatim>\<open>packages/folder/src/git/attributes.ts\<close>: the lines of an attribute file, the
  matcher \<open>dowild\<close> that follows Git's \<^verbatim>\<open>wildmatch.c\<close>, and the first path a tree gives an attribute. Strings hold one
  unit per byte, as in the code, positions in them are numbers, and \<^verbatim>\<open>undefined\<close> is \<^const>\<open>None\<close>.
\<close>

section \<open>Lines\<close>

record assignment =
  attr_name :: jsstring
  attr_state :: jsstring

record attr_line =
  attr_macro :: "jsstring option"
  attr_pattern :: jsstring
  basenameOnly :: bool
  directoryOnly :: bool
  assignments :: "assignment list"

definition SET :: jsstring where
  "SET = js ''set''"
definition UNSET :: jsstring where
  "UNSET = js ''unset''"
definition UNSPECIFIED :: jsstring where
  "UNSPECIFIED = js ''unspecified''"

definition NORMALIZING :: "jsstring list" where
  "NORMALIZING = [js ''text'', js ''eol'', js ''crlf'', js ''filter'', js ''ident'', js ''working-tree-encoding'']"

definition isBlank :: "nat \<Rightarrow> bool" where
  "isBlank c \<longleftrightarrow> c = 32 \<or> c = 9 \<or> c = 13 \<or> c = 10"

definition MACRO_PREFIX :: jsstring where
  "MACRO_PREFIX = js ''[attr]''"

definition MAX_LINE_LENGTH :: nat where
  "MAX_LINE_LENGTH = 2048"

definition simple_escape :: "nat \<Rightarrow> nat option" where
  "simple_escape c = map_of [(97, 7), (98, 8), (102, 12), (110, 10), (114, 13), (116, 9), (118, 11), (92, 92), (34, 34)] c"

definition octal_digit :: "nat \<Rightarrow> bool" where
  "octal_digit c \<longleftrightarrow> 48 \<le> c \<and> c \<le> 55"

text \<open>The loop behind an opening quote: the unquoted text and what follows the closing quote.\<close>

fun unquote_loop :: "jsstring \<Rightarrow> jsstring \<Rightarrow> (jsstring \<times> jsstring) option" where
  "unquote_loop acc [] = None"
| "unquote_loop acc (c # cs) =
     (if c = 34 then Some (acc, cs)
      else if c \<noteq> 92 then unquote_loop (acc @ [c]) cs
      else (case cs of
              [] \<Rightarrow> None
            | d # ds \<Rightarrow>
                (case simple_escape d of
                   Some v \<Rightarrow> unquote_loop (acc @ [v]) ds
                 | None \<Rightarrow>
                     if d < 48 \<or> d > 51 then None
                     else (case ds of
                             x # y # rest \<Rightarrow>
                               if octal_digit x \<and> octal_digit y then unquote_loop (acc @ [(d - 48) * 64 + (x - 48) * 8 + (y - 48)]) rest
                               else None
                           | _ \<Rightarrow> None))))"

definition unquote :: "jsstring \<Rightarrow> (jsstring \<times> jsstring) option" where
  "unquote s = (case s of [] \<Rightarrow> None | c # cs \<Rightarrow> if c = 34 then unquote_loop [] cs else None)"

definition name_start :: "nat \<Rightarrow> bool" where
  "name_start c \<longleftrightarrow> (65 \<le> c \<and> c \<le> 90) \<or> (97 \<le> c \<and> c \<le> 122) \<or> (48 \<le> c \<and> c \<le> 57) \<or> c = 95 \<or> c = 46"

definition validName :: "jsstring \<Rightarrow> bool" where
  "validName n \<longleftrightarrow> n \<noteq> [] \<and> name_start (hd n) \<and> (\<forall>c\<in>set (tl n). c = 45 \<or> name_start c) \<and> \<not> starts_with n 0 (js ''builtin_'')"

text \<open>The blank-separated words of the rest of a line.\<close>

function words_of :: "jsstring \<Rightarrow> jsstring list" where
  "words_of s =
     (case dropWhile isBlank s of
        [] \<Rightarrow> []
      | c # cs \<Rightarrow> (c # takeWhile (\<lambda>x. \<not> isBlank x) cs) # words_of (dropWhile (\<lambda>x. \<not> isBlank x) cs))"
  by pat_completeness auto
termination
proof (relation "measure length")
  fix s c cs assume "dropWhile isBlank s = c # cs"
  then have "length cs < length s" by (metis length_Cons length_dropWhile_le Suc_le_eq)
  moreover have "length (dropWhile (\<lambda>x. \<not> isBlank x) cs) \<le> length cs" by (rule length_dropWhile_le)
  ultimately show "(dropWhile (\<lambda>x. \<not> isBlank x) cs, s) \<in> measure length" by simp
qed simp

text \<open>One word as an assignment, \<^const>\<open>None\<close> for an invalid name.\<close>

definition assignment_of :: "jsstring \<Rightarrow> assignment option" where
  "assignment_of token =
     (let eq = indexOf 61 0 token;
          attribute = (case eq of None \<Rightarrow> token | Some i \<Rightarrow> take i token);
          minus = starts_with attribute 0 [45]; bang = starts_with attribute 0 [33];
          name = (if minus \<or> bang then tl attribute else attribute);
          st = (if minus then UNSET else if bang then UNSPECIFIED
                else case eq of None \<Rightarrow> SET | Some i \<Rightarrow> drop (i + 1) token) in
      if validName name then Some \<lparr>attr_name = name, attr_state = st\<rparr> else None)"

fun assignments_of :: "jsstring list \<Rightarrow> assignment list option" where
  "assignments_of [] = Some []"
| "assignments_of (w # ws) =
     (case assignment_of w of None \<Rightarrow> None | Some a \<Rightarrow> map_option ((#) a) (assignments_of ws))"

text \<open>The macro a line defines: none, one, or one that drops the line.\<close>

datatype macro_name = NoMacro | Macro jsstring | BadMacro

definition macro_of :: "jsstring \<Rightarrow> bool \<Rightarrow> macro_name" where
  "macro_of name macrosAllowed =
     (if length name > length MACRO_PREFIX \<and> starts_with name 0 MACRO_PREFIX then
        if \<not> macrosAllowed then BadMacro
        else (let m = takeWhile (\<lambda>c. \<not> isBlank c) (dropWhile isBlank (drop (length MACRO_PREFIX) name)) in
              if validName m then Macro m else BadMacro)
      else NoMacro)"

definition parseLine :: "jsstring \<Rightarrow> bool \<Rightarrow> attr_line option" where
  "parseLine src macrosAllowed =
     (let s = dropWhile isBlank src in
      if s = [] \<or> hd s = 35 then None
      else if length src \<ge> MAX_LINE_LENGTH then None
      else
        (let (name, rest) = (case unquote s of
                               Some q \<Rightarrow> q
                             | None \<Rightarrow> (takeWhile (\<lambda>c. \<not> isBlank c) s, dropWhile (\<lambda>c. \<not> isBlank c) s)) in
         case macro_of name macrosAllowed of
           BadMacro \<Rightarrow> None
         | m \<Rightarrow>
             (case assignments_of (words_of rest) of
                None \<Rightarrow> None
              | Some xs \<Rightarrow>
                  (case m of
                     Macro x \<Rightarrow> Some \<lparr>attr_macro = Some x, attr_pattern = [], basenameOnly = False, directoryOnly = False, assignments = xs\<rparr>
                   | _ \<Rightarrow>
                       if starts_with name 0 [33] then None
                       else (let dironly = ends_with name [47]; pattern = (if dironly then butlast name else name) in
                             Some \<lparr>attr_macro = None, attr_pattern = pattern, basenameOnly = 47 \<notin> set pattern,
                               directoryOnly = dironly, assignments = xs\<rparr>)))))"

text \<open>Bytes as a binary string; the file is read as a C string, its first line with and without a byte order mark.\<close>

definition binary :: "bytes \<Rightarrow> jsstring" where
  "binary bs = map unat bs"

definition parse_text :: "jsstring \<Rightarrow> bool \<Rightarrow> attr_line list" where
  "parse_text s macrosAllowed =
     (let rows = split_on 10 s; some = (\<lambda>x. case x of None \<Rightarrow> [] | Some l \<Rightarrow> [l]) in
      case rows of
        [] \<Rightarrow> []
      | row # others \<Rightarrow>
          some (parseLine row macrosAllowed)
          @ (if starts_with row 0 [0xEF, 0xBB, 0xBF] then some (parseLine (drop 3 row) macrosAllowed) else [])
          @ concat (map (\<lambda>r. some (parseLine r macrosAllowed)) others))"

definition parseFile :: "bytes \<Rightarrow> bool \<Rightarrow> attr_line list" where
  "parseFile bs macrosAllowed = parse_text (takeWhile (\<lambda>c. c \<noteq> 0) (binary bs)) macrosAllowed"

section \<open>Matching\<close>

datatype wild = Match | NoMatch | AbortAll | AbortToStarstar | Threw

definition char_at :: "jsstring \<Rightarrow> nat \<Rightarrow> nat option" where
  "char_at s i = (if i < length s then Some (s ! i) else None)"

definition isUpper :: "nat \<Rightarrow> bool" where
  "isUpper c \<longleftrightarrow> 65 \<le> c \<and> c \<le> 90"
definition isLower :: "nat \<Rightarrow> bool" where
  "isLower c \<longleftrightarrow> 97 \<le> c \<and> c \<le> 122"
definition digit :: "nat \<Rightarrow> bool" where
  "digit c \<longleftrightarrow> 48 \<le> c \<and> c \<le> 57"

definition lower :: "bool \<Rightarrow> nat \<Rightarrow> nat" where
  "lower fld c = (if fld \<and> isUpper c then c + 32 else c)"

definition isGlobSpecial :: "nat \<Rightarrow> bool" where
  "isGlobSpecial c \<longleftrightarrow> c = 42 \<or> c = 63 \<or> c = 91 \<or> c = 92"

text \<open>
  The object \<open>CLASSES\<close>: a test by its name. Besides its own members it has what every object inherits, which
  the lookup finds too: called with one string, two of these answer something true, one answers false, and the others throw
  (\<^const>\<open>None\<close>).
\<close>

definition own_classes :: "(jsstring \<times> (nat \<Rightarrow> bool)) list" where
  "own_classes =
     [(js ''alnum'', \<lambda>c. isUpper c \<or> isLower c \<or> digit c), (js ''alpha'', \<lambda>c. isUpper c \<or> isLower c),
      (js ''blank'', \<lambda>c. c = 32 \<or> c = 9), (js ''cntrl'', \<lambda>c. c < 32 \<or> c = 127), (js ''digit'', digit),
      (js ''graph'', \<lambda>c. 32 < c \<and> c < 127), (js ''lower'', isLower), (js ''print'', \<lambda>c. 32 \<le> c \<and> c < 127),
      (js ''punct'', \<lambda>c. 32 < c \<and> c < 127 \<and> \<not> (isUpper c \<or> isLower c \<or> digit c)),
      (js ''space'', \<lambda>c. c = 32 \<or> (9 \<le> c \<and> c \<le> 13)), (js ''upper'', isUpper),
      (js ''xdigit'', \<lambda>c. digit c \<or> (65 \<le> c \<and> c \<le> 70) \<or> (97 \<le> c \<and> c \<le> 102))]"

definition inherited :: "(jsstring \<times> bool option) list" where
  "inherited =
     [(js ''constructor'', Some True), (js ''toString'', Some True), (js ''isPrototypeOf'', Some False),
      (js ''hasOwnProperty'', None), (js ''propertyIsEnumerable'', None), (js ''valueOf'', None), (js ''toLocaleString'', None),
      (js ''__proto__'', None), (js ''__defineGetter__'', None), (js ''__defineSetter__'', None),
      (js ''__lookupGetter__'', None), (js ''__lookupSetter__'', None)]"

definition class_of :: "jsstring \<Rightarrow> (nat \<Rightarrow> bool option) option" where
  "class_of name =
     (case map_of own_classes name of
        Some f \<Rightarrow> Some (\<lambda>c. Some (f c))
      | None \<Rightarrow> map_option (\<lambda>r c. r) (map_of inherited name))"

text \<open>A bracket set: where it closes and whether the character is in it, or why the match ends.\<close>

datatype bracket = Closed nat bool | BadSet | SetThrew

definition in_range :: "bool \<Rightarrow> nat \<Rightarrow> nat \<Rightarrow> nat \<Rightarrow> bool" where
  "in_range fld tch from to \<longleftrightarrow>
     (tch \<le> to \<and> tch \<ge> from) \<or> (fld \<and> isLower tch \<and> tch - 32 \<le> to \<and> tch - 32 \<ge> from)"

text \<open>
  One round of the loop, at position \<open>p\<close>: where it leaves the position, the previous character and the verdict.
\<close>

datatype round = Round nat "nat option" bool | BadRound | RoundThrew

definition class_end :: "jsstring \<Rightarrow> nat \<Rightarrow> nat" where
  "class_end pat from = from + length (takeWhile (\<lambda>c. c \<noteq> 93) (drop from pat))"

definition bracket_round :: "bool \<Rightarrow> jsstring \<Rightarrow> nat \<Rightarrow> nat \<Rightarrow> nat option \<Rightarrow> bool \<Rightarrow> round" where
  "bracket_round fld pat tch p prev matched =
     (case char_at pat p of
        None \<Rightarrow> BadRound
      | Some cch \<Rightarrow>
          if cch = 92 then
            (case char_at pat (p + 1) of None \<Rightarrow> BadRound | Some c \<Rightarrow> Round (p + 1) (Some c) (matched \<or> tch = c))
          else if cch = 45 \<and> prev \<noteq> None \<and> char_at pat (p + 1) \<noteq> None \<and> char_at pat (p + 1) \<noteq> Some 93 then
            (if char_at pat (p + 1) = Some 92 then
               (case char_at pat (p + 2) of
                  None \<Rightarrow> BadRound
                | Some c \<Rightarrow> Round (p + 2) None (matched \<or> in_range fld tch (the prev) c))
             else Round (p + 1) None (matched \<or> in_range fld tch (the prev) (pat ! (p + 1))))
          else if cch = 91 \<and> char_at pat (p + 1) = Some 58 then
            (let from = p + 2; end' = class_end pat from in
             if end' \<ge> length pat then BadRound
             else if end' = from \<or> pat ! (end' - 1) \<noteq> 58 then Round p (Some 91) (matched \<or> tch = 91)
             else
               (let name = slice from (end' - 1) pat in
                case class_of name of
                  None \<Rightarrow> BadRound
                | Some test \<Rightarrow>
                    (case test tch of
                       None \<Rightarrow> RoundThrew
                     | Some b \<Rightarrow> Round end' None (matched \<or> b \<or> (fld \<and> name = js ''upper'' \<and> isLower tch)))))
          else Round p (Some cch) (matched \<or> tch = cch))"

lemma class_end_ge: "from \<le> class_end pat from"
  by (simp add: class_end_def)

lemma bracket_round_moves: "bracket_round fld pat tch p prev m = Round p' prev' m' \<Longrightarrow> p \<le> p' \<and> p < length pat"
  using class_end_ge [of "p + 2" pat]
  by (auto simp: bracket_round_def char_at_def Let_def split: option.splits if_splits)

function bracket_loop :: "bool \<Rightarrow> jsstring \<Rightarrow> nat \<Rightarrow> nat \<Rightarrow> nat option \<Rightarrow> bool \<Rightarrow> bracket" where
  "bracket_loop fld pat tch p prev matched =
     (case bracket_round fld pat tch p prev matched of
        BadRound \<Rightarrow> BadSet
      | RoundThrew \<Rightarrow> SetThrew
      | Round p' prev' m \<Rightarrow>
          if char_at pat (p' + 1) = Some 93 then Closed (p' + 1) m else bracket_loop fld pat tch (p' + 1) prev' m)"
  by pat_completeness auto
termination
  by (relation "measure (\<lambda>(fld, pat, tch, p, prev, m). length pat - p)") (auto dest: bracket_round_moves)

declare bracket_loop.simps [simp del]

text \<open>
  \<open>dowild\<close>. \<open>wild_loop\<close> is its loop, from position \<open>p\<close> of the pattern and \<open>t\<close> of the subject, in a call that began at \<open>start\<close>;
  \<open>star_scan\<close> is the loop that looks for the rest of the pattern behind a star.
\<close>

definition after_stars :: "jsstring \<Rightarrow> nat \<Rightarrow> nat" where
  "after_stars pat p = p + 1 + length (takeWhile (\<lambda>c. c = 42) (drop (p + 1) pat))"

text \<open>Where the scan stops for a literal: at the literal, before a slash it may not cross, or at the end.\<close>

definition literal_at :: "bool \<Rightarrow> bool \<Rightarrow> nat \<Rightarrow> jsstring \<Rightarrow> nat \<Rightarrow> nat" where
  "literal_at fld matchSlash lit s t =
     t + length (takeWhile (\<lambda>c. \<not> (\<not> matchSlash \<and> lower fld c = 47) \<and> lower fld c \<noteq> lit) (drop t s))"

definition whole_component :: "jsstring \<Rightarrow> nat \<Rightarrow> nat \<Rightarrow> nat \<Rightarrow> bool" where
  "whole_component pat start p q \<longleftrightarrow>
     (p = start \<or> pat ! (p - 1) = 47)
     \<and> (q \<ge> length pat \<or> pat ! q = 47 \<or> (pat ! q = 92 \<and> char_at pat (q + 1) = Some 47))"

lemma after_stars_ge: "p < after_stars pat p"
  by (simp add: after_stars_def)

lemma bracket_loop_moves: "bracket_loop fld pat tch p prev m = Closed p' m' \<Longrightarrow> p < p' \<and> p < length pat"
proof (induction fld pat tch p prev m rule: bracket_loop.induct)
  case (1 fld pat tch p prev m)
  then show ?case
    by (subst (asm) (2) bracket_loop.simps)
      (force dest: bracket_round_moves split: round.splits if_splits)
qed

lemma literal_at_ge: "t \<le> literal_at fld ms lit s t"
  by (simp add: literal_at_def)

function wild_loop :: "bool \<Rightarrow> bool \<Rightarrow> jsstring \<Rightarrow> jsstring \<Rightarrow> nat \<Rightarrow> nat \<Rightarrow> nat \<Rightarrow> wild"
  and star_scan :: "bool \<Rightarrow> bool \<Rightarrow> jsstring \<Rightarrow> jsstring \<Rightarrow> bool \<Rightarrow> nat \<Rightarrow> nat \<Rightarrow> wild" where
  "wild_loop fld pathname pat s start p t =
     (case char_at pat p of
        None \<Rightarrow> if t < length s then NoMatch else Match
      | Some c0 \<Rightarrow>
          (let pch = lower fld c0; tch = map_option (lower fld) (char_at s t); q = after_stars pat p;
               star = (\<lambda>matchSlash.
                 if q \<ge> length pat then (if \<not> matchSlash \<and> indexOf 47 t s \<noteq> None then AbortToStarstar else Match)
                 else if \<not> matchSlash \<and> pat ! q = 47 then
                   (case indexOf 47 t s of None \<Rightarrow> AbortAll | Some k \<Rightarrow> wild_loop fld pathname pat s start (q + 1) (k + 1))
                 else star_scan fld pathname pat s matchSlash q t) in
           if tch = None \<and> pch \<noteq> 42 then AbortAll
           else if pch = 92 then
             (if tch = char_at pat (p + 1) then wild_loop fld pathname pat s start (p + 2) (t + 1) else NoMatch)
           else if pch = 63 then
             (if pathname \<and> tch = Some 47 then NoMatch else wild_loop fld pathname pat s start (p + 1) (t + 1))
           else if pch = 42 then
             (if char_at pat (p + 1) \<noteq> Some 42 then star (\<not> pathname)
              else if \<not> pathname then star True
              else if whole_component pat start p q then
                (if char_at pat q = Some 47 then
                   (case wild_loop fld pathname pat s (q + 1) (q + 1) t of
                      Match \<Rightarrow> Match | Threw \<Rightarrow> Threw | _ \<Rightarrow> star True)
                 else star True)
              else star False)
           else if pch = 91 then
             (let negated = char_at pat (p + 1) = Some 33 \<or> char_at pat (p + 1) = Some 94 in
              case bracket_loop fld pat (the tch) (if negated then p + 2 else p + 1) None False of
                BadSet \<Rightarrow> AbortAll
              | SetThrew \<Rightarrow> Threw
              | Closed p' matched \<Rightarrow>
                  if matched = negated \<or> (pathname \<and> tch = Some 47) then NoMatch
                  else wild_loop fld pathname pat s start (p' + 1) (t + 1))
           else if tch \<noteq> Some pch then NoMatch
           else wild_loop fld pathname pat s start (p + 1) (t + 1)))"
| "star_scan fld pathname pat s matchSlash q t =
     (if t \<ge> length s then AbortAll
      else
        (let lit = \<not> isGlobSpecial (pat ! q); c = lower fld (pat ! q);
             t1 = (if lit then literal_at fld matchSlash c s t else t) in
         if lit \<and> map_option (lower fld) (char_at s t1) \<noteq> Some c then (if matchSlash then AbortAll else AbortToStarstar)
         else
           (case wild_loop fld pathname pat s q q t1 of
              NoMatch \<Rightarrow>
                if \<not> matchSlash \<and> map_option (lower fld) (char_at s t1) = Some 47 then AbortToStarstar
                else star_scan fld pathname pat s matchSlash q (t1 + 1)
            | AbortToStarstar \<Rightarrow> if \<not> matchSlash then AbortToStarstar else star_scan fld pathname pat s matchSlash q (t1 + 1)
            | r \<Rightarrow> r)))"
  by pat_completeness auto
termination
proof (relation "measures
    [\<lambda>x. case x of Inl (fld, pathname, pat, s, start, p, t) \<Rightarrow> length pat - p | Inr (fld, pathname, pat, s, ms, q, t) \<Rightarrow> length pat - q,
     \<lambda>x. case x of Inl y \<Rightarrow> 0 | Inr y \<Rightarrow> 1,
     \<lambda>x. case x of Inl y \<Rightarrow> 0 | Inr (fld, pathname, pat, s, ms, q, t) \<Rightarrow> length s - t]")
qed (auto simp: char_at_def Let_def split: if_splits dest!: bracket_loop_moves
    intro: diff_less_mono2 after_stars_ge less_SucI [OF after_stars_ge] le_less_trans [OF literal_at_ge])

declare wild_loop.simps [simp del]
declare star_scan.simps [simp del]

definition wildmatch :: "jsstring \<Rightarrow> jsstring \<Rightarrow> bool \<Rightarrow> bool" where
  "wildmatch pat s pathname = (case wild_loop True pathname pat s 0 0 0 of Match \<Rightarrow> True | Threw \<Rightarrow> True | _ \<Rightarrow> False)"

section \<open>The attributes of a path\<close>

definition selects :: "attr_line \<Rightarrow> jsstring \<Rightarrow> jsstring \<Rightarrow> bool" where
  "selects l directory pa =
     (if directoryOnly l then False
      else if basenameOnly l then wildmatch (attr_pattern l) (basename pa) False
      else
        (let name = (if directory = [] then pa else drop (length directory + 1) pa);
             pattern = (if starts_with (attr_pattern l) 0 [47] then tl (attr_pattern l) else attr_pattern l) in
         wildmatch pattern name True))"

definition BUILTIN_BINARY :: "assignment list" where
  "BUILTIN_BINARY = map (\<lambda>n. \<lparr>attr_name = n, attr_state = UNSET\<rparr>) [js ''diff'', js ''merge'', js ''text'']"

definition byCodePoint :: "jsstring \<Rightarrow> jsstring \<Rightarrow> int" where
  "byCodePoint l r = compareText l r"

type_synonym macros = "(jsstring \<times> assignment list) list"

text \<open>
  \<open>fill\<close>: the assignments still to read, the next one first. What is set stays; a macro that is set is read
  before what follows it.
\<close>

function fill :: "macros \<Rightarrow> (jsstring \<rightharpoonup> jsstring) \<Rightarrow> assignment list \<Rightarrow> (jsstring \<rightharpoonup> jsstring)" where
  "fill macros states [] = states"
| "fill macros states (a # work) =
     (if states (attr_name a) \<noteq> None then fill macros states work
      else
        (let states' = states(attr_name a \<mapsto> attr_state a) in
         case map_of macros (attr_name a) of
           Some m \<Rightarrow> if attr_state a = SET then fill macros states' (rev m @ work) else fill macros states' work
         | None \<Rightarrow> fill macros states' work))"
  by pat_completeness auto
termination
proof (relation "measures [\<lambda>(macros, states, work). card (dom (map_of macros) - dom states), \<lambda>(macros, states, work). length work]")
qed (auto simp: finite_dom_map_of intro!: psubset_card_mono card_mono finite_Diff intro: le_neq_implies_less)

definition macros_of :: "attr_line list \<Rightarrow> macros" where
  "macros_of ls =
     foldl (\<lambda>ms l. case attr_macro l of None \<Rightarrow> ms | Some m \<Rightarrow> AList.update m (assignments l) ms) [(js ''binary'', BUILTIN_BINARY)] ls"

text \<open>The lines of each attribute file, by the directory it is in.\<close>

definition directory_of :: "jsstring \<Rightarrow> jsstring" where
  "directory_of pa = dirname pa"

definition by_directory :: "(jsstring \<times> bytes) list \<Rightarrow> (jsstring \<times> attr_line list) list" where
  "by_directory files =
     foldl (\<lambda>ds (pa, bs). let d = directory_of pa in AList.update (binary (text_encode d)) (parseFile bs (d = [])) ds) [] files"

definition path_bytes :: "jsstring \<Rightarrow> jsstring" where
  "path_bytes pa = binary (text_encode pa)"

text \<open>The lines that select a path, those that decide first first, with what they assign.\<close>

definition directory_lines :: "(jsstring \<times> attr_line list) list \<Rightarrow> jsstring \<Rightarrow> jsstring \<Rightarrow> assignment list" where
  "directory_lines dirs directory target =
     (case map_of dirs directory of
        None \<Rightarrow> []
      | Some ls \<Rightarrow> concat (map (\<lambda>l. rev (assignments l)) (filter (\<lambda>l. attr_macro l = None \<and> selects l directory target) (rev ls))))"

definition path_states :: "(jsstring \<times> attr_line list) list \<Rightarrow> jsstring \<Rightarrow> (jsstring \<rightharpoonup> jsstring)" where
  "path_states dirs target =
     (let parts = segments target; depths = rev [0..<length parts]; macros = macros_of (case map_of dirs [] of None \<Rightarrow> [] | Some ls \<Rightarrow> ls) in
      foldl (\<lambda>st depth. fill macros st (directory_lines dirs (join_with [47] (take depth parts)) target)) Map.empty depths)"

definition state_of :: "(jsstring \<rightharpoonup> jsstring) \<Rightarrow> jsstring \<Rightarrow> jsstring" where
  "state_of states name = (case states name of None \<Rightarrow> UNSPECIFIED | Some st \<Rightarrow> st)"

definition from_binary :: "jsstring \<Rightarrow> jsstring" where
  "from_binary st = text_decode (map of_nat st)"

definition attribute_text :: "jsstring \<Rightarrow> jsstring \<Rightarrow> jsstring" where
  "attribute_text name st = (if st = SET then name else if st = UNSET then [45] @ name else name @ [61] @ from_binary st)"

fun first_declared :: "(jsstring \<times> attr_line list) list \<Rightarrow> jsstring list \<Rightarrow> (jsstring \<Rightarrow> bool) \<Rightarrow> jsstring list \<Rightarrow> (jsstring \<times> jsstring) option" where
  "first_declared dirs names declares [] = None"
| "first_declared dirs names declares (pa # paths) =
     (let states = path_states dirs (path_bytes pa) in
      case find (\<lambda>name. declares (state_of states name)) names of
        Some name \<Rightarrow> Some (pa, attribute_text name (state_of states name))
      | None \<Rightarrow> first_declared dirs names declares paths)"

definition firstDeclared ::
    "(jsstring \<times> bytes) list \<Rightarrow> jsstring list \<Rightarrow> jsstring list \<Rightarrow> (jsstring \<Rightarrow> bool) \<Rightarrow> (jsstring \<times> jsstring) option" where
  "firstDeclared files paths names declares =
     (if files = [] then None else first_declared (by_directory files) names declares (sort_by byCodePoint paths))"

definition normalizingAttribute :: "(jsstring \<times> bytes) list \<Rightarrow> jsstring list \<Rightarrow> (jsstring \<times> jsstring) option" where
  "normalizingAttribute files paths = firstDeclared files paths NORMALIZING (\<lambda>st. st \<noteq> UNSPECIFIED \<and> st \<noteq> UNSET)"

definition mergeAttribute :: "(jsstring \<times> bytes) list \<Rightarrow> jsstring list \<Rightarrow> (jsstring \<times> jsstring) option" where
  "mergeAttribute files paths = firstDeclared files paths [js ''merge''] (\<lambda>st. st \<noteq> UNSPECIFIED \<and> st \<noteq> SET)"

definition isAttributesPath :: "jsstring \<Rightarrow> bool" where
  "isAttributesPath pa \<longleftrightarrow> pa = js ''.gitattributes'' \<or> ends_with pa (js ''/.gitattributes'')"

section \<open>What a plain pattern means\<close>

definition fits :: "bool \<Rightarrow> nat \<Rightarrow> nat \<Rightarrow> bool" where
  "fits pathname c x \<longleftrightarrow> (if c = 63 then \<not> (pathname \<and> x = 47) else lower True x = lower True c)"

text \<open>A star stands for any characters, or for any but a slash where the pattern is a path.\<close>

fun glob :: "bool \<Rightarrow> jsstring \<Rightarrow> jsstring \<Rightarrow> bool" where
  "glob pathname [] s = (s = [])"
| "glob pathname (c # cs) s =
     (if c = 42 then (\<exists>k\<in>{0..length s}. (pathname \<longrightarrow> 47 \<notin> set (take k s)) \<and> glob pathname cs (drop k s))
      else s \<noteq> [] \<and> fits pathname c (hd s) \<and> glob pathname cs (tl s))"

text \<open>A pattern without escapes and sets; as a path, without two stars in a row.\<close>

definition plain :: "bool \<Rightarrow> jsstring \<Rightarrow> bool" where
  "plain pathname pat \<longleftrightarrow> 91 \<notin> set pat \<and> 92 \<notin> set pat
     \<and> (pathname \<longrightarrow> (\<forall>i<length pat - 1. \<not> (pat ! i = 42 \<and> pat ! Suc i = 42)))"

abbreviation from_at :: "bool \<Rightarrow> jsstring \<Rightarrow> jsstring \<Rightarrow> nat \<Rightarrow> nat \<Rightarrow> bool" where
  "from_at pathname pat s p k \<equiv> glob pathname (drop p pat) (drop k s)"

text \<open>No slash from one position up to another.\<close>

definition segment :: "jsstring \<Rightarrow> nat \<Rightarrow> nat \<Rightarrow> bool" where
  "segment s t k \<longleftrightarrow> t \<le> k \<and> k \<le> length s \<and> (\<forall>i. t \<le> i \<and> i < k \<longrightarrow> s ! i \<noteq> 47)"

lemma segment_trans: "segment s a b \<Longrightarrow> segment s b c \<Longrightarrow> segment s a c"
  unfolding segment_def by (meson le_trans not_le)

lemma segment_stops: "segment s a b \<Longrightarrow> a \<le> k \<Longrightarrow> k < length s \<Longrightarrow> s ! k = 47 \<Longrightarrow> b \<le> k"
  unfolding segment_def by (meson not_le)

lemma segment_later: "segment s a c \<Longrightarrow> a \<le> b \<Longrightarrow> b \<le> c \<Longrightarrow> segment s b c"
  by (simp add: segment_def)

lemma slash_lower [simp]: "lower fld x = 47 \<longleftrightarrow> x = 47"
  by (auto simp: lower_def isUpper_def)

lemma star_lower [simp]: "lower fld c = 42 \<longleftrightarrow> c = 42" "lower fld c = 63 \<longleftrightarrow> c = 63"
  by (auto simp: lower_def isUpper_def)

lemma from_at_end: "length pat \<le> p \<Longrightarrow> k \<le> length s \<Longrightarrow> from_at pn pat s p k \<longleftrightarrow> k = length s"
  by auto

lemma from_at_char:
  assumes "p < length pat" "pat ! p \<noteq> 42"
  shows "from_at pn pat s p k \<longleftrightarrow> k < length s \<and> fits pn (pat ! p) (s ! k) \<and> from_at pn pat s (Suc p) (Suc k)"
  using assms Cons_nth_drop_Suc [of p pat] by (cases "k < length s") (auto simp: hd_drop_conv_nth drop_Suc tl_drop simp flip: Cons_nth_drop_Suc)

lemma segment_take: "k \<le> length s \<Longrightarrow> segment s k (k + j) \<longleftrightarrow> k + j \<le> length s \<and> 47 \<notin> set (take j (drop k s))"
proof -
  assume k: "k \<le> length s"
  have "47 \<in> set (take j (drop k s)) \<longleftrightarrow> (\<exists>i. k \<le> i \<and> i < k + j \<and> s ! i = 47)" if "k + j \<le> length s"
  proof
    assume "47 \<in> set (take j (drop k s))"
    then obtain i where "i < j" "s ! (k + i) = 47" using that by (auto simp: in_set_conv_nth)
    then show "\<exists>i. k \<le> i \<and> i < k + j \<and> s ! i = 47" by (intro exI [of _ "k + i"]) simp
  next
    assume "\<exists>i. k \<le> i \<and> i < k + j \<and> s ! i = 47"
    then obtain i where i: "k \<le> i" "i < k + j" "s ! i = 47" by blast
    then have "take j (drop k s) ! (i - k) = 47" "i - k < length (take j (drop k s))" using that by auto
    then show "47 \<in> set (take j (drop k s))" by (metis nth_mem)
  qed
  then show ?thesis by (auto simp: segment_def)
qed

lemma from_at_star:
  assumes "p < length pat" "pat ! p = 42" "k \<le> length s"
  shows "from_at pn pat s p k \<longleftrightarrow> (\<exists>k'. k \<le> k' \<and> k' \<le> length s \<and> (pn \<longrightarrow> segment s k k') \<and> from_at pn pat s (Suc p) k')"
proof -
  have "from_at pn pat s p k \<longleftrightarrow> (\<exists>j\<le>length s - k. (pn \<longrightarrow> 47 \<notin> set (take j (drop k s))) \<and> from_at pn pat s (Suc p) (k + j))"
    using assms(1,2) by (simp add: add.commute flip: Cons_nth_drop_Suc) (auto simp: atLeastAtMost_iff)
  also have "\<dots> \<longleftrightarrow> (\<exists>j\<le>length s - k. (pn \<longrightarrow> segment s k (k + j)) \<and> from_at pn pat s (Suc p) (k + j))"
    using assms(3) by (auto simp: segment_take)
  also have "\<dots> \<longleftrightarrow> (\<exists>k'. k \<le> k' \<and> k' \<le> length s \<and> (pn \<longrightarrow> segment s k k') \<and> from_at pn pat s (Suc p) k')"
    using assms(3) by (metis (no_types, lifting) add_diff_inverse_nat diff_le_mono le_add1 le_add_diff_inverse nat_add_left_cancel_le)
  finally show ?thesis .
qed

lemma after_stars_bounds:
  assumes "p < length pat" "pat ! p = 42"
  shows "p < after_stars pat p" "after_stars pat p \<le> length pat" "\<forall>i. p \<le> i \<and> i < after_stars pat p \<longrightarrow> pat ! i = 42"
    "after_stars pat p < length pat \<Longrightarrow> pat ! after_stars pat p \<noteq> 42"
proof -
  let ?w = "takeWhile (\<lambda>c. c = 42) (drop (p + 1) pat)"
  have w: "length ?w \<le> length pat - (p + 1)" using length_takeWhile_le [of "\<lambda>c. c = 42" "drop (p + 1) pat"] by simp
  then show "p < after_stars pat p" "after_stars pat p \<le> length pat" using assms(1) by (simp_all add: after_stars_def)
  show "\<forall>i. p \<le> i \<and> i < after_stars pat p \<longrightarrow> pat ! i = 42"
  proof clarify
    fix i assume i: "p \<le> i" "i < after_stars pat p"
    show "pat ! i = 42"
    proof (cases "i = p")
      case False
      with i have j: "i - (p + 1) < length ?w" by (auto simp: after_stars_def)
      then have "?w ! (i - (p + 1)) = 42" using nth_mem set_takeWhileD by fast
      moreover have "?w ! (i - (p + 1)) = drop (p + 1) pat ! (i - (p + 1))" using j by (rule takeWhile_nth)
      moreover have "drop (p + 1) pat ! (i - (p + 1)) = pat ! i" using False i assms(1) by (subst nth_drop) auto
      ultimately show ?thesis by simp
    qed (use assms in simp)
  qed
  assume "after_stars pat p < length pat"
  then have "length ?w < length (drop (p + 1) pat)" by (simp add: after_stars_def)
  from nth_length_takeWhile [OF this] show "pat ! after_stars pat p \<noteq> 42" using assms(1) by (simp add: after_stars_def)
qed

lemma from_at_stars:
  assumes "p < q" "q \<le> length pat" "\<forall>i. p \<le> i \<and> i < q \<longrightarrow> pat ! i = 42" "k \<le> length s"
  shows "from_at pn pat s p k \<longleftrightarrow> (\<exists>k'. k \<le> k' \<and> k' \<le> length s \<and> (pn \<longrightarrow> segment s k k') \<and> from_at pn pat s q k')"
  using assms
proof (induction "q - p" arbitrary: p k)
  case (Suc n)
  have p: "p < length pat" "pat ! p = 42" using Suc.prems by auto
  show ?case
  proof (cases "Suc p = q")
    case True
    then show ?thesis using from_at_star [OF p Suc.prems(4)] by simp
  next
    case False
    then have ih: "from_at pn pat s (Suc p) k' \<longleftrightarrow> (\<exists>k''. k' \<le> k'' \<and> k'' \<le> length s \<and> (pn \<longrightarrow> segment s k' k'') \<and> from_at pn pat s q k'')"
      if "k' \<le> length s" for k' using Suc.hyps(1) [of "Suc p" k'] Suc.hyps(2) Suc.prems that by auto
    show ?thesis unfolding from_at_star [OF p Suc.prems(4)]
    proof (intro iffI; elim exE conjE)
      fix k' assume k': "k \<le> k'" "k' \<le> length s" "pn \<longrightarrow> segment s k k'" "from_at pn pat s (Suc p) k'"
      then obtain k'' where "k' \<le> k''" "k'' \<le> length s" "pn \<longrightarrow> segment s k' k''" "from_at pn pat s q k''" using ih by blast
      with k' segment_trans [of s k k' k''] show "\<exists>k'. k \<le> k' \<and> k' \<le> length s \<and> (pn \<longrightarrow> segment s k k') \<and> from_at pn pat s q k'"
        by (intro exI [of _ k'']) auto
    next
      fix k' assume k': "k \<le> k'" "k' \<le> length s" "pn \<longrightarrow> segment s k k'" "from_at pn pat s q k'"
      have "from_at pn pat s (Suc p) k'" using ih [OF k'(2)] k'(2,4) by (auto simp: segment_def)
      with k' show "\<exists>k'. k \<le> k' \<and> k' \<le> length s \<and> (pn \<longrightarrow> segment s k k') \<and> from_at pn pat s (Suc p) k'" by blast
    qed
  qed
qed simp

section \<open>The matcher decides it\<close>

text \<open>What a verdict says: of the position itself, and, where the matcher gives up, of later ones.\<close>

definition verdict_ok :: "bool \<Rightarrow> jsstring \<Rightarrow> jsstring \<Rightarrow> nat \<Rightarrow> nat \<Rightarrow> wild \<Rightarrow> bool" where
  "verdict_ok pn pat s p t r \<longleftrightarrow>
     r \<noteq> Threw \<and> (r = Match \<longleftrightarrow> from_at pn pat s p t)
     \<and> (r = AbortAll \<longrightarrow> (\<forall>k. t \<le> k \<and> k \<le> length s \<longrightarrow> \<not> from_at pn pat s p k))
     \<and> (r = AbortToStarstar \<longrightarrow> pn \<and> (\<forall>k. segment s t k \<longrightarrow> \<not> from_at pn pat s p k))"

definition star_ok :: "bool \<Rightarrow> jsstring \<Rightarrow> jsstring \<Rightarrow> nat \<Rightarrow> nat \<Rightarrow> wild \<Rightarrow> bool" where
  "star_ok pn pat s q t r \<longleftrightarrow>
     r \<noteq> Threw \<and> (r = Match \<longleftrightarrow> (\<exists>k. t \<le> k \<and> k \<le> length s \<and> (pn \<longrightarrow> segment s t k) \<and> from_at pn pat s q k))
     \<and> (r = AbortAll \<longrightarrow> (\<forall>k. t \<le> k \<and> k \<le> length s \<longrightarrow> \<not> from_at pn pat s q k))
     \<and> (r = AbortToStarstar \<longrightarrow> pn \<and> (\<forall>k. segment s t k \<longrightarrow> \<not> from_at pn pat s q k))"

lemma star_verdict:
  assumes "star_ok pn pat s q t r" "p < q" "q \<le> length pat" "\<forall>i. p \<le> i \<and> i < q \<longrightarrow> pat ! i = 42" "t \<le> length s"
  shows "verdict_ok pn pat s p t r"
proof -
  note f = from_at_stars [OF assms(2-4)]
  have "\<not> from_at pn pat s p k" if n: "\<forall>k. segment s t k \<longrightarrow> \<not> from_at pn pat s q k" and k: "segment s t k" and pn for k
  proof
    assume "from_at pn pat s p k"
    moreover have "k \<le> length s" using k by (simp add: segment_def)
    ultimately obtain k' where "segment s k k'" "from_at pn pat s q k'" using f [of k s pn] \<open>pn\<close> by blast
    with n k segment_trans show False by blast
  qed
  moreover have "\<not> from_at pn pat s p k" if "\<forall>k. t \<le> k \<and> k \<le> length s \<longrightarrow> \<not> from_at pn pat s q k" "t \<le> k" "k \<le> length s" for k
    using that f [of k s pn] by auto
  ultimately show ?thesis using assms(1) f [OF assms(5)] unfolding verdict_ok_def star_ok_def by blast
qed

lemma char_verdict:
  assumes "p < length pat" "pat ! p \<noteq> 42" "t < length s" "fits pn (pat ! p) (s ! t)" "verdict_ok pn pat s (Suc p) (Suc t) r"
  shows "verdict_ok pn pat s p t r"
proof -
  note c = from_at_char [OF assms(1,2)]
  have "\<not> from_at pn pat s p k" if v: "\<forall>k. segment s (Suc t) k \<longrightarrow> \<not> from_at pn pat s (Suc p) k" "segment s t k" "pn" for k
  proof
    assume "from_at pn pat s p k"
    then have k: "k < length s" "fits pn (pat ! p) (s ! k)" "from_at pn pat s (Suc p) (Suc k)" unfolding c by auto
    have "s ! k \<noteq> 47 \<or> k = t"
    proof (rule ccontr)
      assume n: "\<not> ?thesis"
      then have "t < k" "s ! k = 47" using v(2) by (auto simp: segment_def)
      moreover have "pat ! p = 47" using k(2) n v(3) by (auto simp: fits_def lower_def isUpper_def split: if_splits)
      then have "s ! t = 47" using assms(4) by (simp add: fits_def lower_def isUpper_def split: if_splits)
      ultimately show False using v(2) by (auto simp: segment_def)
    qed
    then have "segment s (Suc t) (Suc k)" using v(2) k(1) by (auto simp: segment_def less_Suc_eq)
    with v(1) k(3) show False by blast
  qed
  moreover have "\<not> from_at pn pat s p k" if "\<forall>k. Suc t \<le> k \<and> k \<le> length s \<longrightarrow> \<not> from_at pn pat s (Suc p) k" "t \<le> k" "k \<le> length s" for k
    using that unfolding c by auto
  ultimately show ?thesis using assms(3,4,5) c unfolding verdict_ok_def by blast
qed

lemma literal_at_facts:
  assumes "t \<le> length s" "t1 = literal_at fld ms c s t"
  shows "t \<le> t1" "t1 \<le> length s" "\<forall>i. t \<le> i \<and> i < t1 \<longrightarrow> (ms \<or> s ! i \<noteq> 47) \<and> lower fld (s ! i) \<noteq> c"
    "t1 < length s \<Longrightarrow> (\<not> ms \<and> s ! t1 = 47) \<or> lower fld (s ! t1) = c"
proof -
  let ?P = "\<lambda>x. \<not> (\<not> ms \<and> lower fld x = 47) \<and> lower fld x \<noteq> c"
  let ?w = "takeWhile ?P (drop t s)"
  have t1: "t1 = t + length ?w" using assms(2) by (simp add: literal_at_def)
  show "t \<le> t1" "t1 \<le> length s" using t1 assms(1) length_takeWhile_le [of ?P "drop t s"] by simp_all
  show "\<forall>i. t \<le> i \<and> i < t1 \<longrightarrow> (ms \<or> s ! i \<noteq> 47) \<and> lower fld (s ! i) \<noteq> c"
  proof clarify
    fix i assume i: "t \<le> i" "i < t1"
    then have j: "i - t < length ?w" using t1 by simp
    then have "?P (?w ! (i - t))" using nth_mem set_takeWhileD by fast
    moreover have "?w ! (i - t) = drop t s ! (i - t)" using j by (rule takeWhile_nth)
    moreover have "drop t s ! (i - t) = s ! i" using i(1) assms(1) by (subst nth_drop) auto
    ultimately show "(ms \<or> s ! i \<noteq> 47) \<and> lower fld (s ! i) \<noteq> c" by simp
  qed
  assume "t1 < length s"
  then have "length ?w < length (drop t s)" using t1 by simp
  from nth_length_takeWhile [OF this] show "(\<not> ms \<and> s ! t1 = 47) \<or> lower fld (s ! t1) = c" using t1 assms(1) by simp
qed

text \<open>Where a literal starts the rest, no position before the one found can match.\<close>

lemma star_from:
  assumes "verdict_ok pn pat s q t1 r" "segment s t t1 \<or> \<not> pn" "t \<le> t1" "t1 < length s"
    and "\<forall>i. t \<le> i \<and> i < t1 \<longrightarrow> \<not> from_at pn pat s q i"
    and "r \<noteq> NoMatch"
  shows "star_ok pn pat s q t r"
proof -
  have m: "r = Match \<Longrightarrow> from_at pn pat s q t1" "r = AbortAll \<Longrightarrow> \<forall>k. t1 \<le> k \<and> k \<le> length s \<longrightarrow> \<not> from_at pn pat s q k"
    "r = AbortToStarstar \<Longrightarrow> pn \<and> (\<forall>k. segment s t1 k \<longrightarrow> \<not> from_at pn pat s q k)" "r \<noteq> Threw"
    using assms(1) unfolding verdict_ok_def by blast+
  have early: "\<not> from_at pn pat s q k" if "t \<le> k" "k < t1" for k using assms(5) that by blast
  show ?thesis
  proof (cases r)
    case Match
    then have "\<exists>k. t \<le> k \<and> k \<le> length s \<and> (pn \<longrightarrow> segment s t k) \<and> from_at pn pat s q k"
      using m(1) assms(2-4) by (intro exI [of _ t1]) auto
    with Match show ?thesis by (simp add: star_ok_def)
  next
    case AbortAll
    have "\<not> from_at pn pat s q k" if "t \<le> k" "k \<le> length s" for k
    proof (cases "k < t1")
      case False
      then show ?thesis using m(2) [OF AbortAll] that by simp
    qed (rule early [OF that(1)])
    with AbortAll show ?thesis by (auto simp: star_ok_def)
  next
    case AbortToStarstar
    note a = m(3) [OF this]
    have n: "\<not> from_at pn pat s q k" if "segment s t k" for k
    proof (cases "k < t1")
      case True
      then show ?thesis using early that by (simp add: segment_def)
    next
      case False
      then have "segment s t1 k" using segment_later [OF that assms(3)] by simp
      with a show ?thesis by blast
    qed
    with AbortToStarstar a show ?thesis by (auto simp: star_ok_def)
  qed (use assms(6) m(4) in simp_all)
qed

lemma star_past:
  assumes "star_ok pn pat s q (Suc t1) r" "segment s t t1 \<or> \<not> pn" "t \<le> t1" "t1 < length s" "pn \<longrightarrow> s ! t1 \<noteq> 47"
    and "\<forall>i. t \<le> i \<and> i \<le> t1 \<longrightarrow> \<not> from_at pn pat s q i"
  shows "star_ok pn pat s q t r"
proof -
  have s: "segment s (Suc t1) k \<longleftrightarrow> segment s t k" if "t1 < k" pn for k
  proof
    have "segment s t1 (Suc t1)" using assms(4,5) that(2) by (auto simp: segment_def less_Suc_eq)
    then have "segment s t (Suc t1)" using assms(2) that(2) segment_trans by blast
    then show "segment s (Suc t1) k \<Longrightarrow> segment s t k" by (rule segment_trans)
    show "segment s t k \<Longrightarrow> segment s (Suc t1) k" using that(1) assms(3) by (auto intro: segment_later)
  qed
  have l: "t1 < k" if "from_at pn pat s q k" "t \<le> k" for k
  proof (rule ccontr)
    assume "\<not> t1 < k"
    then have "k \<le> t1" by simp
    with assms(6) that show False by blast
  qed
  have ex: "(\<exists>k. Suc t1 \<le> k \<and> k \<le> length s \<and> (pn \<longrightarrow> segment s (Suc t1) k) \<and> from_at pn pat s q k)
      \<longleftrightarrow> (\<exists>k. t \<le> k \<and> k \<le> length s \<and> (pn \<longrightarrow> segment s t k) \<and> from_at pn pat s q k)"
  proof (intro iffI; elim exE conjE)
    fix k assume k: "Suc t1 \<le> k" "k \<le> length s" "pn \<longrightarrow> segment s (Suc t1) k" "from_at pn pat s q k"
    then show "\<exists>k. t \<le> k \<and> k \<le> length s \<and> (pn \<longrightarrow> segment s t k) \<and> from_at pn pat s q k"
      using s [of k] assms(3) by (intro exI [of _ k]) auto
  next
    fix k assume k: "t \<le> k" "k \<le> length s" "pn \<longrightarrow> segment s t k" "from_at pn pat s q k"
    then show "\<exists>k. Suc t1 \<le> k \<and> k \<le> length s \<and> (pn \<longrightarrow> segment s (Suc t1) k) \<and> from_at pn pat s q k"
      using s [of k] l [of k] by (intro exI [of _ k]) auto
  qed
  have all: "\<not> from_at pn pat s q k" if n: "\<forall>k. Suc t1 \<le> k \<and> k \<le> length s \<longrightarrow> \<not> from_at pn pat s q k" and "t \<le> k" "k \<le> length s" for k
  proof
    assume "from_at pn pat s q k"
    with l that(2) have "Suc t1 \<le> k" by fastforce
    with n that(3) \<open>from_at pn pat s q k\<close> show False by blast
  qed
  have seg: "\<not> from_at pn pat s q k" if n: "\<forall>k. segment s (Suc t1) k \<longrightarrow> \<not> from_at pn pat s q k" and pn and k: "segment s t k" for k
  proof
    assume f: "from_at pn pat s q k"
    with l k have "t1 < k" by (simp add: segment_def)
    with s [OF this \<open>pn\<close>] n k f show False by blast
  qed
  from assms(1) all seg show ?thesis unfolding star_ok_def ex by blast
qed

lemma scan_ok:
  assumes "q < length pat" "pat ! q \<noteq> 42" "pat ! q \<noteq> 91" "pat ! q \<noteq> 92" "pn \<longrightarrow> pat ! q \<noteq> 47"
    and "\<And>t. t \<le> length s \<Longrightarrow> verdict_ok pn pat s q t (wild_loop True pn pat s q q t)"
    and "t \<le> length s"
  shows "star_ok pn pat s q t (star_scan True pn pat s (\<not> pn) q t)"
  using assms(7)
proof (induction "length s - t" arbitrary: t rule: less_induct)
  case less
  note c = from_at_char [OF assms(1,2)]
  show ?case
  proof (cases "t < length s")
    case False
    then have "star_scan True pn pat s (\<not> pn) q t = AbortAll" by (simp add: star_scan.simps)
    moreover have "\<not> from_at pn pat s q k" if "t \<le> k" for k unfolding c using that False by simp
    ultimately show ?thesis unfolding star_ok_def by auto
  next
    case True
    define lit where "lit = (\<not> isGlobSpecial (pat ! q))"
    define l where "l = lower True (pat ! q)"
    define t1 where "t1 = (if lit then literal_at True (\<not> pn) l s t else t)"
    have lit63: "lit \<longleftrightarrow> pat ! q \<noteq> 63" using assms(2-4) by (simp add: lit_def isGlobSpecial_def)
    have b: "t \<le> t1" "t1 \<le> length s" "\<forall>i. t \<le> i \<and> i < t1 \<longrightarrow> (\<not> pn \<or> s ! i \<noteq> 47) \<and> (lit \<longrightarrow> lower True (s ! i) \<noteq> l)"
      using literal_at_facts(1-3) [OF less.prems, of t1 True "\<not> pn" l] less.prems by (auto simp: t1_def)
    then have seg: "segment s t t1 \<or> \<not> pn" by (auto simp: segment_def)
    have before: "\<not> from_at pn pat s q i" if "t \<le> i" "i < t1" for i
    proof (cases lit)
      case True
      then show ?thesis using b(3) that lit63 unfolding c by (auto simp: fits_def l_def)
    next
      case False
      then show ?thesis using that by (simp add: t1_def)
    qed
    have unf: "star_scan True pn pat s (\<not> pn) q t =
       (if lit \<and> map_option (lower True) (char_at s t1) \<noteq> Some l then (if \<not> pn then AbortAll else AbortToStarstar)
        else (case wild_loop True pn pat s q q t1 of
              NoMatch \<Rightarrow>
                if pn \<and> map_option (lower True) (char_at s t1) = Some 47 then AbortToStarstar
                else star_scan True pn pat s (\<not> pn) q (t1 + 1)
            | AbortToStarstar \<Rightarrow> if pn then AbortToStarstar else star_scan True pn pat s (\<not> pn) q (t1 + 1)
            | r \<Rightarrow> r))"
      unfolding star_scan.simps [of True pn pat s "\<not> pn" q t] Let_def lit_def [symmetric] l_def [symmetric] t1_def [symmetric]
      using True by (simp only: not_le [symmetric] not_not if_False simp_thms)
    show ?thesis
    proof (cases "lit \<and> map_option (lower True) (char_at s t1) \<noteq> Some l")
      case True
      then have stop: "t1 = length s \<or> (pn \<and> s ! t1 = 47)"
        using literal_at_facts(4) [OF less.prems, of t1 True "\<not> pn" l] b(2) by (auto simp: t1_def char_at_def split: if_splits)
      have at: "\<not> from_at pn pat s q t1" using True lit63 unfolding c by (auto simp: char_at_def fits_def l_def)
      have "\<not> from_at pn pat s q k" if "t \<le> k" "k \<le> length s" "t1 = length s \<or> segment s t k" for k
      proof -
        have "k \<le> t1" using stop that segment_stops [of s t k t1] b(1,2) by (auto simp: le_less)
        then show ?thesis using before at that(1) by (cases "k = t1") auto
      qed
      then have none: "\<forall>k. segment s t k \<longrightarrow> \<not> from_at pn pat s q k"
        "\<not> pn \<longrightarrow> (\<forall>k. t \<le> k \<and> k \<le> length s \<longrightarrow> \<not> from_at pn pat s q k)" using stop by (auto simp: segment_def)
      have "star_scan True pn pat s (\<not> pn) q t = (if pn then AbortToStarstar else AbortAll)" using True unfolding unf by simp
      with none show ?thesis unfolding star_ok_def by auto
    next
      case False
      then have in_s: "t1 < length s" using \<open>t < length s\<close> by (cases lit) (auto simp: t1_def char_at_def split: if_splits)
      let ?r = "wild_loop True pn pat s q q t1"
      note v = assms(6) [OF b(2)]
      have go: "star_ok pn pat s q t (star_scan True pn pat s (\<not> pn) q (t1 + 1))" if "?r = NoMatch" "\<not> (pn \<and> s ! t1 = 47)"
      proof (rule star_past [OF _ seg b(1) in_s])
        show "star_ok pn pat s q (Suc t1) (star_scan True pn pat s (\<not> pn) q (t1 + 1))"
          using less.hyps [of "Suc t1"] in_s b(1) by simp
        have "\<not> from_at pn pat s q t1" using v that(1) unfolding verdict_ok_def by auto
        then show "\<forall>i. t \<le> i \<and> i \<le> t1 \<longrightarrow> \<not> from_at pn pat s q i" using before by (auto simp: le_less)
      qed (use that in simp)
      have ends: "star_ok pn pat s q t ?r" if "?r \<noteq> NoMatch"
        by (rule star_from [OF v seg b(1) in_s _ that]) (use before in blast)
      show ?thesis
      proof (cases ?r)
        case NoMatch
        show ?thesis
        proof (cases "pn \<and> s ! t1 = 47")
          case True
          have "\<not> from_at pn pat s q k" if "segment s t k" for k
          proof -
            have "k \<le> t1" using that True segment_stops b(1) in_s by blast
            then show ?thesis using before that v NoMatch by (cases "k = t1") (auto simp: verdict_ok_def segment_def)
          qed
          then show ?thesis using True NoMatch False in_s unfolding unf star_ok_def by (auto simp: char_at_def segment_def)
        next
          case n: False
          then show ?thesis using go [OF NoMatch n] False NoMatch in_s unfolding unf by (auto simp: char_at_def)
        qed
      next
        case AbortToStarstar
        then have pn using v by (simp add: verdict_ok_def)
        then show ?thesis using ends AbortToStarstar False unfolding unf by auto
      qed (use ends False in \<open>auto simp: unf\<close>)
    qed
  qed
qed

lemma special_lower [simp]: "lower True c = 91 \<longleftrightarrow> c = 91" "lower True c = 92 \<longleftrightarrow> c = 92"
  by (auto simp: lower_def isUpper_def)

lemma wild_end: "length pat \<le> p \<Longrightarrow> wild_loop True pn pat s start p t = (if t < length s then NoMatch else Match)"
  by (simp add: wild_loop.simps [of True pn pat s start p t] char_at_def)

lemma wild_short: "p < length pat \<Longrightarrow> pat ! p \<noteq> 42 \<Longrightarrow> length s \<le> t \<Longrightarrow> wild_loop True pn pat s start p t = AbortAll"
  by (simp add: wild_loop.simps [of True pn pat s start p t] char_at_def)

lemma wild_char:
  "p < length pat \<Longrightarrow> pat ! p \<notin> {42, 91, 92} \<Longrightarrow> t < length s \<Longrightarrow>
    wild_loop True pn pat s start p t = (if fits pn (pat ! p) (s ! t) then wild_loop True pn pat s start (Suc p) (Suc t) else NoMatch)"
  by (simp add: wild_loop.simps [of True pn pat s start p t] char_at_def fits_def)

lemma wild_star:
  assumes "p < length pat" "pat ! p = 42" "pn \<Longrightarrow> char_at pat (Suc p) \<noteq> Some 42"
  shows "wild_loop True pn pat s start p t =
    (let q = after_stars pat p in
     if length pat \<le> q then (if pn \<and> indexOf 47 t s \<noteq> None then AbortToStarstar else Match)
     else if pn \<and> pat ! q = 47 then
       (case indexOf 47 t s of None \<Rightarrow> AbortAll | Some k \<Rightarrow> wild_loop True pn pat s start (Suc q) (Suc k))
     else star_scan True pn pat s (\<not> pn) q t)"
proof -
  have c: "char_at pat p = Some 42" "lower True 42 = 42" using assms(1,2) by (simp_all add: char_at_def)
  show ?thesis
  proof (cases pn)
    case True
    with assms(3) have "char_at pat (Suc p) \<noteq> Some 42" by simp
    with True c show ?thesis by (simp add: wild_loop.simps [of True True pat s start p t] Let_def split: option.split)
  next
    case False
    with c show ?thesis by (simp add: wild_loop.simps [of True False pat s start p t] Let_def)
  qed
qed

lemma first_slash:
  assumes "indexOf 47 t s = Some k" shows "t \<le> k" "k < length s" "s ! k = 47" "segment s t k"
proof -
  show b: "t \<le> k" "k < length s" using indexOf_bounds [OF assms] by auto
  have i: "index_in c xs = Some j \<Longrightarrow> j < length xs \<and> xs ! j = c \<and> (\<forall>i<j. xs ! i \<noteq> c)" for c j and xs :: jsstring
  proof (induction xs arbitrary: j)
    case (Cons x xs)
    then show ?case by (cases j) (auto simp: less_Suc_eq_0_disj split: if_splits)
  qed simp
  from assms b(1) have "index_in 47 (drop t s) = Some (k - t)" by (auto simp: indexOf_def)
  note j = i [OF this]
  with b show "s ! k = 47" by auto
  have "s ! x \<noteq> 47" if "t \<le> x" "x < k" for x
  proof -
    have "x - t < k - t" using that by simp
    with j have "drop t s ! (x - t) \<noteq> 47" by blast
    then show ?thesis using that b by simp
  qed
  with b show "segment s t k" by (auto simp: segment_def)
qed

lemma no_slash: "indexOf 47 t s = None \<Longrightarrow> t \<le> k \<Longrightarrow> k < length s \<Longrightarrow> s ! k \<noteq> 47"
proof -
  have i: "index_in c xs = None \<Longrightarrow> c \<notin> set xs" for c and xs :: jsstring
    by (induction xs) (auto split: if_splits)
  assume "indexOf 47 t s = None" "t \<le> k" "k < length s"
  then have "47 \<notin> set (drop t s)" using i by (simp add: indexOf_def)
  moreover have "drop t s ! (k - t) \<in> set (drop t s)" using \<open>t \<le> k\<close> \<open>k < length s\<close> by (intro nth_mem) simp
  ultimately show ?thesis using \<open>t \<le> k\<close> \<open>k < length s\<close> by auto
qed

text \<open>A star before a slash: only the next slash can follow it.\<close>

lemma slash_ok:
  assumes "q < length pat" "pat ! q = 47" "t \<le> length s"
    and "\<And>k. indexOf 47 t s = Some k \<Longrightarrow> verdict_ok True pat s (Suc q) (Suc k) (r k)"
  shows "star_ok True pat s q t (case indexOf 47 t s of None \<Rightarrow> AbortAll | Some k \<Rightarrow> r k)"
proof -
  have c: "from_at True pat s q k \<longleftrightarrow> k < length s \<and> s ! k = 47 \<and> from_at True pat s (Suc q) (Suc k)" for k
    using assms(1,2) by (subst from_at_char) (auto simp: fits_def lower_def isUpper_def)
  show ?thesis
  proof (cases "indexOf 47 t s")
    case None
    then have "\<not> from_at True pat s q k" if "t \<le> k" for k unfolding c using no_slash [OF None that] by auto
    then show ?thesis using None unfolding star_ok_def by auto
  next
    case (Some k0)
    note f = first_slash [OF Some]
    have at: "segment s t k \<and> from_at True pat s q k \<longleftrightarrow> k = k0 \<and> from_at True pat s (Suc q) (Suc k0)" for k
    proof
      assume k: "segment s t k \<and> from_at True pat s q k"
      then have "k \<le> k0" using segment_stops f(1-3) by blast
      moreover have "k0 \<le> k" using k segment_stops [OF f(4), of k] unfolding c by (auto simp: segment_def)
      ultimately show "k = k0 \<and> from_at True pat s (Suc q) (Suc k0)" using k unfolding c by auto
    next
      assume "k = k0 \<and> from_at True pat s (Suc q) (Suc k0)"
      then show "segment s t k \<and> from_at True pat s q k" using f unfolding c by auto
    qed
    note v = assms(4) [OF Some]
    have later: "\<not> from_at True pat s q k" if "\<forall>k. Suc k0 \<le> k \<and> k \<le> length s \<longrightarrow> \<not> from_at True pat s (Suc q) k" "t \<le> k" "k \<le> length s" for k
    proof
      assume "from_at True pat s q k"
      then have k: "k < length s" "s ! k = 47" "from_at True pat s (Suc q) (Suc k)" unfolding c by auto
      have "k0 \<le> k" using segment_stops [OF f(4) that(2) k(1,2)] .
      with that(1) k(1,3) show False by auto
    qed
    have here: "\<not> from_at True pat s q k" if "\<forall>k. segment s (Suc k0) k \<longrightarrow> \<not> from_at True pat s (Suc q) k" "segment s t k" for k
    proof -
      have "segment s (Suc k0) (Suc k0)" using f(2) by (simp add: segment_def)
      with that(1) at that(2) show ?thesis by blast
    qed
    have m: "(\<exists>k. t \<le> k \<and> k \<le> length s \<and> segment s t k \<and> from_at True pat s q k) \<longleftrightarrow> from_at True pat s (Suc q) (Suc k0)"
      using at by (auto simp: segment_def)
    from v later here m Some show ?thesis unfolding star_ok_def verdict_ok_def by (cases "r k0") auto
  qed
qed

lemma loop_ok:
  assumes "plain pn pat" "t \<le> length s" "p \<le> length pat"
  shows "verdict_ok pn pat s p t (wild_loop True pn pat s start p t)"
  using assms(2,3)
proof (induction "length pat - p" arbitrary: p t start rule: less_induct)
  case less
  show ?case
  proof (cases "p < length pat")
    case False
    then show ?thesis using from_at_end [of pat p] less.prems by (auto simp: wild_end verdict_ok_def)
  next
    case p: True
    have no: "pat ! i \<notin> {91, 92}" if "i < length pat" for i using assms(1) nth_mem [OF that] unfolding plain_def by force
    show ?thesis
    proof (cases "pat ! p = 42")
      case False
      show ?thesis
      proof (cases "t < length s")
        case t: True
        note w = wild_char [OF p _ t, of pn start]
        show ?thesis
        proof (cases "fits pn (pat ! p) (s ! t)")
          case True
          have "verdict_ok pn pat s (Suc p) (Suc t) (wild_loop True pn pat s start (Suc p) (Suc t))"
            using less.hyps [of "Suc p" "Suc t" start] p t by simp
          with char_verdict [OF p False t True] w no [OF p] False True show ?thesis by simp
        next
          case f: False
          then show ?thesis using w no [OF p] False from_at_char [OF p False] by (simp add: verdict_ok_def)
        qed
      next
        case t: False
        have "\<not> from_at pn pat s p k" if "t \<le> k" for k unfolding from_at_char [OF p False] using that t by simp
        then show ?thesis using wild_short [OF p False, of s t pn start] t unfolding verdict_ok_def by auto
      qed
    next
      case star: True
      define q where "q = after_stars pat p"
      note q = after_stars_bounds [OF p star, folded q_def]
      have one: "pn \<Longrightarrow> char_at pat (Suc p) \<noteq> Some 42" using assms(1) star by (auto simp: plain_def char_at_def less_diff_conv)
      note w = wild_star [OF p star one, where s = s and start = start and t = t, folded q_def, unfolded Let_def]
      show ?thesis
      proof (rule star_verdict [OF _ q(1-3) less.prems(1)])
        show "star_ok pn pat s q t (wild_loop True pn pat s start p t)"
        proof (cases "q < length pat")
          case False
          then have e: "from_at pn pat s q k \<longleftrightarrow> k = length s" if "k \<le> length s" for k using that by auto
          show ?thesis
          proof (cases "pn \<and> indexOf 47 t s \<noteq> None")
            case True
            then obtain k0 where f: "indexOf 47 t s = Some k0" by auto
            have "\<not> segment s t (length s)" using segment_stops first_slash [OF f] by (metis not_le)
            then show ?thesis using True False f e w unfolding star_ok_def by (auto simp: segment_def)
          next
            case n: False
            have "pn \<longrightarrow> segment s t (length s)" using n no_slash less.prems(1) by (auto simp: segment_def)
            then show ?thesis using n False e w less.prems(1) unfolding star_ok_def by auto
          qed
        next
          case lq: True
          show ?thesis
          proof (cases "pn \<and> pat ! q = 47")
            case True
            define r where "r = (\<lambda>k. wild_loop True True pat s start (Suc q) (Suc k))"
            have "verdict_ok True pat s (Suc q) (Suc k) (r k)" if "indexOf 47 t s = Some k" for k
              using less.hyps [of "Suc q" "Suc k" start] lq q(1) first_slash(2) [OF that] True unfolding r_def by auto
            from slash_ok [OF lq _ less.prems(1) this] True have "star_ok True pat s q t (case indexOf 47 t s of None \<Rightarrow> AbortAll | Some k \<Rightarrow> r k)" by simp
            then show ?thesis using True lq w unfolding r_def by simp
          next
            case False
            then have "wild_loop True pn pat s start p t = star_scan True pn pat s (\<not> pn) q t" using w lq by auto
            moreover have "verdict_ok pn pat s q t' (wild_loop True pn pat s q q t')" if "t' \<le> length s" for t'
              using less.hyps [of q t' q] lq q(1) that by simp
            ultimately show ?thesis using scan_ok [OF lq, of pn s t] q(4) no [OF lq] lq False less.prems(1) by auto
          qed
        qed
      qed
    qed
  qed
qed

lemma plain_wildmatch: "plain pathname pat \<Longrightarrow> wildmatch pat s pathname \<longleftrightarrow> glob pathname pat s"
  using loop_ok [of pathname pat 0 s 0 0] by (auto simp: wildmatch_def verdict_ok_def split: wild.split)

section \<open>The first path that declares an attribute\<close>

lemma byCodePoint_eq: "byCodePoint = compareText"
  by (intro ext) (rule byCodePoint_def)

definition declared_at :: "(jsstring \<times> attr_line list) list \<Rightarrow> (jsstring \<Rightarrow> bool) \<Rightarrow> jsstring \<Rightarrow> jsstring \<Rightarrow> bool" where
  "declared_at dirs declares pa name \<longleftrightarrow> declares (state_of (path_states dirs (path_bytes pa)) name)"

lemma first_declared_spec:
  "sorted_wrt (\<lambda>a b. byCodePoint a b \<le> 0) ps \<Longrightarrow>
    (case first_declared dirs names declares ps of
       None \<Rightarrow> \<forall>q\<in>set ps. \<forall>n\<in>set names. \<not> declared_at dirs declares q n
     | Some (q, a) \<Rightarrow> q \<in> set ps
         \<and> (\<exists>n\<in>set names. declared_at dirs declares q n \<and> a = attribute_text n (state_of (path_states dirs (path_bytes q)) n))
         \<and> (\<forall>r\<in>set ps. 0 < byCodePoint q r \<longrightarrow> (\<forall>n\<in>set names. \<not> declared_at dirs declares r n)))"
proof (induction ps)
  case (Cons q ps)
  have after: "byCodePoint q r \<le> 0" if "r \<in> set ps" for r using Cons.prems that by auto
  let ?states = "path_states dirs (path_bytes q)"
  show ?case
  proof (cases "find (\<lambda>name. declares (state_of ?states name)) names")
    case None
    then have n: "\<forall>n\<in>set names. \<not> declared_at dirs declares q n" by (auto simp: find_None_iff declared_at_def)
    with Cons None show ?thesis
      by (cases "first_declared dirs names declares ps") (auto simp: Let_def)
  next
    case (Some n)
    then have "n \<in> set names" "declared_at dirs declares q n" by (auto simp: find_Some_iff declared_at_def)
    moreover have "byCodePoint q q \<le> 0" by (simp add: byCodePoint_def compareText_def)
    ultimately show ?thesis using Some after by (fastforce simp: Let_def)
  qed
qed simp

text \<open>Without macros, what is found first stays.\<close>

definition no_macro_set :: "macros \<Rightarrow> assignment list \<Rightarrow> bool" where
  "no_macro_set macros as \<longleftrightarrow> (\<forall>a\<in>set as. attr_state a = SET \<longrightarrow> map_of macros (attr_name a) = None)"

definition found :: "assignment list \<Rightarrow> (jsstring \<rightharpoonup> jsstring)" where
  "found as = map_of (map (\<lambda>a. (attr_name a, attr_state a)) as)"

lemma fill_first: "no_macro_set macros work \<Longrightarrow> fill macros states work = found work ++ states"
proof (induction work arbitrary: states)
  case (Cons a work)
  then have m: "attr_state a = SET \<longrightarrow> map_of macros (attr_name a) = None" and rest: "no_macro_set macros work"
    by (auto simp: no_macro_set_def)
  show ?case
  proof (cases "states (attr_name a)")
    case None
    have "fill macros states (a # work) = fill macros (states(attr_name a \<mapsto> attr_state a)) work"
      unfolding fill.simps Let_def using None m by (simp split: option.split)
    also have "\<dots> = found work ++ states(attr_name a \<mapsto> attr_state a)" by (rule Cons.IH [OF rest])
    also have "\<dots> = found (a # work) ++ states"
      using None by (intro ext) (simp add: found_def map_add_def split: option.split)
    finally show ?thesis .
  next
    case (Some x)
    then have "fill macros states (a # work) = fill macros states work" by simp
    also have "\<dots> = found work ++ states" by (rule Cons.IH [OF rest])
    also have "\<dots> = found (a # work) ++ states"
      using Some by (intro ext) (simp add: found_def map_add_def split: option.split)
    finally show ?thesis .
  qed
qed (simp add: found_def)

lemma found_append: "found (xs @ ys) = found ys ++ found xs"
  by (simp add: found_def)

lemma fill_all:
  "\<forall>d\<in>set ds. no_macro_set macros (g d) \<Longrightarrow>
    foldl (\<lambda>st d. fill macros st (g d)) states ds = found (concat (map g ds)) ++ states"
proof (induction ds arbitrary: states)
  case (Cons d ds)
  then show ?case by (simp add: fill_first found_append)
qed (simp add: found_def)

text \<open>The assignments that reach a path, in the order of their precedence: the nearest directory's first.\<close>

definition reaching :: "(jsstring \<times> attr_line list) list \<Rightarrow> jsstring \<Rightarrow> assignment list" where
  "reaching dirs target =
     (let parts = segments target in
      concat (map (\<lambda>depth. directory_lines dirs (join_with [47] (take depth parts)) target) (rev [0..<length parts])))"

definition root_macros :: "(jsstring \<times> attr_line list) list \<Rightarrow> macros" where
  "root_macros dirs = macros_of (case map_of dirs [] of None \<Rightarrow> [] | Some ls \<Rightarrow> ls)"

lemma path_states_found:
  assumes "no_macro_set (root_macros dirs) (reaching dirs target)"
  shows "path_states dirs target = found (reaching dirs target)"
proof -
  have "\<forall>d\<in>set (rev [0..<length (segments target)]).
      no_macro_set (root_macros dirs) (directory_lines dirs (join_with [47] (take d (segments target))) target)"
    using assms unfolding no_macro_set_def reaching_def Let_def by auto
  from fill_all [OF this, of Map.empty] show ?thesis
    by (simp add: path_states_def reaching_def root_macros_def Let_def)
qed

lemma no_files_no_states: "path_states [] target = Map.empty"
proof -
  have "reaching [] target = []" by (simp add: reaching_def directory_lines_def Let_def)
  then show ?thesis using path_states_found [of "[]" target] by (simp add: no_macro_set_def found_def)
qed

lemma firstDeclared_spec:
  assumes "\<not> declares UNSPECIFIED"
  shows "case firstDeclared files paths names declares of
       None \<Rightarrow> \<forall>q\<in>set paths. \<forall>n\<in>set names. \<not> declared_at (by_directory files) declares q n
     | Some (q, a) \<Rightarrow> q \<in> set paths
         \<and> (\<exists>n\<in>set names. declared_at (by_directory files) declares q n
             \<and> a = attribute_text n (state_of (path_states (by_directory files) (path_bytes q)) n))
         \<and> (\<forall>r\<in>set paths. 0 < byCodePoint q r \<longrightarrow> (\<forall>n\<in>set names. \<not> declared_at (by_directory files) declares r n))"
proof (cases "files = []")
  case True
  then show ?thesis using assms
    by (simp add: firstDeclared_def by_directory_def declared_at_def no_files_no_states state_of_def)
next
  case False
  have "sorted_wrt (\<lambda>a b. byCodePoint a b \<le> 0) (sort_by byCodePoint paths)"
    unfolding byCodePoint_eq by (rule sorted_sort_by [OF compareText_consistent])
  from first_declared_spec [OF this, where dirs = "by_directory files" and names = names and declares = declares] False show ?thesis
    by (simp add: firstDeclared_def split: option.splits prod.splits)
qed

lemma to_scalars_ascii: "\<forall>c\<in>set s. c < 128 \<Longrightarrow> to_scalars s = s"
  by (induction s rule: to_scalars.induct) (auto simp: high_surrogate_def low_surrogate_def)

lemma binary_ascii: "\<forall>c\<in>set s. c < 128 \<Longrightarrow> binary (text_encode s) = s"
proof -
  assume a: "\<forall>c\<in>set s. c < 128"
  then have "concat (map utf8_of s) = s" by (induction s) (auto simp: utf8_of_def)
  moreover have "map (\<lambda>c. unat (word_of_nat c :: 8 word)) s = s"
    using a by (intro map_idI) (auto simp: unat_of_nat take_bit_nat_eq_self)
  ultimately show ?thesis
    using a by (simp add: binary_def text_encode_def to_scalars_ascii comp_def)
qed

lemma parseFile_text: "binary bs = s \<Longrightarrow> 0 \<notin> set s \<Longrightarrow> parseFile bs macrosAllowed = parse_text s macrosAllowed"
  proof -
  assume "binary bs = s" "0 \<notin> set s"
  moreover from this have "takeWhile (\<lambda>c. c \<noteq> 0) s = s" unfolding takeWhile_eq_all_conv by metis
  ultimately show ?thesis unfolding parseFile_def by metis
qed

lemma fits_letters:
  "fits pathname c x \<longleftrightarrow>
   (if c = 63 then \<not> (pathname \<and> x = 47)
    else x = c \<or> 65 \<le> x \<and> x \<le> 90 \<and> c = x + 32 \<or> 65 \<le> c \<and> c \<le> 90 \<and> x = c + 32)"
  by (auto simp: fits_def lower_def isUpper_def)

section \<open>Every assignment that reaches a path\<close>

text \<open>
  \<open>assigned_at\<close>: the attribute file \<open>d\<close> directories down has at its line \<open>i\<close>, which selects the path and
  defines no macro, the assignment \<open>j\<close>, of the state \<open>st\<close> to the attribute \<open>n\<close>. It says nothing of precedence.
\<close>

definition assigned_at ::
    "(jsstring \<times> attr_line list) list \<Rightarrow> jsstring \<Rightarrow> jsstring \<Rightarrow> nat \<Rightarrow> nat \<Rightarrow> nat \<Rightarrow> jsstring \<Rightarrow> bool" where
  "assigned_at dirs target n d i j st \<longleftrightarrow>
     d < length (segments target) \<and>
     (let directory = join_with [47] (take d (segments target)) in
      case map_of dirs directory of
        None \<Rightarrow> False
      | Some ls \<Rightarrow> i < length ls \<and> attr_macro (ls ! i) = None \<and> selects (ls ! i) directory target
          \<and> j < length (assignments (ls ! i)) \<and> assignments (ls ! i) ! j = \<lparr>attr_name = n, attr_state = st\<rparr>)"

lemma found_iff_member: "found as n \<noteq> None \<longleftrightarrow> (\<exists>a\<in>set as. attr_name a = n)"
  by (force simp: found_def map_of_eq_None_iff)

lemma found_concat_None: "found (concat xss) n = None \<longleftrightarrow> (\<forall>xs\<in>set xss. found xs n = None)"
  by (induction xss) (simp_all add: found_append map_add_None, simp add: found_def)

text \<open>The lists come last first: the last that has the name decides.\<close>

lemma found_last:
  "found (concat (map f (rev [0..<k]))) n = Some st \<Longrightarrow>
   \<exists>i<k. found (f i) n = Some st \<and> (\<forall>i'<k. i < i' \<longrightarrow> found (f i') n = None)"
proof (induction k)
  case 0
  then show ?case by (simp add: found_def)
next
  case (Suc k)
  show ?case
  proof (cases "found (f k) n")
    case None
    with Suc obtain i where i: "i < k" "found (f i) n = Some st" "\<forall>i'<k. i < i' \<longrightarrow> found (f i') n = None"
      by (auto simp: found_append map_add_Some_iff)
    with None show ?thesis by (metis less_Suc_eq)
  next
    case (Some x)
    with Suc.prems have "x = st" by (simp add: found_append map_add_def)
    with Some show ?thesis by (intro exI [of _ k]) simp
  qed
qed

lemma rev_by_index: "rev xs = map (nth xs) (rev [0..<length xs])"
  by (simp add: rev_map [symmetric] map_nth)

lemma rev_as_concat: "rev xs = concat (map (\<lambda>j. [xs ! j]) (rev [0..<length xs]))"
  by (subst rev_by_index) (simp add: concat_map_singleton)

lemma concat_filtered: "concat (map h (filter P xs)) = concat (map (\<lambda>x. if P x then h x else []) xs)"
  by (induction xs) simp_all

lemma directory_lines_indexed:
  assumes "map_of dirs directory = Some ls"
  shows "directory_lines dirs directory target =
    concat (map (\<lambda>i. if attr_macro (ls ! i) = None \<and> selects (ls ! i) directory target
      then concat (map (\<lambda>j. [assignments (ls ! i) ! j]) (rev [0..<length (assignments (ls ! i))])) else []) (rev [0..<length ls]))"
proof -
  have one: "rev (assignments l) = concat (map (\<lambda>j. [assignments l ! j]) (rev [0..<length (assignments l)]))" for l
    by (rule rev_as_concat)
  have "directory_lines dirs directory target =
      concat (map (\<lambda>l. if attr_macro l = None \<and> selects l directory target then rev (assignments l) else []) (rev ls))"
    by (simp add: directory_lines_def assms concat_filtered)
  also have "\<dots> = concat (map (\<lambda>i. if attr_macro (ls ! i) = None \<and> selects (ls ! i) directory target
      then rev (assignments (ls ! i)) else []) (rev [0..<length ls]))"
    by (subst rev_by_index [of ls]) (simp add: comp_def)
  finally show ?thesis by (simp only: one)
qed

lemma reaching_member:
  assumes "a \<in> set (reaching dirs target)"
  shows "\<exists>d i j. assigned_at dirs target (attr_name a) d i j (attr_state a)"
proof -
  from assms obtain d where d: "d < length (segments target)"
    "a \<in> set (directory_lines dirs (join_with [47] (take d (segments target))) target)"
    by (auto simp: reaching_def Let_def)
  let ?dir = "join_with [47] (take d (segments target))"
  obtain ls where ls: "map_of dirs ?dir = Some ls"
    using d(2) by (cases "map_of dirs ?dir") (auto simp: directory_lines_def)
  with d(2) obtain i j where "i < length ls" "attr_macro (ls ! i) = None"
    "selects (ls ! i) (join_with [47] (take d (segments target))) target" "j < length (assignments (ls ! i))"
    "a = assignments (ls ! i) ! j"
    by (auto simp: directory_lines_def in_set_conv_nth [of _ ls] in_set_conv_nth [of a])
  then have "assigned_at dirs target (attr_name a) d i j (attr_state a)" using d(1) ls by (simp add: assigned_at_def Let_def)
  then show ?thesis by blast
qed

lemma in_directory_lines:
  "map_of dirs directory = Some ls \<Longrightarrow> l \<in> set ls \<Longrightarrow> attr_macro l = None \<Longrightarrow> selects l directory target \<Longrightarrow>
   a \<in> set (assignments l) \<Longrightarrow> a \<in> set (directory_lines dirs directory target)"
  by (auto simp: directory_lines_def)

lemma assigned_reaches:
  assumes "assigned_at dirs target n d i j st" shows "\<lparr>attr_name = n, attr_state = st\<rparr> \<in> set (reaching dirs target)"
proof -
  let ?dir = "join_with [47] (take d (segments target))"
  from assms obtain ls where ls: "d < length (segments target)" "map_of dirs ?dir = Some ls" "i < length ls"
    "attr_macro (ls ! i) = None" "selects (ls ! i) ?dir target" "j < length (assignments (ls ! i))"
    "assignments (ls ! i) ! j = \<lparr>attr_name = n, attr_state = st\<rparr>"
    by (auto simp: assigned_at_def Let_def split: option.splits)
  then have "\<lparr>attr_name = n, attr_state = st\<rparr> \<in> set (assignments (ls ! i))" by (metis nth_mem)
  then have "\<lparr>attr_name = n, attr_state = st\<rparr> \<in> set (directory_lines dirs ?dir target)"
    by (rule in_directory_lines [OF ls(2) nth_mem [OF ls(3)] ls(4,5)])
  with ls(1) show ?thesis by (auto simp: reaching_def Let_def)
qed

text \<open>The place that decides comes after every other place that assigns the attribute.\<close>

definition last_place :: "(jsstring \<times> attr_line list) list \<Rightarrow> jsstring \<Rightarrow> jsstring \<Rightarrow> nat \<Rightarrow> nat \<Rightarrow> nat \<Rightarrow> bool" where
  "last_place dirs target n d i j \<longleftrightarrow>
     (\<forall>d' i' j' st. assigned_at dirs target n d' i' j' st \<longrightarrow> d' < d \<or> d' = d \<and> (i' < i \<or> i' = i \<and> j' \<le> j))"

lemma found_place:
  assumes "found (reaching dirs target) n = Some st"
  shows "\<exists>d i j. assigned_at dirs target n d i j st \<and> last_place dirs target n d i j"
proof -
  let ?dir = "\<lambda>d. join_with [47] (take d (segments target))"
  let ?lines = "\<lambda>d. directory_lines dirs (?dir d) target"
  from found_last [of ?lines "length (segments target)" n st] assms
  obtain d where d: "d < length (segments target)" "found (?lines d) n = Some st"
    "\<And>d'. d' < length (segments target) \<Longrightarrow> d < d' \<Longrightarrow> found (?lines d') n = None"
    by (auto simp: reaching_def Let_def)
  obtain ls where ls: "map_of dirs (?dir d) = Some ls"
    using d(2) by (cases "map_of dirs (?dir d)") (auto simp: directory_lines_def found_def)
  let ?as = "\<lambda>i. assignments (ls ! i)"
  let ?line = "\<lambda>i. if attr_macro (ls ! i) = None \<and> selects (ls ! i) (?dir d) target
      then concat (map (\<lambda>j. [?as i ! j]) (rev [0..<length (?as i)])) else []"
  from found_last [of ?line "length ls" n st] d(2)
  obtain i where i: "i < length ls" "found (?line i) n = Some st"
    "\<And>i'. i' < length ls \<Longrightarrow> i < i' \<Longrightarrow> found (?line i') n = None"
    by (auto simp: directory_lines_indexed [OF ls])
  have sel: "attr_macro (ls ! i) = None" "selects (ls ! i) (?dir d) target"
    using i(2) by (auto simp: found_def split: if_splits)
  from found_last [of "\<lambda>j. [?as i ! j]" "length (?as i)" n st] i(2) sel
  obtain j where j: "j < length (?as i)" "found [?as i ! j] n = Some st"
    "\<And>j'. j' < length (?as i) \<Longrightarrow> j < j' \<Longrightarrow> found [?as i ! j'] n = None" by auto
  have "?as i ! j = \<lparr>attr_name = n, attr_state = st\<rparr>" using j(2) by (cases "?as i ! j") (auto simp: found_def split: if_splits)
  then have at: "assigned_at dirs target n d i j st" using d(1) ls i(1) sel j(1) by (simp add: assigned_at_def Let_def)
  have "last_place dirs target n d i j" unfolding last_place_def
  proof (intro allI impI)
    fix d' i' j' st' assume o: "assigned_at dirs target n d' i' j' st'"
    then obtain ls' where ls': "d' < length (segments target)" "map_of dirs (?dir d') = Some ls'" "i' < length ls'"
      "attr_macro (ls' ! i') = None" "selects (ls' ! i') (?dir d') target" "j' < length (assignments (ls' ! i'))"
      "assignments (ls' ! i') ! j' = \<lparr>attr_name = n, attr_state = st'\<rparr>"
      by (auto simp: assigned_at_def Let_def split: option.splits)
    have mem: "\<lparr>attr_name = n, attr_state = st'\<rparr> \<in> set (assignments (ls' ! i'))" using ls'(6,7) by (metis nth_mem)
    then have "\<lparr>attr_name = n, attr_state = st'\<rparr> \<in> set (?lines d')" by (rule in_directory_lines [OF ls'(2) nth_mem [OF ls'(3)] ls'(4,5)])
    then have "found (?lines d') n \<noteq> None" unfolding found_iff_member by force
    with d(3) ls'(1) have "d' \<le> d" by (metis not_le)
    moreover have "i' < i \<or> i' = i \<and> j' \<le> j" if "d' = d"
    proof -
      have eq: "ls' = ls" using that ls ls'(2) by simp
      have "\<lparr>attr_name = n, attr_state = st'\<rparr> \<in> set (?line i')"
        using mem ls'(4,5) eq that unfolding rev_as_concat [symmetric] by simp
      then have "found (?line i') n \<noteq> None" unfolding found_iff_member by (rule bexI [rotated]) simp
      with i(3) ls'(3) eq have "i' \<le> i" by (metis not_le)
      moreover have "j' \<le> j" if "i' = i"
      proof -
        have "found [?as i ! j'] n \<noteq> None" using ls'(7) eq that by (simp add: found_def)
        with j(3) ls'(6) eq that show ?thesis by (metis not_le)
      qed
      ultimately show ?thesis by linarith
    qed
    ultimately show "d' < d \<or> d' = d \<and> (i' < i \<or> i' = i \<and> j' \<le> j)" by linarith
  qed
  with at show ?thesis by blast
qed

lemma last_place_unique:
  "assigned_at dirs target n d i j st \<Longrightarrow> last_place dirs target n d i j \<Longrightarrow>
   assigned_at dirs target n d' i' j' st' \<Longrightarrow> last_place dirs target n d' i' j' \<Longrightarrow> st = st'"
proof -
  assume a: "assigned_at dirs target n d i j st" "last_place dirs target n d i j"
    "assigned_at dirs target n d' i' j' st'" "last_place dirs target n d' i' j'"
  from a(2,3) have 1: "d' < d \<or> d' = d \<and> (i' < i \<or> i' = i \<and> j' \<le> j)" unfolding last_place_def by blast
  from a(4,1) have 2: "d < d' \<or> d = d' \<and> (i < i' \<or> i = i' \<and> j \<le> j')" unfolding last_place_def by blast
  from 1 2 have "d' = d" "i' = i" "j' = j" by linarith+
  with a(1,3) show ?thesis by (auto simp: assigned_at_def Let_def split: option.splits)
qed

lemma states_by_place:
  assumes "\<forall>n d i j. assigned_at dirs target n d i j SET \<longrightarrow> map_of (root_macros dirs) n = None"
  shows "(path_states dirs target n = Some st \<longleftrightarrow>
      (\<exists>d i j. assigned_at dirs target n d i j st \<and> last_place dirs target n d i j))
    \<and> (path_states dirs target n = None \<longleftrightarrow> (\<forall>d i j st. \<not> assigned_at dirs target n d i j st))"
proof -
  have "no_macro_set (root_macros dirs) (reaching dirs target)"
    unfolding no_macro_set_def using assms reaching_member by metis
  then have ps: "path_states dirs target = found (reaching dirs target)" by (rule path_states_found)
  have some: "found (reaching dirs target) n \<noteq> None" if "assigned_at dirs target n d i j x" for d i j x
    using assigned_reaches [OF that] unfolding found_iff_member by force
  show ?thesis
  proof (cases "found (reaching dirs target) n")
    case None
    then have "\<not> assigned_at dirs target n d i j x" for d i j x using some by blast
    with None show ?thesis unfolding ps by simp
  next
    case (Some x)
    from found_place [OF this] obtain d i j where p: "assigned_at dirs target n d i j x" "last_place dirs target n d i j" by blast
    then have "x = st \<longleftrightarrow> (\<exists>d i j. assigned_at dirs target n d i j st \<and> last_place dirs target n d i j)"
      using last_place_unique by blast
    moreover have "\<not> (\<forall>d i j st. \<not> assigned_at dirs target n d i j st)" using p(1) by blast
    ultimately show ?thesis unfolding ps Some by simp
  qed
qed

section \<open>Properties\<close>

text \<open>
  Claim C24 (plain_patterns_match_as_written). Git's matcher, as it is called here, decides a pattern of
  plain characters and single wildcards as the pattern reads: a character stands for itself and, being
  an ASCII letter, for the same letter in the other case, a question mark for one character and a star
  for any run, neither across a slash where a path is matched.
\<close>

theorem plain_patterns_match_as_written:
  assumes "plain pathname pat"
  shows "(wildmatch pat s pathname \<longleftrightarrow> glob pathname pat s)
    \<and> (\<forall>c x. fits pathname c x \<longleftrightarrow>
          (if c = 63 then \<not> (pathname \<and> x = 47)
           else x = c \<or> 65 \<le> x \<and> x \<le> 90 \<and> c = x + 32 \<or> 65 \<le> c \<and> c \<le> 90 \<and> x = c + 32))"
  using plain_wildmatch [OF assms, of s] fits_letters [of pathname] by blast

theorem plain_patterns_match_as_written_witness:
  "wildmatch (js ''a/*.t?t'') (js ''A/b.Txt'') True = glob True (js ''a/*.t?t'') (js ''A/b.Txt'')
   \<and> fits True 97 65 \<and> \<not> fits True 97 98 \<and> \<not> fits True 63 47"
proof -
  have p: "plain True (js ''a/*.t?t'')" by code_simp
  show ?thesis using plain_patterns_match_as_written [OF p, of "js ''A/b.Txt''"] by simp
qed



text \<open>
  Claim C27 (mergeAttribute_is_the_first). \<open>mergeAttribute\<close> names the first path in byte order whose \<open>merge\<close> attribute is neither set nor unspecified, with that
  attribute, and names none exactly when no path has one.
\<close>

theorem mergeAttribute_is_the_first:
  "case mergeAttribute files paths of
     None \<Rightarrow> \<forall>q\<in>set paths. state_of (path_states (by_directory files) (path_bytes q)) (js ''merge'') \<in> {UNSPECIFIED, SET}
   | Some (q, a) \<Rightarrow>
       q \<in> set paths
       \<and> state_of (path_states (by_directory files) (path_bytes q)) (js ''merge'') \<notin> {UNSPECIFIED, SET}
       \<and> a = attribute_text (js ''merge'') (state_of (path_states (by_directory files) (path_bytes q)) (js ''merge''))
       \<and> (\<forall>r\<in>set paths. 0 < byCodePoint q r \<longrightarrow>
             state_of (path_states (by_directory files) (path_bytes r)) (js ''merge'') \<in> {UNSPECIFIED, SET})"
proof -
  have "\<not> (\<lambda>st. st \<noteq> UNSPECIFIED \<and> st \<noteq> SET) UNSPECIFIED" by simp
  from firstDeclared_spec [where declares = "\<lambda>st. st \<noteq> UNSPECIFIED \<and> st \<noteq> SET", OF this, where files = files and paths = paths and names = "[js ''merge'']"] show ?thesis
    unfolding mergeAttribute_def declared_at_def by (simp split: option.splits prod.splits)
qed

theorem mergeAttribute_is_the_first_witness:
  "mergeAttribute [(js ''.gitattributes'', map of_nat (js ''*.png -merge''))] [js ''b.png'', js ''a.md'', js ''a.png'']
      = Some (js ''a.png'', js ''-merge'')
   \<and> state_of (path_states (by_directory [(js ''.gitattributes'', map of_nat (js ''*.png -merge''))]) (path_bytes (js ''a.md'')))
       (js ''merge'') \<in> {UNSPECIFIED, SET}"
proof -
  let ?bs = "map of_nat (js ''*.png -merge'') :: bytes"
  let ?f = "[(js ''.gitattributes'', ?bs)]"
  let ?ps = "[js ''b.png'', js ''a.md'', js ''a.png'']"
  let ?d = "[([], parse_text (js ''*.png -merge'') True)]"
  have b: "binary ?bs = js ''*.png -merge''" "binary (text_encode []) = []"
    by (simp add: binary_def js_def comp_def, rule binary_ascii, simp)
  have p: "path_bytes (js ''a.md'') = js ''a.md''" "path_bytes (js ''a.png'') = js ''a.png''"
    unfolding path_bytes_def by (rule binary_ascii, code_simp)+
  have d: "directory_of (js ''.gitattributes'') = []"
    and z: "0 \<notin> set (js ''*.png -merge'')" by code_simp+
  have srt: "sort_by byCodePoint ?ps = [js ''a.md'', js ''a.png'', js ''b.png'']"
    by (simp add: byCodePoint_def compareText_def js_def high_surrogate_def low_surrogate_def)
  have dirs: "by_directory ?f = ?d" by (simp add: by_directory_def d b(2) parseFile_text [OF b(1) z] Let_def)
  have s: "state_of (path_states ?d (js ''a.md'')) (js ''merge'') = UNSPECIFIED"
    "state_of (path_states ?d (js ''a.png'')) (js ''merge'') = UNSET"
    and k: "UNSET \<noteq> UNSPECIFIED" "UNSET \<noteq> SET" "attribute_text (js ''merge'') UNSET = js ''-merge''"
    by code_simp+
  have lt: "0 < byCodePoint (js ''a.png'') (js ''a.md'')" by (simp add: byCodePoint_def compareText_def js_def high_surrogate_def low_surrogate_def)
  have "mergeAttribute ?f ?ps = Some (js ''a.png'', js ''-merge'')"
    unfolding mergeAttribute_def firstDeclared_def dirs srt by (simp add: p s k Let_def)
  with mergeAttribute_is_the_first [where files = ?f and paths = ?ps] lt show ?thesis by simp
qed

text \<open>
  The table of character classes is read through its prototype, so a bracket naming an inherited member is a class that
  matches any character.
\<close>

lemma inherited_class_matches: "wildmatch (js ''[[:constructor:]]'') (js ''q'') True"
  by code_simp

end
