(* ===== verification/Git_Objects.thy ===== *)
theory Git_Objects
  imports Git_Attributes Canonical
begin

text \<open>
  The object work of \<^verbatim>\<open>packages/folder/src/git/objects.ts\<close>: flat file maps written as trees and read back, the
  leaf differences of two maps, and the bounded walk over a history. The object store of isomorphic-git is the record
  \<open>git_access\<close> of functions over an abstract type of object names; a read that fails throws through every caller and
  is not modelled, except in the history walk, which catches it.
\<close>

section \<open>Objects\<close>

datatype entry_type = BlobEntry | TreeEntry | CommitEntry

record 'o tree_file =
  file_oid :: 'o
  file_mode :: jsstring

record 'o tree_entry =
  entry_path :: jsstring
  entry_mode :: jsstring
  entry_type :: entry_type
  entry_oid :: 'o

record author =
  author_name :: jsstring
  author_email :: jsstring

text \<open>What \<^verbatim>\<open>writeCommit\<close> is given; the clock adds its time to the signature of the author and the committer.\<close>

record 'o commit_object =
  commit_tree_oid :: 'o
  commit_parents :: "'o list"
  commit_author :: author
  commit_time :: "int \<times> int"
  commit_message :: jsstring

text \<open>How isomorphic-git answers a merge of two commits.\<close>

datatype 'o merge_answer = MergedTree 'o | MergeConflicts "jsstring list" | MergeNotSupported | MergeFailed

record 'o git_access =
  read_commit_tree :: "'o \<Rightarrow> 'o"
  read_parents :: "'o \<Rightarrow> 'o list option"
  read_tree :: "'o \<Rightarrow> 'o tree_entry list"
  read_blob :: "'o \<Rightarrow> bytes"
  write_blob :: "bytes \<Rightarrow> 'o"
  write_tree :: "'o tree_entry list \<Rightarrow> 'o"
  write_commit :: "'o commit_object \<Rightarrow> 'o"
  git_merge :: "'o \<Rightarrow> 'o \<Rightarrow> bool \<Rightarrow> 'o merge_answer"
  empty_tree :: 'o
  git_clock :: "int \<times> int"

type_synonym 'o tree_files = "(jsstring \<times> 'o tree_file) list"

section \<open>Writing trees\<close>

datatype 'o directory = Directory (dir_files: "(jsstring \<times> 'o tree_file) list") (dir_children: "(jsstring \<times> 'o directory) list")

fun add_file :: "jsstring list \<Rightarrow> 'o tree_file \<Rightarrow> 'o directory \<Rightarrow> 'o directory" where
  "add_file [] f d = d"
| "add_file [name] f (Directory fs ds) = Directory (AList.update name f fs) ds"
| "add_file (part # name # names) f (Directory fs ds) =
     Directory fs (AList.update part
       (add_file (name # names) f (case map_of ds part of None \<Rightarrow> Directory [] [] | Some child \<Rightarrow> child)) ds)"

definition file_entry :: "jsstring \<times> 'o tree_file \<Rightarrow> 'o tree_entry" where
  "file_entry x = \<lparr>entry_path = fst x, entry_mode = file_mode (snd x),
     entry_type = (if file_mode (snd x) = js ''160000'' then CommitEntry else BlobEntry), entry_oid = file_oid (snd x)\<rparr>"

definition directory_entry :: "jsstring \<Rightarrow> 'o \<Rightarrow> 'o tree_entry" where
  "directory_entry name tree = \<lparr>entry_path = name, entry_mode = js ''040000'', entry_type = TreeEntry, entry_oid = tree\<rparr>"

fun write_directory :: "'o git_access \<Rightarrow> 'o directory \<Rightarrow> 'o" where
  "write_directory A (Directory fs ds) =
     write_tree A (map file_entry fs @ map (\<lambda>x. directory_entry (fst x) (write_directory A (snd x))) ds)"

definition writeTreeFiles :: "'o git_access \<Rightarrow> 'o tree_files \<Rightarrow> 'o" where
  "writeTreeFiles A files =
     write_directory A (foldl (\<lambda>d (pa, f). add_file (segments pa) f d) (Directory [] []) files)"

definition writeFilesTree :: "'o git_access \<Rightarrow> (jsstring \<times> bytes) list \<Rightarrow> 'o" where
  "writeFilesTree A files =
     writeTreeFiles A (foldl (\<lambda>es (pa, bs). AList.update pa \<lparr>file_oid = write_blob A bs, file_mode = js ''100644''\<rparr> es) [] files)"

section \<open>Reading trees\<close>

definition commitTree :: "'o git_access \<Rightarrow> 'o \<Rightarrow> 'o" where
  "commitTree A commit = read_commit_tree A commit"

definition readBlob :: "'o git_access \<Rightarrow> 'o \<Rightarrow> bytes" where
  "readBlob A blob = read_blob A blob"

text \<open>The walk of \<open>readTreeFiles\<close>; the number bounds how deep the trees nest, and past it there is no result.\<close>

definition entry_at :: "jsstring \<Rightarrow> 'o tree_entry \<Rightarrow> jsstring" where
  "entry_at pre e = (if pre = [] then entry_path e else pre @ [slash] @ entry_path e)"

function walk_tree :: "'o git_access \<Rightarrow> nat \<Rightarrow> 'o \<Rightarrow> jsstring \<Rightarrow> 'o tree_files \<Rightarrow> 'o tree_files option"
  and walk_entries :: "'o git_access \<Rightarrow> nat \<Rightarrow> 'o tree_entry list \<Rightarrow> jsstring \<Rightarrow> 'o tree_files \<Rightarrow> 'o tree_files option" where
  "walk_tree A 0 tree pre files = None"
| "walk_tree A (Suc n) tree pre files = walk_entries A n (read_tree A tree) pre files"
| "walk_entries A n [] pre files = Some files"
| "walk_entries A n (e # es) pre files =
     (case (if entry_type e = TreeEntry then walk_tree A n (entry_oid e) (entry_at pre e) files
            else Some (AList.update (entry_at pre e) \<lparr>file_oid = entry_oid e, file_mode = entry_mode e\<rparr> files)) of
        None \<Rightarrow> None
      | Some files' \<Rightarrow> walk_entries A n es pre files')"
  by pat_completeness auto
termination
  by (relation "measures [\<lambda>x. case x of Inl (A, n, r) \<Rightarrow> n | Inr (A, n, r) \<Rightarrow> n,
       \<lambda>x. case x of Inl r \<Rightarrow> 0 | Inr (A, n, es, r) \<Rightarrow> length es]") auto

definition readTreeFiles :: "'o git_access \<Rightarrow> nat \<Rightarrow> 'o \<Rightarrow> 'o tree_files option" where
  "readTreeFiles A n tree = (if tree = empty_tree A then Some [] else walk_tree A n tree [] [])"

section \<open>Differences\<close>

datatype change_kind = Added | Modified | Deleted

definition diffFileMaps :: "(jsstring \<times> 'o) list \<Rightarrow> (jsstring \<times> 'o) list \<Rightarrow> (jsstring \<times> change_kind) list" where
  "diffFileMaps before after =
     sort_by (\<lambda>a b. compareKeys (fst a) (fst b))
       (concat (map (\<lambda>(pa, v). case map_of before pa of
                               None \<Rightarrow> [(pa, Added)]
                             | Some u \<Rightarrow> if u \<noteq> v then [(pa, Modified)] else []) after)
        @ concat (map (\<lambda>(pa, u). if map_of after pa = None then [(pa, Deleted)] else []) before))"

section \<open>Commits\<close>

definition writeCommitObject :: "'o git_access \<Rightarrow> 'o \<Rightarrow> 'o list \<Rightarrow> jsstring \<Rightarrow> author \<Rightarrow> 'o" where
  "writeCommitObject A tree parents msg author =
     write_commit A \<lparr>commit_tree_oid = tree, commit_parents = parents, commit_author = author, commit_time = git_clock A,
       commit_message = (if ends_with msg [10] then msg else msg @ [10])\<rparr>"

text \<open>One bounded walk over the history: the last of the queue is next, and a commit that cannot be read has no parents.\<close>

function explore :: "('o \<Rightarrow> 'o list option) \<Rightarrow> nat \<Rightarrow> 'o set \<Rightarrow> 'o list \<Rightarrow> 'o list \<Rightarrow> 'o list" where
  "explore parents limit skip queue seen =
     (if queue = [] \<or> limit \<le> length seen then seen
      else if last queue \<in> set seen \<or> last queue \<in> skip then explore parents limit skip (butlast queue) seen
      else explore parents limit skip
             (butlast queue @ (case parents (last queue) of None \<Rightarrow> [] | Some ps \<Rightarrow> ps)) (seen @ [last queue]))"
  by pat_completeness auto
termination
  by (relation "measures [\<lambda>(p, limit, s, queue, seen). limit - length seen, \<lambda>(p, limit, s, queue, seen). length queue]") auto

declare explore.simps [simp del]

definition excluded_commits :: "('o \<Rightarrow> 'o list option) \<Rightarrow> 'o option \<Rightarrow> nat \<Rightarrow> 'o list" where
  "excluded_commits parents exclude limit = (case exclude of None \<Rightarrow> [] | Some x \<Rightarrow> explore parents limit {} [x] [])"

definition countOnly :: "'o git_access \<Rightarrow> 'o option \<Rightarrow> 'o option \<Rightarrow> nat \<Rightarrow> nat" where
  "countOnly A start exclude limit =
     (case start of
        None \<Rightarrow> 0
      | Some x \<Rightarrow> length (explore (read_parents A) limit (set (excluded_commits (read_parents A) exclude limit)) [x] []))"

section \<open>The history walk\<close>

definition parent_of :: "('o \<Rightarrow> 'o list option) \<Rightarrow> ('o \<times> 'o) set" where
  "parent_of parents = {(a, b). \<exists>ps. parents a = Some ps \<and> b \<in> set ps}"

text \<open>What is queued or seen was reached from the start, and what was seen has its parents seen, skipped or queued.\<close>

definition exploring :: "('o \<Rightarrow> 'o list option) \<Rightarrow> 'o set \<Rightarrow> 'o \<Rightarrow> 'o list \<Rightarrow> 'o list \<Rightarrow> bool" where
  "exploring parents skip x queue seen \<longleftrightarrow>
     distinct seen \<and> set seen \<inter> skip = {} \<and> (\<forall>c\<in>set queue \<union> set seen. (x, c) \<in> (parent_of parents)\<^sup>*)
     \<and> x \<in> set queue \<union> set seen \<union> skip
     \<and> (\<forall>a\<in>set seen. \<forall>b. (a, b) \<in> parent_of parents \<longrightarrow> b \<in> set queue \<union> set seen \<union> skip)"

lemma exploring_start: "exploring parents skip x [x] []"
  by (simp add: exploring_def)

lemma set_split_last: "queue \<noteq> [] \<Longrightarrow> set queue = insert (last queue) (set (butlast queue))"
  by (metis append_butlast_last_id insert_is_Un set_append list.set(2) list.set(1) Un_commute)

lemma exploring_drop:
  assumes "exploring parents skip x queue seen" "queue \<noteq> []" "last queue \<in> set seen \<or> last queue \<in> skip"
  shows "exploring parents skip x (butlast queue) seen"
proof -
  have q: "set queue = insert (last queue) (set (butlast queue))" using assms(2) by (rule set_split_last)
  show ?thesis using assms(1,3) unfolding exploring_def q by auto
qed

lemma exploring_visit:
  assumes "exploring parents skip x queue seen" "queue \<noteq> []" "last queue \<notin> set seen" "last queue \<notin> skip"
  shows "exploring parents skip x (butlast queue @ (case parents (last queue) of None \<Rightarrow> [] | Some ps \<Rightarrow> ps)) (seen @ [last queue])"
proof -
  let ?ps = "case parents (last queue) of None \<Rightarrow> [] | Some ps \<Rightarrow> ps"
  have q: "set queue = insert (last queue) (set (butlast queue))" using assms(2) by (rule set_split_last)
  have ps: "b \<in> set ?ps \<longleftrightarrow> (last queue, b) \<in> parent_of parents" for b
    by (cases "parents (last queue)") (auto simp: parent_of_def)
  have r: "(x, last queue) \<in> (parent_of parents)\<^sup>*" using assms(1) q unfolding exploring_def by blast
  have "(x, b) \<in> (parent_of parents)\<^sup>*" if "b \<in> set ?ps" for b
    using r ps that by (meson rtrancl.rtrancl_into_rtrancl)
  then show ?thesis using assms q ps unfolding exploring_def by auto
qed

lemma exploring_end:
  "exploring parents skip x queue seen \<Longrightarrow> length seen \<le> limit \<Longrightarrow>
    (\<exists>queue'. exploring parents skip x queue' (explore parents limit skip queue seen)
       \<and> (length (explore parents limit skip queue seen) < limit \<longrightarrow> queue' = []))
    \<and> length (explore parents limit skip queue seen) \<le> limit"
proof (induction parents limit skip queue seen rule: explore.induct)
  case (1 parents limit skip queue seen)
  consider (stop) "queue = [] \<or> limit \<le> length seen"
    | (drop) "\<not> (queue = [] \<or> limit \<le> length seen)" "last queue \<in> set seen \<or> last queue \<in> skip"
    | (visit) "\<not> (queue = [] \<or> limit \<le> length seen)" "\<not> (last queue \<in> set seen \<or> last queue \<in> skip)" by blast
  then show ?case
  proof cases
    case stop
    then have e: "explore parents limit skip queue seen = seen" by (simp add: explore.simps)
    show ?thesis unfolding e using 1(3,4) stop by (auto intro: exI [of _ queue])
  next
    case drop
    then have e: "explore parents limit skip queue seen = explore parents limit skip (butlast queue) seen"
      by (simp add: explore.simps [of parents limit skip queue])
    show ?thesis unfolding e using drop 1(3,4) by (intro 1(1) exploring_drop) auto
  next
    case visit
    then have e: "explore parents limit skip queue seen = explore parents limit skip
        (butlast queue @ (case parents (last queue) of None \<Rightarrow> [] | Some ps \<Rightarrow> ps)) (seen @ [last queue])"
      by (simp add: explore.simps [of parents limit skip queue])
    show ?thesis unfolding e using visit 1(3,4) by (intro 1(2) exploring_visit) auto
  qed
qed

lemma explored_all:
  assumes "exploring parents skip x [] seen" and closed: "\<forall>a\<in>skip. \<forall>b. (a, b) \<in> parent_of parents \<longrightarrow> b \<in> skip"
  shows "set seen = {c. (x, c) \<in> (parent_of parents)\<^sup>*} - skip"
proof -
  have "c \<in> set seen \<union> skip" if "(x, c) \<in> (parent_of parents)\<^sup>*" for c
    using that
  proof (induction rule: rtrancl_induct)
    case base
    then show ?case using assms(1) by (simp add: exploring_def)
  next
    case (step a b)
    then show ?case using assms(1) closed by (auto simp: exploring_def)
  qed
  then show ?thesis using assms(1) by (auto simp: exploring_def)
qed

lemma explore_reaches:
  assumes "length (explore parents limit skip [x] []) < limit" and "\<forall>a\<in>skip. \<forall>b. (a, b) \<in> parent_of parents \<longrightarrow> b \<in> skip"
  shows "set (explore parents limit skip [x] []) = {c. (x, c) \<in> (parent_of parents)\<^sup>*} - skip
    \<and> distinct (explore parents limit skip [x] [])"
proof -
  let ?e = "explore parents limit skip [x] []"
  from exploring_end [OF exploring_start, of limit parents skip x] assms(1) have "exploring parents skip x [] ?e" by auto
  with explored_all [OF this assms(2)] show ?thesis by (simp add: exploring_def)
qed

lemma excluded_all:
  assumes "length (excluded_commits parents exclude limit) < limit"
  shows "set (excluded_commits parents exclude limit) = {c. \<exists>x. exclude = Some x \<and> (x, c) \<in> (parent_of parents)\<^sup>*}"
  using assms explore_reaches [of parents limit "{}"] by (cases exclude) (auto simp: excluded_commits_def)


section \<open>What a written tree holds\<close>

text \<open>The file at a list of names, and the shape every built directory has.\<close>

fun leaf_at :: "'o directory \<Rightarrow> jsstring list \<Rightarrow> 'o tree_file option" where
  "leaf_at d [] = None"
| "leaf_at (Directory fs ds) [name] = map_of fs name"
| "leaf_at (Directory fs ds) (part # name # names) =
     (case map_of ds part of None \<Rightarrow> None | Some child \<Rightarrow> leaf_at child (name # names))"

fun directory_ok :: "nat \<Rightarrow> 'o directory \<Rightarrow> bool" where
  "directory_ok 0 d = False"
| "directory_ok (Suc n) (Directory fs ds) =
     (distinct (map fst fs) \<and> distinct (map fst ds) \<and> (\<forall>x\<in>set ds. fst x \<noteq> [] \<and> directory_ok n (snd x)))"

lemma leaf_at_Nil [simp]: "leaf_at (Directory [] []) ks = None"
  by (cases ks rule: remdups_adj.cases) auto

lemma leaf_at_add: "ns \<noteq> [] \<Longrightarrow> leaf_at (add_file ns f d) = (leaf_at d)(ns \<mapsto> f)"
proof (induction ns f d rule: add_file.induct)
  case (2 name f fs ds)
  have "leaf_at (add_file [name] f (Directory fs ds)) ks = ((leaf_at (Directory fs ds))([name] \<mapsto> f)) ks" for ks
    by (cases ks rule: remdups_adj.cases) (auto simp: update_conv')
  then show ?case by (rule ext)
next
  case (3 part name names f fs ds)
  have "leaf_at (add_file (part # name # names) f (Directory fs ds)) ks
      = ((leaf_at (Directory fs ds))((part # name # names) \<mapsto> f)) ks" for ks
    using 3 by (cases ks rule: remdups_adj.cases) (auto simp: update_conv' split: option.split)
  then show ?case by (rule ext)
qed simp

lemma directory_ok_Nil: "0 < n \<Longrightarrow> directory_ok n (Directory [] [])"
  by (cases n) simp_all

lemma directory_ok_add:
  "directory_ok n d \<Longrightarrow> length ns \<le> n \<Longrightarrow> \<forall>x\<in>set ns. x \<noteq> [] \<Longrightarrow> directory_ok n (add_file ns f d)"
proof (induction ns f d arbitrary: n rule: add_file.induct)
  case (2 name f fs ds)
  then show ?case by (cases n) (auto simp: distinct_update)
next
  case (3 part name names f fs ds)
  then obtain m where n: "n = Suc m" and m: "0 < m" by (cases n) auto
  let ?child = "case map_of ds part of None \<Rightarrow> Directory [] [] | Some child \<Rightarrow> child"
  have "directory_ok m ?child"
  proof (cases "map_of ds part")
    case None
    then show ?thesis using directory_ok_Nil [OF m] by simp
  next
    case (Some child)
    then have "(part, child) \<in> set ds" by (rule map_of_SomeD)
    then show ?thesis using 3(2) Some unfolding n by auto
  qed
  then have c: "directory_ok m (add_file (name # names) f ?child)" using 3(1,3,4) n by simp
  have "\<forall>x\<in>set (AList.update part v ds). x = (part, v) \<or> x \<in> set ds" for v
    by (induction ds) auto
  then show ?case using 3(2,4) c unfolding n by (fastforce simp: distinct_update)
qed simp

definition built :: "'o tree_files \<Rightarrow> 'o directory" where
  "built files = foldl (\<lambda>d (pa, f). add_file (segments pa) f d) (Directory [] []) files"

lemma segments_nonempty [simp]: "segments pa \<noteq> []"
  by (simp add: segments_def)

lemma join_segments: "join_with [slash] (segments pa) = pa"
  by (simp add: segments_def join_split)

lemma segments_inj: "segments p = segments q \<Longrightarrow> p = q"
  by (metis join_segments)

lemma leaf_at_built_from:
  "distinct (map fst files) \<Longrightarrow>
    leaf_at (foldl (\<lambda>d (pa, f). add_file (segments pa) f d) d files) ks
      = (case map_of files (join_with [slash] ks) of
           Some f \<Rightarrow> if segments (join_with [slash] ks) = ks then Some f else leaf_at d ks
         | None \<Rightarrow> leaf_at d ks)"
proof (induction files arbitrary: d)
  case (Cons x files)
  obtain pa f where x: "x = (pa, f)" by force
  have k: "ks = segments pa \<longleftrightarrow> join_with [slash] ks = pa \<and> segments (join_with [slash] ks) = ks"
    using join_segments [of pa] by auto
  have n: "map_of files pa = None" using Cons.prems by (simp add: x map_of_eq_None_iff)
  show ?case using Cons.IH [of "add_file (segments pa) f d"] Cons.prems k n
    by (auto simp: x leaf_at_add split: option.splits)
qed simp

lemma leaf_at_built:
  "distinct (map fst files) \<Longrightarrow>
    leaf_at (built files) ks = Some f \<longleftrightarrow> (\<exists>pa. map_of files pa = Some f \<and> ks = segments pa)"
  unfolding built_def leaf_at_built_from [of files "Directory [] []" ks]
  using join_segments [of "join_with [slash] ks"] join_segments by (cases "map_of files (join_with [slash] ks)") (auto simp del: map_of_eq_Some_iff)

definition usable :: "nat \<Rightarrow> 'o tree_files \<Rightarrow> bool" where
  "usable n files \<longleftrightarrow> distinct (map fst files)
     \<and> (\<forall>(pa, f)\<in>set files. [] \<notin> set (segments pa) \<and> length (segments pa) \<le> n \<and> file_mode f \<noteq> js ''040000'')"

lemma directory_ok_built:
  assumes "0 < n" "usable n files" shows "directory_ok n (built files)"
proof -
  have "directory_ok n d \<Longrightarrow> \<forall>(pa, f)\<in>set files. [] \<notin> set (segments pa) \<and> length (segments pa) \<le> n \<Longrightarrow>
    directory_ok n (foldl (\<lambda>d (pa, f). add_file (segments pa) f d) d files)" for d and files :: "'a tree_files"
  proof (induction files arbitrary: d)
    case (Cons x files)
    obtain pa f where x: "x = (pa, f)" by force
    have "directory_ok n (add_file (segments pa) f d)" using Cons.prems by (intro directory_ok_add) (auto simp: x)
    then show ?case using Cons.IH Cons.prems by (auto simp: x)
  qed simp
  then show ?thesis using directory_ok_Nil [OF assms(1)] assms(2) unfolding built_def usable_def by blast
qed

section \<open>What is read back\<close>

text \<open>The leaves the walk sets, in its order.\<close>

fun leaves_of :: "'o git_access \<Rightarrow> nat \<Rightarrow> 'o \<Rightarrow> jsstring \<Rightarrow> 'o tree_files option"
  and leaves_in :: "'o git_access \<Rightarrow> nat \<Rightarrow> 'o tree_entry list \<Rightarrow> jsstring \<Rightarrow> 'o tree_files option" where
  "leaves_of A 0 tree pre = None"
| "leaves_of A (Suc n) tree pre = leaves_in A n (read_tree A tree) pre"
| "leaves_in A n [] pre = Some []"
| "leaves_in A n (e # es) pre =
     (case (if entry_type e = TreeEntry then leaves_of A n (entry_oid e) (entry_at pre e)
            else Some [(entry_at pre e, \<lparr>file_oid = entry_oid e, file_mode = entry_mode e\<rparr>)]) of
        None \<Rightarrow> None
      | Some xs \<Rightarrow> (case leaves_in A n es pre of None \<Rightarrow> None | Some ys \<Rightarrow> Some (xs @ ys)))"

definition set_files :: "'o tree_files \<Rightarrow> 'o tree_files \<Rightarrow> 'o tree_files" where
  "set_files files xs = foldl (\<lambda>m (pa, f). AList.update pa f m) files xs"

lemma walk_leaves:
  "walk_tree A n tree pre files = map_option (set_files files) (leaves_of A n tree pre)"
  "walk_entries A n es pre files = map_option (set_files files) (leaves_in A n es pre)"
proof (induction A n tree pre and A n es pre arbitrary: files and files rule: leaves_of_leaves_in.induct)
  case (4 A n e es pre)
  show ?case
  proof (cases "entry_type e = TreeEntry")
    case True
    then show ?thesis using 4(1) [OF True] 4(2)
      by (cases "leaves_of A n (entry_oid e) (entry_at pre e)"; cases "leaves_in A n es pre") (auto simp: set_files_def)
  next
    case False
    then show ?thesis using 4(2) by (cases "leaves_in A n es pre") (auto simp: set_files_def)
  qed
qed (simp_all add: set_files_def)

lemma map_of_set_files:
  "\<forall>(pa, f)\<in>set xs. G pa = Some f \<Longrightarrow> map_of (set_files files xs) pa = (if pa \<in> fst ` set xs then G pa else map_of files pa)"
proof (induction xs arbitrary: files)
  case (Cons x xs)
  obtain q f where x: "x = (q, f)" by force
  have "set_files files (x # xs) = set_files (AList.update q f files) xs" by (simp add: set_files_def x)
  then show ?case using Cons by (auto simp: x update_conv')
qed (simp add: set_files_def)

lemma distinct_set_files: "distinct (map fst files) \<Longrightarrow> distinct (map fst (set_files files xs))"
proof (induction xs arbitrary: files)
  case (Cons x xs)
  then show ?case using Cons.IH [of "AList.update (fst x) (snd x) files"] by (simp add: set_files_def distinct_update split_def)
qed (simp add: set_files_def)

text \<open>
  The object store gives back what it was given: the entries of a tree, whose type is told by their mode, the bytes of a
  blob and the tree of a commit.
\<close>

definition type_of_mode :: "jsstring \<Rightarrow> entry_type" where
  "type_of_mode m = (if m = js ''040000'' then TreeEntry else if m = js ''160000'' then CommitEntry else BlobEntry)"

definition store_ok :: "'o git_access \<Rightarrow> bool" where
  "store_ok A \<longleftrightarrow>
     (\<forall>es. (\<forall>e\<in>set es. entry_type e = type_of_mode (entry_mode e)) \<longrightarrow> set (read_tree A (write_tree A es)) = set es)
     \<and> read_tree A (empty_tree A) = [] \<and> (\<forall>bs. read_blob A (write_blob A bs) = bs)
     \<and> (\<forall>c. read_commit_tree A (write_commit A c) = commit_tree_oid c)"

definition leaf_entries :: "'o git_access \<Rightarrow> nat \<Rightarrow> jsstring \<Rightarrow> 'o tree_entry \<Rightarrow> 'o tree_files option" where
  "leaf_entries A n pre e =
     (if entry_type e = TreeEntry then leaves_of A n (entry_oid e) (entry_at pre e)
      else Some [(entry_at pre e, \<lparr>file_oid = entry_oid e, file_mode = entry_mode e\<rparr>)])"

lemma leaves_in_all:
  "\<forall>e\<in>set es. leaf_entries A n pre e \<noteq> None \<Longrightarrow>
    \<exists>xs. leaves_in A n es pre = Some xs \<and> set xs = (\<Union>e\<in>set es. set (the (leaf_entries A n pre e)))"
proof (induction es)
  case (Cons e es)
  then obtain ys where ys: "leaves_in A n es pre = Some ys" "set ys = (\<Union>e\<in>set es. set (the (leaf_entries A n pre e)))" by auto
  obtain xs where xs: "leaf_entries A n pre e = Some xs" using Cons.prems by auto
  have "leaves_in A n (e # es) pre = Some (xs @ ys)"
    using xs ys(1) by (auto simp: leaf_entries_def split: if_splits)
  then show ?case using xs ys(2) by auto
qed simp

definition path_at :: "jsstring \<Rightarrow> jsstring list \<Rightarrow> jsstring" where
  "path_at pre ks = (if pre = [] then join_with [slash] ks else pre @ [slash] @ join_with [slash] ks)"

lemma path_at_step: "m \<noteq> [] \<Longrightarrow> ks \<noteq> [] \<Longrightarrow> path_at (path_at pre [m]) ks = path_at pre (m # ks)"
  by (auto simp: path_at_def join_with_step)

lemma path_at_one: "path_at pre [m] = (if pre = [] then m else pre @ [slash] @ m)"
  by (simp add: path_at_def)

lemma entry_at_file [simp]: "entry_at pre (file_entry x) = path_at pre [fst x]"
  by (simp add: entry_at_def file_entry_def path_at_one)

lemma entry_at_directory [simp]: "entry_at pre (directory_entry m tree) = path_at pre [m]"
  by (simp add: entry_at_def directory_entry_def path_at_one)

lemma written_leaves:
  assumes "store_ok A"
  shows "directory_ok n d \<Longrightarrow> \<forall>ks f. leaf_at d ks = Some f \<longrightarrow> file_mode f \<noteq> js ''040000'' \<Longrightarrow>
    \<exists>xs. leaves_of A n (write_directory A d) pre = Some xs \<and> set xs = {(path_at pre ks, f) | ks f. leaf_at d ks = Some f}"
proof (induction n arbitrary: d pre)
  case (Suc n)
  obtain fs ds where d: "d = Directory fs ds" by (cases d)
  let ?es = "map file_entry fs @ map (\<lambda>x. directory_entry (fst x) (write_directory A (snd x))) ds"
  have dist: "distinct (map fst fs)" "distinct (map fst ds)" and ch: "\<forall>x\<in>set ds. fst x \<noteq> [] \<and> directory_ok n (snd x)"
    using Suc.prems(1) by (auto simp: d)
  have own: "leaf_at d [m] = Some f \<longleftrightarrow> (m, f) \<in> set fs" for m f using dist(1) by (simp add: d)
  have below: "leaf_at d (m # ks) = Some f" if "(m, c) \<in> set ds" "leaf_at c ks = Some f" for m c ks f
    using that dist(2) by (cases ks) (auto simp: d)
  have modes: "file_mode f \<noteq> js ''040000''" if "(m, f) \<in> set fs" for m f using Suc.prems(2) own that by blast
  have types: "\<forall>e\<in>set ?es. entry_type e = type_of_mode (entry_mode e)"
    using modes by (fastforce simp: file_entry_def directory_entry_def type_of_mode_def)
  then have entries: "set (read_tree A (write_directory A d)) = set ?es" using assms by (simp add: store_ok_def d)
  have leaf_file: "leaf_entries A n pre (file_entry x) = Some [(path_at pre [fst x], snd x)]" for x
    by (simp add: leaf_entries_def) (simp add: file_entry_def)
  have sub: "\<exists>xs. leaf_entries A n pre (directory_entry (fst x) (write_directory A (snd x))) = Some xs
      \<and> set xs = {(path_at pre (fst x # ks), f) | ks f. leaf_at (snd x) ks = Some f}" if "x \<in> set ds" for x
  proof -
    have "\<exists>xs. leaves_of A n (write_directory A (snd x)) (path_at pre [fst x]) = Some xs
        \<and> set xs = {(path_at (path_at pre [fst x]) ks, f) | ks f. leaf_at (snd x) ks = Some f}"
    proof (rule Suc.IH)
      show "directory_ok n (snd x)" using ch that by blast
      have "(fst x, snd x) \<in> set ds" using that by simp
      then show "\<forall>ks f. leaf_at (snd x) ks = Some f \<longrightarrow> file_mode f \<noteq> js ''040000''" using below Suc.prems(2) by blast
    qed
    moreover have "{(path_at (path_at pre [fst x]) ks, f) | ks f. leaf_at (snd x) ks = Some f}
        = {(path_at pre (fst x # ks), f) | ks f. leaf_at (snd x) ks = Some f}"
    proof -
      have "path_at (path_at pre [fst x]) ks = path_at pre (fst x # ks)" if "leaf_at (snd x) ks = Some f" for ks f
        using that ch \<open>x \<in> set ds\<close> by (intro path_at_step) auto
      then show ?thesis by force
    qed
    ultimately show ?thesis by (simp add: leaf_entries_def) (simp add: directory_entry_def)
  qed
  have xs: "leaf_entries A n pre (directory_entry (fst x) (write_directory A (snd x))) \<noteq> None
      \<and> set (the (leaf_entries A n pre (directory_entry (fst x) (write_directory A (snd x)))))
        = {(path_at pre (fst x # ks), f) | ks f. leaf_at (snd x) ks = Some f}" if "x \<in> set ds" for x
    using sub [OF that] by force
  have "\<forall>e\<in>set (read_tree A (write_directory A d)). leaf_entries A n pre e \<noteq> None"
    unfolding entries using leaf_file xs by auto
  from leaves_in_all [OF this] obtain ys where ys: "leaves_in A n (read_tree A (write_directory A d)) pre = Some ys"
      "set ys = (\<Union>e\<in>set ?es. set (the (leaf_entries A n pre e)))" unfolding entries by auto
  have "set ys = {(path_at pre [m], f) | m f. (m, f) \<in> set fs}
      \<union> {(path_at pre (m # ks), f) | m c ks f. (m, c) \<in> set ds \<and> leaf_at c ks = Some f}"
  proof -
    have "set ys = (\<Union>x\<in>set fs. set (the (leaf_entries A n pre (file_entry x))))
        \<union> (\<Union>x\<in>set ds. set (the (leaf_entries A n pre (directory_entry (fst x) (write_directory A (snd x))))))"
      unfolding ys(2) by simp
    also have "\<dots> = (\<Union>x\<in>set fs. {(path_at pre [fst x], snd x)})
        \<union> (\<Union>x\<in>set ds. {(path_at pre (fst x # ks), f) | ks f. leaf_at (snd x) ks = Some f})"
      using xs by (simp add: leaf_file)
    also have "(\<Union>x\<in>set fs. {(path_at pre [fst x], snd x)}) = {(path_at pre [m], f) | m f. (m, f) \<in> set fs}" by force
    also have "(\<Union>x\<in>set ds. {(path_at pre (fst x # ks), f) | ks f. leaf_at (snd x) ks = Some f})
        = {(path_at pre (m # ks), f) | m c ks f. (m, c) \<in> set ds \<and> leaf_at c ks = Some f}" by force
    finally show ?thesis .
  qed
  also have "\<dots> = {(path_at pre ks, f) | ks f. leaf_at d ks = Some f}"
  proof -
    have "(\<exists>m. ks = [m] \<and> (m, f) \<in> set fs) \<or> (\<exists>m c ks'. ks = m # ks' \<and> (m, c) \<in> set ds \<and> leaf_at c ks' = Some f)"
      if "leaf_at d ks = Some f" for ks f
      using that own by (cases "(d, ks)" rule: leaf_at.cases) (auto simp: d split: option.splits dest: map_of_SomeD)
    then show ?thesis using own below by blast
  qed
  finally show ?case using ys(1) by simp
qed simp

lemma trees_read_back:
  assumes "store_ok A" "0 < n" "usable n files"
  shows "\<exists>back. readTreeFiles A n (writeTreeFiles A files) = Some back \<and> map_of back = map_of files \<and> distinct (map fst back)"
proof -
  have u: "distinct (map fst files)" using assms(3) by (simp add: usable_def)
  have leaf: "leaf_at (built files) ks = Some f \<longleftrightarrow> (\<exists>pa. map_of files pa = Some f \<and> ks = segments pa)" for ks f
    by (rule leaf_at_built [OF u])
  have m: "\<forall>ks f. leaf_at (built files) ks = Some f \<longrightarrow> file_mode f \<noteq> js ''040000''"
    unfolding leaf using assms(3) by (fastforce simp: usable_def dest: map_of_SomeD)
  obtain xs where xs: "leaves_of A n (write_directory A (built files)) [] = Some xs"
      "set xs = {(path_at [] ks, f) | ks f. leaf_at (built files) ks = Some f}"
    using written_leaves [OF assms(1) directory_ok_built [OF assms(2,3)] m] by blast
  have g: "set xs = {(pa, f). map_of files pa = Some f}"
    unfolding xs(2) leaf by (auto simp: path_at_def join_segments simp del: map_of_eq_Some_iff) (metis join_segments)
  have w: "writeTreeFiles A files = write_directory A (built files)" by (simp add: writeTreeFiles_def built_def)
  have mo: "map_of (set_files [] xs) = map_of files"
  proof
    fix pa
    have "map_of (set_files [] xs) pa = (if pa \<in> fst ` set xs then map_of files pa else map_of [] pa)"
      by (rule map_of_set_files) (auto simp: g)
    then show "map_of (set_files [] xs) pa = map_of files pa"
      by (cases "map_of files pa") (auto simp: g image_iff simp del: map_of_eq_Some_iff)
  qed
  have dist: "distinct (map fst (set_files [] xs))" by (rule distinct_set_files) simp
  show ?thesis
  proof (cases "writeTreeFiles A files = empty_tree A")
    case True
    obtain k where n: "n = Suc k" using assms(2) by (cases n) auto
    have "read_tree A (write_directory A (built files)) = []" using True w assms(1) by (simp add: store_ok_def)
    then have "xs = []" using xs(1) by (simp add: n)
    then have "map_of files = Map.empty" using mo by (simp add: set_files_def)
    then show ?thesis using True by (simp add: readTreeFiles_def)
  next
    case False
    then have "readTreeFiles A n (writeTreeFiles A files) = Some (set_files [] xs)"
      using xs(1) by (simp add: readTreeFiles_def walk_leaves w)
    then show ?thesis using mo dist by blast
  qed
qed

section \<open>What a difference lists\<close>

definition change_at :: "(jsstring \<times> 'o) list \<Rightarrow> (jsstring \<times> 'o) list \<Rightarrow> jsstring \<Rightarrow> change_kind option" where
  "change_at before after pa =
     (case (map_of before pa, map_of after pa) of
        (None, Some v) \<Rightarrow> Some Added
      | (Some u, Some v) \<Rightarrow> if u = v then None else Some Modified
      | (Some u, None) \<Rightarrow> Some Deleted
      | (None, None) \<Rightarrow> None)"

lemma diff_lists:
  assumes "distinct (map fst before)" "distinct (map fst after)"
  shows "(pa, k) \<in> set (diffFileMaps before after) \<longleftrightarrow> change_at before after pa = Some k"
proof -
  let ?new = "\<lambda>(pa, v). case map_of before pa of None \<Rightarrow> [(pa, Added)] | Some u \<Rightarrow> if u \<noteq> v then [(pa, Modified)] else []"
  let ?gone = "\<lambda>(pa, u). if map_of after pa = None then [(pa, Deleted)] else []"
  have new: "(pa, k) \<in> (\<Union>x\<in>set after. set (?new x)) \<longleftrightarrow> (\<exists>v. map_of after pa = Some v \<and> (pa, k) \<in> set (?new (pa, v)))"
    using assms(2) by (fastforce split: option.splits if_splits)
  have gone: "(pa, k) \<in> (\<Union>x\<in>set before. set (?gone x)) \<longleftrightarrow> (\<exists>u. map_of before pa = Some u \<and> map_of after pa = None \<and> k = Deleted)"
    using assms(1) by (fastforce split: if_splits)
  have d: "set (diffFileMaps before after) = (\<Union>x\<in>set after. set (?new x)) \<union> (\<Union>x\<in>set before. set (?gone x))"
    by (simp add: diffFileMaps_def)
  have "(pa, k) \<in> set (diffFileMaps before after) \<longleftrightarrow>
      (\<exists>v. map_of after pa = Some v \<and> (pa, k) \<in> set (?new (pa, v)))
      \<or> (\<exists>u. map_of before pa = Some u \<and> map_of after pa = None \<and> k = Deleted)"
    unfolding d Un_iff new gone by (rule refl)
  then show ?thesis
    by (cases "map_of before pa"; cases "map_of after pa") (auto simp: change_at_def simp del: map_of_eq_Some_iff)
qed

lemma single_names:
  "(\<And>x. g x = [] \<or> (\<exists>k. g x = [(fst x, k)])) \<Longrightarrow> set (map fst (concat (map g ys))) \<subseteq> set (map fst ys)"
proof (induction ys)
  case (Cons y ys)
  have "set (map fst (g y)) \<subseteq> {fst y}" using Cons.prems [of y] by auto
  with Cons show ?case by auto
qed simp

lemma distinct_single:
  assumes "\<And>x. g x = [] \<or> (\<exists>k. g x = [(fst x, k)])" and "distinct (map fst xs)"
  shows "distinct (map fst (concat (map g xs)))"
  using assms(2)
proof (induction xs)
  case (Cons x xs)
  then have out: "fst x \<notin> set (map fst (concat (map g xs)))" using single_names [of g xs, OF assms(1)] by auto
  have cat: "map fst (concat (map g (x # xs))) = map fst (g x) @ map fst (concat (map g xs))" by simp
  have head: "map fst (g x) = [] \<or> map fst (g x) = [fst x]" using assms(1) [of x] by auto
  have tail: "distinct (map fst (concat (map g xs)))" using Cons by simp
  show ?case unfolding cat using head
  proof
    assume "map fst (g x) = []"
    with tail show "distinct (map fst (g x) @ map fst (concat (map g xs)))" by (simp only: append_Nil)
  next
    assume "map fst (g x) = [fst x]"
    with tail out show "distinct (map fst (g x) @ map fst (concat (map g xs)))" by (simp only: append_Cons append_Nil distinct.simps simp_thms)
  qed
qed simp

lemma diff_names_once:
  assumes "distinct (map fst before)" "distinct (map fst after)"
  shows "distinct (map fst (diffFileMaps before after))"
proof -
  define new where "new = (\<lambda>(pa, v). case map_of before pa of None \<Rightarrow> [(pa, Added)] | Some u \<Rightarrow> if u \<noteq> v then [(pa, Modified)] else [])"
  define gone where "gone = (\<lambda>(pa, u :: 'a). if map_of after pa = None then [(pa, Deleted)] else [])"
  have n: "new x = [] \<or> (\<exists>k. new x = [(fst x, k)])" and g: "gone x = [] \<or> (\<exists>k. gone x = [(fst x, k)])" for x
    by (auto simp: new_def gone_def split: prod.split option.split)
  have "set (map fst (concat (map gone before))) \<inter> set (map fst after) = {}"
    by (force simp: gone_def map_of_eq_None_iff split: if_splits)
  moreover have "set (map fst (concat (map new after))) \<subseteq> set (map fst after)" by (rule single_names [OF n])
  ultimately have "set (map fst (concat (map new after))) \<inter> set (map fst (concat (map gone before))) = {}" by blast
  with distinct_single [OF n assms(2)] distinct_single [OF g assms(1)]
  have "distinct (map fst (concat (map new after) @ concat (map gone before)))" by (simp only: map_append distinct_append simp_thms)
  moreover have "mset (map fst (diffFileMaps before after)) = mset (map fst (concat (map new after) @ concat (map gone before)))"
    unfolding diffFileMaps_def new_def gone_def mset_map mset_sort_by by (rule refl)
  ultimately show ?thesis by (metis mset_eq_imp_distinct_iff)
qed

section \<open>A store of objects\<close>

text \<open>Objects that name themselves, for the closed examples.\<close>

datatype git_object =
    BlobObject bytes
  | TreeObject "(jsstring \<times> jsstring \<times> git_object) list"
  | CommitObject git_object "git_object list"

definition object_entry :: "jsstring \<times> jsstring \<times> git_object \<Rightarrow> git_object tree_entry" where
  "object_entry x = (case x of (pa, m, child) \<Rightarrow>
     \<lparr>entry_path = pa, entry_mode = m, entry_type = type_of_mode m, entry_oid = child\<rparr>)"

definition read_commit_tree_of :: "git_object \<Rightarrow> git_object" where
  "read_commit_tree_of c = (case c of CommitObject t ps \<Rightarrow> t | _ \<Rightarrow> c)"

definition memory_access :: "git_object git_access" where
  "memory_access =
     \<lparr>read_commit_tree = read_commit_tree_of,
      read_parents = (\<lambda>c. case c of CommitObject t ps \<Rightarrow> Some ps | _ \<Rightarrow> None),
      read_tree = (\<lambda>t. case t of TreeObject es \<Rightarrow> map object_entry es | _ \<Rightarrow> []),
      read_blob = (\<lambda>b. case b of BlobObject bs \<Rightarrow> bs | _ \<Rightarrow> []),
      write_blob = BlobObject,
      write_tree = (\<lambda>es. TreeObject (map (\<lambda>e. (entry_path e, entry_mode e, entry_oid e)) es)),
      write_commit = (\<lambda>c. CommitObject (commit_tree_oid c) (commit_parents c)),
      git_merge = (\<lambda>ours theirs unrelated. if read_commit_tree_of ours = read_commit_tree_of theirs
                                           then MergedTree (read_commit_tree_of ours) else MergeConflicts []),
      empty_tree = TreeObject [],
      git_clock = (0, 0)\<rparr>"

lemma memory_read_tree: "read_tree memory_access (write_tree memory_access es)
    = map (\<lambda>e. object_entry (entry_path e, entry_mode e, entry_oid e)) es"
  by (simp add: memory_access_def comp_def)

lemma memory_store_ok: "store_ok memory_access"
  unfolding store_ok_def
proof (intro conjI allI impI)
  fix es :: "git_object tree_entry list" assume "\<forall>e\<in>set es. entry_type e = type_of_mode (entry_mode e)"
  then have "map (\<lambda>e. object_entry (entry_path e, entry_mode e, entry_oid e)) es = es"
    by (intro map_idI) (simp add: object_entry_def)
  then show "set (read_tree memory_access (write_tree memory_access es)) = set es" unfolding memory_read_tree by (rule arg_cong)
qed (simp_all add: memory_access_def read_commit_tree_of_def)

section \<open>Properties\<close>

text \<open>
  Claim C25 (written_trees_read_back). Files written as trees are read back as they were: every path has the object and the mode it had, and no other path
  has any, for paths of at most \<open>n\<close> nonempty segments and a store that gives back what it was given.
\<close>

theorem written_trees_read_back:
  assumes "store_ok A" and "0 < n"
    and "distinct (map fst files)"
    and "\<forall>(pa, f)\<in>set files. [] \<notin> set (segments pa) \<and> length (segments pa) \<le> n \<and> file_mode f \<noteq> js ''040000''"
  shows "\<exists>back. readTreeFiles A n (writeTreeFiles A files) = Some back \<and> map_of back = map_of files \<and> distinct (map fst back)"
  using trees_read_back [OF assms(1,2)] assms(3,4) unfolding usable_def by blast

definition example_files :: "git_object tree_files" where
  "example_files =
     [(js ''notes/a.md'', \<lparr>file_oid = BlobObject [1], file_mode = js ''100644''\<rparr>),
      (js ''run'', \<lparr>file_oid = BlobObject [2], file_mode = js ''100755''\<rparr>),
      (js ''notes/old/b.md'', \<lparr>file_oid = BlobObject [3], file_mode = js ''100644''\<rparr>)]"

lemma example_segments:
  "segments (js ''notes/a.md'') = [js ''notes'', js ''a.md'']" "segments (js ''run'') = [js ''run'']"
  "segments (js ''notes/old/b.md'') = [js ''notes'', js ''old'', js ''b.md'']"
  by code_simp+

theorem written_trees_read_back_witness:
  "\<exists>back. readTreeFiles memory_access 3 (writeTreeFiles memory_access example_files) = Some back
     \<and> map_of back = map_of example_files \<and> distinct (map fst back)"
proof (rule written_trees_read_back [OF memory_store_ok])
  show "distinct (map fst example_files)" by (simp add: example_files_def js_def)
  show "\<forall>(pa, f)\<in>set example_files. [] \<notin> set (segments pa) \<and> length (segments pa) \<le> 3 \<and> file_mode f \<noteq> js ''040000''"
    by (simp add: example_files_def example_segments) (simp add: js_def)
qed simp

text \<open>
  Claim C28 (history_is_counted). A count below its bound, over a skipped history below it too, is the number of commits reachable from the start that
  are not reachable from the excluded commit.
\<close>

theorem history_is_counted:
  assumes "countOnly A (Some x) exclude limit < limit"
    and "length (excluded_commits (read_parents A) exclude limit) < limit"
  shows "countOnly A (Some x) exclude limit
    = card ({c. (x, c) \<in> (parent_of (read_parents A))\<^sup>*} - {c. \<exists>y. exclude = Some y \<and> (y, c) \<in> (parent_of (read_parents A))\<^sup>*})"
proof -
  let ?skip = "set (excluded_commits (read_parents A) exclude limit)"
  have skip: "?skip = {c. \<exists>y. exclude = Some y \<and> (y, c) \<in> (parent_of (read_parents A))\<^sup>*}" by (rule excluded_all [OF assms(2)])
  then have "\<forall>a\<in>?skip. \<forall>b. (a, b) \<in> parent_of (read_parents A) \<longrightarrow> b \<in> ?skip" by (blast intro: rtrancl.rtrancl_into_rtrancl)
  with assms(1) have "set (explore (read_parents A) limit ?skip [x] []) = {c. (x, c) \<in> (parent_of (read_parents A))\<^sup>*} - ?skip
      \<and> distinct (explore (read_parents A) limit ?skip [x] [])"
    by (intro explore_reaches) (simp_all add: countOnly_def)
  then show ?thesis unfolding skip [symmetric] by (simp add: countOnly_def) (metis distinct_card)
qed

definition first_commit :: git_object where
  "first_commit = CommitObject (TreeObject []) []"

definition second_commit :: git_object where
  "second_commit = CommitObject (TreeObject []) [first_commit]"

theorem history_is_counted_witness:
  "countOnly memory_access (Some second_commit) (Some first_commit) 10
    = card ({c. (second_commit, c) \<in> (parent_of (read_parents memory_access))\<^sup>*}
        - {c. \<exists>y. Some first_commit = Some y \<and> (y, c) \<in> (parent_of (read_parents memory_access))\<^sup>*})"
  by (rule history_is_counted) (simp_all add: countOnly_def excluded_commits_def explore.simps memory_access_def first_commit_def second_commit_def)

text \<open>
  Claim C29 (differences_are_exact). The differences of two file maps are sorted by path and name each path at most once: as added, modified or deleted,
  exactly when it is, and no unchanged path.
\<close>

theorem differences_are_exact:
  assumes "distinct (map fst before)" and "distinct (map fst after)"
  shows "(\<forall>pa k. (pa, k) \<in> set (diffFileMaps before after) \<longleftrightarrow> change_at before after pa = Some k)
    \<and> sorted_wrt (\<lambda>a b. compareKeys (fst a) (fst b) \<le> 0) (diffFileMaps before after)
    \<and> distinct (map fst (diffFileMaps before after))"
proof (intro conjI allI)
  show "(pa, k) \<in> set (diffFileMaps before after) \<longleftrightarrow> change_at before after pa = Some k" for pa k
    by (rule diff_lists [OF assms])
  show "sorted_wrt (\<lambda>a b. compareKeys (fst a) (fst b) \<le> 0) (diffFileMaps before after)"
    unfolding diffFileMaps_def by (rule sorted_sort_by [OF compareKeys_consistent])
  show "distinct (map fst (diffFileMaps before after))" by (rule diff_names_once [OF assms])
qed

theorem differences_are_exact_witness:
  "(js ''a'', Deleted) \<in> set (diffFileMaps [(js ''a'', 1 :: nat), (js ''b'', 2)] [(js ''b'', 3), (js ''c'', 4)])
    \<and> (js ''b'', Modified) \<in> set (diffFileMaps [(js ''a'', 1 :: nat), (js ''b'', 2)] [(js ''b'', 3), (js ''c'', 4)])"
proof -
  have d: "distinct (map fst [(js ''a'', 1 :: nat), (js ''b'', 2)])" "distinct (map fst [(js ''b'', 3 :: nat), (js ''c'', 4)])"
    by (simp_all add: js_def)
  show ?thesis using differences_are_exact [OF d] by (simp add: change_at_def js_def)
qed

end
