(* ===== verification/Merge_Lines.thy ===== *)
theory Merge_Lines
  imports Js_Order
begin

text \<open>
  The line merge of \<^verbatim>\<open>packages/folder/src/git/merge-lines.ts\<close>: each side is diffed against the
  base by line, changes that overlap or touch on the base are one region, and a region takes the
  lines of the side that changed it. The diff itself (\<^verbatim>\<open>diffArrays\<close> of the package \<^verbatim>\<open>diff\<close>) is not
  under \<^verbatim>\<open>src/\<close>: it is the parameter \<open>diff\<close>, and what the merge relies on is \<open>diff_ok\<close>: it returns
  an edit script from the one list to the other, and only kept lines for two equal lists.
\<close>

section \<open>Lines and changes\<close>

fun cut_lines :: "jsstring \<Rightarrow> jsstring \<Rightarrow> jsstring list" where
  "cut_lines line [] = (if line = [] then [] else [line])"
| "cut_lines line (c # cs) = (if c = 10 then (line @ [10]) # cut_lines [] cs else cut_lines (line @ [c]) cs)"

definition lines :: "jsstring \<Rightarrow> jsstring list" where
  "lines s = cut_lines [] s"

text \<open>One entry of \<^verbatim>\<open>diffArrays\<close>, with its \<^verbatim>\<open>count\<close>.\<close>

datatype change = Kept nat | Removed nat | Added nat

type_synonym differ = "jsstring list \<Rightarrow> jsstring list \<Rightarrow> change list"

datatype merge_side = OurSide | TheirSide

record hunk =
  side :: merge_side
  baseStart :: nat
  baseEnd :: nat
  sideStart :: nat
  sideEnd :: nat

definition open_hunk :: "merge_side \<Rightarrow> nat \<Rightarrow> nat \<Rightarrow> hunk option \<Rightarrow> hunk" where
  "open_hunk sd atBase atSide open =
     (case open of
        Some h \<Rightarrow> h
      | None \<Rightarrow> \<lparr>side = sd, baseStart = atBase, baseEnd = atBase, sideStart = atSide, sideEnd = atSide\<rparr>)"

fun hunk_loop :: "merge_side \<Rightarrow> hunk option \<Rightarrow> nat \<Rightarrow> nat \<Rightarrow> change list \<Rightarrow> hunk list" where
  "hunk_loop sd open atBase atSide [] = (case open of None \<Rightarrow> [] | Some h \<Rightarrow> [h])"
| "hunk_loop sd open atBase atSide (Kept n # cs) =
     (case open of None \<Rightarrow> [] | Some h \<Rightarrow> [h]) @ hunk_loop sd None (atBase + n) (atSide + n) cs"
| "hunk_loop sd open atBase atSide (Removed n # cs) =
     hunk_loop sd (Some ((open_hunk sd atBase atSide open)\<lparr>baseEnd := atBase + n\<rparr>)) (atBase + n) atSide cs"
| "hunk_loop sd open atBase atSide (Added n # cs) =
     hunk_loop sd (Some ((open_hunk sd atBase atSide open)\<lparr>sideEnd := atSide + n\<rparr>)) atBase (atSide + n) cs"

definition hunks :: "differ \<Rightarrow> merge_side \<Rightarrow> jsstring list \<Rightarrow> jsstring list \<Rightarrow> hunk list" where
  "hunks diff sd b changed = hunk_loop sd None 0 0 (diff b changed)"

section \<open>Merging\<close>

definition compare_hunks :: "hunk \<Rightarrow> hunk \<Rightarrow> int" where
  "compare_hunks l r =
     (if int (baseStart l) - int (baseStart r) \<noteq> 0 then int (baseStart l) - int (baseStart r)
      else int (baseEnd l) - int (baseEnd r))"

text \<open>The inner loop: the hunks that start at or before the end of the region.\<close>

fun take_group :: "nat \<Rightarrow> hunk list \<Rightarrow> hunk list \<Rightarrow> nat \<times> hunk list \<times> hunk list" where
  "take_group e grp [] = (e, grp, [])"
| "take_group e grp (h # hs) =
     (if baseStart h \<le> e then take_group (max e (baseEnd h)) (grp @ [h]) hs else (e, grp, h # hs))"

text \<open>The lines of a side across a region. The bounds of the slice are not negative for hunks of an edit script.\<close>

definition across :: "jsstring list \<Rightarrow> jsstring list \<Rightarrow> merge_side \<Rightarrow> nat \<Rightarrow> nat \<Rightarrow> hunk list \<Rightarrow> jsstring" where
  "across b changed sd start e grp =
     (let own = filter (\<lambda>h. side h = sd) grp in
      if own = [] then concat (slice start e b)
      else concat (slice (sideStart (hd own) - (baseStart (hd own) - start)) (sideEnd (last own) + (e - baseEnd (last own))) changed))"

lemma take_group_rest: "take_group e grp hs = (e', grp', rest) \<Longrightarrow> length rest \<le> length hs"
  by (induction e grp hs rule: take_group.induct) (auto split: if_splits)

function merge_loop ::
    "jsstring list \<Rightarrow> jsstring list \<Rightarrow> jsstring list \<Rightarrow> nat \<Rightarrow> jsstring \<Rightarrow> hunk list \<Rightarrow> jsstring option" where
  "merge_loop b our their cursor merged [] = Some (merged @ concat (drop cursor b))"
| "merge_loop b our their cursor merged (h # hs) =
     (let start = baseStart h;
          (e, grp, rest) = take_group (baseEnd h) [h] hs;
          merged' = merged @ concat (slice cursor start b);
          mine = across b our OurSide start e grp;
          yours = across b their TheirSide start e grp in
      if mine = yours \<or> (\<forall>x\<in>set grp. side x = OurSide) then merge_loop b our their e (merged' @ mine) rest
      else if \<forall>x\<in>set grp. side x = TheirSide then merge_loop b our their e (merged' @ yours) rest
      else None)"
  by pat_completeness auto
termination
  by (relation "measure (\<lambda>(b, our, their, cursor, merged, hs). length hs)")
    (auto dest: take_group_rest [OF sym] simp: less_Suc_eq_le)

definition mergeLines :: "differ \<Rightarrow> jsstring \<Rightarrow> jsstring \<Rightarrow> jsstring \<Rightarrow> jsstring option" where
  "mergeLines diff base ours theirs =
     (let b = lines base; our = lines ours; their = lines theirs in
      merge_loop b our their 0 [] (sort_by compare_hunks (hunks diff OurSide b our @ hunks diff TheirSide b their)))"

section \<open>Lines\<close>

lemma concat_cut_lines: "concat (cut_lines line s) = line @ s"
  by (induction line s rule: cut_lines.induct) auto

lemma concat_lines [simp]: "concat (lines s) = s"
  by (simp add: lines_def concat_cut_lines)

section \<open>Edit scripts\<close>

fun script :: "change list \<Rightarrow> 'a list \<Rightarrow> 'a list \<Rightarrow> bool" where
  "script [] xs ys = (xs = [] \<and> ys = [])"
| "script (Kept n # cs) xs ys = (n \<le> length xs \<and> n \<le> length ys \<and> take n xs = take n ys \<and> script cs (drop n xs) (drop n ys))"
| "script (Removed n # cs) xs ys = (n \<le> length xs \<and> script cs (drop n xs) ys)"
| "script (Added n # cs) xs ys = (n \<le> length ys \<and> script cs xs (drop n ys))"

definition diff_ok :: "differ \<Rightarrow> bool" where
  "diff_ok diff \<longleftrightarrow> (\<forall>xs ys. script (diff xs ys) xs ys) \<and> (\<forall>xs. \<forall>c\<in>set (diff xs xs). \<exists>n. c = Kept n)"

text \<open>
  The hunks of one side, from position \<open>p\<close> of the base and \<open>q\<close> of the side on: between two of
  them the lines of the base are those of the side.
\<close>

fun aligned :: "hunk list \<Rightarrow> nat \<Rightarrow> nat \<Rightarrow> 'a list \<Rightarrow> 'a list \<Rightarrow> bool" where
  "aligned [] p q b ys = (p \<le> length b \<and> q \<le> length ys \<and> drop p b = drop q ys)"
| "aligned (h # hs) p q b ys =
     (p \<le> baseStart h \<and> sideStart h = q + (baseStart h - p) \<and> slice p (baseStart h) b = slice q (sideStart h) ys
      \<and> baseStart h \<le> baseEnd h \<and> sideStart h \<le> sideEnd h \<and> baseEnd h \<le> length b \<and> sideEnd h \<le> length ys
      \<and> aligned hs (baseEnd h) (sideEnd h) b ys)"

lemma slice_from: "slice i j xs = take (j - i) (drop i xs)"
  by (simp add: slice_def drop_take)

lemma slice_all: "slice i (length xs) xs = drop i xs"
  by (simp add: slice_def)

lemma slice_empty [simp]: "slice i i xs = []"
  by (simp add: slice_def)

lemma slice_append: "i \<le> j \<Longrightarrow> j \<le> k \<Longrightarrow> slice i j xs @ slice j k xs = slice i k xs"
proof -
  assume "i \<le> j" "j \<le> k"
  then obtain m n where "j = i + m" "k = i + m + n" by (metis le_Suc_ex)
  then show ?thesis by (simp add: slice_from take_add add.commute)
qed

lemma slice_drop: "i \<le> j \<Longrightarrow> slice i j xs @ drop j xs = drop i xs"
proof -
  assume "i \<le> j"
  then obtain m where "j = i + m" by (metis le_Suc_ex)
  then show ?thesis by (metis add.commute append_take_drop_id slice_from diff_add_inverse drop_drop)
qed

lemma hunk_loop_aligned:
  assumes "script cs (drop p b) (drop q ys)" and "p \<le> length b" and "q \<le> length ys"
  shows "aligned (hunk_loop sd None p q cs) p q b ys
    \<and> (\<forall>h. baseEnd h = p \<longrightarrow> sideEnd h = q \<longrightarrow>
      (\<exists>h' hs. hunk_loop sd (Some h) p q cs = h' # hs \<and> side h' = side h \<and> baseStart h' = baseStart h \<and> sideStart h' = sideStart h
        \<and> p \<le> baseEnd h' \<and> q \<le> sideEnd h' \<and> baseEnd h' \<le> length b \<and> sideEnd h' \<le> length ys
        \<and> aligned hs (baseEnd h') (sideEnd h') b ys))"
  using assms
proof (induction cs arbitrary: p q)
  case Nil
  then show ?case by auto
next
  case (Cons c cs)
  show ?case
  proof (cases c)
    case (Kept n)
    then have n: "n \<le> length b - p" "n \<le> length ys - q" "take n (drop p b) = take n (drop q ys)"
      "script cs (drop (p + n) b) (drop (q + n) ys)"
      using Cons.prems(1) by (simp_all add: add.commute)
    note ih = conjunct1 [OF Cons.IH [OF n(4)]]
    have b: "slice p (p + n) b = slice q (q + n) ys"
      using n(3) by (simp add: slice_def drop_take)
    have al: "aligned (hunk_loop sd None (p + n) (q + n) cs) p q b ys"
    proof (cases "hunk_loop sd None (p + n) (q + n) cs")
      case Nil
      with ih n Cons.prems(2,3) have "drop (p + n) b = drop (q + n) ys" by simp
      with b n(1,2) Cons.prems(2,3) have "drop p b = drop q ys"
        using slice_drop [of p "p + n" b] slice_drop [of q "q + n" ys] by simp
      with Nil Cons.prems show ?thesis by simp
    next
      case (Cons h hs)
      have "p + n \<le> length b" "q + n \<le> length ys" using n(1,2) \<open>p \<le> length b\<close> \<open>q \<le> length ys\<close> by simp_all
      from ih [OF this] have h: "aligned (h # hs) (p + n) (q + n) b ys" by (simp only: Cons)
      then have f: "sideStart h = q + n + (baseStart h - (p + n))" "p + n \<le> baseStart h" "sideStart h \<le> sideEnd h"
        "slice (p + n) (baseStart h) b = slice (q + n) (sideStart h) ys" by auto
      then have g: "sideStart h = q + (baseStart h - p)" "p \<le> baseStart h" "q + n \<le> sideStart h" by linarith+
      have "slice p (baseStart h) b = slice p (p + n) b @ slice (p + n) (baseStart h) b"
        by (rule slice_append [OF le_add1 f(2), symmetric])
      also have "\<dots> = slice q (q + n) ys @ slice (q + n) (sideStart h) ys" by (simp only: b f(4))
      also have "\<dots> = slice q (sideStart h) ys" by (rule slice_append [OF le_add1 g(3)])
      finally have e: "slice p (baseStart h) b = slice q (sideStart h) ys" .
      from h have k: "baseStart h \<le> baseEnd h" "baseEnd h \<le> length b" "sideEnd h \<le> length ys"
        "aligned hs (baseEnd h) (sideEnd h) b ys" by auto
      show ?thesis unfolding Cons aligned.simps by (intro conjI; (rule k f g e))
    qed
    have al2: "aligned (hunk_loop sd None (p + n) (q + n) cs) (p + n) (q + n) b ys"
      using ih n Cons.prems(2,3) by simp
    show ?thesis unfolding Kept hunk_loop.simps using al Cons.prems(2,3)
      by (auto intro!: exI)
  next
    case (Removed n)
    then have n: "n \<le> length b - p" "script cs (drop (p + n) b) (drop q ys)"
      using Cons.prems(1) by (simp_all add: add.commute)
    have grow: "\<exists>h' hs. hunk_loop sd (Some (h\<lparr>baseEnd := p + n\<rparr>)) (p + n) q cs = h' # hs \<and> side h' = side h \<and> baseStart h' = baseStart h
        \<and> sideStart h' = sideStart h \<and> p + n \<le> baseEnd h' \<and> q \<le> sideEnd h' \<and> baseEnd h' \<le> length b \<and> sideEnd h' \<le> length ys
        \<and> aligned hs (baseEnd h') (sideEnd h') b ys" if "sideEnd h = q" for h
      using conjunct2 [OF Cons.IH [OF n(2)], rule_format, of "h\<lparr>baseEnd := p + n\<rparr>"] n(1) Cons.prems(2,3) that by simp
    have new: "aligned (hunk_loop sd None p q (Removed n # cs)) p q b ys"
      using grow [of "\<lparr>side = sd, baseStart = p, baseEnd = p, sideStart = q, sideEnd = q\<rparr>"]
      by (auto simp: open_hunk_def)
    show ?thesis unfolding Removed
    proof (intro conjI allI impI new)
      fix h :: hunk assume h: "baseEnd h = p" "sideEnd h = q"
      from grow [OF h(2)] show "\<exists>h' hs. hunk_loop sd (Some h) p q (Removed n # cs) = h' # hs \<and> side h' = side h
        \<and> baseStart h' = baseStart h \<and> sideStart h' = sideStart h
        \<and> p \<le> baseEnd h' \<and> q \<le> sideEnd h' \<and> baseEnd h' \<le> length b \<and> sideEnd h' \<le> length ys
        \<and> aligned hs (baseEnd h') (sideEnd h') b ys"
        by (auto simp: open_hunk_def)
    qed
  next
    case (Added n)
    then have n: "n \<le> length ys - q" "script cs (drop p b) (drop (q + n) ys)"
      using Cons.prems(1) by (simp_all add: add.commute)
    have grow: "\<exists>h' hs. hunk_loop sd (Some (h\<lparr>sideEnd := q + n\<rparr>)) p (q + n) cs = h' # hs \<and> side h' = side h \<and> baseStart h' = baseStart h
        \<and> sideStart h' = sideStart h \<and> p \<le> baseEnd h' \<and> q + n \<le> sideEnd h' \<and> baseEnd h' \<le> length b \<and> sideEnd h' \<le> length ys
        \<and> aligned hs (baseEnd h') (sideEnd h') b ys" if "baseEnd h = p" for h
      using conjunct2 [OF Cons.IH [OF n(2)], rule_format, of "h\<lparr>sideEnd := q + n\<rparr>"] n(1) Cons.prems(2,3) that by simp
    have new: "aligned (hunk_loop sd None p q (Added n # cs)) p q b ys"
      using grow [of "\<lparr>side = sd, baseStart = p, baseEnd = p, sideStart = q, sideEnd = q\<rparr>"]
      by (auto simp: open_hunk_def)
    show ?thesis unfolding Added
    proof (intro conjI allI impI new)
      fix h :: hunk assume h: "baseEnd h = p" "sideEnd h = q"
      from grow [OF h(1)] show "\<exists>h' hs. hunk_loop sd (Some h) p q (Added n # cs) = h' # hs \<and> side h' = side h
        \<and> baseStart h' = baseStart h \<and> sideStart h' = sideStart h
        \<and> p \<le> baseEnd h' \<and> q \<le> sideEnd h' \<and> baseEnd h' \<le> length b \<and> sideEnd h' \<le> length ys
        \<and> aligned hs (baseEnd h') (sideEnd h') b ys"
        by (auto simp: open_hunk_def)
    qed
  qed
qed

lemma hunk_loop_side: "\<forall>h\<in>set_option open. side h = sd \<Longrightarrow> h \<in> set (hunk_loop sd open p q cs) \<Longrightarrow> side h = sd"
  by (induction sd "open" p q cs rule: hunk_loop.induct) (auto simp: open_hunk_def split: option.splits)

lemma hunks_aligned: "diff_ok diff \<Longrightarrow> aligned (hunks diff sd b ys) 0 0 b ys"
  unfolding hunks_def diff_ok_def using hunk_loop_aligned [of "diff b ys" 0 b 0 ys sd] by simp

lemma hunks_side: "h \<in> set (hunks diff sd b ys) \<Longrightarrow> side h = sd"
  unfolding hunks_def by (rule hunk_loop_side [of None]) simp_all

lemma hunk_loop_kept: "\<forall>c\<in>set cs. \<exists>n. c = Kept n \<Longrightarrow> hunk_loop sd None p q cs = []"
  by (induction cs arbitrary: p q) auto

lemma hunks_none: "diff_ok diff \<Longrightarrow> hunks diff sd b b = []"
  unfolding hunks_def by (rule hunk_loop_kept) (simp add: diff_ok_def)

section \<open>Regions\<close>

text \<open>Moving past lines before the first hunk.\<close>

definition next_start :: "hunk list \<Rightarrow> nat \<Rightarrow> nat" where
  "next_start hs n = (case hs of [] \<Rightarrow> n | h # _ \<Rightarrow> baseStart h)"

lemma slice_parts:
  "p \<le> r \<Longrightarrow> r \<le> k \<Longrightarrow> take (r - p) (slice p k xs) = slice p r xs"
  "p \<le> r \<Longrightarrow> r \<le> k \<Longrightarrow> drop (r - p) (slice p k xs) = slice r k xs"
  by (simp_all add: slice_from drop_take min_def)

lemma aligned_skip:
  assumes "aligned hs p q b ys" and "p \<le> r" and "r \<le> next_start hs (length b)"
  shows "aligned hs r (q + (r - p)) b ys \<and> slice p r b = slice q (q + (r - p)) ys \<and> q + (r - p) \<le> length ys"
proof (cases hs)
  case Nil
  with assms have d: "p \<le> length b" "q \<le> length ys" "drop p b = drop q ys" "r \<le> length b" by (simp_all add: next_start_def)
  from arg_cong [OF d(3), of length] have len: "length b - p = length ys - q" by simp
  have "drop r b = drop (r - p) (drop p b)" "drop (q + (r - p)) ys = drop (r - p) (drop q ys)"
    using assms(2) by (simp_all add: add.commute)
  moreover have "slice p r b = take (r - p) (drop p b)" "slice q (q + (r - p)) ys = take (r - p) (drop q ys)"
    by (simp_all add: slice_from)
  ultimately show ?thesis using d len assms(2) Nil by simp
next
  case (Cons h hs')
  with assms have h: "aligned (h # hs') p q b ys" "r \<le> baseStart h" by (simp_all add: next_start_def)
  define n where "n = sideStart h"
  have s: "n = q + (baseStart h - p)" "slice p (baseStart h) b = slice q n ys" "n \<le> length ys"
    using h(1) by (auto simp: n_def)
  have q: "q \<le> q + (r - p)" "q + (r - p) \<le> n" using s(1) h(2) by simp_all
  have "slice p r b = slice q (q + (r - p)) ys"
    using slice_parts(1) [OF assms(2) h(2), of b] slice_parts(1) [OF q, of ys] s(2) by simp
  moreover have "slice r (baseStart h) b = slice (q + (r - p)) n ys"
    using slice_parts(2) [OF assms(2) h(2), of b] slice_parts(2) [OF q, of ys] s(2) by simp
  moreover have "n = q + (r - p) + (baseStart h - r)" using s(1) assms(2) h(2) by simp
  ultimately show ?thesis using h s q unfolding Cons n_def by simp
qed

lemma aligned_ends: "aligned (h # hs) p q b ys \<Longrightarrow> x \<in> set (h # hs) \<Longrightarrow> baseStart h \<le> baseStart x \<and> baseEnd x \<le> length b"
proof (induction hs arbitrary: h p q)
  case (Cons h' hs)
  from Cons.prems(1) have a: "aligned (h' # hs) (baseEnd h) (sideEnd h) b ys" "baseStart h \<le> baseEnd h" "baseEnd h \<le> baseStart h'"
    "baseEnd h \<le> length b" by auto
  show ?case
  proof (cases "x = h")
    case False
    then have "x \<in> set (h' # hs)" using Cons.prems(2) by simp
    from Cons.IH [OF a(1) this] a show ?thesis by simp
  qed (use a in simp)
qed simp

lemma aligned_proper: "aligned hs p q b ys \<Longrightarrow> x \<in> set hs \<Longrightarrow> baseStart x \<le> baseEnd x"
  by (induction hs arbitrary: p q) auto

text \<open>The own hunks of a region cover the side's lines from where the region starts to where it ends.\<close>

lemma aligned_across:
  assumes "aligned (own @ rest) p q b ys" and "own \<noteq> []" and "baseEnd (last own) \<le> e" and "e \<le> next_start rest (length b)"
  defines "m \<equiv> sideEnd (last own) + (e - baseEnd (last own))"
  shows "aligned rest e m b ys \<and> sideStart (hd own) - (baseStart (hd own) - p) = q \<and> q \<le> m \<and> m \<le> length ys"
  using assms(1,2,3) unfolding m_def
proof (induction own arbitrary: p q)
  case (Cons h own)
  from Cons.prems(1) have h: "sideStart h = q + (baseStart h - p)" "sideStart h \<le> sideEnd h" "aligned (own @ rest) (baseEnd h) (sideEnd h) b ys"
    by auto
  show ?case
  proof (cases "own = []")
    case True
    with aligned_skip [of rest "baseEnd h" "sideEnd h" b ys e] h Cons.prems(3) assms(4) show ?thesis by simp
  next
    case False
    with Cons.IH [OF h(3) False] Cons.prems(3) h show ?thesis by simp
  qed
qed simp

lemma take_group_spec:
  assumes "take_group e grp hs = (e', grp', rest)"
  shows "\<exists>own. grp' = grp @ own \<and> hs = own @ rest \<and> e \<le> e' \<and> (\<forall>h\<in>set own. baseEnd h \<le> e')
    \<and> (e' = e \<or> (\<exists>h\<in>set own. e' = baseEnd h)) \<and> (rest \<noteq> [] \<longrightarrow> e' < baseStart (hd rest))"
  using assms
proof (induction e grp hs rule: take_group.induct)
  case (2 e grp h hs)
  show ?case
  proof (cases "baseStart h \<le> e")
    case True
    with 2 obtain own where o: "grp' = (grp @ [h]) @ own" "hs = own @ rest" "max e (baseEnd h) \<le> e'" "\<forall>h\<in>set own. baseEnd h \<le> e'"
      "e' = max e (baseEnd h) \<or> (\<exists>h\<in>set own. e' = baseEnd h)" "rest \<noteq> [] \<longrightarrow> e' < baseStart (hd rest)" by auto
    then show ?thesis by (intro exI [of _ "h # own"]) (auto simp: max_def split: if_splits)
  next
    case False
    with 2(2) show ?thesis by auto
  qed
qed auto

definition by_side :: "merge_side \<Rightarrow> hunk list \<Rightarrow> hunk list" where
  "by_side sd hs = filter (\<lambda>h. side h = sd) hs"

lemma by_side_simps [simp]: "by_side sd [] = []" "by_side sd (h # hs) = (if side h = sd then h # by_side sd hs else by_side sd hs)"
  "by_side sd (hs @ hs') = by_side sd hs @ by_side sd hs'" "set (by_side sd hs) = {h\<in>set hs. side h = sd}"
  by (simp_all add: by_side_def)

text \<open>
  One region. \<open>start\<close> and \<open>e\<close> bound it on the base, \<open>grp\<close> are its hunks; the side's lines before
  the region are the base's, what stands across it is the side's own run of lines, and the rest
  of the side's hunks start behind it.
\<close>

lemma region_side:
  assumes "aligned (by_side sd (grp @ rest)) p q b ys" and "p \<le> start" and "start \<le> e" and "e \<le> length b"
    and "\<forall>h\<in>set grp. start \<le> baseStart h \<and> baseEnd h \<le> e" and "\<forall>h\<in>set rest. e \<le> baseStart h"
  shows "\<exists>m m'. slice p start b = slice q m ys \<and> across b ys sd start e grp = concat (slice m m' ys)
    \<and> q \<le> m \<and> m \<le> m' \<and> m' \<le> length ys \<and> aligned (by_side sd rest) e m' b ys
    \<and> (by_side sd grp = [] \<longrightarrow> slice m m' ys = slice start e b)"
proof -
  have ns: "start \<le> next_start (by_side sd (grp @ rest)) (length b)"
  proof (cases "by_side sd (grp @ rest)")
    case (Cons h hs)
    then have "h \<in> set grp \<union> set rest" by (metis by_side_simps(4) list.set_intros(1) mem_Collect_eq set_append)
    with Cons assms(3,5,6) show ?thesis by (auto simp: next_start_def)
  qed (use assms(3,4) in \<open>simp add: next_start_def\<close>)
  let ?m = "q + (start - p)"
  from aligned_skip [OF assms(1,2) ns] have a: "aligned (by_side sd grp @ by_side sd rest) start ?m b ys"
    "slice p start b = slice q ?m ys" "?m \<le> length ys" by simp_all
  have nr: "e \<le> next_start (by_side sd rest) (length b)"
  proof (cases "by_side sd rest")
    case (Cons h hs)
    then have "h \<in> set rest" by (metis by_side_simps(4) list.set_intros(1) mem_Collect_eq)
    with Cons assms(6) show ?thesis by (simp add: next_start_def)
  qed (use assms(4) in \<open>simp add: next_start_def\<close>)
  show ?thesis
  proof (cases "by_side sd grp = []")
    case True
    from aligned_skip [of "by_side sd rest" start ?m b ys e] a(1) True assms(3) nr
    have "aligned (by_side sd rest) e (?m + (e - start)) b ys" "slice start e b = slice ?m (?m + (e - start)) ys"
      "?m + (e - start) \<le> length ys" by simp_all
    then show ?thesis using a(2) True by - (rule exI [of _ ?m], rule exI [of _ "?m + (e - start)"], simp add: across_def by_side_def Let_def)
  next
    case False
    then have "last (by_side sd grp) \<in> set grp" by (metis by_side_simps(4) last_in_set mem_Collect_eq)
    then have "baseEnd (last (by_side sd grp)) \<le> e" using assms(5) by blast
    from aligned_across [OF a(1) False this nr] a(2) False show ?thesis
      by - (rule exI [of _ ?m], rule exI [of _ "sideEnd (last (by_side sd grp)) + (e - baseEnd (last (by_side sd grp)))"],
        simp add: across_def by_side_def Let_def)
  qed
qed

section \<open>The hunks in order\<close>

lemma compare_hunks_le: "compare_hunks l r \<le> 0 \<longleftrightarrow> baseStart l < baseStart r \<or> (baseStart l = baseStart r \<and> baseEnd l \<le> baseEnd r)"
  by (auto simp: compare_hunks_def)

lemma compare_hunks_consistent: "consistent compare_hunks"
  unfolding consistent_def compare_hunks_le by auto

lemma aligned_sorted: "aligned hs p q b ys \<Longrightarrow> sorted_wrt (\<lambda>l r. compare_hunks l r \<le> 0) hs"
proof (induction hs arbitrary: p q)
  case (Cons h hs)
  from Cons.prems have h: "aligned hs (baseEnd h) (sideEnd h) b ys" "baseStart h \<le> baseEnd h" by auto
  have "compare_hunks h x \<le> 0" if "x \<in> set hs" for x
  proof (cases hs)
    case (Cons h' hs')
    with h aligned_ends [of h' hs' "baseEnd h" "sideEnd h" b ys x] that
    have x: "baseEnd h \<le> baseStart h'" "baseStart h' \<le> baseStart x" by auto
    have "baseStart x \<le> baseEnd x"
      using h(1) that by (rule aligned_proper)
    with x h(2) show ?thesis by (simp add: compare_hunks_le) linarith
  qed (use that in simp)
  with Cons.IH [OF h(1)] show ?case by simp
qed simp

text \<open>All hunks of a merge, as the loop receives them.\<close>

definition all_hunks :: "differ \<Rightarrow> jsstring list \<Rightarrow> jsstring list \<Rightarrow> jsstring list \<Rightarrow> hunk list" where
  "all_hunks diff b our their = sort_by compare_hunks (hunks diff OurSide b our @ hunks diff TheirSide b their)"

lemma by_side_hunks: "by_side sd (hunks diff sd' b ys) = (if sd = sd' then hunks diff sd' b ys else [])"
  unfolding by_side_def using hunks_side [of _ diff sd' b ys] by (auto simp: filter_id_conv filter_empty_conv)

lemma by_side_all:
  assumes "diff_ok diff"
  shows "by_side OurSide (all_hunks diff b our their) = hunks diff OurSide b our"
    and "by_side TheirSide (all_hunks diff b our their) = hunks diff TheirSide b their"
  unfolding all_hunks_def by_side_def filter_sort_by [OF compare_hunks_consistent]
  unfolding by_side_def [symmetric]
  using by_side_hunks [of OurSide] by_side_hunks [of TheirSide] sort_by_sorted [OF aligned_sorted [OF hunks_aligned [OF assms]]]
  by simp_all

section \<open>Regions\<close>

text \<open>
  How a merge is to be read: the three texts are cut at the same places into parts. A part is
  settled when the result takes our text there, because theirs is the same text or is unchanged
  from the base, or theirs, because ours is unchanged.
\<close>

record part =
  base_part :: "jsstring list"
  our_part :: "jsstring list"
  their_part :: "jsstring list"
  result_part :: jsstring

definition untouched :: "part \<Rightarrow> bool" where
  "untouched p \<longleftrightarrow> our_part p = base_part p \<and> their_part p = base_part p"

definition part_settled :: "part \<Rightarrow> bool" where
  "part_settled p \<longleftrightarrow>
     (result_part p = concat (our_part p) \<and> (concat (their_part p) = concat (our_part p) \<or> their_part p = base_part p))
     \<or> (result_part p = concat (their_part p) \<and> our_part p = base_part p)"

text \<open>Two changed parts never meet: at least one line neither side touched lies between them.\<close>

fun kept_apart :: "part list \<Rightarrow> bool" where
  "kept_apart (p # q # ps) = ((untouched p \<or> untouched q) \<and> kept_apart (q # ps))"
| "kept_apart ps = True"

definition parts_ok :: "part list \<Rightarrow> bool" where
  "parts_ok ps \<longleftrightarrow> (\<forall>p\<in>set ps. part_settled p \<and> (untouched p \<longrightarrow> base_part p \<noteq> [])) \<and> kept_apart ps"

definition cut_into :: "part list \<Rightarrow> jsstring list \<Rightarrow> jsstring list \<Rightarrow> jsstring list \<Rightarrow> jsstring \<Rightarrow> bool" where
  "cut_into ps b our their r \<longleftrightarrow> concat (map base_part ps) = b \<and> concat (map our_part ps) = our
     \<and> concat (map their_part ps) = their \<and> concat (map result_part ps) = r"

definition add_part :: "part \<Rightarrow> part list \<Rightarrow> part list" where
  "add_part p ps = (if untouched p \<and> base_part p = [] then ps else p # ps)"

definition opens_untouched :: "part list \<Rightarrow> bool" where
  "opens_untouched ps \<longleftrightarrow> ps = [] \<or> untouched (hd ps)"

lemma kept_apart_Cons: "kept_apart (p # ps) \<longleftrightarrow> (ps = [] \<or> untouched p \<or> untouched (hd ps)) \<and> kept_apart ps"
  by (cases ps) auto

lemma add_part_ok:
  "part_settled p \<Longrightarrow> parts_ok ps \<Longrightarrow> untouched p \<or> opens_untouched ps \<Longrightarrow> parts_ok (add_part p ps)"
  by (auto simp: parts_ok_def add_part_def kept_apart_Cons opens_untouched_def)

lemma add_part_cut:
  assumes "part_settled p" and "cut_into ps b our their r"
  shows "cut_into (add_part p ps) (base_part p @ b) (our_part p @ our) (their_part p @ their) (result_part p @ r)"
  using assms by (auto simp: cut_into_def add_part_def untouched_def part_settled_def)

lemma add_part_opens: "untouched p \<Longrightarrow> base_part p \<noteq> [] \<Longrightarrow> opens_untouched (add_part p ps)"
  by (simp add: add_part_def opens_untouched_def)

section \<open>The loop\<close>

text \<open>What holds whenever the loop looks at the next hunk.\<close>

definition loop_ready ::
    "jsstring list \<Rightarrow> jsstring list \<Rightarrow> jsstring list \<Rightarrow> nat \<Rightarrow> nat \<Rightarrow> nat \<Rightarrow> hunk list \<Rightarrow> bool" where
  "loop_ready b our their cursor po pt hs \<longleftrightarrow>
     sorted_wrt (\<lambda>l r. compare_hunks l r \<le> 0) hs
     \<and> (\<forall>x\<in>set hs. baseStart x \<le> baseEnd x \<and> baseEnd x \<le> length b \<and> cursor \<le> baseStart x)
     \<and> aligned (by_side OurSide hs) cursor po b our \<and> aligned (by_side TheirSide hs) cursor pt b their \<and> cursor \<le> length b"

lemma group_region:
  assumes "take_group (baseEnd h) [h] hs = (e, grp, rest)" and "sorted_wrt (\<lambda>l r. compare_hunks l r \<le> 0) (h # hs)"
    and "\<forall>x\<in>set (h # hs). baseStart x \<le> baseEnd x \<and> baseEnd x \<le> length b"
  shows "h # hs = grp @ rest \<and> baseStart h \<le> e \<and> e \<le> length b
    \<and> (\<forall>x\<in>set grp. baseStart h \<le> baseStart x \<and> baseEnd x \<le> e) \<and> (\<forall>x\<in>set rest. e < baseStart x)"
proof -
  from take_group_spec [OF assms(1)] obtain own where o: "grp = [h] @ own" "hs = own @ rest" "baseEnd h \<le> e"
    "\<forall>x\<in>set own. baseEnd x \<le> e" "e = baseEnd h \<or> (\<exists>x\<in>set own. e = baseEnd x)" "rest \<noteq> [] \<longrightarrow> e < baseStart (hd rest)" by auto
  have first: "baseStart h \<le> baseStart x" if "x \<in> set hs" for x
    using assms(2) that by (auto simp: compare_hunks_le)
  have "e < baseStart x" if "x \<in> set rest" for x
  proof (cases rest)
    case (Cons r rs)
    then have "sorted_wrt (\<lambda>l r. compare_hunks l r \<le> 0) (r # rs)" using assms(2) o(2) by (simp add: sorted_wrt_append)
    then have "baseStart r \<le> baseStart x" using that Cons by (auto simp: compare_hunks_le)
    with o(6) Cons show ?thesis by simp
  qed (use that in simp)
  moreover have "e \<le> length b" using o(2,5) assms(3) by auto
  moreover have "baseStart h \<le> e" using o(3) assms(3) by auto
  moreover have "\<forall>x\<in>set grp. baseStart h \<le> baseStart x \<and> baseEnd x \<le> e" using o first by auto
  ultimately show ?thesis using o(1,2) by simp
qed

lemma loop_step:
  assumes "loop_ready b our their cursor po pt (h # hs)" and "take_group (baseEnd h) [h] hs = (e, grp, rest)"
  obtains mo mo' mt mt' where "loop_ready b our their e mo' mt' rest" and "\<forall>x\<in>set rest. e < baseStart x"
    and "h # hs = grp @ rest" and "\<forall>x\<in>set grp. baseStart x \<le> e" and "cursor \<le> baseStart h" and "baseStart h \<le> e"
    and "slice cursor (baseStart h) b = slice po mo our" and "slice cursor (baseStart h) b = slice pt mt their"
    and "across b our OurSide (baseStart h) e grp = concat (slice mo mo' our)"
    and "across b their TheirSide (baseStart h) e grp = concat (slice mt mt' their)"
    and "drop cursor b = slice cursor (baseStart h) b @ slice (baseStart h) e b @ drop e b"
    and "drop po our = slice po mo our @ slice mo mo' our @ drop mo' our"
    and "drop pt their = slice pt mt their @ slice mt mt' their @ drop mt' their"
    and "by_side OurSide grp = [] \<longrightarrow> slice mo mo' our = slice (baseStart h) e b"
    and "by_side TheirSide grp = [] \<longrightarrow> slice mt mt' their = slice (baseStart h) e b"
proof -
  from assms(1) have r: "sorted_wrt (\<lambda>l r. compare_hunks l r \<le> 0) (h # hs)"
    "\<forall>x\<in>set (h # hs). baseStart x \<le> baseEnd x \<and> baseEnd x \<le> length b" "cursor \<le> baseStart h"
    "aligned (by_side OurSide (h # hs)) cursor po b our" "aligned (by_side TheirSide (h # hs)) cursor pt b their"
    unfolding loop_ready_def by auto
  from group_region [OF assms(2) r(1,2)] have g: "h # hs = grp @ rest" "baseStart h \<le> e" "e \<le> length b"
    "\<forall>x\<in>set grp. baseStart h \<le> baseStart x \<and> baseEnd x \<le> e" "\<forall>x\<in>set rest. e < baseStart x" by blast+
  then have le: "\<forall>x\<in>set rest. e \<le> baseStart x" by (meson less_imp_le)
  have ge: "\<forall>x\<in>set grp. baseStart x \<le> e"
  proof
    fix x assume x: "x \<in> set grp"
    then have "baseStart x \<le> baseEnd x" using r(2) g(1) by auto
    also have "\<dots> \<le> e" using g(4) x by blast
    finally show "baseStart x \<le> e" .
  qed
  from region_side [OF r(4) [unfolded g(1)] r(3) g(2,3,4) le] obtain mo mo' where
    o: "slice cursor (baseStart h) b = slice po mo our" "across b our OurSide (baseStart h) e grp = concat (slice mo mo' our)"
      "po \<le> mo" "mo \<le> mo'" "aligned (by_side OurSide rest) e mo' b our"
      "by_side OurSide grp = [] \<longrightarrow> slice mo mo' our = slice (baseStart h) e b" by blast
  from region_side [OF r(5) [unfolded g(1)] r(3) g(2,3,4) le] obtain mt mt' where
    t: "slice cursor (baseStart h) b = slice pt mt their" "across b their TheirSide (baseStart h) e grp = concat (slice mt mt' their)"
      "pt \<le> mt" "mt \<le> mt'" "aligned (by_side TheirSide rest) e mt' b their"
      "by_side TheirSide grp = [] \<longrightarrow> slice mt mt' their = slice (baseStart h) e b" by blast
  have "loop_ready b our their e mo' mt' rest"
    unfolding loop_ready_def using r(1,2) g le o(5) t(5) by (auto simp: sorted_wrt_append)
  moreover have "drop cursor b = slice cursor (baseStart h) b @ slice (baseStart h) e b @ drop e b"
    by (simp only: slice_drop [OF g(2)] slice_drop [OF r(3)])
  moreover have "drop po our = slice po mo our @ slice mo mo' our @ drop mo' our"
    by (simp only: slice_drop [OF o(3)] slice_drop [OF o(4)])
  moreover have "drop pt their = slice pt mt their @ slice mt mt' their @ drop mt' their"
    by (simp only: slice_drop [OF t(3)] slice_drop [OF t(4)])
  ultimately show ?thesis
    using that [OF _ g(5) g(1) ge r(3) g(2) o(1) t(1) o(2) t(2) _ _ _ o(6) t(6)] by blast
qed

lemma merge_loop_Cons:
  assumes "take_group (baseEnd h) [h] hs = (e, grp, rest)"
  shows "merge_loop b our their cursor merged (h # hs) =
    (let mine = across b our OurSide (baseStart h) e grp; yours = across b their TheirSide (baseStart h) e grp;
         merged' = merged @ concat (slice cursor (baseStart h) b) in
     if mine = yours \<or> by_side TheirSide grp = [] then merge_loop b our their e (merged' @ mine) rest
     else if by_side OurSide grp = [] then merge_loop b our their e (merged' @ yours) rest
     else None)"
proof -
  have s: "(\<forall>x\<in>set grp. side x = OurSide) = (by_side TheirSide grp = [])" "(\<forall>x\<in>set grp. side x = TheirSide) = (by_side OurSide grp = [])"
    by (auto simp: by_side_def filter_empty_conv) (metis merge_side.exhaust)+
  show ?thesis by (simp add: assms s Let_def)
qed

lemma rest_shorter: "take_group (baseEnd h) [h] hs = (e, grp, rest) \<Longrightarrow> length rest < length (h # hs)"
  using take_group_rest [of "baseEnd h" "[h]" hs] by (simp add: less_Suc_eq_le)

lemma untouched_ok: "part_settled (\<lparr>base_part = xs, our_part = xs, their_part = xs, result_part = concat xs\<rparr>)"
  "untouched \<lparr>base_part = xs, our_part = xs, their_part = xs, result_part = concat xs\<rparr>"
  by (simp_all add: part_settled_def untouched_def)

lemma merge_loop_parts:
  "loop_ready b our their cursor po pt hs \<Longrightarrow> merge_loop b our their cursor merged hs = Some r \<Longrightarrow>
    \<exists>ps q. r = merged @ q \<and> cut_into ps (drop cursor b) (drop po our) (drop pt their) q \<and> parts_ok ps
      \<and> ((\<forall>x\<in>set hs. cursor < baseStart x) \<longrightarrow> opens_untouched ps)"
proof (induction hs arbitrary: cursor po pt merged rule: length_induct)
  case (1 hs)
  show ?case
  proof (cases hs)
    case Nil
    define g where "g = \<lparr>base_part = drop cursor b, our_part = drop cursor b, their_part = drop cursor b, result_part = concat (drop cursor b)\<rparr>"
    have g: "part_settled g" "untouched g" unfolding g_def by (rule untouched_ok)+
    have d: "drop cursor b = drop po our" "drop cursor b = drop pt their" using 1(2) Nil by (auto simp: loop_ready_def)
    have "cut_into (add_part g []) (drop cursor b) (drop po our) (drop pt their) (concat (drop cursor b))"
      using add_part_cut [OF g(1), of "[]" "[]" "[]" "[]" "[]"] unfolding d(1) [symmetric] d(2) [symmetric] by (simp add: cut_into_def g_def)
    moreover have "parts_ok (add_part g [])" using add_part_ok [OF g(1), of "[]"] g(2) by (simp add: parts_ok_def)
    moreover have "opens_untouched (add_part g [])" using g(2) by (simp add: add_part_def opens_untouched_def)
    moreover have "r = merged @ concat (drop cursor b)" using 1(3) Nil by simp
    ultimately show ?thesis by blast
  next
    case (Cons h hs')
    obtain e grp rest where tg: "take_group (baseEnd h) [h] hs' = (e, grp, rest)" by (metis prod_cases3)
    from loop_step [OF 1(2) [unfolded Cons] tg] obtain mo mo' mt mt' where st:
      "loop_ready b our their e mo' mt' rest" "\<forall>x\<in>set rest. e < baseStart x" "cursor \<le> baseStart h" "baseStart h \<le> e"
      "slice cursor (baseStart h) b = slice po mo our" "slice cursor (baseStart h) b = slice pt mt their"
      "across b our OurSide (baseStart h) e grp = concat (slice mo mo' our)"
      "across b their TheirSide (baseStart h) e grp = concat (slice mt mt' their)"
      and cut: "drop cursor b = slice cursor (baseStart h) b @ slice (baseStart h) e b @ drop e b"
      "drop po our = slice po mo our @ slice mo mo' our @ drop mo' our"
      "drop pt their = slice pt mt their @ slice mt mt' their @ drop mt' their"
      and same: "by_side OurSide grp = [] \<longrightarrow> slice mo mo' our = slice (baseStart h) e b"
      "by_side TheirSide grp = [] \<longrightarrow> slice mt mt' their = slice (baseStart h) e b" by metis
    define gap where "gap = slice cursor (baseStart h) b"
    define mine where "mine = concat (slice mo mo' our)"
    define yours where "yours = concat (slice mt mt' their)"
    define chosen where "chosen = (if mine = yours \<or> by_side TheirSide grp = [] then mine else yours)"
    define g where "g = \<lparr>base_part = gap, our_part = gap, their_part = gap, result_part = concat gap\<rparr>"
    define p where "p = \<lparr>base_part = slice (baseStart h) e b, our_part = slice mo mo' our, their_part = slice mt mt' their,
      result_part = chosen\<rparr>"
    have g: "part_settled g" "untouched g" unfolding g_def by (rule untouched_ok)+
    have run: "merge_loop b our their e ((merged @ concat gap) @ chosen) rest = Some r"
      and pick: "mine = yours \<or> by_side TheirSide grp = [] \<or> by_side OurSide grp = []"
      using 1(3) unfolding Cons merge_loop_Cons [OF tg] st(7,8) Let_def
      by (auto simp: mine_def yours_def chosen_def gap_def split: if_splits)
    have p: "part_settled p"
      using pick same by (auto simp: part_settled_def p_def chosen_def mine_def yours_def)
    have "length rest < length hs" using rest_shorter [OF tg] Cons by simp
    from 1(1) [rule_format, OF this st(1) run] obtain ps q where
      ih: "r = ((merged @ concat gap) @ chosen) @ q" "cut_into ps (drop e b) (drop mo' our) (drop mt' their) q" "parts_ok ps"
      "opens_untouched ps" using st(2) by blast
    have "cut_into (add_part g (add_part p ps)) (gap @ slice (baseStart h) e b @ drop e b)
       (gap @ slice mo mo' our @ drop mo' our) (gap @ slice mt mt' their @ drop mt' their) (concat gap @ chosen @ q)"
      using add_part_cut [OF g(1) add_part_cut [OF p ih(2)]] by (simp add: g_def p_def)
    then have "cut_into (add_part g (add_part p ps)) (drop cursor b) (drop po our) (drop pt their) (concat gap @ chosen @ q)"
      unfolding cut unfolding st(5,6) [symmetric] unfolding gap_def .
    moreover have "parts_ok (add_part g (add_part p ps))"
      by (intro add_part_ok g(1) p ih(3) disjI1 disjI2 g(2) ih(4))
    moreover have "opens_untouched (add_part g (add_part p ps))" if "\<forall>x\<in>set hs. cursor < baseStart x"
    proof -
      have "baseStart h \<le> length b" using 1(2) Cons by (auto simp: loop_ready_def)
      then have "gap \<noteq> []" using that Cons by (simp add: gap_def slice_def)
      then show ?thesis using add_part_opens [OF g(2)] by (simp add: g_def)
    qed
    moreover have "r = merged @ (concat gap @ chosen @ q)" using ih(1) by simp
    ultimately show ?thesis by blast
  qed
qed

section \<open>One changed side, or two equal ones\<close>

definition reside :: "merge_side \<Rightarrow> hunk \<Rightarrow> hunk" where
  "reside sd h = h\<lparr>side := sd\<rparr>"

lemma reside_simps [simp]: "baseStart (reside sd h) = baseStart h" "baseEnd (reside sd h) = baseEnd h"
  "sideStart (reside sd h) = sideStart h" "sideEnd (reside sd h) = sideEnd h"
  by (simp_all add: reside_def)

lemma reside_grow: "(reside sd h)\<lparr>baseEnd := n\<rparr> = reside sd (h\<lparr>baseEnd := n\<rparr>)"
  "(reside sd h)\<lparr>sideEnd := n\<rparr> = reside sd (h\<lparr>sideEnd := n\<rparr>)"
  "open_hunk sd p q (map_option (reside sd) open) = reside sd (open_hunk sd' p q open)"
  by (simp_all add: reside_def open_hunk_def split: option.split)

text \<open>Both sides have the same hunks.\<close>

definition twin :: "hunk list \<Rightarrow> bool" where
  "twin hs \<longleftrightarrow> map (reside OurSide) (by_side TheirSide hs) = by_side OurSide hs"

lemma hunk_loop_reside:
  "hunk_loop sd (map_option (reside sd) open) p q cs = map (reside sd) (hunk_loop sd' open p q cs)"
proof (induction sd' "open" p q cs rule: hunk_loop.induct)
  case (3 sd' "open" p q n cs)
  show ?case using 3 [unfolded option.map] unfolding hunk_loop.simps reside_grow(3) [of sd p q "open" sd'] reside_grow(1) .
next
  case (4 sd' "open" p q n cs)
  show ?case using 4 [unfolded option.map] unfolding hunk_loop.simps reside_grow(3) [of sd p q "open" sd'] reside_grow(2) .
qed (simp_all split: option.split)

lemma hunks_reside: "map (reside OurSide) (hunks diff TheirSide b ys) = hunks diff OurSide b ys"
  using hunk_loop_reside [of OurSide None] by (simp add: hunks_def)

lemma across_twin:
  assumes "twin grp"
  shows "across b ys OurSide s e grp = across b ys TheirSide s e grp"
proof -
  have "by_side OurSide grp = map (reside OurSide) (by_side TheirSide grp)" using assms by (simp add: twin_def)
  then show ?thesis
    by (cases "by_side TheirSide grp = []") (simp_all add: across_def Let_def last_map hd_map flip: by_side_def)
qed

lemma twin_parts:
  assumes "twin (grp @ rest)" and "\<forall>x\<in>set grp. baseStart x \<le> e" and "\<forall>x\<in>set rest. e < baseStart x"
  shows "twin grp" and "twin rest"
proof -
  have g: "filter (\<lambda>h. baseStart h \<le> e) (by_side sd (grp @ rest)) = by_side sd grp"
    and r: "filter (\<lambda>h. e < baseStart h) (by_side sd (grp @ rest)) = by_side sd rest" for sd
    using assms(2,3) by (auto simp: filter_id_conv filter_empty_conv)
  have m: "filter P (map (reside OurSide) xs) = map (reside OurSide) (filter P xs)"
    if "\<And>h. P (reside OurSide h) = P h" for P xs by (simp add: filter_map o_def that)
  have "map (reside OurSide) (filter P (by_side TheirSide (grp @ rest))) = filter P (by_side OurSide (grp @ rest))"
    if "\<And>h. P (reside OurSide h) = P h" for P
    by (simp only: m [of P, OF that, symmetric] assms(1) [unfolded twin_def])
  then show "twin grp" "twin rest" unfolding twin_def g [symmetric] r [symmetric] by simp_all
qed

lemma merge_loop_ours:
  "loop_ready b our their cursor po pt hs \<Longrightarrow> by_side TheirSide hs = [] \<or> (our = their \<and> twin hs) \<Longrightarrow>
    merge_loop b our their cursor merged hs = Some (merged @ concat (drop po our))"
proof (induction hs arbitrary: cursor po pt merged rule: length_induct)
  case (1 hs)
  show ?case
  proof (cases hs)
    case Nil
    with 1(2) show ?thesis by (auto simp: loop_ready_def)
  next
    case (Cons h hs')
    obtain e grp rest where tg: "take_group (baseEnd h) [h] hs' = (e, grp, rest)" by (metis prod_cases3)
    from loop_step [OF 1(2) [unfolded Cons] tg] obtain mo mo' mt mt' where st:
      "loop_ready b our their e mo' mt' rest" "\<forall>x\<in>set rest. e < baseStart x" "h # hs' = grp @ rest" "\<forall>x\<in>set grp. baseStart x \<le> e"
      "slice cursor (baseStart h) b = slice po mo our"
      "across b our OurSide (baseStart h) e grp = concat (slice mo mo' our)"
      "drop po our = slice po mo our @ slice mo mo' our @ drop mo' our" by metis
    have d: "by_side TheirSide grp = [] \<and> by_side TheirSide rest = [] \<or> our = their \<and> twin grp \<and> twin rest"
      using 1(3) twin_parts [OF _ st(4) st(2)] unfolding Cons st(3) by auto
    then have pick: "across b our OurSide (baseStart h) e grp = across b their TheirSide (baseStart h) e grp \<or> by_side TheirSide grp = []"
      using across_twin by blast
    have "length rest < length hs" using rest_shorter [OF tg] Cons by simp
    with 1(1) st(1) d have "merge_loop b our their e m rest = Some (m @ concat (drop mo' our))" for m by blast
    then show ?thesis unfolding Cons merge_loop_Cons [OF tg] Let_def if_P [OF pick] unfolding st(5-7) by simp
  qed
qed

lemma merge_loop_theirs:
  "loop_ready b our their cursor po pt hs \<Longrightarrow> by_side OurSide hs = [] \<Longrightarrow>
    merge_loop b our their cursor merged hs = Some (merged @ concat (drop pt their))"
proof (induction hs arbitrary: cursor po pt merged rule: length_induct)
  case (1 hs)
  show ?case
  proof (cases hs)
    case Nil
    with 1(2) show ?thesis by (auto simp: loop_ready_def)
  next
    case (Cons h hs')
    obtain e grp rest where tg: "take_group (baseEnd h) [h] hs' = (e, grp, rest)" by (metis prod_cases3)
    from loop_step [OF 1(2) [unfolded Cons] tg] obtain mo mo' mt mt' where st:
      "loop_ready b our their e mo' mt' rest" "h # hs' = grp @ rest" "slice cursor (baseStart h) b = slice pt mt their"
      "across b their TheirSide (baseStart h) e grp = concat (slice mt mt' their)"
      "drop pt their = slice pt mt their @ slice mt mt' their @ drop mt' their" by metis
    have d: "by_side OurSide grp = []" "by_side OurSide rest = []" using 1(3) unfolding Cons st(2) by simp_all
    have "h \<in> set grp" using take_group_spec [OF tg] by auto
    then have n: "by_side TheirSide grp \<noteq> []" using d(1) by (cases "side h") (auto simp: by_side_def filter_empty_conv)
    have "length rest < length hs" using rest_shorter [OF tg] Cons by simp
    with 1(1) st(1) d have "merge_loop b our their e m rest = Some (m @ concat (drop mt' their))" for m by blast
    then show ?thesis unfolding Cons merge_loop_Cons [OF tg] Let_def using n d(1) unfolding st(3-5) by simp
  qed
qed

lemma all_hunks_ready:
  assumes "diff_ok diff"
  shows "loop_ready b our their 0 0 0 (all_hunks diff b our their)"
proof -
  have p: "\<forall>x\<in>set (hunks diff sd b ys). baseStart x \<le> baseEnd x \<and> baseEnd x \<le> length b" for sd ys
  proof (cases "hunks diff sd b ys")
    case (Cons h hs)
    with hunks_aligned [OF assms, of sd b ys] show ?thesis
      using aligned_proper [of "h # hs" 0 0 b ys] aligned_ends [of h hs 0 0 b ys] by metis
  qed simp
  show ?thesis unfolding loop_ready_def
  proof (intro conjI)
    show "sorted_wrt (\<lambda>l r. compare_hunks l r \<le> 0) (all_hunks diff b our their)"
      unfolding all_hunks_def by (rule sorted_sort_by [OF compare_hunks_consistent])
    show "\<forall>x\<in>set (all_hunks diff b our their). baseStart x \<le> baseEnd x \<and> baseEnd x \<le> length b \<and> 0 \<le> baseStart x"
      using p by (auto simp: all_hunks_def)
    show "aligned (by_side OurSide (all_hunks diff b our their)) 0 0 b our"
      "aligned (by_side TheirSide (all_hunks diff b our their)) 0 0 b their"
      unfolding by_side_all [OF assms] by (rule hunks_aligned [OF assms])+
  qed simp
qed

lemma mergeLines_loop:
  "mergeLines diff base ours theirs =
    merge_loop (lines base) (lines ours) (lines theirs) 0 [] (all_hunks diff (lines base) (lines ours) (lines theirs))"
  by (simp add: mergeLines_def all_hunks_def Let_def)

section \<open>Exchanging the sides\<close>

definition other :: "merge_side \<Rightarrow> merge_side" where
  "other sd = (case sd of OurSide \<Rightarrow> TheirSide | TheirSide \<Rightarrow> OurSide)"

text \<open>Two lists of hunks that are the same up to the names of the sides and the order of the two sides.\<close>

definition mirrored :: "hunk list \<Rightarrow> hunk list \<Rightarrow> bool" where
  "mirrored hs ks \<longleftrightarrow> (\<forall>sd. by_side sd hs = map (reside sd) (by_side (other sd) ks))"

lemma other_simps [simp]: "other OurSide = TheirSide" "other TheirSide = OurSide" "other (other sd) = sd"
  by (simp_all add: other_def split: merge_side.split)

lemma mirrored_across: "mirrored grp grp' \<Longrightarrow> across b ys sd s e grp = across b ys (other sd) s e grp'"
  by (cases "by_side (other sd) grp' = []")
    (simp_all add: mirrored_def across_def Let_def last_map hd_map flip: by_side_def)

lemma mirrored_mem:
  assumes "mirrored hs ks" and "h \<in> set hs"
  shows "\<exists>k\<in>set ks. baseStart k = baseStart h \<and> baseEnd k = baseEnd h"
proof -
  have "h \<in> set (by_side (side h) hs)" using assms(2) by simp
  then have "h \<in> set (map (reside (side h)) (by_side (other (side h)) ks))" using assms(1) unfolding mirrored_def by metis
  then obtain k where "k \<in> set ks" "h = reside (side h) k" by auto
  then show ?thesis by (metis reside_simps(1,2))
qed

lemma reside_side [simp]: "reside sd (reside sd' h) = reside sd h" "reside (side h) h = h"
  by (simp_all add: reside_def)

lemma mirrored_sym: "mirrored hs ks \<Longrightarrow> mirrored ks hs"
proof -
  assume m: "mirrored hs ks"
  have "by_side sd ks = map (reside sd) (by_side (other sd) hs)" for sd
  proof -
    have "map (reside sd) (by_side (other sd) hs) = map (reside sd) (by_side sd ks)" using m by (simp add: mirrored_def)
    also have "\<dots> = by_side sd ks" by (rule map_idI) auto
    finally show ?thesis by simp
  qed
  then show ?thesis by (simp add: mirrored_def)
qed

lemma mirrored_split:
  assumes "mirrored (grp @ rest) (grp' @ rest')" and "\<forall>x\<in>set grp. baseStart x \<le> e" and "\<forall>x\<in>set rest. e < baseStart x"
    and "\<forall>x\<in>set grp'. baseStart x \<le> e" and "\<forall>x\<in>set rest'. e < baseStart x"
  shows "mirrored grp grp'" and "mirrored rest rest'"
proof -
  have low: "filter (\<lambda>h. baseStart h \<le> e) (by_side sd (us @ vs)) = by_side sd us"
    and high: "filter (\<lambda>h. e < baseStart h) (by_side sd (us @ vs)) = by_side sd vs"
    if "\<forall>x\<in>set us. baseStart x \<le> e" "\<forall>x\<in>set vs. e < baseStart x" for sd us vs
    using that by (auto simp: filter_id_conv filter_empty_conv)
  have "filter P (by_side sd (grp @ rest)) = map (reside sd) (filter P (by_side (other sd) (grp' @ rest')))"
    if "\<And>h. P (reside sd h) = P h" for P sd
    using assms(1) that unfolding mirrored_def by (simp add: filter_map o_def del: by_side_simps)
  then show "mirrored grp grp'" "mirrored rest rest'"
    unfolding mirrored_def low [OF assms(2,3), symmetric] low [OF assms(4,5), symmetric]
      high [OF assms(2,3), symmetric] high [OF assms(4,5), symmetric] by simp_all
qed

text \<open>The end of a region is the least position the region is closed at.\<close>

lemma take_group_least:
  "take_group e grp hs = (e', grp', rest) \<Longrightarrow> e \<le> E \<Longrightarrow> \<forall>h\<in>set hs. baseStart h \<le> E \<longrightarrow> baseEnd h \<le> E \<Longrightarrow> e' \<le> E"
  by (induction e grp hs rule: take_group.induct) (auto split: if_splits)

lemma sorted_first: "sorted_wrt (\<lambda>l r. compare_hunks l r \<le> 0) (h # hs) \<Longrightarrow> x \<in> set (h # hs) \<Longrightarrow> compare_hunks h x \<le> 0"
  by (auto simp: compare_hunks_def)

lemma mirrored_head:
  assumes "mirrored (h # hs) (k # ks)" and "sorted_wrt (\<lambda>l r. compare_hunks l r \<le> 0) (h # hs)"
    and "sorted_wrt (\<lambda>l r. compare_hunks l r \<le> 0) (k # ks)"
  shows "baseStart k = baseStart h \<and> baseEnd k = baseEnd h"
proof -
  from mirrored_mem [OF assms(1), of h] obtain k2 where k2: "k2 \<in> set (k # ks)" "baseStart k2 = baseStart h" "baseEnd k2 = baseEnd h"
    by auto
  from mirrored_mem [OF mirrored_sym [OF assms(1)], of k] obtain h2 where
    h2: "h2 \<in> set (h # hs)" "baseStart h2 = baseStart k" "baseEnd h2 = baseEnd k" by auto
  from sorted_first [OF assms(3) k2(1)] sorted_first [OF assms(2) h2(1)] show ?thesis
    unfolding compare_hunks_le k2(2,3) h2(2,3) by linarith
qed

lemma region_closed:
  assumes "take_group (baseEnd k) [k] ks = (e', grp', rest')" and "baseEnd k \<le> e" and "mirrored (k # ks) (grp @ rest)"
    and "\<forall>x\<in>set grp. baseEnd x \<le> e" and "\<forall>x\<in>set rest. e < baseStart x"
  shows "e' \<le> e"
proof (rule take_group_least [OF assms(1,2)], intro ballI impI)
  fix z assume z: "z \<in> set ks" "baseStart z \<le> e"
  from mirrored_mem [OF assms(3), of z] z(1) obtain w where
    w: "w \<in> set (grp @ rest)" "baseStart w = baseStart z" "baseEnd w = baseEnd z" by auto
  have "w \<notin> set rest" using assms(5) w(2) z(2) by (metis leD)
  then show "baseEnd z \<le> e" using w(1,3) assms(4) by (metis Un_iff set_append)
qed

lemma merge_loop_mirrored:
  "loop_ready b our their cursor po pt hs \<Longrightarrow> loop_ready b their our cursor qo qt ks \<Longrightarrow> mirrored hs ks \<Longrightarrow>
    merge_loop b our their cursor merged hs = merge_loop b their our cursor merged ks"
proof (induction hs arbitrary: ks cursor po pt qo qt merged rule: length_induct)
  case (1 hs)
  show ?case
  proof (cases hs)
    case Nil
    have "ks = []"
    proof (rule ccontr)
      assume "ks \<noteq> []"
      then have "hd ks \<in> set ks" by simp
      from mirrored_mem [OF mirrored_sym [OF 1(4)] this] Nil show False by auto
    qed
    with Nil show ?thesis by simp
  next
    case (Cons h hs')
    from mirrored_mem [OF 1(4), of h] Cons have "ks \<noteq> []" by auto
    then obtain k ks' where ks: "ks = k # ks'" by (cases ks) auto
    obtain e grp rest where tg: "take_group (baseEnd h) [h] hs' = (e, grp, rest)" by (metis prod_cases3)
    obtain e' grp' rest' where tk: "take_group (baseEnd k) [k] ks' = (e', grp', rest')" by (metis prod_cases3)
    from loop_step [OF 1(2) [unfolded Cons] tg] obtain po' pt' where st:
      "loop_ready b our their e po' pt' rest" "\<forall>x\<in>set rest. e < baseStart x" "h # hs' = grp @ rest" "\<forall>x\<in>set grp. baseStart x \<le> e"
      by metis
    from loop_step [OF 1(3) [unfolded ks] tk] obtain qo' qt' where su:
      "loop_ready b their our e' qo' qt' rest'" "\<forall>x\<in>set rest'. e' < baseStart x" "k # ks' = grp' @ rest'" "\<forall>x\<in>set grp'. baseStart x \<le> e'"
      by metis
    have m: "mirrored (h # hs') (k # ks')" "mirrored (k # ks') (h # hs')" using 1(4) mirrored_sym Cons ks by auto
    have hk: "baseStart k = baseStart h" "baseEnd k = baseEnd h"
      using mirrored_head [OF m(1)] 1(2,3) Cons ks by (auto simp: loop_ready_def)
    have gh: "\<forall>x\<in>set grp. baseEnd x \<le> e" "baseEnd h \<le> e" and gk: "\<forall>x\<in>set grp'. baseEnd x \<le> e'" "baseEnd k \<le> e'"
      using take_group_spec [OF tg] take_group_spec [OF tk] by auto
    have "e' \<le> e" using region_closed [OF tk _ m(2) [unfolded st(3)] gh(1) st(2)] gh(2) hk by simp
    moreover have "e \<le> e'" using region_closed [OF tg _ m(1) [unfolded su(3)] gk(1) su(2)] gk(2) hk by simp
    ultimately have e: "e' = e" by simp
    have mg: "mirrored grp grp'" and mr: "mirrored rest rest'"
      using mirrored_split [of grp rest grp' rest' e] m(1) st(2-4) su(2-4) e by simp_all
    have empt: "by_side OurSide grp = [] \<longleftrightarrow> by_side TheirSide grp' = []" "by_side TheirSide grp = [] \<longleftrightarrow> by_side OurSide grp' = []"
      using mg by (simp_all add: mirrored_def)
    have some: "\<not> (by_side OurSide grp = [] \<and> by_side TheirSide grp = [])"
      using take_group_spec [OF tg] by (cases "side h") (auto simp: by_side_def filter_empty_conv)
    have acr: "across b our OurSide s e grp = across b our TheirSide s e grp'" "across b their TheirSide s e grp = across b their OurSide s e grp'" for s
      using mirrored_across [OF mg, of b our OurSide] mirrored_across [OF mg, of b their TheirSide] by simp_all
    have "length rest < length hs" using rest_shorter [OF tg] Cons by simp
    with 1(1) st(1) su(1) mr e have rec: "merge_loop b our their e x rest = merge_loop b their our e x rest'" for x by blast
    show ?thesis unfolding Cons ks merge_loop_Cons [OF tg] merge_loop_Cons [OF tk] Let_def acr rec hk e
      using empt some by auto
  qed
qed

lemma mirrored_all:
  assumes "diff_ok diff"
  shows "mirrored (all_hunks diff b our their) (all_hunks diff b their our)"
proof -
  have "map (reside sd) (hunks diff sd' b ys) = hunks diff sd b ys" for sd sd' ys
    using hunk_loop_reside [of sd None] by (simp add: hunks_def)
  then have "by_side sd (all_hunks diff b our their) = map (reside sd) (by_side (other sd) (all_hunks diff b their our))" for sd
    by (cases sd) (simp_all add: by_side_all [OF assms])
  then show ?thesis by (simp add: mirrored_def)
qed

lemma mergeLines_swap: "diff_ok diff \<Longrightarrow> mergeLines diff base ours theirs = mergeLines diff base theirs ours"
  unfolding mergeLines_loop by (rule merge_loop_mirrored [OF all_hunks_ready all_hunks_ready mirrored_all])

section \<open>Properties\<close>

text \<open>A concrete line diff, position by position.\<close>

fun zip_diff :: "jsstring list \<Rightarrow> jsstring list \<Rightarrow> change list" where
  "zip_diff [] [] = []"
| "zip_diff [] ys = [Added (length ys)]"
| "zip_diff xs [] = [Removed (length xs)]"
| "zip_diff (x # xs) (y # ys) = (if x = y then [Kept 1] else [Removed 1, Added 1]) @ zip_diff xs ys"

lemma zip_diff_ok: "diff_ok zip_diff"
proof -
  have "script (zip_diff xs ys) xs ys" for xs ys by (induction xs ys rule: zip_diff.induct) auto
  moreover have "\<forall>c\<in>set (zip_diff xs xs). \<exists>n. c = Kept n" for xs by (induction xs) auto
  ultimately show ?thesis by (simp add: diff_ok_def)
qed

text \<open>
  Claim C7 (line_merge_takes_each_change). When the line merge gives a text, the base and both
  sides can be cut, by whole lines and at the same places, into parts such that the result takes
  each part from a side: ours where theirs says the same or left the base alone, theirs where
  ours left the base alone. No change of either side is lost or mixed with another, and two
  changed parts are always separated by lines neither side touched.
\<close>

theorem line_merge_takes_each_change:
  assumes "diff_ok diff" and "mergeLines diff base ours theirs = Some result"
  shows "\<exists>ps. cut_into ps (lines base) (lines ours) (lines theirs) result \<and> parts_ok ps"
  using merge_loop_parts [OF all_hunks_ready [OF assms(1)] assms(2) [unfolded mergeLines_loop]] by auto

theorem line_merge_takes_each_change_witness:
  "\<exists>ps. cut_into ps (lines [97, 10, 98, 10, 99]) (lines [120, 10, 98, 10, 99]) (lines [97, 10, 98, 10]) [120, 10, 98, 10] \<and> parts_ok ps"
  by (rule line_merge_takes_each_change [OF zip_diff_ok])
    (simp add: mergeLines_def lines_def hunks_def open_hunk_def compare_hunks_def across_def slice_def Let_def)

text \<open>
  A merge where only one side changed, or where
  both sides hold the same text, is never refused, and its result is that text.
\<close>

theorem line_merge_yields_to_the_only_change:
  assumes "diff_ok diff"
  shows "mergeLines diff base changed base = Some changed \<and> mergeLines diff base base changed = Some changed
    \<and> mergeLines diff base changed changed = Some changed"
proof (intro conjI)
  have none: "hunks diff sd b b = []" for sd b by (rule hunks_none [OF assms])
  have "by_side TheirSide (all_hunks diff (lines base) (lines changed) (lines base)) = []"
    unfolding by_side_all [OF assms] none ..
  from merge_loop_ours [OF all_hunks_ready [OF assms] disjI1 [OF this]] show "mergeLines diff base changed base = Some changed"
    by (simp add: mergeLines_loop)
  have "by_side OurSide (all_hunks diff (lines base) (lines base) (lines changed)) = []"
    unfolding by_side_all [OF assms] none ..
  from merge_loop_theirs [OF all_hunks_ready [OF assms] this] show "mergeLines diff base base changed = Some changed"
    by (simp add: mergeLines_loop)
  have "twin (all_hunks diff (lines base) (lines changed) (lines changed))"
    unfolding twin_def by_side_all [OF assms] by (rule hunks_reside)
  then have "lines changed = lines changed \<and> twin (all_hunks diff (lines base) (lines changed) (lines changed))" by simp
  from merge_loop_ours [OF all_hunks_ready [OF assms] disjI2 [OF this]] show "mergeLines diff base changed changed = Some changed"
    by (simp add: mergeLines_loop)
qed

theorem line_merge_yields_to_the_only_change_witness:
  "mergeLines zip_diff [97, 10] [98, 10, 99] [97, 10] = Some [98, 10, 99] \<and> mergeLines zip_diff [97, 10] [97, 10] [98, 10, 99] = Some [98, 10, 99]
    \<and> mergeLines zip_diff [97, 10] [98, 10, 99] [98, 10, 99] = Some [98, 10, 99]"
  by (rule line_merge_yields_to_the_only_change [OF zip_diff_ok])

text \<open>
  It does not matter which side is called ours: exchanging the
  two texts gives the same result, or the same refusal.
\<close>

theorem line_merge_is_symmetric:
  assumes "diff_ok diff"
  shows "mergeLines diff base ours theirs = mergeLines diff base theirs ours"
  by (rule mergeLines_swap [OF assms])

theorem line_merge_is_symmetric_witness:
  "mergeLines zip_diff [97, 10, 98, 10] [99, 10, 98, 10] [97, 10, 100, 10] = mergeLines zip_diff [97, 10, 98, 10] [97, 10, 100, 10] [99, 10, 98, 10]"
  by (rule line_merge_is_symmetric [OF zip_diff_ok])

text \<open>Two different changes of one line are refused.\<close>

lemma line_merge_refuses_example: "mergeLines zip_diff [97, 10] [98, 10] [99, 10] = None"
  by (simp add: mergeLines_def lines_def hunks_def open_hunk_def compare_hunks_def across_def slice_def Let_def)

end
