(* ===== verification/Row_Merge.thy ===== *)
theory Row_Merge
  imports Row_Text Merge_Lines
begin

text \<open>
  The three-way merge of one row file by field and body, \<^verbatim>\<open>packages/folder/src/row-merge.ts\<close>, over
  \<open>parseRow\<close> of \<open>Row_Text\<close> and \<open>mergeLines\<close> of \<open>Merge_Lines\<close>. The fields of a merged row are
  listed in the order in which they are defined; as an object they are a map.
\<close>

section \<open>Values\<close>

text \<open>Two versions are parsed apart, so no object of one is an object of the other.\<close>

fun sameValue :: "cval \<Rightarrow> cval \<Rightarrow> bool"
  and sameElements :: "cval list \<Rightarrow> cval list \<Rightarrow> bool"
  and sameEntries :: "(jsstring \<times> cval) list \<Rightarrow> (jsstring \<times> cval) list \<Rightarrow> bool" where
  "sameValue CNull v = (v = CNull)"
| "sameValue (CBool b) v = (v = CBool b)"
| "sameValue (CNum m) v = (case v of CNum n \<Rightarrow> same_number m n | _ \<Rightarrow> False)"
| "sameValue (CText s) v = (v = CText s)"
| "sameValue (CList xs) v = (case v of CList ys \<Rightarrow> length xs = length ys \<and> sameElements xs ys | _ \<Rightarrow> False)"
| "sameValue (CRecord ms) v = (case v of CRecord ns \<Rightarrow> length ms = length ns \<and> sameEntries ms ns | _ \<Rightarrow> False)"
| "sameElements [] ys = True"
| "sameElements (x # xs) [] = True"
| "sameElements (x # xs) (y # ys) = (sameValue x y \<and> sameElements xs ys)"
| "sameEntries [] ns = True"
| "sameEntries ((k, v) # ms) ns = ((case map_of ns k of None \<Rightarrow> False | Some w \<Rightarrow> sameValue v w) \<and> sameEntries ms ns)"

text \<open>\<^verbatim>\<open>sameValue\<close> on what \<open>at\<close> finds, where \<^const>\<open>None\<close> is \<^verbatim>\<open>undefined\<close>.\<close>

definition same_field :: "cval option \<Rightarrow> cval option \<Rightarrow> bool" where
  "same_field l r = (case (l, r) of (None, None) \<Rightarrow> True | (Some v, Some w) \<Rightarrow> sameValue v w | _ \<Rightarrow> False)"

definition choose_side :: "'a \<Rightarrow> 'a \<Rightarrow> 'a \<Rightarrow> ('a \<Rightarrow> 'a \<Rightarrow> bool) \<Rightarrow> 'a option" where
  "choose_side base ours theirs same =
     (if same ours theirs \<or> same theirs base then Some ours
      else if same ours base then Some theirs else None)"

section \<open>Rows\<close>

record row_versions =
  vbase :: "jsstring option"
  vours :: "jsstring option"
  vtheirs :: "jsstring option"

record field_conflict =
  cfield :: jsstring
  fbase :: "cval option"
  fours :: "cval option"
  ftheirs :: "cval option"

record body_conflict =
  bbase :: "jsstring option"
  bours :: jsstring
  btheirs :: jsstring

datatype row_merge =
    MergedRow row
  | RowConflict row "field_conflict list" "body_conflict option"
  | WholeRow

text \<open>One version: no file, a text that is not a row, or a row.\<close>

datatype version = NoRow | NotARow | ARow row

definition read_version :: "yaml \<Rightarrow> field_map \<Rightarrow> jsstring option \<Rightarrow> version" where
  "read_version yaml table t =
     (case t of
        None \<Rightarrow> NoRow
      | Some s \<Rightarrow> (case parseRow yaml table s of Inl e \<Rightarrow> NotARow | Inr r \<Rightarrow> ARow r))"

definition row_fields :: "row option \<Rightarrow> (jsstring \<times> cval) list" where
  "row_fields r = (case r of None \<Rightarrow> [] | Some s \<Rightarrow> doc_fields s)"

text \<open>
  The order of \<^verbatim>\<open>Object.keys\<close>: array indices by their number, then the other keys as they were
  defined. A \<^verbatim>\<open>Set\<close> keeps the first of equal elements.
\<close>

definition array_index :: "jsstring \<Rightarrow> bool" where
  "array_index k \<longleftrightarrow> index_segment k \<and> decimal k < 2 ^ 32 - 1"

definition object_keys :: "(jsstring \<times> cval) list \<Rightarrow> jsstring list" where
  "object_keys ms = sort_key decimal (filter array_index (map fst ms)) @ filter (\<lambda>k. \<not> array_index k) (map fst ms)"

definition field_names :: "row option \<Rightarrow> row \<Rightarrow> row \<Rightarrow> jsstring list" where
  "field_names base ours theirs =
     rev (remdups (rev (object_keys (row_fields base) @ object_keys (doc_fields ours) @ object_keys (doc_fields theirs))))"

fun merge_fields :: "row option \<Rightarrow> row \<Rightarrow> row \<Rightarrow> jsstring list \<Rightarrow> (jsstring \<times> cval) list \<times> field_conflict list" where
  "merge_fields base ours theirs [] = ([], [])"
| "merge_fields base ours theirs (name # names) =
     (let b = map_of (row_fields base) name; o' = map_of (doc_fields ours) name; t = map_of (doc_fields theirs) name;
          (merged, conflicts) = merge_fields base ours theirs names in
      case choose_side b o' t same_field of
        None \<Rightarrow> (merged, \<lparr>cfield = name, fbase = b, fours = o', ftheirs = t\<rparr> # conflicts)
      | Some None \<Rightarrow> (merged, conflicts)
      | Some (Some v) \<Rightarrow> ((name, v) # merged, conflicts))"

definition merge_body :: "differ \<Rightarrow> row option \<Rightarrow> row \<Rightarrow> row \<Rightarrow> jsstring option" where
  "merge_body diff base ours theirs =
     (let b = (case base of None \<Rightarrow> [] | Some r \<Rightarrow> doc_body r) in
      case choose_side b (doc_body ours) (doc_body theirs) (=) of
        Some v \<Rightarrow> Some v
      | None \<Rightarrow> mergeLines diff b (doc_body ours) (doc_body theirs))"

definition merge_rows :: "differ \<Rightarrow> row option \<Rightarrow> row \<Rightarrow> row \<Rightarrow> row_merge" where
  "merge_rows diff base ours theirs =
     (let (merged, conflicts) = merge_fields base ours theirs (field_names base ours theirs);
          text_body = merge_body diff base ours theirs;
          row = \<lparr>doc_fields = merged, doc_body = (case text_body of None \<Rightarrow> doc_body ours | Some s \<Rightarrow> s)\<rparr> in
      if conflicts = [] \<and> text_body \<noteq> None then MergedRow row
      else RowConflict row conflicts
        (if text_body = None then Some \<lparr>bbase = map_option doc_body base, bours = doc_body ours, btheirs = doc_body theirs\<rparr> else None))"

definition mergeRow :: "yaml \<Rightarrow> differ \<Rightarrow> field_map \<Rightarrow> row_versions \<Rightarrow> row_merge" where
  "mergeRow yaml diff table versions =
     (case (read_version yaml table (vbase versions), read_version yaml table (vours versions), read_version yaml table (vtheirs versions)) of
        (NotARow, _, _) \<Rightarrow> WholeRow
      | (NoRow, ARow ours, ARow theirs) \<Rightarrow> merge_rows diff None ours theirs
      | (ARow base, ARow ours, ARow theirs) \<Rightarrow> merge_rows diff (Some base) ours theirs
      | _ \<Rightarrow> WholeRow)"

section \<open>Sameness of canonical values\<close>

lemma same_number_refl: "isFinite n \<Longrightarrow> same_number n n"
  by (cases n) (simp_all add: same_number_def isFinite_def)

lemma same_number_sym: "same_number m n \<Longrightarrow> same_number n m"
  by (auto simp: same_number_def)

lemma sameElements_iff: "length xs = length ys \<and> sameElements xs ys \<longleftrightarrow> list_all2 sameValue xs ys"
proof (induction xs arbitrary: ys)
  case (Cons x xs)
  then show ?case by (cases ys) auto
qed auto

lemma sameEntries_iff: "sameEntries ms ns \<longleftrightarrow> (\<forall>(k, v)\<in>set ms. \<exists>w. map_of ns k = Some w \<and> sameValue v w)"
  by (induction ms) (auto split: option.splits)

lemma sameValue_list: "sameValue (CList xs) (CList ys) \<longleftrightarrow> list_all2 sameValue xs ys"
  using sameElements_iff [of xs ys] by simp

lemma sameValue_record:
  "sameValue (CRecord ms) (CRecord ns) \<longleftrightarrow> length ms = length ns \<and> (\<forall>(k, v)\<in>set ms. \<exists>w. map_of ns k = Some w \<and> sameValue v w)"
  by (simp add: sameEntries_iff)

lemma sameValue_refl: "canonical v \<Longrightarrow> sameValue v v"
proof (induction v)
  case (CList xs)
  then have "list_all2 sameValue xs xs" by (auto simp: list_all2_same canonical_list_iff)
  then show ?case by (simp only: sameValue_list)
next
  case (CRecord ms)
  have "\<exists>w. map_of ms k = Some w \<and> sameValue v w" if kv: "(k, v) \<in> set ms" for k v
  proof (intro exI conjI)
    show "map_of ms k = Some v" using CRecord.prems kv by simp
    have "canonical v" using CRecord.prems kv by (auto simp: canonical_fields_iff)
    with CRecord.IH [OF kv, of v] show "sameValue v v" by simp
  qed
  then show ?case unfolding sameValue_record by blast
qed (simp_all add: same_number_refl num_canonical_def)

lemma sameValue_sym: "canonical v \<Longrightarrow> canonical w \<Longrightarrow> sameValue v w \<Longrightarrow> sameValue w v"
proof (induction v arbitrary: w)
  case (CNum n)
  then show ?case by (cases w) (auto intro: same_number_sym)
next
  case (CList xs)
  then obtain ys where w: "w = CList ys" by (cases w) auto
  have "list_all2 sameValue xs ys" using CList.prems(3) unfolding w sameValue_list .
  then have "list_all2 sameValue ys xs" using CList.IH CList.prems(1,2) unfolding w
    by (auto simp: list_all2_conv_all_nth canonical_list_iff)
  then show ?case unfolding w sameValue_list .
next
  case (CRecord ms)
  then obtain ns where w: "w = CRecord ns" by (cases w) auto
  have d: "distinct (map fst ms)" "distinct (map fst ns)" using CRecord.prems(1,2) w by simp_all
  have s: "length ms = length ns" "\<forall>(k, v)\<in>set ms. \<exists>w. map_of ns k = Some w \<and> sameValue v w"
    using CRecord.prems(3) unfolding w sameValue_record by auto
  have "fst ` set ms \<subseteq> fst ` set ns" using s(2) by (force dest: map_of_SomeD)
  note keys = same_keys [OF d s(1) this]
  have "\<exists>v. map_of ms k = Some v \<and> sameValue x v" if kx: "(k, x) \<in> set ns" for k x
  proof -
    have "k \<in> fst ` set ms" using kx keys by force
    then obtain v where v: "(k, v) \<in> set ms" by auto
    then obtain u where "map_of ns k = Some u" "sameValue v u" using s(2) by blast
    then have "sameValue v x" using kx d(2) by simp
    moreover have "canonical v" "canonical x" using v kx CRecord.prems(1,2) w by (auto simp: canonical_fields_iff)
    ultimately have "sameValue x v" using CRecord.IH [OF v, of v x] by simp
    with v d(1) show ?thesis by auto
  qed
  then show ?case unfolding w sameValue_record using s(1) by auto
qed auto


lemma sameValue_trans:
  "canonical u \<Longrightarrow> canonical v \<Longrightarrow> canonical w \<Longrightarrow> sameValue u v \<Longrightarrow> sameValue v w \<Longrightarrow> sameValue u w"
proof (induction u arbitrary: v w)
  case (CNum n)
  then show ?case by (cases v; cases w) (auto simp: same_number_def)
next
  case (CList xs)
  then obtain ys where v: "v = CList ys" by (cases v) auto
  then obtain zs where w: "w = CList zs" using CList.prems(5) by (cases w) auto
  have xy: "list_all2 sameValue xs ys" using CList.prems(4) unfolding v sameValue_list .
  have yz: "list_all2 sameValue ys zs" using CList.prems(5) unfolding v w sameValue_list .
  have "list_all2 sameValue xs zs"
  proof (rule list_all2_all_nthI)
    show "length xs = length zs" using xy yz by (simp add: list_all2_lengthD)
    fix i assume i: "i < length xs"
    then have "i < length ys" "i < length zs" using xy yz by (simp_all add: list_all2_lengthD)
    with i CList.prems(1-3) have "canonical (xs ! i)" "canonical (ys ! i)" "canonical (zs ! i)"
      unfolding v w by (simp_all add: canonical_list_iff)
    then show "sameValue (xs ! i) (zs ! i)"
      using CList.IH [OF nth_mem [OF i]] list_all2_nthD [OF xy i] list_all2_nthD [OF yz \<open>i < length ys\<close>] by blast
  qed
  then show ?case unfolding w sameValue_list .
next
  case (CRecord ms)
  then obtain ns where v: "v = CRecord ns" by (cases v) auto
  then obtain ls where w: "w = CRecord ls" using CRecord.prems(5) by (cases w) auto
  have mn: "length ms = length ns" "\<forall>(k, v)\<in>set ms. \<exists>w. map_of ns k = Some w \<and> sameValue v w"
    using CRecord.prems(4) unfolding v sameValue_record by auto
  have nl: "length ns = length ls" "\<forall>(k, v)\<in>set ns. \<exists>w. map_of ls k = Some w \<and> sameValue v w"
    using CRecord.prems(5) unfolding v w sameValue_record by auto
  have "\<exists>y. map_of ls k = Some y \<and> sameValue x y" if kx: "(k, x) \<in> set ms" for k x
  proof -
    obtain y where y: "map_of ns k = Some y" "sameValue x y" using mn(2) kx by blast
    then obtain z where z: "map_of ls k = Some z" "sameValue y z" using nl(2) map_of_SomeD by fastforce
    have "canonical x" "canonical y" "canonical z"
      using kx map_of_SomeD [OF y(1)] map_of_SomeD [OF z(1)] CRecord.prems(1-3) unfolding v w by (auto simp: canonical_fields_iff)
    then show ?thesis using z(1) CRecord.IH [OF kx, of x y z] y(2) z(2) by simp
  qed
  then show ?case unfolding w sameValue_record using mn(1) nl(1) by auto
qed (cases v; auto)+

text \<open>What \<open>at\<close> finds in rows that were read.\<close>

definition canonical_field :: "cval option \<Rightarrow> bool" where
  "canonical_field f = (case f of None \<Rightarrow> True | Some v \<Rightarrow> canonical v)"

lemma same_field_refl: "canonical_field f \<Longrightarrow> same_field f f"
  by (auto simp: canonical_field_def same_field_def sameValue_refl split: option.splits)

lemma same_field_sym: "canonical_field f \<Longrightarrow> canonical_field g \<Longrightarrow> same_field f g \<Longrightarrow> same_field g f"
  by (auto simp: canonical_field_def same_field_def intro: sameValue_sym split: option.splits)

lemma same_field_trans:
  "canonical_field f \<Longrightarrow> canonical_field g \<Longrightarrow> canonical_field h \<Longrightarrow> same_field f g \<Longrightarrow> same_field g h \<Longrightarrow> same_field f h"
  by (auto simp: canonical_field_def same_field_def intro: sameValue_trans split: option.splits)

section \<open>What a merge decides\<close>

text \<open>
  The intent of a merge, for one field or the body: \<open>settles\<close> when the result is one of the two sides and
  the change of each side that changed is in it, \<open>competes\<close> when both sides changed, and not alike.
\<close>

definition settles :: "('a \<Rightarrow> 'a \<Rightarrow> bool) \<Rightarrow> 'a \<Rightarrow> 'a \<Rightarrow> 'a \<Rightarrow> 'a \<Rightarrow> bool" where
  "settles same base ours theirs v \<longleftrightarrow>
     (v = ours \<or> v = theirs) \<and> (same ours base \<or> same v ours) \<and> (same theirs base \<or> same v theirs)"

definition competes :: "('a \<Rightarrow> 'a \<Rightarrow> bool) \<Rightarrow> 'a \<Rightarrow> 'a \<Rightarrow> 'a \<Rightarrow> bool" where
  "competes same base ours theirs \<longleftrightarrow> \<not> same ours base \<and> \<not> same theirs base \<and> \<not> same ours theirs"

lemma choose_side_none: "choose_side b o' t same = None \<longleftrightarrow> competes same b o' t"
  by (auto simp: choose_side_def competes_def)

lemma choose_side_settles: "choose_side b o' t same = Some v \<Longrightarrow> same o' o' \<Longrightarrow> same t t \<Longrightarrow> settles same b o' t v"
  by (auto simp: choose_side_def settles_def split: if_splits)

lemma choose_side_swap:
  assumes "choose_side b o' t same = Some v" "choose_side b t o' same = Some w"
    and "same o' o'" "same t t" "same o' t \<Longrightarrow> same t o'" "same t o' \<Longrightarrow> same o' t" "same t b \<Longrightarrow> same o' b \<Longrightarrow> same o' t"
  shows "same v w"
  using assms by (auto simp: choose_side_def split: if_splits)

abbreviation field_of :: "row option \<Rightarrow> jsstring \<Rightarrow> cval option" where
  "field_of r \<equiv> map_of (row_fields r)"

definition row_canonical :: "row option \<Rightarrow> bool" where
  "row_canonical r \<longleftrightarrow> canonical (CRecord (row_fields r))"

lemma canonical_field_of: "row_canonical r \<Longrightarrow> canonical_field (field_of r k)"
  by (auto simp: row_canonical_def canonical_field_def canonical_fields_iff split: option.splits dest!: map_of_SomeD)

lemma set_object_keys [simp]: "set (object_keys ms) = fst ` set ms"
  by (auto simp: object_keys_def)

lemma set_field_names: "set (field_names base ours theirs) = fst ` (set (row_fields base) \<union> set (doc_fields ours) \<union> set (doc_fields theirs))"
  by (auto simp: field_names_def)

lemma distinct_field_names: "distinct (field_names base ours theirs)"
  by (simp add: field_names_def)

lemma merge_fields_Cons:
  "merge_fields base ours theirs (name # names) =
     (case choose_side (field_of base name) (field_of (Some ours) name) (field_of (Some theirs) name) same_field of
        None \<Rightarrow> (fst (merge_fields base ours theirs names),
           \<lparr>cfield = name, fbase = field_of base name, fours = field_of (Some ours) name, ftheirs = field_of (Some theirs) name\<rparr>
             # snd (merge_fields base ours theirs names))
      | Some None \<Rightarrow> merge_fields base ours theirs names
      | Some (Some v) \<Rightarrow> ((name, v) # fst (merge_fields base ours theirs names), snd (merge_fields base ours theirs names)))"
  by (simp add: row_fields_def Let_def split: prod.splits option.splits)

lemma merge_fields_conflicts:
  "snd (merge_fields base ours theirs names) =
     map (\<lambda>k. \<lparr>cfield = k, fbase = field_of base k, fours = field_of (Some ours) k, ftheirs = field_of (Some theirs) k\<rparr>)
       (filter (\<lambda>k. competes same_field (field_of base k) (field_of (Some ours) k) (field_of (Some theirs) k)) names)"
proof (induction names)
  case (Cons k names)
  then show ?case unfolding merge_fields_Cons choose_side_none [symmetric] by (auto split: option.splits)
qed simp

lemma merge_fields_keys: "fst ` set (fst (merge_fields base ours theirs names)) \<subseteq> set names"
proof (induction names)
  case (Cons k names)
  then show ?case unfolding merge_fields_Cons by (auto split: option.splits)
qed simp

lemma merge_fields_lookup:
  "distinct names \<Longrightarrow> map_of (fst (merge_fields base ours theirs names)) k =
     (if k \<in> set names then Option.bind (choose_side (field_of base k) (field_of (Some ours) k) (field_of (Some theirs) k) same_field) (\<lambda>v. v)
      else None)"
proof (induction names)
  case (Cons n names)
  have "n \<notin> fst ` set (fst (merge_fields base ours theirs names))" using merge_fields_keys Cons.prems by fastforce
  then have "map_of (fst (merge_fields base ours theirs names)) n = None" by (simp add: map_of_eq_None_iff)
  then show ?case using Cons unfolding merge_fields_Cons by (auto split: option.splits)
qed simp

lemma merge_fields_distinct: "distinct names \<Longrightarrow> distinct (map fst (fst (merge_fields base ours theirs names)))"
proof (induction names)
  case (Cons n names)
  then show ?case using merge_fields_keys [of base ours theirs names] unfolding merge_fields_Cons by (auto split: option.splits)
qed simp

text \<open>A name no version has: nothing is chosen for it.\<close>

lemma merged_field:
  "map_of (fst (merge_fields base ours theirs (field_names base ours theirs))) k =
     Option.bind (choose_side (field_of base k) (field_of (Some ours) k) (field_of (Some theirs) k) same_field) (\<lambda>v. v)"
proof -
  have "field_of base k = None" "field_of (Some ours) k = None" "field_of (Some theirs) k = None" if "k \<notin> set (field_names base ours theirs)"
    using that by (auto simp: set_field_names map_of_eq_None_iff row_fields_def)
  then show ?thesis unfolding merge_fields_lookup [OF distinct_field_names]
    by (cases "k \<in> set (field_names base ours theirs)") (simp_all add: choose_side_def same_field_def)
qed

section \<open>Whole rows\<close>

text \<open>The three versions as rows: both sides read as rows, the base as one or there is none.\<close>

definition versions_read :: "yaml \<Rightarrow> field_map \<Rightarrow> row_versions \<Rightarrow> row option \<Rightarrow> row \<Rightarrow> row \<Rightarrow> bool" where
  "versions_read yaml table versions base ours theirs \<longleftrightarrow>
     (case (vbase versions, base) of
        (None, None) \<Rightarrow> True | (Some s, Some r) \<Rightarrow> parseRow yaml table s = Inr r | _ \<Rightarrow> False)
     \<and> (\<exists>s. vours versions = Some s \<and> parseRow yaml table s = Inr ours)
     \<and> (\<exists>s. vtheirs versions = Some s \<and> parseRow yaml table s = Inr theirs)"

lemma read_version_row: "read_version yaml table v = ARow r \<longleftrightarrow> (\<exists>s. v = Some s \<and> parseRow yaml table s = Inr r)"
  by (auto simp: read_version_def split: option.splits sum.splits)

lemma read_version_none: "read_version yaml table v = NoRow \<longleftrightarrow> v = None"
  by (auto simp: read_version_def split: option.splits sum.splits)

lemma versions_read_iff:
  "versions_read yaml table versions base ours theirs \<longleftrightarrow>
     read_version yaml table (vbase versions) = (case base of None \<Rightarrow> NoRow | Some r \<Rightarrow> ARow r)
     \<and> read_version yaml table (vours versions) = ARow ours \<and> read_version yaml table (vtheirs versions) = ARow theirs"
  by (auto simp: versions_read_def read_version_row read_version_none split: option.splits)

lemma mergeRow_cases:
  obtains (whole) "mergeRow yaml diff table versions = WholeRow" "\<not> (\<exists>base ours theirs. versions_read yaml table versions base ours theirs)"
  | (rows) base ours theirs where "versions_read yaml table versions base ours theirs"
      "mergeRow yaml diff table versions = merge_rows diff base ours theirs"
proof (cases "\<exists>base ours theirs. versions_read yaml table versions base ours theirs")
  case True
  then obtain base ours theirs where v: "versions_read yaml table versions base ours theirs" by blast
  then have "mergeRow yaml diff table versions = merge_rows diff base ours theirs"
    by (cases base) (simp_all add: versions_read_iff mergeRow_def)
  with v show ?thesis by (rule rows)
next
  case False
  then have n: "\<not> versions_read yaml table versions None ours theirs" "\<not> versions_read yaml table versions (Some base) ours theirs"
    for base ours theirs by blast+
  have "mergeRow yaml diff table versions = WholeRow"
    using n by (auto simp: mergeRow_def versions_read_iff split: version.split) blast
  then show ?thesis using False by (rule whole)
qed

lemma parseRow_canonical: "parseRow yaml table s = Inr r \<Longrightarrow> row_canonical (Some r)"
  by (cases rule: parseRow_cases [of yaml s table])
    (auto simp: row_canonical_def row_fields_def dest: parseRowSource_canonical)

lemma versions_canonical:
  "versions_read yaml table versions base ours theirs \<Longrightarrow> row_canonical base \<and> row_canonical (Some ours) \<and> row_canonical (Some theirs)"
  by (auto simp: versions_read_def row_canonical_def row_fields_def split: option.splits
      dest!: parseRow_canonical)

lemma merge_rows_not_whole: "merge_rows diff base ours theirs \<noteq> WholeRow"
  by (simp add: merge_rows_def Let_def split: prod.split)

definition base_body :: "row option \<Rightarrow> jsstring" where
  "base_body base = (case base of None \<Rightarrow> [] | Some r \<Rightarrow> doc_body r)"

text \<open>The row a merge builds, what it leaves open, and the merged body where there is one.\<close>

definition built_row :: "differ \<Rightarrow> row option \<Rightarrow> row \<Rightarrow> row \<Rightarrow> row" where
  "built_row diff base ours theirs =
     \<lparr>doc_fields = fst (merge_fields base ours theirs (field_names base ours theirs)),
      doc_body = (case merge_body diff base ours theirs of None \<Rightarrow> doc_body ours | Some s \<Rightarrow> s)\<rparr>"

definition open_fields :: "row option \<Rightarrow> row \<Rightarrow> row \<Rightarrow> field_conflict list" where
  "open_fields base ours theirs = snd (merge_fields base ours theirs (field_names base ours theirs))"

definition open_body :: "differ \<Rightarrow> row option \<Rightarrow> row \<Rightarrow> row \<Rightarrow> body_conflict option" where
  "open_body diff base ours theirs =
     (if merge_body diff base ours theirs = None
      then Some \<lparr>bbase = map_option doc_body base, bours = doc_body ours, btheirs = doc_body theirs\<rparr> else None)"

lemma merge_rows_built:
  "merge_rows diff base ours theirs =
     (if open_fields base ours theirs = [] \<and> open_body diff base ours theirs = None then MergedRow (built_row diff base ours theirs)
      else RowConflict (built_row diff base ours theirs) (open_fields base ours theirs) (open_body diff base ours theirs))"
  by (simp add: merge_rows_def built_row_def open_fields_def open_body_def Let_def split: prod.split)

lemma built_field:
  "field_of (Some (built_row diff base ours theirs)) k =
     Option.bind (choose_side (field_of base k) (field_of (Some ours) k) (field_of (Some theirs) k) same_field) (\<lambda>v. v)"
  using merged_field by (simp add: row_fields_def built_row_def)

lemma built_body:
  "doc_body (built_row diff base ours theirs) = (case merge_body diff base ours theirs of None \<Rightarrow> doc_body ours | Some s \<Rightarrow> s)"
  by (simp add: built_row_def)

lemma built_distinct: "distinct (map fst (doc_fields (built_row diff base ours theirs)))"
  using merge_fields_distinct [OF distinct_field_names] by (simp add: built_row_def)

lemma open_fields_iff:
  "c \<in> set (open_fields base ours theirs) \<longleftrightarrow>
     c = \<lparr>cfield = cfield c, fbase = field_of base (cfield c), fours = field_of (Some ours) (cfield c), ftheirs = field_of (Some theirs) (cfield c)\<rparr>
     \<and> competes same_field (field_of base (cfield c)) (field_of (Some ours) (cfield c)) (field_of (Some theirs) (cfield c))"
  (is "?l \<longleftrightarrow> ?r")
proof
  show "?l \<Longrightarrow> ?r" by (auto simp: open_fields_def merge_fields_conflicts)
  assume r: ?r
  have "cfield c \<in> set (field_names base ours theirs)"
  proof (rule ccontr)
    assume "\<not> ?thesis"
    then have "field_of base (cfield c) = None" "field_of (Some ours) (cfield c) = None"
      by (auto simp: set_field_names map_of_eq_None_iff row_fields_def)
    with r show False by (simp add: competes_def same_field_def)
  qed
  with r show ?l by (auto simp: open_fields_def merge_fields_conflicts image_iff)
qed

text \<open>The body: one side's when a side did not change it or both agree, else the merge of the lines.\<close>

definition body_settled :: "differ \<Rightarrow> row option \<Rightarrow> row \<Rightarrow> row \<Rightarrow> jsstring \<Rightarrow> bool" where
  "body_settled diff base ours theirs v \<longleftrightarrow>
     (if competes (=) (base_body base) (doc_body ours) (doc_body theirs)
      then mergeLines diff (base_body base) (doc_body ours) (doc_body theirs) = Some v
      else settles (=) (base_body base) (doc_body ours) (doc_body theirs) v)"

definition body_open :: "differ \<Rightarrow> row option \<Rightarrow> row \<Rightarrow> row \<Rightarrow> bool" where
  "body_open diff base ours theirs \<longleftrightarrow>
     competes (=) (base_body base) (doc_body ours) (doc_body theirs)
     \<and> mergeLines diff (base_body base) (doc_body ours) (doc_body theirs) = None"

lemma merge_body_cases:
  obtains (chosen) v where "choose_side (base_body base) (doc_body ours) (doc_body theirs) (=) = Some v" "merge_body diff base ours theirs = Some v"
  | (lines) "competes (=) (base_body base) (doc_body ours) (doc_body theirs)"
      "merge_body diff base ours theirs = mergeLines diff (base_body base) (doc_body ours) (doc_body theirs)"
proof (cases "choose_side (base_body base) (doc_body ours) (doc_body theirs) (=)")
  case None
  then have "competes (=) (base_body base) (doc_body ours) (doc_body theirs)" by (simp only: choose_side_none)
  moreover have "merge_body diff base ours theirs = mergeLines diff (base_body base) (doc_body ours) (doc_body theirs)"
    using None by (simp add: merge_body_def base_body_def)
  ultimately show ?thesis by (rule lines)
next
  case (Some v)
  then show ?thesis by (intro chosen) (simp_all add: merge_body_def base_body_def)
qed

lemma merge_body_settled: "merge_body diff base ours theirs = Some v \<Longrightarrow> body_settled diff base ours theirs v"
proof (cases rule: merge_body_cases [of base ours theirs diff])
  case (chosen w)
  assume "merge_body diff base ours theirs = Some v"
  with chosen have c: "choose_side (base_body base) (doc_body ours) (doc_body theirs) (=) = Some v" by simp
  then have "\<not> competes (=) (base_body base) (doc_body ours) (doc_body theirs)" by (metis choose_side_none option.distinct(1))
  then show ?thesis using choose_side_settles [OF c] by (simp add: body_settled_def)
qed (simp add: body_settled_def)

lemma merge_body_open: "merge_body diff base ours theirs = None \<longleftrightarrow> body_open diff base ours theirs"
proof (cases rule: merge_body_cases [of base ours theirs diff])
  case (chosen v)
  then have "\<not> competes (=) (base_body base) (doc_body ours) (doc_body theirs)" by (metis choose_side_none option.distinct(1))
  then show ?thesis using chosen by (simp add: body_open_def)
qed (simp add: body_open_def)

text \<open>The fields of the row that is built.\<close>

definition field_settled :: "row option \<Rightarrow> row \<Rightarrow> row \<Rightarrow> row \<Rightarrow> field_conflict list \<Rightarrow> jsstring \<Rightarrow> bool" where
  "field_settled base ours theirs r cs k \<longleftrightarrow>
     (if competes same_field (field_of base k) (field_of (Some ours) k) (field_of (Some theirs) k)
      then field_of (Some r) k = None
        \<and> \<lparr>cfield = k, fbase = field_of base k, fours = field_of (Some ours) k, ftheirs = field_of (Some theirs) k\<rparr> \<in> set cs
      else settles same_field (field_of base k) (field_of (Some ours) k) (field_of (Some theirs) k) (field_of (Some r) k)
        \<and> k \<notin> cfield ` set cs)"

lemma built_settled:
  assumes "row_canonical base" "row_canonical (Some ours)" "row_canonical (Some theirs)"
  shows "field_settled base ours theirs (built_row diff base ours theirs) (open_fields base ours theirs) k"
proof (cases "choose_side (field_of base k) (field_of (Some ours) k) (field_of (Some theirs) k) same_field")
  case None
  then have "competes same_field (field_of base k) (field_of (Some ours) k) (field_of (Some theirs) k)" by (simp only: choose_side_none)
  with None show ?thesis unfolding field_settled_def built_field by (simp add: open_fields_iff)
next
  case (Some v)
  then have n: "\<not> competes same_field (field_of base k) (field_of (Some ours) k) (field_of (Some theirs) k)"
    by (metis choose_side_none option.distinct(1))
  have "settles same_field (field_of base k) (field_of (Some ours) k) (field_of (Some theirs) k) v"
    using Some by (rule choose_side_settles) (intro same_field_refl canonical_field_of assms)+
  moreover have "k \<notin> cfield ` set (open_fields base ours theirs)" using n open_fields_iff by blast
  ultimately show ?thesis using n Some unfolding field_settled_def built_field by simp
qed

section \<open>Exchanging the sides\<close>

definition swap_sides :: "row_versions \<Rightarrow> row_versions" where
  "swap_sides versions = versions\<lparr>vours := vtheirs versions, vtheirs := vours versions\<rparr>"

definition mirror_field :: "field_conflict \<Rightarrow> field_conflict" where
  "mirror_field c = c\<lparr>fours := ftheirs c, ftheirs := fours c\<rparr>"

definition mirror_body :: "body_conflict \<Rightarrow> body_conflict" where
  "mirror_body c = c\<lparr>bours := btheirs c, btheirs := bours c\<rparr>"

lemma versions_read_swap: "versions_read yaml table (swap_sides versions) base theirs ours = versions_read yaml table versions base ours theirs"
  by (auto simp: versions_read_iff swap_sides_def)

lemma merge_body_swap: "diff_ok diff \<Longrightarrow> merge_body diff base theirs ours = merge_body diff base ours theirs"
  using mergeLines_swap [of diff "base_body base" "doc_body ours" "doc_body theirs"]
  by (auto simp: merge_body_def choose_side_def base_body_def Let_def)

lemma open_fields_swap:
  assumes "row_canonical (Some ours)" "row_canonical (Some theirs)"
  shows "set (open_fields base theirs ours) = mirror_field ` set (open_fields base ours theirs)"
proof -
  have "mirror_field c \<in> set (open_fields base r q)" if c: "c \<in> set (open_fields base q r)" and can: "row_canonical (Some q)" "row_canonical (Some r)" for c q r
  proof -
    define k where "k = cfield c"
    have e: "c = \<lparr>cfield = k, fbase = field_of base k, fours = field_of (Some q) k, ftheirs = field_of (Some r) k\<rparr>"
      and comp: "competes same_field (field_of base k) (field_of (Some q) k) (field_of (Some r) k)"
      using iffD1 [OF open_fields_iff c] unfolding k_def by blast+
    have "competes same_field (field_of base k) (field_of (Some r) k) (field_of (Some q) k)"
      using comp same_field_sym [OF canonical_field_of [OF can(2)] canonical_field_of [OF can(1)], of k k] by (auto simp: competes_def)
    then show ?thesis unfolding open_fields_iff by (simp add: e mirror_field_def)
  qed
  moreover have "mirror_field (mirror_field c) = c" for c by (simp add: mirror_field_def)
  ultimately show ?thesis using assms by (auto simp: image_iff) metis
qed

lemma built_swap:
  assumes can: "row_canonical base" "row_canonical (Some ours)" "row_canonical (Some theirs)"
  shows "same_field (field_of (Some (built_row diff base ours theirs)) k) (field_of (Some (built_row diff base theirs ours)) k)"
proof -
  let ?b = "field_of base k" and ?o = "field_of (Some ours) k" and ?t = "field_of (Some theirs) k"
  note c = canonical_field_of [OF can(1), of k] canonical_field_of [OF can(2), of k] canonical_field_of [OF can(3), of k]
  have sym: "same_field ?o ?t \<longleftrightarrow> same_field ?t ?o" using same_field_sym c by blast
  show ?thesis
  proof (cases "choose_side ?b ?o ?t same_field")
    case None
    moreover have "choose_side ?b ?t ?o same_field = None"
      using None sym unfolding choose_side_none by (auto simp: competes_def)
    ultimately show ?thesis unfolding built_field by (simp add: same_field_def)
  next
    case (Some v)
    then have "choose_side ?b ?t ?o same_field \<noteq> None"
      using choose_side_none [of ?b ?o ?t same_field] choose_side_none [of ?b ?t ?o same_field] sym by (auto simp: competes_def)
    then obtain w where w: "choose_side ?b ?t ?o same_field = Some w" by blast
    have "same_field v w"
    proof (rule choose_side_swap [OF Some w])
      assume "same_field ?t ?b" "same_field ?o ?b"
      then show "same_field ?o ?t" using same_field_trans same_field_sym c by blast
    qed (use same_field_refl c sym in blast)+
    with Some w show ?thesis unfolding built_field by simp
  qed
qed

section \<open>Properties\<close>

text \<open>
  Claim C8 (row_merge_keeps_each_change). What a merge of a row file answers. It gives the file back
  whole exactly when a version does not read. A merged row takes every field from a side, so that what
  either side changed is in it, and its body from the side that changed it, or from the lines of both.
  A conflict leaves out exactly the fields both sides changed differently, reports each with its three
  values, settles every other field, and reports the body only when both bodies changed and their lines
  do not merge.
\<close>

theorem row_merge_keeps_each_change:
  "case mergeRow yaml diff table versions of
     WholeRow \<Rightarrow> \<not> (\<exists>base ours theirs. versions_read yaml table versions base ours theirs)
   | MergedRow r \<Rightarrow> \<exists>base ours theirs. versions_read yaml table versions base ours theirs
       \<and> (\<forall>k. field_settled base ours theirs r [] k) \<and> body_settled diff base ours theirs (doc_body r)
   | RowConflict r cs bc \<Rightarrow> \<exists>base ours theirs. versions_read yaml table versions base ours theirs
       \<and> (\<forall>k. field_settled base ours theirs r cs k)
       \<and> (case bc of
            None \<Rightarrow> cs \<noteq> [] \<and> body_settled diff base ours theirs (doc_body r)
          | Some c \<Rightarrow> body_open diff base ours theirs \<and> doc_body r = doc_body ours
              \<and> c = \<lparr>bbase = map_option doc_body base, bours = doc_body ours, btheirs = doc_body theirs\<rparr>)"
proof (cases rule: mergeRow_cases [of yaml diff table versions])
  case (rows base ours theirs)
  note f = built_settled [of base ours theirs diff]
  show ?thesis
  proof (cases "merge_body diff base ours theirs")
    case None
    then show ?thesis using rows f versions_canonical [OF rows(1)] merge_body_open [of diff base ours theirs]
      by (auto simp: merge_rows_built open_body_def built_row_def)
  next
    case (Some v)
    then show ?thesis using rows f versions_canonical [OF rows(1)] merge_body_settled [OF Some]
      by (fastforce simp: merge_rows_built open_body_def built_row_def)
  qed
qed simp

text \<open>A sample: one side adds to the body of the tea's row, the other leaves it as it was.\<close>

definition hot_text :: jsstring where
  "hot_text = tea_text @ js '' Now.''"

definition hot_document :: row where
  "hot_document = \<lparr>doc_fields = doc_fields tea_document, doc_body = js ''Hot. Now.''\<rparr>"

definition tea_versions :: row_versions where
  "tea_versions = \<lparr>vbase = Some tea_text, vours = Some tea_text, vtheirs = Some hot_text\<rparr>"

lemma hot_frame: "frameRowText hot_text = Frontmatter [] 4 23 27 [10]"
  by (simp add: hot_text_def tea_text_def js_def frameRowText_def starts_with_def fence_def BOM_def Let_def frame_loop.simps indexOf_def
      slice_def upt_rec strip_cr_def)

lemma tea_row: "parseRow tea_yaml tea_table tea_text = Inr tea_document"
proof -
  obtain p where p: "parseRowSource tea_yaml tea_text = Inr p" "parsed p = tea_document" using tea_parse by blast
  then show ?thesis using tea_conforms by (cases rule: parseRow_cases [of tea_yaml tea_text tea_table]) auto
qed

lemma hot_row: "parseRow tea_yaml tea_table hot_text = Inr hot_document"
proof -
  have b: "drop 27 hot_text = js ''Hot. Now.''" "well_formed (js ''Hot. Now.'')"
    by (simp_all add: hot_text_def tea_text_def js_def high_surrogate_def low_surrogate_def)
  obtain t where t: "tea_yaml (slice 4 23 hot_text) = tea_yaml t" by simp
  have c: "contents (tea_yaml t) = YMap 0 (Some 0) None (case contents (tea_yaml t) of YMap i r tg ps \<Rightarrow> ps | _ \<Rightarrow> [])"
    "errors (tea_yaml t) @ warnings (tea_yaml t) = []" by (simp_all add: tea_yaml_def)
  have "\<exists>p. parseRowSource tea_yaml hot_text = Inr p \<and> parsed p = hot_document" unfolding parseRowSource_def hot_frame
    using tea_convert [of t hot_text 4] b c t
    by (auto simp: Let_def members_def hot_document_def split: ynode.split)
  then obtain p where p: "parseRowSource tea_yaml hot_text = Inr p" "parsed p = hot_document" by blast
  then show ?thesis using tea_conforms by (cases rule: parseRow_cases [of tea_yaml hot_text tea_table]) (auto simp: hot_document_def)
qed

lemma tea_versions_read:
  "versions_read tea_yaml tea_table tea_versions base ours theirs \<longleftrightarrow> base = Some tea_document \<and> ours = tea_document \<and> theirs = hot_document"
  by (cases base) (auto simp: versions_read_def tea_versions_def tea_row hot_row)

lemma tea_merged:
  "mergeRow tea_yaml zip_diff tea_table tea_versions = MergedRow hot_document"
proof -
  have "mergeRow tea_yaml zip_diff tea_table tea_versions = merge_rows zip_diff (Some tea_document) tea_document hot_document"
    by (simp add: mergeRow_def read_version_def tea_versions_def tea_row hot_row)
  also have "\<dots> = MergedRow hot_document" 
    by (simp add: merge_rows_def hot_document_def tea_document_def js_def merge_body_def choose_side_def field_names_def object_keys_def
        array_index_def index_segment_def is_digit_def row_fields_def same_field_def same_number_def Let_def)
  finally show ?thesis .
qed

theorem row_merge_keeps_each_change_witness:
  "mergeRow tea_yaml zip_diff tea_table tea_versions = MergedRow hot_document
    \<and> (\<forall>k. field_settled (Some tea_document) tea_document hot_document hot_document [] k)
    \<and> body_settled zip_diff (Some tea_document) tea_document hot_document (js ''Hot. Now.'')"
  using row_merge_keeps_each_change [where yaml = tea_yaml and table = tea_table and diff = zip_diff and versions = tea_versions]
  by (simp add: tea_merged tea_versions_read hot_document_def)

text \<open>
  Exchanging the sides of a row merge gives the same outcome: the same
  body and, as JSON values, the same fields; the same conflicts, mirrored; a whole file for a whole file.
\<close>

theorem row_merge_is_symmetric:
  assumes "diff_ok diff"
  shows "case (mergeRow yaml diff table versions, mergeRow yaml diff table (swap_sides versions)) of
      (WholeRow, WholeRow) \<Rightarrow> True
    | (MergedRow r, MergedRow s) \<Rightarrow> doc_body r = doc_body s \<and> (\<forall>k. same_field (field_of (Some r) k) (field_of (Some s) k))
    | (RowConflict r cs bc, RowConflict s ds bd) \<Rightarrow> set ds = mirror_field ` set cs \<and> bd = map_option mirror_body bc
        \<and> (bc = None \<longrightarrow> doc_body r = doc_body s) \<and> (\<forall>k. same_field (field_of (Some r) k) (field_of (Some s) k))
    | _ \<Rightarrow> False"
proof (cases rule: mergeRow_cases [of yaml diff table versions])
  case whole
  then have "\<not> (\<exists>base ours theirs. versions_read yaml table (swap_sides versions) base ours theirs)"
    using versions_read_swap by blast
  then have "mergeRow yaml diff table (swap_sides versions) = WholeRow"
    by (cases rule: mergeRow_cases [of yaml diff table "swap_sides versions"]) blast+
  with whole show ?thesis by simp
next
  case (rows base ours theirs)
  have s: "mergeRow yaml diff table (swap_sides versions) = merge_rows diff base theirs ours"
    using rows(1) by (cases base) (simp_all add: versions_read_iff mergeRow_def swap_sides_def)
  note c = versions_canonical [OF rows(1)]
  have f: "\<forall>k. same_field (field_of (Some (built_row diff base ours theirs)) k) (field_of (Some (built_row diff base theirs ours)) k)"
    using built_swap c by blast
  have o': "set (open_fields base theirs ours) = mirror_field ` set (open_fields base ours theirs)" using open_fields_swap c by blast
  then have e: "open_fields base theirs ours = [] \<longleftrightarrow> open_fields base ours theirs = []"
    by (metis image_is_empty set_empty)
  note m = merge_body_swap [OF assms, of base theirs ours]
  show ?thesis
  proof (cases "merge_body diff base ours theirs")
    case None
    with m have "open_body diff base theirs ours = map_option mirror_body (open_body diff base ours theirs)"
      "open_body diff base ours theirs \<noteq> None" by (simp_all add: open_body_def mirror_body_def)
    then show ?thesis using f o' unfolding rows(2) s merge_rows_built by auto
  next
    case (Some v)
    with m have "open_body diff base theirs ours = None" "open_body diff base ours theirs = None"
      "doc_body (built_row diff base ours theirs) = doc_body (built_row diff base theirs ours)"
      by (simp_all add: open_body_def built_body)
    then show ?thesis using f o' e unfolding rows(2) s merge_rows_built by auto
  qed
qed

theorem row_merge_is_symmetric_witness:
  "\<exists>s. mergeRow tea_yaml zip_diff tea_table (swap_sides tea_versions) = MergedRow s \<and> doc_body s = js ''Hot. Now.''
     \<and> field_of (Some s) (js ''title'') = Some (CText (js ''Tea''))"
proof -
  obtain s where s: "mergeRow tea_yaml zip_diff tea_table (swap_sides tea_versions) = MergedRow s" "doc_body s = js ''Hot. Now.''"
    "same_field (field_of (Some hot_document) (js ''title'')) (field_of (Some s) (js ''title''))"
    using row_merge_is_symmetric [OF zip_diff_ok, of tea_yaml tea_table tea_versions]
    by (auto simp: tea_merged hot_document_def split: row_merge.splits)
  then show ?thesis by (auto simp: same_field_def hot_document_def tea_document_def row_fields_def split: option.splits)
qed

end
