(* ===== verification/Kv_File.thy ===== *)
theory Kv_File
  imports Folder_Storage Kv_Merge Row_Text
begin

text \<open>
  The settings file of a folder, \<^verbatim>\<open>packages/folder/src/kv.ts\<close>: why a text is no settings file, what a
  supplied value is stored as (\<open>settingText\<close>), reading a value per key (\<open>valuesOf\<close>), and the handle that
  \<open>createKv\<close> returns: its pending batch, the drain and the retries, as steps between what the storage
  answers. The JSON parser \<^verbatim>\<open>jsonc-parser\<close> is an argument, as are \<^verbatim>\<open>JSON.parse\<close> of a raw member
  (its numbers are IEEE doubles) and the digest.
\<close>

section \<open>Why a text is no settings file\<close>

text \<open>\<^verbatim>\<open>parseTree\<close>: the errors by code and offset, and the tree; \<^const>\<open>None\<close> when the stack overflows.\<close>

type_synonym jsonc = "jsstring \<Rightarrow> ((nat \<times> nat) list \<times> node option) option"

definition parser_of :: "jsonc \<Rightarrow> parser" where
  "parser_of jsonc t = map_option (\<lambda>(errs, tree). (errs \<noteq> [], tree)) (jsonc t)"

definition KV_PATH :: jsstring where
  "KV_PATH = js ''kv.json''"

definition SYNTAX :: "(nat \<times> string) list" where
  "SYNTAX =
    [(1, ''an unexpected character''), (2, ''a number that is not written as JSON''), (3, ''a key is expected''),
     (4, ''a value is expected''), (5, ''a colon is expected''), (6, ''a comma is expected''), (7, ''a closing brace is expected''),
     (8, ''a closing bracket is expected''), (9, ''nothing more is expected after the object''), (10, ''comments are not allowed''),
     (11, ''a comment is not closed''), (12, ''a string is not closed''), (13, ''a number is not finished''),
     (14, ''a Unicode escape is not valid''), (15, ''an escape is not valid''), (16, ''a control character is not allowed in a string'')]"

definition plain_issue :: "jsstring \<Rightarrow> issue" where
  "plain_issue m = \<lparr>message = m, issue_line = None, at_field = None\<rparr>"

text \<open>The first key that appears twice in one object, its offset and its root key.\<close>

fun node_key :: "node list \<Rightarrow> jsstring option" where
  "node_key (Node t off n v cs # rest) = v"
| "node_key [] = None"

fun duplicateKey :: "node \<Rightarrow> jsstring option \<Rightarrow> (jsstring \<times> nat \<times> jsstring) option"
  and duplicate_items :: "node list \<Rightarrow> jsstring option \<Rightarrow> (jsstring \<times> nat \<times> jsstring) option"
  and duplicate_members :: "jsstring list \<Rightarrow> node list \<Rightarrow> jsstring option \<Rightarrow> (jsstring \<times> nat \<times> jsstring) option" where
  "duplicateKey (Node t off n v cs) root_key =
     (if t = ArrayNode then duplicate_items cs root_key
      else if t = ObjectNode then duplicate_members [] cs root_key
      else None)"
| "duplicate_items [] root_key = None"
| "duplicate_items (c # cs) root_key =
     (case duplicateKey c root_key of Some d \<Rightarrow> Some d | None \<Rightarrow> duplicate_items cs root_key)"
| "duplicate_members seen [] root_key = None"
| "duplicate_members seen (Node t off n v [] # ps) root_key = duplicate_members seen ps root_key"
| "duplicate_members seen (Node t off n v [name] # ps) root_key =
     (case node_key [name] of
        None \<Rightarrow> duplicate_members seen ps root_key
      | Some key \<Rightarrow>
          if key \<in> set seen then Some (key, off, case root_key of None \<Rightarrow> key | Some f \<Rightarrow> f)
          else duplicate_members (key # seen) ps root_key)"
| "duplicate_members seen (Node t off n v (name # child # others) # ps) root_key =
     (case node_key [name] of
        None \<Rightarrow> duplicate_members seen ps root_key
      | Some key \<Rightarrow>
          if key \<in> set seen then Some (key, off, case root_key of None \<Rightarrow> key | Some f \<Rightarrow> f)
          else (case duplicateKey child (Some (case root_key of None \<Rightarrow> key | Some f \<Rightarrow> f)) of
                  Some d \<Rightarrow> Some d
                | None \<Rightarrow> duplicate_members (key # seen) ps root_key))"

definition bom_offset :: "jsstring \<Rightarrow> nat" where
  "bom_offset t = (if t \<noteq> [] \<and> hd t = 0xFEFF then 1 else 0)"

definition refusalOf :: "jsonc \<Rightarrow> jsstring \<Rightarrow> issue list" where
  "refusalOf jsonc t =
     (let offset = bom_offset t in
      case jsonc (drop offset t) of
        None \<Rightarrow> [plain_issue (js ''kv.json nests deeper than 64 levels'')]
      | Some ((code, at) # errs, tree) \<Rightarrow>
          [\<lparr>message = js ''kv.json is not valid JSON: '' @ js (case map_of SYNTAX code of None \<Rightarrow> ''it does not parse'' | Some what \<Rightarrow> what),
            issue_line = Some (lineAt t (offset + at)), at_field = None\<rparr>]
      | Some ([], tree) \<Rightarrow>
          (case tree of
             Some (Node ObjectNode off n v cs) \<Rightarrow>
               (case duplicateKey (Node ObjectNode off n v cs) None of
                  Some (key, at, root_key) \<Rightarrow>
                    [\<lparr>message = js ''The key '' @ json_string key @ js '' appears twice'', issue_line = Some (lineAt t (offset + at)),
                      at_field = Some root_key\<rparr>]
                | None \<Rightarrow>
                    [plain_issue (js ''kv.json holds text a folder cannot store: an unpaired surrogate, or nesting deeper than 64 levels'')])
           | _ \<Rightarrow> [\<lparr>message = js ''kv.json is not a JSON object'', issue_line = Some 1, at_field = None\<rparr>]))"

definition keyLines :: "jsonc \<Rightarrow> jsstring \<Rightarrow> (jsstring \<times> nat) list" where
  "keyLines jsonc t =
     (let offset = bom_offset t in
      case jsonc (drop offset t) of
        Some (errs, Some (Node rt roff rn rv ps)) \<Rightarrow>
          foldl (\<lambda>ls p. case p of Node pt poff pn pv cs \<Rightarrow>
            (case node_key cs of None \<Rightarrow> ls | Some key \<Rightarrow> defineOwn ls key (lineAt t (offset + poff)))) [] ps
      | _ \<Rightarrow> [])"

section \<open>Values\<close>

text \<open>\<^verbatim>\<open>isJsonValue\<close> on a parsed value, which is a tree.\<close>

fun tree_in_budget :: "nat \<Rightarrow> cval \<Rightarrow> bool" and trees_in_budget :: "nat \<Rightarrow> cval list \<Rightarrow> bool"
  and fields_in_budget :: "nat \<Rightarrow> (jsstring \<times> cval) list \<Rightarrow> bool" where
  "tree_in_budget depth (CNum n) = isFinite n"
| "tree_in_budget depth (CList vs) = (depth < JSON_DEPTH \<and> trees_in_budget (depth + 1) vs)"
| "tree_in_budget depth (CRecord ms) =
     (depth < JSON_DEPTH \<and> length ms \<le> JSON_PROPERTIES \<and> fields_in_budget (depth + 1) ms)"
| "tree_in_budget depth v = True"
| "trees_in_budget depth [] = True"
| "trees_in_budget depth (v # vs) = (tree_in_budget depth v \<and> trees_in_budget depth vs)"
| "fields_in_budget depth [] = True"
| "fields_in_budget depth ((k, v) # ms) = (tree_in_budget depth v \<and> fields_in_budget depth ms)"

fun hasUnsafeInteger :: "cval \<Rightarrow> bool" and any_unsafe :: "cval list \<Rightarrow> bool" and any_unsafe_field :: "(jsstring \<times> cval) list \<Rightarrow> bool" where
  "hasUnsafeInteger (CNum n) = (isInteger n \<and> \<not> isSafeInteger n)"
| "hasUnsafeInteger (CList vs) = any_unsafe vs"
| "hasUnsafeInteger (CRecord ms) = any_unsafe_field ms"
| "hasUnsafeInteger v = False"
| "any_unsafe [] = False"
| "any_unsafe (v # vs) = (hasUnsafeInteger v \<or> any_unsafe vs)"
| "any_unsafe_field [] = False"
| "any_unsafe_field ((k, v) # ms) = (hasUnsafeInteger v \<or> any_unsafe_field ms)"

definition storedProblem :: "jsstring \<Rightarrow> cval \<Rightarrow> jsstring option" where
  "storedProblem key v =
     (if \<not> tree_in_budget 0 v then
        Some (key @ js '' is over the kv.json budget: nesting deeper than 16 levels, or an object with more than 1024 keys'')
      else if hasUnsafeInteger v then Some (key @ js '' holds an integer outside the safe range'')
      else None)"

text \<open>
  \<open>serialize\<close>: \<^verbatim>\<open>JSON.stringify\<close> with its replacer, as the value its text denotes and that text. An
  inner \<^const>\<open>None\<close> is an absent member; the outer one is what throws: a cycle, or a part that is not JSON. The
  objects of the model have no \<^verbatim>\<open>toJSON\<close>.
\<close>

function json_copy :: "heap \<Rightarrow> jsval \<Rightarrow> nat list \<Rightarrow> cval option option"
  and json_items :: "heap \<Rightarrow> jsval list \<Rightarrow> nat list \<Rightarrow> cval list option"
  and json_members :: "heap \<Rightarrow> (jsstring \<times> jsval) list \<Rightarrow> nat list \<Rightarrow> (jsstring \<times> cval) list option" where
  "json_copy h v ancestors =
     (case v of
        JUndefined \<Rightarrow> Some None
      | JNull \<Rightarrow> Some (Some CNull)
      | JBool b \<Rightarrow> Some (Some (CBool b))
      | JNum n \<Rightarrow> if isFinite n then Some (Some (CNum (if n = MinusZero then Whole 0 else n))) else None
      | JText s \<Rightarrow> Some (Some (CText s))
      | JOther ty \<Rightarrow> None
      | JRef i \<Rightarrow>
          if i \<in> set ancestors then None
          else (case map_of h i of
                  None \<Rightarrow> None
                | Some (ArrayObj items extra) \<Rightarrow> map_option (\<lambda>vs. Some (CList vs)) (json_items h (map element items) (i # ancestors))
                | Some (RecordObj proto hidden ms) \<Rightarrow> map_option (\<lambda>fs. Some (CRecord fs)) (json_members h ms (i # ancestors))))"
| "json_items h [] ancestors = Some []"
| "json_items h (v # vs) ancestors =
     (case json_copy h v ancestors of
        Some (Some c) \<Rightarrow> map_option ((#) c) (json_items h vs ancestors)
      | _ \<Rightarrow> None)"
| "json_members h [] ancestors = Some []"
| "json_members h ((k, v) # ms) ancestors =
     (case json_copy h v ancestors of
        None \<Rightarrow> None
      | Some None \<Rightarrow> json_members h ms ancestors
      | Some (Some c) \<Rightarrow> map_option ((#) (k, c)) (json_members h ms ancestors))"
  by pat_completeness auto
termination
  by (relation "measures
      [\<lambda>x. case x of Inl (h, v, a) \<Rightarrow> card (fst ` set h - set a)
         | Inr (Inl (h, vs, a)) \<Rightarrow> card (fst ` set h - set a) | Inr (Inr (h, ms, a)) \<Rightarrow> card (fst ` set h - set a),
       \<lambda>x. case x of Inl _ \<Rightarrow> 0 | Inr (Inl (h, vs, a)) \<Rightarrow> length vs + 1 | Inr (Inr (h, ms, a)) \<Rightarrow> length ms + 1]")
    (auto simp: fewer_nodes)

declare json_copy.simps [simp del]

fun json_text :: "cval \<Rightarrow> jsstring" and json_texts :: "cval list \<Rightarrow> jsstring list" and json_pairs :: "(jsstring \<times> cval) list \<Rightarrow> jsstring list" where
  "json_text CNull = js ''null''"
| "json_text (CBool b) = (if b then js ''true'' else js ''false'')"
| "json_text (CNum n) = show_number n"
| "json_text (CText s) = json_string s"
| "json_text (CList vs) = [91] @ join_with [44] (json_texts vs) @ [93]"
| "json_text (CRecord ms) = [123] @ join_with [44] (json_pairs ms) @ [125]"
| "json_texts [] = []"
| "json_texts (v # vs) = json_text v # json_texts vs"
| "json_pairs [] = []"
| "json_pairs ((k, v) # ms) = (json_string k @ [58] @ json_text v) # json_pairs ms"

text \<open>A change of one key: its raw text, or \<^const>\<open>None\<close> to remove it; refused with the issues of \<^verbatim>\<open>InvalidValues\<close>.\<close>

definition setting_issue :: "jsstring \<Rightarrow> jsstring \<Rightarrow> conformance_issue" where
  "setting_issue key m = \<lparr>issue_field = key, issue_path = None, issue_message = m\<rparr>"

definition settingText :: "field_map \<Rightarrow> heap \<Rightarrow> jsstring \<Rightarrow> jsval \<Rightarrow> (conformance_issue list, jsstring option) result" where
  "settingText schemas h key v =
     (if key \<notin> fst ` set schemas then Inl [setting_issue key (key @ js '' is not declared'')]
      else if v = JUndefined then Inr None
      else case json_copy h v [] of
        Some (Some copy) \<Rightarrow>
          (case storedProblem key copy of
             Some problem \<Rightarrow> Inl [setting_issue key problem]
           | None \<Rightarrow>
               (case snd (check schemas [(key, Some copy)] PatchMode) of
                  [] \<Rightarrow> Inr (Some (json_text copy))
                | issues \<Rightarrow> Inl issues))
      | _ \<Rightarrow> Inl [setting_issue key (key @ js '' cannot be saved: the value has no exact JSON form'')])"

text \<open>The loop of \<open>valuesOf\<close> over the declared keys.\<close>

fun values_of ::
    "(jsstring \<Rightarrow> cval) \<Rightarrow> field_map \<Rightarrow> (jsstring \<times> nat) list \<Rightarrow> (jsstring \<times> jsstring) list \<Rightarrow> jsstring list
     \<Rightarrow> (jsstring \<times> cval) list \<times> issue list" where
  "values_of json schemas ls ms [] = ([], [])"
| "values_of json schemas ls ms (key # keys) =
     (let (vals, issues) = values_of json schemas ls ms keys in
      case map_of ms key of
        None \<Rightarrow> (vals, issues)
      | Some r \<Rightarrow>
          (let v = json r;
               found = (case storedProblem key v of
                          Some problem \<Rightarrow> [problem]
                        | None \<Rightarrow> map issue_message (snd (check schemas [(key, Some v)] PatchMode))) in
           (if found = [] then (key, v) # vals else vals,
            map (\<lambda>m. \<lparr>message = m, issue_line = map_of ls key, at_field = Some key\<rparr>) found @ issues)))"

definition valuesOf ::
    "(jsstring \<Rightarrow> cval) \<Rightarrow> jsonc \<Rightarrow> field_map \<Rightarrow> jsstring \<Rightarrow> (jsstring \<times> jsstring) list \<Rightarrow> (jsstring \<times> cval) list \<times> issue list" where
  "valuesOf json jsonc schemas t ms = values_of json schemas (keyLines jsonc t) ms (map fst schemas)"

section \<open>The handle\<close>

record kv_env =
  kv_jsonc :: jsonc
  kv_json :: "jsstring \<Rightarrow> cval"
  kv_digest :: "bytes \<Rightarrow> jsstring"
  kv_schemas :: field_map

datatype kv_error =
    KvFile file_error
  | KvInvalidUtf8 jsstring
  | KvInvalid jsstring jsstring "issue list"   \<comment> \<open>sha256, text, issues\<close>
  | KvInvalidValues "conformance_issue list"

record kv_reading =
  reading_sha :: jsstring
  reading_values :: "(jsstring \<times> cval) list"
  reading_issues :: "issue list"

definition readingOf :: "kv_env \<Rightarrow> jsstring \<Rightarrow> jsstring \<Rightarrow> (jsstring \<times> jsstring) list \<Rightarrow> kv_reading" where
  "readingOf e t sha ms =
     (let (vals, issues) = valuesOf (kv_json e) (kv_jsonc e) (kv_schemas e) t ms in
      \<lparr>reading_sha = sha, reading_values = vals, reading_issues = issues\<rparr>)"

text \<open>\<open>readFile\<close> on what the storage answers; \<^const>\<open>None\<close> is no file.\<close>

definition readFile ::
    "kv_env \<Rightarrow> (file_error, bytes \<times> jsstring) result \<Rightarrow> (kv_error, (jsstring \<times> jsstring \<times> (jsstring \<times> jsstring) list) option) result" where
  "readFile e ans =
     (case ans of
        Inl (NotFound p) \<Rightarrow> Inr None
      | Inl err \<Rightarrow> Inl (KvFile err)
      | Inr (bs, sha) \<Rightarrow>
          (case strict_decode bs of
             None \<Rightarrow> Inl (KvInvalidUtf8 sha)
           | Some t \<Rightarrow>
               (case readKvMembers (parser_of (kv_jsonc e)) t of
                  None \<Rightarrow> Inl (KvInvalid sha t (refusalOf (kv_jsonc e) t))
                | Some ms \<Rightarrow> Inr (Some (t, sha, ms)))))"

definition kv_get :: "kv_env \<Rightarrow> (file_error, bytes \<times> jsstring) result \<Rightarrow> (kv_error, kv_reading option) result" where
  "kv_get e ans = map_sum id (map_option (\<lambda>(t, sha, ms). readingOf e t sha ms)) (readFile e ans)"

text \<open>A \<^verbatim>\<open>Map\<close> keeps the place of a key that is set again.\<close>

fun apply_changes :: "(jsstring \<times> jsstring option) list \<Rightarrow> (jsstring \<times> jsstring) list \<Rightarrow> (jsstring \<times> jsstring) list" where
  "apply_changes [] ms = ms"
| "apply_changes ((key, None) # cs) ms = apply_changes cs (filter (\<lambda>m. fst m \<noteq> key) ms)"
| "apply_changes ((key, Some r) # cs) ms = apply_changes cs (defineOwn ms key r)"

definition ATTEMPTS :: nat where
  "ATTEMPTS = 3"

record kv_batch =
  batch_changes :: "(jsstring \<times> jsstring option) list"
  promise :: nat

text \<open>What the drain waits for: the answer to a read, or to the write of an attempt.\<close>

datatype kv_task =
    AskedRead kv_batch nat
  | AskedWrite kv_batch nat jsstring jsstring "(jsstring \<times> jsstring) list" file_change

record kv_handle =
  waiting :: "kv_batch option"
  task :: "kv_task option"
  answered :: "(nat \<times> (kv_error, kv_reading) result) list"

definition createKv :: kv_handle where
  "createKv = \<lparr>waiting = None, task = None, answered = []\<rparr>"

text \<open>The head of the loop of \<open>drain\<close>: take the waiting batch, or stop running.\<close>

definition take_batch :: "kv_handle \<Rightarrow> kv_handle" where
  "take_batch k = (case waiting k of None \<Rightarrow> k\<lparr>task := None\<rparr> | Some b \<Rightarrow> k\<lparr>waiting := None, task := Some (AskedRead b 0)\<rparr>)"

definition answer :: "kv_batch \<Rightarrow> (kv_error, kv_reading) result \<Rightarrow> kv_handle \<Rightarrow> kv_handle" where
  "answer b r k = take_batch (k\<lparr>answered := answered k @ [(promise b, r)]\<rparr>)"

definition new_batch :: "kv_handle \<Rightarrow> kv_batch" where
  "new_batch k = \<lparr>batch_changes = [], promise = length (answered k) + (if task k = None then 0 else 1)\<rparr>"

text \<open>\<open>set\<close>: the promise the caller waits for, or the refusal.\<close>

definition kv_set :: "kv_env \<Rightarrow> heap \<Rightarrow> jsstring \<Rightarrow> jsval \<Rightarrow> kv_handle \<Rightarrow> (kv_error, nat) result \<times> kv_handle" where
  "kv_set e h key v k =
     (case settingText (kv_schemas e) h key v of
        Inl issues \<Rightarrow> (Inl (KvInvalidValues issues), k)
      | Inr change \<Rightarrow>
          (let b = (case waiting k of None \<Rightarrow> new_batch k | Some b \<Rightarrow> b);
               b' = b\<lparr>batch_changes := defineOwn (batch_changes b) key change\<rparr>;
               k' = k\<lparr>waiting := Some b'\<rparr> in
           (Inr (promise b'), if task k = None then take_batch k' else k')))"

text \<open>One attempt of \<open>apply\<close>: from the read's answer to the write it asks for, and from the write's answer on.\<close>

definition read_answered :: "kv_env \<Rightarrow> (file_error, bytes \<times> jsstring) result \<Rightarrow> kv_handle \<Rightarrow> kv_handle" where
  "read_answered e ans k =
     (case task k of
        Some (AskedRead b n) \<Rightarrow>
          (case readFile e ans of
             Inl err \<Rightarrow> answer b (Inl err) k
           | Inr current \<Rightarrow>
               (let ms = apply_changes (batch_changes b) (case current of None \<Rightarrow> [] | Some (t, sha, ms) \<Rightarrow> ms);
                    t = formatKvMembers ms; bs = text_encode t; sha = kv_digest e bs;
                    change = (case current of
                                None \<Rightarrow> CreateFile KV_PATH bs sha
                              | Some (t0, sha0, ms0) \<Rightarrow> ReplaceFile KV_PATH bs sha (Some sha0)) in
                k\<lparr>task := Some (AskedWrite b n t sha ms change)\<rparr>))
      | _ \<Rightarrow> k)"

fun lost_race :: "file_error \<Rightarrow> bool" where
  "lost_race (ConflictAt p expected actual) = True"
| "lost_race (Exists p) = True"
| "lost_race (Unconfirmed p what) = True"
| "lost_race _ = False"

definition write_answered :: "kv_env \<Rightarrow> apply_error option \<Rightarrow> kv_handle \<Rightarrow> kv_handle" where
  "write_answered e ans k =
     (case task k of
        Some (AskedWrite b n t sha ms change) \<Rightarrow>
          (case applyOne change ans of
             Inr u \<Rightarrow> answer b (Inr (readingOf e t sha ms)) k
           | Inl (OneFile err) \<Rightarrow>
               if \<not> lost_race err then answer b (Inl (KvFile err)) k
               else if n + 1 < ATTEMPTS then k\<lparr>task := Some (AskedRead b (n + 1))\<rparr>
               else answer b (Inl (KvFile err)) k
           | Inl (SourceNotRemoved p q c err) \<Rightarrow> answer b (Inl (KvFile err)) k)
      | _ \<Rightarrow> k)"

text \<open>The storage threw: a defect settles the batch.\<close>

definition storage_threw :: "kv_handle \<Rightarrow> kv_handle" where
  "storage_threw k =
     (case task k of
        None \<Rightarrow> k
      | Some (AskedRead b n) \<Rightarrow> answer b (Inl (KvFile (Io KV_PATH (js ''set'')))) k
      | Some (AskedWrite b n t sha ms change) \<Rightarrow> answer b (Inl (KvFile (Io KV_PATH (js ''set'')))) k)"

section \<open>The handle and its folder\<close>

record kv_world =
  kv_now :: "bytes option"
  handle :: kv_handle

text \<open>
  Between any two steps another writer may put anything at the path, and once more between the storage's last
  check of a write and its publication (\<open>late\<close>). The storage answers by its contract; where it throws, the
  write may or may not have landed.
\<close>

inductive kv_step :: "kv_env \<Rightarrow> kv_world \<Rightarrow> kv_world \<Rightarrow> bool" for e where
  sets: "kv_step e w (w\<lparr>handle := snd (kv_set e h key v (handle w))\<rparr>)"
| others: "kv_step e w (w\<lparr>kv_now := now\<rparr>)"
| reads: "task (handle w) = Some (AskedRead b n) \<Longrightarrow> reads_file (kv_digest e) KV_PATH (kv_now w) ans \<Longrightarrow>
    kv_step e w (w\<lparr>handle := read_answered e ans (handle w)\<rparr>)"
| writes: "task (handle w) = Some (AskedWrite b n t sha ms change) \<Longrightarrow> answers (kv_digest e) change (kv_now w) late after ans \<Longrightarrow>
    kv_step e w \<lparr>kv_now = after, handle = write_answered e ans (handle w)\<rparr>"
| throws_reading: "task (handle w) = Some (AskedRead b n) \<Longrightarrow> kv_step e w (w\<lparr>handle := storage_threw (handle w)\<rparr>)"
| throws_writing: "task (handle w) = Some (AskedWrite b n t sha ms change) \<Longrightarrow>
    after = late \<or> (lands (kv_digest e) change (kv_now w) late \<and> after = leaves change) \<Longrightarrow>
    kv_step e w \<lparr>kv_now = after, handle = storage_threw (handle w)\<rparr>"

inductive kv_reachable :: "kv_env \<Rightarrow> kv_world \<Rightarrow> bool" for e where
  opened: "kv_reachable e \<lparr>kv_now = now, handle = createKv\<rparr>"
| stepped: "kv_reachable e w \<Longrightarrow> kv_step e w w' \<Longrightarrow> kv_reachable e w'"

section \<open>Invariants\<close>

text \<open>The members a content of the file holds; \<^const>\<open>None\<close> when it is no settings file.\<close>

definition members_now :: "kv_env \<Rightarrow> bytes option \<Rightarrow> (jsstring \<times> jsstring) list option" where
  "members_now e now =
     (case now of
        None \<Rightarrow> Some []
      | Some bs \<Rightarrow> Option.bind (strict_decode bs) (readKvMembers (parser_of (kv_jsonc e))))"

text \<open>A write asked for is the batch applied to members that were read, under the content they were read from.\<close>

definition write_ok :: "kv_env \<Rightarrow> kv_task \<Rightarrow> bool" where
  "write_ok e tk =
     (case tk of
        AskedRead b n \<Rightarrow> n < ATTEMPTS
      | AskedWrite b n t sha ms change \<Rightarrow>
          n < ATTEMPTS \<and> t = formatKvMembers ms \<and> sha = kv_digest e (text_encode t) \<and>
          (\<exists>seen ms0. members_now e seen = Some ms0 \<and> ms = apply_changes (batch_changes b) ms0
             \<and> change = (case seen of
                           None \<Rightarrow> CreateFile KV_PATH (text_encode t) sha
                         | Some bs \<Rightarrow> ReplaceFile KV_PATH (text_encode t) sha (Some (kv_digest e bs)))))"

fun task_batch :: "kv_task \<Rightarrow> kv_batch" where
  "task_batch (AskedRead b n) = b"
| "task_batch (AskedWrite b n t sha ms change) = b"

definition handle_ok :: "kv_env \<Rightarrow> kv_handle \<Rightarrow> bool" where
  "handle_ok e k \<longleftrightarrow>
     map fst (answered k) = [0..<length (answered k)]
     \<and> (case task k of None \<Rightarrow> waiting k = None | Some tk \<Rightarrow> write_ok e tk \<and> promise (task_batch tk) = length (answered k))
     \<and> (case waiting k of None \<Rightarrow> True | Some b \<Rightarrow> promise b = length (answered k) + 1)"

lemma write_ok_read [simp]: "write_ok e (AskedRead b n) \<longleftrightarrow> n < ATTEMPTS"
  by (simp add: write_ok_def)

lemma answer_ok:
  assumes "handle_ok e k" and "task k = Some tk" and "b = task_batch tk"
  shows "handle_ok e (answer b r k)"
  using assms by (auto simp: handle_ok_def answer_def take_batch_def ATTEMPTS_def split: option.splits)

lemma set_ok: "handle_ok e k \<Longrightarrow> handle_ok e (snd (kv_set e h key v k))"
  by (auto simp: handle_ok_def kv_set_def new_batch_def take_batch_def ATTEMPTS_def Let_def split: option.splits sum.splits)

lemma readFile_members:
  assumes "readFile e ans = Inr current" and "reads_file (kv_digest e) KV_PATH now ans"
  shows "case current of None \<Rightarrow> now = None
    | Some (t, sha, ms) \<Rightarrow> members_now e now = Some ms \<and> (\<exists>bs. now = Some bs \<and> sha = kv_digest e bs)"
  using assms by (auto simp: readFile_def reads_file_def members_now_def split: sum.splits file_error.splits option.splits prod.splits)

lemma read_ok:
  assumes "handle_ok e k" and "task k = Some (AskedRead b n)" and "reads_file (kv_digest e) KV_PATH now ans"
  shows "handle_ok e (read_answered e ans k)"
proof (cases "readFile e ans")
  case (Inl err)
  then show ?thesis using assms answer_ok [OF assms(1,2)] by (simp add: read_answered_def)
next
  case (Inr current)
  note m = readFile_members [OF Inr assms(3)]
  have n: "n < ATTEMPTS" using assms(1,2) by (simp add: handle_ok_def write_ok_def)
  show ?thesis
  proof (cases current)
    case None
    then have "members_now e None = Some []" by (simp add: members_now_def)
    then show ?thesis using None Inr assms n
      by (auto simp: read_answered_def handle_ok_def write_ok_def Let_def intro!: exI [of _ None] split: option.splits)
  next
    case (Some c)
    then obtain t sha ms where c: "current = Some (t, sha, ms)" by (cases c) auto
    with m obtain bs where bs: "members_now e (Some bs) = Some ms" "sha = kv_digest e bs" by auto
    then show ?thesis using c Inr assms n
      by (auto simp: read_answered_def handle_ok_def write_ok_def Let_def intro!: exI [of _ "Some bs"] split: option.splits)
  qed
qed

lemma write_answered_ok:
  assumes "handle_ok e k" and "task k = Some (AskedWrite b n t sha ms change)"
  shows "handle_ok e (write_answered e ans k)"
proof -
  have a: "handle_ok e (answer b r k)" for r using answer_ok [OF assms] by simp
  have "handle_ok e (k\<lparr>task := Some (AskedRead b (n + 1))\<rparr>)" if "n + 1 < ATTEMPTS"
    using assms that by (auto simp: handle_ok_def split: option.splits)
  then show ?thesis using a assms(2) by (auto simp: write_answered_def split: sum.split one_error.split)
qed

lemma kv_reachable_ok: "kv_reachable e w \<Longrightarrow> handle_ok e (handle w)"
proof (induction rule: kv_reachable.induct)
  case (stepped w w')
  from stepped(2,3) show ?case
    by cases (auto simp: set_ok read_ok write_answered_ok storage_threw_def answer_ok)
qed (simp add: handle_ok_def createKv_def)

lemma map_of_defineOwn: "map_of (defineOwn ms k v) = (map_of ms)(k \<mapsto> v)"
  by (simp add: defineOwn_def update_conv')

lemma map_of_apply_changes:
  "distinct (map fst cs) \<Longrightarrow> map_of (apply_changes cs ms) k = (case map_of cs k of None \<Rightarrow> map_of ms k | Some r \<Rightarrow> r)"
proof (induction cs ms rule: apply_changes.induct)
  case (2 key cs ms)
  moreover have "map_of (filter (\<lambda>m. fst m \<noteq> key) ms) k = (if k = key then None else map_of ms k)"
    by (induction ms) auto
  ultimately show ?case by (auto simp: map_of_eq_None_iff [THEN iffD2] split: option.split)
next
  case (3 key r cs ms)
  then show ?case by (auto simp: map_of_defineOwn map_of_eq_None_iff [THEN iffD2] split: option.split)
qed simp

definition batches_ok :: "kv_handle \<Rightarrow> bool" where
  "batches_ok k \<longleftrightarrow> (\<forall>b\<in>set_option (waiting k) \<union> set_option (map_option task_batch (task k)). distinct (map fst (batch_changes b)))"

lemma kv_reachable_batches: "kv_reachable e w \<Longrightarrow> batches_ok (handle w)"
proof (induction rule: kv_reachable.induct)
  case (stepped w w')
  have a: "batches_ok (answer b r k)" if "batches_ok k" for b r k
    using that by (auto simp: batches_ok_def answer_def take_batch_def split: option.splits)
  have s: "batches_ok (snd (kv_set e h key v k))" if "batches_ok k" for h key v k
    using that by (auto simp: batches_ok_def kv_set_def new_batch_def take_batch_def defineOwn_def distinct_update Let_def
        split: option.splits sum.splits)
  have t: "batches_ok (k\<lparr>task := Some tk\<rparr>)" if "batches_ok k" "task k = Some tk'" "task_batch tk = task_batch tk'" for k tk tk'
    using that by (simp add: batches_ok_def)
  from stepped(2,3) show ?case
  proof cases
    case (reads b n ans)
    then show ?thesis using stepped(3) a t by (auto simp: read_answered_def Let_def split: sum.split option.split)
  next
    case (writes b n tt sha ms change after ans)
    then show ?thesis using stepped(3) a t by (auto simp: write_answered_def split: sum.split one_error.split)
  qed (use stepped(3) a s in \<open>auto simp: storage_threw_def\<close>)
qed (simp add: batches_ok_def createKv_def)

section \<open>Properties\<close>

text \<open>
  Claim C14 (a_set_keeps_other_keys). Whatever other writers do, a write of the handle that reaches the file is
  the batch applied to exactly the members of the content that the storage last checked: the keys that were set
  have their new text or are gone, every other key of that content keeps its raw text. So nothing another writer
  had saved by then is lost, however long the handle took since its own read. The check is the storage's, by
  best effort: what another program writes between it and the publication (\<open>late\<close>) is displaced whole, and
  is outside this statement. Hypothesis: the digest tells the contents apart.
\<close>

theorem a_set_keeps_other_keys:
  assumes "kv_reachable e w" and "inj (kv_digest e)" and "task (handle w) = Some (AskedWrite b n t sha ms change)"
    and "answers (kv_digest e) change (kv_now w) late after ans" and "ans = None \<or> after \<noteq> late"
  shows "\<exists>old new. members_now e (kv_now w) = Some old \<and> after = Some (text_encode (formatKvMembers new))
    \<and> (\<forall>k. map_of new k = (case map_of (batch_changes b) k of None \<Rightarrow> map_of old k | Some r \<Rightarrow> r))"
proof -
  have "write_ok e (AskedWrite b n t sha ms change)" using kv_reachable_ok [OF assms(1)] assms(3) by (simp add: handle_ok_def)
  then obtain seen old where w: "t = formatKvMembers ms" "members_now e seen = Some old" "ms = apply_changes (batch_changes b) old"
    and ch: "change = (case seen of None \<Rightarrow> CreateFile KV_PATH (text_encode t) sha
        | Some bs \<Rightarrow> ReplaceFile KV_PATH (text_encode t) sha (Some (kv_digest e bs)))"
    by (auto simp: write_ok_def)
  have "lands (kv_digest e) change (kv_now w) late \<and> after = leaves change"
    using assms(4,5) by (cases rule: answers.cases) auto
  then have "seen = kv_now w" "after = Some (text_encode t)"
    using ch assms(2) by (auto split: option.splits dest: injD)
  moreover have "distinct (map fst (batch_changes b))" using kv_reachable_batches [OF assms(1)] assms(3) by (simp add: batches_ok_def)
  ultimately show ?thesis using w map_of_apply_changes by blast
qed

text \<open>
  Every batch of sets is answered once, in the order of the sets: the promises
  answered are the first ones, the next is that of the running batch and the one after it that of the
  batch that waits, which never waits while nothing runs.
\<close>

theorem sets_are_answered_in_order:
  assumes "kv_reachable e w"
  shows "map fst (answered (handle w)) = [0..<length (answered (handle w))]
    \<and> (task (handle w) = None \<longrightarrow> waiting (handle w) = None)
    \<and> (\<forall>tk. task (handle w) = Some tk \<longrightarrow> promise (task_batch tk) = length (answered (handle w)))
    \<and> (\<forall>b. waiting (handle w) = Some b \<longrightarrow> promise b = length (answered (handle w)) + 1)"
  using kv_reachable_ok [OF assms] by (auto simp: handle_ok_def split: option.splits)

text \<open>How many more answers a task can take.\<close>

definition answers_left :: "kv_task \<Rightarrow> nat" where
  "answers_left tk = (case tk of AskedRead b n \<Rightarrow> 2 * (ATTEMPTS - n) | AskedWrite b n t sha ms change \<Rightarrow> 2 * (ATTEMPTS - n) - 1)"

text \<open>
  Claim C22 (a_set_gives_up_after_three). Six answers of the storage settle a batch, whatever they are: each
  either answers it or brings it closer, from a bound of six. A lost race is reported only after the
  third attempt.
\<close>

theorem a_set_gives_up_after_three:
  assumes "kv_reachable e w" and "task (handle w) = Some tk"
    and "k' = (case tk of AskedRead b n \<Rightarrow> read_answered e rans (handle w) | _ \<Rightarrow> write_answered e wans (handle w))"
  shows "answers_left tk \<le> 6 \<and>
    ((\<exists>r. answered k' = answered (handle w) @ [(promise (task_batch tk), r)]
        \<and> (case (tk, r) of (AskedWrite b n t sha ms change, Inl (KvFile err)) \<Rightarrow> lost_race err \<longrightarrow> n = 2 | _ \<Rightarrow> True))
     \<or> (\<exists>tk'. task k' = Some tk' \<and> answered k' = answered (handle w) \<and> task_batch tk' = task_batch tk
          \<and> answers_left tk' < answers_left tk))"
proof -
  have ok: "write_ok e tk" using kv_reachable_ok [OF assms(1)] assms(2) by (simp add: handle_ok_def)
  have ans: "answered (answer b r k) = answered k @ [(promise b, r)]" for b r k
    by (simp add: answer_def take_batch_def split: option.split)
  show ?thesis
  proof (cases tk)
    case (AskedRead b n)
    then show ?thesis using assms(2,3) ok
      by (auto simp: read_answered_def ans answers_left_def ATTEMPTS_def Let_def split: sum.splits)
  next
    case (AskedWrite b n t sha ms change)
    then have n: "n < 3" using ok by (simp add: write_ok_def ATTEMPTS_def)
    have "applyOne change wans \<noteq> Inl (SourceNotRemoved p q c err)" for p q c err
      using ok AskedWrite by (auto simp: write_ok_def applyOne_def split: option.splits apply_error.splits)
    then show ?thesis using assms(2,3) AskedWrite n
      by (auto simp: write_answered_def ans answers_left_def ATTEMPTS_def split: sum.splits one_error.splits)
  qed
qed

lemma stored_value_reads:
  assumes "settingText schemas h key v = Inr (Some r)"
  obtains c where "json_copy h v [] = Some (Some c)" "r = json_text c" "storedProblem key c = None" "snd (check schemas [(key, Some c)] PatchMode) = []"
    "key \<in> fst ` set schemas"
  using assms by (auto simp: settingText_def split: if_splits option.splits list.splits)

lemma values_of_other:
  "key \<notin> set keys \<Longrightarrow> map_of (fst (values_of json schemas ls ms keys)) key = None
    \<and> (\<forall>i\<in>set (snd (values_of json schemas ls ms keys)). at_field i \<noteq> Some key)"
  by (induction keys) (auto simp: Let_def split: option.splits prod.splits)

lemma values_of_key:
  "distinct keys \<Longrightarrow> key \<in> set keys \<Longrightarrow> map_of ms key = Some r \<Longrightarrow> storedProblem key (json r) = None \<Longrightarrow>
    snd (check schemas [(key, Some (json r))] PatchMode) = [] \<Longrightarrow>
    map_of (fst (values_of json schemas ls ms keys)) key = Some (json r)
    \<and> (\<forall>i\<in>set (snd (values_of json schemas ls ms keys)). at_field i \<noteq> Some key)"
proof (induction keys)
  case (Cons k keys)
  let ?found = "case storedProblem k (json (the (map_of ms k))) of Some problem \<Rightarrow> [problem]
      | None \<Rightarrow> map issue_message (snd (check schemas [(k, Some (json (the (map_of ms k))))] PatchMode))"
  have step: "values_of json schemas ls ms (k # keys) =
      (if map_of ms k = None then values_of json schemas ls ms keys
       else (if ?found = [] then (k, json (the (map_of ms k))) # fst (values_of json schemas ls ms keys) else fst (values_of json schemas ls ms keys),
         map (\<lambda>m. \<lparr>message = m, issue_line = map_of ls k, at_field = Some k\<rparr>) ?found @ snd (values_of json schemas ls ms keys)))"
    by (auto simp: Let_def split: option.split prod.split)
  show ?case
  proof (cases "k = key")
    case True
    then have "key \<notin> set keys" using Cons.prems by simp
    note other = values_of_other [OF this]
    then show ?thesis using Cons.prems(3-5) True unfolding step by simp
  next
    case False
    then show ?thesis using Cons unfolding step by auto
  qed
qed simp

text \<open>
  The text a value is stored as reads back: in any file whose member
  for the key is that text, the value of the key is the JSON value supplied and no issue names the
  key. Hypothesis: parsing the JSON text of that value gives the value.
\<close>

theorem a_stored_setting_reads_back:
  assumes "settingText schemas h key v = Inr (Some r)" and "distinct (map fst schemas)" and "map_of ms key = Some r"
    and "\<forall>c. json_copy h v [] = Some (Some c) \<longrightarrow> json (json_text c) = c"
  shows "\<exists>c. json_copy h v [] = Some (Some c) \<and> map_of (fst (valuesOf json jsonc schemas t ms)) key = Some c
    \<and> (\<forall>i\<in>set (snd (valuesOf json jsonc schemas t ms)). at_field i \<noteq> Some key)"
proof -
  from assms(1) obtain c where c: "json_copy h v [] = Some (Some c)" "r = json_text c" "storedProblem key c = None"
    "snd (check schemas [(key, Some c)] PatchMode) = []" "key \<in> fst ` set schemas"
    by (rule stored_value_reads)
  with assms(4) have j: "json r = c" by blast
  show ?thesis
    using values_of_key [of "map fst schemas" key ms r json schemas "keyLines jsonc t"] assms(2,3) c j by (simp add: valuesOf_def)
qed

section \<open>Witnesses\<close>

text \<open>A sample: a folder without settings, one declared key, and a parser that reads the texts of these members.\<close>

definition sample_env :: kv_env where
  "sample_env = \<lparr>kv_jsonc = (\<lambda>t. Some ([], None)), kv_json = (\<lambda>t. CNull), kv_digest = map unat,
     kv_schemas = [(js ''theme'', \<lparr>is_optional = True, validate = \<lambda>v. Some True, validation_errors = \<lambda>v. Some []\<rparr>)]\<rparr>"

definition sample_handle :: kv_handle where
  "sample_handle = snd (kv_set sample_env [] (js ''theme'') (JText (js ''dark'')) createKv)"

definition sample_batch :: kv_batch where
  "sample_batch = \<lparr>batch_changes = [(js ''theme'', Some ([34] @ js ''dark'' @ [34]))], promise = 0\<rparr>"

lemma sample_setting: "settingText (kv_schemas sample_env) [] (js ''theme'') (JText (js ''dark'')) = Inr (Some ([34] @ js ''dark'' @ [34]))"
proof -
  have "json_copy [] (JText (js ''dark'')) [] = Some (Some (CText (js ''dark'')))" by (simp add: json_copy.simps)
  moreover have "snd (check (kv_schemas sample_env) [(js ''theme'', Some (CText (js ''dark'')))] PatchMode) = []"
    by (simp add: check_def sample_env_def fieldIssues_def Let_def)
  moreover have "json_string (js ''dark'') = [34] @ js ''dark'' @ [34]"
    by (simp add: json_string_def js_def quote_point_def units_of_def high_surrogate_def low_surrogate_def)
  ultimately show ?thesis by (simp add: settingText_def storedProblem_def) (simp add: sample_env_def)
qed

lemma sample_set: "task sample_handle = Some (AskedRead sample_batch 0)" "answered sample_handle = []" "waiting sample_handle = None"
proof -
  have e: "sample_handle = \<lparr>waiting = None, task = Some (AskedRead sample_batch 0), answered = []\<rparr>"
    using sample_setting
    by (simp add: sample_handle_def kv_set_def createKv_def new_batch_def take_batch_def defineOwn_def sample_batch_def)
  show "task sample_handle = Some (AskedRead sample_batch 0)" unfolding e by simp
  show "answered sample_handle = []" unfolding e by simp
  show "waiting sample_handle = None" unfolding e by simp
qed

definition sample_text :: jsstring where
  "sample_text = formatKvMembers [(js ''theme'', [34] @ js ''dark'' @ [34])]"

definition sample_change :: file_change where
  "sample_change = CreateFile KV_PATH (text_encode sample_text) (kv_digest sample_env (text_encode sample_text))"

definition asked_handle :: kv_handle where
  "asked_handle = read_answered sample_env (Inl (NotFound KV_PATH)) sample_handle"

lemma sample_asked:
  "task asked_handle = Some (AskedWrite sample_batch 0 sample_text (kv_digest sample_env (text_encode sample_text))
     [(js ''theme'', [34] @ js ''dark'' @ [34])] sample_change)"
  by (simp add: asked_handle_def read_answered_def sample_set readFile_def sample_batch_def defineOwn_def sample_text_def sample_change_def Let_def)

lemma sample_reachable: "kv_reachable sample_env \<lparr>kv_now = None, handle = sample_handle\<rparr>"
  "kv_reachable sample_env \<lparr>kv_now = None, handle = asked_handle\<rparr>"
proof -
  let ?w = "\<lparr>kv_now = None, handle = sample_handle\<rparr>"
  have "kv_reachable sample_env \<lparr>kv_now = None, handle = createKv\<rparr>" by (rule opened)
  from stepped [OF this sets [of sample_env _ "[]" "js ''theme''" "JText (js ''dark'')"]]
  show r: "kv_reachable sample_env ?w" by (simp add: sample_handle_def)
  have "reads_file (kv_digest sample_env) KV_PATH None (Inl (NotFound KV_PATH))" by (simp add: reads_file_def)
  then have "kv_step sample_env ?w (?w\<lparr>handle := read_answered sample_env (Inl (NotFound KV_PATH)) (handle ?w)\<rparr>)"
    by (intro reads) (simp_all add: sample_set)
  from stepped [OF r this] show "kv_reachable sample_env \<lparr>kv_now = None, handle = asked_handle\<rparr>"
    by (simp add: asked_handle_def)
qed

lemma byte_digest_inj: "inj (kv_digest sample_env)"
proof -
  have "inj (unat :: byte \<Rightarrow> nat)" by (simp add: inj_on_def word_unat_eq_iff)
  then show ?thesis by (simp add: sample_env_def inj_mapI)
qed

theorem a_set_keeps_other_keys_witness:
  "\<exists>new. Some (text_encode sample_text) = Some (text_encode (formatKvMembers new)) \<and> map_of new (js ''theme'') = Some ([34] @ js ''dark'' @ [34])
     \<and> map_of new (js ''other'') = None"
proof -
  have "answers (kv_digest sample_env) sample_change None None (Some (text_encode sample_text)) None"
    using answers.landed [of "kv_digest sample_env" sample_change None None] by (simp add: sample_change_def)
  then obtain old new where n: "members_now sample_env None = Some old" "Some (text_encode sample_text) = Some (text_encode (formatKvMembers new))"
    "\<forall>k. map_of new k = (case map_of (batch_changes sample_batch) k of None \<Rightarrow> map_of old k | Some r \<Rightarrow> r)"
    using a_set_keeps_other_keys [OF sample_reachable(2) byte_digest_inj, of sample_batch 0 _ _ _ _ None _ None] sample_asked
    unfolding kv_world.simps by blast
  then show ?thesis by (intro exI [of _ new]) (auto simp: members_now_def sample_batch_def js_def)
qed

theorem sets_are_answered_in_order_witness:
  "promise (task_batch (AskedRead sample_batch 0)) = 0 \<and> map fst (answered sample_handle) = []"
  using sets_are_answered_in_order [OF sample_reachable(1)] by (simp add: sample_set)

theorem a_set_gives_up_after_three_witness:
  "\<exists>tk'. task asked_handle = Some tk' \<and> answers_left tk' < answers_left (AskedRead sample_batch 0)"
proof -
  have k: "asked_handle = (case AskedRead sample_batch 0 of AskedRead b n \<Rightarrow> read_answered sample_env (Inl (NotFound KV_PATH)) (handle \<lparr>kv_now = None, handle = sample_handle\<rparr>)
      | _ \<Rightarrow> write_answered sample_env None (handle \<lparr>kv_now = None, handle = sample_handle\<rparr>))"
    by (simp add: asked_handle_def)
  have "answered asked_handle = []" by (simp add: asked_handle_def read_answered_def sample_set readFile_def Let_def)
  with a_set_gives_up_after_three [OF sample_reachable(1) _ k] show ?thesis by (auto simp: sample_set)
qed

theorem a_stored_setting_reads_back_witness:
  "map_of (fst (valuesOf (\<lambda>t. CText (js ''dark'')) (\<lambda>t. None) (kv_schemas sample_env) [] [(js ''theme'', [34] @ js ''dark'' @ [34])])) (js ''theme'')
     = Some (CText (js ''dark''))"
proof -
  have c: "json_copy [] (JText (js ''dark'')) [] = Some (Some (CText (js ''dark'')))" by (simp add: json_copy.simps)
  have s: "settingText (kv_schemas sample_env) [] (js ''theme'') (JText (js ''dark'')) = Inr (Some ([34] @ js ''dark'' @ [34]))"
    by (rule sample_setting)
  have d: "distinct (map fst (kv_schemas sample_env))" by (simp add: sample_env_def)
  show ?thesis
    using a_stored_setting_reads_back [OF s d, of "[(js ''theme'', [34] @ js ''dark'' @ [34])]" "\<lambda>t. CText (js ''dark'')"] c by simp
qed

end
