(* ===== verification/Folder_Sync.thy ===== *)
theory Folder_Sync
  imports Row_Merge Kv_File Paths
begin

text \<open>
  The merge rules a folder's sync adds to a Git merge, and how a person's choices settle what they hold:
  \<^verbatim>\<open>packages/folder/src/git/sync.ts\<close>, over the merges of \<open>Row_Merge\<close>, \<open>Kv_Merge\<close> and \<open>Merge_Lines\<close>. The
  closures that a held path keeps are data (\<open>held\<close>). Values that were parsed are trees; where they are
  written again they become objects of the heap that holds the caller's choices (\<open>place\<close>).
\<close>

section \<open>Parsed values as objects\<close>

definition fresh :: "heap \<Rightarrow> nat" where
  "fresh h = Suc (foldr max (map fst h) 0)"

fun place :: "cval \<Rightarrow> heap \<Rightarrow> heap \<times> jsval"
  and place_items :: "cval list \<Rightarrow> heap \<Rightarrow> heap \<times> jsval list"
  and place_fields :: "(jsstring \<times> cval) list \<Rightarrow> heap \<Rightarrow> heap \<times> (jsstring \<times> jsval) list" where
  "place CNull h = (h, JNull)"
| "place (CBool b) h = (h, JBool b)"
| "place (CNum n) h = (h, JNum n)"
| "place (CText s) h = (h, JText s)"
| "place (CList vs) h = (let (h', xs) = place_items vs h; i = fresh h' in ((i, ArrayObj (map Some xs) 0) # h', JRef i))"
| "place (CRecord ms) h = (let (h', ns) = place_fields ms h; i = fresh h' in ((i, RecordObj True 0 ns) # h', JRef i))"
| "place_items [] h = (h, [])"
| "place_items (v # vs) h = (let (h1, j) = place v h; (h2, xs) = place_items vs h1 in (h2, j # xs))"
| "place_fields [] h = (h, [])"
| "place_fields ((k, v) # ms) h = (let (h1, j) = place v h; (h2, ns) = place_fields ms h1 in (h2, (k, j) # ns))"

definition place_field :: "cval option \<Rightarrow> heap \<Rightarrow> heap \<times> jsval" where
  "place_field f h = (case f of None \<Rightarrow> (h, JUndefined) | Some v \<Rightarrow> place v h)"

section \<open>Conflicts and choices\<close>

record folder_definition =
  tables :: "(jsstring \<times> field_map) list"
  kv_fields :: field_map

record sync_env =
  sy_yaml :: yaml
  sy_unicode :: unicode
  sy_diff :: differ
  sy_jsonc :: jsonc
  sy_json :: "jsstring \<Rightarrow> cval"
  sy_definition :: "folder_definition option"

datatype sync_side = LocalSide | IncomingSide

datatype sync_version = AbsentVersion | ValueVersion cval | TextVersion jsstring

datatype sync_unit = SettingUnit jsstring | FieldUnit jsstring | BodyUnit | FileUnit

record sync_conflict =
  conflict_id :: jsstring
  conflict_unit :: sync_unit
  conflict_path :: jsstring
  base_version :: sync_version
  local_version :: sync_version
  incoming_version :: sync_version

datatype sync_choice = Take sync_side | ReplaceWith jsval | RemoveUnit

definition value_version :: "cval option \<Rightarrow> sync_version" where
  "value_version f = (case f of None \<Rightarrow> AbsentVersion | Some v \<Rightarrow> ValueVersion v)"

definition text_version :: "jsstring option \<Rightarrow> sync_version" where
  "text_version t = (case t of None \<Rightarrow> AbsentVersion | Some s \<Rightarrow> TextVersion s)"

definition json_array :: "jsstring list \<Rightarrow> jsstring" where
  "json_array xs = [91] @ join_with [44] (map json_string xs) @ [93]"

definition idOf :: "sync_unit \<Rightarrow> jsstring \<Rightarrow> jsstring" where
  "idOf u p = json_array (case u of
     SettingUnit key \<Rightarrow> [js ''setting'', p, key]
   | FieldUnit f \<Rightarrow> [js ''field'', p, f]
   | BodyUnit \<Rightarrow> [js ''body'', p]
   | FileUnit \<Rightarrow> [js ''file'', p])"

definition tableAt :: "folder_definition option \<Rightarrow> jsstring \<Rightarrow> field_map option" where
  "tableAt d p =
     (case d of
        None \<Rightarrow> None
      | Some def \<Rightarrow>
          if \<not> ends_with p ROW_EXTENSION then None
          else (case indexOf slash 0 p of
                  None \<Rightarrow> None
                | Some i \<Rightarrow> if indexOf slash (i + 1) p \<noteq> None then None else map_of (tables def) (take i p)))"

datatype choice_reason = Malformed | UnknownConflict | MissingChoice | Disallowed | InvalidChoice

record choice_problem =
  problem_conflict :: "jsstring option"
  problem_reason :: choice_reason
  problem_message :: jsstring

definition invalid_choice :: "jsstring \<Rightarrow> jsstring \<Rightarrow> choice_problem" where
  "invalid_choice i m = \<lparr>problem_conflict = Some i, problem_reason = InvalidChoice, problem_message = m\<rparr>"

section \<open>Held paths\<close>

datatype held =
    HeldFile jsstring row_versions
  | HeldSettings row_versions "kv_conflict list"
  | HeldRow field_map jsstring row "field_conflict list" "body_conflict option"

text \<open>The text a held path takes (\<^const>\<open>None\<close> for no file), the problems of its choices, or an exception.\<close>

datatype held_outcome = HeldText "jsstring option" | HeldProblems "choice_problem list" | HeldThrew

type_synonym picks = "jsstring \<rightharpoonup> sync_choice"

definition file_conflict :: "jsstring \<Rightarrow> row_versions \<Rightarrow> sync_conflict" where
  "file_conflict p v = \<lparr>conflict_id = idOf FileUnit p, conflict_unit = FileUnit, conflict_path = p,
     base_version = text_version (vbase v), local_version = text_version (vours v), incoming_version = text_version (vtheirs v)\<rparr>"

definition settle_file :: "jsstring \<Rightarrow> row_versions \<Rightarrow> picks \<Rightarrow> held_outcome" where
  "settle_file p v picks =
     (case picks (idOf FileUnit p) of
        None \<Rightarrow> HeldThrew
      | Some RemoveUnit \<Rightarrow> HeldText None
      | Some (Take sd) \<Rightarrow> HeldText (if sd = LocalSide then vours v else vtheirs v)
      | Some (ReplaceWith w) \<Rightarrow>
          (case w of
             JText t \<Rightarrow>
               if well_formed t then HeldText (Some t)
               else HeldProblems [invalid_choice (idOf FileUnit p) (js ''A file is replaced with well-formed text'')]
           | _ \<Rightarrow> HeldProblems [invalid_choice (idOf FileUnit p) (js ''A file is replaced with well-formed text'')]))"

definition setting_conflict :: "sync_env \<Rightarrow> kv_conflict \<Rightarrow> sync_conflict" where
  "setting_conflict e c =
     (let json = (\<lambda>r. value_version (map_option (sy_json e) r)) in
      \<lparr>conflict_id = idOf (SettingUnit (ckey c)) KV_PATH, conflict_unit = SettingUnit (ckey c), conflict_path = KV_PATH,
       base_version = json (cbase c), local_version = json (cours c), incoming_version = json (ctheirs c)\<rparr>)"

definition kv_schemas_of :: "sync_env \<Rightarrow> field_map" where
  "kv_schemas_of e = (case sy_definition e of None \<Rightarrow> [] | Some d \<Rightarrow> kv_fields d)"

text \<open>The loop over the keys: the resolutions and the problems, \<^const>\<open>None\<close> where a key has no pick.\<close>

fun settle_keys ::
    "sync_env \<Rightarrow> heap \<Rightarrow> picks \<Rightarrow> kv_conflict list \<Rightarrow> resolutions \<Rightarrow> choice_problem list \<Rightarrow> (resolutions \<times> choice_problem list) option" where
  "settle_keys e h picks [] res problems = Some (res, problems)"
| "settle_keys e h picks (c # cs) res problems =
     (let key = ckey c; i = idOf (SettingUnit key) KV_PATH in
      case picks i of
        None \<Rightarrow> None
      | Some RemoveUnit \<Rightarrow> settle_keys e h picks cs (res(key \<mapsto> None)) problems
      | Some (Take sd) \<Rightarrow> settle_keys e h picks cs (res(key \<mapsto> (if sd = LocalSide then cours c else ctheirs c))) problems
      | Some (ReplaceWith v) \<Rightarrow>
          (case settingText (kv_schemas_of e) h key v of
             Inr (Some r) \<Rightarrow> settle_keys e h picks cs (res(key \<mapsto> Some r)) problems
           | Inr None \<Rightarrow> settle_keys e h picks cs res (problems @ [invalid_choice i (key @ js '' is replaced with a value'')])
           | Inl issues \<Rightarrow>
               settle_keys e h picks cs res (problems @ [invalid_choice i (join_with [32] (map issue_message issues))])))"

definition settle_settings :: "sync_env \<Rightarrow> heap \<Rightarrow> row_versions \<Rightarrow> kv_conflict list \<Rightarrow> picks \<Rightarrow> held_outcome" where
  "settle_settings e h v cs picks =
     (case settle_keys e h picks cs Map.empty [] of
        None \<Rightarrow> HeldThrew
      | Some (res, problems) \<Rightarrow>
          if problems \<noteq> [] then HeldProblems problems
          else (case reconcileKv (parser_of (sy_jsonc e)) res (vbase v) (vours v) (vtheirs v) of
                  Merged t \<Rightarrow> HeldText t
                | _ \<Rightarrow> HeldThrew))"

definition row_field_conflict :: "jsstring \<Rightarrow> field_conflict \<Rightarrow> sync_conflict" where
  "row_field_conflict p c = \<lparr>conflict_id = idOf (FieldUnit (cfield c)) p, conflict_unit = FieldUnit (cfield c), conflict_path = p,
     base_version = value_version (fbase c), local_version = value_version (fours c), incoming_version = value_version (ftheirs c)\<rparr>"

definition row_body_conflict :: "jsstring \<Rightarrow> body_conflict \<Rightarrow> sync_conflict" where
  "row_body_conflict p c = \<lparr>conflict_id = idOf BodyUnit p, conflict_unit = BodyUnit, conflict_path = p,
     base_version = text_version (bbase c), local_version = TextVersion (bours c), incoming_version = TextVersion (btheirs c)\<rparr>"

definition row_conflicts :: "jsstring \<Rightarrow> field_conflict list \<Rightarrow> body_conflict option \<Rightarrow> sync_conflict list" where
  "row_conflicts p cs bc = map (row_field_conflict p) cs @ (case bc of None \<Rightarrow> [] | Some b \<Rightarrow> [row_body_conflict p b])"

text \<open>The chosen value of a field, as an object of the heap.\<close>

definition chosen_value :: "sync_choice \<Rightarrow> field_conflict \<Rightarrow> heap \<Rightarrow> heap \<times> jsval" where
  "chosen_value pick c h =
     (case pick of
        RemoveUnit \<Rightarrow> (h, JUndefined)
      | Take sd \<Rightarrow> place_field (if sd = LocalSide then fours c else ftheirs c) h
      | ReplaceWith v \<Rightarrow> (h, v))"

fun settle_fields ::
    "picks \<Rightarrow> jsstring \<Rightarrow> field_conflict list \<Rightarrow> heap \<Rightarrow> (jsstring \<times> jsval) list \<Rightarrow> (heap \<times> (jsstring \<times> jsval) list) option" where
  "settle_fields picks p [] h ms = Some (h, ms)"
| "settle_fields picks p (c # cs) h ms =
     (case picks (idOf (FieldUnit (cfield c)) p) of
        None \<Rightarrow> None
      | Some pick \<Rightarrow>
          (let (h', v) = chosen_value pick c h in
           settle_fields picks p cs h' (if v = JUndefined then filter (\<lambda>m. fst m \<noteq> cfield c) ms else defineOwn ms (cfield c) v)))"

definition settle_body :: "picks \<Rightarrow> jsstring \<Rightarrow> row \<Rightarrow> body_conflict option \<Rightarrow> (jsstring \<times> choice_problem list) option" where
  "settle_body picks p merged bc =
     (case bc of
        None \<Rightarrow> Some (doc_body merged, [])
      | Some b \<Rightarrow>
          (case picks (idOf BodyUnit p) of
             None \<Rightarrow> None
           | Some (Take sd) \<Rightarrow> Some (if sd = LocalSide then bours b else btheirs b, [])
           | Some (ReplaceWith (JText t)) \<Rightarrow> Some (t, [])
           | Some _ \<Rightarrow> Some (doc_body merged, [invalid_choice (idOf BodyUnit p) (js ''A body is replaced with text'')])))"

text \<open>Each issue belongs to the conflict that chose its field, else to the body's, else to the first.\<close>

definition issue_problem :: "jsstring \<Rightarrow> field_conflict list \<Rightarrow> body_conflict option \<Rightarrow> jsstring \<Rightarrow> issue \<Rightarrow> choice_problem" where
  "issue_problem p cs bc fallback i =
     invalid_choice
       (case find (\<lambda>c. Some (cfield c) = at_field i) cs of
          Some c \<Rightarrow> idOf (FieldUnit (cfield c)) p
        | None \<Rightarrow> (case bc of Some b \<Rightarrow> idOf BodyUnit p | None \<Rightarrow> fallback))
       (message i)"

definition settle_row ::
    "sync_env \<Rightarrow> heap \<Rightarrow> field_map \<Rightarrow> jsstring \<Rightarrow> row \<Rightarrow> field_conflict list \<Rightarrow> body_conflict option \<Rightarrow> picks \<Rightarrow> held_outcome" where
  "settle_row e h table p merged cs bc picks =
     (let (h1, ms) = place_fields (doc_fields merged) h in
      case settle_fields picks p cs h1 ms of
        None \<Rightarrow> HeldThrew
      | Some (h2, ms2) \<Rightarrow>
          (case settle_body picks p merged bc of
             None \<Rightarrow> HeldThrew
           | Some (text_body, problems) \<Rightarrow>
               if problems \<noteq> [] then HeldProblems problems
               else
                 (let i = fresh h2 in
                  case writeRow (sy_unicode e) (sy_yaml e) table ((i, RecordObj True 0 ms2) # h2) (Some (JRef i, JText text_body)) of
                    Inr (t, rw) \<Rightarrow> HeldText (Some t)
                  | Inl issues \<Rightarrow>
                      (case row_conflicts p cs bc of
                         [] \<Rightarrow> HeldThrew
                       | first # others \<Rightarrow> HeldProblems (map (issue_problem p cs bc (conflict_id first)) issues)))))"

definition held_conflicts :: "sync_env \<Rightarrow> held \<Rightarrow> sync_conflict list" where
  "held_conflicts e x =
     (case x of
        HeldFile p v \<Rightarrow> [file_conflict p v]
      | HeldSettings v cs \<Rightarrow> map (setting_conflict e) cs
      | HeldRow table p merged cs bc \<Rightarrow> row_conflicts p cs bc)"

definition settle_held :: "sync_env \<Rightarrow> heap \<Rightarrow> held \<Rightarrow> picks \<Rightarrow> held_outcome" where
  "settle_held e h x picks =
     (case x of
        HeldFile p v \<Rightarrow> settle_file p v picks
      | HeldSettings v cs \<Rightarrow> settle_settings e h v cs picks
      | HeldRow table p merged cs bc \<Rightarrow> settle_row e h table p merged cs bc picks)"

section \<open>Merging a path\<close>

datatype path_merge = MergedPath "jsstring option" | HeldPath

text \<open>Writing a merged row: its fields are objects of a heap of their own.\<close>

definition write_merged :: "sync_env \<Rightarrow> field_map \<Rightarrow> row \<Rightarrow> (issue list, jsstring \<times> row) result" where
  "write_merged e table r =
     (let (h, ms) = place_fields (doc_fields r) []; i = fresh h in
      writeRow (sy_unicode e) (sy_yaml e) table ((i, RecordObj True 0 ms) # h) (Some (JRef i, JText (doc_body r))))"

definition hold :: "jsstring \<Rightarrow> held \<Rightarrow> (jsstring \<times> held) list \<Rightarrow> (jsstring \<times> held) list \<times> path_merge" where
  "hold p x hs = (defineOwn hs p x, HeldPath)"

definition merge_settings :: "sync_env \<Rightarrow> jsstring \<Rightarrow> row_versions \<Rightarrow> (jsstring \<times> held) list \<Rightarrow> (jsstring \<times> held) list \<times> path_merge" where
  "merge_settings e p v hs =
     (case reconcileKv (parser_of (sy_jsonc e)) Map.empty (vbase v) (vours v) (vtheirs v) of
        Merged t \<Rightarrow> (hs, MergedPath t)
      | Conflict cs \<Rightarrow> hold p (HeldSettings v cs) hs
      | _ \<Rightarrow> hold p (HeldFile p v) hs)"

definition merge_text :: "sync_env \<Rightarrow> jsstring \<Rightarrow> row_versions \<Rightarrow> (jsstring \<times> held) list \<Rightarrow> (jsstring \<times> held) list \<times> path_merge" where
  "merge_text e p v hs =
     (case (vours v, vtheirs v) of
        (Some ours, Some theirs) \<Rightarrow>
          (case mergeLines (sy_diff e) (case vbase v of None \<Rightarrow> [] | Some b \<Rightarrow> b) ours theirs of
             Some t \<Rightarrow> (hs, MergedPath (Some t))
           | None \<Rightarrow> hold p (HeldFile p v) hs)
      | _ \<Rightarrow> hold p (HeldFile p v) hs)"

definition merge_row_file ::
    "sync_env \<Rightarrow> field_map \<Rightarrow> jsstring \<Rightarrow> row_versions \<Rightarrow> (jsstring \<times> held) list \<Rightarrow> (jsstring \<times> held) list \<times> path_merge" where
  "merge_row_file e table p v hs =
     (case mergeRow (sy_yaml e) (sy_diff e) table v of
        MergedRow r \<Rightarrow>
          (case write_merged e table r of
             Inr (t, rw) \<Rightarrow> (hs, MergedPath (Some t))
           | Inl issues \<Rightarrow> hold p (HeldFile p v) hs)
      | RowConflict r cs bc \<Rightarrow> hold p (HeldRow table p r cs bc) hs
      | WholeRow \<Rightarrow> hold p (HeldFile p v) hs)"

definition mergePath ::
    "sync_env \<Rightarrow> (jsstring \<times> jsstring option) list \<Rightarrow> jsstring \<Rightarrow> row_versions \<Rightarrow> (jsstring \<times> held) list
     \<Rightarrow> (jsstring \<times> held) list \<times> path_merge" where
  "mergePath e settled p v hs =
     (case map_of settled p of
        Some t \<Rightarrow> (hs, MergedPath t)
      | None \<Rightarrow>
          if p = KV_PATH then merge_settings e p v hs
          else (case tableAt (sy_definition e) p of
                  None \<Rightarrow> merge_text e p v hs
                | Some table \<Rightarrow> merge_row_file e table p v hs))"

text \<open>What is held after the paths of a merge were offered one after the other.\<close>

fun merge_paths ::
    "sync_env \<Rightarrow> (jsstring \<times> jsstring option) list \<Rightarrow> (jsstring \<times> row_versions) list \<Rightarrow> (jsstring \<times> held) list
     \<Rightarrow> (jsstring \<times> held) list \<times> (jsstring \<times> path_merge) list" where
  "merge_paths e settled [] hs = (hs, [])"
| "merge_paths e settled ((p, v) # ps) hs =
     (let (hs', m) = mergePath e settled p v hs; (hs'', ms) = merge_paths e settled ps hs' in (hs'', (p, m) # ms))"

section \<open>Attempts\<close>

record sync_attempt =
  attempt_id :: jsstring
  attempt_local :: jsstring
  attempt_incoming :: jsstring
  attempt_conflicts :: "sync_conflict list"

record sync_commits =
  commit_base :: "jsstring option"
  commit_head :: jsstring
  commit_fetched :: jsstring

record held_attempt =
  attempt :: sync_attempt
  commits :: sync_commits
  attempt_paths :: "(jsstring \<times> held) list"

text \<open>The random identifier is an argument.\<close>

definition make_attempt :: "sync_env \<Rightarrow> jsstring \<Rightarrow> sync_commits \<Rightarrow> (jsstring \<times> held) list \<Rightarrow> held_attempt" where
  "make_attempt e uuid c hs =
     \<lparr>attempt = \<lparr>attempt_id = uuid, attempt_local = commit_head c, attempt_incoming = commit_fetched c,
        attempt_conflicts = concat (map (\<lambda>x. held_conflicts e (snd x)) (sort_by (\<lambda>a b. compareKeys (fst a) (fst b)) hs))\<rparr>,
      commits = c, attempt_paths = hs\<rparr>"

section \<open>Choices\<close>

text \<open>
  An object a caller submits, by its own members: \<^const>\<open>None\<close> for what is no object or an array. Such objects have
  enumerable members only, and inherit none that is read here.
\<close>

definition object_members :: "heap \<Rightarrow> jsval \<Rightarrow> (jsstring \<times> jsval) list option" where
  "object_members h v =
     (case v of
        JRef i \<Rightarrow> (case map_of h i of Some (RecordObj proto hidden ms) \<Rightarrow> Some ms | _ \<Rightarrow> None)
      | _ \<Rightarrow> None)"

definition property_of :: "(jsstring \<times> jsval) list \<Rightarrow> string \<Rightarrow> jsval" where
  "property_of ms name = (case map_of ms (js name) of None \<Rightarrow> JUndefined | Some v \<Rightarrow> v)"

definition pickOf :: "heap \<Rightarrow> sync_conflict \<Rightarrow> jsval \<Rightarrow> (choice_reason, sync_choice) result" where
  "pickOf h c choice =
     (case object_members h choice of
        None \<Rightarrow> Inl Malformed
      | Some ms \<Rightarrow>
          (let kind = property_of ms ''kind'' in
           if kind = JText (js ''take'') then
             (let sd = property_of ms ''side'' in
              if sd = JText (js ''local'') then Inr (Take LocalSide)
              else if sd = JText (js ''incoming'') then Inr (Take IncomingSide)
              else Inl Malformed)
           else if kind = JText (js ''replace'') then
             (let v = property_of ms ''value'' in if v = JUndefined then Inl Malformed else Inr (ReplaceWith v))
           else if kind = JText (js ''remove'') then
             (if conflict_unit c = BodyUnit then Inl Disallowed else Inr RemoveUnit)
           else Inl Malformed))"

definition problem :: "choice_reason \<Rightarrow> jsstring option \<Rightarrow> choice_problem" where
  "problem r i = \<lparr>problem_conflict = i, problem_reason = r, problem_message =
     (case r of
        Malformed \<Rightarrow> js ''This is not a choice: take a side, replace with a value, or remove''
      | UnknownConflict \<Rightarrow> js ''No conflict of this attempt has this ID''
      | MissingChoice \<Rightarrow> js ''This conflict has no choice''
      | Disallowed \<Rightarrow> js ''A body cannot be removed; replace it with empty text''
      | InvalidChoice \<Rightarrow> [])\<rparr>"

fun read_choices ::
    "heap \<Rightarrow> (jsstring \<times> jsval) list \<Rightarrow> sync_conflict list \<Rightarrow> picks \<Rightarrow> choice_problem list \<Rightarrow> picks \<times> choice_problem list" where
  "read_choices h submitted [] picks problems = (picks, problems)"
| "read_choices h submitted (c # cs) picks problems =
     (let choice = (case map_of submitted (conflict_id c) of None \<Rightarrow> JUndefined | Some v \<Rightarrow> v) in
      if choice = JUndefined then read_choices h submitted cs picks (problems @ [problem MissingChoice (Some (conflict_id c))])
      else (case pickOf h c choice of
              Inl r \<Rightarrow> read_choices h submitted cs picks (problems @ [problem r (Some (conflict_id c))])
            | Inr pick \<Rightarrow> read_choices h submitted cs (picks(conflict_id c \<mapsto> pick)) problems))"

datatype settlement = SettledTexts "(jsstring \<times> jsstring option) list" | InvalidChoices "choice_problem list" | SettleThrew

fun settle_paths ::
    "sync_env \<Rightarrow> heap \<Rightarrow> picks \<Rightarrow> (jsstring \<times> held) list \<Rightarrow> ((jsstring \<times> jsstring option) list \<times> choice_problem list) option" where
  "settle_paths e h picks [] = Some ([], [])"
| "settle_paths e h picks ((p, x) # hs) =
     (case settle_held e h x picks of
        HeldThrew \<Rightarrow> None
      | HeldText t \<Rightarrow> map_option (\<lambda>(texts, problems). ((p, t) # texts, problems)) (settle_paths e h picks hs)
      | HeldProblems ps \<Rightarrow> map_option (\<lambda>(texts, problems). (texts, ps @ problems)) (settle_paths e h picks hs))"

definition settle :: "sync_env \<Rightarrow> heap \<Rightarrow> (jsstring \<times> held) list \<Rightarrow> sync_conflict list \<Rightarrow> jsval \<Rightarrow> settlement" where
  "settle e h paths conflicts choices =
     (case object_members h choices of
        None \<Rightarrow> InvalidChoices [problem Malformed None]
      | Some submitted \<Rightarrow>
          (let (picks, problems) = read_choices h submitted conflicts Map.empty [];
               unknown = map (\<lambda>k. problem UnknownConflict (Some k)) (filter (\<lambda>k. k \<notin> conflict_id ` set conflicts) (map fst submitted)) in
           if problems @ unknown \<noteq> [] then InvalidChoices (problems @ unknown)
           else (case settle_paths e h picks paths of
                   None \<Rightarrow> SettleThrew
                 | Some (texts, ps) \<Rightarrow> if ps \<noteq> [] then InvalidChoices ps else SettledTexts texts)))"

definition settle_attempt :: "sync_env \<Rightarrow> held_attempt \<Rightarrow> heap \<Rightarrow> jsval \<Rightarrow> settlement" where
  "settle_attempt e a h choices = settle e h (attempt_paths a) (attempt_conflicts (attempt a)) choices"

section \<open>Placed values read back\<close>

definition extends :: "heap \<Rightarrow> heap \<Rightarrow> bool" where
  "extends h h' \<longleftrightarrow> (\<forall>i obj. map_of h i = Some obj \<longrightarrow> map_of h' i = Some obj)"

lemma extends_refl [simp]: "extends h h"
  by (simp add: extends_def)

lemma extends_trans: "extends h1 h2 \<Longrightarrow> extends h2 h3 \<Longrightarrow> extends h1 h3"
  by (simp add: extends_def)

lemma fresh_above: "i \<in> fst ` set h \<Longrightarrow> i < fresh h"
proof -
  have "i \<in> set xs \<Longrightarrow> i \<le> foldr max xs 0" for xs :: "nat list"
    by (induction xs) auto
  moreover assume "i \<in> fst ` set h"
  ultimately show ?thesis by (simp add: fresh_def less_Suc_eq_le)
qed

lemma fresh_new: "map_of h (fresh h) = None"
  using fresh_above [of "fresh h" h] by (auto simp: map_of_eq_None_iff)

lemma extends_fresh: "extends h ((fresh h, obj) # h)"
  using fresh_new [of h] by (auto simp: extends_def)

lemma reads_extends: "reads h j c \<Longrightarrow> extends h h' \<Longrightarrow> reads h' j c"
proof (induction rule: reads.induct)
  case (reads_list i items extra cs)
  then have "map_of h' i = Some (ArrayObj items extra)" by (simp add: extends_def)
  moreover have "list_all2 (reads h') (map element items) cs" using reads_list by (auto elim!: list_all2_mono)
  ultimately show ?case by (rule reads.reads_list)
next
  case (reads_record i proto hidden ms cs)
  then have "map_of h' i = Some (RecordObj proto hidden ms)" by (simp add: extends_def)
  moreover have "\<forall>k. rel_option (reads h') (present ms k) (map_of cs k)"
    using reads_record by (auto elim!: option.rel_mono_strong)
  ultimately show ?case by (rule reads.reads_record)
qed (auto intro: reads.intros)

lemma heap_ok_new: "heap_ok h \<Longrightarrow> distinct (map fst ms) \<Longrightarrow> heap_ok ((i, RecordObj proto hidden ms) # h)"
  by (auto simp: heap_ok_def)

lemma heap_ok_array: "heap_ok h \<Longrightarrow> heap_ok ((i, ArrayObj items extra) # h)"
  by (auto simp: heap_ok_def)

text \<open>Placing a canonical value keeps what is there and gives an object that reads as the value.\<close>

lemma place_reads:
  "place v h = (h', j) \<Longrightarrow> canonical v \<Longrightarrow> heap_ok h \<Longrightarrow> extends h h' \<and> heap_ok h' \<and> reads h' j v \<and> j \<noteq> JUndefined"
  "place_items vs h = (h', xs) \<Longrightarrow> canonical_list vs \<Longrightarrow> heap_ok h \<Longrightarrow> extends h h' \<and> heap_ok h' \<and> list_all2 (reads h') xs vs"
  "place_fields ms h = (h', ns) \<Longrightarrow> canonical_fields ms \<Longrightarrow> heap_ok h \<Longrightarrow>
    extends h h' \<and> heap_ok h' \<and> list_all2 (\<lambda>n m. fst n = fst m \<and> reads h' (snd n) (snd m) \<and> snd n \<noteq> JUndefined) ns ms"
proof (induction v h and vs h and ms h arbitrary: h' j and h' xs and h' ns rule: place_place_items_place_fields.induct)
  case (5 vs h)
  obtain h1 ys where p: "place_items vs h = (h1, ys)" by fastforce
  with 5 have ih: "extends h h1" "heap_ok h1" "list_all2 (reads h1) ys vs" by auto
  have h': "h' = (fresh h1, ArrayObj (map Some ys) 0) # h1" "j = JRef (fresh h1)" using 5(2) p by (auto simp: Let_def)
  then have e: "extends h1 h'" by (simp add: extends_fresh)
  have "list_all2 (reads h') (map element (map Some ys)) vs"
    using ih(3) reads_extends [OF _ e] by (auto simp: element_def list_all2_map1 comp_def elim!: list_all2_mono)
  then have "reads h' j (CList vs)" unfolding h'(2) by (intro reads_list [of _ _ "map Some ys" 0]) (simp_all add: h'(1))
  then show ?case using ih e h' extends_trans heap_ok_array by blast
next
  case (6 ms h)
  obtain h1 ns where p: "place_fields ms h = (h1, ns)" by fastforce
  with 6 have ih: "extends h h1" "heap_ok h1" "list_all2 (\<lambda>n m. fst n = fst m \<and> reads h1 (snd n) (snd m) \<and> snd n \<noteq> JUndefined) ns ms" by auto
  have h': "h' = (fresh h1, RecordObj True 0 ns) # h1" "j = JRef (fresh h1)" using 6(2) p by (auto simp: Let_def)
  then have e: "extends h1 h'" by (simp add: extends_fresh)
  have "map fst ns = map fst ms" using ih(3) by (induction rule: list_all2_induct) auto
  then have ok: "heap_ok h'" unfolding h'(1) using ih(2) 6(3) by (intro heap_ok_new) simp_all
  have "rel_option (reads h') (present ns k) (map_of ms k)" for k
    using ih(3) by (induction rule: list_all2_induct) (auto simp: present_def reads_extends [OF _ e] split: jsval.splits option.splits)
  then have "reads h' j (CRecord ms)" unfolding h'(2) by (intro reads_record [of _ _ True 0 ns]) (simp_all add: h'(1))
  then show ?case using ih e ok h' extends_trans by blast
next
  case (8 v vs h)
  obtain h1 j1 where p: "place v h = (h1, j1)" by fastforce
  obtain h2 ys where q: "place_items vs h1 = (h2, ys)" by fastforce
  have r: "h' = h2" "xs = j1 # ys" using 8(3) p q by auto
  have i1: "extends h h1" "heap_ok h1" "reads h1 j1 v" using 8(1) [OF p] 8(4,5) by auto
  have i2: "extends h1 h2" "heap_ok h2" "list_all2 (reads h2) ys vs" using 8(2) [OF p [symmetric] refl q] 8(4) i1(2) by auto
  then show ?case using r i1 extends_trans reads_extends by auto
next
  case (10 k v ms h)
  obtain h1 j1 where p: "place v h = (h1, j1)" by fastforce
  obtain h2 ys where q: "place_fields ms h1 = (h2, ys)" by fastforce
  have r: "h' = h2" "ns = (k, j1) # ys" using 10(3) p q by auto
  have i1: "extends h h1" "heap_ok h1" "reads h1 j1 v" "j1 \<noteq> JUndefined" using 10(1) [OF p] 10(4,5) by auto
  have i2: "extends h1 h2" "heap_ok h2" "list_all2 (\<lambda>n m. fst n = fst m \<and> reads h2 (snd n) (snd m) \<and> snd n \<noteq> JUndefined) ys ms"
    using 10(2) [OF p [symmetric] refl q] 10(4) i1(2) by auto
  then show ?case using r i1 extends_trans reads_extends by auto
qed (auto intro: reads.intros)

text \<open>What an object reads as is one JSON value.\<close>

lemma reads_same: "reads h j c \<Longrightarrow> reads h j d \<Longrightarrow> canonical c \<Longrightarrow> canonical d \<Longrightarrow> sameValue c d"
proof (induction arbitrary: d rule: reads.induct)
  case (reads_null d)
  then show ?case by (cases rule: reads.cases) simp
next
  case (reads_bool b d)
  then show ?case by (cases rule: reads.cases) simp
next
  case (reads_num n d)
  from reads_num(1) have "d = CNum n" by (cases rule: reads.cases) simp
  then show ?case using reads_num by (simp add: same_number_refl num_canonical_def)
next
  case (reads_text s d)
  then show ?case by (cases rule: reads.cases) simp
next
  case (reads_list i items extra cs)
  from reads_list.prems(1) reads_list.hyps(1) obtain ds where d: "d = CList ds" "list_all2 (reads h) (map element items) ds"
    by (cases rule: reads.cases) auto
  have l: "length cs = length items" "length ds = length items"
    using list_all2_lengthD [OF reads_list.IH] list_all2_lengthD [OF d(2)] by simp_all
  have "list_all2 sameValue cs ds"
  proof (rule list_all2_all_nthI)
    show "length cs = length ds" using l by simp
    fix n assume n: "n < length cs"
    have "canonical (cs ! n)" "canonical (ds ! n)" using reads_list.prems(2,3) n l unfolding d(1) by (simp_all add: canonical_list_iff)
    moreover have "reads h (map element items ! n) (ds ! n)" using list_all2_nthD [OF d(2), of n] n l by simp
    ultimately show "sameValue (cs ! n) (ds ! n)" using list_all2_nthD [OF reads_list.IH, of n] n l by simp
  qed
  then show ?case unfolding d(1) sameValue_list .
next
  case (reads_record i proto hidden ms cs)
  from reads_record.prems(1) reads_record.hyps obtain ds where d: "d = CRecord ds" "\<forall>k. rel_option (reads h) (present ms k) (map_of ds k)"
    by (cases rule: reads.cases) auto
  have dist: "distinct (map fst cs)" "distinct (map fst ds)" using reads_record.prems(2,3) d(1) by simp_all
  have keys: "(map_of cs k = None) = (map_of ds k = None)" for k
    using spec [OF reads_record.IH, of k] spec [OF d(2), of k] by (cases "present ms k") (auto simp: option_rel_Some1)
  then have "fst ` set cs = fst ` set ds" by (metis map_of_eq_None_iff set_eqI)
  then have len: "length cs = length ds" using dist by (metis distinct_card length_map set_map)
  have "\<exists>w. map_of ds k = Some w \<and> sameValue v w" if kv: "(k, v) \<in> set cs" for k v
  proof -
    have v: "map_of cs k = Some v" using dist(1) kv by simp
    then obtain w where w: "map_of ds k = Some w" using keys [of k] by auto
    from v spec [OF reads_record.IH, of k] obtain x where x: "present ms k = Some x" "reads h x v" "\<forall>d. reads h x d \<longrightarrow> canonical v \<longrightarrow> canonical d \<longrightarrow> sameValue v d"
      by (auto simp: option_rel_Some2)
    have "reads h x w" using spec [OF d(2), of k] w x(1) by simp
    moreover have "canonical v" "canonical w"
      using kv map_of_SomeD [OF w] reads_record.prems(2,3) d(1) by (auto simp: canonical_fields_iff)
    ultimately show ?thesis using w x(3) by blast
  qed
  then show ?case unfolding d(1) sameValue_record using len by blast
qed

lemma same_record_fields:
  assumes "sameValue (CRecord ms) (CRecord ns)" "canonical (CRecord ms)" "canonical (CRecord ns)"
  shows "same_field (map_of ms k) (map_of ns k)"
proof -
  have d: "distinct (map fst ms)" "distinct (map fst ns)" using assms(2,3) by simp_all
  have s: "length ms = length ns" "\<forall>(k, v)\<in>set ms. \<exists>w. map_of ns k = Some w \<and> sameValue v w"
    using assms(1) unfolding sameValue_record by auto
  have "fst ` set ms \<subseteq> fst ` set ns" using s(2) by (force dest: map_of_SomeD)
  note keys = same_keys [OF d s(1) this]
  show ?thesis
  proof (cases "map_of ms k")
    case None
    then have "map_of ns k = None" using keys by (metis map_of_eq_None_iff)
    with None show ?thesis by (simp add: same_field_def)
  next
    case (Some v)
    then have "(k, v) \<in> set ms" by (rule map_of_SomeD)
    with s(2) Some show ?thesis by (auto simp: same_field_def)
  qed
qed

text \<open>A row that is written from placed fields.\<close>

lemma written_from_reads:
  assumes "writeRow U yaml table h (Some (JRef i, JText b)) = Inr (t, w)" and "heap_ok h"
  shows "parseRow yaml table t = Inr w \<and> doc_body w = b \<and> reads h (JRef i) (CRecord (doc_fields w)) \<and> canonical (CRecord (doc_fields w))"
proof -
  have p: "parseRow yaml table t = Inr w" using assms(1) by (rule written_row_parses)
  have "formatRowSource U yaml h (Some (JRef i, JText b)) (map fst table) = Inr (t, w)"
    using assms(1) by (auto simp: writeRow_def split: sum.splits prod.splits list.splits)
  from formatted_reads_back [OF assms(2) this] parseRow_canonical [OF p] p show ?thesis
    by (simp add: row_canonical_def row_fields_def)
qed

lemma write_merged_same:
  assumes "write_merged e table r = Inr (t, w)" and "row_canonical (Some r)"
  shows "parseRow (sy_yaml e) table t = Inr w \<and> doc_body w = doc_body r \<and> (\<forall>k. same_field (field_of (Some r) k) (field_of (Some w) k))"
proof -
  obtain h ms where p: "place_fields (doc_fields r) [] = (h, ms)" by fastforce
  let ?i = "fresh h" and ?h = "(fresh h, RecordObj True 0 ms) # h"
  have pl: "place (CRecord (doc_fields r)) [] = (?h, JRef ?i)" using p by (simp add: Let_def)
  have c: "canonical (CRecord (doc_fields r))" using assms(2) by (simp add: row_canonical_def row_fields_def)
  have "heap_ok []" by (simp add: heap_ok_def)
  from place_reads(1) [OF pl c this] have ok: "heap_ok ?h" "reads ?h (JRef ?i) (CRecord (doc_fields r))" by auto
  have w: "writeRow (sy_unicode e) (sy_yaml e) table ?h (Some (JRef ?i, JText (doc_body r))) = Inr (t, w)"
    using assms(1) p by (simp add: write_merged_def Let_def)
  note wr = written_from_reads [OF w ok(1)]
  then have "sameValue (CRecord (doc_fields r)) (CRecord (doc_fields w))" using reads_same [OF ok(2)] c by blast
  then show ?thesis using wr same_record_fields c by (simp add: row_fields_def)
qed

end
