(* ===== verification/Sync_Settle.thy ===== *)
theory Sync_Settle
  imports Folder_Sync
begin

text \<open>
  What the conflicts and choices of \<open>Folder_Sync\<close> guarantee: conflict identifiers are distinct, every submitted
  set of choices is refused with its problems or settles every held path, a settled merge holds nothing, and a settled row
  is a valid row that holds what was chosen.
\<close>

section \<open>Conflict identifiers\<close>

text \<open>The point that a quoted text starts with.\<close>

definition hex_value :: "nat \<Rightarrow> nat" where
  "hex_value u = (if u < 58 then u - 48 else u - 87)"

definition head_point :: "jsstring \<Rightarrow> nat" where
  "head_point s =
     (if hd s = 92 then
        (let k = s ! 1 in
         if k = 98 then 8 else if k = 116 then 9 else if k = 110 then 10 else if k = 102 then 12 else if k = 114 then 13
         else if k = 117 then hex_value (s ! 2) * 4096 + hex_value (s ! 3) * 256 + hex_value (s ! 4) * 16 + hex_value (s ! 5)
         else k)
      else if high_surrogate (hd s) then 0x10000 + (hd s - 0xD800) * 0x400 + (s ! 1 - 0xDC00)
      else hd s)"

lemma hex_value_digit [simp]: "d < 16 \<Longrightarrow> hex_value (hex_digit d) = d"
  by (simp add: hex_value_def hex_digit_def)

lemma four_digits:
  assumes "p < 65536" shows "p div 4096 mod 16 * 4096 + p div 256 mod 16 * 256 + p div 16 mod 16 * 16 + p mod 16 = (p::nat)"
proof -
  have e: "p div 256 = p div 16 div 16" "p div 4096 = p div 16 div 16 div 16" by (simp_all add: div_mult2_eq [symmetric])
  have "p div 16 div 16 div 16 < 16" using assms by (simp add: div_mult2_eq [symmetric] less_mult_imp_div_less)
  then have "p div 16 div 16 div 16 mod 16 = p div 16 div 16 div 16" by (rule mod_less)
  moreover have "p = p div 16 * 16 + p mod 16" "p div 16 = p div 16 div 16 * 16 + p div 16 mod 16"
    "p div 16 div 16 = p div 16 div 16 div 16 * 16 + p div 16 div 16 mod 16" by (simp_all only: div_mult_mod_eq)
  ultimately show ?thesis unfolding e by linarith
qed

lemma head_point_escape: "p < 65536 \<Longrightarrow> head_point (unicode_escape p @ r) = p"
  using four_digits [of p] by (simp add: head_point_def unicode_escape_def)

lemma head_point_units:
  assumes "p < 0x110000" "p \<noteq> 92" "\<not> (0xD800 \<le> p \<and> p \<le> 0xDFFF)" shows "head_point (units_of p @ r) = p"
proof (cases "p < 0x10000")
  case True
  then show ?thesis using assms by (auto simp: head_point_def units_of_def high_surrogate_def)
next
  case False
  define m where "m = p - 0x10000"
  then have p: "p = 0x10000 + m" "m < 0x100000" using False assms(1) by auto
  then have "m div 1024 < 1024" by auto
  then have u: "units_of p = [0xD800 + m div 1024, 0xDC00 + m mod 1024]" "high_surrogate (0xD800 + m div 1024)"
    using p by (auto simp: units_of_def high_surrogate_def)
  then show ?thesis using p(1) by (simp add: head_point_def)
qed

lemma head_point_quote: "p < 0x110000 \<Longrightarrow> head_point (quote_point p @ r) = p"
proof -
  assume b: "p < 0x110000"
  consider (escape) "p < 32 \<or> (0xD800 \<le> p \<and> p \<le> 0xDFFF)" "quote_point p = unicode_escape p"
    | (plain) "p \<noteq> 92" "\<not> (0xD800 \<le> p \<and> p \<le> 0xDFFF)" "quote_point p = units_of p"
    | (short) k where "quote_point p = [92, k]" "(k, p) \<in> {(98, 8), (116, 9), (110, 10), (102, 12), (114, 13), (34, 34), (92, 92)}"
    unfolding quote_point_def by (cases "p \<in> {8, 9, 10, 12, 13, 34, 92}"; cases "p < 32 \<or> (0xD800 \<le> p \<and> p \<le> 0xDFFF)"; auto)
  then show ?thesis
  proof cases
    case escape
    then have "p < 65536" by auto
    with escape(2) head_point_escape show ?thesis by simp
  next
    case plain
    with b head_point_units show ?thesis by simp
  next
    case (short k)
    then show ?thesis by (auto simp: head_point_def)
  qed
qed

lemma quote_point_prefix:
  "quote_point p @ r = quote_point q @ r' \<Longrightarrow> p < 0x110000 \<Longrightarrow> q < 0x110000 \<Longrightarrow> p = q \<and> r = r'"
  using head_point_quote [of p r] head_point_quote [of q r'] by auto

lemma quote_point_start: "quote_point p \<noteq> [] \<and> hd (quote_point p) \<noteq> 34"
  by (auto simp: quote_point_def units_of_def unicode_escape_def)

lemma quoted_points_prefix:
  "concat (map quote_point ps) @ 34 # r = concat (map quote_point qs) @ 34 # r' \<Longrightarrow>
    \<forall>p\<in>set ps. p < 0x110000 \<Longrightarrow> \<forall>q\<in>set qs. q < 0x110000 \<Longrightarrow> ps = qs \<and> r = r'"
proof (induction ps arbitrary: qs)
  case Nil
  then show ?case using quote_point_start [of "hd qs"] by (cases qs) (auto simp: neq_Nil_conv)
next
  case (Cons p ps)
  show ?case
  proof (cases qs)
    case Nil
    with Cons.prems(1) quote_point_start [of p] show ?thesis by (auto simp: neq_Nil_conv)
  next
    case (Cons q qs')
    with Cons.prems quote_point_prefix [of p "concat (map quote_point ps) @ 34 # r" q "concat (map quote_point qs') @ 34 # r'"] Cons.IH [of qs']
    show ?thesis by simp
  qed
qed

lemma code_points_bound: "units_ok s \<Longrightarrow> c \<in> set (code_points s) \<Longrightarrow> c < 0x110000"
proof (induction s rule: code_points.induct)
  case (3 u v us)
  then show ?case by (cases "high_surrogate u \<and> low_surrogate v") (auto simp: units_ok_def high_surrogate_def low_surrogate_def)
qed (auto simp: units_ok_def)

lemma json_string_prefix:
  assumes "json_string s @ r = json_string t @ r'" "units_ok s" "units_ok t" shows "s = t \<and> r = r'"
proof -
  have "code_points s = code_points t \<and> r = r'"
    using assms code_points_bound by (intro quoted_points_prefix) (auto simp: json_string_def)
  then show ?thesis using units_from_points assms(2,3) by metis
qed

definition items_text :: "jsstring list \<Rightarrow> jsstring" where
  "items_text xs = concat (map (\<lambda>x. 44 # json_string x) xs) @ [93]"

lemma items_text_inj: "items_text xs = items_text ys \<Longrightarrow> \<forall>x\<in>set xs. units_ok x \<Longrightarrow> \<forall>y\<in>set ys. units_ok y \<Longrightarrow> xs = ys"
proof (induction xs arbitrary: ys)
  case Nil
  then show ?case by (cases ys) (auto simp: items_text_def)
next
  case (Cons x xs)
  then obtain y ys' where y: "ys = y # ys'" by (cases ys) (auto simp: items_text_def)
  with Cons.prems have "json_string x @ items_text xs = json_string y @ items_text ys'" by (simp add: items_text_def)
  with Cons y show ?case using json_string_prefix [of x "items_text xs" y "items_text ys'"] by auto
qed

lemma json_array_items: "xs \<noteq> [] \<Longrightarrow> 44 # tl (json_array xs) = items_text xs"
proof (induction xs)
  case (Cons x xs)
  then show ?case by (cases xs) (auto simp: json_array_def items_text_def)
qed simp

lemma json_array_inj:
  "json_array xs = json_array ys \<Longrightarrow> xs \<noteq> [] \<Longrightarrow> ys \<noteq> [] \<Longrightarrow> \<forall>x\<in>set xs \<union> set ys. units_ok x \<Longrightarrow> xs = ys"
  using items_text_inj [of xs ys] json_array_items [of xs] json_array_items [of ys] by auto

fun unit_ok :: "sync_unit \<Rightarrow> bool" where
  "unit_ok (SettingUnit k) = units_ok k"
| "unit_ok (FieldUnit k) = units_ok k"
| "unit_ok _ = True"

definition id_parts :: "sync_unit \<Rightarrow> jsstring \<Rightarrow> jsstring list" where
  "id_parts u p = (case u of
     SettingUnit key \<Rightarrow> [js ''setting'', p, key] | FieldUnit f \<Rightarrow> [js ''field'', p, f]
   | BodyUnit \<Rightarrow> [js ''body'', p] | FileUnit \<Rightarrow> [js ''file'', p])"

lemma id_parts_inj: "id_parts u p = id_parts v q \<Longrightarrow> u = v \<and> p = q"
  by (cases u; cases v) (simp_all add: id_parts_def js_def)

lemma of_char_bound: "(of_char c :: nat) < 65536"
proof -
  have "(of_char c :: nat) < 256" by (rule nat_of_char_less_256)
  then show ?thesis by linarith
qed

lemma idOf_inj: "idOf u p = idOf v q \<Longrightarrow> unit_ok u \<Longrightarrow> unit_ok v \<Longrightarrow> units_ok p \<Longrightarrow> units_ok q \<Longrightarrow> u = v \<and> p = q"
proof (rule id_parts_inj, rule json_array_inj)
  assume "idOf u p = idOf v q" then show "json_array (id_parts u p) = json_array (id_parts v q)" by (simp add: idOf_def id_parts_def)
  have "units_ok (js w)" for w unfolding units_ok_def js_def using of_char_bound by auto
  moreover assume "unit_ok u" "unit_ok v" "units_ok p" "units_ok q"
  ultimately show "\<forall>x\<in>set (id_parts u p) \<union> set (id_parts v q). units_ok x"
    by (cases u; cases v) (auto simp: id_parts_def)
qed (auto simp: id_parts_def split: sync_unit.splits)

section \<open>What a merge holds\<close>

lemma well_formed_units: "well_formed s \<Longrightarrow> units_ok s"
proof (induction s rule: to_scalars.induct)
  case (3 u v us)
  then show ?case by (cases "high_surrogate u") (auto simp: units_ok_def high_surrogate_def low_surrogate_def)
qed (auto simp: units_ok_def)

lemma field_key_units: "row_canonical r \<Longrightarrow> field_of r k = Some v \<Longrightarrow> units_ok k \<and> canonical v \<and> well_formed k"
proof -
  assume r: "row_canonical r" "field_of r k = Some v"
  have "(k, v) \<in> set (row_fields r)" using r(2) by (rule map_of_SomeD)
  with r(1) have "well_formed k" "canonical v" unfolding row_canonical_def canonical.simps canonical_fields_iff by force+
  with well_formed_units show ?thesis by blast
qed

lemma built_canonical:
  assumes "row_canonical base" "row_canonical (Some ours)" "row_canonical (Some theirs)"
  shows "row_canonical (Some (built_row diff base ours theirs))"
proof -
  have "well_formed k \<and> canonical v" if "(k, v) \<in> set (doc_fields (built_row diff base ours theirs))" for k v
  proof -
    have "field_of (Some (built_row diff base ours theirs)) k = Some v" using that built_distinct by (simp add: row_fields_def)
    then have "field_of (Some ours) k = Some v \<or> field_of (Some theirs) k = Some v"
      unfolding built_field by (auto simp: choose_side_def bind_eq_Some_conv split: if_splits)
    then show ?thesis using field_key_units assms(2,3) by blast
  qed
  then show ?thesis using built_distinct by (auto simp: row_canonical_def row_fields_def canonical_fields_iff)
qed

lemma merged_row_canonical:
  assumes "mergeRow yaml diff table v = MergedRow r" shows "row_canonical (Some r)"
proof (cases rule: mergeRow_cases [of yaml diff table v])
  case (rows base ours theirs)
  with assms have "r = built_row diff base ours theirs" by (simp add: merge_rows_built split: if_splits)
  then show ?thesis using built_canonical versions_canonical [OF rows(1)] by blast
qed (use assms in simp)

lemma open_fields_distinct: "distinct (map cfield (open_fields base ours theirs))"
  by (simp add: open_fields_def merge_fields_conflicts comp_def distinct_field_names)

lemma row_conflict_facts:
  assumes "mergeRow yaml diff table v = RowConflict r cs bc"
  shows "(cs \<noteq> [] \<or> bc \<noteq> None) \<and> distinct (map cfield cs) \<and> (\<forall>c\<in>set cs. units_ok (cfield c)) \<and> row_canonical (Some r)
    \<and> (\<forall>c\<in>set cs. canonical_field (fours c) \<and> canonical_field (ftheirs c))"
proof (cases rule: mergeRow_cases [of yaml diff table v])
  case (rows base ours theirs)
  note c = versions_canonical [OF rows(1)]
  from assms rows(2) have e: "r = built_row diff base ours theirs" "cs = open_fields base ours theirs" "cs \<noteq> [] \<or> bc \<noteq> None"
    by (auto simp: merge_rows_built split: if_splits)
  have "units_ok (cfield x) \<and> canonical_field (fours x) \<and> canonical_field (ftheirs x)" if "x \<in> set cs" for x
  proof -
    from that e(2) have x: "competes same_field (field_of base (cfield x)) (field_of (Some ours) (cfield x)) (field_of (Some theirs) (cfield x))"
      "x = \<lparr>cfield = cfield x, fbase = field_of base (cfield x), fours = field_of (Some ours) (cfield x), ftheirs = field_of (Some theirs) (cfield x)\<rparr>"
      using open_fields_iff by blast+
    from x(2) have y: "fours x = field_of (Some ours) (cfield x)" "ftheirs x = field_of (Some theirs) (cfield x)"
      by (metis field_conflict.select_convs(3)) (metis x(2) field_conflict.select_convs(4))
    from x(1) have "field_of (Some ours) (cfield x) \<noteq> None \<or> field_of (Some theirs) (cfield x) \<noteq> None"
      by (cases "field_of (Some ours) (cfield x)") (simp_all add: competes_def same_field_def split: option.splits)
    then show ?thesis unfolding y using field_key_units canonical_field_of c by blast
  qed
  then show ?thesis using e open_fields_distinct built_canonical c by blast
qed (use assms in simp)

lemma kv_conflict_facts:
  assumes "mergeKv parse b l r = Conflict cs"
  shows "distinct (map ckey cs)"
    and "parser_ok parse \<Longrightarrow> \<forall>t\<in>set_option b \<union> set_option l \<union> set_option r. units_ok t \<Longrightarrow> c \<in> set cs \<Longrightarrow> units_ok (ckey c)"
proof -
  let ?b = "read parse b" and ?l = "read parse l" and ?r = "read parse r"
  from assms have "merge_members Map.empty ?b ?l ?r = Conflict cs"
    by (auto simp: mergeKv_def reconcileKv_def Let_def split: if_splits)
  then have cs: "map ckey cs = filter (\<lambda>k. written_at Map.empty (map_of (members_of ?b)) (map_of (members_of ?l)) (map_of (members_of ?r)) k = None) (all_keys ?b ?l ?r)"
    by (auto simp: merge_members_def merge_keys_eq Let_def comp_def conflict_at_def split: if_splits)
  then show "distinct (map ckey cs)" by (simp add: all_keys_distinct)
  assume p: "parser_ok parse" and u: "\<forall>t\<in>set_option b \<union> set_option l \<union> set_option r. units_ok t" and "c \<in> set cs"
  then have "ckey c \<in> set (map ckey cs)" by simp
  then have "ckey c \<in> set (all_keys ?b ?l ?r)" unfolding cs by simp
  moreover have "file_ok ?b" "file_ok ?l" "file_ok ?r" using u by (auto intro: read_file_ok [OF p])
  ultimately show "units_ok (ckey c)" by (auto simp: set_all_keys file_ok_def members_ok_def)
qed

text \<open>What is held at a path, and that its names are strings.\<close>

definition held_ok :: "sync_env \<Rightarrow> jsstring \<Rightarrow> held \<Rightarrow> bool" where
  "held_ok e p x =
     (case x of
        HeldFile q v \<Rightarrow> q = p
      | HeldSettings v cs \<Rightarrow> p = KV_PATH \<and> mergeKv (parser_of (sy_jsonc e)) (vbase v) (vours v) (vtheirs v) = Conflict cs
      | HeldRow table q r cs bc \<Rightarrow> q = p \<and> (\<exists>v. mergeRow (sy_yaml e) (sy_diff e) table v = RowConflict r cs bc))"

definition versions_ok :: "row_versions \<Rightarrow> bool" where
  "versions_ok v \<longleftrightarrow> (\<forall>t\<in>set_option (vbase v) \<union> set_option (vours v) \<union> set_option (vtheirs v). units_ok t)"

definition names_ok :: "sync_env \<Rightarrow> held \<Rightarrow> bool" where
  "names_ok e x \<longleftrightarrow> (\<forall>c\<in>set (held_conflicts e x). unit_ok (conflict_unit c))"

lemma mergePath_cases:
  assumes "mergePath e settled p v hs = (hs', m)"
  obtains (merged) t where "m = MergedPath t" "hs' = hs" "map_of settled p = None \<or> map_of settled p = Some t"
  | (held) x where "m = HeldPath" "hs' = defineOwn hs p x" "held_ok e p x" "map_of settled p = None"
      "parser_ok (parser_of (sy_jsonc e)) \<Longrightarrow> versions_ok v \<Longrightarrow> names_ok e x"
proof (cases "m = HeldPath")
  case True
  note h = assms [unfolded mergePath_def merge_settings_def merge_text_def merge_row_file_def hold_def True]
  from True assms have s: "map_of settled p = None" by (auto simp: mergePath_def split: option.splits)
  have f: "hs' = defineOwn hs p (HeldFile p v) \<Longrightarrow> thesis"
    using held [OF True _ _ s, of "HeldFile p v"] by (simp add: held_ok_def names_ok_def held_conflicts_def file_conflict_def)
  show ?thesis
  proof (cases "p = KV_PATH")
    case True
    show ?thesis
    proof (cases "mergeKv (parser_of (sy_jsonc e)) (vbase v) (vours v) (vtheirs v)")
      case (Conflict cs)
      then have "hs' = defineOwn hs p (HeldSettings v cs)" using h True s by (simp add: mergeKv_def)
      moreover have "held_ok e p (HeldSettings v cs)" using True Conflict by (simp add: held_ok_def)
      moreover have "names_ok e (HeldSettings v cs)" if "parser_ok (parser_of (sy_jsonc e))" "versions_ok v"
        using kv_conflict_facts(2) [OF Conflict that(1)] that(2)
        by (auto simp: names_ok_def held_conflicts_def setting_conflict_def versions_ok_def Let_def)
      ultimately show ?thesis using held \<open>m = HeldPath\<close> s by blast
    qed (use h True s f in \<open>auto simp: mergeKv_def\<close>)
  next
    case False
    show ?thesis
    proof (cases "tableAt (sy_definition e) p")
      case None
      then show ?thesis using h False s f by (auto split: option.splits)
    next
      case (Some table)
      show ?thesis
      proof (cases "mergeRow (sy_yaml e) (sy_diff e) table v")
        case (RowConflict r cs bc)
        then have "hs' = defineOwn hs p (HeldRow table p r cs bc)" using h False s Some by simp
        moreover have "held_ok e p (HeldRow table p r cs bc)" using RowConflict by (auto simp: held_ok_def)
        moreover have "names_ok e (HeldRow table p r cs bc)" using row_conflict_facts [OF RowConflict]
          by (auto simp: names_ok_def held_conflicts_def row_conflicts_def row_field_conflict_def row_body_conflict_def split: option.splits)
        ultimately show ?thesis using held \<open>m = HeldPath\<close> s by blast
      qed (use h False s f Some in \<open>auto split: sum.splits\<close>)
    qed
  qed
next
  case False
  then obtain t where t: "m = MergedPath t" by (cases m) auto
  with assms have "hs' = hs" "map_of settled p = None \<or> map_of settled p = Some t"
    by (auto simp: mergePath_def merge_settings_def merge_text_def merge_row_file_def hold_def
        split: option.splits if_splits kv_merge.splits row_merge.splits sum.splits)
  with t show ?thesis by (rule merged)
qed

text \<open>A merge over several paths: what it holds is held by its own path, once.\<close>

definition holds_ok :: "sync_env \<Rightarrow> (jsstring \<times> held) list \<Rightarrow> bool" where
  "holds_ok e hs \<longleftrightarrow> distinct (map fst hs) \<and> (\<forall>p x. map_of hs p = Some x \<longrightarrow> held_ok e p x)"

lemma holds_ok_Nil [simp]: "holds_ok e []"
  by (simp add: holds_ok_def)

lemma holds_ok_define: "holds_ok e hs \<Longrightarrow> held_ok e p x \<Longrightarrow> holds_ok e (defineOwn hs p x)"
  by (simp add: holds_ok_def defineOwn_def distinct_update update_conv')

lemma dom_defineOwn: "fst ` set (defineOwn hs p x) = insert p (fst ` set hs)"
  using arg_cong [of _ _ dom, OF update_conv' [of p x hs]] by (simp add: dom_map_of_conv_image_fst defineOwn_def)

lemma merge_paths_facts:
  "merge_paths e settled ps hs = (hs', ms) \<Longrightarrow> holds_ok e hs \<Longrightarrow>
    holds_ok e hs' \<and> map fst ms = map fst ps \<and> fst ` set hs' = fst ` set hs \<union> {p. (p, HeldPath) \<in> set ms}"
proof (induction ps arbitrary: hs ms)
  case (Cons pv ps)
  obtain p v where pv: "pv = (p, v)" by fastforce
  obtain h1 m where m: "mergePath e settled p v hs = (h1, m)" by fastforce
  obtain ms' where r: "merge_paths e settled ps h1 = (hs', ms')" "ms = (p, m) # ms'"
    using Cons.prems(1) by (auto simp: pv m split: prod.splits)
  from m show ?case
  proof (cases rule: mergePath_cases)
    case (merged t)
    then show ?thesis using Cons.IH [of h1 ms'] r Cons.prems(2) by (auto simp: pv)
  next
    case (held x)
    then have "holds_ok e h1" using holds_ok_define Cons.prems(2) by simp
    then show ?thesis using Cons.IH [of h1 ms'] r held dom_defineOwn [of hs p x] by (auto simp: pv)
  qed
qed simp

lemma merge_paths_names:
  "merge_paths e settled ps hs = (hs', ms) \<Longrightarrow> parser_ok (parser_of (sy_jsonc e)) \<Longrightarrow>
    \<forall>(p, v)\<in>set ps. units_ok p \<and> versions_ok v \<Longrightarrow> \<forall>p x. map_of hs p = Some x \<longrightarrow> units_ok p \<and> names_ok e x \<Longrightarrow>
    \<forall>p x. map_of hs' p = Some x \<longrightarrow> units_ok p \<and> names_ok e x"
proof (induction ps arbitrary: hs ms)
  case (Cons pv ps)
  obtain p v where pv: "pv = (p, v)" by fastforce
  obtain h1 m where m: "mergePath e settled p v hs = (h1, m)" by fastforce
  obtain ms' where r: "merge_paths e settled ps h1 = (hs', ms')" "ms = (p, m) # ms'"
    using Cons.prems(1) by (auto simp: pv m split: prod.splits)
  have v: "units_ok p" "versions_ok v" and rest: "\<forall>(p, v)\<in>set ps. units_ok p \<and> versions_ok v"
    using Cons.prems(3) by (simp_all add: pv)
  from m have "\<forall>p x. map_of h1 p = Some x \<longrightarrow> units_ok p \<and> names_ok e x"
  proof (cases rule: mergePath_cases)
    case (held x)
    then have "map_of h1 = (map_of hs)(p \<mapsto> x)" "names_ok e x" using Cons.prems(2) v by (simp_all add: defineOwn_def update_conv')
    then show ?thesis using Cons.prems(4) v(1) by (metis fun_upd_apply option.inject)
  qed (use Cons.prems(4) in simp)
  then show ?case by (rule Cons.IH [OF r(1) Cons.prems(2) rest])
qed simp

section \<open>Settling\<close>

lemma settle_keys_total:
  "\<forall>c\<in>set cs. picks (idOf (SettingUnit (ckey c)) KV_PATH) \<noteq> None \<Longrightarrow>
    \<exists>res' qs. settle_keys e h picks cs res problems = Some (res', problems @ qs) \<and> (qs = [] \<longrightarrow> dom res' = dom res \<union> ckey ` set cs)"
proof (induction cs arbitrary: res problems)
  case (Cons c cs)
  then obtain pick where pick: "picks (idOf (SettingUnit (ckey c)) KV_PATH) = Some pick" by auto
  have step: "\<exists>res' qs. settle_keys e h picks cs res1 (problems @ extra) = Some (res', problems @ qs)
      \<and> (qs = [] \<longrightarrow> dom res' = dom res \<union> ckey ` set (c # cs))"
    if "extra = [] \<Longrightarrow> dom res1 = insert (ckey c) (dom res)" for res1 extra
  proof -
    obtain res' qs where i: "settle_keys e h picks cs res1 (problems @ extra) = Some (res', (problems @ extra) @ qs)"
      "qs = [] \<longrightarrow> dom res' = dom res1 \<union> ckey ` set cs" using Cons.IH [of res1 "problems @ extra"] Cons.prems by auto
    then show ?thesis using that by (intro exI [of _ res'] exI [of _ "extra @ qs"]) auto
  qed
  show ?case
  proof (cases pick)
    case (Take sd)
    then show ?thesis using step [of "[]"] pick by simp
  next
    case (ReplaceWith w)
    then show ?thesis using step [of "[]"] step [of "[_]"] pick
      by (cases "settingText (kv_schemas_of e) h (ckey c) w") (auto simp: Let_def split: option.split)
  next
    case RemoveUnit
    then show ?thesis using step [of "[]"] pick by simp
  qed
qed simp

lemma settle_fields_total:
  "\<forall>c\<in>set cs. picks (idOf (FieldUnit (cfield c)) p) \<noteq> None \<Longrightarrow> \<exists>h' ms'. settle_fields picks p cs h ms = Some (h', ms')"
  by (induction cs arbitrary: h ms) (auto split: prod.split)

lemma writeRow_issues: "writeRow U yaml table h r = Inl issues \<Longrightarrow> issues \<noteq> []"
  by (auto simp: writeRow_def split: sum.splits prod.splits list.splits)

lemma held_settles:
  assumes "held_ok e p x" and "\<forall>c\<in>set (held_conflicts e x). picks (conflict_id c) \<noteq> None"
  shows "settle_held e h x picks \<noteq> HeldThrew \<and> settle_held e h x picks \<noteq> HeldProblems []"
proof (cases x)
  case (HeldFile q v)
  with assms(2) obtain pick where "picks (idOf FileUnit q) = Some pick" by (auto simp: held_conflicts_def file_conflict_def)
  then show ?thesis unfolding settle_held_def HeldFile held.case settle_file_def
    by (simp split: sync_choice.split jsval.split)
next
  case (HeldSettings v cs)
  let ?parse = "parser_of (sy_jsonc e)"
  from assms HeldSettings have c: "mergeKv ?parse (vbase v) (vours v) (vtheirs v) = Conflict cs"
    "\<forall>c\<in>set cs. picks (idOf (SettingUnit (ckey c)) KV_PATH) \<noteq> None"
    by (auto simp: held_ok_def held_conflicts_def setting_conflict_def Let_def)
  obtain res qs where k: "settle_keys e h picks cs Map.empty [] = Some (res, qs)" "qs = [] \<longrightarrow> dom res = ckey ` set cs"
    using settle_keys_total [OF c(2), of e h Map.empty "[]"] by auto
  have "\<exists>t. reconcileKv ?parse res (vbase v) (vours v) (vtheirs v) = Merged t" if "qs = []"
  proof -
    have "filter (\<lambda>c. ckey c \<notin> dom res) cs = []" using k(2) that by (simp add: filter_empty_conv)
    then show ?thesis using reconcile_resolved [where parse = ?parse and base = "vbase v" and ours = "vours v" and theirs = "vtheirs v" and res = res] unfolding c(1)
      by (auto simp: Let_def)
  qed
  then show ?thesis using k(1) by (auto simp: settle_held_def HeldSettings settle_settings_def)
next
  case (HeldRow table q r cs bc)
  from assms(1) obtain w where "mergeRow (sy_yaml e) (sy_diff e) table w = RowConflict r cs bc" by (auto simp: held_ok_def HeldRow)
  from row_conflict_facts [OF this] have n: "row_conflicts q cs bc \<noteq> []" by (auto simp: row_conflicts_def split: option.splits)
  from assms(2) have f: "\<forall>c\<in>set cs. picks (idOf (FieldUnit (cfield c)) q) \<noteq> None"
    and b: "bc \<noteq> None \<longrightarrow> picks (idOf BodyUnit q) \<noteq> None"
    by (cases bc; force simp: held_conflicts_def HeldRow row_conflicts_def row_field_conflict_def row_body_conflict_def)+
  obtain h1 ms where p: "place_fields (doc_fields r) h = (h1, ms)" by fastforce
  obtain h2 ms2 where s: "settle_fields picks q cs h1 ms = Some (h2, ms2)" using settle_fields_total [OF f] by blast
  obtain t qs where t: "settle_body picks q r bc = Some (t, qs)" using b
    by (fastforce simp: settle_body_def split: option.splits sync_choice.splits jsval.splits)
  let ?i = "fresh h2"
  show ?thesis
  proof (cases "writeRow (sy_unicode e) (sy_yaml e) table ((?i, RecordObj True 0 ms2) # h2) (Some (JRef ?i, JText t))")
    case (Inl issues)
    then show ?thesis using writeRow_issues [OF Inl] n
      by (cases "row_conflicts q cs bc") (simp_all add: settle_held_def HeldRow settle_row_def p s t Let_def)
  next
    case (Inr tw)
    then show ?thesis by (cases tw) (simp add: settle_held_def HeldRow settle_row_def p s t Let_def)
  qed
qed

lemma read_choices_answers:
  "read_choices h submitted cs picks problems = (picks', problems') \<Longrightarrow>
    dom picks \<subseteq> dom picks' \<and> (\<exists>qs. problems' = problems @ qs \<and> (qs = [] \<longrightarrow> (\<forall>c\<in>set cs. conflict_id c \<in> dom picks')))"
proof (induction cs arbitrary: picks problems)
  case (Cons c cs)
  let ?choice = "case map_of submitted (conflict_id c) of None \<Rightarrow> JUndefined | Some v \<Rightarrow> v"
  have bad: ?case if "read_choices h submitted cs picks (problems @ [q]) = (picks', problems')" for q
    using Cons.IH [OF that] by auto
  show ?case
  proof (cases "?choice = JUndefined")
    case True
    with Cons.prems bad show ?thesis by (simp add: Let_def)
  next
    case False
    show ?thesis
    proof (cases "pickOf h c ?choice")
      case (Inl a)
      with False Cons.prems bad show ?thesis by (simp add: Let_def)
    next
      case (Inr pick)
      with False Cons.prems have "read_choices h submitted cs (picks(conflict_id c \<mapsto> pick)) problems = (picks', problems')"
        by (simp add: Let_def)
      from Cons.IH [OF this] obtain qs where "insert (conflict_id c) (dom picks) \<subseteq> dom picks'" "problems' = problems @ qs"
        "qs = [] \<longrightarrow> (\<forall>c\<in>set cs. conflict_id c \<in> dom picks')" unfolding dom_fun_upd by auto
      then show ?thesis by (intro conjI exI [of _ qs]) simp_all
    qed
  qed
qed simp

lemma settle_paths_total:
  "\<forall>(p, x)\<in>set hs. settle_held e h x picks \<noteq> HeldThrew \<and> settle_held e h x picks \<noteq> HeldProblems [] \<Longrightarrow>
    \<exists>texts ps. settle_paths e h picks hs = Some (texts, ps)
      \<and> (ps = [] \<longrightarrow> list_all2 (\<lambda>(p, t) (q, x). p = q \<and> settle_held e h x picks = HeldText t) texts hs)"
proof (induction hs)
  case (Cons px hs)
  obtain p x where px: "px = (p, x)" by fastforce
  from Cons px obtain texts ps where i: "settle_paths e h picks hs = Some (texts, ps)"
    "ps = [] \<longrightarrow> list_all2 (\<lambda>(p, t) (q, x). p = q \<and> settle_held e h x picks = HeldText t) texts hs" by auto
  then show ?case using Cons.prems px by (cases "settle_held e h x picks") auto
qed simp

lemma attempt_conflict_set:
  "set (attempt_conflicts (attempt (make_attempt e uuid c hs))) = (\<Union>(p, x)\<in>set hs. set (held_conflicts e x))"
  by (auto simp: make_attempt_def)

lemma settle_cases:
  assumes "holds_ok e hs"
  obtains (refused) qs where "settle_attempt e (make_attempt e uuid c hs) h choices = InvalidChoices qs" "qs \<noteq> []"
  | (settled) submitted picks texts where "settle_attempt e (make_attempt e uuid c hs) h choices = SettledTexts texts"
      "object_members h choices = Some submitted"
      "read_choices h submitted (attempt_conflicts (attempt (make_attempt e uuid c hs))) Map.empty [] = (picks, [])"
      "fst ` set submitted \<subseteq> conflict_id ` set (attempt_conflicts (attempt (make_attempt e uuid c hs)))"
      "list_all2 (\<lambda>(p, t) (q, x). p = q \<and> settle_held e h x picks = HeldText t) texts hs"
proof -
  let ?cs = "attempt_conflicts (attempt (make_attempt e uuid c hs))"
  have a: "attempt_paths (make_attempt e uuid c hs) = hs" by (simp add: make_attempt_def)
  show ?thesis
  proof (cases "object_members h choices")
    case None
    then show ?thesis using refused [of "[problem Malformed None]"] by (simp add: settle_attempt_def settle_def)
  next
    case (Some submitted)
    obtain picks problems where r: "read_choices h submitted ?cs Map.empty [] = (picks, problems)" by fastforce
    define unknown where "unknown = map (\<lambda>k. problem UnknownConflict (Some k)) (filter (\<lambda>k. k \<notin> conflict_id ` set ?cs) (map fst submitted))"
    show ?thesis
    proof (cases "problems @ unknown = []")
      case False
      then show ?thesis using refused [of "problems @ unknown"] Some r
        by (simp add: settle_attempt_def settle_def unknown_def)
    next
      case True
      then have n: "problems = []" "fst ` set submitted \<subseteq> conflict_id ` set ?cs" by (auto simp: unknown_def filter_empty_conv)
      have picked: "conflict_id x \<in> dom picks" if "x \<in> set ?cs" for x using read_choices_answers [OF r] n(1) that by auto
      have "settle_held e h x picks \<noteq> HeldThrew \<and> settle_held e h x picks \<noteq> HeldProblems []" if "(p, x) \<in> set hs" for p x
      proof (rule held_settles)
        show "held_ok e p x" using assms that by (simp add: holds_ok_def)
        show "\<forall>c\<in>set (held_conflicts e x). picks (conflict_id c) \<noteq> None"
          using picked that unfolding attempt_conflict_set by blast
      qed
      then obtain texts ps where t: "settle_paths e h picks hs = Some (texts, ps)"
        "ps = [] \<longrightarrow> list_all2 (\<lambda>(p, t) (q, x). p = q \<and> settle_held e h x picks = HeldText t) texts hs"
        using settle_paths_total [of hs e h picks] by auto
      have o': "settle_attempt e (make_attempt e uuid c hs) h choices = (if ps \<noteq> [] then InvalidChoices ps else SettledTexts texts)"
        using Some r True t(1) unfolding settle_attempt_def settle_def a unknown_def by (simp add: Let_def)
      show ?thesis
      proof (cases "ps = []")
        case True
        then show ?thesis using settled [of texts submitted picks] o' Some r n t(2) by simp
      next
        case False
        then show ?thesis using refused o' by simp
      qed
    qed
  qed
qed

section \<open>Distinct identifiers\<close>

lemma held_conflict_facts:
  assumes "held_ok e p x"
  shows "\<forall>c\<in>set (held_conflicts e x). conflict_path c = p \<and> conflict_id c = idOf (conflict_unit c) p"
    and "distinct (map conflict_unit (held_conflicts e x))"
proof -
  show "\<forall>c\<in>set (held_conflicts e x). conflict_path c = p \<and> conflict_id c = idOf (conflict_unit c) p"
    using assms by (cases x) (auto simp: held_ok_def held_conflicts_def file_conflict_def setting_conflict_def row_conflicts_def
        row_field_conflict_def row_body_conflict_def Let_def split: option.splits)
  show "distinct (map conflict_unit (held_conflicts e x))"
  proof (cases x)
    case (HeldSettings v cs)
    then have "distinct (map ckey cs)" using assms kv_conflict_facts(1) by (auto simp: held_ok_def)
    then show ?thesis unfolding HeldSettings
      by (simp add: held_conflicts_def comp_def setting_conflict_def Let_def distinct_map inj_on_def)
  next
    case (HeldRow table q r cs bc)
    then have "distinct (map cfield cs)" using assms row_conflict_facts by (auto simp: held_ok_def)
    then show ?thesis unfolding HeldRow
      by (auto simp: held_conflicts_def row_conflicts_def comp_def row_field_conflict_def row_body_conflict_def distinct_map inj_on_def split: option.splits)
  qed (simp add: held_conflicts_def)
qed

lemma distinct_ids:
  assumes "distinct (map fst hs)" "\<forall>(p, x)\<in>set hs. held_ok e p x \<and> units_ok p \<and> names_ok e x"
  shows "distinct (map conflict_id (concat (map (\<lambda>x. held_conflicts e (snd x)) hs)))"
  using assms
proof (induction hs)
  case (Cons px hs)
  obtain p x where px: "px = (p, x)" by fastforce
  from Cons.prems(2) px have x: "held_ok e p x" "units_ok p" "names_ok e x" by auto
  note f = held_conflict_facts [OF x(1)]
  have "inj_on (\<lambda>u. idOf u p) (conflict_unit ` set (held_conflicts e x))"
    using x(2,3) idOf_inj by (fastforce simp: inj_on_def names_ok_def)
  with f(2) have "distinct (map (\<lambda>u. idOf u p) (map conflict_unit (held_conflicts e x)))" unfolding distinct_map [of "\<lambda>u. idOf u p"] by simp
  moreover have "map (\<lambda>u. idOf u p) (map conflict_unit (held_conflicts e x)) = map conflict_id (held_conflicts e x)"
    unfolding map_map using f(1) by (intro map_cong) simp_all
  ultimately have own: "distinct (map conflict_id (held_conflicts e x))" by (simp only:)
  have "conflict_id c \<noteq> conflict_id d" if "c \<in> set (held_conflicts e x)" "(q, y) \<in> set hs" "d \<in> set (held_conflicts e y)" for c d q y
  proof
    assume eq: "conflict_id c = conflict_id d"
    from Cons.prems(2) that(2) have y: "held_ok e q y" "units_ok q" "names_ok e y" by auto
    have "idOf (conflict_unit c) p = idOf (conflict_unit d) q" using eq f(1) held_conflict_facts(1) [OF y(1)] that by auto
    then have "p = q" using idOf_inj x(2,3) y(2,3) that(1,3) unfolding names_ok_def by blast
    with Cons.prems(1) px that(2) show False by force
  qed
  then have "conflict_id ` set (held_conflicts e x) \<inter> conflict_id ` (\<Union>y\<in>set hs. set (held_conflicts e (snd y))) = {}" by fastforce
  with own Cons px show ?case by (simp add: image_UN)
qed simp

section \<open>A row as its choices make it\<close>

lemma placed_present:
  assumes "list_all2 (\<lambda>n m. fst n = fst m \<and> reads h (snd n) (snd m) \<and> snd n \<noteq> JUndefined) ns ms"
  shows "rel_option (\<lambda>j v. reads h j v \<and> j \<noteq> JUndefined) (map_of ns k) (map_of ms k)"
  using assms by (induction rule: list_all2_induct) auto

lemma present_some: "map_of ms k = Some j \<Longrightarrow> j \<noteq> JUndefined \<Longrightarrow> present ms k = Some j"
  by (cases j) (simp_all add: present_def)

lemma map_of_without: "map_of (filter (\<lambda>m. fst m \<noteq> k) ms) = (map_of ms)(k := None)"
  by (induction ms) auto

text \<open>What a choice leaves of a field, in the object of the row.\<close>

definition chosen_at :: "heap \<Rightarrow> sync_choice \<Rightarrow> field_conflict \<Rightarrow> jsval option \<Rightarrow> bool" where
  "chosen_at h pick c f =
     (case pick of
        RemoveUnit \<Rightarrow> f = None
      | Take sd \<Rightarrow> rel_option (\<lambda>j v. reads h j v \<and> j \<noteq> JUndefined) f (if sd = LocalSide then fours c else ftheirs c)
      | ReplaceWith v \<Rightarrow> f = (if v = JUndefined then None else Some v))"

lemma chosen_at_extends: "chosen_at h pick c f \<Longrightarrow> extends h h' \<Longrightarrow> chosen_at h' pick c f"
  by (cases pick) (auto simp: chosen_at_def elim!: option.rel_mono_strong dest: reads_extends)

lemma chosen_value_at:
  assumes "chosen_value pick c h = (h', v)" "heap_ok h" "canonical_field (fours c)" "canonical_field (ftheirs c)"
  shows "extends h h' \<and> heap_ok h' \<and> chosen_at h' pick c (if v = JUndefined then None else Some v)"
proof (cases pick)
  case (Take sd)
  define f where "f = (if sd = LocalSide then fours c else ftheirs c)"
  have f: "canonical_field f" "place_field f h = (h', v)" using assms Take by (simp_all add: f_def chosen_value_def)
  show ?thesis
  proof (cases f)
    case None
    with f assms(2) show ?thesis by (simp add: place_field_def Take chosen_at_def flip: f_def)
  next
    case (Some w)
    with f place_reads(1) [of w h h' v] assms(2) show ?thesis
      by (simp add: place_field_def Take chosen_at_def canonical_field_def flip: f_def)
  qed
qed (use assms(1,2) in \<open>simp_all add: chosen_value_def chosen_at_def\<close>)

lemma settle_fields_chosen:
  "settle_fields picks p cs h ms = Some (h', ms') \<Longrightarrow> heap_ok h \<Longrightarrow> distinct (map fst ms) \<Longrightarrow> distinct (map cfield cs) \<Longrightarrow>
    \<forall>c\<in>set cs. canonical_field (fours c) \<and> canonical_field (ftheirs c) \<Longrightarrow>
    extends h h' \<and> heap_ok h' \<and> distinct (map fst ms') \<and> (\<forall>k. k \<notin> cfield ` set cs \<longrightarrow> map_of ms' k = map_of ms k)
    \<and> (\<forall>c\<in>set cs. \<exists>pick. picks (idOf (FieldUnit (cfield c)) p) = Some pick \<and> chosen_at h' pick c (map_of ms' (cfield c)))"
proof (induction cs arbitrary: h ms)
  case (Cons c cs)
  obtain pick where pick: "picks (idOf (FieldUnit (cfield c)) p) = Some pick" using Cons.prems(1) by (auto split: option.splits)
  obtain h1 v where v: "chosen_value pick c h = (h1, v)" by fastforce
  define ms1 where "ms1 = (if v = JUndefined then filter (\<lambda>m. fst m \<noteq> cfield c) ms else defineOwn ms (cfield c) v)"
  have s: "settle_fields picks p cs h1 ms1 = Some (h', ms')" using Cons.prems(1) by (simp add: pick v ms1_def)
  from chosen_value_at [OF v Cons.prems(2)] Cons.prems(5)
  have h1: "extends h h1" "heap_ok h1" "chosen_at h1 pick c (if v = JUndefined then None else Some v)" by simp_all
  have m1: "map_of ms1 = (map_of ms)(cfield c := (if v = JUndefined then None else Some v))" "distinct (map fst ms1)"
    using Cons.prems(3) unfolding ms1_def defineOwn_def
    by (auto simp: update_conv' distinct_update map_of_without distinct_map_filter split: if_splits)
  from Cons.IH [OF s h1(2) m1(2)] Cons.prems(4,5)
  have ih: "extends h1 h'" "heap_ok h'" "distinct (map fst ms')" "\<forall>k. k \<notin> cfield ` set cs \<longrightarrow> map_of ms' k = map_of ms1 k"
    "\<forall>c\<in>set cs. \<exists>pick. picks (idOf (FieldUnit (cfield c)) p) = Some pick \<and> chosen_at h' pick c (map_of ms' (cfield c))" by auto
  have "cfield c \<notin> cfield ` set cs" using Cons.prems(4) by simp
  then have "map_of ms' (cfield c) = (if v = JUndefined then None else Some v)" using ih(4) m1(1) by simp
  then have "chosen_at h' pick c (map_of ms' (cfield c))" using chosen_at_extends [OF h1(3) ih(1)] by simp
  then show ?case using ih pick h1(1) extends_trans m1(1) by auto
qed simp

text \<open>What a choice asks of a field of the row that is written.\<close>

definition field_as_chosen :: "heap \<Rightarrow> sync_choice \<Rightarrow> field_conflict \<Rightarrow> cval option \<Rightarrow> bool" where
  "field_as_chosen h pick c f =
     (case pick of
        RemoveUnit \<Rightarrow> f = None
      | Take sd \<Rightarrow> same_field (if sd = LocalSide then fours c else ftheirs c) f
      | ReplaceWith v \<Rightarrow> (\<forall>d. reads h v d \<and> canonical d \<longrightarrow> same_field (Some d) f))"

definition body_as_chosen :: "picks \<Rightarrow> jsstring \<Rightarrow> row \<Rightarrow> body_conflict option \<Rightarrow> jsstring \<Rightarrow> bool" where
  "body_as_chosen picks p merged bc t =
     (case bc of
        None \<Rightarrow> t = doc_body merged
      | Some b \<Rightarrow> (case picks (idOf BodyUnit p) of
          Some (Take sd) \<Rightarrow> t = (if sd = LocalSide then bours b else btheirs b)
        | Some (ReplaceWith v) \<Rightarrow> v = JText t
        | _ \<Rightarrow> False))"

lemma present_same:
  assumes "rel_option (\<lambda>j v. reads h j v \<and> j \<noteq> JUndefined) (map_of ms k) f" "rel_option (reads h) (present ms k) g"
    and "canonical_field f" "canonical_field g"
  shows "same_field f g"
proof (cases f)
  case None
  with assms(1,2) show ?thesis by (simp add: present_def same_field_def)
next
  case (Some v)
  with assms(1) obtain j where j: "map_of ms k = Some j" "reads h j v" "j \<noteq> JUndefined" by (auto simp: option_rel_Some2)
  with assms(2) present_some obtain w where "g = Some w" "reads h j w" by (fastforce simp: option_rel_Some1)
  with reads_same [OF j(2)] assms(3,4) Some show ?thesis by (simp add: same_field_def canonical_field_def)
qed

lemma settled_row:
  assumes "settle_row e h table p r cs bc picks = HeldText t" "heap_ok h" "mergeRow (sy_yaml e) (sy_diff e) table v = RowConflict r cs bc"
  shows "\<exists>s w. t = Some s \<and> parseRow (sy_yaml e) table s = Inr w \<and> body_as_chosen picks p r bc (doc_body w)
    \<and> (\<forall>k. k \<notin> cfield ` set cs \<longrightarrow> same_field (field_of (Some r) k) (field_of (Some w) k))
    \<and> (\<forall>c\<in>set cs. \<exists>pick. picks (idOf (FieldUnit (cfield c)) p) = Some pick \<and> field_as_chosen h pick c (field_of (Some w) (cfield c)))"
proof -
  from row_conflict_facts [OF assms(3)] have f: "distinct (map cfield cs)" "row_canonical (Some r)"
    "\<forall>c\<in>set cs. canonical_field (fours c) \<and> canonical_field (ftheirs c)" by auto
  obtain h1 ms where pl: "place_fields (doc_fields r) h = (h1, ms)" by fastforce
  obtain h2 ms2 where s: "settle_fields picks p cs h1 ms = Some (h2, ms2)"
    using assms(1) by (fastforce simp: settle_row_def pl split: option.splits)
  obtain b where b: "settle_body picks p r bc = Some (b, [])"
    using assms(1) by (fastforce simp: settle_row_def pl s split: option.splits if_splits)
  let ?i = "fresh h2" and ?H = "(fresh h2, RecordObj True 0 ms2) # h2"
  obtain x w where w: "writeRow (sy_unicode e) (sy_yaml e) table ?H (Some (JRef ?i, JText b)) = Inr (x, w)" "t = Some x"
    using assms(1) by (auto simp: settle_row_def pl s b Let_def split: sum.splits list.splits)
  have "canonical_fields (doc_fields r)" "distinct (map fst (doc_fields r))" using f(2) by (simp_all add: row_canonical_def row_fields_def)
  from place_reads(3) [OF pl this(1) assms(2)] have p1: "extends h h1" "heap_ok h1"
    "list_all2 (\<lambda>n m. fst n = fst m \<and> reads h1 (snd n) (snd m) \<and> snd n \<noteq> JUndefined) ms (doc_fields r)" by auto
  have "map fst ms = map fst (doc_fields r)" using p1(3) by (induction rule: list_all2_induct) auto
  with \<open>distinct (map fst (doc_fields r))\<close> have d: "distinct (map fst ms)" by simp
  from settle_fields_chosen [OF s p1(2) d f(1,3)] have s2: "extends h1 h2" "heap_ok h2" "distinct (map fst ms2)"
    "\<forall>k. k \<notin> cfield ` set cs \<longrightarrow> map_of ms2 k = map_of ms k"
    "\<forall>c\<in>set cs. \<exists>pick. picks (idOf (FieldUnit (cfield c)) p) = Some pick \<and> chosen_at h2 pick c (map_of ms2 (cfield c))" by auto
  have H: "extends h1 ?H" "extends h2 ?H" "extends h ?H" using extends_fresh s2(1) p1(1) extends_trans by blast+
  from written_from_reads [OF w(1) heap_ok_new [OF s2(2,3)]]
  have wr: "parseRow (sy_yaml e) table x = Inr w" "doc_body w = b" "reads ?H (JRef ?i) (CRecord (doc_fields w))" "canonical (CRecord (doc_fields w))"
    by auto
  from wr(3) have rd: "rel_option (reads ?H) (present ms2 k) (field_of (Some w) k)" for k
    by (cases rule: reads.cases) (simp add: row_fields_def)
  have cw: "canonical_field (field_of (Some w) k)" for k
    using canonical_field_of [of "Some w"] wr(4) by (simp add: row_canonical_def row_fields_def)
  have same: "same_field (field_of (Some r) k) (field_of (Some w) k)" if "k \<notin> cfield ` set cs" for k
  proof (rule present_same [OF _ rd])
    have "rel_option (\<lambda>j v. reads h1 j v \<and> j \<noteq> JUndefined) (map_of ms k) (field_of (Some r) k)"
      using placed_present [OF p1(3)] by (simp add: row_fields_def)
    then show "rel_option (\<lambda>j v. reads ?H j v \<and> j \<noteq> JUndefined) (map_of ms2 k) (field_of (Some r) k)"
      using s2(4) that reads_extends [OF _ H(1)] by (auto elim!: option.rel_mono_strong)
  qed (use cw canonical_field_of [OF f(2)] in simp_all)
  have chosen: "field_as_chosen h pick c (field_of (Some w) (cfield c))" if "c \<in> set cs" "chosen_at h2 pick c (map_of ms2 (cfield c))" for c pick
  proof (cases pick)
    case (Take sd)
    then show ?thesis using present_same [OF _ rd, of "cfield c"] chosen_at_extends [OF that(2) H(2)] cw f(3) that(1)
      by (simp add: chosen_at_def field_as_chosen_def)
  next
    case (ReplaceWith u)
    have "same_field (Some d) (field_of (Some w) (cfield c))" if u: "reads h u d" "canonical d" for d
    proof (rule present_same [OF _ rd])
      have "u \<noteq> JUndefined" using u(1) by (auto elim: reads.cases)
      then show "rel_option (\<lambda>j v. reads ?H j v \<and> j \<noteq> JUndefined) (map_of ms2 (cfield c)) (Some d)"
        using \<open>chosen_at h2 pick c _\<close> reads_extends [OF u(1) H(3)] by (simp add: chosen_at_def ReplaceWith)
    qed (use cw u(2) in \<open>simp_all add: canonical_field_def\<close>)
    then show ?thesis by (simp add: field_as_chosen_def ReplaceWith)
  next
    case RemoveUnit
    then show ?thesis using that(2) rd [of "cfield c"] by (simp add: chosen_at_def field_as_chosen_def present_def)
  qed
  have body: "body_as_chosen picks p r bc (doc_body w)" using b unfolding wr(2)
    by (auto simp: settle_body_def body_as_chosen_def split: option.splits sync_choice.splits jsval.splits)
  have "\<forall>c\<in>set cs. \<exists>pick. picks (idOf (FieldUnit (cfield c)) p) = Some pick \<and> field_as_chosen h pick c (field_of (Some w) (cfield c))"
    using s2(5) chosen by blast
  with w(2) wr(1) body same show ?thesis by (intro exI [of _ x] exI [of _ w] conjI allI impI) assumption+
qed

section \<open>Merging again\<close>

text \<open>What a path comes to depends on nothing that is already held.\<close>

lemma hold_outcome [simp]: "snd (hold p x hs) = HeldPath"
  by (simp add: hold_def)

lemma mergePath_outcome: "snd (mergePath e settled p v hs) = snd (mergePath e settled p v hs')"
proof -
  have "snd (merge_settings e p v hs) = snd (merge_settings e p v hs')"
    unfolding merge_settings_def by (simp split: kv_merge.split)
  moreover have "snd (merge_text e p v hs) = snd (merge_text e p v hs')" unfolding merge_text_def by (simp split: option.split)
  moreover have "snd (merge_row_file e t p v hs) = snd (merge_row_file e t p v hs')" for t
    unfolding merge_row_file_def by (simp split: row_merge.split sum.split prod.split)
  ultimately show ?thesis unfolding mergePath_def by (cases "p = KV_PATH") (simp_all split: option.split)
qed

lemma mergePath_settled:
  "mergePath e texts p v hs = (case map_of texts p of Some t \<Rightarrow> (hs, MergedPath t) | None \<Rightarrow> mergePath e [] p v hs)"
  by (simp add: mergePath_def split: option.split)

lemma merge_again:
  assumes "merge_paths e [] ps hs0 = (hs, ms)" "distinct (map fst ps)"
    and "\<forall>(p, v)\<in>set ps. (p, HeldPath) \<in> set ms \<longleftrightarrow> map_of texts p \<noteq> None"
  shows "merge_paths e texts ps [] = ([], map (\<lambda>(p, m). (p, case map_of texts p of Some t \<Rightarrow> MergedPath t | None \<Rightarrow> m)) ms)"
  using assms
proof (induction ps arbitrary: hs0 ms)
  case (Cons pv ps)
  obtain p v where pv: "pv = (p, v)" by fastforce
  obtain h1 m where m: "mergePath e [] p v hs0 = (h1, m)" by fastforce
  obtain ms' where r: "merge_paths e [] ps h1 = (hs, ms')" "ms = (p, m) # ms'"
    using Cons.prems(1) by (auto simp: pv m split: prod.splits)
  have names: "map fst ms' = map fst ps" using r(1)
  proof (induction ps arbitrary: h1 ms')
    case (Cons qw qs)
    then show ?case by (cases qw) (auto split: prod.splits)
  qed simp
  have fresh_p: "p \<notin> fst ` set ps" using Cons.prems(2) pv by simp
  then have "p \<notin> fst ` set ms'" using arg_cong [OF names, of set] by simp
  then have p_held: "(p, HeldPath) \<in> set ms \<longleftrightarrow> m = HeldPath" unfolding r(2) by force
  have "\<forall>(q, w)\<in>set ps. (q, HeldPath) \<in> set ms' \<longleftrightarrow> map_of texts q \<noteq> None"
  proof clarify
    fix q w assume q: "(q, w) \<in> set ps"
    then have "q \<noteq> p" using fresh_p by force
    then have "(q, HeldPath) \<in> set ms' \<longleftrightarrow> (q, HeldPath) \<in> set ms" by (simp add: r(2))
    with q Cons.prems(3) show "(q, HeldPath) \<in> set ms' \<longleftrightarrow> map_of texts q \<noteq> None" by (auto simp: pv)
  qed
  then have ih: "merge_paths e texts ps [] = ([], map (\<lambda>(p, m). (p, case map_of texts p of Some t \<Rightarrow> MergedPath t | None \<Rightarrow> m)) ms')"
    using Cons.IH [OF r(1)] Cons.prems(2) by simp
  have "mergePath e texts p v [] = ([], case map_of texts p of Some t \<Rightarrow> MergedPath t | None \<Rightarrow> m)"
  proof (cases "map_of texts p")
    case None
    then have merged: "m \<noteq> HeldPath" using Cons.prems(3) p_held by (simp add: pv)
    obtain h2 m2 where n: "mergePath e [] p v [] = (h2, m2)" by fastforce
    have "m2 = m" using mergePath_outcome [of e "[]" p v "[]" hs0] by (simp add: m n)
    from n have "h2 = []"
    proof (cases rule: mergePath_cases)
      case (held x)
      with merged \<open>m2 = m\<close> show ?thesis by simp
    qed simp
    then show ?thesis using None n \<open>m2 = m\<close> by (simp add: mergePath_settled [of e texts])
  qed (simp add: mergePath_settled [of e texts])
  with ih show ?case unfolding pv r(2) merge_paths.simps Let_def by (simp only: prod.case list.map)
qed simp

section \<open>Properties\<close>

text \<open>A sample folder: its table of notes, and the choices that take the incoming side of one conflict.\<close>

definition notes_env :: sync_env where
  "notes_env = \<lparr>sy_yaml = tea_yaml, sy_unicode = ascii_unicode, sy_diff = zip_diff, sy_jsonc = (\<lambda>s. None), sy_json = (\<lambda>s. CNull),
     sy_definition = Some \<lparr>tables = [(js ''notes'', tea_table)], kv_fields = []\<rparr>\<rparr>"

definition note_path :: jsstring where
  "note_path = js ''notes/tea.md''"

definition lost_path :: jsstring where
  "lost_path = js ''list.txt''"

definition lost_versions :: row_versions where
  "lost_versions = \<lparr>vbase = Some (js ''a''), vours = None, vtheirs = Some (js ''b'')\<rparr>"

definition lost_commits :: sync_commits where
  "lost_commits = \<lparr>commit_base = Some (js ''b0''), commit_head = js ''h1'', commit_fetched = js ''f1''\<rparr>"

definition take_incoming :: "jsstring \<Rightarrow> heap" where
  "take_incoming i = [(0, RecordObj True 0 [(i, JRef 1)]),
     (1, RecordObj True 0 [(js ''kind'', JText (js ''take'')), (js ''side'', JText (js ''incoming''))])]"

lemma hot_saved:
  "writeRow ascii_unicode tea_yaml tea_table [(Suc 0, RecordObj True 0 [(js ''title'', JText (js ''Tea'')), (js ''cups'', JNum (Whole 2))])] (Some (JRef (Suc 0), JText (js ''Hot. Now.'')))
    = Inr (hot_text, hot_document)"
proof -
  let ?ms = "[(js ''title'', JText (js ''Tea'')), (js ''cups'', JNum (Whole 2))]"
  have k: "field_keys ?ms [js ''title''] = [js ''title'', js ''cups'']"
    by (simp add: field_keys_def js_def compareKeys_def)
  have w: "well_formed (js ''Hot. Now.'')" by (simp add: js_def high_surrogate_def low_surrogate_def)
  have o': "ownFields [(Suc 0, RecordObj True 0 ?ms)] ?ms [js ''title'', js ''cups'']
      = Inr [(js ''title'', OText (js ''Tea'')), (js ''cups'', ONum (Whole 2))]"
    by (simp add: js_def high_surrogate_def low_surrogate_def ownValue.simps numberValue_def isFinite_def isInteger_def
        isSafeInteger_def MAX_SAFE_INTEGER_def)
  have f: "formatOwned ascii_unicode [(js ''title'', OText (js ''Tea'')), (js ''cups'', ONum (Whole 2))] (js ''Hot. Now.'') = hot_text"
    by (simp add: formatOwned_def hot_text_def tea_text_def fence_def js_def isNested_def scalarText_def PLAIN_def high_surrogate_def
        low_surrogate_def plain_char_def ascii_unicode_def is_digit_def RESERVED_def ascii_lower_def valueText_def
        isLiteralBlock_def numberText_def show_number_def show_int_def show_nat_def digits.simps with_point_def starts_with_def)
  obtain p where p: "parseRowSource tea_yaml hot_text = Inr p" "parsed p = hot_document" using hot_row
    by (cases rule: parseRow_cases [of tea_yaml hot_text tea_table]) auto
  have s: "sameAsOwned (CRecord (doc_fields tea_document)) (OMap [(js ''title'', OText (js ''Tea'')), (js ''cups'', ONum (Whole 2))])"
    by (simp add: tea_document_def js_def)
  have "formatRowSource ascii_unicode tea_yaml [(Suc 0, RecordObj True 0 ?ms)] (Some (JRef (Suc 0), JText (js ''Hot. Now.''))) [js ''title'']
      = Inr (hot_text, hot_document)"
    using p(1) s by (simp add: formatRowSource_def w k isPlainRecord_def o' f p(2) hot_document_def Let_def del: sameAsOwned.simps ownFields.simps)
  moreover have "snd (check tea_table (present_values (doc_fields hot_document)) ReadMode) = []"
    using tea_conforms by (simp add: check_read_none hot_document_def)
  ultimately show ?thesis by (simp add: writeRow_def tea_table_def)
qed

lemma note_table: "tableAt (sy_definition notes_env) note_path = Some tea_table"
  by (simp add: tableAt_def notes_env_def note_path_def ends_with_def ROW_EXTENSION_def slash_def indexOf_def js_def)

lemma tea_note_merges: "mergePath notes_env [] note_path tea_versions [] = ([], MergedPath (Some hot_text))"
proof -
  have "write_merged notes_env tea_table hot_document = Inr (hot_text, hot_document)"
    using hot_saved by (simp add: write_merged_def notes_env_def hot_document_def tea_document_def fresh_def)
  then have "merge_row_file notes_env tea_table note_path tea_versions [] = ([], MergedPath (Some hot_text))"
    using tea_merged by (simp add: merge_row_file_def notes_env_def)
  moreover have "note_path \<noteq> KV_PATH" by (simp add: note_path_def KV_PATH_def js_def)
  ultimately show ?thesis using note_table by (simp add: mergePath_def)
qed

lemma lost_list_held:
  "merge_paths notes_env [] [(lost_path, lost_versions), (note_path, tea_versions)] []
    = ([(lost_path, HeldFile lost_path lost_versions)], [(lost_path, HeldPath), (note_path, MergedPath (Some hot_text))])"
proof -
  have h: "mergePath notes_env [] lost_path lost_versions [] = ([(lost_path, HeldFile lost_path lost_versions)], HeldPath)"
    by (simp add: mergePath_def lost_path_def KV_PATH_def js_def tableAt_def notes_env_def ends_with_def ROW_EXTENSION_def merge_text_def
        lost_versions_def hold_def defineOwn_def)
  obtain h2 m2 where n: "mergePath notes_env [] note_path tea_versions [(lost_path, HeldFile lost_path lost_versions)] = (h2, m2)" by fastforce
  have m2: "m2 = MergedPath (Some hot_text)"
    using mergePath_outcome [of notes_env "[]" note_path tea_versions "[(lost_path, HeldFile lost_path lost_versions)]" "[]"] n tea_note_merges by simp
  from n have "h2 = [(lost_path, HeldFile lost_path lost_versions)]" by (cases rule: mergePath_cases) (simp_all add: m2)
  with h n m2 show ?thesis by simp
qed

lemma lost_list_settled:
  "settle_attempt notes_env (make_attempt notes_env [] lost_commits [(lost_path, HeldFile lost_path lost_versions)])
     (take_incoming (idOf FileUnit lost_path)) (JRef 0) = SettledTexts [(lost_path, Some (js ''b''))]"
proof -
  have "pickOf (take_incoming i) x (JRef (Suc 0)) = Inr (Take IncomingSide)" for i x
    by (simp add: pickOf_def object_members_def take_incoming_def property_of_def js_def Let_def)
  then show ?thesis
    by (simp add: settle_attempt_def make_attempt_def settle_def held_conflicts_def file_conflict_def object_members_def take_incoming_def
        settle_held_def settle_file_def lost_versions_def Let_def)
qed

text \<open>
  Claim C15 (every_choice_is_settled_or_refused). Whatever a caller submits as its choices, settling
  the conflicts of a merge ends: it names at least one problem, or it gives a text (or no file) to exactly the held
  paths, in their order. In particular settled keys of \<^verbatim>\<open>kv.json\<close> always merge, and no choice is looked up in vain.
\<close>

theorem every_choice_is_settled_or_refused:
  assumes "merge_paths e settled ps [] = (hs, ms)"
  shows "case settle_attempt e (make_attempt e uuid c hs) h choices of
      SettleThrew \<Rightarrow> False
    | InvalidChoices problems \<Rightarrow> problems \<noteq> []
    | SettledTexts texts \<Rightarrow> map fst texts = map fst hs"
proof -
  from merge_paths_facts [OF assms holds_ok_Nil] have "holds_ok e hs" by blast
  then show ?thesis
  proof (cases rule: settle_cases [where uuid = uuid and c = c and h = h and choices = choices])
    case (settled submitted picks texts)
    from settled(5) have "map fst texts = map fst hs" by (induction rule: list_all2_induct) auto
    with settled(1) show ?thesis by simp
  qed simp
qed

lemma settled_merge:
  assumes "merge_paths e [] ps [] = (hs, ms)" and "distinct (map fst ps)"
    and "settle_attempt e (make_attempt e uuid c hs) h choices = SettledTexts texts"
  shows "merge_paths e texts ps [] =
    ([], map (\<lambda>(p, m). (p, case m of HeldPath \<Rightarrow> MergedPath (the (map_of texts p)) | MergedPath t \<Rightarrow> MergedPath t)) ms)"
proof -
  from merge_paths_facts [OF assms(1) holds_ok_Nil]
  have f: "holds_ok e hs" "map fst ms = map fst ps" "fst ` set hs = {p. (p, HeldPath) \<in> set ms}" by auto
  from f(1) assms(3) have "map fst texts = map fst hs"
  proof (cases rule: settle_cases [where uuid = uuid and c = c and h = h and choices = choices])
    case (settled submitted picks texts')
    from settled(5) have "map fst texts' = map fst hs" by (induction rule: list_all2_induct) auto
    with settled(1) assms(3) show ?thesis by simp
  qed simp
  then have t: "map_of texts p \<noteq> None \<longleftrightarrow> (p, HeldPath) \<in> set ms" for p
    using f(3) by (metis (mono_tags) list.set_map map_of_eq_None_iff mem_Collect_eq)
  then have "merge_paths e texts ps [] = ([], map (\<lambda>(p, m). (p, case map_of texts p of Some t \<Rightarrow> MergedPath t | None \<Rightarrow> m)) ms)"
    by (intro merge_again [OF assms(1,2)]) auto
  moreover have "(case map_of texts p of Some t \<Rightarrow> MergedPath t | None \<Rightarrow> m)
      = (case m of HeldPath \<Rightarrow> MergedPath (the (map_of texts p)) | MergedPath t \<Rightarrow> MergedPath t)" if "(p, m) \<in> set ms" for p m
  proof -
    have "distinct (map fst ms)" using f(2) assms(2) by simp
    then have "(p, HeldPath) \<in> set ms \<longleftrightarrow> m = HeldPath" using that by (metis eq_key_imp_eq_value)
    with t [of p] show ?thesis by (cases m) auto
  qed
  ultimately show ?thesis by (auto intro!: map_cong)
qed

text \<open>
  Claim C9 (a_settled_merge_holds_nothing). Merging the same paths again with the settled texts holds nothing:
  each held path takes its text, and every other path comes to what it came to before.
\<close>

theorem a_settled_merge_holds_nothing:
  assumes "merge_paths e [] ps [] = (hs, ms)" and "distinct (map fst ps)"
    and "settle_attempt e (make_attempt e uuid c hs) h choices = SettledTexts texts"
  shows "merge_paths e texts ps [] =
    ([], map (\<lambda>(p, m). (p, case m of HeldPath \<Rightarrow> MergedPath (the (map_of texts p)) | MergedPath t \<Rightarrow> MergedPath t)) ms)"
  by (rule settled_merge [OF assms])


theorem every_choice_is_settled_or_refused_witness:
  "\<exists>texts. settle_attempt notes_env (make_attempt notes_env [] lost_commits [(lost_path, HeldFile lost_path lost_versions)])
     (take_incoming (idOf FileUnit lost_path)) (JRef 0) = SettledTexts texts \<and> map fst texts = [lost_path]"
  using every_choice_is_settled_or_refused [OF lost_list_held, of "[]" lost_commits "take_incoming (idOf FileUnit lost_path)" "JRef 0"]
  by (simp add: lost_list_settled)

theorem a_settled_merge_holds_nothing_witness:
  "merge_paths notes_env [(lost_path, Some (js ''b''))] [(lost_path, lost_versions), (note_path, tea_versions)] []
    = ([], [(lost_path, MergedPath (Some (js ''b''))), (note_path, MergedPath (Some hot_text))])"
proof -
  have "distinct (map fst [(lost_path, lost_versions), (note_path, tea_versions)])" by (simp add: lost_path_def note_path_def js_def)
  from a_settled_merge_holds_nothing [OF lost_list_held this lost_list_settled] show ?thesis by simp
qed

text \<open>
  Claim C20 (conflict_ids_are_distinct). The conflicts of an attempt have distinct identifiers, so a choice
  submitted under one answers exactly one conflict. Paths and texts are strings of code units, and the parser yields strings.
\<close>

theorem conflict_ids_are_distinct:
  assumes "merge_paths e settled ps [] = (hs, ms)" and "parser_ok (parser_of (sy_jsonc e))"
    and "\<forall>(p, v)\<in>set ps. units_ok p \<and> versions_ok v"
  shows "distinct (map conflict_id (attempt_conflicts (attempt (make_attempt e uuid c hs))))"
proof -
  let ?L = "sort_by (\<lambda>a b. compareKeys (fst a) (fst b)) hs"
  from merge_paths_facts [OF assms(1) holds_ok_Nil] have h: "holds_ok e hs" by blast
  then have d: "distinct (map fst ?L)" by (simp add: holds_ok_def distinct_map)
  have "held_ok e p x \<and> units_ok p \<and> names_ok e x" if "(p, x) \<in> set ?L" for p x
  proof -
    from that h have "map_of hs p = Some x" by (simp add: holds_ok_def)
    with h merge_paths_names [OF assms] show ?thesis by (simp add: holds_ok_def)
  qed
  with distinct_ids [OF d] show ?thesis by (auto simp: make_attempt_def)
qed

theorem conflict_ids_are_distinct_witness:
  "distinct (map conflict_id (attempt_conflicts (attempt (make_attempt notes_env [] lost_commits [(lost_path, HeldFile lost_path lost_versions)]))))"
proof (rule conflict_ids_are_distinct [OF lost_list_held])
  show "parser_ok (parser_of (sy_jsonc notes_env))" by (simp add: parser_ok_def parser_of_def notes_env_def)
  have "units_ok (js w)" for w unfolding units_ok_def js_def using of_char_bound by auto
  then show "\<forall>(p, v)\<in>set [(lost_path, lost_versions), (note_path, tea_versions)]. units_ok p \<and> versions_ok v"
    by (auto simp: lost_path_def note_path_def versions_ok_def lost_versions_def tea_versions_def hot_text_def tea_text_def units_ok_def)
qed

text \<open>
  Claim C19 (merged_row_text_reads_as_the_merge). When a merge answers the path of a row with a text, the
  versions merged as rows and the text reads back, against the table, as a row with the merged body and, as JSON values,
  the merged fields.
\<close>

theorem merged_row_text_reads_as_the_merge:
  assumes "tableAt (sy_definition e) p = Some table" and "map_of settled p = None"
    and "mergePath e settled p v hs = (hs', MergedPath t)"
  shows "\<exists>s r w. t = Some s \<and> mergeRow (sy_yaml e) (sy_diff e) table v = MergedRow r \<and> parseRow (sy_yaml e) table s = Inr w
    \<and> doc_body w = doc_body r \<and> (\<forall>k. same_field (field_of (Some r) k) (field_of (Some w) k))"
proof -
  have "tableAt d KV_PATH = None" for d
    by (simp add: tableAt_def KV_PATH_def ends_with_def ROW_EXTENSION_def js_def split: option.split)
  with assms(1) have "p \<noteq> KV_PATH" by auto
  with assms have m: "merge_row_file e table p v hs = (hs', MergedPath t)" by (simp add: mergePath_def)
  then obtain r s w where r: "mergeRow (sy_yaml e) (sy_diff e) table v = MergedRow r" "write_merged e table r = Inr (s, w)" "t = Some s"
    by (auto simp: merge_row_file_def hold_def split: row_merge.splits sum.splits)
  from write_merged_same [OF r(2) merged_row_canonical [OF r(1)]] r show ?thesis by blast
qed

theorem merged_row_text_reads_as_the_merge_witness:
  "\<exists>w. parseRow tea_yaml tea_table hot_text = Inr w \<and> doc_body w = js ''Hot. Now.''"
  using merged_row_text_reads_as_the_merge [OF note_table _ tea_note_merges] tea_merged
  by (simp add: notes_env_def) (metis canonical_document.select_convs(2) hot_document_def)

text \<open>
  Claim C16 (a_settled_row_is_as_chosen). The text that settles a row is a valid row: each competing field holds the
  value of the side that was taken, the value that replaced it, or nothing where it was removed; the body is the chosen one;
  every other field is as the merge left it.
\<close>

theorem a_settled_row_is_as_chosen:
  assumes "settle_row e h table p r cs bc picks = HeldText t" and "heap_ok h"
    and "mergeRow (sy_yaml e) (sy_diff e) table v = RowConflict r cs bc"
  shows "\<exists>s w. t = Some s \<and> parseRow (sy_yaml e) table s = Inr w \<and> body_as_chosen picks p r bc (doc_body w)
    \<and> (\<forall>k. k \<notin> cfield ` set cs \<longrightarrow> same_field (field_of (Some r) k) (field_of (Some w) k))
    \<and> (\<forall>c\<in>set cs. \<exists>pick. picks (idOf (FieldUnit (cfield c)) p) = Some pick \<and> field_as_chosen h pick c (field_of (Some w) (cfield c)))"
  by (rule settled_row [OF assms])

text \<open>Both sides write a body of their own; the incoming one is taken.\<close>

theorem a_settled_row_is_as_chosen_witness:
  "\<exists>w. parseRow tea_yaml tea_table hot_text = Inr w \<and> doc_body w = js ''Hot. Now.''"
proof -
  let ?v = "\<lparr>vbase = None, vours = Some tea_text, vtheirs = Some hot_text\<rparr>"
  let ?bc = "Some \<lparr>bbase = None, bours = js ''Hot.'', btheirs = js ''Hot. Now.''\<rparr>"
  let ?picks = "[idOf BodyUnit note_path \<mapsto> Take IncomingSide]"
  have n: "mergeLines zip_diff [] (js ''Hot.'') (js ''Hot. Now.'') = None" by code_simp
  have "mergeRow tea_yaml zip_diff tea_table ?v = merge_rows zip_diff None tea_document hot_document"
    by (simp add: mergeRow_def read_version_def tea_row hot_row)
  also have "\<dots> = RowConflict tea_document [] ?bc" using n
    by (simp add: merge_rows_def hot_document_def tea_document_def js_def merge_body_def choose_side_def field_names_def object_keys_def
        array_index_def index_segment_def is_digit_def row_fields_def same_field_def same_number_def Let_def)
  finally have m: "mergeRow (sy_yaml notes_env) (sy_diff notes_env) tea_table ?v = RowConflict tea_document [] ?bc"
    by (simp add: notes_env_def)
  have "settle_row notes_env [] tea_table note_path tea_document [] ?bc ?picks = HeldText (Some hot_text)"
    using hot_saved by (simp add: settle_row_def settle_body_def tea_document_def fresh_def notes_env_def Let_def)
  moreover have "heap_ok []" by (simp add: heap_ok_def)
  ultimately obtain w where "parseRow (sy_yaml notes_env) tea_table hot_text = Inr w" "body_as_chosen ?picks note_path tea_document ?bc (doc_body w)"
    using a_settled_row_is_as_chosen [OF _ _ m] by blast
  then show ?thesis by (simp add: body_as_chosen_def notes_env_def)
qed

end
