(* ===== verification/Git_Merge.thy ===== *)
theory Git_Merge
  imports Git_Objects Sync_Settle
begin

text \<open>
  \<open>prepareMerge\<close> of \<^verbatim>\<open>packages/folder/src/git/merge.ts\<close>: the merge of the folder's head and a fetched commit,
  prepared as objects only. The three trees are flat file maps; sync's rules claim paths first, root \<^verbatim>\<open>kv.json\<close> is
  merged by key, and isomorphic-git merges the rest, both sides holding what was claimed. Its merge is the function
  \<open>git_merge\<close> of the object access. The number is how deep trees are read.
\<close>

section \<open>Texts\<close>

definition ROOT_KV :: jsstring where
  "ROOT_KV = js ''kv.json''"

definition PLAIN :: jsstring where
  "PLAIN = js ''100644''"

definition same :: "'o tree_file option \<Rightarrow> 'o tree_file option \<Rightarrow> bool" where
  "same l r = (case (l, r) of
     (Some x, Some y) \<Rightarrow> file_oid x = file_oid y \<and> file_mode x = file_mode y
   | (None, None) \<Rightarrow> True
   | _ \<Rightarrow> False)"

definition line_terminator :: "nat \<Rightarrow> bool" where
  "line_terminator c \<longleftrightarrow> c = 10 \<or> c = 13 \<or> c = 0x2028 \<or> c = 0x2029"

text \<open>
  What \<^verbatim>\<open>/^.*(\r?\n|$)/gm\<close> matches from the start of a line: the line with its line feed, or up to another line
  terminator, which no match holds.
\<close>

function line_matches :: "jsstring \<Rightarrow> jsstring list" where
  "line_matches s =
     (let row = takeWhile (\<lambda>c. \<not> line_terminator c) s in
      case dropWhile (\<lambda>c. \<not> line_terminator c) s of
        [] \<Rightarrow> [row]
      | c # cs \<Rightarrow>
          if c = 10 then (row @ [10]) # line_matches cs
          else if c = 13 \<and> cs \<noteq> [] \<and> hd cs = 10 then (row @ [13, 10]) # line_matches (tl cs)
          else row # line_matches cs)"
  by pat_completeness auto
termination
proof (relation "measure length")
  fix s c cs assume "dropWhile (\<lambda>c. \<not> line_terminator c) s = c # cs"
  then have "length (c # cs) \<le> length s" by (metis length_dropWhile_le)
  then show "(cs, s) \<in> measure length" "(cs, s) \<in> measure length" "(tl cs, s) \<in> measure length" by auto
qed simp_all

declare line_matches.simps [simp del]

definition mergesAsText :: "bytes \<Rightarrow> bool" where
  "mergesAsText bs =
     (if 0 \<in> set bs then False
      else (case strict_decode bs of None \<Rightarrow> False | Some t \<Rightarrow> concat (line_matches t) = t))"

section \<open>Conflicts\<close>

datatype merge_conflict =
    ContentConflict jsstring
  | BinaryConflict jsstring
  | DeletedConflict jsstring kv_side
  | ShapeConflict jsstring
  | KvKeyConflict kv_conflict
  | KvFileConflict
  | KvInvalidConflict kv_side

fun conflict_at :: "merge_conflict \<Rightarrow> jsstring" where
  "conflict_at (ContentConflict pa) = pa"
| "conflict_at (BinaryConflict pa) = pa"
| "conflict_at (DeletedConflict pa sd) = pa"
| "conflict_at (ShapeConflict pa) = pa"
| "conflict_at (KvKeyConflict c) = ROOT_KV"
| "conflict_at KvFileConflict = ROOT_KV"
| "conflict_at (KvInvalidConflict sd) = ROOT_KV"

datatype 'o prepared =
    PreparedMerge 'o "'o tree_files"
  | PreparedConflicts "merge_conflict list" "jsstring list"
  | Unmergeable "jsstring list" jsstring

datatype merge_failure = TreeTooDeep | MergeThrew | NoMergedTree | OverrideLost

section \<open>Claims\<close>

text \<open>The three trees of a merge, and a path in each.\<close>

record 'o trees =
  base_tree :: "'o tree_files"
  our_tree :: "'o tree_files"
  their_tree :: "'o tree_files"

definition all_paths :: "'o trees \<Rightarrow> jsstring list" where
  "all_paths ts = as_set (map fst (base_tree ts) @ map fst (our_tree ts) @ map fst (their_tree ts))"

definition entries_at :: "'o trees \<Rightarrow> jsstring \<Rightarrow> 'o tree_file option list" where
  "entries_at ts pa = [map_of (base_tree ts) pa, map_of (our_tree ts) pa, map_of (their_tree ts) pa]"

definition both_changed :: "'o trees \<Rightarrow> jsstring \<Rightarrow> bool" where
  "both_changed ts pa \<longleftrightarrow>
     \<not> same (map_of (our_tree ts) pa) (map_of (their_tree ts) pa) \<and> \<not> same (map_of (our_tree ts) pa) (map_of (base_tree ts) pa)
     \<and> \<not> same (map_of (their_tree ts) pa) (map_of (base_tree ts) pa)"

definition plain_entry :: "'o tree_file option \<Rightarrow> bool" where
  "plain_entry e = (case e of None \<Rightarrow> True | Some f \<Rightarrow> file_mode f = PLAIN)"

definition claimable_text :: "'o git_access \<Rightarrow> 'o tree_file option \<Rightarrow> jsstring option option" where
  "claimable_text A e =
     (case e of
        None \<Rightarrow> Some None
      | Some f \<Rightarrow> (let bs = readBlob A (file_oid f) in if 0 \<in> set bs then None else map_option Some (strict_decode bs)))"

definition offered_versions :: "'o git_access \<Rightarrow> 'o trees \<Rightarrow> jsstring \<Rightarrow> row_versions option" where
  "offered_versions A ts pa =
     (if \<not> both_changed ts pa \<or> \<not> list_all plain_entry (entries_at ts pa) then None
      else (case claimable_text A (map_of (base_tree ts) pa) of
              None \<Rightarrow> None
            | Some vb \<Rightarrow>
                (case claimable_text A (map_of (our_tree ts) pa) of
                   None \<Rightarrow> None
                 | Some vo \<Rightarrow>
                     (case claimable_text A (map_of (their_tree ts) pa) of
                        None \<Rightarrow> None
                      | Some vt \<Rightarrow> Some \<lparr>vbase = vb, vours = vo, vtheirs = vt\<rparr>))))"

record 's claims =
  claim_state :: 's
  claimed :: "(jsstring \<times> bytes option) list"
  claim_held :: "jsstring list"

type_synonym 's merge_rule = "'s \<Rightarrow> jsstring \<Rightarrow> row_versions \<Rightarrow> 's \<times> path_merge option"

definition our_bytes :: "'o git_access \<Rightarrow> 'o trees \<Rightarrow> jsstring \<Rightarrow> bytes option" where
  "our_bytes A ts pa = map_option (\<lambda>f. readBlob A (file_oid f)) (map_of (our_tree ts) pa)"

definition claim_path :: "'o git_access \<Rightarrow> 's merge_rule \<Rightarrow> 'o trees \<Rightarrow> 's claims \<Rightarrow> jsstring \<Rightarrow> 's claims" where
  "claim_path A rule ts c pa =
     (case offered_versions A ts pa of
        None \<Rightarrow> c
      | Some v \<Rightarrow>
          (case rule (claim_state c) pa v of
             (s, None) \<Rightarrow> c\<lparr>claim_state := s\<rparr>
           | (s, Some (MergedPath t)) \<Rightarrow> c\<lparr>claim_state := s, claimed := AList.update pa (map_option text_encode t) (claimed c)\<rparr>
           | (s, Some HeldPath) \<Rightarrow>
               c\<lparr>claim_state := s, claim_held := claim_held c @ [pa], claimed := AList.update pa (our_bytes A ts pa) (claimed c)\<rparr>))"

definition claim_paths :: "'o git_access \<Rightarrow> 's merge_rule option \<Rightarrow> 'o trees \<Rightarrow> 's \<Rightarrow> 's claims" where
  "claim_paths A rule ts s =
     (let start = \<lparr>claim_state = s, claimed = [], claim_held = []\<rparr> in
      case rule of None \<Rightarrow> start | Some f \<Rightarrow> foldl (claim_path A f ts) start (all_paths ts))"

text \<open>
  What the rule answers, path after path, each time in the state the answer before left: to every path it is
  offered, whatever becomes of the answer.
\<close>

fun ask_rule ::
    "'o git_access \<Rightarrow> 's merge_rule \<Rightarrow> 'o trees \<Rightarrow> 's \<Rightarrow> jsstring list \<Rightarrow> (jsstring \<times> path_merge option) list" where
  "ask_rule A f ts s [] = []"
| "ask_rule A f ts s (pa # ps) =
     (case offered_versions A ts pa of
        None \<Rightarrow> ask_rule A f ts s ps
      | Some v \<Rightarrow> (pa, snd (f s pa v)) # ask_rule A f ts (fst (f s pa v)) ps)"

definition rule_answers :: "'o git_access \<Rightarrow> 's merge_rule option \<Rightarrow> 'o trees \<Rightarrow> 's \<Rightarrow> (jsstring \<times> path_merge option) list" where
  "rule_answers A rule ts s = (case rule of None \<Rightarrow> [] | Some f \<Rightarrow> ask_rule A f ts s (all_paths ts))"

section \<open>Root settings\<close>

definition settings_text :: "'o git_access \<Rightarrow> 'o tree_file option \<Rightarrow> jsstring option option" where
  "settings_text A e = (case e of None \<Rightarrow> Some None | Some f \<Rightarrow> map_option Some (strict_decode (readBlob A (file_oid f))))"

definition merge_kv_files :: "'o git_access \<Rightarrow> parser \<Rightarrow> 'o trees \<Rightarrow> kv_merge" where
  "merge_kv_files A parse ts =
     (case settings_text A (map_of (base_tree ts) ROOT_KV) of
        None \<Rightarrow> InvalidSide Base
      | Some vb \<Rightarrow>
          (case settings_text A (map_of (our_tree ts) ROOT_KV) of
             None \<Rightarrow> InvalidSide Ours
           | Some vo \<Rightarrow>
               (case settings_text A (map_of (their_tree ts) ROOT_KV) of
                  None \<Rightarrow> InvalidSide Theirs
                | Some vt \<Rightarrow> mergeKv parse vb vo vt)))"

text \<open>What both sides' children hold at \<^verbatim>\<open>kv.json\<close>, when it was merged by key, with its conflicts.\<close>

datatype kv_plan = KvUntouched | KvRefused | KvBoth "bytes option" "merge_conflict list"

definition kv_plain :: "'o trees \<Rightarrow> bool" where
  "kv_plain ts \<longleftrightarrow> list_all plain_entry (entries_at ts ROOT_KV)
     \<and> (\<forall>files\<in>{base_tree ts, our_tree ts, their_tree ts}. \<forall>x\<in>set files. \<not> starts_with (fst x) 0 (ROOT_KV @ [slash]))"

definition plan_kv :: "'o git_access \<Rightarrow> parser \<Rightarrow> 'o trees \<Rightarrow> (jsstring \<times> bytes option) list \<Rightarrow> kv_plan" where
  "plan_kv A parse ts claims =
     (if map_of claims ROOT_KV \<noteq> None \<or> \<not> both_changed ts ROOT_KV then KvUntouched
      else if \<not> kv_plain ts then KvRefused
      else (case merge_kv_files A parse ts of
              Merged t \<Rightarrow> KvBoth (map_option text_encode t) []
            | Conflict cs \<Rightarrow> KvBoth (our_bytes A ts ROOT_KV) (map KvKeyConflict cs)
            | FileConflict \<Rightarrow> KvBoth (our_bytes A ts ROOT_KV) [KvFileConflict]
            | InvalidSide sd \<Rightarrow> KvBoth (our_bytes A ts ROOT_KV) [KvInvalidConflict sd]))"

section \<open>Every other path\<close>

record scan =
  scan_present :: "jsstring list"
  scan_conflicts :: "merge_conflict list"
  scan_texts :: "jsstring list"

definition add_present :: "bool \<Rightarrow> jsstring \<Rightarrow> scan \<Rightarrow> scan" where
  "add_present holds pa s = (if holds then s\<lparr>scan_present := scan_present s @ [pa]\<rparr> else s)"

definition scan_path :: "'o trees \<Rightarrow> kv_plan \<Rightarrow> (jsstring \<times> bytes option) list \<Rightarrow> scan \<Rightarrow> jsstring \<Rightarrow> scan" where
  "scan_path ts kv claims s pa =
     (case (if pa = ROOT_KV then kv else KvUntouched) of
        KvBoth t cs \<Rightarrow> add_present (t \<noteq> None) pa s
      | _ \<Rightarrow>
          (case map_of claims pa of
             Some t \<Rightarrow> add_present (t \<noteq> None) pa s
           | None \<Rightarrow>
               (let eb = map_of (base_tree ts) pa; eo = map_of (our_tree ts) pa; et = map_of (their_tree ts) pa in
                if same eo et \<or> same eo eb then add_present (et \<noteq> None) pa s
                else if same et eb then add_present (eo \<noteq> None) pa s
                else
                  (let s' = add_present True pa s in
                   if eo = None \<or> et = None
                   then s'\<lparr>scan_conflicts := scan_conflicts s' @ [DeletedConflict pa (if eo = None then Ours else Theirs)]\<rparr>
                   else s'\<lparr>scan_texts := scan_texts s' @ [pa]\<rparr>))))"

definition scan_paths :: "'o trees \<Rightarrow> kv_plan \<Rightarrow> (jsstring \<times> bytes option) list \<Rightarrow> scan" where
  "scan_paths ts kv claims =
     foldl (scan_path ts kv claims) \<lparr>scan_present = [], scan_conflicts = [], scan_texts = []\<rparr> (all_paths ts)"

definition text_path :: "'o git_access \<Rightarrow> 'o trees \<Rightarrow> jsstring \<Rightarrow> bool" where
  "text_path A ts pa \<longleftrightarrow>
     list_all (\<lambda>e. case e of None \<Rightarrow> True | Some f \<Rightarrow> mergesAsText (readBlob A (file_oid f))) (entries_at ts pa)"

text \<open>The first tree whose attribute files give one of the paths merged as text another merge.\<close>

definition attribute_files :: "'o git_access \<Rightarrow> 'o tree_files \<Rightarrow> (jsstring \<times> bytes) list" where
  "attribute_files A files = map (\<lambda>(pa, f). (pa, readBlob A (file_oid f))) (filter (\<lambda>x. isAttributesPath (fst x)) files)"

definition declared_merge :: "'o git_access \<Rightarrow> 'o trees \<Rightarrow> jsstring list \<Rightarrow> (jsstring \<times> jsstring) option" where
  "declared_merge A ts textual =
     (if textual = [] then None
      else (case mergeAttribute (attribute_files A (base_tree ts)) textual of
              Some d \<Rightarrow> Some d
            | None \<Rightarrow>
                (case mergeAttribute (attribute_files A (our_tree ts)) textual of
                   Some d \<Rightarrow> Some d
                 | None \<Rightarrow> mergeAttribute (attribute_files A (their_tree ts)) textual)))"

definition shape_paths :: "jsstring list \<Rightarrow> jsstring list" where
  "shape_paths ps = as_set (concat (map (\<lambda>pa. filter (\<lambda>q. q \<in> set ps) (ancestors pa)) ps))"

section \<open>Git's merge\<close>

definition override_files :: "'o tree_files \<Rightarrow> (jsstring \<times> 'o option) list \<Rightarrow> 'o tree_files" where
  "override_files files overrides =
     foldl (\<lambda>fs (pa, blob). case blob of
                              None \<Rightarrow> AList.delete pa fs
                            | Some x \<Rightarrow> AList.update pa \<lparr>file_oid = x, file_mode = PLAIN\<rparr> fs) files overrides"

definition withOverrides :: "'o git_access \<Rightarrow> nat \<Rightarrow> author \<Rightarrow> (jsstring \<times> 'o option) list \<Rightarrow> 'o \<Rightarrow> 'o option" where
  "withOverrides A n author overrides commit =
     (case readTreeFiles A n (commitTree A commit) of
        None \<Rightarrow> None
      | Some files \<Rightarrow>
          Some (writeCommitObject A (writeTreeFiles A (override_files files overrides)) [commit]
                  (js ''Merge with prepared paths'') author))"

definition mergeWith ::
    "'o git_access \<Rightarrow> nat \<Rightarrow> author \<Rightarrow> bool \<Rightarrow> 'o \<Rightarrow> 'o \<Rightarrow> (jsstring \<times> 'o option) list \<Rightarrow> 'o merge_answer option" where
  "mergeWith A n author unrelated head fetched overrides =
     (if overrides = [] then Some (git_merge A head fetched unrelated)
      else (case withOverrides A n author overrides head of
              None \<Rightarrow> None
            | Some ours \<Rightarrow>
                (case withOverrides A n author overrides fetched of
                   None \<Rightarrow> None
                 | Some theirs \<Rightarrow> Some (git_merge A ours theirs unrelated))))"

definition merge_overrides :: "'o git_access \<Rightarrow> kv_plan \<Rightarrow> (jsstring \<times> bytes option) list \<Rightarrow> (jsstring \<times> 'o option) list" where
  "merge_overrides A kv claims =
     (case kv of KvBoth t cs \<Rightarrow> [(ROOT_KV, map_option (write_blob A) t)] | _ \<Rightarrow> [])
     @ map (\<lambda>(pa, t). (pa, map_option (write_blob A) t)) claims"

definition content_conflicts :: "merge_conflict list \<Rightarrow> jsstring list \<Rightarrow> merge_conflict list" where
  "content_conflicts conflicts paths = map ContentConflict (filter (\<lambda>pa. pa \<notin> conflict_at ` set conflicts) paths)"

definition conflicted :: "merge_conflict list \<Rightarrow> jsstring list \<Rightarrow> 'o prepared" where
  "conflicted conflicts held_paths =
     PreparedConflicts (sort_by (\<lambda>a b. byCodePoint (conflict_at a) (conflict_at b)) conflicts) (sort_by byCodePoint held_paths)"

definition unsupported_reason :: jsstring where
  "unsupported_reason = js ''isomorphic-git does not merge this combination of files and directories''"

text \<open>The end of \<open>prepareMerge\<close>, once every path has been looked at.\<close>

definition finish_merge ::
    "'o git_access \<Rightarrow> nat \<Rightarrow> author \<Rightarrow> jsstring \<Rightarrow> bool \<Rightarrow> 'o \<Rightarrow> 'o \<Rightarrow> (jsstring \<times> 'o option) list
     \<Rightarrow> merge_conflict list \<Rightarrow> jsstring list \<Rightarrow> (merge_failure, 'o prepared) result" where
  "finish_merge A n author msg unrelated head fetched overrides conflicts held_paths =
     (case mergeWith A n author unrelated head fetched overrides of
        None \<Rightarrow> Inl TreeTooDeep
      | Some MergeFailed \<Rightarrow> Inl MergeThrew
      | Some MergeNotSupported \<Rightarrow> Inr (Unmergeable [] unsupported_reason)
      | Some (MergeConflicts paths) \<Rightarrow>
          (let conflicts' = conflicts @ content_conflicts conflicts paths in
           if conflicts' \<noteq> [] \<or> held_paths \<noteq> [] then Inr (conflicted conflicts' held_paths) else Inl NoMergedTree)
      | Some (MergedTree tree) \<Rightarrow>
          (if conflicts \<noteq> [] \<or> held_paths \<noteq> [] then Inr (conflicted conflicts held_paths)
           else (case readTreeFiles A n tree of
                   None \<Rightarrow> Inl TreeTooDeep
                 | Some files \<Rightarrow>
                     if \<exists>(pa, blob)\<in>set overrides. map_option file_oid (map_of files pa) \<noteq> blob then Inl OverrideLost
                     else Inr (PreparedMerge (writeCommitObject A tree [head, fetched] msg author) files))))"

definition special_reason :: jsstring where
  "special_reason = js ''both sides changed a file that is a symbolic link, executable, or submodule in one of its versions''"

definition declared_reason :: "jsstring \<times> jsstring \<Rightarrow> jsstring" where
  "declared_reason d =
     js ''the Git attribute '' @ snd d @ js '' applies to '' @ fst d
     @ js '', and this folder merges text only by Git'' @ [39] @ js ''s default rule''"

definition merge_scanned ::
    "'o git_access \<Rightarrow> nat \<Rightarrow> author \<Rightarrow> jsstring \<Rightarrow> bool \<Rightarrow> 'o \<Rightarrow> 'o \<Rightarrow> 'o trees \<Rightarrow> kv_plan \<Rightarrow> 's claims
     \<Rightarrow> (merge_failure, 'o prepared) result" where
  "merge_scanned A n author msg unrelated head fetched ts kv c =
     (let s = scan_paths ts kv (claimed c);
          special = filter (\<lambda>pa. \<not> list_all plain_entry (entries_at ts pa)) (scan_texts s);
          texts = filter (text_path A ts) (scan_texts s);
          binaries = map BinaryConflict (filter (\<lambda>pa. \<not> text_path A ts pa) (scan_texts s));
          shapes = shape_paths (scan_present s);
          kv_conflicts = (case kv of KvBoth t cs \<Rightarrow> cs | _ \<Rightarrow> []);
          conflicts = kv_conflicts @ scan_conflicts s @ binaries @ map ShapeConflict shapes in
      if special \<noteq> [] then Inr (Unmergeable special special_reason)
      else (case declared_merge A ts (texts @ map fst (claimed c)) of
              Some d \<Rightarrow> Inr (Unmergeable [fst d] (declared_reason d))
            | None \<Rightarrow>
                if shapes \<noteq> [] then Inr (conflicted conflicts (claim_held c))
                else finish_merge A n author msg unrelated head fetched (merge_overrides A kv (claimed c)) conflicts (claim_held c)))"

definition merge_trees ::
    "'o git_access \<Rightarrow> nat \<Rightarrow> parser \<Rightarrow> 's merge_rule option \<Rightarrow> 's \<Rightarrow> author \<Rightarrow> jsstring \<Rightarrow> bool \<Rightarrow> 'o \<Rightarrow> 'o \<Rightarrow> 'o trees
     \<Rightarrow> (merge_failure, 'o prepared \<times> 's) result" where
  "merge_trees A n parse rule s author msg unrelated head fetched ts =
     (let c = claim_paths A rule ts s; kv = plan_kv A parse ts (claimed c) in
      if kv = KvRefused then Inr (Unmergeable [ROOT_KV] (js ''kv.json is not a plain file on every side''), claim_state c)
      else map_sum id (\<lambda>r. (r, claim_state c)) (merge_scanned A n author msg unrelated head fetched ts kv c))"

definition prepareMerge ::
    "'o git_access \<Rightarrow> nat \<Rightarrow> parser \<Rightarrow> 's merge_rule option \<Rightarrow> 's \<Rightarrow> 'o option \<Rightarrow> 'o \<Rightarrow> 'o \<Rightarrow> author \<Rightarrow> jsstring
     \<Rightarrow> (merge_failure, 'o prepared \<times> 's) result" where
  "prepareMerge A n parse rule s base head fetched author msg =
     (case (case base of None \<Rightarrow> Some [] | Some commit \<Rightarrow> readTreeFiles A n (commitTree A commit),
            readTreeFiles A n (commitTree A head), readTreeFiles A n (commitTree A fetched)) of
        (Some b, Some us, Some th) \<Rightarrow>
          merge_trees A n parse rule s author msg (base = None) head fetched
            \<lparr>base_tree = b, our_tree = us, their_tree = th\<rparr>
      | _ \<Rightarrow> Inl TreeTooDeep)"

section \<open>The line split\<close>

fun lines_kept :: "jsstring \<Rightarrow> bool" where
  "lines_kept [] = True"
| "lines_kept (c # cs) =
     (if c = 13 then cs \<noteq> [] \<and> hd cs = 10 \<and> lines_kept cs else c \<noteq> 0x2028 \<and> c \<noteq> 0x2029 \<and> lines_kept cs)"

lemma lines_kept_row: "\<forall>c\<in>set row. \<not> line_terminator c \<Longrightarrow> lines_kept (row @ cs) = lines_kept cs"
  by (induction row) (auto simp: line_terminator_def)

lemma line_matches_concat:
  "length (concat (line_matches s)) \<le> length s \<and> (concat (line_matches s) = s \<longleftrightarrow> lines_kept s)"
proof (induction s rule: line_matches.induct)
  case (1 s)
  let ?t = "\<lambda>c. \<not> line_terminator c"
  let ?row = "takeWhile ?t s"
  have row: "\<forall>c\<in>set ?row. \<not> line_terminator c" by (metis set_takeWhileD)
  have s: "s = ?row @ dropWhile ?t s" by simp
  show ?case
  proof (cases "dropWhile ?t s")
    case Nil
    then have "line_matches s = [?row]" unfolding line_matches.simps [of s] Let_def Nil by simp
    moreover have "?row = s" using s Nil by simp
    moreover have "lines_kept s" using lines_kept_row [OF row, of "[]"] \<open>?row = s\<close> by simp
    ultimately show ?thesis by simp
  next
    case (Cons c cs)
    have k: "lines_kept s = lines_kept (c # cs)" using lines_kept_row [OF row, of "c # cs"] s Cons by metis
    have s': "s = ?row @ c # cs" using s Cons by metis
    then have len: "length s = length ?row + Suc (length cs)" by (metis length_append length_Cons)
    have t: "line_terminator c" using Cons by (metis dropWhile_eq_Cons_conv)
    consider (feed) "c = 10" | (both) "c = 13" "cs \<noteq> []" "hd cs = 10" | (lost) "c \<noteq> 10" "\<not> (c = 13 \<and> cs \<noteq> [] \<and> hd cs = 10)" by blast
    then show ?thesis
    proof cases
      case feed
      have m: "line_matches s = (?row @ [10]) # line_matches cs" unfolding line_matches.simps [of s] Let_def Cons using feed by simp
      have ih: "length (concat (line_matches cs)) \<le> length cs \<and> (concat (line_matches cs) = cs \<longleftrightarrow> lines_kept cs)"
        using 1(1) [OF refl Cons feed] .
      have "concat (line_matches s) = s \<longleftrightarrow> concat (line_matches cs) = cs"
      proof -
        have "concat (line_matches s) = ?row @ 10 # concat (line_matches cs)" unfolding m by simp
        then show ?thesis using s' feed by (metis same_append_eq list.inject)
      qed
      then show ?thesis using ih k feed len unfolding m by simp
    next
      case both
      then obtain ds where ds: "cs = 10 # ds" by (cases cs) auto
      have m: "line_matches s = (?row @ [13, 10]) # line_matches ds" unfolding line_matches.simps [of s] Let_def Cons using both ds by simp
      have ih: "length (concat (line_matches ds)) \<le> length ds \<and> (concat (line_matches ds) = ds \<longleftrightarrow> lines_kept ds)"
        using 1(2) [OF refl Cons] both ds by simp
      have "concat (line_matches s) = s \<longleftrightarrow> concat (line_matches ds) = ds"
      proof -
        have "concat (line_matches s) = ?row @ 13 # 10 # concat (line_matches ds)" unfolding m by simp
        then show ?thesis using s' both(1) ds by (metis same_append_eq list.inject)
      qed
      then show ?thesis using ih k both ds len unfolding m by simp
    next
      case lost
      have m: "line_matches s = ?row # line_matches cs" unfolding line_matches.simps [of s] Let_def Cons using lost by auto
      have ih: "length (concat (line_matches cs)) \<le> length cs" using 1(3) [OF refl Cons lost] by blast
      then have "length (concat (line_matches s)) < length s" unfolding m using len by simp
      moreover have "\<not> lines_kept (c # cs)" using lost t by (auto simp: line_terminator_def)
      ultimately show ?thesis using k by auto
    qed
  qed
qed

lemma lines_kept_spec:
  "lines_kept s \<longleftrightarrow> 0x2028 \<notin> set s \<and> 0x2029 \<notin> set s \<and> (\<forall>xs ys. s = xs @ 13 # ys \<longrightarrow> ys \<noteq> [] \<and> hd ys = 10)"
proof (induction s)
  case (Cons c cs)
  have "(\<forall>xs ys. c # cs = xs @ 13 # ys \<longrightarrow> ys \<noteq> [] \<and> hd ys = 10)
      \<longleftrightarrow> (c = 13 \<longrightarrow> cs \<noteq> [] \<and> hd cs = 10) \<and> (\<forall>xs ys. cs = xs @ 13 # ys \<longrightarrow> ys \<noteq> [] \<and> hd ys = 10)"
    by (auto simp: Cons_eq_append_conv)
  then show ?case using Cons by auto
qed simp

lemma mergesAsText_spec:
  "mergesAsText bs \<longleftrightarrow> 0 \<notin> set bs \<and> (\<exists>t. strict_decode bs = Some t \<and> 0x2028 \<notin> set t \<and> 0x2029 \<notin> set t
     \<and> (\<forall>xs ys. t = xs @ 13 # ys \<longrightarrow> ys \<noteq> [] \<and> hd ys = 10))"
  using line_matches_concat lines_kept_spec by (auto simp: mergesAsText_def split: option.split)

section \<open>What is claimed\<close>

lemma same_eq [simp]: "same l r \<longleftrightarrow> l = r"
  by (cases l; cases r) (auto simp: same_def)

lemma both_changed_path: "both_changed ts pa \<Longrightarrow> pa \<in> set (all_paths ts)"
proof -
  assume "both_changed ts pa"
  then have "map_of (our_tree ts) pa \<noteq> None \<or> map_of (their_tree ts) pa \<noteq> None" by (auto simp: both_changed_def)
  then show ?thesis by (auto simp: all_paths_def as_set_def map_of_eq_None_iff)
qed

lemma offered_both_changed: "offered_versions A ts pa = Some v \<Longrightarrow> both_changed ts pa"
  by (simp add: offered_versions_def split: if_splits)

lemma claimed_only_offered:
  "fst ` set (claimed (foldl (claim_path A f ts) c ps)) \<subseteq> fst ` set (claimed c) \<union> {pa. both_changed ts pa}"
proof (induction ps arbitrary: c)
  case (Cons pa ps)
  have "fst ` set (claimed (claim_path A f ts c pa)) \<subseteq> fst ` set (claimed c) \<union> {pa. both_changed ts pa}"
  proof (cases "offered_versions A ts pa")
    case None
    then show ?thesis by (auto simp: claim_path_def)
  next
    case (Some v)
    then have "both_changed ts pa" by (rule offered_both_changed)
    then show ?thesis using Some unfolding claim_path_def
      by (auto simp: dom_update split: prod.splits option.splits path_merge.splits)
  qed
  with Cons [of "claim_path A f ts c pa"] show ?case unfolding foldl.simps by blast
qed simp

lemma claims_both_changed: "map_of (claimed (claim_paths A rule ts s)) pa \<noteq> None \<Longrightarrow> both_changed ts pa"
  using claimed_only_offered [of A _ ts "\<lparr>claim_state = s, claimed = [], claim_held = []\<rparr>" "all_paths ts"]
  by (cases rule) (auto simp: claim_paths_def map_of_eq_None_iff Let_def)

section \<open>What the scan finds\<close>

text \<open>A path the ordinary merge has to settle between two changes.\<close>

definition unclaimed :: "'o trees \<Rightarrow> kv_plan \<Rightarrow> (jsstring \<times> bytes option) list \<Rightarrow> jsstring \<Rightarrow> bool" where
  "unclaimed ts kv claims pa \<longleftrightarrow>
     both_changed ts pa \<and> map_of claims pa = None \<and> \<not> (pa = ROOT_KV \<and> (\<exists>t cs. kv = KvBoth t cs))"

definition one_deleted :: "'o trees \<Rightarrow> jsstring \<Rightarrow> bool" where
  "one_deleted ts pa \<longleftrightarrow> map_of (our_tree ts) pa = None \<or> map_of (their_tree ts) pa = None"

lemma scan_path_facts:
  shows "scan_texts (scan_path ts kv claims s pa) = scan_texts s @ (if unclaimed ts kv claims pa \<and> \<not> one_deleted ts pa then [pa] else [])" (is ?thesis1)
    and "scan_conflicts (scan_path ts kv claims s pa) = scan_conflicts s
     @ (if unclaimed ts kv claims pa \<and> one_deleted ts pa
        then [DeletedConflict pa (if map_of (our_tree ts) pa = None then Ours else Theirs)] else [])" (is ?thesis2)
proof -
  let ?kv = "if pa = ROOT_KV then kv else KvUntouched"
  have "?thesis1 \<and> ?thesis2"
  proof (cases "(\<exists>t cs. ?kv = KvBoth t cs) \<or> map_of claims pa \<noteq> None")
    case True
    then have "\<not> unclaimed ts kv claims pa" by (auto simp: unclaimed_def split: if_splits)
    moreover from True have "\<exists>b. scan_path ts kv claims s pa = add_present b pa s"
      unfolding scan_path_def by (cases ?kv; cases "map_of claims pa") auto
    ultimately show ?thesis by (auto simp: add_present_def)
  next
    case False
    then have u: "unclaimed ts kv claims pa \<longleftrightarrow> both_changed ts pa" by (auto simp: unclaimed_def split: if_splits)
    from False have n: "map_of claims pa = None" by blast
    from False have k: "?kv = KvUntouched \<or> ?kv = KvRefused" by (cases ?kv) blast+
    let ?b = "map_of (base_tree ts) pa" and ?o = "map_of (our_tree ts) pa" and ?t = "map_of (their_tree ts) pa"
    have e: "scan_path ts kv claims s pa =
        (if ?o = ?t \<or> ?o = ?b then add_present (?t \<noteq> None) pa s
         else if ?t = ?b then add_present (?o \<noteq> None) pa s
         else if ?o = None \<or> ?t = None
         then (add_present True pa s)\<lparr>scan_conflicts := scan_conflicts s @ [DeletedConflict pa (if ?o = None then Ours else Theirs)]\<rparr>
         else (add_present True pa s)\<lparr>scan_texts := scan_texts s @ [pa]\<rparr>)"
      unfolding scan_path_def n using k by (elim disjE) (simp_all only: kv_plan.case option.case Let_def same_eq, simp_all add: add_present_def)
    have c: "both_changed ts pa \<longleftrightarrow> ?o \<noteq> ?t \<and> ?o \<noteq> ?b \<and> ?t \<noteq> ?b" by (simp add: both_changed_def)
    have p: "scan_texts (add_present b pa s) = scan_texts s" "scan_conflicts (add_present b pa s) = scan_conflicts s" for b
      by (simp_all add: add_present_def)
    show ?thesis unfolding u e c one_deleted_def by (simp add: p)
  qed
  then show ?thesis1 ?thesis2 by blast+
qed

lemma scan_facts:
  "scan_texts (foldl (scan_path ts kv claims) s ps) = scan_texts s @ filter (\<lambda>pa. unclaimed ts kv claims pa \<and> \<not> one_deleted ts pa) ps"
  "scan_conflicts (foldl (scan_path ts kv claims) s ps) = scan_conflicts s
     @ map (\<lambda>pa. DeletedConflict pa (if map_of (our_tree ts) pa = None then Ours else Theirs))
         (filter (\<lambda>pa. unclaimed ts kv claims pa \<and> one_deleted ts pa) ps)"
  by (induction ps arbitrary: s) (simp_all add: scan_path_facts)

section \<open>What a prepared merge went through\<close>

definition merge_reads :: "'o git_access \<Rightarrow> nat \<Rightarrow> 'o option \<Rightarrow> 'o \<Rightarrow> 'o \<Rightarrow> 'o trees \<Rightarrow> bool" where
  "merge_reads A n base head fetched ts \<longleftrightarrow>
     (case base of None \<Rightarrow> base_tree ts = [] | Some x \<Rightarrow> readTreeFiles A n (commitTree A x) = Some (base_tree ts))
     \<and> readTreeFiles A n (commitTree A head) = Some (our_tree ts) \<and> readTreeFiles A n (commitTree A fetched) = Some (their_tree ts)"

lemma prepareMerge_reads:
  "merge_reads A n base head fetched ts \<Longrightarrow>
    prepareMerge A n parse rule s base head fetched author msg = merge_trees A n parse rule s author msg (base = None) head fetched ts"
  by (cases ts; cases base) (simp_all add: merge_reads_def prepareMerge_def)

lemma finish_merge_prepared:
  assumes "finish_merge A n author msg unrelated head fetched overrides conflicts held_paths = Inr (PreparedMerge commit files)"
  shows "conflicts = [] \<and> held_paths = [] \<and> (\<exists>tree. mergeWith A n author unrelated head fetched overrides = Some (MergedTree tree)
      \<and> readTreeFiles A n tree = Some files \<and> commit = writeCommitObject A tree [head, fetched] msg author)
    \<and> (\<forall>(pa, blob)\<in>set overrides. map_option file_oid (map_of files pa) = blob)"
  using assms by (auto simp: finish_merge_def conflicted_def Let_def split: option.splits merge_answer.splits if_splits)

lemma prepared_merge_facts:
  assumes "merge_trees A n parse rule s author msg unrelated head fetched ts = Inr (PreparedMerge commit files, s')"
    and "c = claim_paths A rule ts s" and "kv = plan_kv A parse ts (claimed c)"
  shows "kv \<noteq> KvRefused" and "\<forall>t cs. kv = KvBoth t cs \<longrightarrow> cs = []" and "claim_held c = []"
    and "\<forall>pa\<in>set (all_paths ts). unclaimed ts kv (claimed c) pa \<longrightarrow>
          \<not> one_deleted ts pa \<and> list_all plain_entry (entries_at ts pa) \<and> text_path A ts pa"
    and "finish_merge A n author msg unrelated head fetched (merge_overrides A kv (claimed c)) [] [] = Inr (PreparedMerge commit files)"
proof -
  from assms show k: "kv \<noteq> KvRefused" by (auto simp: merge_trees_def Let_def split: if_splits)
  with assms have m: "merge_scanned A n author msg unrelated head fetched ts kv c = Inr (PreparedMerge commit files)"
    by (cases "merge_scanned A n author msg unrelated head fetched ts kv c") (auto simp: merge_trees_def Let_def)
  define sc where "sc = scan_paths ts kv (claimed c)"
  define conflicts where "conflicts = (case kv of KvBoth t cs \<Rightarrow> cs | _ \<Rightarrow> []) @ scan_conflicts sc
      @ map BinaryConflict (filter (\<lambda>pa. \<not> text_path A ts pa) (scan_texts sc)) @ map ShapeConflict (shape_paths (scan_present sc))"
  from m have sp: "filter (\<lambda>pa. \<not> list_all plain_entry (entries_at ts pa)) (scan_texts sc) = []"
    and f: "finish_merge A n author msg unrelated head fetched (merge_overrides A kv (claimed c)) conflicts (claim_held c)
        = Inr (PreparedMerge commit files)"
    unfolding merge_scanned_def sc_def [symmetric] Let_def conflicts_def by (auto simp: conflicted_def split: if_splits option.splits)
  from finish_merge_prepared [OF f] have e: "conflicts = []" "claim_held c = []" by auto
  show "claim_held c = []" by (rule e)
  from f e show "finish_merge A n author msg unrelated head fetched (merge_overrides A kv (claimed c)) [] [] = Inr (PreparedMerge commit files)"
    by simp
  from e(1) show "\<forall>t cs. kv = KvBoth t cs \<longrightarrow> cs = []" by (auto simp: conflicts_def)
  have t: "scan_texts sc = filter (\<lambda>pa. unclaimed ts kv (claimed c) pa \<and> \<not> one_deleted ts pa) (all_paths ts)"
    and d: "scan_conflicts sc = map (\<lambda>pa. DeletedConflict pa (if map_of (our_tree ts) pa = None then Ours else Theirs))
        (filter (\<lambda>pa. unclaimed ts kv (claimed c) pa \<and> one_deleted ts pa) (all_paths ts))"
    by (simp_all add: sc_def scan_paths_def scan_facts)
  show "\<forall>pa\<in>set (all_paths ts). unclaimed ts kv (claimed c) pa \<longrightarrow>
      \<not> one_deleted ts pa \<and> list_all plain_entry (entries_at ts pa) \<and> text_path A ts pa"
  proof (intro ballI impI)
    fix pa assume pa: "pa \<in> set (all_paths ts)" "unclaimed ts kv (claimed c) pa"
    have "scan_conflicts sc = []" "filter (\<lambda>pa. \<not> text_path A ts pa) (scan_texts sc) = []" using e(1) by (simp_all add: conflicts_def)
    then show "\<not> one_deleted ts pa \<and> list_all plain_entry (entries_at ts pa) \<and> text_path A ts pa"
      using pa sp unfolding t d by (auto simp: filter_empty_conv)
  qed
qed

section \<open>Both sides with the claims\<close>

definition path_ok :: "nat \<Rightarrow> jsstring \<Rightarrow> bool" where
  "path_ok n pa \<longleftrightarrow> [] \<notin> set (segments pa) \<and> length (segments pa) \<le> n"

lemma usable_paths: "usable n files \<Longrightarrow> map_of files pa \<noteq> None \<Longrightarrow> path_ok n pa"
  by (auto simp: usable_def path_ok_def dest!: map_of_SomeD)

lemma override_step:
  assumes "usable n files" "path_ok n pa"
  shows "usable n (case blob of None \<Rightarrow> AList.delete pa files | Some x \<Rightarrow> AList.update pa \<lparr>file_oid = x, file_mode = PLAIN\<rparr> files)"
proof (cases blob)
  case None
  have "set (AList.delete pa files) \<subseteq> set files" by (auto simp: AList.delete_eq)
  then show ?thesis using assms None by (auto simp: usable_def distinct_delete)
next
  case (Some x)
  have "set (AList.update pa v files) \<subseteq> insert (pa, v) (set files)" for v :: "'a tree_file"
    by (induction files) auto
  moreover have "PLAIN \<noteq> js ''040000''" by (simp add: PLAIN_def js_def)
  ultimately show ?thesis using assms Some unfolding usable_def path_ok_def by (fastforce simp: distinct_update)
qed

lemma override_files_facts:
  "usable n files \<Longrightarrow> \<forall>x\<in>set ov. path_ok n (fst x) \<Longrightarrow>
    usable n (override_files files ov)
    \<and> (\<forall>pa. pa \<notin> fst ` set ov \<longrightarrow> map_of (override_files files ov) pa = map_of files pa)"
proof (induction ov arbitrary: files)
  case (Cons x ov)
  obtain q blob where x: "x = (q, blob)" by force
  let ?files = "case blob of None \<Rightarrow> AList.delete q files | Some x \<Rightarrow> AList.update q \<lparr>file_oid = x, file_mode = PLAIN\<rparr> files"
  have e: "override_files files ((q, blob) # ov) = override_files ?files ov" by (simp add: override_files_def)
  have u: "usable n ?files" using Cons.prems by (intro override_step) (auto simp: x)
  have m: "map_of ?files pa = map_of files pa" if "pa \<noteq> q" for pa
    using that by (cases blob) (simp_all add: delete_conv' update_conv')
  show ?case using Cons.IH [OF u] Cons.prems m unfolding x e by auto
qed (simp add: override_files_def)

lemma child_reads:
  assumes "store_ok A" "0 < n" "usable n files" "readTreeFiles A n (commitTree A commit) = Some files"
    and "\<forall>x\<in>set ov. path_ok n (fst x)"
  obtains c again where "withOverrides A n author ov commit = Some (write_commit A c)" "commit_parents c = [commit]"
    "readTreeFiles A n (commitTree A (write_commit A c)) = Some again"
    "\<forall>pa. pa \<notin> fst ` set ov \<longrightarrow> map_of again pa = map_of files pa"
proof -
  let ?new = "override_files files ov"
  from override_files_facts [OF assms(3,5)] have u: "usable n ?new"
    and m: "\<And>pa. pa \<notin> fst ` set ov \<Longrightarrow> map_of ?new pa = map_of files pa" by auto
  from trees_read_back [OF assms(1,2) u] obtain again where
    again: "readTreeFiles A n (writeTreeFiles A ?new) = Some again" "map_of again = map_of ?new" by blast
  let ?msg = "js ''Merge with prepared paths''"
  let ?c = "\<lparr>commit_tree_oid = writeTreeFiles A ?new, commit_parents = [commit], commit_author = author, commit_time = git_clock A,
       commit_message = (if ends_with ?msg [10] then ?msg else ?msg @ [10])\<rparr>"
  have "withOverrides A n author ov commit = Some (write_commit A ?c)"
    by (simp add: withOverrides_def assms(4) writeCommitObject_def)
  moreover have "readTreeFiles A n (commitTree A (write_commit A ?c)) = Some again"
    using assms(1) again(1) by (simp add: store_ok_def commitTree_def)
  ultimately show thesis using again(2) m by (intro that [of ?c again]) simp_all
qed

text \<open>
  Git's rule: where one side is as the merge base, the merge has what the other side has, and what both sides have. The
  function tells the files of the merge base Git finds for two commits.
\<close>

definition git_keeps :: "'o git_access \<Rightarrow> nat \<Rightarrow> ('o \<Rightarrow> 'o \<Rightarrow> 'o tree_files) \<Rightarrow> bool" where
  "git_keeps A n base_of \<longleftrightarrow>
     (\<forall>x y u t fx fy ft pa. git_merge A x y u = MergedTree t \<longrightarrow> readTreeFiles A n (commitTree A x) = Some fx \<longrightarrow>
        readTreeFiles A n (commitTree A y) = Some fy \<longrightarrow> readTreeFiles A n t = Some ft \<longrightarrow>
        (map_of fx pa = map_of (base_of x y) pa \<longrightarrow> map_of ft pa = map_of fy pa)
        \<and> (map_of fy pa = map_of (base_of x y) pa \<longrightarrow> map_of ft pa = map_of fx pa)
        \<and> (map_of fx pa = map_of fy pa \<longrightarrow> map_of ft pa = map_of fx pa))"

lemma git_keeps_rule:
  assumes "git_keeps A n base_of" "git_merge A x y u = MergedTree t" "readTreeFiles A n (commitTree A x) = Some fx"
    "readTreeFiles A n (commitTree A y) = Some fy" "readTreeFiles A n t = Some ft" and "map_of (base_of x y) = map_of b"
    and "map_of fx pa = map_of l pa" "map_of fy pa = map_of r pa"
    and "map_of l pa = map_of r pa \<or> map_of l pa = map_of b pa \<or> map_of r pa = map_of b pa"
  shows "map_of ft pa = (if map_of l pa = map_of b pa then map_of r pa else map_of l pa)"
proof -
  from assms(1-5) have "(map_of fx pa = map_of (base_of x y) pa \<longrightarrow> map_of ft pa = map_of fy pa)
        \<and> (map_of fy pa = map_of (base_of x y) pa \<longrightarrow> map_of ft pa = map_of fx pa)
        \<and> (map_of fx pa = map_of fy pa \<longrightarrow> map_of ft pa = map_of fx pa)" unfolding git_keeps_def by blast
  with assms(6-9) show ?thesis by auto
qed

lemma override_paths:
  "fst ` set (merge_overrides A kv claims) = fst ` set claims \<union> (case kv of KvBoth t cs \<Rightarrow> {ROOT_KV} | _ \<Rightarrow> {})"
  by (cases kv) (force simp: merge_overrides_def image_iff)+

lemma plan_kv_changed: "plan_kv A parse ts claims = KvBoth t cs \<Longrightarrow> both_changed ts ROOT_KV \<and> map_of claims ROOT_KV = None"
  by (auto simp: plan_kv_def split: if_splits)

lemma override_paths_changed:
  assumes "pa \<in> fst ` set (merge_overrides A (plan_kv A parse ts (claimed (claim_paths A rule ts s))) (claimed (claim_paths A rule ts s)))"
  shows "both_changed ts pa"
proof (cases "pa \<in> fst ` set (claimed (claim_paths A rule ts s))")
  case True
  then show ?thesis using claims_both_changed [of A rule ts s pa] by (simp add: map_of_eq_None_iff)
next
  case False
  with assms obtain t cs where "plan_kv A parse ts (claimed (claim_paths A rule ts s)) = KvBoth t cs" "pa = ROOT_KV"
    unfolding override_paths by (auto split: kv_plan.splits)
  then show ?thesis using plan_kv_changed by blast
qed

lemma both_changed_ok: "both_changed ts pa \<Longrightarrow> usable n (our_tree ts) \<Longrightarrow> usable n (their_tree ts) \<Longrightarrow> path_ok n pa"
proof -
  assume b: "both_changed ts pa" and u: "usable n (our_tree ts)" "usable n (their_tree ts)"
  have "map_of (our_tree ts) pa \<noteq> None \<or> map_of (their_tree ts) pa \<noteq> None" using b by (auto simp: both_changed_def)
  with usable_paths u show ?thesis by blast
qed

lemma merged_one_sided:
  assumes "store_ok A" "0 < n" and reads: "merge_reads A n base head fetched ts"
    and us: "usable n (our_tree ts)" and th: "usable n (their_tree ts)" and keeps: "git_keeps A n base_of"
    and bases: "map_of (base_of head fetched) = map_of (base_tree ts)"
    and children: "\<forall>cx cy. commit_parents cx = [head] \<longrightarrow> commit_parents cy = [fetched] \<longrightarrow>
        map_of (base_of (write_commit A cx) (write_commit A cy)) = map_of (base_tree ts)"
    and ov: "\<forall>x\<in>set ov. both_changed ts (fst x)"
    and m: "mergeWith A n author unrelated head fetched ov = Some (MergedTree tree)" and rd: "readTreeFiles A n tree = Some files"
    and pa: "\<not> both_changed ts pa"
  shows "map_of files pa = (if map_of (our_tree ts) pa = map_of (base_tree ts) pa then map_of (their_tree ts) pa else map_of (our_tree ts) pa)"
proof -
  have ro: "readTreeFiles A n (commitTree A head) = Some (our_tree ts)" and rt: "readTreeFiles A n (commitTree A fetched) = Some (their_tree ts)"
    using reads by (simp_all add: merge_reads_def)
  have d: "map_of (our_tree ts) pa = map_of (their_tree ts) pa \<or> map_of (our_tree ts) pa = map_of (base_tree ts) pa
      \<or> map_of (their_tree ts) pa = map_of (base_tree ts) pa" using pa by (auto simp: both_changed_def)
  have ok: "\<forall>x\<in>set ov. path_ok n (fst x)" using ov both_changed_ok us th by blast
  have out: "pa \<notin> fst ` set ov" using ov pa by auto
  show ?thesis
  proof (cases "ov = []")
    case True
    then have "git_merge A head fetched unrelated = MergedTree tree" using m by (simp add: mergeWith_def)
    then show ?thesis using ro rt rd bases by (rule git_keeps_rule [OF keeps]) (rule refl refl d)+
  next
    case False
    obtain cx fx where x: "withOverrides A n author ov head = Some (write_commit A cx)" "commit_parents cx = [head]"
      "readTreeFiles A n (commitTree A (write_commit A cx)) = Some fx"
      "\<forall>pa. pa \<notin> fst ` set ov \<longrightarrow> map_of fx pa = map_of (our_tree ts) pa" by (rule child_reads [OF assms(1,2) us ro ok, of author])
    obtain cy fy where y: "withOverrides A n author ov fetched = Some (write_commit A cy)" "commit_parents cy = [fetched]"
      "readTreeFiles A n (commitTree A (write_commit A cy)) = Some fy"
      "\<forall>pa. pa \<notin> fst ` set ov \<longrightarrow> map_of fy pa = map_of (their_tree ts) pa" by (rule child_reads [OF assms(1,2) th rt ok, of author])
    have "git_merge A (write_commit A cx) (write_commit A cy) unrelated = MergedTree tree"
      using m False by (simp add: mergeWith_def x(1) y(1))
    moreover have "map_of (base_of (write_commit A cx) (write_commit A cy)) = map_of (base_tree ts)" using children x(2) y(2) by blast
    ultimately show ?thesis using x(3) y(3) rd x(4) [rule_format, OF out] y(4) [rule_format, OF out] d by (intro git_keeps_rule [OF keeps])
  qed
qed

lemma mergeKv_conflicts: "mergeKv parse vb vo vt \<noteq> Conflict []"
  by (auto simp: mergeKv_def reconcileKv_def merge_members_def Let_def split: if_splits prod.splits)

lemma merge_kv_files_conflicts: "merge_kv_files A parse ts \<noteq> Conflict []"
  using mergeKv_conflicts by (auto simp: merge_kv_files_def split: option.splits)

lemma plan_kv_merged: "plan_kv A parse ts claims = KvBoth t [] \<Longrightarrow> \<exists>x. merge_kv_files A parse ts = Merged x \<and> t = map_option text_encode x"
  using merge_kv_files_conflicts [of A parse ts] by (auto simp: plan_kv_def split: if_splits kv_merge.splits)

lemma claimed_distinct: "distinct (map fst (claimed c)) \<Longrightarrow> distinct (map fst (claimed (foldl (claim_path A f ts) c ps)))"
proof (induction ps arbitrary: c)
  case (Cons pa ps)
  have "distinct (map fst (claimed (claim_path A f ts c pa)))"
    using Cons.prems unfolding claim_path_def by (auto simp: distinct_update split: option.splits prod.splits path_merge.splits)
  with Cons.IH show ?case by simp
qed simp

lemma claims_distinct: "distinct (map fst (claimed (claim_paths A rule ts s)))"
  by (cases rule) (simp_all add: claim_paths_def Let_def claimed_distinct)

lemma merged_both_changed:
  assumes "merge_trees A n parse rule s author msg unrelated head fetched ts = Inr (PreparedMerge commit files, s')"
    and c: "c = claim_paths A rule ts s" and both: "both_changed ts pa"
  shows "case map_of (claimed c) pa of
      Some t \<Rightarrow> map_option file_oid (map_of files pa) = map_option (write_blob A) t
    | None \<Rightarrow>
        if pa = ROOT_KV
        then \<exists>t. merge_kv_files A parse ts = Merged t
          \<and> map_option file_oid (map_of files pa) = map_option (\<lambda>x. write_blob A (text_encode x)) t
        else map_of (our_tree ts) pa \<noteq> None \<and> map_of (their_tree ts) pa \<noteq> None
          \<and> list_all plain_entry (entries_at ts pa) \<and> text_path A ts pa"
proof -
  define kv where "kv = plan_kv A parse ts (claimed c)"
  note facts = prepared_merge_facts [OF assms(1) c kv_def]
  from finish_merge_prepared [OF facts(5)] have held: "\<forall>(q, blob)\<in>set (merge_overrides A kv (claimed c)). map_option file_oid (map_of files q) = blob"
    by (elim conjE)
  show ?thesis
  proof (cases "map_of (claimed c) pa")
    case (Some t)
    then have "(pa, map_option (write_blob A) t) \<in> set (merge_overrides A kv (claimed c))"
      by (force simp: merge_overrides_def dest: map_of_SomeD)
    with held Some show ?thesis by auto
  next
    case None
    show ?thesis
    proof (cases "pa = ROOT_KV")
      case True
      then obtain t cs where k: "kv = KvBoth t cs"
        using facts(1) None both unfolding kv_def plan_kv_def by (auto split: if_splits kv_merge.splits)
      then have t: "kv = KvBoth t []" using facts(2) by blast
      from plan_kv_merged [OF t [unfolded kv_def]] obtain x where x: "merge_kv_files A parse ts = Merged x" "t = map_option text_encode x" by blast
      have "(ROOT_KV, map_option (write_blob A) t) \<in> set (merge_overrides A kv (claimed c))" by (simp add: merge_overrides_def t)
      from bspec [OF held this] have "map_option file_oid (map_of files pa) = map_option (write_blob A) t" using True by simp
      then show ?thesis using None True x by (simp add: option.map_comp comp_def)
    next
      case False
      then have "unclaimed ts kv (claimed c) pa" using None both by (simp add: unclaimed_def)
      then show ?thesis using facts(4) both_changed_path [OF both] None False by (simp add: one_deleted_def)
    qed
  qed
qed

section \<open>What the rule answered\<close>

lemma ask_rule_paths: "fst ` set (ask_rule A f ts s ps) \<subseteq> set ps"
  by (induction ps arbitrary: s) (auto split: option.splits)

definition answer_claims :: "path_merge option \<Rightarrow> bytes option \<Rightarrow> bytes option option \<Rightarrow> bytes option option" where
  "answer_claims r ours old = (case r of None \<Rightarrow> old | Some (MergedPath t) \<Rightarrow> Some (map_option text_encode t) | Some HeldPath \<Rightarrow> Some ours)"

lemma claims_of_answers:
  "distinct ps \<Longrightarrow>
    claim_held (foldl (claim_path A f ts) c ps)
      = claim_held c @ map fst (filter (\<lambda>x. snd x = Some HeldPath) (ask_rule A f ts (claim_state c) ps))
    \<and> (\<forall>pa. map_of (claimed (foldl (claim_path A f ts) c ps)) pa =
         (case map_of (ask_rule A f ts (claim_state c) ps) pa of
            None \<Rightarrow> map_of (claimed c) pa
          | Some r \<Rightarrow> answer_claims r (our_bytes A ts pa) (map_of (claimed c) pa)))"
proof (induction ps arbitrary: c)
  case (Cons pa ps)
  show ?case
  proof (cases "offered_versions A ts pa")
    case None
    then have "claim_path A f ts c pa = c" by (simp add: claim_path_def)
    with Cons None show ?thesis by simp
  next
    case (Some v)
    let ?c = "claim_path A f ts c pa"
    obtain s' r where r: "f (claim_state c) pa v = (s', r)" by fastforce
    have c: "claim_state ?c = s'" "claim_held ?c = claim_held c @ (if r = Some HeldPath then [pa] else [])"
      "map_of (claimed ?c) q = (if q = pa then answer_claims r (our_bytes A ts pa) (map_of (claimed c) pa) else map_of (claimed c) q)" for q
      by (cases r; cases "the r"; simp add: claim_path_def Some r update_conv' answer_claims_def)+
    have a: "ask_rule A f ts (claim_state c) (pa # ps) = (pa, r) # ask_rule A f ts s' ps" by (simp add: Some r)
    have out: "map_of (ask_rule A f ts s' ps) pa = None"
      using Cons.prems ask_rule_paths [of A f ts s' ps] by (auto simp: map_of_eq_None_iff)
    have dist: "distinct ps" using Cons.prems by simp
    note ih = Cons.IH [OF dist, of ?c, unfolded c(1)]
    show ?thesis
    proof (intro conjI allI)
      show "claim_held (foldl (claim_path A f ts) c (pa # ps))
          = claim_held c @ map fst (filter (\<lambda>x. snd x = Some HeldPath) (ask_rule A f ts (claim_state c) (pa # ps)))"
        unfolding a using conjunct1 [OF ih] c(2) by simp
      show "map_of (claimed (foldl (claim_path A f ts) c (pa # ps))) q =
          (case map_of (ask_rule A f ts (claim_state c) (pa # ps)) q of
             None \<Rightarrow> map_of (claimed c) q
           | Some r \<Rightarrow> answer_claims r (our_bytes A ts q) (map_of (claimed c) q))" for q
        unfolding a using spec [OF conjunct2 [OF ih], of q] c(3) [of q] out
        by (cases "q = pa"; cases "map_of (ask_rule A f ts s' ps) q") simp_all
    qed
  qed
qed simp

lemma claims_answered:
  assumes "claim_held (claim_paths A rule ts s) = []"
  shows "case map_of (rule_answers A rule ts s) pa of
      Some (Some (MergedPath t)) \<Rightarrow> map_of (claimed (claim_paths A rule ts s)) pa = Some (map_option text_encode t)
    | Some (Some HeldPath) \<Rightarrow> False
    | _ \<Rightarrow> map_of (claimed (claim_paths A rule ts s)) pa = None"
proof (cases rule)
  case None
  then show ?thesis by (simp add: rule_answers_def claim_paths_def Let_def)
next
  case (Some f)
  define start where "start = \<lparr>claim_state = s, claimed = [], claim_held = []\<rparr>"
  have dist: "distinct (all_paths ts)" by (simp add: all_paths_def as_set_def)
  note g = claims_of_answers [OF dist, of A f ts start]
  have e: "claim_paths A rule ts s = foldl (claim_path A f ts) start (all_paths ts)"
    by (simp add: claim_paths_def Let_def Some start_def)
  have a: "rule_answers A rule ts s = ask_rule A f ts (claim_state start) (all_paths ts)" by (simp add: rule_answers_def Some start_def)
  have held: "filter (\<lambda>x. snd x = Some HeldPath) (rule_answers A rule ts s) = []"
    using conjunct1 [OF g] assms unfolding e a by simp
  have m: "map_of (claimed (claim_paths A rule ts s)) pa = (case map_of (rule_answers A rule ts s) pa of
      None \<Rightarrow> None | Some r \<Rightarrow> answer_claims r (our_bytes A ts pa) None)"
  proof -
    have "claimed start = []" by (simp add: start_def)
    then have "map_of (claimed start) pa = None" by simp
    from spec [OF conjunct2 [OF g], of pa, unfolded this] show ?thesis unfolding e a .
  qed
  show ?thesis
  proof (cases "map_of (rule_answers A rule ts s) pa")
    case None
    with m show ?thesis by simp
  next
    case (Some r)
    then have "r \<noteq> Some HeldPath" using held by (force simp: filter_empty_conv dest!: map_of_SomeD)
    with m Some show ?thesis by (cases r; cases "the r") (simp_all add: answer_claims_def)
  qed
qed

section \<open>Claims of sync\<close>

definition sync_rule :: "sync_env \<Rightarrow> (jsstring \<times> jsstring option) list \<Rightarrow> ((jsstring \<times> held) list) merge_rule" where
  "sync_rule e texts hs pa v = (let (hs', m) = mergePath e texts pa v hs in (hs', Some m))"

definition offers :: "'o git_access \<Rightarrow> 'o trees \<Rightarrow> jsstring list \<Rightarrow> (jsstring \<times> row_versions) list" where
  "offers A ts ps = concat (map (\<lambda>pa. case offered_versions A ts pa of None \<Rightarrow> [] | Some v \<Rightarrow> [(pa, v)]) ps)"

lemma offers_paths: "map fst (offers A ts ps) = filter (\<lambda>pa. offered_versions A ts pa \<noteq> None) ps"
  by (induction ps) (auto simp: offers_def split: option.split)

lemma merge_paths_keys: "merge_paths e texts ps hs = (hs', ms) \<Longrightarrow> map fst ms = map fst ps"
proof (induction ps arbitrary: hs ms)
  case (Cons x ps)
  then show ?case by (cases x) (auto split: prod.splits)
qed simp

lemma sync_claims:
  "merge_paths e texts (offers A ts ps) (claim_state c) = (hs, ms) \<Longrightarrow> distinct ps \<Longrightarrow>
    claim_state (foldl (claim_path A (sync_rule e texts) ts) c ps) = hs
    \<and> claim_held (foldl (claim_path A (sync_rule e texts) ts) c ps) = claim_held c @ map fst (filter (\<lambda>x. snd x = HeldPath) ms)
    \<and> (\<forall>pa. map_of (claimed (foldl (claim_path A (sync_rule e texts) ts) c ps)) pa =
         (case map_of ms pa of
            None \<Rightarrow> map_of (claimed c) pa
          | Some (MergedPath t) \<Rightarrow> Some (map_option text_encode t)
          | Some HeldPath \<Rightarrow> Some (our_bytes A ts pa)))"
proof (induction ps arbitrary: c ms)
  case Nil
  then show ?case by (simp add: offers_def)
next
  case (Cons pa ps)
  show ?case
  proof (cases "offered_versions A ts pa")
    case None
    then have "claim_path A (sync_rule e texts) ts c pa = c" "offers A ts (pa # ps) = offers A ts ps"
      by (simp_all add: claim_path_def offers_def)
    then show ?thesis using Cons.IH [of c ms] Cons.prems by simp
  next
    case (Some v)
    let ?c = "claim_path A (sync_rule e texts) ts c pa"
    obtain h1 m where m: "mergePath e texts pa v (claim_state c) = (h1, m)" by fastforce
    have o: "offers A ts (pa # ps) = (pa, v) # offers A ts ps" by (simp add: offers_def Some)
    obtain ms' where r: "merge_paths e texts (offers A ts ps) h1 = (hs, ms')" "ms = (pa, m) # ms'"
      using Cons.prems(1) by (auto simp: o m split: prod.splits)
    have c: "claim_state ?c = h1" "claim_held ?c = claim_held c @ (if m = HeldPath then [pa] else [])"
      "map_of (claimed ?c) = (map_of (claimed c))(pa \<mapsto> (case m of MergedPath t \<Rightarrow> map_option text_encode t | HeldPath \<Rightarrow> our_bytes A ts pa))"
      by (cases m; simp add: claim_path_def Some sync_rule_def m update_conv')+
    have "map fst ms' = map fst (offers A ts ps)" using r(1) by (rule merge_paths_keys)
    then have "map_of ms' pa = None" using Cons.prems(2) by (auto simp: map_of_eq_None_iff offers_paths simp flip: list.set_map)
    then show ?thesis using Cons.IH [of ?c ms'] r Cons.prems(2) by (cases m) (auto simp: c split: option.splits)
  qed
qed

lemma sync_claims_all:
  assumes "merge_paths e texts (offers A ts (all_paths ts)) [] = (hs, ms)" and c: "c = claim_paths A (Some (sync_rule e texts)) ts []"
  shows "claim_state c = hs" and "claim_held c = map fst (filter (\<lambda>x. snd x = HeldPath) ms)"
    and "\<forall>pa. map_of (claimed c) pa = (case map_of ms pa of None \<Rightarrow> None | Some (MergedPath t) \<Rightarrow> Some (map_option text_encode t)
        | Some HeldPath \<Rightarrow> Some (our_bytes A ts pa))"
proof -
  define start :: "((jsstring \<times> held) list) claims" where "start = \<lparr>claim_state = [], claimed = [], claim_held = []\<rparr>"
  have dist: "distinct (all_paths ts)" by (simp add: all_paths_def as_set_def)
  have "merge_paths e texts (offers A ts (all_paths ts)) (claim_state start) = (hs, ms)" using assms(1) by (simp add: start_def)
  note g = sync_claims [OF this dist]
  have e: "c = foldl (claim_path A (sync_rule e texts) ts) start (all_paths ts)" by (simp add: c claim_paths_def Let_def start_def)
  show "claim_state c = hs" unfolding e using g by (rule conjunct1)
  show "claim_held c = map fst (filter (\<lambda>x. snd x = HeldPath) ms)" using g unfolding e [symmetric] by (simp add: start_def)
  show "\<forall>pa. map_of (claimed c) pa = (case map_of ms pa of None \<Rightarrow> None | Some (MergedPath t) \<Rightarrow> Some (map_option text_encode t)
        | Some HeldPath \<Rightarrow> Some (our_bytes A ts pa))"
  proof
    fix pa
    have "map_of (claimed c) pa = (case map_of ms pa of None \<Rightarrow> map_of (claimed start) pa
        | Some (MergedPath t) \<Rightarrow> Some (map_option text_encode t) | Some HeldPath \<Rightarrow> Some (our_bytes A ts pa))"
      using g unfolding e [symmetric] by (elim conjE) (erule allE [where x = pa])
    then show "map_of (claimed c) pa = (case map_of ms pa of None \<Rightarrow> None | Some (MergedPath t) \<Rightarrow> Some (map_option text_encode t)
        | Some HeldPath \<Rightarrow> Some (our_bytes A ts pa))" by (cases "map_of ms pa") (simp_all add: start_def)
  qed
qed

lemma settled_claims:
  assumes c: "c = claim_paths A (Some (sync_rule e [])) ts []"
    and settled: "settle_attempt e (make_attempt e uuid cm (claim_state c)) h choices = SettledTexts texts"
    and d: "d = claim_paths A (Some (sync_rule e texts)) ts []"
  shows "claim_held d = []"
    and "\<forall>pa. map_of (claimed d) pa =
           (if pa \<in> set (claim_held c) then Some (map_option text_encode (the (map_of texts pa))) else map_of (claimed c) pa)"
proof -
  let ?ps = "all_paths ts"
  obtain hs ms where m: "merge_paths e [] (offers A ts ?ps) [] = (hs, ms)" by fastforce
  note c' = sync_claims_all [OF m c]
  let ?f = "\<lambda>(p, m). (p, case m of HeldPath \<Rightarrow> MergedPath (the (map_of texts p)) | MergedPath t \<Rightarrow> MergedPath t)"
  have keys: "distinct (map fst (offers A ts ?ps))" by (simp add: offers_paths all_paths_def as_set_def)
  from settled_merge [OF m keys settled [unfolded c'(1)]]
  have m': "merge_paths e texts (offers A ts ?ps) [] = ([], map ?f ms)" .
  note d'' = sync_claims_all [OF m' d]
  note d' = d''(2,3)
  show "claim_held d = []" unfolding d'(1) by (auto simp: filter_empty_conv split: path_merge.splits)
  have ms: "distinct (map fst ms)" using merge_paths_keys [OF m] keys by simp
  have mf: "map_of (map ?f ms) pa = map_option (\<lambda>m. case m of HeldPath \<Rightarrow> MergedPath (the (map_of texts pa)) | MergedPath t \<Rightarrow> MergedPath t) (map_of ms pa)" for pa
    by (induction ms) (auto split: path_merge.split)
  have held: "pa \<in> set (claim_held c) \<longleftrightarrow> map_of ms pa = Some HeldPath" for pa
    unfolding c'(2) using ms by (force simp: image_iff)
  show "\<forall>pa. map_of (claimed d) pa =
      (if pa \<in> set (claim_held c) then Some (map_option text_encode (the (map_of texts pa))) else map_of (claimed c) pa)"
  proof
    fix pa
    have d2: "map_of (claimed d) pa = (case map_of (map ?f ms) pa of None \<Rightarrow> None | Some (MergedPath t) \<Rightarrow> Some (map_option text_encode t)
        | Some HeldPath \<Rightarrow> Some (our_bytes A ts pa))" using d'(2) by (rule spec)
    have c2: "map_of (claimed c) pa = (case map_of ms pa of None \<Rightarrow> None | Some (MergedPath t) \<Rightarrow> Some (map_option text_encode t)
        | Some HeldPath \<Rightarrow> Some (our_bytes A ts pa))" using c'(3) by (rule spec)
    show "map_of (claimed d) pa =
        (if pa \<in> set (claim_held c) then Some (map_option text_encode (the (map_of texts pa))) else map_of (claimed c) pa)"
      unfolding d2 c2 held mf by (cases "map_of ms pa") (auto split: path_merge.split)
  qed
qed

lemma conflicted_held:
  assumes "merge_trees A n parse rule s author msg unrelated head fetched ts = Inr (PreparedConflicts cs hp, s')"
  shows "hp = sort_by byCodePoint (claim_held (claim_paths A rule ts s))"
  using assms
  by (auto simp: merge_trees_def merge_scanned_def finish_merge_def conflicted_def Let_def map_sum_def
      split: if_splits sum.splits option.splits merge_answer.splits)

section \<open>Properties\<close>

text \<open>
  Claim C10 (one_sided_changes_are_kept). A merge that is prepared keeps every one-sided change as Git would: a path that one side left as it is at the merge
  base has exactly what the other side has, whatever was claimed or merged by key elsewhere in the two trees. The
  commit has the two original commits as its parents. Git's merge keeps one-sided changes, and the children that
  carry the claims have the merge base of their parents.
\<close>

theorem one_sided_changes_are_kept:
  assumes "store_ok A" and "0 < n" and "merge_reads A n base head fetched ts"
    and "usable n (our_tree ts)" and "usable n (their_tree ts)" and "git_keeps A n base_of"
    and "map_of (base_of head fetched) = map_of (base_tree ts)"
    and "\<forall>cx cy. commit_parents cx = [head] \<longrightarrow> commit_parents cy = [fetched] \<longrightarrow>
        map_of (base_of (write_commit A cx) (write_commit A cy)) = map_of (base_tree ts)"
    and "prepareMerge A n parse rule s base head fetched author msg = Inr (PreparedMerge commit files, s')"
  shows "(\<forall>pa. \<not> both_changed ts pa \<longrightarrow> map_of files pa =
        (if map_of (our_tree ts) pa = map_of (base_tree ts) pa then map_of (their_tree ts) pa else map_of (our_tree ts) pa))
    \<and> (\<exists>tree. commit = writeCommitObject A tree [head, fetched] msg author \<and> readTreeFiles A n tree = Some files)"
proof -
  have m: "merge_trees A n parse rule s author msg (base = None) head fetched ts = Inr (PreparedMerge commit files, s')"
    using assms(9) unfolding prepareMerge_reads [OF assms(3)] .
  define c where "c = claim_paths A rule ts s"
  define kv where "kv = plan_kv A parse ts (claimed c)"
  from finish_merge_prepared [OF prepared_merge_facts(5) [OF m c_def kv_def]] obtain tree where
    tree: "mergeWith A n author (base = None) head fetched (merge_overrides A kv (claimed c)) = Some (MergedTree tree)"
      "readTreeFiles A n tree = Some files" "commit = writeCommitObject A tree [head, fetched] msg author" by blast
  have ov: "\<forall>x\<in>set (merge_overrides A kv (claimed c)). both_changed ts (fst x)"
  proof
    fix x assume "x \<in> set (merge_overrides A kv (claimed c))"
    then have "fst x \<in> fst ` set (merge_overrides A kv (claimed c))" by (rule imageI)
    then show "both_changed ts (fst x)" unfolding kv_def c_def by (rule override_paths_changed)
  qed
  note one = merged_one_sided [OF assms(1-8) ov tree(1,2)]
  show ?thesis
  proof (intro conjI allI impI)
    show "map_of files pa = (if map_of (our_tree ts) pa = map_of (base_tree ts) pa then map_of (their_tree ts) pa else map_of (our_tree ts) pa)"
      if "\<not> both_changed ts pa" for pa using that by (rule one)
    show "\<exists>tree. commit = writeCommitObject A tree [head, fetched] msg author \<and> readTreeFiles A n tree = Some files"
      using tree(2,3) by blast
  qed
qed

text \<open>
  Claim C11 (both_changed_paths_are_settled). A path both sides changed is never settled in silence. The
  rule is asked, in turn, about every such path that it is offered; when the merge is prepared, it
  answered none of them with "held", and a path it answered with a text has that text, or is
  gone where it answered none. Of the others, root \<^verbatim>\<open>kv.json\<close> has the merge of its keys, and
  whatever is left to Git is on both sides and all its versions are plain files whose bytes the
  line merge reads back exactly.
\<close>

theorem both_changed_paths_are_settled:
  assumes "merge_reads A n base head fetched ts"
    and "prepareMerge A n parse rule s base head fetched author msg = Inr (PreparedMerge commit files, s')"
    and "both_changed ts pa"
  shows "case map_of (rule_answers A rule ts s) pa of
      Some (Some (MergedPath t)) \<Rightarrow> map_option file_oid (map_of files pa) = map_option (\<lambda>x. write_blob A (text_encode x)) t
    | Some (Some HeldPath) \<Rightarrow> False
    | _ \<Rightarrow>
        if pa = ROOT_KV
        then \<exists>t. merge_kv_files A parse ts = Merged t
          \<and> map_option file_oid (map_of files pa) = map_option (\<lambda>x. write_blob A (text_encode x)) t
        else map_of (our_tree ts) pa \<noteq> None \<and> map_of (their_tree ts) pa \<noteq> None
          \<and> list_all plain_entry (entries_at ts pa) \<and> text_path A ts pa"
proof -
  note m = assms(2) [unfolded prepareMerge_reads [OF assms(1)]]
  note both = merged_both_changed [OF m refl assms(3)]
  note answered = claims_answered [OF prepared_merge_facts(3) [OF m refl refl], of pa]
  show ?thesis
  proof (cases "map_of (rule_answers A rule ts s) pa")
    case None
    with both answered show ?thesis by simp
  next
    case (Some r)
    show ?thesis
    proof (cases r)
      case None
      with both answered Some show ?thesis by simp
    next
      case merged: (Some p)
      with both answered Some show ?thesis by (cases p) (simp_all add: option.map_comp comp_def)
    qed
  qed
qed

text \<open>
  Claim C12 (settled_paths_are_not_held_again). Once a person settled what a merge held, preparing it again holds nothing: each held path is claimed with its settled
  text, every other claim is what it was, and a merge that is still conflicted has conflicts of Git's rules only.
\<close>

theorem settled_paths_are_not_held_again:
  assumes "settle_attempt e (make_attempt e uuid cm (claim_state (claim_paths A (Some (sync_rule e [])) ts []))) h choices = SettledTexts texts"
    and "merge_reads A n base head fetched ts"
  shows "(\<forall>cs hp s'. prepareMerge A n parse (Some (sync_rule e texts)) [] base head fetched author msg = Inr (PreparedConflicts cs hp, s') \<longrightarrow> hp = [])
    \<and> claim_held (claim_paths A (Some (sync_rule e texts)) ts []) = []
    \<and> (\<forall>pa. map_of (claimed (claim_paths A (Some (sync_rule e texts)) ts [])) pa =
         (if pa \<in> set (claim_held (claim_paths A (Some (sync_rule e [])) ts []))
          then Some (map_option text_encode (the (map_of texts pa)))
          else map_of (claimed (claim_paths A (Some (sync_rule e [])) ts [])) pa))"
proof -
  note settled = settled_claims [OF refl assms(1) refl]
  have "hp = []" if "prepareMerge A n parse (Some (sync_rule e texts)) [] base head fetched author msg = Inr (PreparedConflicts cs hp, s')" for cs hp s'
    using conflicted_held [OF that [unfolded prepareMerge_reads [OF assms(2)]]] settled(1) by simp
  with settled show ?thesis by blast
qed

text \<open>
  Claim C30 (text_merges_keep_bytes). Bytes are merged as text exactly when they are UTF-8 without a NUL byte, a line or paragraph separator or a carriage
  return that no line feed follows.
\<close>

theorem text_merges_keep_bytes:
  "mergesAsText bs \<longleftrightarrow> 0 \<notin> set bs \<and> (\<exists>t. strict_decode bs = Some t \<and> 0x2028 \<notin> set t \<and> 0x2029 \<notin> set t
     \<and> (\<forall>xs ys. t = xs @ 13 # ys \<longrightarrow> ys \<noteq> [] \<and> hd ys = 10))"
  by (rule mergesAsText_spec)

section \<open>Examples\<close>

lemma ascii_claimable:
  assumes "\<forall>c\<in>set s. 0 < c \<and> c < 128"
  shows "0 \<notin> set (text_encode s)" "strict_decode (text_encode s) = Some s"
proof -
  have b: "map unat (text_encode s) = s" using binary_ascii assms unfolding binary_def by blast
  show "0 \<notin> set (text_encode s)"
  proof
    assume "0 \<in> set (text_encode s)"
    then have "0 \<in> set (map unat (text_encode s))" by force
    then show False using assms unfolding b by auto
  qed
  have "well_formed s" using assms
    by (induction s rule: to_scalars.induct) (auto simp: high_surrogate_def low_surrogate_def)
  then show "strict_decode (text_encode s) = Some s" by (rule strict_decode_well_formed)
qed

theorem text_merges_keep_bytes_witness:
  "mergesAsText (text_encode [97, 13, 10]) \<and> \<not> mergesAsText (text_encode [97, 13])"
proof -
  have d: "0 \<notin> set (text_encode [97, 13, 10])" "strict_decode (text_encode [97, 13, 10]) = Some [97, 13, 10]"
    "strict_decode (text_encode [97, 13]) = Some [97, 13]"
    by (rule ascii_claimable, simp)+
  have "\<forall>xs ys. [97, 13, 10] = xs @ 13 # ys \<longrightarrow> ys \<noteq> [] \<and> hd ys = (10::nat)" by (auto simp: Cons_eq_append_conv)
  then have "mergesAsText (text_encode [97, 13, 10])" unfolding text_merges_keep_bytes [of "text_encode [97, 13, 10]"] using d by simp
  moreover have "[97, 13] = [97] @ 13 # ([] :: nat list)" by simp
  then have "\<not> mergesAsText (text_encode [97, 13])" unfolding text_merges_keep_bytes [of "text_encode [97, 13]"] d(3) by blast
  ultimately show ?thesis by blast
qed

text \<open>Two commits without a common one, each adding \<^verbatim>\<open>list.txt\<close>, with the file they share.\<close>

definition text_file :: "string \<Rightarrow> git_object tree_file" where
  "text_file t = \<lparr>file_oid = BlobObject (text_encode (js t)), file_mode = PLAIN\<rparr>"

definition list_trees :: "git_object trees" where
  "list_trees = \<lparr>base_tree = [], our_tree = [(js ''keep.md'', text_file ''k''), (lost_path, text_file ''a'')],
     their_tree = [(js ''keep.md'', text_file ''k''), (lost_path, text_file ''b'')]\<rparr>"

definition join_rule :: "unit merge_rule" where
  "join_rule s pa v = (s, Some (MergedPath (case (vours v, vtheirs v) of (Some l, Some r) \<Rightarrow> Some (l @ r) | _ \<Rightarrow> None)))"

definition list_tree :: "string \<Rightarrow> git_object" where
  "list_tree t = TreeObject
     [(js ''keep.md'', PLAIN, BlobObject (text_encode (js ''k''))), (lost_path, PLAIN, BlobObject (text_encode (js t)))]"

lemma list_facts:
  "js ''keep.md'' \<noteq> lost_path" "lost_path \<noteq> js ''keep.md''" "type_of_mode PLAIN = BlobEntry" "PLAIN \<noteq> js ''160000''"
  "ROOT_KV \<noteq> lost_path" "ROOT_KV \<noteq> js ''keep.md''" "segments (js ''keep.md'') = [js ''keep.md'']" "segments lost_path = [lost_path]"
  "ancestors (js ''keep.md'') = []" "ancestors lost_path = []"
  "\<not> isAttributesPath (js ''keep.md'')" "\<not> isAttributesPath lost_path" "js ''keep.md'' \<noteq> []" "lost_path \<noteq> []" "PLAIN \<noteq> js ''040000''"
  by code_simp+

lemma text_file_eq: "text_file t = text_file u \<longleftrightarrow> BlobObject (text_encode (js t)) = BlobObject (text_encode (js u))"
  by (simp add: text_file_def)

lemma list_tree_reads:
  "readTreeFiles memory_access 1 (list_tree t) = Some [(js ''keep.md'', text_file ''k''), (lost_path, text_file t)]"
  using list_facts by (simp add: readTreeFiles_def memory_access_def list_tree_def object_entry_def entry_at_def text_file_def)

lemma list_tree_written:
  "writeTreeFiles memory_access [(js ''keep.md'', text_file ''k''), (lost_path, text_file t)] = list_tree t"
  using list_facts by (simp add: writeTreeFiles_def memory_access_def list_tree_def file_entry_def text_file_def)

lemma list_texts:
  "strict_decode (text_encode (js ''a'')) = Some (js ''a'')" "strict_decode (text_encode (js ''b'')) = Some (js ''b'')"
  "0 \<notin> set (text_encode (js ''a''))" "0 \<notin> set (text_encode (js ''b''))"
  by (rule ascii_claimable, simp add: js_def)+

lemma list_differ: "text_file ''a'' \<noteq> text_file ''b''"
proof
  assume "text_file ''a'' = text_file ''b''"
  then have "text_encode (js ''a'') = text_encode (js ''b'')" by (simp add: text_file_def)
  then have "js ''a'' = js ''b''" using list_texts by (metis option.inject)
  then show False by (simp add: js_def)
qed

lemma list_merge_reads: "merge_reads memory_access 1 None (CommitObject (list_tree ''a'') []) (CommitObject (list_tree ''b'') []) list_trees"
  using list_tree_reads by (simp add: merge_reads_def commitTree_def memory_access_def read_commit_tree_of_def list_trees_def)

lemma list_paths: "all_paths list_trees = [js ''keep.md'', lost_path]"
  using list_facts by (simp add: all_paths_def as_set_def list_trees_def)

lemma list_changed: "both_changed list_trees pa \<longleftrightarrow> pa = lost_path"
  using list_facts list_differ by (auto simp: both_changed_def list_trees_def)

lemma list_offered: "offered_versions memory_access list_trees lost_path = Some \<lparr>vbase = None, vours = Some (js ''a''), vtheirs = Some (js ''b'')\<rparr>"
  using list_facts list_texts list_changed [of lost_path]
  by (simp add: offered_versions_def entries_at_def list_trees_def plain_entry_def text_file_def claimable_text_def readBlob_def
      memory_access_def Let_def)

lemma list_claims: "claim_paths memory_access (Some join_rule) list_trees ()
    = \<lparr>claim_state = (), claimed = [(lost_path, Some (text_encode (js ''ab'')))], claim_held = []\<rparr>"
proof -
  have "offered_versions memory_access list_trees (js ''keep.md'') = None"
    using list_changed [of "js ''keep.md''"] list_facts(1) by (simp add: offered_versions_def)
  moreover have "js ''a'' @ js ''b'' = js ''ab''" by (simp add: js_def)
  ultimately show ?thesis by (simp add: claim_paths_def list_paths claim_path_def list_offered join_rule_def Let_def)
qed

definition list_author :: author where
  "list_author = \<lparr>author_name = js ''Ada'', author_email = js ''ada@example.org''\<rparr>"

lemma list_override:
  "withOverrides memory_access 1 list_author [(lost_path, Some (BlobObject (text_encode (js ''ab''))))] (CommitObject (list_tree t) [])
    = Some (CommitObject (list_tree ''ab'') [CommitObject (list_tree t) []])"
proof -
  have "commitTree memory_access (CommitObject (list_tree t) []) = list_tree t"
    by (simp add: commitTree_def memory_access_def read_commit_tree_of_def)
  moreover have "override_files [(js ''keep.md'', text_file ''k''), (lost_path, text_file t)] [(lost_path, Some (BlobObject (text_encode (js ''ab''))))]
      = [(js ''keep.md'', text_file ''k''), (lost_path, text_file ''ab'')]"
    using list_facts by (simp add: override_files_def text_file_def)
  moreover have "write_commit memory_access c = CommitObject (commit_tree_oid c) (commit_parents c)" for c
    by (simp add: memory_access_def)
  ultimately show ?thesis
    unfolding withOverrides_def by (simp add: list_tree_reads [unfolded One_nat_def] list_tree_written writeCommitObject_def)
qed

lemma list_merged:
  "prepareMerge memory_access 1 (\<lambda>s. None) (Some join_rule) () None (CommitObject (list_tree ''a'') []) (CommitObject (list_tree ''b'') [])
      list_author (js ''Merge'')
    = Inr (PreparedMerge (CommitObject (list_tree ''ab'') [CommitObject (list_tree ''a'') [], CommitObject (list_tree ''b'') []])
        [(js ''keep.md'', text_file ''k''), (lost_path, text_file ''ab'')], ())"
proof -
  let ?claims = "[(lost_path, Some (text_encode (js ''ab'')))]"
  let ?head = "CommitObject (list_tree ''a'') []" and ?fetched = "CommitObject (list_tree ''b'') []"
  have kv: "plan_kv memory_access (\<lambda>s. None) list_trees ?claims = KvUntouched"
    using list_changed [of ROOT_KV] list_facts(5) by (simp add: plan_kv_def)
  have scan: "scan_paths list_trees KvUntouched ?claims = \<lparr>scan_present = [js ''keep.md'', lost_path], scan_conflicts = [], scan_texts = []\<rparr>"
    unfolding scan_paths_def list_paths using list_facts by (simp add: scan_path_def add_present_def list_trees_def)
  have declared: "declared_merge memory_access list_trees [lost_path] = None"
    using list_facts by (simp add: declared_merge_def attribute_files_def list_trees_def mergeAttribute_def firstDeclared_def)
  have shapes: "shape_paths [js ''keep.md'', lost_path] = []" using list_facts by (simp add: shape_paths_def as_set_def)
  have ov: "merge_overrides memory_access KvUntouched ?claims = [(lost_path, Some (BlobObject (text_encode (js ''ab''))))]"
    by (simp add: merge_overrides_def memory_access_def)
  have m: "mergeWith memory_access 1 list_author True ?head ?fetched [(lost_path, Some (BlobObject (text_encode (js ''ab''))))]
      = Some (MergedTree (list_tree ''ab''))"
    using list_override [of "''a''"] list_override [of "''b''"]
    by (simp add: mergeWith_def) (simp add: memory_access_def read_commit_tree_of_def)
  have o: "map_option file_oid (map_of [(js ''keep.md'', text_file ''k''), (lost_path, text_file ''ab'')] lost_path)
      = Some (BlobObject (text_encode (js ''ab'')))"
    using list_facts by (simp add: text_file_def)
  have w: "writeCommitObject memory_access (list_tree ''ab'') [?head, ?fetched] (js ''Merge'') list_author
      = CommitObject (list_tree ''ab'') [?head, ?fetched]"
    by (simp add: writeCommitObject_def memory_access_def)
  have fin: "finish_merge memory_access 1 list_author (js ''Merge'') True ?head ?fetched
      [(lost_path, Some (BlobObject (text_encode (js ''ab''))))] [] []
    = Inr (PreparedMerge (CommitObject (list_tree ''ab'') [?head, ?fetched]) [(js ''keep.md'', text_file ''k''), (lost_path, text_file ''ab'')])"
    unfolding finish_merge_def m option.case merge_answer.case list_tree_reads using o by (simp add: w)
  have "merge_scanned memory_access 1 list_author (js ''Merge'') True ?head ?fetched list_trees KvUntouched
      \<lparr>claim_state = (), claimed = ?claims, claim_held = []\<rparr>
    = Inr (PreparedMerge (CommitObject (list_tree ''ab'') [?head, ?fetched]) [(js ''keep.md'', text_file ''k''), (lost_path, text_file ''ab'')])"
    by (simp add: merge_scanned_def scan declared shapes ov fin [unfolded One_nat_def] Let_def)
  then show ?thesis unfolding prepareMerge_reads [OF list_merge_reads]
    by (simp add: merge_trees_def list_claims kv Let_def)
qed

lemma memory_git_keeps: "git_keeps memory_access n (\<lambda>x y. [])"
proof -
  have "commitTree memory_access x = commitTree memory_access y \<and> t = commitTree memory_access x"
    if "git_merge memory_access x y u = MergedTree t" for x y u t
    using that by (simp add: memory_access_def commitTree_def split: if_splits)
  then show ?thesis unfolding git_keeps_def by fastforce
qed

theorem one_sided_changes_are_kept_witness:
  "\<exists>commit files. prepareMerge memory_access 1 (\<lambda>s. None) (Some join_rule) () None (CommitObject (list_tree ''a'') [])
      (CommitObject (list_tree ''b'') []) list_author (js ''Merge'') = Inr (PreparedMerge commit files, ())
    \<and> map_of files (js ''keep.md'') = Some (text_file ''k'')"
proof -
  have u: "usable 1 (our_tree list_trees)" "usable 1 (their_tree list_trees)"
    using list_facts by (simp_all add: list_trees_def usable_def text_file_def)
  have b: "map_of [] = map_of (base_tree list_trees)"
    "\<forall>cx cy. commit_parents cx = [CommitObject (list_tree ''a'') []] \<longrightarrow> commit_parents cy = [CommitObject (list_tree ''b'') []] \<longrightarrow>
       map_of [] = map_of (base_tree list_trees)" by (simp_all add: list_trees_def)
  have "\<not> both_changed list_trees (js ''keep.md'')" using list_changed list_facts(1) by simp
  with one_sided_changes_are_kept [OF memory_store_ok _ list_merge_reads u memory_git_keeps b list_merged] list_merged
  show ?thesis by (simp add: list_trees_def)
qed

lemma list_answers: "map_of (rule_answers memory_access (Some join_rule) list_trees ()) lost_path = Some (Some (MergedPath (Some (js ''ab''))))"
proof -
  have "offered_versions memory_access list_trees (js ''keep.md'') = None"
    using list_changed [of "js ''keep.md''"] list_facts(1) by (simp add: offered_versions_def)
  moreover have "js ''a'' @ js ''b'' = js ''ab''" by (simp add: js_def)
  ultimately show ?thesis by (simp add: rule_answers_def list_paths list_offered join_rule_def)
qed

theorem both_changed_paths_are_settled_witness:
  "\<exists>commit files. prepareMerge memory_access 1 (\<lambda>s. None) (Some join_rule) () None (CommitObject (list_tree ''a'') [])
      (CommitObject (list_tree ''b'') []) list_author (js ''Merge'') = Inr (PreparedMerge commit files, ())
    \<and> map_option file_oid (map_of files lost_path) = Some (BlobObject (text_encode (js ''ab'')))"
proof -
  have "both_changed list_trees lost_path" by (simp add: list_changed)
  from both_changed_paths_are_settled [OF list_merge_reads list_merged this]
  have "map_option file_oid (map_of [(js ''keep.md'', text_file ''k''), (lost_path, text_file ''ab'')] lost_path)
      = map_option (write_blob memory_access) (Some (text_encode (js ''ab'')))"
    by (simp add: list_answers)
  then show ?thesis using list_merged by (simp add: memory_access_def)
qed

text \<open>A held path: deleted here, changed there.\<close>

definition lost_trees :: "git_object trees" where
  "lost_trees = \<lparr>base_tree = [(js ''keep.md'', text_file ''k''), (lost_path, text_file ''a'')],
     our_tree = [(js ''keep.md'', text_file ''k'')], their_tree = [(js ''keep.md'', text_file ''k''), (lost_path, text_file ''b'')]\<rparr>"

definition kept_tree :: git_object where
  "kept_tree = TreeObject [(js ''keep.md'', PLAIN, BlobObject (text_encode (js ''k'')))]"

lemma lost_merge_reads:
  "merge_reads memory_access 1 (Some (CommitObject (list_tree ''a'') [])) (CommitObject kept_tree []) (CommitObject (list_tree ''b'') []) lost_trees"
proof -
  have "readTreeFiles memory_access 1 kept_tree = Some [(js ''keep.md'', text_file ''k'')]"
    using list_facts by (simp add: readTreeFiles_def memory_access_def kept_tree_def object_entry_def entry_at_def text_file_def)
  then show ?thesis using list_tree_reads
    by (simp add: merge_reads_def commitTree_def) (simp add: memory_access_def read_commit_tree_of_def lost_trees_def)
qed

lemma lost_path_held: "mergePath notes_env [] lost_path lost_versions [] = ([(lost_path, HeldFile lost_path lost_versions)], HeldPath)"
  by (simp add: mergePath_def lost_path_def KV_PATH_def js_def tableAt_def notes_env_def ends_with_def ROW_EXTENSION_def merge_text_def
      lost_versions_def hold_def defineOwn_def)

lemma lost_claims: "claim_paths memory_access (Some (sync_rule notes_env [])) lost_trees []
    = \<lparr>claim_state = [(lost_path, HeldFile lost_path lost_versions)], claimed = [(lost_path, None)], claim_held = [lost_path]\<rparr>"
proof -
  have p: "all_paths lost_trees = [js ''keep.md'', lost_path]"
    using list_facts by (simp add: all_paths_def as_set_def lost_trees_def)
  have c: "both_changed lost_trees pa \<longleftrightarrow> pa = lost_path" for pa
    using list_facts list_differ by (auto simp: both_changed_def lost_trees_def)
  then have "offered_versions memory_access lost_trees (js ''keep.md'') = None" using list_facts(1) by (simp add: offered_versions_def)
  moreover have "offered_versions memory_access lost_trees lost_path = Some lost_versions"
    using list_facts list_texts c [of lost_path]
    by (simp add: offered_versions_def entries_at_def lost_trees_def plain_entry_def text_file_def claimable_text_def readBlob_def
        memory_access_def lost_versions_def Let_def)
  moreover have "our_bytes memory_access lost_trees lost_path = None" using list_facts by (simp add: our_bytes_def lost_trees_def)
  ultimately show ?thesis by (simp add: claim_paths_def p claim_path_def sync_rule_def lost_path_held Let_def)
qed

theorem settled_paths_are_not_held_again_witness:
  "claim_held (claim_paths memory_access (Some (sync_rule notes_env [(lost_path, Some (js ''b''))])) lost_trees []) = []
   \<and> map_of (claimed (claim_paths memory_access (Some (sync_rule notes_env [(lost_path, Some (js ''b''))])) lost_trees [])) lost_path
      = Some (Some (text_encode (js ''b'')))"
proof -
  have "settle_attempt notes_env (make_attempt notes_env [] lost_commits
      (claim_state (claim_paths memory_access (Some (sync_rule notes_env [])) lost_trees []))) (take_incoming (idOf FileUnit lost_path)) (JRef 0)
    = SettledTexts [(lost_path, Some (js ''b''))]"
    using lost_list_settled by (simp add: lost_claims)
  from settled_paths_are_not_held_again [OF this lost_merge_reads] show ?thesis by (simp add: lost_claims)
qed

end
