(* ===== verification/Spec2Isabelle.thy ===== *)
theory Spec2Isabelle
  imports Update_Log Sync_System Autosave Git_Merge
begin

text \<open>
  Verification of the synchronisation core of Epicenter and of the merges of its folders.

  A replica holds a document. What its user edits is first recorded durably (the persistence
  controller over one of two storage ports), then sent by the sync client over a socket that the
  connection driver keeps open; the hub of the document's room appends it to the authority's log,
  acknowledges it with its position and relays it to every other replica. A folder is the other
  half of the product: plain files, synchronised by Git, whose two sides are merged by value.

  \<^bold>\<open>Theories, in the order of the code's layers\<close> (paths under \<^verbatim>\<open>src/packages/app/src/data/\<close>
  unless said otherwise)

  \<^item> \<open>Prelude\<close>, \<open>Js_Text\<close>, \<open>Js_Order\<close>, \<open>Sql_Table\<close>: bytes and results, strings as UTF-16 code
    units with \<^verbatim>\<open>TextEncoder\<close> and \<^verbatim>\<open>TextDecoder\<close>, sorting by a comparison, tables in key order.
  \<^item> \<open>Frames\<close>, \<^verbatim>\<open>sync/frames.ts\<close>: the frames (\<open>frame\<close>), \<open>encodeFrame\<close> and \<open>decodeFrame\<close>, cutting
    (\<open>intoChunks\<close>) and joining (\<open>reassemble\<close>), and the collector of a submission's chunks. They
    round trip, the decoder accepts only what the encoder writes, chunks may come in any order and
    the collector counts its bytes exactly and within its limit.
  \<^item> \<open>Authority\<close>, \<^verbatim>\<open>sync/authority.ts\<close>: the log, its snapshot and the generations in SQLite
    (\<open>db\<close>), every verb in a transaction that may fault. The tables refine an abstract log of entries;
    appends are durable, a replaced snapshot drops exactly what it covers, the first opener of a
    room wins, an activation fences the old generation.
  \<^item> \<open>Hub\<close>, \<^verbatim>\<open>sync/hub.ts\<close>: who is connected and what each was sent (\<open>hub\<close>), with the calls a peer
    makes inside \<^verbatim>\<open>send\<close> as data (\<open>script\<close>). In every run (\<open>hub_run\<close>, in which connections join, send, leave
    and are retired) the frames on a connection are a stream its replica accepts and end at the cursor the
    hub keeps for it, unless it joined at a position the log had not reached; the hub admits such a
    connection and sends it nothing but the admission (\<open>joined_ahead\<close>).
  \<^item> \<open>Update_Log\<close>, \<^verbatim>\<open>store/log.ts\<close> and \<^verbatim>\<open>store/idb-updates.ts\<close>: the replica's record in SQLite and in
    IndexedDB; the two agree row by row, the mirror of the outbox is the outbox, folding keeps the
    document.
  \<^item> \<open>Persistence\<close>, \<^verbatim>\<open>store/persistence.ts\<close>: the queue, the one drain and the mirror (\<open>controller\<close>);
    tasks interleave as steps. The locale \<open>durable_port\<close> is what it asks of a port, interpreted by
    both. Nothing accepted is lost, saved means durable, an acknowledgement covers its submission only.
  \<^item> \<open>Client\<close>, \<^verbatim>\<open>sync/client.ts\<close> and the sync engine of \<^verbatim>\<open>store/store.ts\<close>: what a replica does with each
    frame, when it sends and what settles a submission. The cursor moves only with the bytes it covers.
  \<^item> \<open>Connection\<close>, \<^verbatim>\<open>sync/connection.ts\<close>: the driver (\<open>driver\<close>, \<open>driver_step\<close>), its timers as fields and a
    timer that fires as a step. Dialling and the teardown of a socket may throw (\<open>brittle\<close>, \<open>lostDials\<close>). A
    running driver is never parked, unless a teardown threw inside \<open>reconnect\<close>, which then schedules no
    redial (\<open>throwing_teardown_parks\<close>); sockets it no longer uses are let go, an end is final, the
    watchdog catches a stall.
  \<^item> \<open>Kv_Merge\<close>, \<^verbatim>\<open>src/packages/folder/src/kv-merge.ts\<close>: the three-way merge of \<^verbatim>\<open>kv.json\<close> by key,
    symmetric, losing no change, with resolutions that settle competing keys only.
  \<^item> \<open>Merge_Lines\<close>, \<^verbatim>\<open>src/packages/folder/src/git/merge-lines.ts\<close>: the merge of texts by line; a result
    takes every part from a side and never mixes two changes.
  \<^item> \<open>Js_Value\<close>, \<^verbatim>\<open>src/packages/definition/src/json.ts\<close>: values on a heap of objects, the walk that decides
    whether one is JSON (\<open>isJsonSafe\<close>, its own stack) and the guards with a budget. The walk ends and
    accepts exactly the acyclic finite values; the budget is exact, up to the holes of arrays.
  \<^item> \<open>Canonical\<close>, \<^verbatim>\<open>src/packages/folder/src/markdown.ts\<close> and \<^verbatim>\<open>canonical.ts\<close>: the frame of a row file, the
    conversion of parsed YAML (\<open>parseRowSource\<close>) and the writing of a document (\<open>formatRowSource\<close>).
    What is accepted is canonical and bounded; what is written reads back as what was supplied, and
    its text does not depend on the order of members.
  \<^item> \<open>Row_Text\<close>, \<^verbatim>\<open>src/packages/folder/src/row-text.ts\<close> and \<open>check\<close> of \<^verbatim>\<open>src/packages/definition/src/prepare.ts\<close>:
    a row is read exactly when it conforms to its table, and what a validating write saves is a row.
  \<^item> \<open>Row_Merge\<close>, \<^verbatim>\<open>src/packages/folder/src/row-merge.ts\<close>: the merge of a row by field and body; every change
    is kept or reported, and the sides may be exchanged.
  \<^item> \<open>Folder_Storage\<close>, \<^verbatim>\<open>src/packages/folder/src/capture.ts\<close>, \<^verbatim>\<open>boundary.ts\<close>, \<^verbatim>\<open>errors.ts\<close> and the single
    publications of \<^verbatim>\<open>storage.ts\<close>: captures, file changes with their conditions, what one change came to
    (\<open>applyOne\<close>, \<open>replaceCaptured\<close>). A confirmed save was in the file when it landed. The storages themselves
    (\<^verbatim>\<open>native-store.ts\<close>, \<^verbatim>\<open>opfs-store.ts\<close> and the desktop owner) are not modelled; the contract \<open>answers\<close>
    states the guard they document, which is best effort: bytes another program writes between the check
    and the publication are displaced, and \<open>answers\<close> says so.
  \<^item> \<open>Paths\<close>, \<^verbatim>\<open>src/packages/folder/src/paths.ts\<close>: usable paths and row addresses, which are unique.
  \<^item> \<open>Autosave\<close>, \<^verbatim>\<open>src/packages/folder/src/autosave.ts\<close>: one editing session (\<open>session\<close>), whose observer may request
    again from inside a notification; \<open>runs\<close> are its histories. Saved means the latest request landed, one write
    runs at a time over the last confirmed bytes, and the work ends.
  \<^item> \<open>Kv_File\<close>, \<^verbatim>\<open>src/packages/folder/src/kv.ts\<close>: reading settings, the text of a setting, and the handle
    (\<open>kv_handle\<close>) with its batches; steps interleave with other writers (\<open>kv_step\<close>). A set keeps every other key
    of the content it last checked, sets are answered in order and give up after three lost races, a stored setting reads back.
  \<^item> \<open>Folder_Sync\<close> and \<open>Sync_Settle\<close>, \<^verbatim>\<open>src/packages/folder/src/git/sync.ts\<close>: the merge of a path
    (\<open>mergePath\<close>) over \<open>Kv_Merge\<close>, \<open>Row_Merge\<close> and \<open>Merge_Lines\<close>, what it holds as conflicts, and the settling of
    choices. Conflict identifiers are distinct, settling never throws, a settled merge holds nothing.
  \<^item> \<open>Git_Attributes\<close>, \<^verbatim>\<open>src/packages/folder/src/git/attributes.ts\<close>: attribute lines, the matcher \<open>dowild\<close>
    (\<open>wild_loop\<close>, \<open>star_scan\<close>, \<open>bracket_loop\<close>) and \<open>mergeAttribute\<close>. A plain pattern matches as it reads, up to
    the case of ASCII letters; of the assignments that reach a path the one at the last place (directory, line,
    position in the line) decides; the first path in byte order is named.
  \<^item> \<open>Git_Objects\<close>, \<^verbatim>\<open>src/packages/folder/src/git/objects.ts\<close>: the record \<open>git_access\<close> of functions over
    object names, trees written and read, differences and the history walk. Written trees read back, for trees no
    deeper than the number \<open>n\<close> that bounds the walk.
  \<^item> \<open>Git_Merge\<close>, \<^verbatim>\<open>src/packages/folder/src/git/merge.ts\<close>: \<open>prepareMerge\<close>, with sync's rules as a function that
    threads what it holds. One-sided changes are kept, a path both sides changed is never settled in silence, and
    settled paths are not held again.

  \<open>Sync_System\<close> composes the replica with the hub: a joining replica catches up, and an edit
  reaches every other replica and comes back acknowledged.

  \<^bold>\<open>Conventions\<close>

  Numbers are natural numbers or integers; where the wire holds 32 bits, encoding wraps and
  decoding is stated for what fits. Bytes are \<open>8 word\<close>. A \<^verbatim>\<open>Result\<close> is a sum, \<^verbatim>\<open>undefined\<close> an option.
  Loops are recursive functions with a termination proof. Where the recursion of the code follows
  data that the model holds as lists it is structural; fuel appears in the drain of the hub, where
  each round handles one message and the theorems give a bound that is enough,
  and in \<open>convertNode\<close>, whose fuel is the limit \<open>MAX_NODES\<close> of the code itself: every call counts a
  node, so the fuel never runs out before the count refuses (theorem \<open>conversion_ends_by_count\<close>).
  Code that is not under \<^verbatim>\<open>src/\<close> is an argument: the Yjs library (record \<open>yjs\<close>), the digest of a
  baseline, the JSON parser, the line diff, the YAML parser (what it builds for a text), the
  Unicode classes of a regular expression, the compiled validators of a field,
  the digest of a file, what a storage answers (the contract \<open>answers\<close> in \<open>Folder_Storage\<close>),
  isomorphic-git's object store and merge (the laws \<open>store_ok\<close> and \<open>git_keeps\<close>). What a theorem relies on of it is a
  named predicate in its hypotheses (\<open>diff_ok\<close>, \<open>parser_ok\<close>, the laws of a document), and each such
  theorem has a witness at a concrete instance.

  \<^bold>\<open>Limits of the model\<close>

  The hub's \<^verbatim>\<open>connection.send\<close> does not throw, and no connection joins from inside it; the streams of the
  hub are stated for runs without storage faults, and of the connections whose position was in the log
  when they joined (a parameter of \<open>hub_run\<close> names the others).
  Merging updates is total. The listeners of the persistence controller act between two steps of
  its drain. Inside \<^verbatim>\<open>socket.send\<close> a host may detach or dispose of the client, and its synchronous
  replies are handled after the client's part of the handler; a host calls back only on attempts it
  was handed. The JSON parser fails only with a \<^verbatim>\<open>RangeError\<close>, and a line diff is an edit script.
  Objects that callers supply have no \<^verbatim>\<open>toJSON\<close> and no getters, and the objects of submitted choices list
  their members in the order of the language. The observer of an editing session is the list of what it requests in turn.

  \<^bold>\<open>Not modelled\<close>

  The typed tables, queries and notifications of \<^verbatim>\<open>store/store.ts\<close> (reads over a Yjs document), the
  attachment of hosts (workers, sockets, IndexedDB events), the Git history and storage backends of
  the folder, authentication and billing, the applications and their user interfaces, the
  servers' routes, build scripts and evidence programs: they are glue over the platform or over
  third-party libraries, or have no state of their own beyond what is modelled here.
\<close>

end
